(* ===== verification/Prelude.thy ===== *)
theory Prelude
  imports Main "HOL-Library.Word" "HOL-Library.Monad_Syntax"
begin

unbundle bit_operations_syntax

text \<open>
  Shared vocabulary of the development.  It holds the names of the machine
  types, the byte-memory primitives that stand for \<open>memcpy\<close>,
  \<open>memmove\<close>, \<open>memset\<close> and \<open>zrealloc\<close> on one allocated block, the
  little-endian view of integers, and the list, option and word lemmas that
  several components use.

  A block of allocated memory is a byte list.  Every access goes through
  \<open>mem_read\<close> and \<open>mem_write\<close>, which return \<open>None\<close> outside the
  block, so that \<open>None\<close> as the result of an operation means that the C code
  would touch memory it does not own (or would fail an assertion).  Memory that
  \<open>malloc\<close> hands out is not initialised: the bytes it holds are the
  argument \<open>fresh\<close> of the operations that allocate.
\<close>

section \<open>Machine types\<close>

type_synonym byte = "8 word"
type_synonym u16 = "16 word"
type_synonym u32 = "32 word"
type_synonym u64 = "64 word"
type_synonym i64 = "64 word"
type_synonym bytes = "byte list"
type_synonym fresh_mem = "nat \<Rightarrow> byte"

text \<open>Collections of rewrite rules: \<open>mem_simps\<close> for block accesses.\<close>

named_theorems mem_simps

section \<open>Blocks of memory\<close>

definition mem_read :: "nat \<Rightarrow> nat \<Rightarrow> 'a list \<Rightarrow> 'a list option" where
  "mem_read off n bs = (if off + n \<le> length bs then Some (take n (drop off bs)) else None)"

definition mem_write :: "nat \<Rightarrow> 'a list \<Rightarrow> 'a list \<Rightarrow> 'a list option" where
  "mem_write off xs bs =
     (if off + length xs \<le> length bs
      then Some (take off bs @ xs @ drop (off + length xs) bs) else None)"

definition mem_get :: "nat \<Rightarrow> 'a list \<Rightarrow> 'a option" where
  "mem_get i bs = (if i < length bs then Some (bs ! i) else None)"

definition mem_set :: "nat \<Rightarrow> 'a \<Rightarrow> 'a list \<Rightarrow> 'a list option" where
  "mem_set i x bs = (if i < length bs then Some (bs[i := x]) else None)"

definition mem_move :: "nat \<Rightarrow> nat \<Rightarrow> nat \<Rightarrow> 'a list \<Rightarrow> 'a list option" where
  "mem_move dst src n bs = do { xs \<leftarrow> mem_read src n bs; mem_write dst xs bs }"

definition mem_alloc :: "(nat \<Rightarrow> 'a) \<Rightarrow> nat \<Rightarrow> 'a list" where
  "mem_alloc fresh n = map fresh [0..<n]"

definition mem_realloc :: "(nat \<Rightarrow> 'a) \<Rightarrow> nat \<Rightarrow> 'a list \<Rightarrow> 'a list" where
  "mem_realloc fresh n bs = take n bs @ map fresh [length bs..<n]"

lemma length_mem_realloc [simp]: "length (mem_realloc fresh n bs) = n"
  by (simp add: mem_realloc_def)

lemma length_mem_alloc [simp]: "length (mem_alloc fresh n) = n"
  by (simp add: mem_alloc_def)

lemma mem_realloc_grow:
  "length bs \<le> n \<Longrightarrow> mem_realloc fresh n bs = bs @ map fresh [length bs..<n]"
  by (simp add: mem_realloc_def)

lemma mem_realloc_shrink: "n \<le> length bs \<Longrightarrow> mem_realloc fresh n bs = take n bs"
  by (simp add: mem_realloc_def)

lemma mem_read_Some_iff [mem_simps]:
  "mem_read off n bs = Some xs \<longleftrightarrow> off + n \<le> length bs \<and> xs = take n (drop off bs)"
  by (auto simp: mem_read_def)

lemma mem_write_Some_iff [mem_simps]:
  "mem_write off xs bs = Some bs' \<longleftrightarrow>
     off + length xs \<le> length bs \<and> bs' = take off bs @ xs @ drop (off + length xs) bs"
  by (auto simp: mem_write_def)

lemma mem_get_Some_iff [mem_simps]: "mem_get i bs = Some x \<longleftrightarrow> i < length bs \<and> x = bs ! i"
  by (auto simp: mem_get_def)

lemma mem_set_Some_iff [mem_simps]:
  "mem_set i x bs = Some bs' \<longleftrightarrow> i < length bs \<and> bs' = bs[i := x]"
  by (auto simp: mem_set_def)

lemma mem_write_length: "mem_write off xs bs = Some bs' \<Longrightarrow> length bs' = length bs"
  by (auto simp: mem_simps)

lemma mem_read_append3: "mem_read (length a) (length b) (a @ b @ c) = Some b"
  by (simp add: mem_read_def)

lemma mem_write_append3:
  "length b = length b' \<Longrightarrow> mem_write (length a) b' (a @ b @ c) = Some (a @ b' @ c)"
  by (simp add: mem_write_def)

section \<open>Little-endian integers\<close>

fun le_word :: "bytes \<Rightarrow> u64" where
  "le_word [] = 0"
| "le_word (b # bs) = ucast b OR push_bit 8 (le_word bs)"

fun le_bytes :: "nat \<Rightarrow> u64 \<Rightarrow> bytes" where
  "le_bytes 0 v = []"
| "le_bytes (Suc n) v = ucast v # le_bytes n (drop_bit 8 v)"

lemma length_le_bytes [simp]: "length (le_bytes n v) = n"
  by (induction n arbitrary: v) auto

lemma ucast_byte_or_push:
  "(ucast (ucast v :: byte) :: u64) OR push_bit 8 (take_bit k (drop_bit 8 v)) = take_bit (8 + k) v"
  by (rule bit_word_eqI) (auto simp: bit_simps bit_ucast_iff bit_push_bit_iff bit_take_bit_iff
      bit_drop_bit_eq nat_less_iff)

lemma le_word_le_bytes [simp]: "le_word (le_bytes n v) = take_bit (8 * n) v"
  by (induction n arbitrary: v) (auto simp: ucast_byte_or_push)

lemma take_bit_le_word [simp]: "take_bit (8 * length bs) (le_word bs) = le_word bs"
proof (induction bs)
  case (Cons b bs)
  have "take_bit (8 + 8 * length bs) (ucast b OR push_bit 8 (le_word bs))
      = (ucast b :: u64) OR push_bit 8 (take_bit (8 * length bs) (le_word bs))"
    by (rule bit_word_eqI) (auto simp: bit_simps dest: bit_imp_le_length)
  then show ?case using Cons.IH by simp
qed simp

lemma ucast_or_push_low: "ucast ((ucast (b :: byte) :: u64) OR push_bit 8 x) = b"
  by (rule bit_word_eqI) (auto simp: bit_simps)

lemma drop_or_push: "drop_bit 8 ((ucast (b :: byte) :: u64) OR push_bit 8 x) = take_bit 56 x"
  by (rule bit_word_eqI) (auto simp: bit_simps dest: bit_imp_le_length)

lemma le_word_take_bit: "length bs \<le> n \<Longrightarrow> take_bit (8 * n) (le_word bs) = le_word bs"
  using take_bit_take_bit [of "8 * n" "8 * length bs" "le_word bs"] by (simp add: min_def)

lemma le_bytes_le_word: "length bs \<le> 8 \<Longrightarrow> le_bytes (length bs) (le_word bs) = bs"
proof (induction bs)
  case (Cons b bs)
  then have "take_bit 56 (le_word bs) = le_word bs"
    using le_word_take_bit [of bs 7] by simp
  with Cons show ?case by (simp add: ucast_or_push_low drop_or_push del: drop_bit_or)
qed simp

lemma le_bytes_take_bit: "8 * n \<le> k \<Longrightarrow> le_bytes n (take_bit k v) = le_bytes n v"
proof (induction n arbitrary: v k)
  case (Suc n)
  then have "8 * n \<le> k - 8" and k: "8 \<le> k" by auto
  have "ucast (take_bit k v) = (ucast v :: byte)"
    using k by (intro bit_word_eqI) (auto simp: bit_simps)
  moreover have "drop_bit 8 (take_bit k v) = take_bit (k - 8) (drop_bit 8 v)"
    by (simp add: drop_bit_take_bit)
  ultimately show ?case using Suc.IH [OF \<open>8 * n \<le> k - 8\<close>] by simp
qed simp

text \<open>The signed reading of \<open>n\<close> bytes, as in \<open>int16_t\<close>, \<open>int32_t\<close> and \<open>int64_t\<close>.\<close>

definition fits :: "nat \<Rightarrow> i64 \<Rightarrow> bool" where
  "fits n v \<longleftrightarrow> - (2 ^ (8 * n - 1)) \<le> sint v \<and> sint v < 2 ^ (8 * n - 1)"

lemma fits_iff: "0 < n \<Longrightarrow> n \<le> 8 \<Longrightarrow> fits n v \<longleftrightarrow> signed_take_bit (8 * n - 1) v = v"
proof -
  assume n: "0 < n" "n \<le> 8"
  have "sint (signed_take_bit (8 * n - 1) v) = signed_take_bit (8 * n - 1) (sint v)"
    using n by (intro bit_eqI) (auto simp: bit_simps bit_sint_iff min_def dest: bit_imp_le_length)
  then show ?thesis
    by (metis fits_def signed_take_bit_int_eq_self_iff signed_word_eqI)
qed

lemma signed_le_word_le_bytes:
  "0 < n \<Longrightarrow> fits n v \<Longrightarrow> n \<le> 8 \<Longrightarrow> signed_take_bit (8 * n - 1) (le_word (le_bytes n v)) = v"
  by (simp add: fits_iff signed_take_bit_take_bit del: One_nat_def) linarith

lemma fits_8 [simp]: "fits 8 v"
  using sint_greater_eq [of v] sint_lt [of v] by (simp add: fits_def)

lemma fits_mono: "m \<le> n \<Longrightarrow> fits m v \<Longrightarrow> fits n v"
proof -
  assume "m \<le> n"
  then have "(2 :: int) ^ (8 * m - 1) \<le> 2 ^ (8 * n - 1)"
    by (intro power_increasing) auto
  then show "fits m v \<Longrightarrow> fits n v" unfolding fits_def by linarith
qed

lemma sint_word_of_int_small:
  "- (2 ^ (LENGTH('a::len) - 1)) \<le> k \<Longrightarrow> k < 2 ^ (LENGTH('a) - 1) \<Longrightarrow>
   sint (word_of_int k :: 'a word) = k"
  by (metis sint_sbintrunc' signed_take_bit_int_eq_self)

lemma sint_of_nat_small:
  "n < 2 ^ (LENGTH('a::len) - 1) \<Longrightarrow> sint (word_of_nat n :: 'a word) = int n"
proof -
  assume "n < 2 ^ (LENGTH('a) - 1)"
  then have "int n < 2 ^ (LENGTH('a) - 1)" by (metis of_nat_less_iff of_nat_numeral of_nat_power)
  moreover have "- (2 ^ (LENGTH('a) - 1)) \<le> int n"
    by (rule order_trans [of _ 0]) auto
  ultimately show ?thesis using sint_word_of_int_small [of "int n", where 'a = 'a] by simp
qed

lemma sint_eq_int_unat:
  "unat (w :: 'a::len word) < 2 ^ (LENGTH('a) - 1) \<Longrightarrow> sint w = int (unat w)"
  by (metis of_nat_unat sint_of_nat_small ucast_id)

lemma unat_of_nat_small: "n < 2 ^ LENGTH('a::len) \<Longrightarrow> unat (word_of_nat n :: 'a word) = n"
  by (simp add: of_nat_inverse)

section \<open>Arrays of equally long chunks\<close>

lemma length_concat_chunks:
  "(\<And>x. length (f x) = w) \<Longrightarrow> length (concat (map f xs)) = length xs * w"
  by (induction xs) auto

lemma take_concat_chunks:
  "(\<And>x. length (f x) = w) \<Longrightarrow> take (i * w) (concat (map f xs)) = concat (map f (take i xs))"
proof (induction xs arbitrary: i)
  case (Cons x xs)
  then show ?case by (cases i) auto
qed simp

lemma drop_concat_chunks:
  "(\<And>x. length (f x) = w) \<Longrightarrow> drop (i * w) (concat (map f xs)) = concat (map f (drop i xs))"
proof (induction xs arbitrary: i)
  case (Cons x xs)
  then show ?case by (cases i) auto
qed simp

lemma concat_chunks_split:
  "i < length xs \<Longrightarrow>
   concat (map f xs) = concat (map f (take i xs)) @ f (xs ! i) @ concat (map f (drop (Suc i) xs))"
  using arg_cong [OF id_take_nth_drop [of i xs], of "\<lambda>ys. concat (map f ys)"] by simp

lemma chunk_decomp:
  "length bs = n * w \<Longrightarrow> \<exists>xss. length xss = n \<and> concat xss = bs \<and> (\<forall>xs\<in>set xss. length xs = w)"
proof (induction n arbitrary: bs)
  case (Suc n)
  then have "length (drop w bs) = n * w" by simp
  then obtain xss where "length xss = n" "concat xss = drop w bs" "\<forall>xs\<in>set xss. length xs = w"
    using Suc.IH by blast
  then have "length (take w bs # xss) = Suc n \<and> concat (take w bs # xss) = bs \<and>
      (\<forall>xs\<in>set (take w bs # xss). length xs = w)"
    using Suc.prems by simp
  then show ?case by blast
qed simp

section \<open>Signed values and small list facts\<close>

lemma mem_set_append: "i = length xs \<Longrightarrow> mem_set i a (xs @ x # ys) = Some (xs @ a # ys)"
  by (simp add: mem_set_def)

lemma length_Suc2_rev: "length xs = Suc (Suc n) \<Longrightarrow> \<exists>ys a b. xs = ys @ [a, b] \<and> length ys = n"
  by (cases xs rule: rev_cases; cases "butlast xs" rule: rev_cases) auto

lemma sint_unat:
  fixes v :: "'a::len word"
  shows "sint v = (if unat v < 2 ^ (LENGTH('a) - 1) then int (unat v) else int (unat v) - 2 ^ LENGTH('a))"
proof (cases "unat v < 2 ^ (LENGTH('a) - 1)")
  case True
  then show ?thesis by (simp only: if_True sint_eq_int_unat)
next
  case False
  define n where "n = LENGTH('a) - 1"
  have n: "(2 :: int) ^ LENGTH('a) = 2 * 2 ^ n" unfolding n_def by (simp flip: power_Suc)
  have "2 ^ n \<le> unat v" using False unfolding n_def by (rule leI)
  then have u: "(2 :: int) ^ n \<le> uint v"
    using of_nat_le_iff [of "2 ^ n" "unat v", where 'a = int] by simp
  have lt: "uint v < 2 ^ LENGTH('a)" by (rule uint_lt2p)
  have "(word_of_int (uint v - 2 ^ LENGTH('a)) :: 'a word) = v"
    unfolding wi_hom_sub [symmetric] word_of_int_uint word_of_int_2p_len by (rule diff_zero)
  moreover have "sint (word_of_int (uint v - 2 ^ LENGTH('a)) :: 'a word) = uint v - 2 ^ LENGTH('a)"
    by (rule sint_word_of_int_small) (use u lt n in \<open>simp_all add: n_def\<close>)
  ultimately have "sint v = uint v - 2 ^ LENGTH('a)" by (simp only:)
  then show ?thesis using False by (simp only: if_False uint_nat)
qed

lemma unat_minus_nz: "v \<noteq> 0 \<Longrightarrow> unat (- v :: 'a::len word) = 2 ^ LENGTH('a) - unat v"
proof -
  assume "v \<noteq> 0"
  then have "0 < unat v" by (simp add: unat_gt_0)
  have "unat v \<le> 2 ^ LENGTH('a)" by (rule less_imp_le [OF unsigned_less])
  then have "word_of_nat (unat v) + word_of_nat (2 ^ LENGTH('a) - unat v) = (0 :: 'a word)"
    unfolding of_nat_add [symmetric] by simp
  then have "- v = word_of_nat (2 ^ LENGTH('a) - unat v)" by (simp add: add_eq_0_iff)
  then show ?thesis using \<open>0 < unat v\<close> unat_of_nat_small [of "2 ^ LENGTH('a) - unat v", where 'a = 'a] by simp
qed

lemma unat_ucast_wide: "unat (ucast (x :: byte) :: u64) = unat x"
proof -
  have "unat x < 2 ^ LENGTH(8)" by (rule unsigned_less)
  then show ?thesis by (simp add: unsigned_ucast_eq take_bit_nat_eq_self_iff)
qed

lemma unat_less64: "unat (w :: u64) < 2 ^ 64"
proof -
  have "unat w < 2 ^ LENGTH(64)" by (rule unsigned_less)
  then show ?thesis by simp
qed

section \<open>Loops\<close>

text \<open>\<open>for\<close> loops whose body may fail.\<close>

fun for_each :: "'a list \<Rightarrow> ('a \<Rightarrow> 's \<Rightarrow> 's option) \<Rightarrow> 's \<Rightarrow> 's option" where
  "for_each [] f s = Some s"
| "for_each (j # js) f s = do { s \<leftarrow> f j s; for_each js f s }"

end
