(* ===== verification/Interfaces.thy ===== *)
theory Interfaces
  imports Prelude
begin

text \<open>
  The contracts that the containers of the server offer to the code that calls
  them, as locales.  A component that provides a container interprets the locale
  on its own definitions; the lemmas proved here from the contract alone then
  hold for it.  Operations are partial (\<open>None\<close> is an access outside an
  allocated block), so a contract says that the operation succeeds and what it
  yields.
\<close>

section \<open>Sets with a bounded number of members\<close>

datatype 'a set_op = SAdd 'a | SRem 'a

fun run_set_ops ::
    "('s \<Rightarrow> 'a \<Rightarrow> ('s \<times> bool) option) \<Rightarrow> ('s \<Rightarrow> 'a \<Rightarrow> ('s \<times> bool) option) \<Rightarrow>
     'a set_op list \<Rightarrow> 's \<Rightarrow> 's option" where
  "run_set_ops add rem [] s = Some s"
| "run_set_ops add rem (SAdd x # ops) s = do { (s', ok) \<leftarrow> add s x; run_set_ops add rem ops s' }"
| "run_set_ops add rem (SRem x # ops) s = do { (s', ok) \<leftarrow> rem s x; run_set_ops add rem ops s' }"

fun set_ops_result :: "'a set_op list \<Rightarrow> 'a set \<Rightarrow> 'a set" where
  "set_ops_result [] A = A"
| "set_ops_result (SAdd x # ops) A = set_ops_result ops (insert x A)"
| "set_ops_result (SRem x # ops) A = set_ops_result ops (A - {x})"

locale bounded_set =
  fixes new :: 's
    and add :: "'s \<Rightarrow> 'a \<Rightarrow> ('s \<times> bool) option"
    and remove :: "'s \<Rightarrow> 'a \<Rightarrow> ('s \<times> bool) option"
    and find :: "'s \<Rightarrow> 'a \<Rightarrow> bool option"
    and elems :: "'s \<Rightarrow> 'a set"
    and ok :: "'s \<Rightarrow> bool"
    and cap :: nat
  assumes new_ok: "ok new"
    and new_elems: "elems new = {}"
    and finite_elems: "ok s \<Longrightarrow> finite (elems s)"
    and add_law: "ok s \<Longrightarrow> card (elems s) < cap \<Longrightarrow>
      \<exists>s'. add s x = Some (s', x \<notin> elems s) \<and> ok s' \<and> elems s' = insert x (elems s)"
    and remove_law: "ok s \<Longrightarrow> card (elems s) \<le> cap \<Longrightarrow>
      \<exists>s'. remove s x = Some (s', x \<in> elems s) \<and> ok s' \<and> elems s' = elems s - {x}"
    and find_law: "ok s \<Longrightarrow> card (elems s) \<le> cap \<Longrightarrow> find s x = Some (x \<in> elems s)"
begin

lemma run_law:
  "ok s \<Longrightarrow> card (elems s) + length ops \<le> cap \<Longrightarrow>
   \<exists>s'. run_set_ops add remove ops s = Some s' \<and> ok s' \<and>
     elems s' = set_ops_result ops (elems s) \<and> card (elems s') \<le> cap"
proof (induction ops arbitrary: s)
  case (Cons op ops)
  show ?case
  proof (cases op)
    case (SAdd x)
    obtain s' where s': "add s x = Some (s', x \<notin> elems s)" "ok s'" "elems s' = insert x (elems s)"
      using add_law [of s x] Cons.prems by auto
    moreover have "card (elems s') + length ops \<le> cap"
      using Cons.prems s'(3) card_insert_le_m1 [of "Suc (card (elems s))" "elems s" x] by simp
    ultimately show ?thesis using Cons.IH [of s'] SAdd by simp
  next
    case (SRem x)
    obtain s' where s': "remove s x = Some (s', x \<in> elems s)" "ok s'" "elems s' = elems s - {x}"
      using remove_law [of s x] Cons.prems by auto
    moreover have "card (elems s') + length ops \<le> cap"
      using Cons.prems s'(3) card_Diff1_le [of "elems s" x] by simp
    ultimately show ?thesis using Cons.IH [of s'] SRem by simp
  qed
qed simp

lemma run_find:
  assumes "length ops \<le> cap"
  shows "\<exists>s. run_set_ops add remove ops new = Some s \<and> ok s \<and>
    (\<forall>x. find s x = Some (x \<in> set_ops_result ops {}))"
proof -
  obtain s where s: "run_set_ops add remove ops new = Some s" "ok s"
      "elems s = set_ops_result ops {}" "card (elems s) \<le> cap"
    using run_law [OF new_ok, of ops] assms by (auto simp: new_elems)
  then show ?thesis using find_law by auto
qed

end

section \<open>Maps up to an equivalence of keys\<close>

definition upd_key :: "('k \<Rightarrow> 'k \<Rightarrow> bool) \<Rightarrow> ('k \<Rightarrow> 'v option) \<Rightarrow> 'k \<Rightarrow> 'v option \<Rightarrow> 'k \<Rightarrow> 'v option" where
  "upd_key eqv m key r = (\<lambda>k. if eqv key k then r else m k)"

text \<open>
  The operations of a client, and the maintenance (resizing, incremental work)
  that the server interleaves with them.
\<close>

datatype ('k, 'v) map_op = MAdd 'k 'v | MReplace 'k 'v | MDelete 'k | MFetch 'k | MMaint nat

datatype 'v map_res = RBool bool | RVal "'v option" | RDone

record ('s, 'k, 'v) map_ops =
  mo_add :: "'s \<Rightarrow> 'k \<Rightarrow> 'v \<Rightarrow> ('s \<times> bool) option"
  mo_replace :: "'s \<Rightarrow> 'k \<Rightarrow> 'v \<Rightarrow> ('s \<times> bool) option"
  mo_delete :: "'s \<Rightarrow> 'k \<Rightarrow> ('s \<times> bool) option"
  mo_fetch :: "'s \<Rightarrow> 'k \<Rightarrow> ('s \<times> 'v option) option"
  mo_maint :: "nat \<Rightarrow> 's \<Rightarrow> 's option"

fun run_map_op :: "('s, 'k, 'v) map_ops \<Rightarrow> ('k, 'v) map_op \<Rightarrow> 's \<Rightarrow> ('s \<times> 'v map_res) option" where
  "run_map_op mo (MAdd k v) s = map_option (apsnd RBool) (mo_add mo s k v)"
| "run_map_op mo (MReplace k v) s = map_option (apsnd RBool) (mo_replace mo s k v)"
| "run_map_op mo (MDelete k) s = map_option (apsnd RBool) (mo_delete mo s k)"
| "run_map_op mo (MFetch k) s = map_option (apsnd RVal) (mo_fetch mo s k)"
| "run_map_op mo (MMaint n) s = map_option (\<lambda>s. (s, RDone)) (mo_maint mo n s)"

fun run_map_ops :: "('s, 'k, 'v) map_ops \<Rightarrow> ('k, 'v) map_op list \<Rightarrow> 's \<Rightarrow> ('s \<times> 'v map_res list) option" where
  "run_map_ops mo [] s = Some (s, [])"
| "run_map_ops mo (op # ops) s = do {
     (s, r) \<leftarrow> run_map_op mo op s;
     (s, rs) \<leftarrow> run_map_ops mo ops s;
     Some (s, r # rs) }"

text \<open>What the same operations do to a mathematical map; \<open>store\<close> is the copy made of a value.\<close>

fun spec_map_op ::
    "('k \<Rightarrow> 'k \<Rightarrow> bool) \<Rightarrow> ('v \<Rightarrow> 'v) \<Rightarrow> ('k, 'v) map_op \<Rightarrow> ('k \<Rightarrow> 'v option) \<Rightarrow> ('k \<Rightarrow> 'v option) \<times> 'v map_res" where
  "spec_map_op eqv store (MAdd k v) m =
     (if m k = None then (upd_key eqv m k (Some (store v)), RBool True) else (m, RBool False))"
| "spec_map_op eqv store (MReplace k v) m = (upd_key eqv m k (Some (store v)), RBool (m k = None))"
| "spec_map_op eqv store (MDelete k) m = (upd_key eqv m k None, RBool (m k \<noteq> None))"
| "spec_map_op eqv store (MFetch k) m = (m, RVal (m k))"
| "spec_map_op eqv store (MMaint n) m = (m, RDone)"

fun spec_map_ops ::
    "('k \<Rightarrow> 'k \<Rightarrow> bool) \<Rightarrow> ('v \<Rightarrow> 'v) \<Rightarrow> ('k, 'v) map_op list \<Rightarrow> ('k \<Rightarrow> 'v option) \<Rightarrow>
     ('k \<Rightarrow> 'v option) \<times> 'v map_res list" where
  "spec_map_ops eqv store [] m = (m, [])"
| "spec_map_ops eqv store (op # ops) m =
     (let (m, r) = spec_map_op eqv store op m; (m, rs) = spec_map_ops eqv store ops m in (m, r # rs))"

locale map_store =
  fixes mo :: "('s, 'k, 'v) map_ops"
    and eqv :: "'k \<Rightarrow> 'k \<Rightarrow> bool"
    and store :: "'v \<Rightarrow> 'v"
    and absm :: "'s \<Rightarrow> 'k \<Rightarrow> 'v option"
    and count :: "'s \<Rightarrow> nat"
    and ok :: "'s \<Rightarrow> bool"
    and cap :: nat
  assumes op_law: "ok s \<Longrightarrow> count s < cap \<Longrightarrow>
      \<exists>s'. run_map_op mo op s = Some (s', snd (spec_map_op eqv store op (absm s))) \<and> ok s' \<and>
        absm s' = fst (spec_map_op eqv store op (absm s)) \<and> count s' \<le> Suc (count s)"
begin

lemma run_law:
  "ok s \<Longrightarrow> count s + length ops \<le> cap \<Longrightarrow>
   \<exists>s'. run_map_ops mo ops s = Some (s', snd (spec_map_ops eqv store ops (absm s))) \<and> ok s' \<and>
     absm s' = fst (spec_map_ops eqv store ops (absm s)) \<and> count s' \<le> count s + length ops"
proof (induction ops arbitrary: s)
  case (Cons op ops)
  obtain s' where s': "run_map_op mo op s = Some (s', snd (spec_map_op eqv store op (absm s)))" "ok s'"
      "absm s' = fst (spec_map_op eqv store op (absm s))" "count s' \<le> Suc (count s)"
    using op_law [of s op] Cons.prems by auto
  then obtain s2 where s2: "run_map_ops mo ops s' = Some (s2, snd (spec_map_ops eqv store ops (absm s')))" "ok s2"
      "absm s2 = fst (spec_map_ops eqv store ops (absm s'))" "count s2 \<le> count s' + length ops"
    using Cons.IH [of s'] Cons.prems by auto
  then show ?case using s' by (auto simp: case_prod_unfold Let_def)
qed simp

end

section \<open>Iterators\<close>

text \<open>
  An iterator is a call that returns the next element and a new state, or the
  absence of one.  \<open>drain\<close> is the loop of a client that calls it until it
  returns none.
\<close>

partial_function (option) drain :: "('s \<Rightarrow> ('s \<times> 'a option) option) \<Rightarrow> 's \<Rightarrow> ('s \<times> 'a list) option" where
  "drain nxt s = do {
     (s, r) \<leftarrow> nxt s;
     (case r of None \<Rightarrow> Some (s, [])
      | Some x \<Rightarrow> do { (s, xs) \<leftarrow> drain nxt s; Some (s, x # xs) }) }"

declare drain.simps [code]

locale iterator =
  fixes nxt :: "'s \<Rightarrow> ('s \<times> 'a option) option"
    and left :: "'s \<Rightarrow> 'a list"
    and ok :: "'s \<Rightarrow> bool"
    and fin :: "'s \<Rightarrow> bool"
  assumes next_some: "ok s \<Longrightarrow> left s = x # xs \<Longrightarrow> \<exists>s'. nxt s = Some (s', Some x) \<and> ok s' \<and> left s' = xs"
    and next_none: "ok s \<Longrightarrow> left s = [] \<Longrightarrow> \<exists>s'. nxt s = Some (s', None) \<and> fin s'"
begin

lemma drain_all: "ok s \<Longrightarrow> \<exists>s'. drain nxt s = Some (s', left s) \<and> fin s'"
proof (induction "left s" arbitrary: s)
  case Nil
  then obtain s' where "nxt s = Some (s', None)" "fin s'" using next_none [of s] by auto
  then show ?case using Nil.hyps by (subst drain.simps) simp
next
  case (Cons x xs)
  obtain s' where s': "nxt s = Some (s', Some x)" "ok s'" "left s' = xs"
    using next_some [OF Cons.prems Cons.hyps(2) [symmetric]] by blast
  obtain s2 where "drain nxt s' = Some (s2, xs)" "fin s2"
    using Cons.hyps(1) [OF s'(3) [symmetric] s'(2)] s'(3) by auto
  then show ?case using s'(1) Cons.hyps(2) by (subst drain.simps) simp
qed

end

end
