(* ===== verification/Intset.thy ===== *)
theory Intset
  imports Interfaces
begin

unbundle bit_operations_syntax

text \<open>
  The integer set of \<open>intset.c\<close>: a sorted array of 16, 32 or 64 bit
  integers in one memory block, with binary search and an in-place upgrade to a
  wider encoding.  The block after the header (\<open>contents[]\<close>) is a byte list
  and the header fields keep their 32 bit width.  The host is little-endian, so
  the \<open>memrev*ifbe\<close> and \<open>intrev32ifbe\<close> macros are the identity.

  Every operation returns \<open>None\<close> where the C code would access memory outside
  the block; the theorems show that it never does while the block stays below
  4 GB, and that the set of values behaves as a mathematical set.
\<close>

section \<open>Data and operations\<close>

record intset =
  is_encoding :: u32
  is_length :: u32
  is_contents :: bytes

definition intsetValueEncoding :: "i64 \<Rightarrow> nat" where
  "intsetValueEncoding v =
     (if sint v < - (2 ^ 31) \<or> sint v > 2 ^ 31 - 1 then 8
      else if sint v < - (2 ^ 15) \<or> sint v > 2 ^ 15 - 1 then 4
      else 2)"

definition intsetGetEncoded :: "intset \<Rightarrow> int \<Rightarrow> nat \<Rightarrow> i64 option" where
  "intsetGetEncoded is pos enc =
     (if pos < 0 then None
      else if enc = 8 then
        map_option le_word (mem_read (nat pos * 8) 8 (is_contents is))
      else if enc = 4 then
        map_option (\<lambda>bs. signed_take_bit 31 (le_word bs)) (mem_read (nat pos * 4) 4 (is_contents is))
      else
        map_option (\<lambda>bs. signed_take_bit 15 (le_word bs)) (mem_read (nat pos * 2) 2 (is_contents is)))"

definition intsetGetAt :: "intset \<Rightarrow> int \<Rightarrow> i64 option" where
  "intsetGetAt is pos = intsetGetEncoded is pos (unat (is_encoding is))"

definition intsetSetAt :: "intset \<Rightarrow> int \<Rightarrow> i64 \<Rightarrow> intset option" where
  "intsetSetAt is pos value =
     (let encoding = unat (is_encoding is) in
      if pos < 0 then None
      else if encoding = 8 then
        map_option (\<lambda>c. is\<lparr>is_contents := c\<rparr>) (mem_write (nat pos * 8) (le_bytes 8 value) (is_contents is))
      else if encoding = 4 then
        map_option (\<lambda>c. is\<lparr>is_contents := c\<rparr>) (mem_write (nat pos * 4) (le_bytes 4 value) (is_contents is))
      else
        map_option (\<lambda>c. is\<lparr>is_contents := c\<rparr>) (mem_write (nat pos * 2) (le_bytes 2 value) (is_contents is)))"

definition intsetNew :: intset where
  "intsetNew = \<lparr>is_encoding = 2, is_length = 0, is_contents = []\<rparr>"

text \<open>The size of the block is computed in 32 bits, as in the code.\<close>

definition intsetResize :: "fresh_mem \<Rightarrow> intset \<Rightarrow> u32 \<Rightarrow> intset" where
  "intsetResize fresh is len =
     (let size = len * is_encoding is
      in is\<lparr>is_contents := mem_realloc fresh (unat size) (is_contents is)\<rparr>)"

text \<open>
  The binary search loop of \<open>intsetSearch\<close>.  Its variables are C
  \<open>int\<close>s; the midpoint is computed on unsigned values.  \<open>None\<close> also
  stands for a loop that does not end.
\<close>

partial_function (option) intsetSearchLoop ::
    "intset \<Rightarrow> i64 \<Rightarrow> int \<Rightarrow> int \<Rightarrow> int \<Rightarrow> i64 \<Rightarrow> (int \<times> int \<times> i64) option" where
  "intsetSearchLoop is value imin imax mid cur =
     (if imax \<ge> imin then
        let mid' = ((imin mod 2 ^ 32 + imax mod 2 ^ 32) mod 2 ^ 32) div 2 in
        do {
          cur' \<leftarrow> intsetGetAt is mid';
          if sint value > sint cur' then intsetSearchLoop is value (mid' + 1) imax mid' cur'
          else if sint value < sint cur' then intsetSearchLoop is value imin (mid' - 1) mid' cur'
          else Some (imin, mid', cur')
        }
      else Some (imin, mid, cur))"

declare intsetSearchLoop.simps [code]

definition intsetSearch :: "intset \<Rightarrow> i64 \<Rightarrow> (bool \<times> u32) option" where
  "intsetSearch is value =
     (let max = sint (is_length is - 1) in
      if is_length is = 0 then Some (False, 0)
      else do {
        lst \<leftarrow> intsetGetAt is max;
        if sint value > sint lst then Some (False, is_length is)
        else do {
          fst0 \<leftarrow> intsetGetAt is 0;
          if sint value < sint fst0 then Some (False, 0)
          else do {
            (min, mid, cur) \<leftarrow> intsetSearchLoop is value 0 max (-1) (-1);
            if value = cur then Some (True, word_of_int mid)
            else Some (False, word_of_int min)
          }
        }
      })"

fun intsetUpgradeLoop :: "nat \<Rightarrow> nat \<Rightarrow> nat \<Rightarrow> intset \<Rightarrow> intset option" where
  "intsetUpgradeLoop 0 prepend curenc is = Some is"
| "intsetUpgradeLoop (Suc len) prepend curenc is = do {
     v \<leftarrow> intsetGetEncoded is (int len) curenc;
     is' \<leftarrow> intsetSetAt is (int (len + prepend)) v;
     intsetUpgradeLoop len prepend curenc is'
   }"

text \<open>
  \<open>while(length--)\<close> counts a C \<open>int\<close>; with a negative start the first
  iteration already reads in front of the block.
\<close>

definition intsetUpgradeAndAdd :: "fresh_mem \<Rightarrow> intset \<Rightarrow> i64 \<Rightarrow> intset option" where
  "intsetUpgradeAndAdd fresh is value =
     (let curenc = unat (ucast (is_encoding is) :: byte);
          newenc = intsetValueEncoding value;
          length = sint (is_length is);
          prepend = (if sint value < 0 then 1 else 0);
          is1 = is\<lparr>is_encoding := of_nat newenc\<rparr>;
          is2 = intsetResize fresh is1 (is_length is1 + 1)
      in if length < 0 then None
         else do {
           is3 \<leftarrow> intsetUpgradeLoop (nat length) prepend curenc is2;
           is4 \<leftarrow> (if prepend \<noteq> 0 then intsetSetAt is3 0 value
                  else intsetSetAt is3 (sint (is_length is3)) value);
           Some (is4\<lparr>is_length := is_length is4 + 1\<rparr>)
         })"

definition intsetMoveTail :: "intset \<Rightarrow> u32 \<Rightarrow> u32 \<Rightarrow> intset option" where
  "intsetMoveTail is from to =
     (let bytes = is_length is - from;
          encoding = unat (is_encoding is);
          move = (\<lambda>w. map_option (\<lambda>c. is\<lparr>is_contents := c\<rparr>)
             (mem_move (unat to * w) (unat from * w) (unat (bytes * of_nat w)) (is_contents is)))
      in if encoding = 8 then move 8
         else if encoding = 4 then move 4
         else move 2)"

definition intsetAdd :: "fresh_mem \<Rightarrow> intset \<Rightarrow> i64 \<Rightarrow> (intset \<times> bool) option" where
  "intsetAdd fresh is value =
     (let valenc = intsetValueEncoding value in
      if valenc > unat (is_encoding is) then
        map_option (\<lambda>is'. (is', True)) (intsetUpgradeAndAdd fresh is value)
      else do {
        (found, pos) \<leftarrow> intsetSearch is value;
        if found then Some (is, False)
        else do {
          let is1 = intsetResize fresh is (is_length is + 1);
          is2 \<leftarrow> (if pos < is_length is1 then intsetMoveTail is1 pos (pos + 1) else Some is1);
          is3 \<leftarrow> intsetSetAt is2 (sint pos) value;
          Some (is3\<lparr>is_length := is_length is3 + 1\<rparr>, True)
        }
      })"

definition intsetRemove :: "fresh_mem \<Rightarrow> intset \<Rightarrow> i64 \<Rightarrow> (intset \<times> bool) option" where
  "intsetRemove fresh is value =
     (let valenc = intsetValueEncoding value in
      if valenc \<le> unat (is_encoding is) then do {
        (found, pos) \<leftarrow> intsetSearch is value;
        if found then do {
          let len = is_length is;
          is1 \<leftarrow> (if pos < len - 1 then intsetMoveTail is (pos + 1) pos else Some is);
          let is2 = intsetResize fresh is1 (len - 1);
          Some (is2\<lparr>is_length := len - 1\<rparr>, True)
        }
        else Some (is, False)
      }
      else Some (is, False))"

definition intsetFind :: "intset \<Rightarrow> i64 \<Rightarrow> bool option" where
  "intsetFind is value =
     (let valenc = intsetValueEncoding value in
      if valenc \<le> unat (is_encoding is) then map_option fst (intsetSearch is value)
      else Some False)"

text \<open>\<open>r\<close> is what \<open>rand()\<close> returned; a remainder by zero is an error.\<close>

definition intsetRandom :: "u32 \<Rightarrow> intset \<Rightarrow> i64 option" where
  "intsetRandom r is =
     (if is_length is = 0 then None else intsetGetAt is (sint (r mod is_length is)))"

definition intsetGet :: "intset \<Rightarrow> u32 \<Rightarrow> i64 option option" where
  "intsetGet is pos =
     (if pos < is_length is then map_option Some (intsetGetAt is (sint pos)) else Some None)"

definition intsetLen :: "intset \<Rightarrow> u32" where
  "intsetLen is = is_length is"

definition intsetBlobLen :: "intset \<Rightarrow> u64" where
  "intsetBlobLen is = 8 + ucast (is_length is * is_encoding is)"

section \<open>The values a set holds, and its well-formedness\<close>

definition intset_vals :: "intset \<Rightarrow> int list" where
  "intset_vals is =
     map (\<lambda>i. case intsetGetAt is (int i) of Some v \<Rightarrow> sint v | None \<Rightarrow> 0) [0..<unat (is_length is)]"

definition intset_ok :: "intset \<Rightarrow> bool" where
  "intset_ok is \<longleftrightarrow>
     is_encoding is \<in> {2, 4, 8} \<and>
     length (is_contents is) = unat (is_length is) * unat (is_encoding is) \<and>
     sorted_wrt (<) (intset_vals is)"

section \<open>Reading and writing one slot\<close>

lemma signed_take_bit_63 [simp]: "signed_take_bit 63 (v :: u64) = v"
  using fits_iff [of 8 v] by simp

lemma intsetGetEncoded_eq:
  "e \<in> {2, 4, 8} \<Longrightarrow> intsetGetEncoded is (int i) e =
     map_option (\<lambda>bs. signed_take_bit (8 * e - 1) (le_word bs)) (mem_read (i * e) e (is_contents is))"
  by (auto simp: intsetGetEncoded_def)

lemma intsetGetEncoded_at:
  assumes "e \<in> {2, 4, 8}" and "is_contents is = a @ le_bytes e v @ c" and "length a = i * e" and "fits e v"
  shows "intsetGetEncoded is (int i) e = Some v"
proof -
  have "mem_read (i * e) e (is_contents is) = Some (le_bytes e v)"
    using assms mem_read_append3 [of a "le_bytes e v" c] by simp
  moreover have "signed_take_bit (8 * e - 1) (le_word (le_bytes e v)) = v"
    by (rule signed_le_word_le_bytes) (use assms in auto)
  ultimately show ?thesis by (simp only: intsetGetEncoded_eq [OF assms(1)] option.map)
qed

lemma intsetSetAt_at:
  assumes "e \<in> {2, 4, 8}" and "is_encoding is = of_nat e"
    and "is_contents is = a @ b @ c" and "length a = i * e" and "length b = e"
  shows "intsetSetAt is (int i) v = Some (is\<lparr>is_contents := a @ le_bytes e v @ c\<rparr>)"
proof -
  have "mem_write (i * e) (le_bytes e v) (is_contents is) = Some (a @ le_bytes e v @ c)"
    using assms mem_write_append3 [of b "le_bytes e v" a c] by simp
  then show ?thesis using assms by (auto simp: intsetSetAt_def Let_def)
qed

section \<open>A well-formed block is the encoding of its values\<close>

definition intset_rep :: "intset \<Rightarrow> nat \<Rightarrow> i64 list \<Rightarrow> bool" where
  "intset_rep is e vs \<longleftrightarrow>
     e \<in> {2, 4, 8} \<and> is_encoding is = of_nat e \<and> unat (is_length is) = length vs \<and>
     is_contents is = concat (map (le_bytes e) vs) \<and> (\<forall>v\<in>set vs. fits e v)"

lemma intset_rep_enc: "intset_rep is e vs \<Longrightarrow> unat (is_encoding is) = e"
  by (auto simp: intset_rep_def)

lemma intset_rep_get:
  assumes "intset_rep is e vs" and "i < length vs"
  shows "intsetGetAt is (int i) = Some (vs ! i)"
proof -
  have "is_contents is =
      concat (map (le_bytes e) (take i vs)) @ le_bytes e (vs ! i) @ concat (map (le_bytes e) (drop (Suc i) vs))"
    using assms concat_chunks_split [of i vs] by (simp add: intset_rep_def)
  moreover have "length (concat (map (le_bytes e) (take i vs))) = i * e"
    using assms length_concat_chunks [of "le_bytes e" e "take i vs"] by simp
  ultimately show ?thesis
    unfolding intsetGetAt_def intset_rep_enc [OF assms(1)]
    by (rule intsetGetEncoded_at [rotated]) (use assms in \<open>auto simp: intset_rep_def\<close>)
qed

lemma intset_rep_vals: "intset_rep is e vs \<Longrightarrow> intset_vals is = map sint vs"
proof (rule nth_equalityI)
  assume rep: "intset_rep is e vs"
  then show len: "length (intset_vals is) = length (map sint vs)"
    by (simp add: intset_vals_def intset_rep_def)
  fix i assume "i < length (intset_vals is)"
  then show "intset_vals is ! i = map sint vs ! i"
    using len intset_rep_get [OF rep, of i] by (simp add: intset_vals_def)
qed

lemma intset_ok_rep:
  assumes "intset_ok is"
  obtains vs where "intset_rep is (unat (is_encoding is)) vs" and "sorted_wrt (<) (map sint vs)"
proof -
  let ?e = "unat (is_encoding is)"
  have e: "?e \<in> {2, 4, 8}" and len: "length (is_contents is) = unat (is_length is) * ?e"
    using assms by (auto simp: intset_ok_def)
  obtain xss where xss: "length xss = unat (is_length is)" "concat xss = is_contents is"
    "\<forall>xs\<in>set xss. length xs = ?e"
    using chunk_decomp [OF len] by blast
  define vs where "vs = map (\<lambda>bs. signed_take_bit (8 * ?e - 1) (le_word bs)) xss"
  have enc: "le_bytes ?e (signed_take_bit (8 * ?e - 1) (le_word bs)) = bs" if "length bs = ?e" for bs
  proof -
    have "le_bytes ?e (signed_take_bit (8 * ?e - 1) (le_word bs))
        = le_bytes ?e (take_bit (8 * ?e) (signed_take_bit (8 * ?e - 1) (le_word bs)))"
      by (simp add: le_bytes_take_bit)
    also have "\<dots> = le_bytes ?e (take_bit (8 * ?e) (le_word bs))"
      using e by (auto simp: take_bit_signed_take_bit)
    also have "\<dots> = bs" using that e le_bytes_le_word [of bs] by (auto simp: le_bytes_take_bit)
    finally show ?thesis .
  qed
  have "map (le_bytes ?e) vs = xss"
    unfolding vs_def map_map comp_def by (rule map_idI) (use enc xss(3) in auto)
  then have "concat (map (le_bytes ?e) vs) = is_contents is"
    using xss(2) by simp
  moreover have "\<forall>v\<in>set vs. fits ?e v"
    using e by (auto simp: vs_def fits_iff)
  ultimately have "intset_rep is ?e vs"
    using e xss by (auto simp: intset_rep_def vs_def)
  then show thesis
    using that assms intset_rep_vals by (auto simp: intset_ok_def)
qed

lemma intset_rep_ok:
  assumes "intset_rep is e vs" and "sorted_wrt (<) (map sint vs)"
  shows "intset_ok is"
proof -
  have "length (is_contents is) = length vs * e"
    using assms(1) length_concat_chunks [of "le_bytes e" e vs] by (simp add: intset_rep_def)
  then show ?thesis
    using assms by (auto simp: intset_ok_def intset_rep_vals) (auto simp: intset_rep_def)
qed

section \<open>Binary search\<close>

definition search_at :: "i64 list \<Rightarrow> i64 \<Rightarrow> nat \<Rightarrow> bool" where
  "search_at vs v p \<longleftrightarrow> p \<le> length vs \<and>
     (\<forall>x\<in>set (take p vs). sint x < sint v) \<and>
     (if v \<in> set vs then p < length vs \<and> vs ! p = v else \<forall>x\<in>set (drop p vs). sint v < sint x)"

lemma mid_bounds:
  fixes a b :: int
  assumes "0 \<le> a" "a \<le> b" "b < 2 ^ 31"
  shows "((a mod 2 ^ 32 + b mod 2 ^ 32) mod 2 ^ 32) div 2 = (a + b) div 2"
  using assms by (simp add: mod_pos_pos_trivial)

lemma intsetSearchLoop_spec:
  assumes rep: "intset_rep is e vs" and srt: "sorted_wrt (<) (map sint vs)" and len: "length vs < 2 ^ 31"
  shows "0 \<le> lo \<Longrightarrow> lo \<le> hi + 1 \<Longrightarrow> hi < int (length vs) \<Longrightarrow>
     (\<forall>i. int i < lo \<longrightarrow> sint (vs ! i) < sint v) \<Longrightarrow>
     (\<forall>i < length vs. hi < int i \<longrightarrow> sint v < sint (vs ! i)) \<Longrightarrow>
     (hi < lo \<longrightarrow> cur \<noteq> v) \<Longrightarrow>
     \<exists>lo' mid' cur'. intsetSearchLoop is v lo hi mid cur = Some (lo', mid', cur') \<and>
       (if cur' = v then 0 \<le> mid' \<and> mid' < int (length vs) \<and> vs ! nat mid' = v
        else 0 \<le> lo' \<and> lo' \<le> int (length vs) \<and>
          (\<forall>i. int i < lo' \<longrightarrow> sint (vs ! i) < sint v) \<and>
          (\<forall>i < length vs. lo' \<le> int i \<longrightarrow> sint v < sint (vs ! i)))"
proof (induction "nat (hi + 1 - lo)" arbitrary: lo hi mid cur rule: less_induct)
  case less
  show ?case
  proof (cases "lo \<le> hi")
    case False
    then have "hi = lo - 1" using less.prems by simp
    then show ?thesis
      using less.prems by (subst intsetSearchLoop.simps) (auto simp: intsetSearchLoop.simps)
  next
    case True
    define m where "m = (lo + hi) div 2"
    have m: "lo \<le> m" "m \<le> hi" using True by (auto simp: m_def)
    have mid: "((lo mod 2 ^ 32 + hi mod 2 ^ 32) mod 2 ^ 32) div 2 = m"
      unfolding m_def by (rule mid_bounds) (use less.prems True len in auto)
    have get: "intsetGetAt is m = Some (vs ! nat m)"
      using intset_rep_get [OF rep, of "nat m"] less.prems m by simp
    have nm: "nat m < length vs" using m less.prems by linarith
    have mono: "i < j \<Longrightarrow> j < length vs \<Longrightarrow> sint (vs ! i) < sint (vs ! j)" for i j
      using srt sorted_wrt_nth_less [of "(<)" "map sint vs" i j] by simp
    have unf: "intsetSearchLoop is v lo hi mid cur =
        (if sint v > sint (vs ! nat m) then intsetSearchLoop is v (m + 1) hi m (vs ! nat m)
         else if sint v < sint (vs ! nat m) then intsetSearchLoop is v lo (m - 1) m (vs ! nat m)
         else Some (lo, m, vs ! nat m))"
      using True by (subst intsetSearchLoop.simps) (simp only: mid Let_def get if_True Option.bind.bind_lunit)
    consider (gt) "sint v > sint (vs ! nat m)" | (lt) "sint v < sint (vs ! nat m)" | (eq) "v = vs ! nat m"
      by (metis linorder_cases signed_word_eqI)
    then show ?thesis
    proof cases
      case gt
      have "\<forall>i. int i < m + 1 \<longrightarrow> sint (vs ! i) < sint v"
      proof (intro allI impI)
        fix i assume "int i < m + 1"
        then consider "i = nat m" | "i < nat m" using m less.prems(1) by linarith
        then show "sint (vs ! i) < sint v"
          using gt mono [of i "nat m"] nm by cases auto
      qed
      moreover have "intsetSearchLoop is v lo hi mid cur = intsetSearchLoop is v (m + 1) hi m (vs ! nat m)"
        using unf gt by simp
      moreover have "vs ! nat m \<noteq> v" using gt by auto
      ultimately show ?thesis
        using less.prems m True by (simp only:, intro less.hyps) auto
    next
      case lt
      have "\<forall>i < length vs. m - 1 < int i \<longrightarrow> sint v < sint (vs ! i)"
      proof (intro allI impI)
        fix i assume "i < length vs" "m - 1 < int i"
        then consider "i = nat m" | "nat m < i" using m less.prems(1) by linarith
        then show "sint v < sint (vs ! i)"
          using lt mono [of "nat m" i] \<open>i < length vs\<close> by cases auto
      qed
      moreover have "intsetSearchLoop is v lo hi mid cur = intsetSearchLoop is v lo (m - 1) m (vs ! nat m)"
        using unf lt by simp
      moreover have "vs ! nat m \<noteq> v" using lt by auto
      ultimately show ?thesis
        using less.prems m True by (simp only:, intro less.hyps) auto
    next
      case eq
      then show ?thesis using unf less.prems m by auto
    qed
  qed
qed

lemma search_at_absent:
  assumes "p \<le> length vs" and "\<And>i. i < p \<Longrightarrow> sint (vs ! i) < sint v"
    and "\<And>i. p \<le> i \<Longrightarrow> i < length vs \<Longrightarrow> sint v < sint (vs ! i)"
  shows "v \<notin> set vs \<and> search_at vs v p"
proof -
  have "v \<notin> set vs"
    using assms(2,3) by (metis in_set_conv_nth less_irrefl not_le)
  then show ?thesis
    using assms by (auto simp: search_at_def in_set_conv_nth)
qed

lemma search_at_found:
  assumes "sorted_wrt (<) (map sint vs)" and "p < length vs" and "vs ! p = v"
  shows "v \<in> set vs \<and> search_at vs v p"
  using assms sorted_wrt_nth_less [of "(<)" "map sint vs" _ p]
  by (auto simp: search_at_def in_set_conv_nth)

lemma intset_rep_length: "intset_rep is e vs \<Longrightarrow> is_length is = of_nat (length vs)"
  by (metis intset_rep_def of_nat_unat ucast_id)

lemma intset_rep_last:
  assumes rep: "intset_rep is e vs" and "vs \<noteq> []" and len: "length vs < 2 ^ 31"
  shows "intsetGetAt is (sint (is_length is - 1)) = Some (last vs)"
    and "sint (is_length is - 1) = int (length vs) - 1"
proof -
  have "is_length is - 1 = word_of_int (int (length vs) - 1)"
    using intset_rep_length [OF rep] by simp
  moreover have "0 < length vs" using assms(2) by simp
  moreover have "sint (word_of_int (int (length vs) - 1) :: u32) = int (length vs) - 1"
    if "0 < length vs"
    by (rule sint_word_of_int_small) (use len that in auto)
  ultimately show mx: "sint (is_length is - 1) = int (length vs) - 1"
    by metis
  have pos: "0 < length vs" using assms(2) by simp
  then have "sint (is_length is - 1) = int (length vs - 1)" unfolding mx by linarith
  moreover have "intsetGetAt is (int (length vs - 1)) = Some (last vs)"
    unfolding last_conv_nth [OF assms(2)] by (rule intset_rep_get [OF rep]) (use pos in simp)
  ultimately show "intsetGetAt is (sint (is_length is - 1)) = Some (last vs)" by (simp only:)
qed

lemma intsetSearch_spec:
  assumes rep: "intset_rep is e vs" and srt: "sorted_wrt (<) (map sint vs)" and len: "length vs < 2 ^ 31"
  shows "\<exists>p. intsetSearch is v = Some (v \<in> set vs, of_nat p) \<and> search_at vs v p"
proof (cases "vs = []")
  case True
  then have "is_length is = 0" using intset_rep_length [OF rep] by simp
  then show ?thesis using True by (auto simp: intsetSearch_def search_at_def intro: exI [of _ 0])
next
  case False
  have mono: "i < j \<Longrightarrow> j < length vs \<Longrightarrow> sint (vs ! i) < sint (vs ! j)" for i j
    using srt sorted_wrt_nth_less [of "(<)" "map sint vs" i j] by simp
  note lst = intset_rep_last [OF rep False len]
  have fst0: "intsetGetAt is 0 = Some (vs ! 0)"
    using intset_rep_get [OF rep, of 0] False by simp
  have nz: "is_length is \<noteq> 0" using rep False by (auto simp: intset_rep_def)
  note unf = intsetSearch_def [of "is" v, unfolded Let_def, unfolded lst(1) fst0] 
  consider (gt) "sint v > sint (last vs)" | (lt) "sint v < sint (vs ! 0)" "\<not> sint v > sint (last vs)"
    | (mid) "\<not> sint v > sint (last vs)" "\<not> sint v < sint (vs ! 0)" by blast
  then show ?thesis
  proof cases
    case gt
    then have "sint (vs ! i) < sint v" if "i < length vs" for i
    proof (cases "i = length vs - 1")
      case False
      then have "i < length vs - 1" "length vs - 1 < length vs" using that by auto
      from mono [OF this] gt show ?thesis using \<open>vs \<noteq> []\<close> by (simp add: last_conv_nth)
    qed (use gt \<open>vs \<noteq> []\<close> in \<open>simp add: last_conv_nth\<close>)
    then have "v \<notin> set vs \<and> search_at vs v (length vs)" by (intro search_at_absent) auto
    then show ?thesis using unf nz gt intset_rep_length [OF rep] by auto
  next
    case lt
    then have "sint v < sint (vs ! i)" if "i < length vs" for i
      using mono [of 0 i] that by (cases "i = 0") auto
    then have "v \<notin> set vs \<and> search_at vs v 0" by (intro search_at_absent) auto
    then show ?thesis using unf nz lt by (auto intro: exI [of _ 0])
  next
    case mid
    obtain lo' mid' cur' where loop: "intsetSearchLoop is v 0 (int (length vs) - 1) (-1) (-1) = Some (lo', mid', cur')"
      and post: "if cur' = v then 0 \<le> mid' \<and> mid' < int (length vs) \<and> vs ! nat mid' = v
        else 0 \<le> lo' \<and> lo' \<le> int (length vs) \<and>
          (\<forall>i. int i < lo' \<longrightarrow> sint (vs ! i) < sint v) \<and>
          (\<forall>i < length vs. lo' \<le> int i \<longrightarrow> sint v < sint (vs ! i))"
      using intsetSearchLoop_spec [OF rep srt len, of 0 "int (length vs) - 1" v "-1" "-1"] False
      by (auto simp: Suc_le_eq)
    show ?thesis
    proof (cases "cur' = v")
      case True
      then have "v \<in> set vs \<and> search_at vs v (nat mid')"
        using post by (intro search_at_found [OF srt]) auto
      moreover have "word_of_int mid' = (of_nat (nat mid') :: u32)" using True post by simp
      ultimately show ?thesis using unf nz mid loop lst(2) True by auto
    next
      case ne: False
      then have "v \<notin> set vs \<and> search_at vs v (nat lo')"
        using post by (intro search_at_absent) auto
      moreover have "word_of_int lo' = (of_nat (nat lo') :: u32)" using ne post by simp
      ultimately show ?thesis using unf nz mid loop lst(2) ne by auto
    qed
  qed
qed

section \<open>Insertion, deletion and upgrade\<close>

lemma intsetMoveTail_at:
  assumes "e \<in> {2, 4, 8}" and "is_encoding is = of_nat e"
    and "unat (is_length is) = n" and "unat from \<le> n" and "n * e < 2 ^ 32"
    and "mem_move (unat to * e) (unat from * e) ((n - unat from) * e) (is_contents is) = Some c"
  shows "intsetMoveTail is from to = Some (is\<lparr>is_contents := c\<rparr>)"
proof -
  have sub: "unat (is_length is - from) = n - unat from"
    using assms by (simp add: unat_sub word_le_nat_alt)
  moreover have "(n - unat from) * e < 2 ^ 32"
    using assms(5) by (rule le_less_trans [rotated]) simp
  ultimately have "unat ((is_length is - from) * of_nat e) = (n - unat from) * e"
    using assms(1) by (subst unat_mult_lem [THEN iffD1]) auto
  then show ?thesis
    using assms by (auto simp: intsetMoveTail_def Let_def)
qed

text \<open>Growing the block by one slot keeps the encoded values in front.\<close>

lemma intsetResize_grow:
  assumes e: "e \<in> {2, 4, 8}" and n: "unat (is_length is) = n" and len: "(n + 1) * 8 < 2 ^ 32"
    and enc: "is_encoding is = of_nat e" and cl: "length (is_contents is) \<le> (n + 1) * e"
  shows "\<exists>g. intsetResize fresh is (is_length is + 1) = is\<lparr>is_contents := is_contents is @ g\<rparr>
    \<and> length g = (n + 1) * e - length (is_contents is)"
proof -
  have "unat (is_length is + 1) = n + 1" using n len by (simp add: unat_plus_if')
  then have "unat ((is_length is + 1) * is_encoding is) = (n + 1) * e"
    using e enc len by (subst unat_mult_lem [THEN iffD1]) auto
  then show ?thesis
    using cl by (auto simp: intsetResize_def Let_def mem_realloc_grow)
qed

text \<open>Moving the tail opens a gap of one slot at the insertion point.\<close>

lemma intset_open_gap:
  assumes e: "e \<in> {2, 4, 8}" and enc: "is_encoding is = of_nat e" and n: "unat (is_length is) = n"
    and p: "p \<le> n" and len: "(n + 1) * 8 < 2 ^ 32"
    and c: "is_contents is = A @ B @ g" "length A = p * e" "length B = (n - p) * e" "length g = e"
  shows "\<exists>X. length X = e \<and>
    (if of_nat p < is_length is then intsetMoveTail is (of_nat p) (of_nat p + 1) else Some is)
      = Some (is\<lparr>is_contents := A @ X @ B\<rparr>)"
proof -
  have pn: "unat (of_nat p :: u32) = p" using p len by (auto intro!: unat_of_nat_small)
  show ?thesis
  proof (cases "p < n")
    case True
    have p1: "unat (of_nat p + 1 :: u32) = p + 1"
      using pn p len by (simp add: unat_plus_if')
    have mv: "mem_move (unat (of_nat p + 1 :: u32) * e) (unat (of_nat p :: u32) * e)
        ((n - unat (of_nat p :: u32)) * e) (A @ B @ g) = Some (A @ take e (B @ g) @ B)"
      unfolding pn p1 using mem_read_append3 [of A B g] c
      by (simp add: mem_move_def mem_write_def algebra_simps)
    have "of_nat p < is_length is"
      using True n pn by (simp add: word_less_nat_alt)
    moreover have "intsetMoveTail is (of_nat p) (of_nat p + 1) = Some (is\<lparr>is_contents := A @ take e (B @ g) @ B\<rparr>)"
      by (rule intsetMoveTail_at [where e = e and n = n])
        (use e enc n pn p len mv c(1) in \<open>auto\<close>)
    ultimately show ?thesis using c by (intro exI [of _ "take e (B @ g)"]) simp
  next
    case False
    then have "\<not> of_nat p < is_length is" using n pn by (simp add: word_less_nat_alt)
    moreover have "B = []" using c(3) False p by simp
    ultimately show ?thesis using c by (intro exI [of _ g]) (simp add: \<open>B = []\<close> flip: c(1))
  qed
qed

lemma intset_rep_insert:
  assumes rep: "intset_rep is e vs" and p: "p \<le> length vs" and fit: "fits e v"
    and len: "(length vs + 1) * 8 < 2 ^ 32"
  shows "\<exists>is'. (do {
      let is1 = intsetResize fresh is (is_length is + 1);
      is2 \<leftarrow> (if of_nat p < is_length is1 then intsetMoveTail is1 (of_nat p) (of_nat p + 1) else Some is1);
      is3 \<leftarrow> intsetSetAt is2 (sint (of_nat p :: u32)) v;
      Some (is3\<lparr>is_length := is_length is3 + 1\<rparr>, True)
    }) = Some (is', True) \<and> intset_rep is' e (take p vs @ [v] @ drop p vs)"
proof -
  let ?n = "length vs"
  let ?f = "le_bytes e"
  let ?A = "concat (map ?f (take p vs))" and ?B = "concat (map ?f (drop p vs))"
  have e: "e \<in> {2, 4, 8}" and enc: "is_encoding is = of_nat e" and n: "unat (is_length is) = ?n"
    and fits: "\<forall>v\<in>set vs. fits e v" and c: "is_contents is = ?A @ ?B"
    using rep by (auto simp: intset_rep_def simp flip: concat_append map_append)
  have Al: "length ?A = p * e" and Bl: "length ?B = (?n - p) * e"
    using p by (subst length_concat_chunks [of _ e]; simp)+
  have cl: "length (is_contents is) = ?n * e"
    using p unfolding c length_append Al Bl by (simp flip: add_mult_distrib)
  obtain g where g: "intsetResize fresh is (is_length is + 1) = is\<lparr>is_contents := is_contents is @ g\<rparr>" "length g = e"
    using intsetResize_grow [OF e n len enc, of fresh] cl by auto
  obtain X where X: "length X = e" "(if of_nat p < is_length is
      then intsetMoveTail (is\<lparr>is_contents := is_contents is @ g\<rparr>) (of_nat p) (of_nat p + 1)
      else Some (is\<lparr>is_contents := is_contents is @ g\<rparr>)) = Some (is\<lparr>is_contents := ?A @ X @ ?B\<rparr>)"
    using intset_open_gap [of e "is\<lparr>is_contents := is_contents is @ g\<rparr>" ?n p ?A ?B g] e enc n p len Al Bl c g(2)
    by auto
  have ps: "sint (of_nat p :: u32) = int p"
    using p len by (intro sint_of_nat_small) auto
  have st: "intsetSetAt (is\<lparr>is_contents := ?A @ X @ ?B\<rparr>) (int p) v = Some (is\<lparr>is_contents := ?A @ ?f v @ ?B\<rparr>)"
    using intsetSetAt_at [of e "is\<lparr>is_contents := ?A @ X @ ?B\<rparr>" ?A X ?B p v] e enc Al X(1) by simp
  have "intset_rep (is\<lparr>is_contents := ?A @ ?f v @ ?B, is_length := is_length is + 1\<rparr>) e (take p vs @ [v] @ drop p vs)"
    using e enc n len p fits fit
    by (auto simp: intset_rep_def unat_plus_if' dest: in_set_takeD in_set_dropD)
  then show ?thesis
    using X(2) st by (simp add: ps g(1))
qed

text \<open>Deletion moves the tail over the slot; what is left behind is cut off.\<close>

lemma intset_close_gap:
  assumes e: "e \<in> {2, 4, 8}" and enc: "is_encoding is = of_nat e" and n: "unat (is_length is) = n"
    and p: "p < n" and len: "n * 8 < 2 ^ 32"
    and c: "is_contents is = A @ X @ B" "length A = p * e" "length X = e" "length B = (n - Suc p) * e"
  shows "\<exists>Y. length Y = e \<and>
    (if of_nat p < is_length is - 1 then intsetMoveTail is (of_nat p + 1) (of_nat p) else Some is)
      = Some (is\<lparr>is_contents := A @ B @ Y\<rparr>)"
proof -
  have pn: "unat (of_nat p :: u32) = p" using p len by (auto intro!: unat_of_nat_small)
  have p1: "unat (of_nat p + 1 :: u32) = Suc p" using pn p len by (simp add: unat_plus_if')
  have "is_length is \<noteq> 0" using n p by auto
  then have n1: "unat (is_length is - 1) = n - 1" using n by (simp add: unat_minus_one)
  show ?thesis
  proof (cases "Suc p < n")
    case True
    let ?Y = "drop (length B) (X @ B)"
    have mv: "mem_move (unat (of_nat p :: u32) * e) (unat (of_nat p + 1 :: u32) * e)
        ((n - unat (of_nat p + 1 :: u32)) * e) (A @ X @ B) = Some (A @ B @ ?Y)"
      unfolding pn p1 using mem_read_append3 [of "A @ X" B "[]"] c
      by (simp add: mem_move_def mem_write_def algebra_simps)
    have "intsetMoveTail is (of_nat p + 1) (of_nat p) = Some (is\<lparr>is_contents := A @ B @ ?Y\<rparr>)"
      by (rule intsetMoveTail_at [where e = e and n = n]) (use e enc n p1 p len mv c(1) in auto)
    moreover have "of_nat p < is_length is - 1" using True n1 pn by (simp add: word_less_nat_alt)
    ultimately show ?thesis using c by (intro exI [of _ ?Y]) simp
  next
    case False
    then have "\<not> of_nat p < is_length is - 1" using n1 pn by (simp add: word_less_nat_alt)
    moreover have B: "B = []" using c(4) False p by simp
    moreover have "is = is\<lparr>is_contents := A @ X\<rparr>" using c(1) B by simp
    ultimately show ?thesis using c(3) by (intro exI [of _ X]) simp
  qed
qed

lemma intset_rep_delete:
  assumes rep: "intset_rep is e vs" and p: "p < length vs" and len: "length vs * 8 < 2 ^ 32"
  shows "\<exists>is'. (do {
      let len = is_length is;
      is1 \<leftarrow> (if of_nat p < len - 1 then intsetMoveTail is (of_nat p + 1) (of_nat p) else Some is);
      let is2 = intsetResize fresh is1 (len - 1);
      Some (is2\<lparr>is_length := len - 1\<rparr>, True)
    }) = Some (is', True) \<and> intset_rep is' e (take p vs @ drop (Suc p) vs)"
proof -
  let ?n = "length vs"
  let ?f = "le_bytes e"
  define A where "A = concat (map ?f (take p vs))"
  define B where "B = concat (map ?f (drop (Suc p) vs))"
  have e: "e \<in> {2, 4, 8}" and enc: "is_encoding is = of_nat e" and n: "unat (is_length is) = ?n"
    and fits: "\<forall>v\<in>set vs. fits e v" and c: "is_contents is = A @ ?f (vs ! p) @ B"
    using rep concat_chunks_split [OF p, of ?f] by (auto simp: intset_rep_def A_def B_def)
  have Al: "length A = p * e" and Bl: "length B = (?n - Suc p) * e"
    unfolding A_def B_def using p by (subst length_concat_chunks [of _ e]; simp)+
  obtain Y where Y: "(if of_nat p < is_length is - 1 then intsetMoveTail is (of_nat p + 1) (of_nat p) else Some is)
      = Some (is\<lparr>is_contents := A @ B @ Y\<rparr>)"
    using intset_close_gap [OF e enc n p len c Al _ Bl] by auto
  have "is_length is \<noteq> 0" using n p by auto
  then have n1: "unat (is_length is - 1) = ?n - 1" using n by (simp add: unat_minus_one)
  have sz: "unat ((is_length is - 1) * is_encoding is) = (?n - 1) * e"
    using e enc n1 len by (subst unat_mult_lem [THEN iffD1]) auto
  have ABl: "(?n - 1) * e = length (A @ B)"
    using p unfolding length_append Al Bl by (simp flip: add_mult_distrib)
  have rs: "intsetResize fresh (is\<lparr>is_contents := A @ B @ Y\<rparr>) (is_length is - 1) = is\<lparr>is_contents := A @ B\<rparr>"
    using sz unfolding ABl by (simp add: intsetResize_def Let_def mem_realloc_shrink)
  have "intset_rep (is\<lparr>is_contents := A @ B, is_length := is_length is - 1\<rparr>) e (take p vs @ drop (Suc p) vs)"
    using e enc n1 p fits by (auto simp: intset_rep_def A_def B_def dest: in_set_takeD in_set_dropD)
  then show ?thesis using Y rs by simp
qed

text \<open>
  The upgrade runs from the last value to the first, so a write at the wider
  encoding never reaches a narrow value that is still to be read.
\<close>

lemma intsetUpgradeLoop_spec:
  assumes e: "e \<in> {2, 4, 8}" "e' \<in> {2, 4, 8}" "e \<le> e'" and pre: "pre \<le> 1"
    and fit: "\<forall>v\<in>set vs. fits e v"
  shows "is_encoding is = of_nat e' \<Longrightarrow> k \<le> length vs \<Longrightarrow> (k + pre) * e' \<le> length (is_contents is) \<Longrightarrow>
    take (k * e) (is_contents is) = concat (map (le_bytes e) (take k vs)) \<Longrightarrow>
    \<exists>c. intsetUpgradeLoop k pre e is = Some (is\<lparr>is_contents := c\<rparr>) \<and>
      length c = length (is_contents is) \<and>
      take (k * e') (drop (pre * e') c) = concat (map (le_bytes e') (take k vs)) \<and>
      drop ((k + pre) * e') c = drop ((k + pre) * e') (is_contents is)"
proof (induction k arbitrary: "is")
  case 0
  then show ?case by (intro exI [of _ "is_contents is"]) auto
next
  case (Suc k)
  let ?c = "is_contents is"
  let ?v = "vs ! k"
  define q where "q = (k + pre) * e'"
  have q: "k * e \<le> q" "q + e' \<le> length ?c" "(Suc k + pre) * e' = q + e'"
    using Suc.prems(3) e(3) by (auto simp: q_def intro: mult_le_mono)
  have kl: "k < length vs" using Suc.prems by simp
  have "?c = take (Suc k * e) ?c @ drop (Suc k * e) ?c" by simp
  also have "take (Suc k * e) ?c = concat (map (le_bytes e) (take k vs)) @ le_bytes e ?v"
    unfolding Suc.prems(4) using kl by (simp add: take_Suc_conv_app_nth)
  finally have c: "?c = concat (map (le_bytes e) (take k vs)) @ le_bytes e ?v @ drop (Suc k * e) ?c" by simp
  have len: "length (concat (map (le_bytes e) (take k vs))) = k * e"
    using kl by (subst length_concat_chunks [of _ e]) auto
  have get: "intsetGetEncoded is (int k) e = Some ?v"
    by (rule intsetGetEncoded_at [OF e(1) c len]) (use fit kl in auto)
  define c1 where "c1 = take q ?c @ le_bytes e' ?v @ drop (q + e') ?c"
  have "?c = take q ?c @ take e' (drop q ?c) @ drop (q + e') ?c"
    by (metis append_take_drop_id drop_drop add.commute)
  then have set: "intsetSetAt is (int (k + pre)) ?v = Some (is\<lparr>is_contents := c1\<rparr>)"
    unfolding c1_def by (rule intsetSetAt_at [OF e(2) Suc.prems(1)]) (use q in \<open>auto simp: q_def\<close>)
  have c1: "length c1 = length ?c" "take (k * e) c1 = take (k * e) ?c"
    "drop q c1 = le_bytes e' ?v @ drop (q + e') ?c"
    using q by (auto simp: c1_def)
  have "take (k * e) ?c = concat (map (le_bytes e) (take k vs))"
    by (subst c) (simp add: len)
  then obtain c' where IH: "intsetUpgradeLoop k pre e (is\<lparr>is_contents := c1\<rparr>) = Some (is\<lparr>is_contents := c'\<rparr>)"
    "length c' = length ?c" "take (k * e') (drop (pre * e') c') = concat (map (le_bytes e') (take k vs))"
    "drop q c' = drop q c1"
    using Suc.IH [of "is\<lparr>is_contents := c1\<rparr>"] Suc.prems(1) q c1 kl by (auto simp: q_def)
  have "take (Suc k * e') (drop (pre * e') c') = take (k * e') (drop (pre * e') c') @ take e' (drop q c')"
  proof -
    have "Suc k * e' = k * e' + e'" by simp
    moreover have "drop (k * e') (drop (pre * e') c') = drop q c'"
      by (simp add: q_def add_mult_distrib add.commute)
    ultimately show ?thesis by (simp only: take_add)
  qed
  also have "\<dots> = concat (map (le_bytes e') (take (Suc k) vs))"
    using IH(3,4) c1(3) kl by (simp add: take_Suc_conv_app_nth)
  finally have A: "take (Suc k * e') (drop (pre * e') c') = concat (map (le_bytes e') (take (Suc k) vs))" .
  have "drop (q + e') c' = drop e' (drop q c')" by (simp add: add.commute)
  then have "drop (q + e') c' = drop (q + e') ?c" using IH(4) c1(3) by simp
  then show ?case
    unfolding q(3) using IH A get set by auto
qed

lemma intsetUpgradeAndAdd_spec:
  assumes rep: "intset_rep is e vs" and up: "e < intsetValueEncoding v"
    and len: "(length vs + 1) * 8 < 2 ^ 32"
  shows "\<exists>is'. intsetUpgradeAndAdd fresh is v = Some is' \<and>
    intset_rep is' (intsetValueEncoding v) (if sint v < 0 then v # vs else vs @ [v])"
proof -
  let ?n = "length vs"
  define e' where "e' = intsetValueEncoding v"
  define pre :: nat where "pre = (if sint v < 0 then 1 else 0)"
  have e: "e \<in> {2, 4, 8}" and enc: "is_encoding is = of_nat e" and n: "unat (is_length is) = ?n"
    and c: "is_contents is = concat (map (le_bytes e) vs)" and fit: "\<forall>v\<in>set vs. fits e v"
    using rep by (auto simp: intset_rep_def)
  have e': "e' \<in> {2, 4, 8}" "e \<le> e'" and fv: "fits e' v"
    using up sint_greater_eq [of v] sint_lt [of v] by (auto simp: e'_def intsetValueEncoding_def fits_def)
  define is1 where "is1 = is\<lparr>is_encoding := of_nat e'\<rparr>"
  have "length (is_contents is) = ?n * e" unfolding c by (rule length_concat_chunks) simp
  moreover have "?n * e \<le> (?n + 1) * e'" using e'(2) by (intro mult_le_mono) auto
  ultimately obtain g where g: "intsetResize fresh is1 (is_length is1 + 1) = is1\<lparr>is_contents := is_contents is1 @ g\<rparr>"
    and gl: "length (is_contents is @ g) = (?n + 1) * e'"
    using intsetResize_grow [of e' is1 ?n fresh] e' n len by (auto simp: is1_def)
  have pre1: "pre \<le> 1" by (simp add: pre_def)
  then have pren: "(?n + pre) * e' \<le> (?n + 1) * e'" by (intro mult_le_mono) auto
  obtain b where loop: "intsetUpgradeLoop ?n pre e (is1\<lparr>is_contents := is_contents is1 @ g\<rparr>) = Some (is1\<lparr>is_contents := b\<rparr>)"
    and bl: "length b = (?n + 1) * e'" and b: "take (?n * e') (drop (pre * e') b) = concat (map (le_bytes e') vs)"
    using intsetUpgradeLoop_spec [OF e e' pre1 fit, of "is1\<lparr>is_contents := is_contents is1 @ g\<rparr>" ?n] gl
      \<open>length (is_contents is) = ?n * e\<close> c pren by (auto simp: is1_def)
  have cur: "unat (ucast (is_encoding is) :: byte) = e" using e enc by auto
  have ln: "sint (is_length is) = int ?n" using n len by (subst sint_eq_int_unat) auto
  define vs' where "vs' = (if sint v < 0 then v # vs else vs @ [v])"
  have st: "(if pre \<noteq> 0 then intsetSetAt (is1\<lparr>is_contents := b\<rparr>) 0 v
      else intsetSetAt (is1\<lparr>is_contents := b\<rparr>) (sint (is_length is1)) v) =
      Some (is1\<lparr>is_contents := concat (map (le_bytes e') vs')\<rparr>)"
  proof (cases "sint v < 0")
    case True
    then have "b = [] @ take e' b @ concat (map (le_bytes e') vs)"
      using b bl by (simp add: pre_def flip: b)
    then show ?thesis
      using intsetSetAt_at [of e' "is1\<lparr>is_contents := b\<rparr>" "[]" "take e' b" _ 0 v] e' bl True
      by (simp add: is1_def pre_def vs'_def)
  next
    case False
    then have bb: "b = concat (map (le_bytes e') vs) @ drop (?n * e') b @ []"
      using b by (simp add: pre_def flip: b)
    have cl: "length (concat (map (le_bytes e') vs)) = ?n * e'" by (rule length_concat_chunks) simp
    have "is_contents (is1\<lparr>is_contents := b\<rparr>) = concat (map (le_bytes e') vs) @ drop (?n * e') b @ []"
      using bb by simp
    from intsetSetAt_at [OF e'(1) _ this cl, of v] show ?thesis
      using bl ln False by (simp add: is1_def pre_def vs'_def)
  qed
  have "intset_rep (is1\<lparr>is_contents := concat (map (le_bytes e') vs'), is_length := is_length is + 1\<rparr>) e' vs'"
    using e' n len fit fv by (auto simp: intset_rep_def is1_def vs'_def unat_plus_if' intro: fits_mono)
  moreover have "is_length is1 = is_length is" by (simp add: is1_def)
  ultimately show ?thesis
    using loop st g unfolding intsetUpgradeAndAdd_def Let_def cur ln
    by (auto simp flip: e'_def is1_def pre_def vs'_def split: if_splits)
qed

section \<open>The operations on well-formed sets\<close>

lemma intsetValueEncoding_fits:
  "e \<in> {2, 4, 8} \<Longrightarrow> intsetValueEncoding v \<le> e \<longleftrightarrow> fits e v"
  using sint_greater_eq [of v] sint_lt [of v] by (auto simp: intsetValueEncoding_def fits_def)

lemma search_at_insert:
  assumes srt: "sorted_wrt (<) (map sint vs)" and at: "search_at vs v p" and nv: "v \<notin> set vs"
  shows "sorted_wrt (<) (map sint (take p vs @ [v] @ drop p vs))"
    and "set (take p vs @ [v] @ drop p vs) = insert v (set vs)"
proof -
  have "sorted_wrt (<) (map sint (take p vs @ drop p vs))" using srt by simp
  then show "sorted_wrt (<) (map sint (take p vs @ [v] @ drop p vs))"
    using at nv unfolding map_append sorted_wrt_append search_at_def by auto
  show "set (take p vs @ [v] @ drop p vs) = insert v (set vs)"
    by (metis Un_insert_right append_Cons append_Nil append_take_drop_id list.simps(15) set_append)
qed

lemma upgrade_sorted:
  assumes rep: "intset_rep is e vs" and srt: "sorted_wrt (<) (map sint vs)" and up: "e < intsetValueEncoding v"
  shows "sorted_wrt (<) (map sint (if sint v < 0 then v # vs else vs @ [v]))" and "v \<notin> set vs"
proof -
  have e: "e \<in> {2, 4, 8}" and fit: "\<forall>x\<in>set vs. fits e x" using rep by (auto simp: intset_rep_def)
  have "\<not> fits e v" using up e intsetValueEncoding_fits [of e v] by auto
  then show "sorted_wrt (<) (map sint (if sint v < 0 then v # vs else vs @ [v]))"
    using srt fit by (fastforce simp: fits_def sorted_wrt_append)
  show "v \<notin> set vs" using \<open>\<not> fits e v\<close> fit by auto
qed

lemma sint_image_insert [simp]: "sint v \<in> sint ` (A :: i64 set) \<longleftrightarrow> v \<in> A"
  by (auto dest: signed_word_eqI)

lemma intsetAdd_ok:
  assumes "intset_ok is" and "unat (is_length is) < 2 ^ 29 - 1"
  shows "\<exists>is'. intsetAdd fresh is v = Some (is', sint v \<notin> set (intset_vals is)) \<and> intset_ok is' \<and>
    set (intset_vals is') = insert (sint v) (set (intset_vals is))"
proof -
  let ?e = "unat (is_encoding is)"
  obtain vs where rep: "intset_rep is ?e vs" and srt: "sorted_wrt (<) (map sint vs)"
    using intset_ok_rep [OF assms(1)] by blast
  have len: "(length vs + 1) * 8 < 2 ^ 32" and e: "?e \<in> {2, 4, 8}"
    using assms(2) rep by (auto simp: intset_rep_def)
  note vals = intset_rep_vals [OF rep]
  consider (up) "?e < intsetValueEncoding v" | (fit) "\<not> ?e < intsetValueEncoding v" by blast
  then show ?thesis
  proof cases
    case up
    let ?vs = "if sint v < 0 then v # vs else vs @ [v]"
    obtain is' where is': "intsetUpgradeAndAdd fresh is v = Some is'" "intset_rep is' (intsetValueEncoding v) ?vs"
      using intsetUpgradeAndAdd_spec [OF rep up len] by blast
    note us = upgrade_sorted [OF rep srt up]
    have "intset_ok is'" by (rule intset_rep_ok [OF is'(2) us(1)])
    then show ?thesis
      using up is' us(2) by (auto simp: intsetAdd_def vals intset_rep_vals [OF is'(2)])
  next
    case fit
    then have fv: "fits ?e v" using intsetValueEncoding_fits [OF e, of v] by simp
    obtain p where p: "intsetSearch is v = Some (v \<in> set vs, of_nat p)" "search_at vs v p"
      using intsetSearch_spec [OF rep srt] len by auto
    show ?thesis
    proof (cases "v \<in> set vs")
      case True
      then show ?thesis using fit p assms(1) by (auto simp: intsetAdd_def vals)
    next
      case False
      have pl: "p \<le> length vs" using p(2) by (simp add: search_at_def)
      let ?vs = "take p vs @ [v] @ drop p vs"
      obtain is' where is': "intsetAdd fresh is v = Some (is', True)" "intset_rep is' ?e ?vs"
        using intset_rep_insert [OF rep pl fv len, of fresh] fit p(1) False by (auto simp: intsetAdd_def)
      note si = search_at_insert [OF srt p(2) False]
      have "intset_ok is'" by (rule intset_rep_ok [OF is'(2) si(1)])
      moreover have "set (intset_vals is') = insert (sint v) (set (intset_vals is))"
        using si(2) by (simp only: vals intset_rep_vals [OF is'(2)] set_map image_insert)
      ultimately show ?thesis using is'(1) False by (auto simp: vals)
    qed
  qed
qed

lemma intsetRemove_ok:
  assumes "intset_ok is" and "unat (is_length is) \<le> 2 ^ 29 - 1"
  shows "\<exists>is'. intsetRemove fresh is v = Some (is', sint v \<in> set (intset_vals is)) \<and> intset_ok is' \<and>
    intset_vals is' = filter (\<lambda>x. x \<noteq> sint v) (intset_vals is)"
proof -
  let ?e = "unat (is_encoding is)"
  obtain vs where rep: "intset_rep is ?e vs" and srt: "sorted_wrt (<) (map sint vs)"
    using intset_ok_rep [OF assms(1)] by blast
  have len: "length vs * 8 < 2 ^ 32" and len31: "length vs < 2 ^ 31" and e: "?e \<in> {2, 4, 8}"
    using assms(2) rep by (auto simp: intset_rep_def)
  note vals = intset_rep_vals [OF rep]
  obtain p where p: "intsetSearch is v = Some (v \<in> set vs, of_nat p)" "search_at vs v p"
    using intsetSearch_spec [OF rep srt len31] by auto
  show ?thesis
  proof (cases "v \<in> set vs")
    case True
    then have pv: "p < length vs" "vs ! p = v" using p(2) by (auto simp: search_at_def)
    have fit: "intsetValueEncoding v \<le> ?e"
      using True rep intsetValueEncoding_fits [OF e, of v] by (auto simp: intset_rep_def)
    obtain is' where is': "intsetRemove fresh is v = Some (is', True)" "intset_rep is' ?e (take p vs @ drop (Suc p) vs)"
      using intset_rep_delete [OF rep pv(1) len, of fresh] fit p(1) True by (auto simp: intsetRemove_def)
    have split: "map sint vs = map sint (take p vs) @ sint v # map sint (drop (Suc p) vs)"
      using id_take_nth_drop [OF pv(1)] pv(2) by (metis list.simps(9) map_append)
    have srt2: "sorted_wrt (<) (map sint (take p vs) @ sint v # map sint (drop (Suc p) vs))"
      using srt split by simp
    then have "sorted_wrt (<) (map sint (take p vs @ drop (Suc p) vs))"
      by (auto simp: sorted_wrt_append)
    then have "intset_ok is'" by (rule intset_rep_ok [OF is'(2)])
    moreover have "filter (\<lambda>x. x \<noteq> sint v) (map sint vs) = map sint (take p vs @ drop (Suc p) vs)"
    proof -
      have "filter (\<lambda>x. x \<noteq> sint v) (map sint (take p vs)) = map sint (take p vs)"
        and "filter (\<lambda>x. x \<noteq> sint v) (map sint (drop (Suc p) vs)) = map sint (drop (Suc p) vs)"
        using srt2 by (auto simp: sorted_wrt_append filter_id_conv)
      then show ?thesis unfolding split by simp
    qed
    ultimately show ?thesis
      using is'(1) True by (simp add: vals intset_rep_vals [OF is'(2)])
  next
    case False
    then have "intsetRemove fresh is v = Some (is, False)" using p(1) by (simp add: intsetRemove_def Let_def)
    moreover have "filter (\<lambda>x. x \<noteq> sint v) (map sint vs) = map sint vs"
      using False by (auto simp: filter_id_conv dest: signed_word_eqI)
    ultimately show ?thesis using False assms(1) by (simp add: vals)
  qed
qed

lemma intsetFind_ok:
  assumes "intset_ok is" and "unat (is_length is) \<le> 2 ^ 29 - 1"
  shows "intsetFind is v = Some (sint v \<in> set (intset_vals is))"
proof -
  let ?e = "unat (is_encoding is)"
  obtain vs where rep: "intset_rep is ?e vs" and srt: "sorted_wrt (<) (map sint vs)"
    using intset_ok_rep [OF assms(1)] by blast
  have len31: "length vs < 2 ^ 31" and e: "?e \<in> {2, 4, 8}" and fits: "\<forall>x\<in>set vs. fits ?e x"
    using assms(2) rep by (auto simp: intset_rep_def)
  obtain p where "intsetSearch is v = Some (v \<in> set vs, of_nat p)"
    using intsetSearch_spec [OF rep srt len31] by auto
  then show ?thesis
    using intsetValueEncoding_fits [OF e, of v] fits by (auto simp: intsetFind_def intset_rep_vals [OF rep])
qed

section \<open>The set contract\<close>

definition intset_elems :: "intset \<Rightarrow> i64 set" where
  "intset_elems is = {v. sint v \<in> set (intset_vals is)}"

lemma card_intset_elems: "intset_ok is \<Longrightarrow> card (intset_elems is) = unat (is_length is)"
proof -
  assume "intset_ok is"
  then obtain vs where rep: "intset_rep is (unat (is_encoding is)) vs" and srt: "sorted_wrt (<) (map sint vs)"
    using intset_ok_rep by blast
  then have "intset_elems is = set vs" by (auto simp: intset_elems_def intset_rep_vals)
  moreover have "distinct vs" using srt by (metis distinct_map strict_sorted_iff)
  ultimately show ?thesis using rep by (simp add: distinct_card intset_rep_def)
qed

interpretation intset_set: bounded_set intsetNew "intsetAdd fresh" "intsetRemove fresh" intsetFind
  intset_elems intset_ok "2 ^ 29 - 1"
proof unfold_locales
  show "intset_ok intsetNew" and "intset_elems intsetNew = {}"
    by (simp_all add: intset_ok_def intset_elems_def intset_vals_def intsetNew_def)
  show "intset_ok s \<Longrightarrow> finite (intset_elems s)" for s
    by (rule finite_subset [of _ UNIV]) simp_all
  show "\<exists>s'. intsetAdd fresh s x = Some (s', x \<notin> intset_elems s) \<and> intset_ok s' \<and>
      intset_elems s' = insert x (intset_elems s)"
    if "intset_ok s" "card (intset_elems s) < 2 ^ 29 - 1" for s x
    using intsetAdd_ok [OF that(1), of fresh x] that(2) unfolding card_intset_elems [OF that(1)]
    by (auto simp: intset_elems_def dest: signed_word_eqI)
  show "\<exists>s'. intsetRemove fresh s x = Some (s', x \<in> intset_elems s) \<and> intset_ok s' \<and>
      intset_elems s' = intset_elems s - {x}"
    if "intset_ok s" "card (intset_elems s) \<le> 2 ^ 29 - 1" for s x
    using intsetRemove_ok [OF that(1), of fresh x] that(2) unfolding card_intset_elems [OF that(1)]
    by (auto simp: intset_elems_def dest: signed_word_eqI)
  show "intsetFind s x = Some (x \<in> intset_elems s)"
    if "intset_ok s" "card (intset_elems s) \<le> 2 ^ 29 - 1" for s x
    using intsetFind_ok [OF that(1)] that(2) unfolding card_intset_elems [OF that(1)]
    by (simp add: intset_elems_def)
qed

section \<open>Properties\<close>

text \<open>Property C11.  A sequence of insertions and deletions of any 64 bit values, of length below
  the capacity of the 32 bit size arithmetic, run on a new set never accesses memory outside the
  block, keeps the set well-formed, and afterwards \<open>intsetFind\<close> answers membership exactly as in
  the mathematical set the sequence denotes.\<close>

theorem intset_refines_set:
  assumes "length ops \<le> 2 ^ 29 - 1"
  shows "\<exists>is. run_set_ops (intsetAdd fresh) (intsetRemove fresh) ops intsetNew = Some is \<and> intset_ok is \<and>
    (\<forall>v. intsetFind is v = Some (v \<in> set_ops_result ops {}))"
  by (rule intset_set.run_find [OF assms])

theorem intset_refines_set_witness:
  "\<exists>is. run_set_ops (intsetAdd (\<lambda>_. 0)) (intsetRemove (\<lambda>_. 0)) [SAdd 5, SAdd (-70000), SRem 5] intsetNew = Some is
    \<and> intset_ok is \<and> intsetFind is (-70000) = Some True \<and> intsetFind is 5 = Some False"
  using intset_refines_set [of "[SAdd 5, SAdd (-70000), SRem 5]" "\<lambda>_. 0"] by auto


definition intset_ex :: intset where
  "intset_ex = \<lparr>is_encoding = 2, is_length = 2, is_contents = [251, 255, 7, 0]\<rparr>"


text \<open>Property C38.  The block size is computed in 32 bits (\<open>uint32_t size = len*encoding\<close>): on a
  well-formed set of \<open>2 ^ 29 - 1\<close> 64 bit values, adding a value above all of them asks for a block
  of size 0 and then writes outside it.\<close>

theorem intsetAdd_size_overflow:
  assumes "intset_ok is" and "is_encoding is = 8" and "is_length is = 2 ^ 29 - 1"
    and "\<forall>x\<in>set (intset_vals is). x < sint v"
  shows "is_contents (intsetResize fresh is (is_length is + 1)) = [] \<and> intsetAdd fresh is v = None"
proof -
  obtain vs where rep: "intset_rep is 8 vs"
    using intset_ok_rep [OF assms(1)] assms(2) by auto
  have len: "length vs = 2 ^ 29 - 1" using rep assms(3) by (simp add: intset_rep_def)
  then have vs: "vs \<noteq> []" by auto
  have rs: "intsetResize fresh is (is_length is + 1) = is\<lparr>is_contents := []\<rparr>"
    by (simp add: intsetResize_def assms(2,3) mem_realloc_def)
  have "sint (last vs) < sint v"
    using assms(4) vs by (simp add: intset_rep_vals [OF rep])
  then have "intsetSearch is v = Some (False, is_length is)"
    using intset_rep_last(1) [OF rep vs] len assms(3) by (simp add: intsetSearch_def)
  moreover have "intsetValueEncoding v \<le> 8" by (simp add: intsetValueEncoding_def)
  moreover have "intsetSetAt (is\<lparr>is_contents := []\<rparr>) (sint (is_length is)) v = None"
    using assms(2,3) by (simp add: intsetSetAt_def mem_write_def)
  ultimately show ?thesis
    using rs assms(2) by (simp add: intsetAdd_def)
qed

lemma intset_upto_ok:
  assumes "n < 2 ^ 31"
  defines "is \<equiv> \<lparr>is_encoding = 8, is_length = of_nat n, is_contents = concat (map (le_bytes 8) (map of_nat [0..<n]))\<rparr>"
  shows "intset_ok is" and "intset_vals is = map int [0..<n]"
proof -
  have rep: "intset_rep is 8 (map of_nat [0..<n])"
    using assms by (auto simp: intset_rep_def unat_of_nat_small)
  have s: "map sint (map of_nat [0..<n] :: i64 list) = map int [0..<n]"
    using assms by (auto intro!: sint_of_nat_small)
  then show "intset_vals is = map int [0..<n]" by (simp only: intset_rep_vals [OF rep])
  show "intset_ok is" by (rule intset_rep_ok [OF rep]) (simp only: s sorted_wrt_map sorted_wrt_upt of_nat_less_iff)
qed

theorem intsetAdd_size_overflow_witness:
  "\<exists>is. intset_ok is \<and> is_length is = 2 ^ 29 - 1 \<and> intsetAdd (\<lambda>_. 0) is (2 ^ 40) = None"
proof -
  define n :: nat where "n = 2 ^ 29 - 1"
  let ?is = "\<lparr>is_encoding = 8, is_length = of_nat n, is_contents = concat (map (le_bytes 8) (map of_nat [0..<n]))\<rparr>"
  have n: "n < 2 ^ 31" by (simp add: n_def)
  note ok = intset_upto_ok [OF n]
  have l: "is_length ?is = 2 ^ 29 - 1" by (simp add: n_def)
  have "\<forall>x\<in>set (intset_vals ?is). x < sint (2 ^ 40 :: i64)"
    using n unfolding ok(2) by auto
  then have "intsetAdd (\<lambda>_. 0) ?is (2 ^ 40) = None"
    using intsetAdd_size_overflow [OF ok(1) _ l, of "2 ^ 40" "\<lambda>_. 0"] by simp
  then show ?thesis using ok(1) l by blast
qed

end
