(* ===== verification/Dict.thy ===== *)
theory Dict
  imports Interfaces "HOL-Library.Multiset"
begin

unbundle bit_operations_syntax

text \<open>
  The hash table of \<open>dict.c\<close>: open chains, two tables and incremental
  rehashing from the first to the second.  A bucket (\<open>dictEntry *\<close> and its
  \<open>next\<close> links) is the list of its entries in chain order, a table is a list
  of buckets or \<open>None\<close> for \<open>NULL\<close>, and a pointer to an entry that a
  function returns is the entry's coordinates: table, bucket, position in the
  chain.  Bucket accesses outside a table and failed assertions are \<open>None\<close>.
  Sizes (\<open>unsigned long\<close>) are natural numbers: the code guards the only place
  where they could leave 64 bits (\<open>_dictNextPower\<close>).  Hash values are 32 bit
  words, and the index that \<open>_dictKeyIndex\<close> returns is converted to a C
  \<open>int\<close> as in the code.  Destructors only release memory and do not appear.
\<close>

section \<open>Data\<close>

record ('k, 'v) dictEntry =
  de_key :: 'k
  de_val :: 'v

record ('k, 'v) dictType =
  hashFunction :: "'k \<Rightarrow> u32"
  keyDup :: "('k \<Rightarrow> 'k) option"
  valDup :: "('v \<Rightarrow> 'v) option"
  keyCompare :: "('k \<Rightarrow> 'k \<Rightarrow> bool) option"

type_synonym ('k, 'v) chain = "('k, 'v) dictEntry list"

record ('k, 'v) dictht =
  ht_table :: "('k, 'v) chain list option"
  ht_size :: nat
  ht_sizemask :: nat
  ht_used :: nat

record ('k, 'v) dict =
  d_type :: "('k, 'v) dictType"
  d_ht0 :: "('k, 'v) dictht"
  d_ht1 :: "('k, 'v) dictht"
  d_rehashidx :: int
  d_iterators :: int

type_synonym entry_ref = "nat \<times> nat \<times> nat"

definition dictCompareKeys :: "('k, 'v) dictType \<Rightarrow> 'k \<Rightarrow> 'k \<Rightarrow> bool" where
  "dictCompareKeys ty k1 k2 = (case keyCompare ty of Some f \<Rightarrow> f k1 k2 | None \<Rightarrow> k1 = k2)"

definition dictSetKey :: "('k, 'v) dictType \<Rightarrow> 'k \<Rightarrow> 'k" where
  "dictSetKey ty k = (case keyDup ty of Some f \<Rightarrow> f k | None \<Rightarrow> k)"

definition dictSetVal :: "('k, 'v) dictType \<Rightarrow> 'v \<Rightarrow> 'v" where
  "dictSetVal ty v = (case valDup ty of Some f \<Rightarrow> f v | None \<Rightarrow> v)"

definition dictIsRehashing :: "('k, 'v) dict \<Rightarrow> bool" where
  "dictIsRehashing d \<longleftrightarrow> d_rehashidx d \<noteq> -1"

definition dictSize :: "('k, 'v) dict \<Rightarrow> nat" where
  "dictSize d = ht_used (d_ht0 d) + ht_used (d_ht1 d)"

definition dictSlots :: "('k, 'v) dict \<Rightarrow> nat" where
  "dictSlots d = ht_size (d_ht0 d) + ht_size (d_ht1 d)"

text \<open>The two elements of the array \<open>ht[2]\<close>, read and written by index.\<close>

definition dict_ht :: "('k, 'v) dict \<Rightarrow> nat \<Rightarrow> ('k, 'v) dictht" where
  "dict_ht d t = (if t = 0 then d_ht0 d else d_ht1 d)"

definition set_ht :: "nat \<Rightarrow> ('k, 'v) dictht \<Rightarrow> ('k, 'v) dict \<Rightarrow> ('k, 'v) dict" where
  "set_ht t h d = (if t = 0 then d\<lparr>d_ht0 := h\<rparr> else d\<lparr>d_ht1 := h\<rparr>)"

definition bucket_get :: "('k, 'v) dictht \<Rightarrow> nat \<Rightarrow> ('k, 'v) chain option" where
  "bucket_get h i = do { t \<leftarrow> ht_table h; mem_get i t }"

definition bucket_set :: "('k, 'v) dictht \<Rightarrow> nat \<Rightarrow> ('k, 'v) chain \<Rightarrow> ('k, 'v) dictht option" where
  "bucket_set h i c = do { t \<leftarrow> ht_table h; t' \<leftarrow> mem_set i c t; Some (h\<lparr>ht_table := Some t'\<rparr>) }"

definition bucket_idx :: "('k, 'v) dictType \<Rightarrow> ('k, 'v) dictht \<Rightarrow> 'k \<Rightarrow> nat" where
  "bucket_idx ty h k = unat (hashFunction ty k) AND ht_sizemask h"

section \<open>Creation and expansion\<close>

definition dictReset :: "('k, 'v) dictht" where
  "dictReset = \<lparr>ht_table = None, ht_size = 0, ht_sizemask = 0, ht_used = 0\<rparr>"

definition dictInit :: "('k, 'v) dictType \<Rightarrow> ('k, 'v) dict" where
  "dictInit ty = \<lparr>d_type = ty, d_ht0 = dictReset, d_ht1 = dictReset, d_rehashidx = -1, d_iterators = 0\<rparr>"

definition dictCreate :: "('k, 'v) dictType \<Rightarrow> ('k, 'v) dict" where
  "dictCreate ty = dictInit ty"

abbreviation (input) DICT_HT_INITIAL_SIZE :: nat where
  "DICT_HT_INITIAL_SIZE \<equiv> 4"

abbreviation (input) LONG_MAX :: nat where
  "LONG_MAX \<equiv> 2 ^ 63 - 1"

partial_function (option) dictNextPowerLoop :: "nat \<Rightarrow> nat \<Rightarrow> nat option" where
  "dictNextPowerLoop i sz = (if i \<ge> sz then Some i else dictNextPowerLoop (i * 2) sz)"

declare dictNextPowerLoop.simps [code]

definition dictNextPower :: "nat \<Rightarrow> nat option" where
  "dictNextPower sz =
     (if sz \<ge> LONG_MAX then Some LONG_MAX else dictNextPowerLoop DICT_HT_INITIAL_SIZE sz)"

text \<open>The result is the dictionary and whether the call returned \<open>DICT_OK\<close>.\<close>

definition dictExpand :: "('k, 'v) dict \<Rightarrow> nat \<Rightarrow> (('k, 'v) dict \<times> bool) option" where
  "dictExpand d sz = do {
     realsize \<leftarrow> dictNextPower sz;
     if dictIsRehashing d \<or> ht_used (d_ht0 d) > sz then Some (d, False)
     else if realsize = ht_size (d_ht0 d) then Some (d, False)
     else do {
       let n = \<lparr>ht_table = Some (replicate realsize []), ht_size = realsize,
                ht_sizemask = realsize - 1, ht_used = 0\<rparr>;
       if ht_table (d_ht0 d) = None then Some (d\<lparr>d_ht0 := n\<rparr>, True)
       else Some (d\<lparr>d_ht1 := n, d_rehashidx := 0\<rparr>, True)
     }
   }"

definition dictResize :: "bool \<Rightarrow> ('k, 'v) dict \<Rightarrow> (('k, 'v) dict \<times> bool) option" where
  "dictResize dict_can_resize d =
     (if \<not> dict_can_resize \<or> dictIsRehashing d then Some (d, False)
      else let minimal = sint (word_of_nat (ht_used (d_ht0 d)) :: u32);
               minimal = (if minimal < int DICT_HT_INITIAL_SIZE then int DICT_HT_INITIAL_SIZE else minimal)
           in dictExpand d (nat minimal))"

section \<open>Incremental rehashing\<close>

text \<open>One bucket: each entry of the chain goes to the head of its chain in the new table.\<close>

fun rehashChain :: "('k, 'v) dictType \<Rightarrow> ('k, 'v) chain \<Rightarrow> ('k, 'v) dictht \<Rightarrow> ('k, 'v) dictht \<Rightarrow>
    (('k, 'v) dictht \<times> ('k, 'v) dictht) option" where
  "rehashChain ty [] h0 h1 = Some (h0, h1)"
| "rehashChain ty (de # nextde) h0 h1 = do {
     let h = bucket_idx ty h1 (de_key de);
     c \<leftarrow> bucket_get h1 h;
     h1' \<leftarrow> bucket_set h1 h (de # c);
     rehashChain ty nextde (h0\<lparr>ht_used := ht_used h0 - 1\<rparr>) (h1'\<lparr>ht_used := ht_used h1' + 1\<rparr>)
   }"

text \<open>
  The loop over empty buckets.  The left result is the early return after
  \<open>empty_visits\<close> empty buckets, with the index reached.  The counter is
  positive whenever the loop is entered.
\<close>

fun rehashSkip :: "('k, 'v) dictht \<Rightarrow> nat \<Rightarrow> nat \<Rightarrow> (nat + nat \<times> nat) option" where
  "rehashSkip h0 idx 0 = None"
| "rehashSkip h0 idx (Suc empty_visits) = do {
     c \<leftarrow> bucket_get h0 idx;
     if c = [] then
       (if empty_visits = 0 then Some (Inl (idx + 1)) else rehashSkip h0 (idx + 1) empty_visits)
     else Some (Inr (idx, Suc empty_visits))
   }"

fun rehashLoop :: "nat \<Rightarrow> nat \<Rightarrow> ('k, 'v) dict \<Rightarrow> (('k, 'v) dict \<times> bool) option" where
  "rehashLoop 0 empty_visits d = Some (d, False)"
| "rehashLoop (Suc n) empty_visits d =
     (if ht_used (d_ht0 d) = 0 then Some (d, False)
      else if \<not> (d_rehashidx d \<ge> 0 \<and> ht_size (d_ht0 d) > nat (d_rehashidx d)) then None
      else do {
        r \<leftarrow> rehashSkip (d_ht0 d) (nat (d_rehashidx d)) empty_visits;
        (case r of
           Inl idx \<Rightarrow> Some (d\<lparr>d_rehashidx := int idx\<rparr>, True)
         | Inr (idx, empty_visits') \<Rightarrow> do {
             de \<leftarrow> bucket_get (d_ht0 d) idx;
             (h0, h1) \<leftarrow> rehashChain (d_type d) de (d_ht0 d) (d_ht1 d);
             h0' \<leftarrow> bucket_set h0 idx [];
             rehashLoop n empty_visits' (d\<lparr>d_ht0 := h0', d_ht1 := h1, d_rehashidx := int idx + 1\<rparr>)
           })
      })"

text \<open>The boolean is the return value: whether there are still keys to move.\<close>

definition dictRehash :: "('k, 'v) dict \<Rightarrow> nat \<Rightarrow> (('k, 'v) dict \<times> bool) option" where
  "dictRehash d n =
     (if \<not> dictIsRehashing d then Some (d, False)
      else do {
        (d', early) \<leftarrow> rehashLoop n (n * 10) d;
        if early then Some (d', True)
        else if ht_used (d_ht0 d') = 0 then
          Some (d'\<lparr>d_ht0 := d_ht1 d', d_ht1 := dictReset, d_rehashidx := -1\<rparr>, False)
        else Some (d', True)
      })"

definition dictRehashStep :: "('k, 'v) dict \<Rightarrow> ('k, 'v) dict option" where
  "dictRehashStep d = (if d_iterators d = 0 then map_option fst (dictRehash d 1) else Some d)"

text \<open>
  \<open>clock i\<close> is the \<open>i\<close>-th reading of \<open>timeInMilliseconds\<close>
  (number 0 is the start).
\<close>

partial_function (option) dictRehashMillisecondsLoop ::
    "(nat \<Rightarrow> int) \<Rightarrow> int \<Rightarrow> nat \<Rightarrow> ('k, 'v) dict \<Rightarrow> nat \<Rightarrow> (('k, 'v) dict \<times> nat) option" where
  "dictRehashMillisecondsLoop clock ms i d rehashes = do {
     (d', more) \<leftarrow> dictRehash d 100;
     if more then
       (if clock (Suc i) - clock 0 > ms then Some (d', rehashes + 100)
        else dictRehashMillisecondsLoop clock ms (Suc i) d' (rehashes + 100))
     else Some (d', rehashes)
   }"

declare dictRehashMillisecondsLoop.simps [code]

definition dictRehashMilliseconds ::
    "(nat \<Rightarrow> int) \<Rightarrow> ('k, 'v) dict \<Rightarrow> int \<Rightarrow> (('k, 'v) dict \<times> nat) option" where
  "dictRehashMilliseconds clock d ms = dictRehashMillisecondsLoop clock ms 0 d 0"

section \<open>Lookup, insertion and deletion\<close>

fun chainFind :: "('k, 'v) dictType \<Rightarrow> 'k \<Rightarrow> ('k, 'v) chain \<Rightarrow> nat option" where
  "chainFind ty key [] = None"
| "chainFind ty key (he # next) =
     (if dictCompareKeys ty key (de_key he) then Some 0 else map_option Suc (chainFind ty key next))"

text \<open>
  The search that \<open>dictFind\<close>, \<open>dictGenericDelete\<close> and
  \<open>_dictKeyIndex\<close> all run: the first table and, while rehashing, the second.
\<close>

definition dictSearch :: "('k, 'v) dict \<Rightarrow> 'k \<Rightarrow> entry_ref option option" where
  "dictSearch d key = do {
     let idx0 = bucket_idx (d_type d) (d_ht0 d) key;
     c0 \<leftarrow> bucket_get (d_ht0 d) idx0;
     (case chainFind (d_type d) key c0 of
        Some p \<Rightarrow> Some (Some (0, idx0, p))
      | None \<Rightarrow>
          if \<not> dictIsRehashing d then Some None
          else do {
            let idx1 = bucket_idx (d_type d) (d_ht1 d) key;
            c1 \<leftarrow> bucket_get (d_ht1 d) idx1;
            (case chainFind (d_type d) key c1 of
               Some p \<Rightarrow> Some (Some (1, idx1, p))
             | None \<Rightarrow> Some None)
          })
   }"

definition dictFind :: "('k, 'v) dict \<Rightarrow> 'k \<Rightarrow> (('k, 'v) dict \<times> entry_ref option) option" where
  "dictFind d key =
     (if ht_size (d_ht0 d) = 0 then Some (d, None)
      else do {
        d \<leftarrow> (if dictIsRehashing d then dictRehashStep d else Some d);
        he \<leftarrow> dictSearch d key;
        Some (d, he)
      })"

text \<open>Dereferencing an entry, and storing a value through it.\<close>

definition entry_get :: "('k, 'v) dict \<Rightarrow> entry_ref \<Rightarrow> ('k, 'v) dictEntry option" where
  "entry_get d r = (case r of (t, i, p) \<Rightarrow> do { c \<leftarrow> bucket_get (dict_ht d t) i; mem_get p c })"

definition entry_set :: "('k, 'v) dict \<Rightarrow> entry_ref \<Rightarrow> 'v \<Rightarrow> ('k, 'v) dict option" where
  "entry_set d r v = (case r of (t, i, p) \<Rightarrow> do {
     c \<leftarrow> bucket_get (dict_ht d t) i;
     e \<leftarrow> mem_get p c;
     c' \<leftarrow> mem_set p (e\<lparr>de_val := v\<rparr>) c;
     h \<leftarrow> bucket_set (dict_ht d t) i c';
     Some (set_ht t h d) })"

definition dictFetchValue :: "('k, 'v) dict \<Rightarrow> 'k \<Rightarrow> (('k, 'v) dict \<times> 'v option) option" where
  "dictFetchValue d key = do {
     (d, he) \<leftarrow> dictFind d key;
     (case he of None \<Rightarrow> Some (d, None)
      | Some r \<Rightarrow> do { e \<leftarrow> entry_get d r; Some (d, Some (de_val e)) }) }"

abbreviation (input) dict_force_resize_ratio :: nat where
  "dict_force_resize_ratio \<equiv> 5"

definition dictExpandIfNeeded :: "bool \<Rightarrow> ('k, 'v) dict \<Rightarrow> (('k, 'v) dict \<times> bool) option" where
  "dictExpandIfNeeded dict_can_resize d =
     (if dictIsRehashing d then Some (d, True)
      else if ht_size (d_ht0 d) = 0 then dictExpand d DICT_HT_INITIAL_SIZE
      else if ht_used (d_ht0 d) \<ge> ht_size (d_ht0 d) \<and>
         (dict_can_resize \<or> ht_used (d_ht0 d) div ht_size (d_ht0 d) > dict_force_resize_ratio)
      then dictExpand d (ht_used (d_ht0 d) * 2)
      else Some (d, True))"

definition dictKeyIndex :: "bool \<Rightarrow> ('k, 'v) dict \<Rightarrow> 'k \<Rightarrow> (('k, 'v) dict \<times> int) option" where
  "dictKeyIndex dict_can_resize d key = do {
     (d, ok) \<leftarrow> dictExpandIfNeeded dict_can_resize d;
     if \<not> ok then Some (d, -1)
     else do {
       he \<leftarrow> dictSearch d key;
       if he \<noteq> None then Some (d, -1)
       else do {
         let ht = (if dictIsRehashing d then d_ht1 d else d_ht0 d);
         Some (d, sint (word_of_nat (bucket_idx (d_type d) ht key) :: u32))
       }
     }
   }"

text \<open>
  \<open>uninit\<close> is what the value field of the freshly allocated entry holds.  A
  negative index would be an access in front of the table.
\<close>

definition dictAddRaw :: "bool \<Rightarrow> 'v \<Rightarrow> ('k, 'v) dict \<Rightarrow> 'k \<Rightarrow> (('k, 'v) dict \<times> entry_ref option) option" where
  "dictAddRaw dict_can_resize uninit d key = do {
     d \<leftarrow> (if dictIsRehashing d then dictRehashStep d else Some d);
     (d, index) \<leftarrow> dictKeyIndex dict_can_resize d key;
     if index = -1 then Some (d, None)
     else if index < 0 then None
     else do {
       let t = (if dictIsRehashing d then 1 else 0);
       let ht = dict_ht d t;
       c \<leftarrow> bucket_get ht (nat index);
       ht' \<leftarrow> bucket_set ht (nat index) (\<lparr>de_key = dictSetKey (d_type d) key, de_val = uninit\<rparr> # c);
       Some (set_ht t (ht'\<lparr>ht_used := ht_used ht' + 1\<rparr>) d, Some (t, nat index, 0))
     }
   }"

definition dictAdd :: "bool \<Rightarrow> 'v \<Rightarrow> ('k, 'v) dict \<Rightarrow> 'k \<Rightarrow> 'v \<Rightarrow> (('k, 'v) dict \<times> bool) option" where
  "dictAdd dict_can_resize uninit d key val = do {
     (d, entry) \<leftarrow> dictAddRaw dict_can_resize uninit d key;
     (case entry of
        None \<Rightarrow> Some (d, False)
      | Some r \<Rightarrow> do { d \<leftarrow> entry_set d r (dictSetVal (d_type d) val); Some (d, True) })
   }"

definition dictReplace :: "bool \<Rightarrow> 'v \<Rightarrow> ('k, 'v) dict \<Rightarrow> 'k \<Rightarrow> 'v \<Rightarrow> (('k, 'v) dict \<times> bool) option" where
  "dictReplace dict_can_resize uninit d key val = do {
     (d, ok) \<leftarrow> dictAdd dict_can_resize uninit d key val;
     if ok then Some (d, True)
     else do {
       (d, entry) \<leftarrow> dictFind d key;
       r \<leftarrow> entry;
       d \<leftarrow> entry_set d r (dictSetVal (d_type d) val);
       Some (d, False)
     }
   }"

definition dictReplaceRaw :: "bool \<Rightarrow> 'v \<Rightarrow> ('k, 'v) dict \<Rightarrow> 'k \<Rightarrow> (('k, 'v) dict \<times> entry_ref option) option" where
  "dictReplaceRaw dict_can_resize uninit d key = do {
     (d, entry) \<leftarrow> dictFind d key;
     (case entry of Some r \<Rightarrow> Some (d, Some r) | None \<Rightarrow> dictAddRaw dict_can_resize uninit d key)
   }"

definition chainRemove :: "nat \<Rightarrow> 'a list \<Rightarrow> 'a list" where
  "chainRemove p c = take p c @ drop (Suc p) c"

definition dictGenericDelete :: "('k, 'v) dict \<Rightarrow> 'k \<Rightarrow> (('k, 'v) dict \<times> bool) option" where
  "dictGenericDelete d key =
     (if ht_size (d_ht0 d) = 0 then Some (d, False)
      else do {
        d \<leftarrow> (if dictIsRehashing d then dictRehashStep d else Some d);
        he \<leftarrow> dictSearch d key;
        (case he of
           None \<Rightarrow> Some (d, False)
         | Some (t, idx, p) \<Rightarrow> do {
             c \<leftarrow> bucket_get (dict_ht d t) idx;
             h \<leftarrow> bucket_set (dict_ht d t) idx (chainRemove p c);
             Some (set_ht t (h\<lparr>ht_used := ht_used h - 1\<rparr>) d, True)
           })
      })"

definition dictDelete :: "('k, 'v) dict \<Rightarrow> 'k \<Rightarrow> (('k, 'v) dict \<times> bool) option" where
  "dictDelete d key = dictGenericDelete d key"

definition dictDeleteNoFree :: "('k, 'v) dict \<Rightarrow> 'k \<Rightarrow> (('k, 'v) dict \<times> bool) option" where
  "dictDeleteNoFree d key = dictGenericDelete d key"

text \<open>Clearing frees entries bucket by bucket while \<open>used\<close> is positive, then resets the table.\<close>

fun dictClearLoop :: "nat \<Rightarrow> nat \<Rightarrow> ('k, 'v) dictht \<Rightarrow> ('k, 'v) dictht option" where
  "dictClearLoop 0 i h = Some h"
| "dictClearLoop (Suc n) i h =
     (if ht_used h > 0 then do {
        c \<leftarrow> bucket_get h i;
        dictClearLoop n (Suc i) (h\<lparr>ht_used := ht_used h - length c\<rparr>)
      }
      else Some h)"

definition dictClear :: "('k, 'v) dictht \<Rightarrow> ('k, 'v) dictht option" where
  "dictClear h = do { _ \<leftarrow> dictClearLoop (ht_size h) 0 h; Some dictReset }"

definition dictEmpty :: "('k, 'v) dict \<Rightarrow> ('k, 'v) dict option" where
  "dictEmpty d = do {
     h0 \<leftarrow> dictClear (d_ht0 d);
     h1 \<leftarrow> dictClear (d_ht1 d);
     Some (d\<lparr>d_ht0 := h0, d_ht1 := h1, d_rehashidx := -1, d_iterators := 0\<rparr>)
   }"

section \<open>Well-formedness and the map a dictionary stands for\<close>

definition ht_entries :: "('k, 'v) dictht \<Rightarrow> ('k, 'v) dictEntry list" where
  "ht_entries h = (case ht_table h of None \<Rightarrow> [] | Some t \<Rightarrow> concat t)"

definition dict_entries :: "('k, 'v) dict \<Rightarrow> ('k, 'v) dictEntry list" where
  "dict_entries d = ht_entries (d_ht0 d) @ ht_entries (d_ht1 d)"

definition ht_ok :: "('k, 'v) dictType \<Rightarrow> ('k, 'v) dictht \<Rightarrow> bool" where
  "ht_ok ty h \<longleftrightarrow>
     (case ht_table h of
        None \<Rightarrow> ht_size h = 0 \<and> ht_sizemask h = 0 \<and> ht_used h = 0
      | Some t \<Rightarrow>
          (\<exists>k\<in>{0..31}. length t = 2 ^ k) \<and> ht_size h = length t \<and> ht_sizemask h = length t - 1 \<and>
          ht_used h = length (concat t) \<and>
          (\<forall>i\<in>{0..<length t}. \<forall>e\<in>set (t ! i). bucket_idx ty h (de_key e) = i))"

definition distinct_keys :: "('k, 'v) dictType \<Rightarrow> ('k, 'v) dictEntry list \<Rightarrow> bool" where
  "distinct_keys ty es \<longleftrightarrow> sorted_wrt (\<lambda>a b. \<not> dictCompareKeys ty (de_key a) (de_key b)) es"

definition dict_ok :: "('k, 'v) dict \<Rightarrow> bool" where
  "dict_ok d \<longleftrightarrow>
     ht_ok (d_type d) (d_ht0 d) \<and> ht_ok (d_type d) (d_ht1 d) \<and>
     distinct_keys (d_type d) (dict_entries d) \<and> d_iterators d \<ge> 0 \<and>
     (if dictIsRehashing d then
        ht_table (d_ht0 d) \<noteq> None \<and> ht_table (d_ht1 d) \<noteq> None \<and> d_rehashidx d \<ge> 0 \<and>
        nat (d_rehashidx d) \<le> ht_size (d_ht0 d) \<and>
        (\<forall>i\<in>{0..<nat (d_rehashidx d)}. bucket_get (d_ht0 d) i = Some [])
      else d_ht1 d = dictReset)"

definition entries_get :: "('k, 'v) dictType \<Rightarrow> ('k, 'v) dictEntry list \<Rightarrow> 'k \<Rightarrow> 'v option" where
  "entries_get ty es k = map_option de_val (find (\<lambda>e. dictCompareKeys ty k (de_key e)) es)"

definition dict_map :: "('k, 'v) dict \<Rightarrow> 'k \<Rightarrow> 'v option" where
  "dict_map d k = entries_get (d_type d) (dict_entries d) k"

section \<open>One table\<close>

lemma bucket_get_Some_iff [mem_simps]:
  "bucket_get h i = Some c \<longleftrightarrow> (\<exists>t. ht_table h = Some t \<and> i < length t \<and> c = t ! i)"
  by (auto simp: bucket_get_def mem_simps split: Option.bind_splits)

lemma bucket_set_eq:
  "ht_table h = Some t \<Longrightarrow> i < length t \<Longrightarrow> bucket_set h i c = Some (h\<lparr>ht_table := Some (t[i := c])\<rparr>)"
  by (simp add: bucket_set_def mem_set_def)

lemma bucket_get_eq:
  "ht_table h = Some t \<Longrightarrow> i < length t \<Longrightarrow> bucket_get h i = Some (t ! i)"
  by (simp add: bucket_get_Some_iff)

lemma mset_concat_update:
  "i < length t \<Longrightarrow> mset (concat (t[i := c])) + mset (t ! i) = mset (concat t) + mset c"
proof (induction t arbitrary: i)
  case (Cons x t)
  then show ?case by (cases i) auto
qed simp

lemma length_bucket_le: "i < length t \<Longrightarrow> length (t ! i) \<le> length (concat t)"
  using concat_chunks_split [of i t id] by simp

lemma length_concat_update:
  "i < length t \<Longrightarrow> length (concat (t[i := c])) = length (concat t) - length (t ! i) + length c"
proof -
  assume i: "i < length t"
  then have "size (mset (concat (t[i := c])) + mset (t ! i)) = size (mset (concat t) + mset c)"
    by (simp only: mset_concat_update)
  then show ?thesis using length_bucket_le [OF i] by simp
qed

lemma ht_ok_table:
  assumes "ht_ok ty h" and "ht_table h = Some t"
  obtains k where "k \<le> 31" "length t = 2 ^ k" "ht_size h = 2 ^ k" "ht_sizemask h = mask k"
    "ht_used h = length (concat t)"
    "\<And>i e. i < length t \<Longrightarrow> e \<in> set (t ! i) \<Longrightarrow> bucket_idx ty h (de_key e) = i"
  using assms by (auto simp: ht_ok_def mask_eq_exp_minus_1)

lemma bucket_idx_mod: "ht_sizemask h = mask k \<Longrightarrow> bucket_idx ty h key = unat (hashFunction ty key) mod 2 ^ k"
  by (simp add: bucket_idx_def take_bit_eq_mod flip: take_bit_eq_mask)

lemma bucket_idx_less: "ht_ok ty h \<Longrightarrow> ht_table h = Some t \<Longrightarrow> bucket_idx ty h key < length t"
  by (erule (1) ht_ok_table) (simp add: bucket_idx_mod)

lemma bucket_idx_bound: "ht_ok ty h \<Longrightarrow> ht_table h = Some t \<Longrightarrow> bucket_idx ty h key < 2 ^ 31"
proof (erule (1) ht_ok_table)
  fix k assume k: "k \<le> 31" "ht_sizemask h = mask k"
  have "bucket_idx ty h key < 2 ^ k" unfolding bucket_idx_mod [OF k(2)] by simp
  also have "(2 :: nat) ^ k \<le> 2 ^ 31" using k(1) by (intro power_increasing) auto
  finally show ?thesis .
qed

lemma ht_ok_update:
  assumes ok: "ht_ok ty h" and t: "ht_table h = Some t" and i: "i < length t"
    and c: "\<And>e. e \<in> set c \<Longrightarrow> bucket_idx ty h (de_key e) = i"
    and u: "u = length (concat (t[i := c]))"
  shows "ht_ok ty (h\<lparr>ht_table := Some (t[i := c]), ht_used := u\<rparr>)"
proof -
  have "bucket_idx ty (h\<lparr>ht_table := Some (t[i := c]), ht_used := u\<rparr>) = bucket_idx ty h"
    by (simp add: bucket_idx_def fun_eq_iff)
  then show ?thesis
    using ok t i c u by (auto simp: ht_ok_def nth_list_update)
qed

lemma ht_entries_Some: "ht_table h = Some t \<Longrightarrow> ht_entries h = concat t"
  by (simp add: ht_entries_def)

lemma ht_used_entries: "ht_ok ty h \<Longrightarrow> ht_used h = length (ht_entries h)"
  by (auto simp: ht_ok_def ht_entries_def split: option.splits)

lemma mem_bucket:
  assumes "ht_ok ty h" and "ht_table h = Some t" and "e \<in> set (ht_entries h)"
  shows "e \<in> set (t ! bucket_idx ty h (de_key e))"
  using assms by (auto elim!: ht_ok_table simp: ht_entries_def in_set_conv_nth) (metis nth_mem)

section \<open>Rehashing moves entries and loses none\<close>

lemma rehashChain_spec:
  assumes "ht_ok ty h1" and "ht_table h1 \<noteq> None"
  shows "\<exists>h1'. rehashChain ty c h0 h1 = Some (h0\<lparr>ht_used := ht_used h0 - length c\<rparr>, h1') \<and>
    ht_ok ty h1' \<and> ht_table h1' \<noteq> None \<and> mset (ht_entries h1') = mset c + mset (ht_entries h1)"
  using assms
proof (induction c arbitrary: h0 h1)
  case (Cons de c)
  then obtain t where t: "ht_table h1 = Some t" by auto
  let ?i = "bucket_idx ty h1 (de_key de)"
  let ?h1 = "h1\<lparr>ht_table := Some (t[?i := de # t ! ?i]), ht_used := ht_used h1 + 1\<rparr>"
  have i: "?i < length t" by (rule bucket_idx_less [OF Cons.prems(1) t])
  have used: "ht_used h1 + 1 = length (concat (t[?i := de # t ! ?i]))"
  proof -
    have "size (mset (concat (t[?i := de # t ! ?i])) + mset (t ! ?i)) = size (mset (concat t) + mset (de # t ! ?i))"
      by (simp only: mset_concat_update [OF i])
    then show ?thesis using Cons.prems(1) t by (auto simp: ht_ok_def)
  qed
  have ok: "ht_ok ty ?h1"
    by (rule ht_ok_update [OF Cons.prems(1) t i _ used])
      (use Cons.prems(1) t i in \<open>auto elim: ht_ok_table\<close>)
  have "mset (concat (t[?i := de # t ! ?i])) + mset (t ! ?i) = mset (concat t) + mset (de # t ! ?i)"
    by (rule mset_concat_update [OF i])
  then have ms: "mset (ht_entries ?h1) = add_mset de (mset (ht_entries h1))"
    using t by (simp add: ht_entries_def)
  obtain h1' where "rehashChain ty c (h0\<lparr>ht_used := ht_used h0 - 1\<rparr>) ?h1 =
      Some ((h0\<lparr>ht_used := ht_used h0 - 1\<rparr>)\<lparr>ht_used := ht_used h0 - 1 - length c\<rparr>, h1')"
    "ht_ok ty h1'" "ht_table h1' \<noteq> None" "mset (ht_entries h1') = mset c + mset (ht_entries ?h1)"
    using Cons.IH [OF ok, of "h0\<lparr>ht_used := ht_used h0 - 1\<rparr>"] by auto
  then show ?case
    using ms i t by (simp add: bucket_get_eq bucket_set_eq)
qed simp

lemma rehashSkip_spec:
  assumes "ht_table h0 = Some t"
  shows "0 < ev \<Longrightarrow> \<exists>j\<ge>idx. j < length t \<and> t ! j \<noteq> [] \<Longrightarrow> \<forall>i<idx. t ! i = [] \<Longrightarrow>
    (\<exists>j. rehashSkip h0 idx ev = Some (Inl j) \<and> idx < j \<and> j \<le> length t \<and> (\<forall>i<j. t ! i = [])) \<or>
    (\<exists>j ev'. rehashSkip h0 idx ev = Some (Inr (j, ev')) \<and> idx \<le> j \<and> j < length t \<and> t ! j \<noteq> [] \<and>
       (\<forall>i<j. t ! i = []) \<and> 0 < ev')"
proof (induction ev arbitrary: idx)
  case (Suc ev)
  then have idx: "idx < length t" by auto
  show ?case
  proof (cases "t ! idx = []")
    case True
    then have empty: "\<forall>i<Suc idx. t ! i = []" using Suc.prems(3) by (auto simp: less_Suc_eq)
    have "\<exists>j\<ge>Suc idx. j < length t \<and> t ! j \<noteq> []"
      using Suc.prems(2) True by (metis le_eq_less_or_eq Suc_leI)
    with empty Suc.IH [of "Suc idx"] show ?thesis
      using True idx assms by (auto simp: bucket_get_eq Suc_le_eq)
  qed (use Suc.prems idx assms in \<open>auto simp: bucket_get_eq\<close>)
qed simp

text \<open>
  The state in the middle of a rehash: both tables allocated and no entry below
  the rehash index in the old one.
\<close>

definition rehash_inv :: "('k, 'v) dict \<Rightarrow> bool" where
  "rehash_inv d \<longleftrightarrow> ht_ok (d_type d) (d_ht0 d) \<and> ht_ok (d_type d) (d_ht1 d) \<and>
     (\<exists>t. ht_table (d_ht0 d) = Some t \<and> ht_table (d_ht1 d) \<noteq> None \<and> d_rehashidx d \<ge> 0 \<and>
        nat (d_rehashidx d) \<le> length t \<and> (\<forall>i<nat (d_rehashidx d). t ! i = []))"

definition same_entries :: "('k, 'v) dict \<Rightarrow> ('k, 'v) dict \<Rightarrow> bool" where
  "same_entries d d' \<longleftrightarrow> d_type d' = d_type d \<and> d_iterators d' = d_iterators d \<and>
     mset (dict_entries d') = mset (dict_entries d)"

lemma same_entries_refl [simp]: "same_entries d d"
  by (simp add: same_entries_def)

lemma same_entries_trans: "same_entries a b \<Longrightarrow> same_entries b c \<Longrightarrow> same_entries a c"
  by (simp add: same_entries_def)

lemma rehash_move:
  assumes inv: "rehash_inv d" and t: "ht_table (d_ht0 d) = Some t"
    and j: "j < length t" "\<forall>i<j. t ! i = []"
  shows "\<exists>h1. rehashChain (d_type d) (t ! j) (d_ht0 d) (d_ht1 d) =
      Some ((d_ht0 d)\<lparr>ht_used := ht_used (d_ht0 d) - length (t ! j)\<rparr>, h1) \<and>
    (let d' = d\<lparr>d_ht0 := (d_ht0 d)\<lparr>ht_used := ht_used (d_ht0 d) - length (t ! j), ht_table := Some (t[j := []])\<rparr>,
                d_ht1 := h1, d_rehashidx := int j + 1\<rparr>
     in rehash_inv d' \<and> same_entries d d')"
proof -
  have ok0: "ht_ok (d_type d) (d_ht0 d)" and ok1: "ht_ok (d_type d) (d_ht1 d)" "ht_table (d_ht1 d) \<noteq> None"
    using inv by (auto simp: rehash_inv_def)
  obtain h1 where h1: "rehashChain (d_type d) (t ! j) (d_ht0 d) (d_ht1 d) =
      Some ((d_ht0 d)\<lparr>ht_used := ht_used (d_ht0 d) - length (t ! j)\<rparr>, h1)"
    "ht_ok (d_type d) h1" "ht_table h1 \<noteq> None" "mset (ht_entries h1) = mset (t ! j) + mset (ht_entries (d_ht1 d))"
    using rehashChain_spec [OF ok1] by blast
  let ?h0 = "(d_ht0 d)\<lparr>ht_used := ht_used (d_ht0 d) - length (t ! j), ht_table := Some (t[j := []])\<rparr>"
  have "ht_used (d_ht0 d) = length (concat t)" using ok0 t by (auto simp: ht_ok_def)
  then have "ht_ok (d_type d) ((d_ht0 d)\<lparr>ht_table := Some (t[j := []]), ht_used := ht_used (d_ht0 d) - length (t ! j)\<rparr>)"
    using length_concat_update [OF j(1), of "[]"] by (intro ht_ok_update [OF ok0 t j(1)]) auto
  moreover have "(d_ht0 d)\<lparr>ht_table := Some (t[j := []]), ht_used := ht_used (d_ht0 d) - length (t ! j)\<rparr> = ?h0"
    by (cases "d_ht0 d") simp
  ultimately have ok0': "ht_ok (d_type d) ?h0" by simp
  have "mset (concat (t[j := []])) + mset (t ! j) = mset (concat t)"
    using mset_concat_update [OF j(1), of "[]"] by simp
  then have "same_entries d (d\<lparr>d_ht0 := ?h0, d_ht1 := h1, d_rehashidx := int j + 1\<rparr>)"
    using t h1(4) by (simp add: same_entries_def dict_entries_def ht_entries_Some ac_simps flip: \<open>_ = mset (concat t)\<close>)
  moreover have "rehash_inv (d\<lparr>d_ht0 := ?h0, d_ht1 := h1, d_rehashidx := int j + 1\<rparr>)"
    using ok0' h1 j by (auto simp: rehash_inv_def nat_add_distrib less_Suc_eq nth_list_update)
  ultimately show ?thesis using h1(1) by (auto simp: Let_def)
qed

lemma rehashLoop_spec:
  "rehash_inv d \<Longrightarrow> 0 < ev \<or> n = 0 \<Longrightarrow>
   \<exists>d' early. rehashLoop n ev d = Some (d', early) \<and> rehash_inv d' \<and> same_entries d d'"
proof (induction n arbitrary: ev d)
  case (Suc n)
  obtain t where t: "ht_table (d_ht0 d) = Some t" "d_rehashidx d \<ge> 0" "nat (d_rehashidx d) \<le> length t"
      "\<forall>i<nat (d_rehashidx d). t ! i = []" and ok0: "ht_ok (d_type d) (d_ht0 d)"
    using Suc.prems(1) by (auto simp: rehash_inv_def)
  show ?case
  proof (cases "ht_used (d_ht0 d) = 0")
    case False
    then have "concat t \<noteq> []" using ok0 t by (auto simp: ht_ok_def)
    then have ex: "\<exists>j\<ge>nat (d_rehashidx d). j < length t \<and> t ! j \<noteq> []"
      using t(4) by (auto simp: in_set_conv_nth) (metis not_le)
    then have "nat (d_rehashidx d) < length t" by auto
    moreover have "ht_size (d_ht0 d) = length t" using ok0 t(1) by (auto simp: ht_ok_def)
    ultimately have size: "ht_size (d_ht0 d) > nat (d_rehashidx d)" by simp
    have ev: "0 < ev" using Suc.prems by simp
    from rehashSkip_spec [OF t(1) ev ex t(4)] show ?thesis
    proof (elim disjE exE conjE)
      fix j assume j: "rehashSkip (d_ht0 d) (nat (d_rehashidx d)) ev = Some (Inl j)" "j \<le> length t" "\<forall>i<j. t ! i = []"
      have "rehash_inv (d\<lparr>d_rehashidx := int j\<rparr>)"
        using Suc.prems(1) t j by (auto simp: rehash_inv_def)
      then show ?thesis using False size t j by (auto simp: same_entries_def dict_entries_def)
    next
      fix j ev' assume j: "rehashSkip (d_ht0 d) (nat (d_rehashidx d)) ev = Some (Inr (j, ev'))" "j < length t"
        "\<forall>i<j. t ! i = []" "0 < ev'"
      let ?h0 = "(d_ht0 d)\<lparr>ht_used := ht_used (d_ht0 d) - length (t ! j)\<rparr>"
      obtain h1 where h1: "rehashChain (d_type d) (t ! j) (d_ht0 d) (d_ht1 d) = Some (?h0, h1)"
        and inv': "rehash_inv (d\<lparr>d_ht0 := ?h0\<lparr>ht_table := Some (t[j := []])\<rparr>, d_ht1 := h1, d_rehashidx := int j + 1\<rparr>)"
        and same: "same_entries d (d\<lparr>d_ht0 := ?h0\<lparr>ht_table := Some (t[j := []])\<rparr>, d_ht1 := h1, d_rehashidx := int j + 1\<rparr>)"
        using rehash_move [OF Suc.prems(1) t(1) j(2,3)] by (auto simp: Let_def)
      note get = bucket_get_eq [OF t(1) j(2)]
      have set: "bucket_set ?h0 j [] = Some (?h0\<lparr>ht_table := Some (t[j := []])\<rparr>)"
        using t(1) j(2) by (simp add: bucket_set_eq)
      obtain d' early where "rehashLoop n ev' (d\<lparr>d_ht0 := ?h0\<lparr>ht_table := Some (t[j := []])\<rparr>, d_ht1 := h1,
          d_rehashidx := int j + 1\<rparr>) = Some (d', early)" "rehash_inv d'"
        "same_entries (d\<lparr>d_ht0 := ?h0\<lparr>ht_table := Some (t[j := []])\<rparr>, d_ht1 := h1, d_rehashidx := int j + 1\<rparr>) d'"
        using Suc.IH [OF inv', of ev'] j(4) by auto
      then show ?thesis
        using False size t(2) j(1) get h1 set same_entries_trans [OF same] by auto
    qed
  qed (use Suc.prems in auto)
qed auto


section \<open>The tables together\<close>

lemma rehash_invI: "dict_ok d \<Longrightarrow> dictIsRehashing d \<Longrightarrow> rehash_inv d"
  by (auto simp: dict_ok_def rehash_inv_def bucket_get_Some_iff ht_ok_def)

locale dict_type =
  fixes ty :: "('k, 'v) dictType"
  assumes cmp_refl [simp]: "dictCompareKeys ty k k"
    and cmp_sym: "dictCompareKeys ty a b \<Longrightarrow> dictCompareKeys ty b a"
    and cmp_trans: "dictCompareKeys ty a b \<Longrightarrow> dictCompareKeys ty b c \<Longrightarrow> dictCompareKeys ty a c"
    and cmp_hash: "dictCompareKeys ty a b \<Longrightarrow> hashFunction ty a = hashFunction ty b"
    and dup_cmp: "dictCompareKeys ty k (dictSetKey ty k)"
begin

abbreviation same_key where "same_key \<equiv> dictCompareKeys ty"

lemma cmp_commute: "same_key a b \<longleftrightarrow> same_key b a"
  using cmp_sym by blast

lemma cmp_idx: "same_key a b \<Longrightarrow> bucket_idx ty h a = bucket_idx ty h b"
  by (simp add: bucket_idx_def cmp_hash)

lemma cmp_class: "same_key a b \<longleftrightarrow> Collect (same_key a) = Collect (same_key b)"
proof
  show "same_key a b \<Longrightarrow> Collect (same_key a) = Collect (same_key b)"
    using cmp_sym cmp_trans by blast
  show "Collect (same_key a) = Collect (same_key b) \<Longrightarrow> same_key a b"
    using cmp_refl [of b] by blast
qed

text \<open>Distinctness of keys does not depend on the order of the entries.\<close>

lemma distinct_keys_iff: "distinct_keys ty es \<longleftrightarrow> distinct (map (\<lambda>e. Collect (same_key (de_key e))) es)"
proof (induction es)
  case (Cons e es)
  have "Collect (same_key (de_key e)) \<in> (\<lambda>e. Collect (same_key (de_key e))) ` set es \<longleftrightarrow>
      (\<exists>x\<in>set es. same_key (de_key e) (de_key x))"
    by (auto simp: image_iff simp flip: cmp_class)
  with Cons show ?case by (simp add: distinct_keys_def)
qed (simp add: distinct_keys_def)

lemma distinct_keys_mset: "mset es = mset es' \<Longrightarrow> distinct_keys ty es \<longleftrightarrow> distinct_keys ty es'"
  unfolding distinct_keys_iff by (metis mset_eq_imp_distinct_iff mset_map)

lemma distinct_keys_unique:
  "distinct_keys ty es \<Longrightarrow> a \<in> set es \<Longrightarrow> b \<in> set es \<Longrightarrow> same_key (de_key a) (de_key b) \<Longrightarrow> a = b"
proof (induction es)
  case (Cons e es)
  then show ?case by (auto simp: distinct_keys_def dest: cmp_sym)
qed simp

lemma entries_get_Some_iff:
  assumes "distinct_keys ty es"
  shows "entries_get ty es k = Some v \<longleftrightarrow> (\<exists>e\<in>set es. same_key k (de_key e) \<and> de_val e = v)"
proof
  assume "entries_get ty es k = Some v"
  then show "\<exists>e\<in>set es. same_key k (de_key e) \<and> de_val e = v"
    by (auto simp: entries_get_def find_Some_iff)
next
  assume "\<exists>e\<in>set es. same_key k (de_key e) \<and> de_val e = v"
  then obtain e where e: "e \<in> set es" "same_key k (de_key e)" "de_val e = v" by blast
  then obtain e' where e': "find (\<lambda>e. same_key k (de_key e)) es = Some e'"
    by (metis find_None_iff option.exhaust)
  then have "e' \<in> set es" "same_key k (de_key e')" by (auto simp: find_Some_iff)
  then have "e' = e" using e distinct_keys_unique [OF assms] cmp_sym cmp_trans by blast
  with e e' show "entries_get ty es k = Some v" by (simp add: entries_get_def)
qed

lemma entries_get_None_iff: "entries_get ty es k = None \<longleftrightarrow> (\<forall>e\<in>set es. \<not> same_key k (de_key e))"
  by (auto simp: entries_get_def find_None_iff)

lemma entries_get_mset:
  assumes "distinct_keys ty es" and "mset es = mset es'"
  shows "entries_get ty es = entries_get ty es'"
proof
  fix k
  have "distinct_keys ty es'" and "set es = set es'"
    using assms distinct_keys_mset [of es es'] by (auto dest: mset_eq_setD)
  note iff = entries_get_Some_iff [OF assms(1)] entries_get_Some_iff [OF this(1)] \<open>set es = set es'\<close>
  have "entries_get ty es k = Some v \<longleftrightarrow> entries_get ty es' k = Some v" for v
    unfolding iff by (rule refl)
  then show "entries_get ty es k = entries_get ty es' k"
    by (metis option.exhaust)
qed

lemma same_entries_map:
  "dict_ok d \<Longrightarrow> d_type d = ty \<Longrightarrow> same_entries d d' \<Longrightarrow> dict_map d' = dict_map d"
  using entries_get_mset [of "dict_entries d" "dict_entries d'"]
  by (simp add: same_entries_def dict_map_def [abs_def] dict_ok_def)

lemma same_entries_distinct:
  "dict_ok d \<Longrightarrow> d_type d = ty \<Longrightarrow> same_entries d d' \<Longrightarrow> distinct_keys ty (dict_entries d')"
  using distinct_keys_mset [of "dict_entries d" "dict_entries d'"] by (simp add: same_entries_def dict_ok_def)

lemma dict_ok_rehashing:
  assumes "rehash_inv d" and "distinct_keys (d_type d) (dict_entries d)" and "d_iterators d \<ge> 0"
  shows "dict_ok d"
  using assms by (auto simp: dict_ok_def rehash_inv_def bucket_get_Some_iff dictIsRehashing_def ht_ok_def)

lemma dictRehash_ok:
  assumes ok: "dict_ok d" and ty: "d_type d = ty" and n: "0 < n"
  shows "\<exists>d' r. dictRehash d n = Some (d', r) \<and> dict_ok d' \<and> same_entries d d' \<and> r = dictIsRehashing d' \<and>
    (ht_table (d_ht0 d) \<noteq> None \<longrightarrow> ht_table (d_ht0 d') \<noteq> None)"
proof (cases "dictIsRehashing d")
  case True
  obtain d' early where loop: "rehashLoop n (n * 10) d = Some (d', early)" "rehash_inv d'" "same_entries d d'"
    using rehashLoop_spec [OF rehash_invI [OF ok True], of "n * 10" n] n by auto
  have dist: "distinct_keys (d_type d') (dict_entries d')" and it: "d_iterators d' \<ge> 0"
    using same_entries_distinct [OF ok ty loop(3)] loop(3) ok ty by (auto simp: same_entries_def dict_ok_def)
  have ok': "dict_ok d'" by (rule dict_ok_rehashing [OF loop(2) dist it])
  have re: "dictIsRehashing d'" and tabs: "ht_table (d_ht0 d') \<noteq> None" "ht_table (d_ht1 d') \<noteq> None"
    using loop(2) by (auto simp: rehash_inv_def dictIsRehashing_def)
  show ?thesis
  proof (cases "early \<or> ht_used (d_ht0 d') \<noteq> 0")
    case True
    then show ?thesis using loop ok' re tabs \<open>dictIsRehashing d\<close> by (auto simp: dictRehash_def)
  next
    case False
    let ?d = "d'\<lparr>d_ht0 := d_ht1 d', d_ht1 := dictReset, d_rehashidx := -1\<rparr>"
    have "ht_entries (d_ht0 d') = []"
      using False loop(2) ht_used_entries [of "d_type d'" "d_ht0 d'"] by (auto simp: rehash_inv_def)
    then have es: "dict_entries ?d = dict_entries d'"
      by (simp add: dict_entries_def dictReset_def ht_entries_def)
    then have "same_entries d ?d" using loop(3) by (simp add: same_entries_def)
    moreover have "dict_ok ?d"
      using ok' es by (auto simp: dict_ok_def dictIsRehashing_def ht_ok_def dictReset_def)
    ultimately show ?thesis
      using False loop(1) tabs \<open>dictIsRehashing d\<close> by (auto simp: dictRehash_def dictIsRehashing_def)
  qed
qed (use ok in \<open>auto simp: dictRehash_def\<close>)

lemma dictRehashStep_ok:
  assumes "dict_ok d" and "d_type d = ty"
  shows "\<exists>d'. dictRehashStep d = Some d' \<and> dict_ok d' \<and> same_entries d d' \<and>
    (ht_table (d_ht0 d) \<noteq> None \<longrightarrow> ht_table (d_ht0 d') \<noteq> None)"
  using dictRehash_ok [OF assms, of 1] assms by (auto simp: dictRehashStep_def)

lemma rehashStep_prefix_ok:
  assumes "dict_ok d" and "d_type d = ty"
  shows "\<exists>d'. (if dictIsRehashing d then dictRehashStep d else Some d) = Some d' \<and> dict_ok d' \<and>
    same_entries d d' \<and> (ht_table (d_ht0 d) \<noteq> None \<longrightarrow> ht_table (d_ht0 d') \<noteq> None)"
  using dictRehashStep_ok [OF assms] assms by auto

subsection \<open>Lookup\<close>

lemma chainFind_None_iff: "chainFind ty key c = None \<longleftrightarrow> (\<forall>e\<in>set c. \<not> same_key key (de_key e))"
  by (induction c) auto

lemma chainFind_SomeD: "chainFind ty key c = Some p \<Longrightarrow> p < length c \<and> same_key key (de_key (c ! p))"
  by (induction c arbitrary: p) (auto split: if_splits)

lemma table_miss:
  assumes "ht_ok ty h" and "ht_table h = Some t" and "chainFind ty key (t ! bucket_idx ty h key) = None"
  shows "\<forall>e\<in>set (ht_entries h). \<not> same_key key (de_key e)"
proof (intro ballI notI)
  fix e assume e: "e \<in> set (ht_entries h)" "same_key key (de_key e)"
  then have "e \<in> set (t ! bucket_idx ty h key)"
    using mem_bucket [OF assms(1,2) e(1)] cmp_idx [OF e(2)] by simp
  with e(2) assms(3) show False by (auto simp: chainFind_None_iff)
qed

lemma table_hit:
  assumes "ht_ok ty h" and "ht_table h = Some t" and "chainFind ty key (t ! bucket_idx ty h key) = Some p"
  defines "e \<equiv> t ! bucket_idx ty h key ! p"
  shows "e \<in> set (ht_entries h)" and "same_key key (de_key e)" and "p < length (t ! bucket_idx ty h key)"
  using assms bucket_idx_less [OF assms(1,2)] chainFind_SomeD [OF assms(3)]
  by (auto simp: ht_entries_def) (metis nth_mem)

lemma dict_ok_tables:
  assumes "dict_ok d" and "d_type d = ty"
  shows "ht_ok ty (d_ht0 d)" and "ht_ok ty (d_ht1 d)" and "distinct_keys ty (dict_entries d)"
    and "dictIsRehashing d \<Longrightarrow> ht_table (d_ht1 d) \<noteq> None"
    and "dictIsRehashing d \<Longrightarrow> ht_table (d_ht0 d) \<noteq> None"
    and "\<not> dictIsRehashing d \<Longrightarrow> ht_entries (d_ht1 d) = []"
    and "ht_size (d_ht0 d) = 0 \<longleftrightarrow> ht_table (d_ht0 d) = None"
  using assms by (auto simp: dict_ok_def dictReset_def ht_entries_def ht_ok_def split: option.splits)

lemma dict_map_hit:
  assumes "dict_ok d" and "d_type d = ty" and "e \<in> set (dict_entries d)" and "same_key key (de_key e)"
  shows "dict_map d key = Some (de_val e)"
  using assms entries_get_Some_iff [OF dict_ok_tables(3) [OF assms(1,2)]] by (auto simp: dict_map_def)

lemma dict_map_miss:
  "d_type d = ty \<Longrightarrow> \<forall>e\<in>set (dict_entries d). \<not> same_key key (de_key e) \<Longrightarrow> dict_map d key = None"
  by (simp add: dict_map_def entries_get_None_iff)

lemma dictSearch_miss:
  assumes ok: "dict_ok d" and ty: "d_type d = ty" and tab: "ht_table (d_ht0 d) \<noteq> None"
    and miss: "dict_map d key = None"
  shows "dictSearch d key = Some None"
proof -
  note tabs = dict_ok_tables [OF ok ty]
  have no: "\<forall>e\<in>set (dict_entries d). \<not> same_key key (de_key e)"
    using miss ty by (simp add: dict_map_def entries_get_None_iff)
  have fin: "\<exists>c. bucket_get h (bucket_idx ty h key) = Some c \<and> chainFind ty key c = None"
    if h: "ht_ok ty h" "ht_table h \<noteq> None" "set (ht_entries h) \<subseteq> set (dict_entries d)" for h
  proof -
    obtain t where t: "ht_table h = Some t" using h(2) by auto
    note i = bucket_idx_less [OF h(1) t, of key]
    have "\<forall>e\<in>set (t ! bucket_idx ty h key). \<not> same_key key (de_key e)"
      using no h(3) t i by (force simp: ht_entries_Some)
    then show ?thesis using bucket_get_eq [OF t i] by (simp add: chainFind_None_iff)
  qed
  show ?thesis
    using fin [OF tabs(1) tab] fin [OF tabs(2) tabs(4)] ty
    by (auto simp: dictSearch_def dict_entries_def)
qed

lemma dictSearch_hit:
  assumes ok: "dict_ok d" and ty: "d_type d = ty" and tab: "ht_table (d_ht0 d) \<noteq> None"
    and hit: "dict_map d key = Some v"
  shows "\<exists>t tt i p. dictSearch d key = Some (Some (t, i, p)) \<and> t \<le> 1 \<and> (t = 1 \<longrightarrow> dictIsRehashing d) \<and>
    ht_table (dict_ht d t) = Some tt \<and> i = bucket_idx ty (dict_ht d t) key \<and> i < length tt \<and>
    p < length (tt ! i) \<and> same_key key (de_key (tt ! i ! p)) \<and> de_val (tt ! i ! p) = v"
proof -
  note tabs = dict_ok_tables [OF ok ty]
  obtain t0 where t0: "ht_table (d_ht0 d) = Some t0" using tab by auto
  note i0 = bucket_idx_less [OF tabs(1) t0, of key]
  have val: "de_val e = v" if "e \<in> set (dict_entries d)" "same_key key (de_key e)" for e
    using dict_map_hit [OF ok ty that] hit by simp
  show ?thesis
  proof (cases "chainFind ty key (t0 ! bucket_idx ty (d_ht0 d) key)")
    case (Some p)
    note h = table_hit [OF tabs(1) t0 Some]
    have "dictSearch d key = Some (Some (0, bucket_idx ty (d_ht0 d) key, p))"
      using ty Some bucket_get_eq [OF t0 i0] by (simp add: dictSearch_def)
    then show ?thesis
      using h i0 t0 val
      by (intro exI [of _ "0 :: nat"] exI [of _ t0] exI [of _ "bucket_idx ty (d_ht0 d) key"] exI [of _ p])
        (simp add: dict_ht_def dict_entries_def)
  next
    case None
    note m0 = table_miss [OF tabs(1) t0 None]
    have re: "dictIsRehashing d"
    proof (rule ccontr)
      assume "\<not> dictIsRehashing d"
      then have "dict_map d key = None"
        using m0 tabs(6) ty by (intro dict_map_miss) (auto simp: dict_entries_def)
      with hit show False by simp
    qed
    obtain t1 where t1: "ht_table (d_ht1 d) = Some t1" using tabs(4) [OF re] by auto
    note i1 = bucket_idx_less [OF tabs(2) t1, of key]
    have "chainFind ty key (t1 ! bucket_idx ty (d_ht1 d) key) \<noteq> None"
    proof
      assume "chainFind ty key (t1 ! bucket_idx ty (d_ht1 d) key) = None"
      from table_miss [OF tabs(2) t1 this] have "dict_map d key = None"
        using m0 ty by (intro dict_map_miss) (auto simp: dict_entries_def)
      with hit show False by simp
    qed
    then obtain p where p: "chainFind ty key (t1 ! bucket_idx ty (d_ht1 d) key) = Some p" by auto
    note h = table_hit [OF tabs(2) t1 p]
    have "dictSearch d key = Some (Some (1, bucket_idx ty (d_ht1 d) key, p))"
      using ty p None re bucket_get_eq [OF t0 i0] bucket_get_eq [OF t1 i1] by (simp add: dictSearch_def)
    then show ?thesis
      using h i1 t1 val re
      by (intro exI [of _ "1 :: nat"] exI [of _ t1] exI [of _ "bucket_idx ty (d_ht1 d) key"] exI [of _ p])
        (simp add: dict_ht_def dict_entries_def)
  qed
qed

lemma dict_empty_map:
  assumes "dict_ok d" and "d_type d = ty" and "ht_size (d_ht0 d) = 0"
  shows "dict_map d key = None"
proof -
  have "\<not> dictIsRehashing d" using dict_ok_tables [OF assms(1,2)] assms(3) by auto
  then show ?thesis
    using assms dict_ok_tables [OF assms(1,2)] by (auto simp: dict_entries_def ht_entries_def intro: dict_map_miss)
qed

lemma dictFind_ok:
  assumes "dict_ok d" and "d_type d = ty"
  shows "\<exists>d' r. dictFind d key = Some (d', r) \<and> dict_ok d' \<and> same_entries d d' \<and>
    (case r of None \<Rightarrow> dict_map d key = None
     | Some rf \<Rightarrow> \<exists>e. entry_get d' rf = Some e \<and> same_key key (de_key e) \<and> dict_map d key = Some (de_val e))"
proof (cases "ht_size (d_ht0 d) = 0")
  case True
  then show ?thesis using dict_empty_map [OF assms] assms by (auto simp: dictFind_def)
next
  case False
  obtain d' where d': "(if dictIsRehashing d then dictRehashStep d else Some d) = Some d'"
    "dict_ok d'" "same_entries d d'" "ht_table (d_ht0 d') \<noteq> None"
    using rehashStep_prefix_ok [OF assms] False dict_ok_tables(7) [OF assms] by auto
  have ty': "d_type d' = ty" and map: "dict_map d' = dict_map d"
    using d'(3) assms same_entries_map [OF assms d'(3)] by (auto simp: same_entries_def)
  have unf: "dictFind d key = map_option (Pair d') (dictSearch d' key)"
    using False d'(1) by (simp add: dictFind_def map_conv_bind_option comp_def)
  show ?thesis
  proof (cases "dict_map d' key")
    case None
    then show ?thesis using dictSearch_miss [OF d'(2) ty' d'(4)] unf d' map by auto
  next
    case (Some v)
    obtain t tt i p where "dictSearch d' key = Some (Some (t, i, p))" "ht_table (dict_ht d' t) = Some tt"
      "i < length tt" "p < length (tt ! i)" "same_key key (de_key (tt ! i ! p))" "de_val (tt ! i ! p) = v"
      using dictSearch_hit [OF d'(2) ty' d'(4) Some] by blast
    then have "dictFind d key = Some (d', Some (t, i, p))" "entry_get d' (t, i, p) = Some (tt ! i ! p)"
      using unf by (simp_all add: entry_get_def bucket_get_eq mem_get_def)
    then show ?thesis
      using d'(2,3) map Some \<open>same_key key _\<close> \<open>de_val _ = v\<close> by auto
  qed
qed

subsection \<open>Replacing one bucket\<close>

lemma dict_update_bucket:
  assumes ok: "dict_ok d" and ty: "d_type d = ty" and t: "t \<le> 1"
    and tt: "ht_table (dict_ht d t) = Some tt" and i: "i < length tt"
    and c': "\<forall>e\<in>set c. bucket_idx ty (dict_ht d t) (de_key e) = i"
    and u: "u = length (concat (tt[i := c]))"
    and re': "t = 0 \<and> dictIsRehashing d \<and> tt ! i = [] \<longrightarrow> c = []"
    and es: "mset es + mset (tt ! i) = mset (dict_entries d) + mset c" "distinct_keys ty es"
  defines "d' \<equiv> set_ht t ((dict_ht d t)\<lparr>ht_table := Some (tt[i := c]), ht_used := u\<rparr>) d"
  shows "dict_ok d'" and "mset (dict_entries d') = mset es" and "d_type d' = ty"
    and "d_iterators d' = d_iterators d" and "d_rehashidx d' = d_rehashidx d"
proof -
  have c: "bucket_idx ty (dict_ht d t) (de_key e) = i" if "e \<in> set c" for e using c' that by blast
  have re: "t = 0 \<Longrightarrow> dictIsRehashing d \<Longrightarrow> tt ! i = [] \<Longrightarrow> c = []" using re' by blast
  let ?h = "(dict_ht d t)\<lparr>ht_table := Some (tt[i := c]), ht_used := u\<rparr>"
  have hok: "ht_ok ty ?h"
    by (rule ht_ok_update [OF _ tt i c u]) (use ok ty in \<open>auto simp: dict_ok_def dict_ht_def\<close>)
  have "mset (ht_entries ?h) + mset (tt ! i) = mset (ht_entries (dict_ht d t)) + mset c"
    using mset_concat_update [OF i, of c] tt by (simp add: ht_entries_def)
  then have "mset (dict_entries d') + mset (tt ! i) = mset es + mset (tt ! i)"
    using es(1) by (auto simp: d'_def set_ht_def dict_ht_def dict_entries_def)
  then show ms: "mset (dict_entries d') = mset es" by simp
  then have dist: "distinct_keys ty (dict_entries d')" using es(2) distinct_keys_mset by blast
  show ty': "d_type d' = ty" and "d_iterators d' = d_iterators d" and "d_rehashidx d' = d_rehashidx d"
    using ty by (auto simp: d'_def set_ht_def)
  have b: "bucket_get ?h j = Some []"
    if "t = 0" "dictIsRehashing d" "bucket_get (dict_ht d t) j = Some []" for j
    using that tt re by (cases "j = i") (auto simp: bucket_get_Some_iff)
  show "dict_ok d'"
  proof (cases "t = 0")
    case True
    then show ?thesis
      using ok ty hok dist b tt by (auto simp: dict_ok_def d'_def set_ht_def dict_ht_def dictIsRehashing_def)
  next
    case False
    then have "dictIsRehashing d" using ok tt t by (auto simp: dict_ok_def dict_ht_def dictReset_def split: if_splits)
    then show ?thesis
      using False ok ty hok dist by (auto simp: dict_ok_def d'_def set_ht_def dict_ht_def dictIsRehashing_def)
  qed
qed

text \<open>What the map becomes when one entry is added to or taken from the entries.\<close>

lemma entries_get_Cons:
  "distinct_keys ty (e # es) \<Longrightarrow>
   entries_get ty (e # es) k = (if same_key k (de_key e) then Some (de_val e) else entries_get ty es k)"
  by (auto simp: entries_get_def)

lemma entries_get_removed:
  assumes "distinct_keys ty (e # es)"
  shows "entries_get ty es k = (if same_key k (de_key e) then None else entries_get ty (e # es) k)"
proof (cases "same_key k (de_key e)")
  case True
  then have "same_key k (de_key x) \<Longrightarrow> same_key (de_key e) (de_key x)" for x
    using cmp_sym cmp_trans by blast
  then have "\<forall>x\<in>set es. \<not> same_key k (de_key x)"
    using assms by (auto simp: distinct_keys_def)
  then show ?thesis using True by (simp add: entries_get_None_iff)
next
  case False
  then show ?thesis using assms by (simp add: entries_get_Cons)
qed

lemma dict_map_mset:
  "mset (dict_entries d) = mset es \<Longrightarrow> d_type d = ty \<Longrightarrow> distinct_keys ty es \<Longrightarrow> dict_map d = entries_get ty es"
  using entries_get_mset [of es "dict_entries d"] by (simp add: dict_map_def [abs_def])

subsection \<open>Expansion\<close>

lemma dictNextPowerLoop_spec:
  "\<exists>k\<ge>j. dictNextPowerLoop (2 ^ j) sz = Some (2 ^ k) \<and> sz \<le> 2 ^ k \<and> (k = j \<or> 2 ^ (k - 1) < sz)"
proof (induction "sz - 2 ^ j" arbitrary: j rule: less_induct)
  case less
  show ?case
  proof (cases "sz \<le> 2 ^ j")
    case False
    have "(2 :: nat) ^ j < 2 ^ Suc j" by simp
    then have "sz - 2 ^ Suc j < sz - 2 ^ j" using False by linarith
    from less [OF this] obtain k where k: "Suc j \<le> k" "dictNextPowerLoop (2 ^ Suc j) sz = Some (2 ^ k)"
      "sz \<le> 2 ^ k" "k = Suc j \<or> 2 ^ (k - 1) < sz" by blast
    then have "dictNextPowerLoop (2 ^ j) sz = Some (2 ^ k)"
      using False by (subst dictNextPowerLoop.simps) (simp add: mult.commute)
    then show ?thesis using k False by (intro exI [of _ k]) auto
  qed (auto simp: dictNextPowerLoop.simps [of "2 ^ j"])
qed

lemma dictNextPower_small:
  assumes "sz \<le> 2 ^ 31"
  shows "\<exists>k\<le>31. 2 \<le> k \<and> dictNextPower sz = Some (2 ^ k) \<and> sz \<le> 2 ^ k"
proof -
  obtain k where k: "2 \<le> k" "dictNextPowerLoop (2 ^ 2) sz = Some (2 ^ k)" "sz \<le> 2 ^ k" "k = 2 \<or> 2 ^ (k - 1) < sz"
    using dictNextPowerLoop_spec [of 2 sz] by blast
  have "k \<le> 31"
  proof (cases "k = 2")
    case False
    then have "(2 :: nat) ^ (k - 1) < 2 ^ 31" using k(4) assms by simp
    then have "k - 1 < 31" by (rule power_less_imp_less_exp [rotated]) simp
    then show ?thesis by simp
  qed simp
  moreover have "dictNextPower sz = Some (2 ^ k)"
    using k(2) assms by (simp add: dictNextPower_def)
  ultimately show ?thesis using k by blast
qed

lemma fresh_table_ok:
  "k \<le> 31 \<Longrightarrow> ht_ok ty \<lparr>ht_table = Some (replicate (2 ^ k) []), ht_size = 2 ^ k,
     ht_sizemask = 2 ^ k - 1, ht_used = 0\<rparr>"
  by (auto simp: ht_ok_def)

lemma dictExpand_ok:
  assumes ok: "dict_ok d" and ty: "d_type d = ty" and sz: "sz \<le> 2 ^ 31"
  shows "\<exists>d' r. dictExpand d sz = Some (d', r) \<and> dict_ok d' \<and> same_entries d d' \<and>
    (r \<or> ht_table (d_ht0 d) \<noteq> None \<longrightarrow> ht_table (d_ht0 d') \<noteq> None)"
proof -
  obtain k where k: "k \<le> 31" "dictNextPower sz = Some (2 ^ k)"
    using dictNextPower_small [OF sz] by blast
  let ?n = "\<lparr>ht_table = Some (replicate (2 ^ k) []), ht_size = 2 ^ k, ht_sizemask = 2 ^ k - 1, ht_used = 0\<rparr>"
  note n_ok = fresh_table_ok [OF k(1)]
  have n_es: "ht_entries ?n = []" by (simp add: ht_entries_def)
  consider (err) "dictIsRehashing d \<or> ht_used (d_ht0 d) > sz \<or> 2 ^ k = ht_size (d_ht0 d)"
    | (new) "\<not> dictIsRehashing d" "\<not> ht_used (d_ht0 d) > sz" "2 ^ k \<noteq> ht_size (d_ht0 d)" "ht_table (d_ht0 d) = None"
    | (grow) "\<not> dictIsRehashing d" "\<not> ht_used (d_ht0 d) > sz" "2 ^ k \<noteq> ht_size (d_ht0 d)" "ht_table (d_ht0 d) \<noteq> None"
    by blast
  then show ?thesis
  proof cases
    case err
    then show ?thesis using ok k(2) by (auto simp: dictExpand_def)
  next
    case new
    have "dictExpand d sz = Some (d\<lparr>d_ht0 := ?n\<rparr>, True)"
      using new k(2) by (simp add: dictExpand_def)
    moreover have "dict_ok (d\<lparr>d_ht0 := ?n\<rparr>)" "same_entries d (d\<lparr>d_ht0 := ?n\<rparr>)"
      using ok new ty n_ok n_es
      by (auto simp: dict_ok_def dictIsRehashing_def dict_entries_def same_entries_def ht_entries_def)
    ultimately show ?thesis by auto
  next
    case grow
    have e1: "ht_entries (d_ht1 d) = []" using grow dict_ok_tables [OF ok ty] by simp
    have "dictExpand d sz = Some (d\<lparr>d_ht1 := ?n, d_rehashidx := 0\<rparr>, True)"
      using grow k(2) by (auto simp: dictExpand_def Let_def)
    moreover have "dict_entries (d\<lparr>d_ht1 := ?n, d_rehashidx := 0\<rparr>) = dict_entries d"
      using e1 n_es by (simp add: dict_entries_def)
    moreover from this have "dict_ok (d\<lparr>d_ht1 := ?n, d_rehashidx := 0\<rparr>)"
      using ok grow ty n_ok by (auto simp: dict_ok_def dictIsRehashing_def)
    ultimately show ?thesis using grow by (auto simp: same_entries_def)
  qed
qed

lemma dictSize_entries: "dict_ok d \<Longrightarrow> dictSize d = length (dict_entries d)"
  by (auto simp: dictSize_def dict_entries_def dict_ok_def ht_used_entries)

lemma dictExpandIfNeeded_ok:
  assumes ok: "dict_ok d" and ty: "d_type d = ty" and sz: "dictSize d \<le> 2 ^ 30"
  shows "\<exists>d'. dictExpandIfNeeded cr d = Some (d', True) \<and> dict_ok d' \<and> same_entries d d' \<and>
    ht_table (d_ht0 d') \<noteq> None"
proof -
  have u: "ht_used (d_ht0 d) \<le> 2 ^ 30" using sz by (simp add: dictSize_def)
  consider (re) "dictIsRehashing d" | (init) "\<not> dictIsRehashing d" "ht_size (d_ht0 d) = 0"
    | (grow) "\<not> dictIsRehashing d" "ht_size (d_ht0 d) \<noteq> 0" "ht_used (d_ht0 d) \<ge> ht_size (d_ht0 d)"
        "cr \<or> ht_used (d_ht0 d) div ht_size (d_ht0 d) > 5"
    | (keep) "\<not> dictIsRehashing d" "ht_size (d_ht0 d) \<noteq> 0" "\<not> (ht_used (d_ht0 d) \<ge> ht_size (d_ht0 d) \<and>
        (cr \<or> ht_used (d_ht0 d) div ht_size (d_ht0 d) > 5))" by blast
  then show ?thesis
  proof cases
    case re
    then show ?thesis using ok dict_ok_tables(5) [OF ok ty] by (auto simp: dictExpandIfNeeded_def)
  next
    case init
    have tab: "ht_table (d_ht0 d) = None" and "ht_used (d_ht0 d) = 0"
      using init dict_ok_tables(1,7) [OF ok ty] by (auto simp: ht_ok_def)
    obtain k where k: "dictNextPower 4 = Some (2 ^ k)" using dictNextPower_small [of 4] by auto
    then have "snd (the (dictExpand d 4))"
      using init tab \<open>ht_used (d_ht0 d) = 0\<close> by (simp add: dictExpand_def)
    then show ?thesis
      using dictExpand_ok [OF ok ty, of 4] init by (auto simp: dictExpandIfNeeded_def)
  next
    case grow
    obtain k where k: "dictNextPower (ht_used (d_ht0 d) * 2) = Some (2 ^ k)" "ht_used (d_ht0 d) * 2 \<le> 2 ^ k"
      using dictNextPower_small [of "ht_used (d_ht0 d) * 2"] u by auto
    then have "2 ^ k \<noteq> ht_size (d_ht0 d)" using grow by linarith
    then have "snd (the (dictExpand d (ht_used (d_ht0 d) * 2)))"
      using grow k by (simp add: dictExpand_def Let_def)
    then show ?thesis
      using dictExpand_ok [OF ok ty, of "ht_used (d_ht0 d) * 2"] grow u by (auto simp: dictExpandIfNeeded_def)
  next
    case keep
    then show ?thesis
      using ok dict_ok_tables(7) [OF ok ty] by (auto simp: dictExpandIfNeeded_def)
  qed
qed

subsection \<open>Insertion\<close>

abbreviation upd :: "('k \<Rightarrow> 'v option) \<Rightarrow> 'k \<Rightarrow> 'v option \<Rightarrow> 'k \<Rightarrow> 'v option" where
  "upd \<equiv> upd_key same_key"

lemmas upd_def = upd_key_def [of same_key]

lemma dict_ref_entry:
  assumes "ht_table (dict_ht d t) = Some tt" and "i < length tt" and "p < length (tt ! i)"
  shows "tt ! i ! p \<in> set (dict_entries d)"
proof -
  have "tt ! i ! p \<in> set (concat tt)" using assms by (metis in_set_conv_nth set_concat UN_iff nth_mem)
  then show ?thesis using assms(1) by (auto simp: dict_entries_def ht_entries_def dict_ht_def split: if_splits)
qed

lemma bucket_keys:
  assumes "dict_ok d" and "d_type d = ty" and "ht_table (dict_ht d t) = Some tt" and "i < length tt" and "e \<in> set (tt ! i)"
  shows "bucket_idx ty (dict_ht d t) (de_key e) = i"
proof -
  have "ht_ok ty (dict_ht d t)" using assms by (auto simp: dict_ok_def dict_ht_def)
  then show ?thesis using assms(3-5) by (auto elim!: ht_ok_table)
qed

lemma dictKeyIndex_ok:
  assumes ok: "dict_ok d" and ty: "d_type d = ty" and sz: "dictSize d \<le> 2 ^ 30"
  shows "\<exists>d' i. dictKeyIndex cr d key = Some (d', i) \<and> dict_ok d' \<and> same_entries d d' \<and>
    ht_table (d_ht0 d') \<noteq> None \<and>
    i = (if dict_map d key = None
         then int (bucket_idx ty (if dictIsRehashing d' then d_ht1 d' else d_ht0 d') key) else -1)"
proof -
  obtain d' where d': "dictExpandIfNeeded cr d = Some (d', True)" "dict_ok d'" "same_entries d d'"
      "ht_table (d_ht0 d') \<noteq> None"
    using dictExpandIfNeeded_ok [OF ok ty sz] by blast
  have ty': "d_type d' = ty" using d'(3) ty by (simp add: same_entries_def)
  have map: "dict_map d' = dict_map d" by (rule same_entries_map [OF ok ty d'(3)])
  define h where "h = (if dictIsRehashing d' then d_ht1 d' else d_ht0 d')"
  obtain t where t: "ht_ok ty h" "ht_table h = Some t"
    using dict_ok_tables [OF d'(2) ty'] d'(4) by (cases "dictIsRehashing d'") (auto simp: h_def)
  have idx: "sint (word_of_nat (bucket_idx ty h key) :: u32) = int (bucket_idx ty h key)"
    by (rule sint_of_nat_small) (use bucket_idx_bound [OF t] in simp)
  show ?thesis
  proof (cases "dict_map d key")
    case None
    then have "dictKeyIndex cr d key = Some (d', int (bucket_idx ty h key))"
      using d'(1) dictSearch_miss [OF d'(2) ty' d'(4), of key] map ty' idx
      by (simp add: dictKeyIndex_def Let_def flip: h_def)
    then show ?thesis using None d' by (simp add: h_def)
  next
    case (Some v)
    then obtain r where "dictSearch d' key = Some (Some r)"
      using dictSearch_hit [OF d'(2) ty' d'(4), of key v] map by auto
    then have "dictKeyIndex cr d key = Some (d', -1)" using d'(1) by (cases r) (simp add: dictKeyIndex_def)
    then show ?thesis using d' Some by simp
  qed
qed

end

context dict_type begin

lemma dup_same: "same_key (dictSetKey ty key) k \<longleftrightarrow> same_key key k"
  by (rule iffI) (rule cmp_trans, rule dup_cmp, assumption, rule cmp_trans, rule cmp_sym, rule dup_cmp, assumption)

lemma same_entries_size: "dict_ok d \<Longrightarrow> dict_ok d' \<Longrightarrow> same_entries d d' \<Longrightarrow> dictSize d' = dictSize d"
  unfolding same_entries_def by (metis dictSize_entries size_mset)

lemma dict_ht_set_ht: "dict_ht (set_ht t h d) t = h"
  by (cases "t = 0") (simp_all add: dict_ht_def set_ht_def)

lemma dict_map_put:
  assumes "mset (dict_entries d') = mset (e # R)" and "d_type d' = ty" and d: "distinct_keys ty (e # R)"
    and rest: "\<And>k. \<not> same_key k (de_key e) \<Longrightarrow> entries_get ty R k = dict_map d k"
  shows "dict_map d' = upd (dict_map d) (de_key e) (Some (de_val e))"
proof
  fix k
  have "dict_map d' k = (if same_key k (de_key e) then Some (de_val e) else entries_get ty R k)"
    using dict_map_mset [OF assms(1-3)] entries_get_Cons [OF d, of k] by simp
  also have "\<dots> = (if same_key k (de_key e) then Some (de_val e) else dict_map d k)"
    using rest by simp
  also have "\<dots> = upd (dict_map d) (de_key e) (Some (de_val e)) k"
    unfolding upd_def cmp_commute [of k] ..
  finally show "dict_map d' k = upd (dict_map d) (de_key e) (Some (de_val e)) k" .
qed

lemma entry_set_ok:
  assumes ok: "dict_ok d" and ty: "d_type d = ty" and t: "t \<le> 1"
    and tt: "ht_table (dict_ht d t) = Some tt" and i: "i < length tt" and p: "p < length (tt ! i)"
  shows "\<exists>d'. entry_set d (t, i, p) v = Some d' \<and> dict_ok d' \<and> d_type d' = ty \<and> dictSize d' = dictSize d \<and>
    d_iterators d' = d_iterators d \<and> dict_map d' = upd (dict_map d) (de_key (tt ! i ! p)) (Some v)"
proof -
  let ?e = "tt ! i ! p" and ?e' = "(tt ! i ! p)\<lparr>de_val := v\<rparr>"
  let ?c = "(tt ! i)[p := ?e']"
  define R where "R = remove1 ?e (dict_entries d)"
  have R: "mset (dict_entries d) = mset (?e # R)"
    using dict_ref_entry [OF tt i p] by (simp add: R_def)
  have dR: "distinct_keys ty (?e # R)"
    using distinct_keys_mset [OF R] dict_ok_tables(3) [OF ok ty] by simp
  then have dR': "distinct_keys ty (?e' # R)" by (simp add: distinct_keys_def)
  let ?h = "(dict_ht d t)\<lparr>ht_table := Some (tt[i := ?c]), ht_used := ht_used (dict_ht d t)\<rparr>"
  have used: "ht_used (dict_ht d t) = length (concat (tt[i := ?c]))"
  proof -
    have "ht_ok ty (dict_ht d t)" using ok ty by (auto simp: dict_ok_def dict_ht_def)
    then have "ht_used (dict_ht d t) = length (concat tt)" using tt by (auto simp: ht_ok_def)
    then show ?thesis using length_concat_update [OF i, of ?c] length_bucket_le [OF i] by simp
  qed
  have cm: "mset ?c = add_mset ?e' (mset (tt ! i) - {#?e#})" by (rule mset_update [OF p])
  have es: "mset (?e' # R) + mset (tt ! i) = mset (dict_entries d) + mset ?c"
    using p by (simp add: R cm)
  have keys: "\<forall>e\<in>set ?c. bucket_idx ty (dict_ht d t) (de_key e) = i"
  proof
    fix e assume that: "e \<in> set ?c"
    have "e = ?e' \<or> e \<in> set (tt ! i)" using that set_update_subset_insert [of "tt ! i" p ?e'] by blast
    then show "bucket_idx ty (dict_ht d t) (de_key e) = i"
      using bucket_keys [OF ok ty tt i, of e] bucket_keys [OF ok ty tt i nth_mem [OF p]] by (elim disjE) simp_all
  qed
  have re: "t = 0 \<and> dictIsRehashing d \<and> tt ! i = [] \<longrightarrow> ?c = []" using p by auto
  note upd = dict_update_bucket [OF ok ty t tt i keys used re es dR']
  have set: "entry_set d (t, i, p) v = Some (set_ht t ?h d)"
    using tt i p by (simp add: entry_set_def bucket_get_eq mem_get_def mem_set_def bucket_set_eq)
  have "dict_map (set_ht t ?h d) = upd (dict_map d) (de_key ?e') (Some (de_val ?e'))"
  proof (rule dict_map_put [OF upd(2,3) dR'])
    fix k assume "\<not> same_key k (de_key ?e')"
    then have nk: "\<not> same_key k (de_key ?e)" by simp
    have "dict_map d k = entries_get ty (?e # R) k" by (rule fun_cong [OF dict_map_mset [OF R ty dR]])
    also have "\<dots> = entries_get ty R k" using entries_get_Cons [OF dR, of k] nk by (simp only: if_False)
    finally show "entries_get ty R k = dict_map d k" ..
  qed
  then have "dict_map (set_ht t ?h d) = upd (dict_map d) (de_key ?e) (Some v)" by simp
  moreover have "dictSize (set_ht t ?h d) = dictSize d"
    by (simp add: dictSize_def set_ht_def dict_ht_def)
  ultimately show ?thesis using set upd(1,3,4) by (intro exI [of _ "set_ht t ?h d"] conjI)
qed


lemma dict_map_None_iff:
  "d_type d = ty \<Longrightarrow> dict_map d key = None \<longleftrightarrow> (\<forall>e\<in>set (dict_entries d). \<not> same_key key (de_key e))"
  unfolding dict_map_def by (simp add: entries_get_None_iff)

lemma bucket_push_ok:
  assumes ok: "dict_ok d" and ty: "d_type d = ty" and t: "t = (if dictIsRehashing d then 1 else 0)"
    and tt: "ht_table (dict_ht d t) = Some tt" and miss: "dict_map d key = None"
    and e: "same_key key (de_key e)" and j: "j = bucket_idx ty (dict_ht d t) key"
  defines "d' \<equiv> set_ht t ((dict_ht d t)\<lparr>ht_table := Some (tt[j := e # tt ! j]), ht_used := ht_used (dict_ht d t) + 1\<rparr>) d"
  shows "j < length tt" and "dict_ok d'" and "mset (dict_entries d') = mset (e # dict_entries d)"
    and "d_type d' = ty" and "d_iterators d' = d_iterators d" and "distinct_keys ty (e # dict_entries d)"
proof -
  have hok: "ht_ok ty (dict_ht d t)" using ok ty by (auto simp: dict_ok_def dict_ht_def)
  show jl: "j < length tt" unfolding j by (rule bucket_idx_less [OF hok tt])
  have keys: "\<forall>x\<in>set (e # tt ! j). bucket_idx ty (dict_ht d t) (de_key x) = j"
    using bucket_keys [OF ok ty tt jl] cmp_idx [OF e, of "dict_ht d t"] j by auto
  have used: "ht_used (dict_ht d t) + 1 = length (concat (tt[j := e # tt ! j]))"
  proof -
    have "size (mset (concat (tt[j := e # tt ! j])) + mset (tt ! j)) = size (mset (concat tt) + mset (e # tt ! j))"
      by (simp only: mset_concat_update [OF jl])
    then show ?thesis using hok tt by (auto simp: ht_ok_def)
  qed
  have "\<not> same_key (de_key e) (de_key x)" if "x \<in> set (dict_entries d)" for x
    using miss that cmp_trans [OF e, of "de_key x"] dict_map_None_iff [OF ty] by blast
  then show dist: "distinct_keys ty (e # dict_entries d)"
    using dict_ok_tables(3) [OF ok ty] by (simp add: distinct_keys_def)
  have re: "t = 0 \<and> dictIsRehashing d \<and> tt ! j = [] \<longrightarrow> e # tt ! j = []" by (simp add: t)
  have es: "mset (e # dict_entries d) + mset (tt ! j) = mset (dict_entries d) + mset (e # tt ! j)" by simp
  have t1: "t \<le> 1" by (simp add: t)
  note u = dict_update_bucket [OF ok ty t1 tt jl keys used re es dist, folded d'_def]
  show "dict_ok d'" and "mset (dict_entries d') = mset (e # dict_entries d)"
    and "d_type d' = ty" and "d_iterators d' = d_iterators d" by (rule u)+
qed

lemma dictAddRaw_prefix_ok:
  assumes ok: "dict_ok d" and ty: "d_type d = ty" and sz: "dictSize d \<le> 2 ^ 30"
  shows "\<exists>d1 d2 i. (if dictIsRehashing d then dictRehashStep d else Some d) = Some d1 \<and>
    dictKeyIndex cr d1 key = Some (d2, i) \<and> dict_ok d2 \<and> same_entries d d2 \<and> ht_table (d_ht0 d2) \<noteq> None \<and>
    i = (if dict_map d key = None
         then int (bucket_idx ty (if dictIsRehashing d2 then d_ht1 d2 else d_ht0 d2) key) else -1)"
proof -
  obtain d1 where d1: "(if dictIsRehashing d then dictRehashStep d else Some d) = Some d1" "dict_ok d1" "same_entries d d1"
    using rehashStep_prefix_ok [OF ok ty] by blast
  have ty1: "d_type d1 = ty" using d1(3) ty by (simp add: same_entries_def)
  have sz1: "dictSize d1 \<le> 2 ^ 30"
    using sz same_entries_size [OF ok d1(2,3)] by simp
  obtain d2 i where d2: "dictKeyIndex cr d1 key = Some (d2, i)" "dict_ok d2" "same_entries d1 d2"
      "ht_table (d_ht0 d2) \<noteq> None" and i: "i = (if dict_map d1 key = None
         then int (bucket_idx ty (if dictIsRehashing d2 then d_ht1 d2 else d_ht0 d2) key) else -1)"
    using dictKeyIndex_ok [OF d1(2) ty1 sz1] by blast
  have "same_entries d d2" by (rule same_entries_trans [OF d1(3) d2(3)])
  moreover have "dict_map d1 = dict_map d" by (rule same_entries_map [OF ok ty d1(3)])
  ultimately show ?thesis using d1(1) d2(1,2,4) i by (intro exI [of _ d1] exI [of _ d2] exI [of _ i]) simp
qed

lemma dictAddRaw_hit:
  assumes ok: "dict_ok d" and ty: "d_type d = ty" and sz: "dictSize d \<le> 2 ^ 30" and hit: "dict_map d key \<noteq> None"
  shows "\<exists>d'. dictAddRaw cr uninit d key = Some (d', None) \<and> dict_ok d' \<and> same_entries d d'"
proof -
  obtain d1 d2 where "(if dictIsRehashing d then dictRehashStep d else Some d) = Some d1"
    "dictKeyIndex cr d1 key = Some (d2, -1)" "dict_ok d2" "same_entries d d2"
    using dictAddRaw_prefix_ok [OF ok ty sz, of cr key] hit by auto
  then show ?thesis by (intro exI [of _ d2]) (simp add: dictAddRaw_def)
qed

lemma dictAddRaw_miss:
  fixes uninit :: 'v
  assumes ok: "dict_ok d" and ty: "d_type d = ty" and sz: "dictSize d \<le> 2 ^ 30" and miss: "dict_map d key = None"
  defines "e \<equiv> \<lparr>de_key = dictSetKey ty key, de_val = uninit\<rparr>"
  shows "\<exists>d' t tt i. dictAddRaw cr uninit d key = Some (d', Some (t, i, 0)) \<and> dict_ok d' \<and> d_type d' = ty \<and>
    t \<le> 1 \<and> ht_table (dict_ht d' t) = Some tt \<and> i < length tt \<and> tt ! i \<noteq> [] \<and> tt ! i ! 0 = e \<and>
    dictSize d' = dictSize d + 1 \<and> d_iterators d' = d_iterators d \<and>
    mset (dict_entries d') = mset (e # dict_entries d) \<and> distinct_keys ty (e # dict_entries d)"
proof -
  obtain d1 d2 i where d1: "(if dictIsRehashing d then dictRehashStep d else Some d) = Some d1" and
    d2: "dictKeyIndex cr d1 key = Some (d2, i)" "dict_ok d2" "same_entries d d2" "ht_table (d_ht0 d2) \<noteq> None" and
    i: "i = int (bucket_idx ty (if dictIsRehashing d2 then d_ht1 d2 else d_ht0 d2) key)"
    using dictAddRaw_prefix_ok [OF ok ty sz, of cr key] miss by auto
  have ty2: "d_type d2 = ty" using d2(3) ty by (simp add: same_entries_def)
  have miss2: "dict_map d2 key = None" using miss same_entries_map [OF ok ty d2(3)] by simp
  define t :: nat where "t = (if dictIsRehashing d2 then 1 else 0)"
  define j where "j = bucket_idx ty (dict_ht d2 t) key"
  have ij: "i = int j" using i by (simp add: j_def t_def dict_ht_def)
  obtain tt where tt: "ht_table (dict_ht d2 t) = Some tt"
    using dict_ok_tables [OF d2(2) ty2] d2(4) by (cases "dictIsRehashing d2") (auto simp: t_def dict_ht_def)
  have ke: "same_key key (de_key e)" by (simp add: e_def dup_cmp)
  note u = bucket_push_ok [OF d2(2) ty2 t_def tt miss2 ke j_def]
  define h where "h = (dict_ht d2 t)\<lparr>ht_table := Some (tt[j := e # tt ! j]), ht_used := ht_used (dict_ht d2 t) + 1\<rparr>"
  have res: "dictAddRaw cr uninit d key = Some (set_ht t h d2, Some (t, j, 0))"
    using d1 d2(1) ij ty2 tt u(1)
    by (simp add: dictAddRaw_def bucket_get_eq bucket_set_eq Let_def h_def e_def flip: t_def)
  have es: "mset (dict_entries (set_ht t h d2)) = mset (e # dict_entries d)"
    using u(3) d2(3) unfolding h_def same_entries_def by (simp only: mset.simps)
  have sz': "dictSize (set_ht t h d2) = dictSize d + 1"
    using dictSize_entries [OF u(2)] dictSize_entries [OF ok] arg_cong [OF es, of size] by (simp add: h_def)
  have dist: "distinct_keys ty (e # dict_entries d)"
    using distinct_keys_mset [of "e # dict_entries d2" "e # dict_entries d"] u(6) d2(3) by (simp add: same_entries_def)
  have tab: "ht_table (dict_ht (set_ht t h d2) t) = Some (tt[j := e # tt ! j])"
    unfolding dict_ht_set_ht by (simp add: h_def)
  have it: "d_iterators (set_ht t h d2) = d_iterators d" using u(5) d2(3) by (simp add: h_def same_entries_def)
  have head: "j < length (tt[j := e # tt ! j])" "tt[j := e # tt ! j] ! j \<noteq> []" "tt[j := e # tt ! j] ! j ! 0 = e"
    using u(1) by simp_all
  have t1: "t \<le> 1" by (simp add: t_def)
  show ?thesis
    using res u(2,4) t1 tab head sz' it es dist unfolding h_def [symmetric]
    by (intro exI [of _ "set_ht t h d2"] exI [of _ t] exI [of _ "tt[j := e # tt ! j]"] exI [of _ j] conjI)
qed

lemma dictAdd_ok:
  assumes ok: "dict_ok d" and ty: "d_type d = ty" and sz: "dictSize d \<le> 2 ^ 30"
  shows "\<exists>d'. dictAdd cr uninit d key v = Some (d', dict_map d key = None) \<and> dict_ok d' \<and> d_type d' = ty \<and>
    d_iterators d' = d_iterators d \<and> dictSize d' \<le> Suc (dictSize d) \<and>
    dict_map d' = (if dict_map d key = None then upd (dict_map d) key (Some (dictSetVal ty v)) else dict_map d)"
proof (cases "dict_map d key")
  case (Some w)
  then obtain d' where d': "dictAddRaw cr uninit d key = Some (d', None)" "dict_ok d'" "same_entries d d'"
    using dictAddRaw_hit [OF ok ty sz, of key cr uninit] by auto
  then show ?thesis
    using Some ty same_entries_map [OF ok ty d'(3)] same_entries_size [OF ok d'(2,3)]
    by (intro exI [of _ d']) (simp add: dictAdd_def same_entries_def)
next
  case None
  define e where "e = \<lparr>de_key = dictSetKey ty key, de_val = uninit\<rparr>"
  obtain d1 t tt i where d1: "dictAddRaw cr uninit d key = Some (d1, Some (t, i, 0))" "dict_ok d1" "d_type d1 = ty"
    "t \<le> 1" "ht_table (dict_ht d1 t) = Some tt" "i < length tt" "tt ! i \<noteq> []" "tt ! i ! 0 = e"
    "dictSize d1 = dictSize d + 1" "d_iterators d1 = d_iterators d"
    "mset (dict_entries d1) = mset (e # dict_entries d)" "distinct_keys ty (e # dict_entries d)"
    using dictAddRaw_miss [OF ok ty sz None, of cr uninit] unfolding e_def by blast
  have "0 < length (tt ! i)" using d1(7) by simp
  from entry_set_ok [OF d1(2-6) this, of "dictSetVal ty v"] obtain d2
    where d2: "entry_set d1 (t, i, 0) (dictSetVal ty v) = Some d2" "dict_ok d2" "d_type d2 = ty"
      "dictSize d2 = dictSize d1" "d_iterators d2 = d_iterators d1"
      "dict_map d2 = upd (dict_map d1) (de_key e) (Some (dictSetVal ty v))" unfolding d1(8) by blast
  have m1: "dict_map d1 = upd (dict_map d) (de_key e) (Some (de_val e))"
    by (rule dict_map_put [OF d1(11,3,12)]) (simp add: dict_map_def ty)
  have k: "same_key (de_key e) k = same_key key k" for k
    by (simp add: e_def dup_same)
  have "dict_map d2 = upd (dict_map d) key (Some (dictSetVal ty v))"
    unfolding d2(6) m1 upd_def k by (rule ext) simp
  moreover have "dictAdd cr uninit d key v = Some (d2, True)" using d1(1,3) d2(1) by (simp add: dictAdd_def)
  ultimately show ?thesis using None d2 d1(9,10) by (intro exI [of _ d2]) simp
qed

end

context dict_type begin

lemma same_key_cong: "same_key a b \<Longrightarrow> same_key a k \<longleftrightarrow> same_key b k"
  by (rule iffI) (rule cmp_trans, erule cmp_sym, assumption, erule cmp_trans, assumption)

lemma entry_getD:
  assumes "entry_get d r = Some e"
  obtains t tt i p where "t \<le> 1" "ht_table (dict_ht d t) = Some tt" "i < length tt" "p < length (tt ! i)"
    "tt ! i ! p = e" "entry_set d r = entry_set d (t, i, p)"
proof -
  obtain t0 i p where r: "r = (t0, i, p)" by (cases r)
  define t :: nat where "t = (if t0 = 0 then 0 else 1)"
  have ht: "dict_ht d t0 = dict_ht d t" "\<And>h. set_ht t0 h d = set_ht t h d"
    by (simp_all add: t_def dict_ht_def set_ht_def)
  obtain tt where "ht_table (dict_ht d t) = Some tt" "i < length tt" "p < length (tt ! i)" "tt ! i ! p = e"
    using assms unfolding r entry_get_def prod.case ht
    by (auto simp: bucket_get_def mem_get_def bind_eq_Some_conv split: if_splits)
  moreover have "entry_set d r = entry_set d (t, i, p)"
    by (rule ext) (simp add: r entry_set_def ht)
  ultimately show ?thesis using that [of t tt i p] by (simp add: t_def)
qed

lemma entry_set_ref_ok:
  assumes ok: "dict_ok d" and ty: "d_type d = ty" and e: "entry_get d r = Some e" and k: "same_key key (de_key e)"
  shows "\<exists>d'. entry_set d r v = Some d' \<and> dict_ok d' \<and> d_type d' = ty \<and> dictSize d' = dictSize d \<and>
    d_iterators d' = d_iterators d \<and> dict_map d' = upd (dict_map d) key (Some v)"
proof -
  obtain t tt i p where r: "t \<le> 1" "ht_table (dict_ht d t) = Some tt" "i < length tt" "p < length (tt ! i)"
    and e': "tt ! i ! p = e" "entry_set d r = entry_set d (t, i, p)"
    by (rule entry_getD [OF e])
  have "same_key (de_key e) x = same_key key x" for x
    by (rule same_key_cong [OF cmp_sym [OF k]])
  then have "upd (dict_map d) (de_key e) = upd (dict_map d) key" by (simp add: upd_def fun_eq_iff)
  then show ?thesis using entry_set_ok [OF ok ty r, of v] unfolding e' by simp
qed

lemma dictFetchValue_ok:
  assumes ok: "dict_ok d" and ty: "d_type d = ty"
  shows "\<exists>d'. dictFetchValue d key = Some (d', dict_map d key) \<and> dict_ok d' \<and> same_entries d d'"
proof -
  obtain d' r where f: "dictFind d key = Some (d', r)" "dict_ok d'" "same_entries d d'"
    "case r of None \<Rightarrow> dict_map d key = None
     | Some rf \<Rightarrow> \<exists>e. entry_get d' rf = Some e \<and> same_key key (de_key e) \<and> dict_map d key = Some (de_val e)"
    using dictFind_ok [OF ok ty] by blast
  show ?thesis
    using f by (intro exI [of _ d']) (cases r; auto simp: dictFetchValue_def)
qed

lemma dictReplace_ok:
  assumes ok: "dict_ok d" and ty: "d_type d = ty" and sz: "dictSize d \<le> 2 ^ 30"
  shows "\<exists>d'. dictReplace cr uninit d key v = Some (d', dict_map d key = None) \<and> dict_ok d' \<and> d_type d' = ty \<and>
    d_iterators d' = d_iterators d \<and> dictSize d' \<le> Suc (dictSize d) \<and>
    dict_map d' = upd (dict_map d) key (Some (dictSetVal ty v))"
proof -
  obtain d1 where d1: "dictAdd cr uninit d key v = Some (d1, dict_map d key = None)" "dict_ok d1" "d_type d1 = ty"
    "d_iterators d1 = d_iterators d" "dictSize d1 \<le> Suc (dictSize d)" and
    m1: "dict_map d1 = (if dict_map d key = None then upd (dict_map d) key (Some (dictSetVal ty v)) else dict_map d)"
    using dictAdd_ok [OF ok ty sz, of cr uninit key v] by blast
  show ?thesis
  proof (cases "dict_map d key")
    case None
    then show ?thesis using d1 m1 by (intro exI [of _ d1]) (simp add: dictReplace_def)
  next
    case (Some w)
    have m: "dict_map d1 = dict_map d" using m1 Some by simp
    obtain d2 r where d2: "dictFind d1 key = Some (d2, r)" "dict_ok d2" "same_entries d1 d2"
      and r: "case r of None \<Rightarrow> dict_map d1 key = None
       | Some rf \<Rightarrow> \<exists>e. entry_get d2 rf = Some e \<and> same_key key (de_key e) \<and> dict_map d1 key = Some (de_val e)"
      using dictFind_ok [OF d1(2,3)] by blast
    obtain rf e where rf: "r = Some rf" "entry_get d2 rf = Some e" "same_key key (de_key e)"
      using r Some m by (cases r) auto
    have ty2: "d_type d2 = ty" using d2(3) d1(3) by (simp add: same_entries_def)
    obtain d3 where d3: "entry_set d2 rf (dictSetVal ty v) = Some d3" "dict_ok d3" "d_type d3 = ty"
      "dictSize d3 = dictSize d2" "d_iterators d3 = d_iterators d2"
      "dict_map d3 = upd (dict_map d2) key (Some (dictSetVal ty v))"
      using entry_set_ref_ok [OF d2(2) ty2 rf(2,3)] by blast
    have "dict_map d2 = dict_map d" using same_entries_map [OF d1(2,3) d2(3)] m by simp
    moreover have "dictSize d2 = dictSize d1" by (rule same_entries_size [OF d1(2) d2(2,3)])
    moreover have "d_iterators d2 = d_iterators d" using d2(3) d1(4) by (simp add: same_entries_def)
    moreover have "dictReplace cr uninit d key v = Some (d3, False)"
      using d1(1) Some d2(1) rf(1) d3(1) ty2 by (simp add: dictReplace_def)
    ultimately show ?thesis using d3 d1(5) Some by (intro exI [of _ d3]) simp
  qed
qed

subsection \<open>Deletion\<close>

lemma chainRemove_mset:
  assumes "p < length c"
  shows "mset c = add_mset (c ! p) (mset (chainRemove p c))" and "set (chainRemove p c) \<subseteq> set c"
proof -
  have "c = take p c @ c ! p # drop (Suc p) c" using assms by (rule id_take_nth_drop)
  then have "mset c = mset (take p c @ c ! p # drop (Suc p) c)" by simp
  then show "mset c = add_mset (c ! p) (mset (chainRemove p c))" by (simp add: chainRemove_def)
  show "set (chainRemove p c) \<subseteq> set c" by (auto simp: chainRemove_def dest: in_set_takeD in_set_dropD)
qed

lemma bucket_remove_ok:
  assumes ok: "dict_ok d" and ty: "d_type d = ty" and t: "t \<le> 1"
    and tt: "ht_table (dict_ht d t) = Some tt" and i: "i < length tt" and p: "p < length (tt ! i)"
  defines "d' \<equiv> set_ht t ((dict_ht d t)\<lparr>ht_table := Some (tt[i := chainRemove p (tt ! i)]),
      ht_used := ht_used (dict_ht d t) - 1\<rparr>) d"
  shows "dict_ok d'" and "d_type d' = ty" and "d_iterators d' = d_iterators d"
    and "mset (dict_entries d) = mset ((tt ! i ! p) # dict_entries d')"
    and "distinct_keys ty ((tt ! i ! p) # dict_entries d')"
proof -
  let ?e = "tt ! i ! p"
  define R where "R = remove1 ?e (dict_entries d)"
  have R: "mset (dict_entries d) = mset (?e # R)" using dict_ref_entry [OF tt i p] by (simp add: R_def)
  have dR: "distinct_keys ty (?e # R)"
    using distinct_keys_mset [OF R] dict_ok_tables(3) [OF ok ty] by simp
  then have dist: "distinct_keys ty R" by (simp add: distinct_keys_def)
  note c = chainRemove_mset [OF p]
  have keys: "\<forall>e\<in>set (chainRemove p (tt ! i)). bucket_idx ty (dict_ht d t) (de_key e) = i"
    using bucket_keys [OF ok ty tt i] c(2) by blast
  have used: "ht_used (dict_ht d t) - 1 = length (concat (tt[i := chainRemove p (tt ! i)]))"
  proof -
    have "ht_ok ty (dict_ht d t)" using ok ty by (auto simp: dict_ok_def dict_ht_def)
    then have "ht_used (dict_ht d t) = length (concat tt)" using tt by (auto simp: ht_ok_def)
    moreover have "size (mset (concat (tt[i := chainRemove p (tt ! i)])) + mset (tt ! i)) =
        size (mset (concat tt) + mset (chainRemove p (tt ! i)))"
      by (simp only: mset_concat_update [OF i])
    ultimately show ?thesis using arg_cong [OF c(1), of size] by simp
  qed
  have re: "t = 0 \<and> dictIsRehashing d \<and> tt ! i = [] \<longrightarrow> chainRemove p (tt ! i) = []" using p by auto
  have es: "mset R + mset (tt ! i) = mset (dict_entries d) + mset (chainRemove p (tt ! i))"
    unfolding R c(1) by simp
  note u = dict_update_bucket [OF ok ty t tt i keys used re es dist, folded d'_def]
  show "dict_ok d'" and "d_type d' = ty" and "d_iterators d' = d_iterators d" by (rule u)+
  show "mset (dict_entries d) = mset (?e # dict_entries d')" using R u(2) by simp
  show "distinct_keys ty (?e # dict_entries d')"
    using distinct_keys_mset [of "?e # R" "?e # dict_entries d'"] dR u(2) by simp
qed

lemma dict_map_cong: "d_type d = ty \<Longrightarrow> same_key a b \<Longrightarrow> dict_map d a = dict_map d b"
  using same_key_cong [of a b] by (simp add: dict_map_def entries_get_def)

lemma dict_map_removed:
  assumes es: "mset (dict_entries d) = mset (e # dict_entries d')" and ty: "d_type d = ty" "d_type d' = ty"
    and dist: "distinct_keys ty (e # dict_entries d')" and key: "same_key key (de_key e)"
  shows "dict_map d' = upd (dict_map d) key None"
proof
  fix k
  have "dict_map d' k = (if same_key k (de_key e) then None else entries_get ty (e # dict_entries d') k)"
    unfolding dict_map_def ty by (rule entries_get_removed [OF dist])
  also have "entries_get ty (e # dict_entries d') k = dict_map d k"
    using dict_map_mset [OF es ty(1) dist] by simp
  also have "same_key k (de_key e) \<longleftrightarrow> same_key key k"
    unfolding cmp_commute [of k] by (rule same_key_cong [OF cmp_sym [OF key]])
  finally show "dict_map d' k = upd (dict_map d) key None k" by (simp add: upd_def)
qed

lemma dictGenericDelete_ok:
  assumes ok: "dict_ok d" and ty: "d_type d = ty"
  shows "\<exists>d'. dictGenericDelete d key = Some (d', dict_map d key \<noteq> None) \<and> dict_ok d' \<and> d_type d' = ty \<and>
    d_iterators d' = d_iterators d \<and> dictSize d' = dictSize d - (if dict_map d key = None then 0 else 1) \<and>
    dict_map d' = upd (dict_map d) key None"
proof -
  have unch: "upd (dict_map x) key None = dict_map x"
    if "dict_map x key = None" "dict_ok x" "d_type x = ty" for x
  proof
    fix k
    show "upd (dict_map x) key None k = dict_map x k"
      using dict_map_cong [OF that(3), of key k] that(1) by (simp add: upd_def)
  qed
  show ?thesis
  proof (cases "ht_size (d_ht0 d) = 0")
    case True
    then show ?thesis using dict_empty_map [OF assms] unch [of d] assms
      by (intro exI [of _ d]) (simp add: dictGenericDelete_def)
  next
    case False
    obtain d1 where d1: "(if dictIsRehashing d then dictRehashStep d else Some d) = Some d1"
      "dict_ok d1" "same_entries d d1" "ht_table (d_ht0 d1) \<noteq> None"
      using rehashStep_prefix_ok [OF assms] False dict_ok_tables(7) [OF assms] by auto
    have ty1: "d_type d1 = ty" and it1: "d_iterators d1 = d_iterators d"
      using d1(3) assms by (simp_all add: same_entries_def)
    have map: "dict_map d1 = dict_map d" by (rule same_entries_map [OF assms d1(3)])
    have sz: "dictSize d1 = dictSize d" by (rule same_entries_size [OF ok d1(2,3)])
    show ?thesis
    proof (cases "dict_map d1 key")
      case None
      then have "dictGenericDelete d key = Some (d1, False)"
        using dictSearch_miss [OF d1(2) ty1 d1(4)] False d1(1) by (simp add: dictGenericDelete_def)
      then show ?thesis using None unch [of d1] d1(2) ty1 it1 map sz by (intro exI [of _ d1]) simp
    next
      case (Some v)
      obtain t tt i p where r: "dictSearch d1 key = Some (Some (t, i, p))" "t \<le> 1" "ht_table (dict_ht d1 t) = Some tt"
        "i < length tt" "p < length (tt ! i)" "same_key key (de_key (tt ! i ! p))"
        using dictSearch_hit [OF d1(2) ty1 d1(4) Some] by blast
      define d2 where "d2 = set_ht t ((dict_ht d1 t)\<lparr>ht_table := Some (tt[i := chainRemove p (tt ! i)]),
        ht_used := ht_used (dict_ht d1 t) - 1\<rparr>) d1"
      note u = bucket_remove_ok [OF d1(2) ty1 r(2-5), folded d2_def]
      have res: "dictGenericDelete d key = Some (d2, True)"
        using False d1(1) r(1,3,4) by (simp add: dictGenericDelete_def bucket_get_eq bucket_set_eq d2_def)
      have "dict_map d2 k = upd (dict_map d1) key None k" for k
        using dict_map_removed [OF u(4) ty1 u(2,5) r(6)] by simp
      then have "dict_map d2 = upd (dict_map d) key None" using map by auto
      moreover have "dictSize d2 = dictSize d - 1"
        using dictSize_entries [OF u(1)] dictSize_entries [OF d1(2)] sz arg_cong [OF u(4), of size] by simp
      ultimately show ?thesis using res u(1-3) it1 Some map by (intro exI [of _ d2]) simp
    qed
  qed
qed

end

subsection \<open>Progress of rehashing\<close>

lemma rehashSkip_progress:
  "rehashSkip h idx ev = Some r \<Longrightarrow>
   (case r of Inl idx' \<Rightarrow> idx < idx' | Inr (idx', ev') \<Rightarrow> idx \<le> idx' \<and> 0 < ev')"
  by (induction h idx ev arbitrary: r rule: rehashSkip.induct)
     (fastforce simp: bind_eq_Some_conv split: if_splits sum.splits prod.splits)+

lemma rehashChain_size: "rehashChain ty c h0 h1 = Some (h0', h1') \<Longrightarrow> ht_size h0' = ht_size h0"
  by (induction c arbitrary: h0 h1) (auto simp: bind_eq_Some_conv Let_def)

lemma bucket_set_size: "bucket_set h i c = Some h' \<Longrightarrow> ht_size h' = ht_size h"
  by (auto simp: bucket_set_def bind_eq_Some_conv)

lemma rehashLoop_progress:
  "rehashLoop n ev d = Some (d', early) \<Longrightarrow>
   ht_size (d_ht0 d') = ht_size (d_ht0 d) \<and> d_rehashidx d \<le> d_rehashidx d' \<and>
   (0 < n \<and> ht_used (d_ht0 d) \<noteq> 0 \<longrightarrow> d_rehashidx d < d_rehashidx d')"
proof (induction n arbitrary: ev d)
  case (Suc n)
  show ?case
  proof (cases "ht_used (d_ht0 d) = 0")
    case False
    with Suc.prems obtain r where ge: "d_rehashidx d \<ge> 0"
      and r: "rehashSkip (d_ht0 d) (nat (d_rehashidx d)) ev = Some r"
      by (auto simp: bind_eq_Some_conv split: if_splits)
    note skip = rehashSkip_progress [OF r]
    show ?thesis
    proof (cases r)
      case (Inl idx)
      then show ?thesis using Suc.prems False ge r skip by (auto split: if_splits)
    next
      case (Inr x)
      obtain idx ev' where x: "x = (idx, ev')" by (cases x)
      obtain de h0 h1 h0' where s: "bucket_get (d_ht0 d) idx = Some de"
          "rehashChain (d_type d) de (d_ht0 d) (d_ht1 d) = Some (h0, h1)" "bucket_set h0 idx [] = Some h0'"
          "rehashLoop n ev' (d\<lparr>d_ht0 := h0', d_ht1 := h1, d_rehashidx := int idx + 1\<rparr>) = Some (d', early)"
        using Suc.prems False r unfolding Inr x by (auto simp: bind_eq_Some_conv split: if_splits)
      show ?thesis
        using Suc.IH [OF s(4)] skip ge bucket_set_size [OF s(3)] rehashChain_size [OF s(2)]
        unfolding Inr x by (simp add: nat_le_iff)
    qed
  qed (use Suc.prems in auto)
qed simp

lemma dictRehash_progress:
  assumes "dictRehash d n = Some (d', True)" and "0 < n"
  shows "ht_size (d_ht0 d') = ht_size (d_ht0 d)" and "d_rehashidx d < d_rehashidx d'"
proof -
  obtain early where l: "rehashLoop n (n * 10) d = Some (d', early)" "early \<or> ht_used (d_ht0 d') \<noteq> 0"
    using assms(1) by (auto simp: dictRehash_def bind_eq_Some_conv split: if_splits)
  have "ht_used (d_ht0 d) \<noteq> 0"
  proof
    assume "ht_used (d_ht0 d) = 0"
    then show False using l assms(2) by (cases n) auto
  qed
  then show "ht_size (d_ht0 d') = ht_size (d_ht0 d)" and "d_rehashidx d < d_rehashidx d'"
    using rehashLoop_progress [OF l(1)] assms(2) by auto
qed

context dict_type
begin

lemma dictRehashMillisecondsLoop_ok:
  assumes "dict_ok d" and "d_type d = ty"
  shows "\<exists>d' r. dictRehashMillisecondsLoop clock ms i d k = Some (d', r) \<and> dict_ok d' \<and> same_entries d d' \<and>
    (dictIsRehashing d' \<longrightarrow> (\<exists>j>i. clock j - clock 0 > ms))"
  using assms
proof (induction "nat (int (ht_size (d_ht0 d)) - d_rehashidx d)" arbitrary: d i k rule: less_induct)
  case less
  obtain d' r where d': "dictRehash d 100 = Some (d', r)" "dict_ok d'" "same_entries d d'" "r = dictIsRehashing d'"
    using dictRehash_ok [OF less.prems, of 100] by auto
  have ty': "d_type d' = ty" using d'(3) less.prems by (simp add: same_entries_def)
  show ?case
  proof (cases "r \<and> \<not> clock (Suc i) - clock 0 > ms")
    case False
    then show ?thesis
      using d' by (subst dictRehashMillisecondsLoop.simps) (cases r; auto)
  next
    case True
    then have r: "dictRehash d 100 = Some (d', True)" using d'(1) by simp
    have "d_rehashidx d' \<le> int (ht_size (d_ht0 d'))"
      using d'(2,4) True by (auto simp: dict_ok_def)
    then have "nat (int (ht_size (d_ht0 d')) - d_rehashidx d') < nat (int (ht_size (d_ht0 d)) - d_rehashidx d)"
      using dictRehash_progress [OF r] by simp
    from less.hyps [OF this d'(2) ty', of "Suc i" "k + 100"] obtain d2 r2 where
      d2: "dictRehashMillisecondsLoop clock ms (Suc i) d' (k + 100) = Some (d2, r2)" "dict_ok d2" "same_entries d' d2"
        "dictIsRehashing d2 \<longrightarrow> (\<exists>j>Suc i. clock j - clock 0 > ms)" by blast
    have "dictRehashMillisecondsLoop clock ms i d k = Some (d2, r2)"
      using r True d2(1) by (subst dictRehashMillisecondsLoop.simps) simp
    moreover have "dictIsRehashing d2 \<longrightarrow> (\<exists>j>i. clock j - clock 0 > ms)" using d2(4) Suc_lessD by blast
    ultimately show ?thesis using d2(2) same_entries_trans [OF d'(3) d2(3)] by blast
  qed
qed

subsection \<open>Resizing and clearing\<close>

lemma dictResize_ok:
  assumes ok: "dict_ok d" and ty: "d_type d = ty" and sz: "dictSize d \<le> 2 ^ 30"
  shows "\<exists>d' r. dictResize cr d = Some (d', r) \<and> dict_ok d' \<and> same_entries d d'"
proof (cases "\<not> cr \<or> dictIsRehashing d")
  case False
  define m where "m = (if int (ht_used (d_ht0 d)) < 4 then 4 else int (ht_used (d_ht0 d)))"
  have "ht_used (d_ht0 d) < 2 ^ 31" using sz by (simp add: dictSize_def)
  then have "dictResize cr d = dictExpand d (nat m)"
    using False sint_of_nat_small [of "ht_used (d_ht0 d)", where 'a = 32]
    by (simp add: dictResize_def m_def Let_def)
  moreover have "nat m \<le> 2 ^ 31" using sz by (simp add: m_def dictSize_def)
  ultimately show ?thesis using dictExpand_ok [OF ok ty] by metis
qed (use ok in \<open>auto simp: dictResize_def\<close>)

lemma dictClearLoop_ok:
  "n + i = ht_size h \<Longrightarrow> ht_table h = Some t \<Longrightarrow> length t = ht_size h \<Longrightarrow> \<exists>h'. dictClearLoop n i h = Some h'"
proof (induction n arbitrary: i h)
  case (Suc n)
  then show ?case by (auto simp: bucket_get_eq)
qed simp

lemma dictClear_ok: "ht_ok ty h \<Longrightarrow> dictClear h = Some dictReset"
  using dictClearLoop_ok [of "ht_size h" 0 h] unfolding dictClear_def
  by (cases "ht_table h") (auto simp: ht_ok_def)

lemma dictEmpty_ok:
  assumes ok: "dict_ok d" and ty: "d_type d = ty"
  shows "dictEmpty d = Some (dictCreate ty)"
proof -
  have "dictClear (d_ht0 d) = Some dictReset" "dictClear (d_ht1 d) = Some dictReset"
    using ok ty dictClear_ok by (auto simp: dict_ok_def)
  then show ?thesis using ty by (simp add: dictEmpty_def dictCreate_def dictInit_def)
qed

lemma dictCreate_ok: "dict_ok (dictCreate ty)" "dict_map (dictCreate ty) = Map.empty" "dictSize (dictCreate ty) = 0"
  by (auto simp: dict_ok_def dictCreate_def dictInit_def dictReset_def ht_ok_def dictIsRehashing_def dictSize_def
     distinct_keys_def dict_entries_def ht_entries_def dict_map_def entries_get_def)

end

section \<open>The contract of a map\<close>

text \<open>
  \<open>dict_can_resize\<close> is a variable of the module: the state that operations
  work on is the flag and the dictionary.  Maintenance is what the server does to
  a dictionary between two operations on it: enabling or disabling resizing,
  resizing, and any number of rehashing steps.
\<close>

record ('k, 'v) dict_env =
  dict_can_resize :: bool
  the_dict :: "('k, 'v) dict"

definition dictEnableResize :: "('k, 'v) dict_env \<Rightarrow> ('k, 'v) dict_env" where
  "dictEnableResize s = s\<lparr>dict_can_resize := True\<rparr>"

definition dictDisableResize :: "('k, 'v) dict_env \<Rightarrow> ('k, 'v) dict_env" where
  "dictDisableResize s = s\<lparr>dict_can_resize := False\<rparr>"

definition in_env :: "('k, 'v) dict_env \<Rightarrow> (('k, 'v) dict \<times> 'r) option \<Rightarrow> (('k, 'v) dict_env \<times> 'r) option" where
  "in_env s r = map_option (\<lambda>(d, x). (s\<lparr>the_dict := d\<rparr>, x)) r"

definition dictMaint :: "nat \<Rightarrow> ('k, 'v) dict_env \<Rightarrow> ('k, 'v) dict_env option" where
  "dictMaint n s =
     (if n = 0 then Some (dictEnableResize s)
      else if n = 1 then Some (dictDisableResize s)
      else if n = 2 then map_option fst (in_env s (dictResize (dict_can_resize s) (the_dict s)))
      else map_option fst (in_env s (dictRehash (the_dict s) (n - 2))))"

definition dict_ops :: "'v \<Rightarrow> (('k, 'v) dict_env, 'k, 'v) map_ops" where
  "dict_ops uninit =
     \<lparr>mo_add = \<lambda>s k v. in_env s (dictAdd (dict_can_resize s) uninit (the_dict s) k v),
      mo_replace = \<lambda>s k v. in_env s (dictReplace (dict_can_resize s) uninit (the_dict s) k v),
      mo_delete = \<lambda>s k. in_env s (dictDelete (the_dict s) k),
      mo_fetch = \<lambda>s k. in_env s (dictFetchValue (the_dict s) k),
      mo_maint = dictMaint\<rparr>"

context dict_type
begin

lemma dict_maint_law:
  assumes ok: "dict_ok (the_dict s)" and ty: "d_type (the_dict s) = ty" and sz: "dictSize (the_dict s) \<le> 2 ^ 30"
  shows "\<exists>s'. dictMaint n s = Some s' \<and> dict_ok (the_dict s') \<and> same_entries (the_dict s) (the_dict s')"
proof -
  consider "n = 0" | "n = 1" | "n = 2" | "n > 2" by linarith
  then show ?thesis
  proof cases
    case 3
    then show ?thesis using dictResize_ok [OF ok ty sz, of "dict_can_resize s"] by (auto simp: dictMaint_def in_env_def)
  next
    case 4
    then show ?thesis using dictRehash_ok [OF ok ty, of "n - 2"] by (auto simp: dictMaint_def in_env_def)
  qed (use ok in \<open>auto simp: dictMaint_def dictEnableResize_def dictDisableResize_def\<close>)
qed

sublocale dict_store: map_store "dict_ops uninit" "dictCompareKeys ty" "dictSetVal ty"
  "\<lambda>s. dict_map (the_dict s)" "\<lambda>s. dictSize (the_dict s)"
  "\<lambda>s. dict_ok (the_dict s) \<and> d_type (the_dict s) = ty" "2 ^ 30"
  for uninit
proof
  fix s :: "('k, 'v) dict_env" and op
  assume "dict_ok (the_dict s) \<and> d_type (the_dict s) = ty" and sz: "dictSize (the_dict s) < 2 ^ 30"
  then have ok: "dict_ok (the_dict s)" and ty: "d_type (the_dict s) = ty" by auto
  have le: "dictSize (the_dict s) \<le> 2 ^ 30" using sz by simp
  have same: "d_type d' = ty \<and> dictSize d' \<le> Suc (dictSize (the_dict s)) \<and> dict_map d' = dict_map (the_dict s)"
    if "same_entries (the_dict s) d'" "dict_ok d'" for d'
    using that same_entries_map [OF ok ty that(1)] same_entries_size [OF ok that(2,1)] ty
    by (simp add: same_entries_def)
  let ?m = "dict_map (the_dict s)"
  let ?sp = "spec_map_op (dictCompareKeys ty) (dictSetVal ty) op (dict_map (the_dict s))"
  show "\<exists>s'. run_map_op (dict_ops uninit) op s = Some (s', snd ?sp) \<and> (dict_ok (the_dict s') \<and> d_type (the_dict s') = ty) \<and>
    dict_map (the_dict s') = fst ?sp \<and> dictSize (the_dict s') \<le> Suc (dictSize (the_dict s))"
  proof (cases op)
    case (MAdd k v)
    obtain d' where "dictAdd (dict_can_resize s) uninit (the_dict s) k v = Some (d', ?m k = None)" "dict_ok d'"
        "d_type d' = ty" "dictSize d' \<le> Suc (dictSize (the_dict s))"
        "dict_map d' = (if ?m k = None then upd ?m k (Some (dictSetVal ty v)) else ?m)"
      using dictAdd_ok [OF ok ty le, of "dict_can_resize s" uninit k v] by blast
    then show ?thesis by (intro exI [of _ "s\<lparr>the_dict := d'\<rparr>"]) (simp add: MAdd dict_ops_def in_env_def)
  next
    case (MReplace k v)
    obtain d' where "dictReplace (dict_can_resize s) uninit (the_dict s) k v = Some (d', ?m k = None)" "dict_ok d'"
        "d_type d' = ty" "dictSize d' \<le> Suc (dictSize (the_dict s))" "dict_map d' = upd ?m k (Some (dictSetVal ty v))"
      using dictReplace_ok [OF ok ty le, of "dict_can_resize s" uninit k v] by blast
    then show ?thesis by (intro exI [of _ "s\<lparr>the_dict := d'\<rparr>"]) (simp add: MReplace dict_ops_def in_env_def)
  next
    case (MDelete k)
    obtain d' where d': "dictGenericDelete (the_dict s) k = Some (d', ?m k \<noteq> None)" "dict_ok d'"
        "d_type d' = ty" "dictSize d' = dictSize (the_dict s) - (if ?m k = None then 0 else 1)" "dict_map d' = upd ?m k None"
      using dictGenericDelete_ok [OF ok ty, of k] by blast
    have "dictSize d' \<le> Suc (dictSize (the_dict s))" unfolding d'(4) by simp
    then show ?thesis using d'(1-3,5)
      by (intro exI [of _ "s\<lparr>the_dict := d'\<rparr>"]) (simp add: MDelete dict_ops_def in_env_def dictDelete_def)
  next
    case (MFetch k)
    show ?thesis using dictFetchValue_ok [OF ok ty, of k] same by (auto simp: MFetch dict_ops_def in_env_def)
  next
    case (MMaint n)
    show ?thesis using dict_maint_law [OF ok ty le, of n] same by (auto simp: MMaint dict_ops_def)
  qed
qed

end

context dict_type
begin

lemma run_ops_create:
  assumes "length ops \<le> 2 ^ 30"
  shows "\<exists>s. run_map_ops (dict_ops uninit) ops \<lparr>dict_can_resize = cr, the_dict = dictCreate ty\<rparr> =
      Some (s, snd (spec_map_ops (dictCompareKeys ty) (dictSetVal ty) ops Map.empty)) \<and>
    dict_ok (the_dict s) \<and> dict_map (the_dict s) = fst (spec_map_ops (dictCompareKeys ty) (dictSetVal ty) ops Map.empty)"
proof -
  let ?s = "\<lparr>dict_can_resize = cr, the_dict = dictCreate ty\<rparr> :: ('k, 'v) dict_env"
  have "dict_ok (the_dict ?s) \<and> d_type (the_dict ?s) = ty"
    using dictCreate_ok(1) by (simp add: dictCreate_def dictInit_def)
  from dict_store.run_law [OF this, of ops uninit] show ?thesis
    using assms dictCreate_ok(2,3) by auto
qed

end

end
