(* ===== verification/Util.thy ===== *)
theory Util
  imports Prelude
begin

unbundle bit_operations_syntax

text \<open>
  The conversions of \<open>util.c\<close>: decimal printing (\<open>digits10\<close>,
  \<open>ll2string\<close>) and parsing (\<open>string2ll\<close>, \<open>string2l\<close>).  Characters are bytes, a
  destination buffer is the list of its bytes and a write outside it is
  \<open>None\<close>; unsigned 64 bit accumulators are words, so that the overflow checks
  of the parser are checks on words as in the code.
\<close>

section \<open>Characters\<close>

text \<open>\<open>tolower\<close> of the C locale, and C strings: the bytes in front of the first NUL.\<close>

definition tolower :: "byte \<Rightarrow> byte" where
  "tolower c = (if 65 \<le> c \<and> c \<le> 90 then c + 32 else c)"

definition c_str :: "bytes \<Rightarrow> bytes" where
  "c_str s = takeWhile (\<lambda>c. c \<noteq> 0) s"

definition strcaseeq :: "bytes \<Rightarrow> bytes \<Rightarrow> bool" where
  "strcaseeq a b \<longleftrightarrow> map tolower (c_str a) = map tolower (c_str b)"

section \<open>Printing\<close>

function digits10 :: "nat \<Rightarrow> nat" where
  "digits10 v =
     (if v < 10 then 1
      else if v < 100 then 2
      else if v < 1000 then 3
      else if v < 1000000000000 then
        (if v < 100000000 then
           (if v < 1000000 then
              (if v < 10000 then 4 else 5 + of_bool (v \<ge> 100000))
            else 7 + of_bool (v \<ge> 10000000))
         else if v < 10000000000 then 9 + of_bool (v \<ge> 1000000000)
         else 11 + of_bool (v \<ge> 100000000000))
      else 12 + digits10 (v div 1000000000000))"
  by pat_completeness auto
termination by (relation "measure id") auto

declare digits10.simps [simp del]

text \<open>The table of digit pairs, 200 characters; entry \<open>i\<close> is a digit of \<open>i div 2\<close>.\<close>

definition digits :: bytes where
  "digits = concat (map (\<lambda>k. [48 + word_of_nat (k div 10), 48 + word_of_nat (k mod 10)]) [0..<100])"

text \<open>The main loop; the last component of the result is what is left of the value.\<close>

function ll2stringLoop :: "bytes \<Rightarrow> nat \<Rightarrow> nat \<Rightarrow> (bytes \<times> nat \<times> nat) option" where
  "ll2stringLoop dst next value =
     (if value \<ge> 100 then
        let i = (value mod 100) * 2; value' = value div 100 in
        (case do { dst \<leftarrow> mem_set next (digits ! (i + 1)) dst;
                   if next = 0 then None else mem_set (next - 1) (digits ! i) dst } of
           None \<Rightarrow> None
         | Some dst \<Rightarrow> if next < 2 then None else ll2stringLoop dst (next - 2) value')
      else Some (dst, next, value))"
  by pat_completeness auto
termination by (relation "measure (\<lambda>(dst, next, value). value)") auto

declare ll2stringLoop.simps [simp del]

text \<open>The loop and the last one or two digits.\<close>

definition ll2stringDigits :: "bytes \<Rightarrow> nat \<Rightarrow> nat \<Rightarrow> bytes option" where
  "ll2stringDigits dst next value = do {
     (dst, next, value) \<leftarrow> ll2stringLoop dst next value;
     if value < 10 then mem_set next (48 + word_of_nat value) dst
     else do {
       dst \<leftarrow> mem_set next (digits ! (value * 2 + 1)) dst;
       if next = 0 then None else mem_set (next - 1) (digits ! (value * 2)) dst
     }
   }"

abbreviation (input) LLONG_MIN :: i64 where
  "LLONG_MIN \<equiv> 0x8000000000000000"

definition ll2string :: "bytes \<Rightarrow> nat \<Rightarrow> i64 \<Rightarrow> (bytes \<times> nat) option" where
  "ll2string dst dstlen svalue = do {
     let (value, negative) =
       (if svalue <s 0 then ((if svalue \<noteq> LLONG_MIN then - svalue else 0x7fffffffffffffff + 1), 1)
        else (svalue, 0 :: nat));
     let length = digits10 (unat value) + negative;
     if length \<ge> dstlen then Some (dst, 0)
     else do {
       dst \<leftarrow> mem_set length 0 dst;
       dst \<leftarrow> ll2stringDigits dst (length - 1) (unat value);
       dst \<leftarrow> (if negative \<noteq> 0 then mem_set 0 45 dst else Some dst);
       Some (dst, length)
     }
   }"

section \<open>Parsing\<close>

abbreviation (input) ULLONG_MAX :: u64 where
  "ULLONG_MAX \<equiv> 0xffffffffffffffff"

text \<open>The digit loop: \<open>None\<close> is the return on overflow, otherwise the value and the unread rest.\<close>

fun string2llLoop :: "bytes \<Rightarrow> u64 \<Rightarrow> (u64 \<times> bytes) option" where
  "string2llLoop [] v = Some (v, [])"
| "string2llLoop (c # p) v =
     (if c \<ge> 48 \<and> c \<le> 57 then
        (if v > ULLONG_MAX div 10 then None
         else let v = v * 10 in
           if v > ULLONG_MAX - ucast (c - 48) then None
           else string2llLoop p (v + ucast (c - 48)))
      else Some (v, c # p))"

definition string2ll :: "bytes \<Rightarrow> i64 option" where
  "string2ll s =
     (if s = [] then None
      else if s = [48] then Some 0
      else do {
        let negative = (hd s = 45);
        let p = (if negative then tl s else s);
        if p = [] then None
        else if hd p \<ge> 49 \<and> hd p \<le> 57 then do {
          (v, rest) \<leftarrow> string2llLoop (tl p) (ucast (hd p - 48));
          if rest \<noteq> [] then None
          else if negative then
            (if v > 0x7fffffffffffffff + 1 then None else Some (- v))
          else (if v > 0x7fffffffffffffff then None else Some v)
        }
        else if hd p = 48 \<and> length s = 1 then Some 0
        else None
      })"

definition string2l :: "bytes \<Rightarrow> i64 option" where
  "string2l s = do {
     llval \<leftarrow> string2ll s;
     if llval <s LLONG_MIN \<or> 0x7fffffffffffffff <s llval then None else Some llval
   }"

section \<open>Decimal notation\<close>

fun dec :: "nat \<Rightarrow> bytes" where
  "dec n = (if n < 10 then [48 + word_of_nat n] else dec (n div 10) @ [48 + word_of_nat (n mod 10)])"

declare dec.simps [simp del]

definition print_ll :: "i64 \<Rightarrow> bytes" where
  "print_ll v = (if v <s 0 then 45 # dec (nat (- sint v)) else dec (nat (sint v)))"


subsection \<open>Strings and numerals\<close>

lemma c_str_id: "0 \<notin> set x \<Longrightarrow> c_str x = x"
  by (auto simp: c_str_def takeWhile_eq_all_conv)

lemma dec_small: "n < 10 \<Longrightarrow> dec n = [48 + word_of_nat n]"
  by (subst dec.simps) simp

lemma dec_step: "10 \<le> n \<Longrightarrow> dec n = dec (n div 10) @ [48 + word_of_nat (n mod 10)]"
  by (subst dec.simps) simp

lemma dec_neq_Nil [simp]: "dec n \<noteq> []"
  by (cases "n < 10") (simp_all add: dec_small dec_step)

lemma length_dec_eq: "10 ^ k \<le> v \<Longrightarrow> v < 10 ^ Suc k \<Longrightarrow> length (dec v) = Suc k"
proof (induction k arbitrary: v)
  case (Suc k)
  have "10 \<le> v" using Suc.prems(1) by (simp add: order_trans [OF _ Suc.prems(1)])
  moreover have "10 ^ k \<le> v div 10" "v div 10 < 10 ^ Suc k"
    using Suc.prems by (simp_all add: less_eq_div_iff_mult_less_eq div_less_iff_less_mult mult.commute)
  ultimately show ?case using Suc.IH [of "v div 10"] by (simp add: dec_step)
qed (simp add: dec_small)

lemma length_dec_le: "v < 10 ^ Suc k \<Longrightarrow> length (dec v) \<le> Suc k"
proof (induction k arbitrary: v)
  case (Suc k)
  then show ?case
    using length_dec_eq [of "Suc k" v] by (cases "10 ^ Suc k \<le> v") (auto intro: le_SucI)
qed (simp add: dec_small)

lemma length_dec_div: "10 ^ k \<le> v \<Longrightarrow> length (dec v) = k + length (dec (v div 10 ^ k))"
proof (induction k arbitrary: v)
  case (Suc k)
  have "10 \<le> v" using Suc.prems(1) by (simp add: order_trans [OF _ Suc.prems(1)])
  moreover have "10 ^ k \<le> v div 10"
    using Suc.prems by (simp add: less_eq_div_iff_mult_less_eq mult.commute)
  ultimately show ?case using Suc.IH [of "v div 10"] by (simp add: dec_step div_mult2_eq)
qed simp

lemma digits10_correct: "digits10 v = length (dec v)"
proof (induction v rule: less_induct)
  case (less v)
  note len = length_dec_eq [of _ v]
  consider "v < 10" | "\<not> v < 10" "v < 100" | "\<not> v < 100" "v < 1000" | "\<not> v < 1000" "v < 10000"
    | "\<not> v < 10000" "v < 100000" | "\<not> v < 100000" "v < 1000000" | "\<not> v < 1000000" "v < 10000000"
    | "\<not> v < 10000000" "v < 100000000" | "\<not> v < 100000000" "v < 1000000000"
    | "\<not> v < 1000000000" "v < 10000000000" | "\<not> v < 10000000000" "v < 100000000000"
    | "\<not> v < 100000000000" "v < 1000000000000" | "\<not> v < 1000000000000" by blast
  then show ?case
  proof cases
    case 13
    then show ?thesis
      using less [of "v div 1000000000000"] length_dec_div [of 12 v] by (subst digits10.simps) simp
  next
    case 1
    then show ?thesis by (subst digits10.simps) (simp add: dec_small)
  next
    case 2
    then show ?thesis by (subst digits10.simps) (simp add: len [of 1])
  next
    case 3
    then show ?thesis by (subst digits10.simps) (simp add: len [of 2])
  next
    case 4
    then show ?thesis by (subst digits10.simps) (simp add: len [of 3])
  next
    case 5
    then show ?thesis by (subst digits10.simps) (simp add: len [of 4])
  next
    case 6
    then show ?thesis by (subst digits10.simps) (simp add: len [of 5])
  next
    case 7
    then show ?thesis by (subst digits10.simps) (simp add: len [of 6])
  next
    case 8
    then show ?thesis by (subst digits10.simps) (simp add: len [of 7])
  next
    case 9
    then show ?thesis by (subst digits10.simps) (simp add: len [of 8])
  next
    case 10
    then show ?thesis by (subst digits10.simps) (simp add: len [of 9])
  next
    case 11
    then show ?thesis by (subst digits10.simps) (simp add: len [of 10])
  next
    case 12
    then show ?thesis by (subst digits10.simps) (simp add: len [of 11])
  qed
qed

lemma digits_nth:
  assumes "k < 100"
  shows "digits ! (k * 2) = 48 + word_of_nat (k div 10)" and "digits ! (k * 2 + 1) = 48 + word_of_nat (k mod 10)"
proof -
  define f :: "nat \<Rightarrow> bytes" where "f = (\<lambda>k. [48 + word_of_nat (k div 10), 48 + word_of_nat (k mod 10)])"
  have d: "digits = concat (map f (take k [0..<100])) @ f k @ concat (map f (drop (Suc k) [0..<100]))"
    using concat_chunks_split [of k "[0..<100]" f] assms by (simp add: digits_def f_def)
  have l: "length (concat (map f (take k [0..<100]))) = k * 2"
    using length_concat_chunks [of f 2 "take k [0..<100]"] assms by (simp add: f_def)
  have "digits ! (length (concat (map f (take k [0..<100]))) + i) = f k ! i" if "i < 2" for i
    using that unfolding d nth_append_length_plus by (cases i) (simp_all add: f_def)
  from this [of 0] this [of 1]
  show "digits ! (k * 2) = 48 + word_of_nat (k div 10)" and "digits ! (k * 2 + 1) = 48 + word_of_nat (k mod 10)"
    unfolding l by (simp_all add: f_def)
qed

lemma dec_pair:
  assumes "100 \<le> v"
  shows "dec v = dec (v div 100) @ [digits ! (v mod 100 * 2), digits ! (v mod 100 * 2 + 1)]"
proof -
  have "dec v = dec (v div 10 div 10) @ [48 + word_of_nat (v div 10 mod 10), 48 + word_of_nat (v mod 10)]"
    using assms by (simp add: dec_step)
  moreover have "v div 10 mod 10 = v mod 100 div 10" "v mod 10 = v mod 100 mod 10"
    using div_mult2_eq [of v 10 10] by (auto simp: mod_mult2_eq [of v 10 10, simplified] )
  ultimately show ?thesis
    using digits_nth [of "v mod 100"] by (simp add: div_mult2_eq [of v 10 10, simplified])
qed

lemma dec_pair_small:
  assumes "10 \<le> v" and "v < 100"
  shows "dec v = [digits ! (v * 2), digits ! (v * 2 + 1)]"
  using assms digits_nth [of v] by (simp add: dec_step dec_small)

lemma ll2stringDigits_ok:
  "length Y = length (dec v) \<Longrightarrow> Suc next = length X + length Y \<Longrightarrow>
   ll2stringDigits (X @ Y @ Z) next v = Some (X @ dec v @ Z)"
proof (induction v arbitrary: Y Z "next" rule: less_induct)
  case (less v)
  consider "v < 10" | "10 \<le> v" "v < 100" | "100 \<le> v" by linarith
  then show ?case
  proof cases
    case 1
    then obtain y where "Y = [y]" using less.prems by (auto simp: dec_small length_Suc_conv)
    then show ?thesis using 1 less.prems
      by (simp add: ll2stringDigits_def ll2stringLoop.simps mem_set_append dec_small)
  next
    case 2
    then obtain y1 y2 where Y: "Y = [y1, y2]"
      using less.prems(1) by (auto simp: dec_pair_small length_Suc_conv)
    have "mem_set (Suc (length X)) b (X @ y1 # y2 # Z) = Some (X @ y1 # b # Z)" for b
      using mem_set_append [of "Suc (length X)" "X @ [y1]" b y2 Z] by simp
    then show ?thesis using 2 less.prems Y
      by (simp add: ll2stringDigits_def ll2stringLoop.simps mem_set_append dec_pair_small)
  next
    case 3
    define a b where "a = digits ! (v mod 100 * 2)" and "b = digits ! Suc (v mod 100 * 2)"
    have dv: "dec v = dec (v div 100) @ [a, b]" using dec_pair [OF 3] by (simp add: a_def b_def)
    obtain Y' y1 y2 where Y: "Y = Y' @ [y1, y2]" "length Y' = length (dec (v div 100))"
    proof -
      have l: "length Y = Suc (Suc (length (dec (v div 100))))" using less.prems(1) dv by simp
      then show ?thesis using that length_Suc2_rev [OF l] by metis
    qed
    have nx: "next = Suc (length X + length Y')" "next - 1 = length X + length Y'" "\<not> next < 2"
      using less.prems(2) Y dec_neq_Nil [of "v div 100"] by (auto simp: Suc_le_eq simp flip: length_greater_0_conv)
    have nonempty: "Y' \<noteq> []" using Y(2) dec_neq_Nil [of "v div 100"] by (metis length_0_conv)
    have "mem_set next b (X @ Y @ Z) = Some (X @ Y' @ y1 # b # Z)"
      using mem_set_append [of "next" "X @ Y' @ [y1]" b y2 Z] nx(1) Y by simp
    moreover have "mem_set (next - 1) a (X @ Y' @ y1 # b # Z) = Some (X @ Y' @ a # b # Z)"
      using mem_set_append [of "next - 1" "X @ Y'" a y1 "b # Z"] nx(2) by simp
    ultimately have "ll2stringDigits (X @ Y @ Z) next v = ll2stringDigits (X @ Y' @ a # b # Z) (next - 2) (v div 100)"
      using 3 nx(1) nonempty unfolding ll2stringDigits_def
      by (subst ll2stringLoop.simps) (simp add: Let_def flip: a_def b_def)
    also have "\<dots> = Some (X @ dec (v div 100) @ a # b # Z)"
      using nx 3 by (intro less.IH) (auto simp: Y(2))
    finally show ?thesis by (simp add: dv)
  qed
qed

lemma ll2string_value:
  fixes v :: i64
  shows "v <s 0 \<Longrightarrow> unat (if v \<noteq> LLONG_MIN then - v else 0x7fffffffffffffff + 1) = nat (- sint v)"
    and "\<not> v <s 0 \<Longrightarrow> unat v = nat (sint v)"
proof -
  show "unat v = nat (sint v)" if "\<not> v <s 0"
    using that uint_lt2p [of v] by (simp add: word_sless_alt sint_unat split: if_splits)
  show "unat (if v \<noteq> LLONG_MIN then - v else 0x7fffffffffffffff + 1) = nat (- sint v)" if "v <s 0"
  proof -
    have "v \<noteq> 0" using that by auto
    then have "unat (- v) = 2 ^ 64 - unat v" using unat_minus_nz [of v] by simp
    moreover have "(if v \<noteq> LLONG_MIN then - v else 0x7fffffffffffffff + 1) = - v" by simp
    moreover have "sint v = int (unat v) - 2 ^ 64"
      using that sint_unat [of v] by (simp add: word_sless_alt split: if_splits)
    moreover have "nat (- (int (unat v) - 2 ^ 64)) = 2 ^ 64 - unat v"
      using fun_cong [OF fun_cong [OF nat_minus_as_int], of "2 ^ 64" "unat v"] by simp
    ultimately show ?thesis by (simp only:)
  qed
qed

lemma ll2string_ok:
  assumes "length dst = dstlen"
  shows "ll2string dst dstlen v =
    Some (if length (print_ll v) \<ge> dstlen then (dst, 0)
          else (print_ll v @ 0 # drop (Suc (length (print_ll v))) dst, length (print_ll v)))"
proof -
  define n where "n = nat \<bar>sint v\<bar>"
  define neg :: nat where "neg = of_bool (v <s 0)"
  have len: "length (print_ll v) = digits10 n + neg"
    by (auto simp: print_ll_def digits10_correct word_sless_alt n_def neg_def)
  show ?thesis
  proof (cases "digits10 n + neg \<ge> dstlen")
    case True
    then show ?thesis using len ll2string_value [of v]
      by (cases "v <s 0") (simp_all add: ll2string_def n_def neg_def word_sless_alt)
  next
    case False
    define X where "X = take neg dst"
    define Y where "Y = take (digits10 n) (drop neg dst)"
    define z Z where "z = dst ! (neg + digits10 n)" and "Z = drop (Suc (neg + digits10 n)) dst"
    have dst: "dst = (X @ Y) @ z # Z" and lX: "length X = neg" and lY: "length Y = length (dec n)"
      using False assms unfolding X_def Y_def z_def Z_def digits10_correct
      by (simp_all add: min_def id_take_nth_drop [of "neg + length (dec n)" dst, symmetric] flip: take_add)
    have w: "mem_set (digits10 n + neg) 0 dst = Some (X @ Y @ 0 # Z)"
      unfolding dst by (subst mem_set_append) (simp_all add: lX lY digits10_correct)
    have d: "ll2stringDigits (X @ Y @ 0 # Z) (digits10 n + neg - 1) n = Some (X @ dec n @ 0 # Z)"
    proof (rule ll2stringDigits_ok [OF lY])
      have "0 < length (dec n)" by simp
      then show "Suc (digits10 n + neg - 1) = length X + length Y" unfolding lX lY digits10_correct by linarith
    qed
    have p: "print_ll v = (if v <s 0 then 45 # dec n else dec n)"
      by (auto simp: print_ll_def n_def word_sless_alt)
    show ?thesis
    proof (cases "v <s 0")
      case True
      then obtain x where X: "X = [x]" using lX by (auto simp: neg_def length_Suc_conv)
      have "unat (if v \<noteq> LLONG_MIN then - v else 0x7fffffffffffffff + 1) = n"
        using ll2string_value(1) [OF True] True by (simp add: n_def word_sless_alt)
      then show ?thesis
        using True False w d len p by (simp add: ll2string_def neg_def X mem_set_def Z_def)
    next
      case neg: False
      have "unat v = n" using ll2string_value(2) [OF neg] neg by (simp add: n_def word_sless_alt)
      moreover have "X = []" using lX neg by (simp add: neg_def)
      ultimately show ?thesis
        using neg False w d len p by (simp add: ll2string_def neg_def Z_def Let_def)
    qed
  qed
qed


subsection \<open>The value of a digit string\<close>

definition is_digit :: "byte \<Rightarrow> bool" where
  "is_digit c \<longleftrightarrow> 48 \<le> c \<and> c \<le> 57"

definition num_acc :: "nat \<Rightarrow> bytes \<Rightarrow> nat" where
  "num_acc a ds = foldl (\<lambda>a c. a * 10 + unat (c - 48)) a ds"

lemma num_acc_simps [simp]:
  "num_acc a [] = a" "num_acc a (c # ds) = num_acc (a * 10 + unat (c - 48)) ds"
  by (simp_all add: num_acc_def)

lemma is_digit_unat:
  assumes "is_digit c"
  shows "unat (c - 48) < 10" and "48 + word_of_nat (unat (c - 48)) = c" and "unat (ucast (c - 48) :: u64) = unat (c - 48)"
proof -
  have "unat (c - 48) = unat c - 48" "unat c \<le> 57"
    using assms by (simp_all add: is_digit_def unat_sub word_le_nat_alt)
  then show "unat (c - 48) < 10" by simp
  show "unat (ucast (c - 48) :: u64) = unat (c - 48)" by (simp add: unat_ucast_wide)
qed simp

lemma digit_of_nat:
  assumes "n < 10"
  shows "is_digit (48 + word_of_nat n)" and "unat (48 + word_of_nat n - 48 :: byte) = n"
proof -
  have "unat (word_of_nat n :: byte) = n" using assms by (intro unat_of_nat_small) simp
  moreover have "unat (48 + word_of_nat n :: byte) = 48 + n"
    using assms calculation by (subst unat_word_ariths) simp
  ultimately show "is_digit (48 + word_of_nat n)" and "unat (48 + word_of_nat n - 48 :: byte) = n"
    using assms by (simp_all add: is_digit_def word_le_nat_alt)
qed

lemma num_acc_ge: "a \<le> num_acc a ds"
proof (induction ds arbitrary: a)
  case (Cons c ds)
  have "a \<le> a * 10 + unat (c - 48)" by simp
  also have "\<dots> \<le> num_acc a (c # ds)" using Cons.IH by simp
  finally show ?case .
qed simp

lemma dec_num_acc: "0 < a \<Longrightarrow> \<forall>c\<in>set ds. is_digit c \<Longrightarrow> dec (num_acc a ds) = dec a @ ds"
proof (induction ds arbitrary: a)
  case (Cons c ds)
  note c = is_digit_unat [of c]
  have "dec (a * 10 + unat (c - 48)) = dec a @ [c]"
    using Cons.prems c by (subst dec_step) auto
  then show ?case using Cons by simp
qed simp

lemma dec_form:
  "0 < n \<Longrightarrow> \<exists>d ds. 0 < d \<and> d < 10 \<and> (\<forall>c\<in>set ds. is_digit c) \<and> n = num_acc d ds"
proof (induction n rule: less_induct)
  case (less n)
  show ?case
  proof (cases "n < 10")
    case True
    then show ?thesis using less.prems by (intro exI [of _ n] exI [of _ "[]"]) simp
  next
    case False
    then obtain d ds where d: "0 < d" "d < 10" "\<forall>c\<in>set ds. is_digit c" "n div 10 = num_acc d ds"
      using less.IH [of "n div 10"] by (auto simp: div_greater_zero_iff)
    have "num_acc d (ds @ [48 + word_of_nat (n mod 10)]) = n"
      using digit_of_nat(2) [of "n mod 10"] div_mult_mod_eq [of n 10]
      by (simp add: num_acc_def d(4) [unfolded num_acc_def, symmetric])
    then show ?thesis
      using d digit_of_nat(1) [of "n mod 10"]
      by (intro exI [of _ d] exI [of _ "ds @ [48 + word_of_nat (n mod 10)]"]) auto
  qed
qed

lemma string2llLoop_digits:
  "\<forall>c\<in>set ds. is_digit c \<Longrightarrow>
   string2llLoop ds v = (if num_acc (unat v) ds < 2 ^ 64 then Some (word_of_nat (num_acc (unat v) ds), []) else None)"
proof (induction ds arbitrary: v)
  case Nil
  then show ?case using unsigned_less [of v] by simp
next
  case (Cons c ds)
  define k where "k = unat (c - 48)"
  have k: "k < 10" "unat (ucast (c - 48) :: u64) = k" and dig: "is_digit c"
    using Cons.prems is_digit_unat [of c] by (simp_all add: k_def)
  have ge: "unat v * 10 + k \<le> num_acc (unat v) (c # ds)" using num_acc_ge by (simp add: k_def)
  have max: "unat (ULLONG_MAX div 10) = 1844674407370955161" by simp
  have mk: "unat (ULLONG_MAX - ucast (c - 48)) = 2 ^ 64 - 1 - k"
    using k by (subst unat_sub) (simp_all add: word_le_nat_alt)
  show ?case
  proof (cases "unat v * 10 + k < 2 ^ 64")
    case False
    then have "\<not> num_acc (unat v) (c # ds) < 2 ^ 64" using ge by linarith
    moreover have "string2llLoop (c # ds) v = None"
    proof (cases "v > ULLONG_MAX div 10")
      case nover: False
      then have "unat v \<le> 1844674407370955161" using max by (simp add: word_less_nat_alt not_less)
      then have "unat (v * 10) = unat v * 10" by (subst unat_word_ariths) simp
      then have "v * 10 > ULLONG_MAX - ucast (c - 48)"
        using False mk k(1) by (simp add: word_less_nat_alt)
      then show ?thesis using dig by (simp add: is_digit_def)
    qed (use dig in \<open>simp add: is_digit_def\<close>)
    ultimately show ?thesis by simp
  next
    case True
    have "unat (v * 10) = unat v * 10" using True by (subst unat_word_ariths) simp
    moreover from this have s: "unat (v * 10 + ucast (c - 48)) = unat v * 10 + k"
      using True k by (subst unat_word_ariths) simp
    ultimately have "string2llLoop (c # ds) v = string2llLoop ds (v * 10 + ucast (c - 48))"
    proof -
      have "\<not> 2 ^ 64 - 1 - k < unat v * 10" using True by simp
      moreover have "\<not> v > ULLONG_MAX div 10" using True max by (simp add: word_less_nat_alt)
      ultimately show ?thesis
        using mk dig \<open>unat (v * 10) = _\<close> by (simp add: word_less_nat_alt [of "_ - _"] is_digit_def Let_def)
    qed
    then show ?thesis using Cons s by (simp add: k_def)
  qed
qed


lemma string2llLoop_all: "string2llLoop p v = Some (w, []) \<Longrightarrow> \<forall>c\<in>set p. is_digit c"
proof (induction p arbitrary: v)
  case (Cons c p)
  have "is_digit c" using Cons.prems by (cases "48 \<le> c \<and> c \<le> 57") (simp_all add: is_digit_def)
  moreover from this obtain v' where "string2llLoop p v' = Some (w, [])"
    using Cons.prems unfolding string2llLoop.simps Let_def is_digit_def
    by (simp only: if_True option.distinct simp_thms split: if_splits)
  ultimately show ?case using Cons.IH by simp
qed simp

lemma digit_char:
  assumes "0 < d" and "d < 10"
  shows "48 + word_of_nat d \<noteq> (45 :: byte)" "48 + word_of_nat d \<noteq> (48 :: byte)"
    "(49 :: byte) \<le> 48 + word_of_nat d" "48 + word_of_nat d \<le> (57 :: byte)"
    "unat (ucast (48 + word_of_nat d - 48 :: byte) :: u64) = d"
proof -
  have u: "unat (word_of_nat d :: byte) = d" using assms by (intro unat_of_nat_small) simp
  have w: "unat (48 + word_of_nat d :: byte) = 48 + d"
    using assms u by (subst unat_word_ariths) simp
  show "48 + word_of_nat d \<noteq> (45 :: byte)" "48 + word_of_nat d \<noteq> (48 :: byte)"
    using w assms arg_cong [of "48 + word_of_nat d :: byte" _ unat] by fastforce+
  show "(49 :: byte) \<le> 48 + word_of_nat d" "48 + word_of_nat d \<le> (57 :: byte)"
    unfolding word_le_nat_alt w using assms by simp_all
  show "unat (ucast (48 + word_of_nat d - 48 :: byte) :: u64) = d"
    using u by (simp add: unat_ucast_wide)
qed

lemma word_of_nat_le_iff: "n < 2 ^ 64 \<Longrightarrow> (k :: u64) < word_of_nat n \<longleftrightarrow> unat k < n"
  by (simp add: word_less_nat_alt unat_of_nat_small)

lemma string2ll_digits:
  assumes d: "0 < d" "d < 10" and ds: "\<forall>c\<in>set ds. is_digit c"
  shows "string2ll ((48 + word_of_nat d) # ds) =
      (if num_acc d ds < 2 ^ 63 then Some (word_of_nat (num_acc d ds)) else None)"
    and "string2ll (45 # (48 + word_of_nat d) # ds) =
      (if num_acc d ds \<le> 2 ^ 63 then Some (- word_of_nat (num_acc d ds)) else None)"
proof -
  note c = digit_char [OF d]
  have loop: "string2llLoop ds (ucast (48 + word_of_nat d - 48 :: byte)) =
      (if num_acc d ds < 2 ^ 64 then Some (word_of_nat (num_acc d ds), []) else None)"
    unfolding string2llLoop_digits [OF ds] c(5) ..
  show "string2ll ((48 + word_of_nat d) # ds) =
      (if num_acc d ds < 2 ^ 63 then Some (word_of_nat (num_acc d ds)) else None)"
    using c(1-4) loop word_of_nat_le_iff [of "num_acc d ds" "0x7fffffffffffffff"]
    by (simp add: string2ll_def del: add_diff_cancel_left')
  show "string2ll (45 # (48 + word_of_nat d) # ds) =
      (if num_acc d ds \<le> 2 ^ 63 then Some (- word_of_nat (num_acc d ds)) else None)"
    using c(1-4) loop word_of_nat_le_iff [of "num_acc d ds" "0x8000000000000000"]
    by (simp add: string2ll_def del: add_diff_cancel_left')
qed

lemma string2ll_form:
  assumes "string2ll s = Some v"
  obtains "s = [48]" "v = 0"
    | d ds where "0 < d" "d < 10" "\<forall>c\<in>set ds. is_digit c" "s = (48 + word_of_nat d) # ds"
    | d ds where "0 < d" "d < 10" "\<forall>c\<in>set ds. is_digit c" "s = 45 # (48 + word_of_nat d) # ds"
proof (cases "s = [48]")
  case True
  then show ?thesis using assms that(1) by (simp add: string2ll_def)
next
  case False
  define p where "p = (if hd s = 45 then tl s else s)"
  have s: "s \<noteq> []" using assms by (auto simp: string2ll_def)
  have hd_single: "\<not> (p \<noteq> [] \<and> hd p = 48 \<and> length s = Suc 0)"
    using False s by (cases s) (auto simp: p_def)
  have p: "p \<noteq> []" "hd p \<ge> 49" "hd p \<le> 57" and loop: "\<exists>w. string2llLoop (tl p) (ucast (hd p - 48)) = Some (w, [])"
    using assms s False hd_single unfolding string2ll_def Let_def p_def [symmetric]
    by (auto simp: bind_eq_Some_conv split: if_splits)
  define d where "d = unat (hd p - 48)"
  have hd: "is_digit (hd p)" using p by (auto simp: is_digit_def word_le_nat_alt)
  have d: "0 < d" "d < 10" "48 + word_of_nat d = hd p"
    using is_digit_unat [OF hd] p(2) by (auto simp: d_def word_le_nat_alt unat_gt_0)
  have ds: "\<forall>c\<in>set (tl p). is_digit c" using loop string2llLoop_all by blast
  have pd: "p = (48 + word_of_nat d) # tl p" using p(1) d(3) by simp
  show ?thesis
  proof (cases "hd s = 45")
    case True
    then have "s = 45 # p" using s by (cases s) (simp_all add: p_def)
    then show ?thesis using that(3) [OF d(1,2) ds] pd by simp
  next
    case False
    then have "s = p" by (simp add: p_def)
    then show ?thesis using that(2) [OF d(1,2) ds] pd by simp
  qed
qed

lemma print_ll_of_nat:
  assumes "0 < n"
  shows "n < 2 ^ 63 \<Longrightarrow> print_ll (word_of_nat n) = dec n"
    and "n \<le> 2 ^ 63 \<Longrightarrow> print_ll (- word_of_nat n) = 45 # dec n"
proof -
  show "print_ll (word_of_nat n) = dec n" if "n < 2 ^ 63"
    using that sint_of_nat_small [of n, where 'a = 64] by (simp add: print_ll_def word_sless_alt)
  show "print_ll (- word_of_nat n) = 45 # dec n" if "n \<le> 2 ^ 63"
  proof -
    have "sint (- word_of_nat n :: i64) = - int n"
      using sint_word_of_int_small [of "- int n", where 'a = 64] that by simp
    then show ?thesis using assms by (simp add: print_ll_def word_sless_alt)
  qed
qed

lemma string2ll_print: "string2ll (print_ll v) = Some v"
proof -
  consider "v = 0" | "0 < sint v" | "sint v < 0" by (metis linorder_neqE_linordered_idom sint_0 signed_word_eqI)
  then show ?thesis
  proof cases
    case 1
    then show ?thesis by (simp add: print_ll_def dec_small string2ll_def)
  next
    case 2
    then obtain d ds where d: "0 < d" "d < 10" "\<forall>c\<in>set ds. is_digit c" and n: "nat (sint v) = num_acc d ds"
      using dec_form [of "nat (sint v)"] by auto
    have lt: "nat (sint v) < 2 ^ 63" using sint_lt [of v] by simp
    have "print_ll v = (48 + word_of_nat d) # ds"
      using 2 dec_num_acc [OF d(1,3)] d(2) n by (simp add: print_ll_def word_sless_alt dec_small)
    moreover have "word_of_nat (num_acc d ds) = v" using 2 by (simp flip: n)
    ultimately show ?thesis using string2ll_digits(1) [OF d] lt n by simp
  next
    case 3
    then obtain d ds where d: "0 < d" "d < 10" "\<forall>c\<in>set ds. is_digit c" and n: "nat (- sint v) = num_acc d ds"
      using dec_form [of "nat (- sint v)"] by auto
    have le: "nat (- sint v) \<le> 2 ^ 63" using sint_ge [of v] by simp
    have "print_ll v = 45 # (48 + word_of_nat d) # ds"
      using 3 dec_num_acc [OF d(1,3)] d(2) n by (simp add: print_ll_def word_sless_alt dec_small)
    moreover have "- word_of_nat (num_acc d ds) = v" using 3 by (simp flip: n)
    ultimately show ?thesis using string2ll_digits(2) [OF d] le n by simp
  qed
qed

lemma print_string2ll:
  assumes "string2ll s = Some v"
  shows "s = print_ll v"
  using assms
proof (rule string2ll_form)
  fix d :: nat and ds
  assume d: "0 < d" "d < 10" "\<forall>c\<in>set ds. is_digit c"
  have n: "0 < num_acc d ds" using num_acc_ge [of d ds] d(1) by linarith
  have dec: "dec (num_acc d ds) = (48 + word_of_nat d) # ds" using dec_num_acc [OF d(1,3)] d(2) by (simp add: dec_small)
  show "s = print_ll v" if "s = (48 + word_of_nat d) # ds"
    using assms string2ll_digits(1) [OF d] print_ll_of_nat(1) [OF n] dec that by (auto split: if_splits)
  show "s = print_ll v" if "s = 45 # (48 + word_of_nat d) # ds"
    using assms string2ll_digits(2) [OF d] print_ll_of_nat(2) [OF n] dec that by (auto split: if_splits)
qed (simp add: print_ll_def dec_small)

section \<open>Properties\<close>

text \<open>Property C20.  The parser of integers accepts exactly the canonical decimal notation of the
  64 bit signed integers, and returns the integer denoted: no leading zero or plus sign, no minus
  zero, nothing after the digits, and no value outside the range is accepted.\<close>

theorem string2ll_canonical: "string2ll s = Some v \<longleftrightarrow> s = print_ll v"
  using string2ll_print print_string2ll by blast

text \<open>Property C35.  Printing a 64 bit integer never writes outside a buffer of the given size: when
  the text and its terminator do not fit, the buffer is untouched and the result is zero,
  otherwise the buffer starts with the decimal text and a terminator, the rest is unchanged, and
  the text parses back to the integer.\<close>

theorem ll2string_roundtrip:
  assumes "length dst = dstlen"
  shows "\<exists>dst' n. ll2string dst dstlen v = Some (dst', n) \<and>
    (if length (print_ll v) \<ge> dstlen then dst' = dst \<and> n = 0
     else n = length (print_ll v) \<and> dst' = print_ll v @ 0 # drop (Suc n) dst \<and>
       string2ll (take n dst') = Some v)"
  using ll2string_ok [OF assms, of v] string2ll_print [of v] by simp

theorem ll2string_roundtrip_witness:
  "\<exists>dst' n. ll2string (replicate 6 7) 6 (- 123) = Some (dst', n) \<and> n = 4 \<and>
     dst' = [45, 49, 50, 51, 0, 7] \<and> string2ll (take n dst') = Some (- 123)"
proof -
  have "print_ll (- 123) = [45, 49, 50, 51]" by (simp add: print_ll_def word_sless_alt dec.simps)
  then show ?thesis using ll2string_roundtrip [of "replicate 6 7" 6 "- 123"] by auto
qed

end
