(* ===== verification/DictTypes.thy ===== *)
theory DictTypes
  imports Dict Util
begin

unbundle bit_operations_syntax

text \<open>
  The hash functions of \<open>dict.c\<close> and the dictionary types that
  \<open>redis.c\<close> builds from them: keys are SDS strings (the keyspace, the
  expires, the command table) or string objects that are either raw or integer
  encoded (sets, sorted sets, hashes).  The types are shown to satisfy the
  contract \<open>dict_type\<close> that every guarantee about dictionaries rests on; the
  guarantees follow.
\<close>

section \<open>Hash functions\<close>

definition dictIntHashFunction :: "u32 \<Rightarrow> u32" where
  "dictIntHashFunction key =
     (let key = key + NOT (push_bit 15 key);
          key = key XOR drop_bit 10 key;
          key = key + push_bit 3 key;
          key = key XOR drop_bit 6 key;
          key = key + NOT (push_bit 11 key);
          key = key XOR drop_bit 16 key
      in key)"

text \<open>The mixing constant \<open>m\<close>.  The loop takes four bytes, read as a little-endian
  word, at a time; \<open>seed\<close> is \<open>dict_hash_function_seed\<close>.\<close>

abbreviation (input) murmur_m :: u32 where
  "murmur_m \<equiv> 0x5bd1e995"

fun genHashLoop :: "bytes \<Rightarrow> u32 \<Rightarrow> u32 \<times> bytes" where
  "genHashLoop (b0 # b1 # b2 # b3 # data) h =
     (let k = ucast (le_word [b0, b1, b2, b3]);
          k = k * murmur_m;
          k = k XOR drop_bit 24 k;
          k = k * murmur_m;
          h = h * murmur_m;
          h = h XOR k
      in genHashLoop data h)"
| "genHashLoop data h = (h, data)"

fun genHashTail :: "bytes \<Rightarrow> u32 \<Rightarrow> u32" where
  "genHashTail [d0, d1, d2] h = (((h XOR push_bit 16 (ucast d2)) XOR push_bit 8 (ucast d1)) XOR ucast d0) * murmur_m"
| "genHashTail [d0, d1] h = ((h XOR push_bit 8 (ucast d1)) XOR ucast d0) * murmur_m"
| "genHashTail [d0] h = (h XOR ucast d0) * murmur_m"
| "genHashTail _ h = h"

definition dictGenHashFunction :: "u32 \<Rightarrow> bytes \<Rightarrow> u32" where
  "dictGenHashFunction seed key =
     (let (h, data) = genHashLoop key (seed XOR word_of_nat (length key));
          h = genHashTail data h;
          h = h XOR drop_bit 13 h;
          h = h * murmur_m;
          h = h XOR drop_bit 15 h
      in h)"

fun genCaseHashLoop :: "bytes \<Rightarrow> u32 \<Rightarrow> u32" where
  "genCaseHashLoop [] hash = hash"
| "genCaseHashLoop (c # buf) hash = genCaseHashLoop buf ((push_bit 5 hash + hash) + ucast (tolower c))"

definition dictGenCaseHashFunction :: "u32 \<Rightarrow> bytes \<Rightarrow> u32" where
  "dictGenCaseHashFunction seed buf = genCaseHashLoop buf seed"


section \<open>Comparison and hashing of keys\<close>

definition dictSdsKeyCompare :: "bytes \<Rightarrow> bytes \<Rightarrow> bool" where
  "dictSdsKeyCompare key1 key2 =
     (let l1 = length key1; l2 = length key2 in
      if l1 \<noteq> l2 then False else take l1 key1 = take l1 key2)"

definition dictSdsKeyCaseCompare :: "bytes \<Rightarrow> bytes \<Rightarrow> bool" where
  "dictSdsKeyCaseCompare key1 key2 = strcaseeq key1 key2"

definition dictSdsHash :: "u32 \<Rightarrow> bytes \<Rightarrow> u32" where
  "dictSdsHash seed key = dictGenHashFunction seed key"

definition dictSdsCaseHash :: "u32 \<Rightarrow> bytes \<Rightarrow> u32" where
  "dictSdsCaseHash seed key = dictGenCaseHashFunction seed key"

text \<open>
  A string object: its encoding and, in \<open>ptr\<close>, either an SDS string or the
  integer itself.
\<close>

datatype strobj = RawString bytes | EmbstrString bytes | IntString i64

definition sdsEncodedObject :: "strobj \<Rightarrow> bool" where
  "sdsEncodedObject o1 = (case o1 of IntString _ \<Rightarrow> False | _ \<Rightarrow> True)"

text \<open>The bytes that \<open>ll2string\<close> leaves in a 32 byte buffer in front of the terminator.\<close>

definition ll2string_buf :: "i64 \<Rightarrow> bytes" where
  "ll2string_buf v = (case ll2string (replicate 32 0) 32 v of Some (buf, len) \<Rightarrow> take len buf | None \<Rightarrow> [])"

definition getDecodedObject :: "strobj \<Rightarrow> bytes" where
  "getDecodedObject o1 = (case o1 of RawString s \<Rightarrow> s | EmbstrString s \<Rightarrow> s | IntString v \<Rightarrow> ll2string_buf v)"

definition dictObjKeyCompare :: "bytes \<Rightarrow> bytes \<Rightarrow> bool" where
  "dictObjKeyCompare o1 o2 = dictSdsKeyCompare o1 o2"

definition dictEncObjKeyCompare :: "strobj \<Rightarrow> strobj \<Rightarrow> bool" where
  "dictEncObjKeyCompare o1 o2 =
     (case (o1, o2) of
        (IntString a, IntString b) \<Rightarrow> a = b
      | _ \<Rightarrow> dictSdsKeyCompare (getDecodedObject o1) (getDecodedObject o2))"

definition dictEncObjHash :: "u32 \<Rightarrow> strobj \<Rightarrow> u32" where
  "dictEncObjHash seed o1 =
     (case o1 of
        RawString s \<Rightarrow> dictGenHashFunction seed s
      | EmbstrString s \<Rightarrow> dictGenHashFunction seed s
      | IntString v \<Rightarrow> dictGenHashFunction seed (ll2string_buf v))"

section \<open>The dictionary types\<close>

definition setDictType :: "u32 \<Rightarrow> (strobj, 'v) dictType" where
  "setDictType seed = \<lparr>hashFunction = dictEncObjHash seed, keyDup = None, valDup = None,
     keyCompare = Some dictEncObjKeyCompare\<rparr>"

definition dbDictType :: "u32 \<Rightarrow> (bytes, 'v) dictType" where
  "dbDictType seed = \<lparr>hashFunction = dictSdsHash seed, keyDup = None, valDup = None,
     keyCompare = Some dictSdsKeyCompare\<rparr>"

definition commandTableDictType :: "u32 \<Rightarrow> (bytes, 'v) dictType" where
  "commandTableDictType seed = \<lparr>hashFunction = dictSdsCaseHash seed, keyDup = None, valDup = None,
     keyCompare = Some dictSdsKeyCaseCompare\<rparr>"

lemma dictSdsKeyCompare_eq [simp]: "dictSdsKeyCompare a b \<longleftrightarrow> a = b"
  by (auto simp: dictSdsKeyCompare_def Let_def)

lemma print_ll_length_bound: "length (print_ll v) \<le> 20"
proof -
  have "length (dec n) \<le> Suc 18" if "n \<le> 2 ^ 63" for n
    using that by (intro length_dec_le) simp
  moreover have "nat (- sint v) \<le> 2 ^ 63" "nat (sint v) \<le> 2 ^ 63"
    using sint_ge [of v] sint_lt [of v] by simp_all
  ultimately have "length (dec (nat (- sint v))) \<le> 19" "length (dec (nat (sint v))) \<le> 19" by simp_all
  then show ?thesis by (simp add: print_ll_def)
qed

lemma ll2string_buf_eq [simp]: "ll2string_buf v = print_ll v"
  using ll2string_ok [of "replicate 32 0" 32 v] print_ll_length_bound [of v] by (simp add: ll2string_buf_def)

lemma print_ll_inject [simp]: "print_ll a = print_ll b \<longleftrightarrow> a = b"
  using string2ll_print by (metis option.inject)

lemma dictEncObjKeyCompare_eq: "dictEncObjKeyCompare a b \<longleftrightarrow> getDecodedObject a = getDecodedObject b"
  by (auto simp: dictEncObjKeyCompare_def getDecodedObject_def split: strobj.splits)

lemma dictEncObjHash_eq: "dictEncObjHash seed a = dictGenHashFunction seed (getDecodedObject a)"
  by (simp add: dictEncObjHash_def getDecodedObject_def split: strobj.splits)

interpretation db_type: dict_type "dbDictType seed :: (bytes, 'v) dictType" for seed
  by unfold_locales (auto simp: dictCompareKeys_def dictSetKey_def dbDictType_def)

interpretation set_type: dict_type "setDictType seed :: (strobj, 'v) dictType" for seed
  by unfold_locales
     (auto simp: dictCompareKeys_def dictSetKey_def setDictType_def dictEncObjKeyCompare_eq dictEncObjHash_eq)

section \<open>Properties\<close>

text \<open>Property C1.  Any sequence of \<open>dictAdd\<close>, \<open>dictReplace\<close>, \<open>dictDelete\<close> and
  \<open>dictFetchValue\<close> on a new dictionary, with resizing switched on and off, table resizes and
  rehashing steps at arbitrary points in between, never fails an assertion or leaves a table, and
  every call returns what it returns on the mathematical map with keys up to the comparison of
  the dictionary type.\<close>

theorem dict_refines_map:
  assumes "dict_type ty" and "length ops \<le> 2 ^ 30"
  shows "\<exists>s. run_map_ops (dict_ops uninit) ops \<lparr>dict_can_resize = cr, the_dict = dictCreate ty\<rparr> =
      Some (s, snd (spec_map_ops (dictCompareKeys ty) (dictSetVal ty) ops Map.empty)) \<and> dict_ok (the_dict s)"
  using dict_type.run_ops_create [OF assms] by blast

theorem dict_refines_map_witness:
  "\<exists>s. run_map_ops (dict_ops 0) [MAdd [97] (1 :: nat), MReplace [98] 2, MMaint 3, MAdd [97] 5, MDelete [98], MFetch [97]]
     \<lparr>dict_can_resize = True, the_dict = dictCreate (dbDictType 5381)\<rparr> =
     Some (s, [RBool True, RBool True, RDone, RBool False, RBool True, RVal (Some 1)]) \<and> dict_ok (the_dict s)"
proof -
  have "dictCompareKeys (dbDictType 5381 :: (bytes, nat) dictType) = (=)" "dictSetVal (dbDictType 5381 :: (bytes, nat) dictType) = id"
    by (auto simp: dictCompareKeys_def dictSetVal_def dbDictType_def fun_eq_iff)
  then show ?thesis
    using dict_refines_map [OF db_type.dict_type_axioms,
      of "[MAdd [97] 1, MReplace [98] 2, MMaint 3, MAdd [97] 5, MDelete [98], MFetch [97]]" "0 :: nat" True 5381]
    by (simp add: upd_key_def)
qed

text \<open>Property C16.  A call of \<open>dictRehash\<close> with a positive number of steps on a well-formed
  dictionary succeeds, keeps the dictionary well-formed and keeps its entries as a multiset, so
  that every lookup has the same result; it reports exactly whether rehashing is still going on.\<close>

theorem dictRehash_preserves:
  assumes "dict_type ty" and "dict_ok d" and "d_type d = ty" and "0 < n"
  shows "\<exists>d' more. dictRehash d n = Some (d', more) \<and> dict_ok d' \<and> more = dictIsRehashing d' \<and>
    mset (dict_entries d') = mset (dict_entries d) \<and> dict_map d' = dict_map d"
proof -
  obtain d' more where d': "dictRehash d n = Some (d', more)" "dict_ok d'" "same_entries d d'" "more = dictIsRehashing d'"
    using dict_type.dictRehash_ok [OF assms] by blast
  then show ?thesis
    using dict_type.same_entries_map [OF assms(1-3) d'(3)] by (auto simp: same_entries_def)
qed

text \<open>Property C26.  The timed rehashing loop returns whatever the clock does, keeps the entries, and
  leaves the dictionary still rehashing only when a reading of the clock was past the limit.\<close>

theorem dictRehashMilliseconds_returns:
  assumes "dict_type ty" and "dict_ok d" and "d_type d = ty"
  shows "\<exists>d' r. dictRehashMilliseconds clock d ms = Some (d', r) \<and> dict_ok d' \<and>
    mset (dict_entries d') = mset (dict_entries d) \<and>
    (dictIsRehashing d' \<longrightarrow> (\<exists>j>0. clock j - clock 0 > ms))"
  using dict_type.dictRehashMillisecondsLoop_ok [OF assms, of clock ms 0 0]
  by (auto simp: dictRehashMilliseconds_def same_entries_def)

text \<open>
  Integer encoded and raw string objects are the same key exactly when their texts agree, and
  hash as that text.
\<close>

lemma dictEncObj_keys_agree:
  "(dictEncObjKeyCompare a b \<longleftrightarrow> getDecodedObject a = getDecodedObject b) \<and>
   dictEncObjHash seed a = dictSdsHash seed (getDecodedObject a)"
  by (simp add: dictEncObjKeyCompare_eq dictEncObjHash_eq dictSdsHash_def)

definition dict_ex :: "(bytes, nat) dict" where
  "dict_ex = \<lparr>d_type = dbDictType 5381,
     d_ht0 = \<lparr>ht_table = Some [[], [], [], [\<lparr>de_key = [97], de_val = 1\<rparr>]], ht_size = 4, ht_sizemask = 3, ht_used = 1\<rparr>,
     d_ht1 = \<lparr>ht_table = Some (replicate 8 []), ht_size = 8, ht_sizemask = 7, ht_used = 0\<rparr>,
     d_rehashidx = 0, d_iterators = 0\<rparr>"

lemma dict_ex_hash: "dictSdsHash 5381 [97] = 1129337475"
  by code_simp

lemma dict_ex_ok: "dict_ok dict_ex" "d_type dict_ex = dbDictType 5381" "dict_map dict_ex [97] = Some 1"
proof -
  have r: "{0..<Suc (Suc (Suc (Suc 0)))} = {0, 1, 2, 3}" by auto
  have "\<exists>k\<in>{0..31}. Suc (Suc (Suc (Suc 0))) = 2 ^ k" by (rule bexI [of _ 2]) simp_all
  then have h0: "ht_ok (dbDictType 5381) (d_ht0 dict_ex)"
    by (simp add: ht_ok_def dict_ex_def r bucket_idx_def dbDictType_def dict_ex_hash)
  have h1: "ht_ok (dbDictType 5381) (d_ht1 dict_ex)"
    using db_type.fresh_table_ok [of 3 5381] by (simp add: dict_ex_def)
  show "d_type dict_ex = dbDictType 5381" by (simp add: dict_ex_def)
  show "dict_map dict_ex [97] = Some 1"
    by (simp add: dict_ex_def dict_map_def dict_entries_def ht_entries_def entries_get_def dictCompareKeys_def dbDictType_def)
  show "dict_ok dict_ex"
    using h0 h1 by (simp add: dict_ok_def dict_ex_def dict_entries_def ht_entries_def distinct_keys_def dictIsRehashing_def)
qed

theorem dictRehash_preserves_witness:
  "\<exists>d' more. dictRehash dict_ex 10 = Some (d', more) \<and> dict_ok d' \<and> more = dictIsRehashing d' \<and>
     dict_map d' [97] = Some 1"
  using dictRehash_preserves [OF db_type.dict_type_axioms dict_ex_ok(1,2), of 10] dict_ex_ok(3) by auto

theorem dictRehashMilliseconds_returns_witness:
  "\<exists>d' r. dictRehashMilliseconds (\<lambda>_. 0) dict_ex 1 = Some (d', r) \<and> dict_ok d' \<and> \<not> dictIsRehashing d'"
  using dictRehashMilliseconds_returns [OF db_type.dict_type_axioms dict_ex_ok(1,2), of "\<lambda>_. 0" 1] by auto

text \<open>
  The least power of two that is at least 4 and the requested size.
\<close>

lemma dictNextPower_least:
  assumes "sz < 2 ^ 63 - 1"
  shows "\<exists>k. dictNextPower sz = Some (2 ^ k) \<and> sz \<le> 2 ^ k \<and> 2 \<le> k \<and> k \<le> 63 \<and>
    (\<forall>j. 2 \<le> j \<and> sz \<le> 2 ^ j \<longrightarrow> k \<le> j)"
proof -
  obtain k where k: "2 \<le> k" "dictNextPowerLoop (2 ^ 2) sz = Some (2 ^ k)" "sz \<le> 2 ^ k" "k = 2 \<or> 2 ^ (k - 1) < sz"
    using db_type.dictNextPowerLoop_spec [of 2 sz] by blast
  have least: "k \<le> j" if "2 \<le> j" "sz \<le> 2 ^ j" for j
  proof (cases "k = 2")
    case False
    then have "(2 :: nat) ^ (k - 1) < 2 ^ j" using k(4) that(2) by linarith
    then have "k - 1 < j" by (rule power_less_imp_less_exp [rotated]) simp
    then show ?thesis by simp
  qed (use that in simp)
  have "k \<le> 63" by (rule least) (use assms in simp_all)
  moreover have "dictNextPower sz = Some (2 ^ k)" using k(2) assms by (simp add: dictNextPower_def)
  ultimately show ?thesis using k least by blast
qed

text \<open>For a request of \<open>LONG_MAX\<close> or more the computed size is \<open>LONG_MAX\<close>
  itself, which is not a power of two, although the index mask of a table presupposes one.\<close>

lemma dictNextPower_saturates:
  assumes "2 ^ 63 - 1 \<le> sz"
  shows "dictNextPower sz = Some (2 ^ 63 - 1) \<and> (\<forall>k. (2 :: nat) ^ k \<noteq> 2 ^ 63 - 1)"
proof -
  have "(2 :: nat) ^ k \<noteq> 2 ^ 63 - 1" for k
  proof (cases k)
    case (Suc j)
    then have "even ((2 :: nat) ^ k)" by simp
    moreover have "odd (2 ^ 63 - 1 :: nat)" by simp
    ultimately show ?thesis by metis
  qed simp
  then show ?thesis using assms by (simp add: dictNextPower_def)
qed

lemma genCaseHashLoop_cong: "map tolower x = map tolower y \<Longrightarrow> genCaseHashLoop x h = genCaseHashLoop y h"
proof (induction x arbitrary: y h)
  case (Cons v x)
  from Cons.prems obtain u ys where y: "y = u # ys" "tolower v = tolower u" "map tolower x = map tolower ys"
    by (cases y) simp_all
  show ?case unfolding y(1,2) genCaseHashLoop.simps by (rule Cons.IH [OF y(3)])
qed simp

lemma case_nul_example:
  "dictSdsKeyCaseCompare [103, 101, 116] [71, 69, 84, 0]"
  "dictSdsCaseHash 5381 [103, 101, 116] \<noteq> dictSdsCaseHash 5381 [71, 69, 84, 0]"
proof -
  show "dictSdsKeyCaseCompare [103, 101, 116] [71, 69, 84, 0]"
    by (simp add: dictSdsKeyCaseCompare_def strcaseeq_def c_str_def tolower_def)
  have "dictSdsCaseHash 5381 [103, 101, 116] = 193492613" by code_simp
  moreover have "dictSdsCaseHash 5381 [71, 69, 84, 0] = 2090288933" by code_simp
  ultimately show "dictSdsCaseHash 5381 [103, 101, 116] \<noteq> dictSdsCaseHash 5381 [71, 69, 84, 0]" by simp
qed

text \<open>
  The case-insensitive key types agree with their hash on keys without NUL bytes and disagree
  with it on keys that differ after a NUL.
\<close>

lemma dictSdsCase_keys:
  "(0 \<notin> set a \<and> 0 \<notin> set b \<longrightarrow>
      (dictSdsKeyCaseCompare a b \<longleftrightarrow> map tolower a = map tolower b) \<and>
      (dictSdsKeyCaseCompare a b \<longrightarrow> dictSdsCaseHash seed a = dictSdsCaseHash seed b)) \<and>
   dictSdsKeyCaseCompare [103, 101, 116] [71, 69, 84, 0] \<and>
   dictSdsCaseHash 5381 [103, 101, 116] \<noteq> dictSdsCaseHash 5381 [71, 69, 84, 0]"
proof -
  have h: "dictSdsCaseHash seed x = dictSdsCaseHash seed y" if "map tolower x = map tolower y" for x y
    using genCaseHashLoop_cong [OF that] by (simp add: dictSdsCaseHash_def dictGenCaseHashFunction_def)
  have "dictSdsKeyCaseCompare a b \<longleftrightarrow> map tolower a = map tolower b" if "0 \<notin> set a" "0 \<notin> set b"
    unfolding dictSdsKeyCaseCompare_def strcaseeq_def c_str_id [OF that(1)] c_str_id [OF that(2)] ..
  then show ?thesis using h [of a b] case_nul_example by blast
qed

end
