(* ===== verification/DictScan.thy ===== *)
theory DictScan
  imports DictTypes
begin

unbundle bit_operations_syntax

text \<open>
  The cursor scan of \<open>dict.c\<close>.  A call takes a cursor and emits the entries of
  one bucket of the smaller table and of its expansions in the larger one; the
  next cursor increments the bit-reversed cursor.  Cursors are 64 bit words.
  The callback is the list of the entries it is called on.  The logging of the
  cursor does not appear.
\<close>

section \<open>Definitions\<close>

fun revLoop :: "nat \<Rightarrow> u64 \<Rightarrow> u64 \<Rightarrow> u64" where
  "revLoop s msk v =
     (let s = s div 2 in
      if s > 0 then
        let msk = msk XOR push_bit s msk;
            v = (drop_bit s v AND msk) OR (push_bit s v AND NOT msk)
        in revLoop s msk v
      else v)"

declare revLoop.simps [simp del]

definition rev_bits :: "u64 \<Rightarrow> u64" where
  "rev_bits v = revLoop 64 (NOT 0) v"

text \<open>The loop over the expansions in the larger table \<open>t1\<close>.\<close>

partial_function (option) scanExpand ::
    "('k, 'v) dictht \<Rightarrow> u64 \<Rightarrow> u64 \<Rightarrow> u64 \<Rightarrow> ('k, 'v) chain \<Rightarrow> (u64 \<times> ('k, 'v) chain) option" where
  "scanExpand t1 m0 m1 v emitted = do {
     c \<leftarrow> bucket_get t1 (unat (v AND m1));
     let v = (((v OR m0) + 1) AND NOT m0) OR (v AND m0);
     if v AND (m0 XOR m1) \<noteq> 0 then scanExpand t1 m0 m1 v (emitted @ c)
     else Some (v, emitted @ c)
   }"

declare scanExpand.simps [code]

definition scanNext :: "u64 \<Rightarrow> u64 \<Rightarrow> u64" where
  "scanNext m0 v = rev_bits (rev_bits (v OR NOT m0) + 1)"

definition dictScan :: "('k, 'v) dict \<Rightarrow> u64 \<Rightarrow> (u64 \<times> ('k, 'v) chain) option" where
  "dictScan d v =
     (if dictSize d = 0 then Some (0, [])
      else if \<not> dictIsRehashing d then do {
        let m0 = word_of_nat (ht_sizemask (d_ht0 d));
        c \<leftarrow> bucket_get (d_ht0 d) (unat (v AND m0));
        Some (scanNext m0 v, c)
      }
      else do {
        let (t0, t1) = (if ht_size (d_ht0 d) > ht_size (d_ht1 d) then (d_ht1 d, d_ht0 d) else (d_ht0 d, d_ht1 d));
        let m0 = word_of_nat (ht_sizemask t0);
        let m1 = word_of_nat (ht_sizemask t1);
        c \<leftarrow> bucket_get t0 (unat (v AND m0));
        (v, emitted) \<leftarrow> scanExpand t1 m0 m1 v c;
        Some (scanNext m0 v, emitted)
      })"

section \<open>Bit reversal\<close>

definition swap_step :: "nat \<Rightarrow> u64 \<Rightarrow> u64 \<Rightarrow> u64" where
  "swap_step s m v = (drop_bit s v AND m) OR (push_bit s v AND NOT m)"

lemma bit_swap_step:
  assumes m: "\<forall>i<64. bit m i \<longleftrightarrow> even (i div s)" and s: "0 < s" and i: "i < 64"
  shows "bit (swap_step s m v) i \<longleftrightarrow> bit v (if even (i div s) then i + s else i - s)"
proof (cases "even (i div s)")
  case True
  then show ?thesis using m i by (simp add: swap_step_def bit_simps add.commute)
next
  case False
  then have "s \<le> i" using s by (metis div_less even_zero not_less)
  then show ?thesis using False m i by (simp add: swap_step_def bit_simps)
qed

lemma revLoop_step:
  "0 < s div 2 \<Longrightarrow> m XOR push_bit (s div 2) m = m' \<Longrightarrow>
   revLoop s m v = revLoop (s div 2) m' (swap_step (s div 2) m' v)"
  by (subst revLoop.simps) (simp add: Let_def swap_step_def)

lemma rev_bits_steps:
  "rev_bits v = swap_step 1 0x5555555555555555 (swap_step 2 0x3333333333333333 (swap_step 4 0x0F0F0F0F0F0F0F0F
     (swap_step 8 0x00FF00FF00FF00FF (swap_step 16 0x0000FFFF0000FFFF (swap_step 32 0x00000000FFFFFFFF v)))))"
proof -
  have m: "NOT 0 XOR push_bit 32 (NOT 0) = (0x00000000FFFFFFFF :: u64)"
    "0x00000000FFFFFFFF XOR push_bit 16 0x00000000FFFFFFFF = (0x0000FFFF0000FFFF :: u64)"
    "0x0000FFFF0000FFFF XOR push_bit 8 0x0000FFFF0000FFFF = (0x00FF00FF00FF00FF :: u64)"
    "0x00FF00FF00FF00FF XOR push_bit 4 0x00FF00FF00FF00FF = (0x0F0F0F0F0F0F0F0F :: u64)"
    "0x0F0F0F0F0F0F0F0F XOR push_bit 2 0x0F0F0F0F0F0F0F0F = (0x3333333333333333 :: u64)"
    "0x3333333333333333 XOR push_bit 1 0x3333333333333333 = (0x5555555555555555 :: u64)"
    by code_simp+
  have d: "64 div 2 = (32 :: nat)" "32 div 2 = (16 :: nat)" "16 div 2 = (8 :: nat)" "8 div 2 = (4 :: nat)"
    "4 div 2 = (2 :: nat)" "2 div 2 = (1 :: nat)" by simp_all
  note step = revLoop_step [of 64, unfolded d, OF _ m(1)] revLoop_step [of 32, unfolded d, OF _ m(2)]
    revLoop_step [of 16, unfolded d, OF _ m(3)] revLoop_step [of 8, unfolded d, OF _ m(4)]
    revLoop_step [of 4, unfolded d, OF _ m(5)] revLoop_step [of 2, unfolded d, OF _ m(6)]
  have last: "revLoop 1 x w = w" for x w by (subst revLoop.simps) simp
  show ?thesis
    unfolding rev_bits_def by (simp only: step last zero_less_numeral zero_less_one)
qed

lemma all_below_64: "(\<forall>i<64. P i) \<longleftrightarrow> list_all P [0..<64]"
  by (auto simp: list_all_iff)

lemma swap_masks:
  "\<forall>i<64. bit (0x5555555555555555 :: u64) i \<longleftrightarrow> even (i div 1)"
  "\<forall>i<64. bit (0x3333333333333333 :: u64) i \<longleftrightarrow> even (i div 2)"
  "\<forall>i<64. bit (0x0F0F0F0F0F0F0F0F :: u64) i \<longleftrightarrow> even (i div 4)"
  "\<forall>i<64. bit (0x00FF00FF00FF00FF :: u64) i \<longleftrightarrow> even (i div 8)"
  "\<forall>i<64. bit (0x0000FFFF0000FFFF :: u64) i \<longleftrightarrow> even (i div 16)"
  "\<forall>i<64. bit (0x00000000FFFFFFFF :: u64) i \<longleftrightarrow> even (i div 32)"
  unfolding all_below_64 by code_simp+


definition flip_at :: "nat \<Rightarrow> nat \<Rightarrow> nat" where
  "flip_at s i = (if even (i div s) then i + s else i - s)"

lemma flip_at_less:
  "\<forall>i<64. flip_at 1 i < 64" "\<forall>i<64. flip_at 2 i < 64" "\<forall>i<64. flip_at 4 i < 64"
  "\<forall>i<64. flip_at 8 i < 64" "\<forall>i<64. flip_at 16 i < 64" "\<forall>i<64. flip_at 32 i < 64"
  unfolding all_below_64 by code_simp+

lemma flip_at_xor:
  "\<forall>i<64. flip_at 1 i = i XOR 1" "\<forall>i<64. flip_at 2 i = i XOR 2" "\<forall>i<64. flip_at 4 i = i XOR 4"
  "\<forall>i<64. flip_at 8 i = i XOR 8" "\<forall>i<64. flip_at 16 i = i XOR 16" "\<forall>i<64. flip_at 32 i = i XOR 32"
  unfolding all_below_64 by code_simp+

lemma flip_at_path:
  assumes "i < 64"
  shows "flip_at 32 (flip_at 16 (flip_at 8 (flip_at 4 (flip_at 2 (flip_at 1 i))))) = 63 - i"
proof -
  have "flip_at 32 (flip_at 16 (flip_at 8 (flip_at 4 (flip_at 2 (flip_at 1 i))))) =
      ((((((i XOR 1) XOR 2) XOR 4) XOR 8) XOR 16) XOR 32)"
    using assms flip_at_less by (simp only: flip_at_xor [rule_format, symmetric])
  also have "\<dots> = i XOR 63" by (simp add: xor.assoc)
  also have "\<forall>i<64. i XOR 63 = 63 - (i :: nat)" unfolding all_below_64 by code_simp
  then have "i XOR 63 = 63 - i" using assms by blast
  finally show ?thesis .
qed

lemma rev_bits_reverse: "rev_bits v = word_reverse v"
proof (rule bit_word_eqI)
  fix i assume "i < LENGTH(64)"
  then have i: "i < 64" by simp
  note st = swap_masks [THEN bit_swap_step, folded flip_at_def]
  have "bit (rev_bits v) i \<longleftrightarrow>
      bit v (flip_at 32 (flip_at 16 (flip_at 8 (flip_at 4 (flip_at 2 (flip_at 1 i))))))"
    unfolding rev_bits_steps using i flip_at_less by (simp only: st zero_less_one zero_less_numeral)
  then show "bit (rev_bits v) i \<longleftrightarrow> bit (word_reverse v) i"
    using i flip_at_path by (simp add: bit_word_reverse_iff)
qed

section \<open>The order in which a scan visits hashes\<close>

text \<open>
  The position of a hash in the scan is its bit reversal read as a number: the
  cursor of a scan only moves forward in this order, and a bucket of a table of
  size \<open>2 ^ k\<close> is an interval of length \<open>2 ^ (64 - k)\<close> in it.
\<close>

definition scan_pos :: "u64 \<Rightarrow> nat" where
  "scan_pos h = unat (word_reverse h)"

lemma scan_pos_less: "scan_pos h < 2 ^ 64"
  unfolding scan_pos_def by (rule unat_less64)

lemma word_reverse_or_not_mask:
  assumes "k \<le> 64"
  shows "word_reverse (v OR NOT (mask k) :: u64) = word_reverse v OR mask (64 - k)"
  by (rule bit_word_eqI) (use assms in \<open>auto simp: bit_simps\<close>)

lemma unat_mask64: "n \<le> 64 \<Longrightarrow> unat (mask n :: u64) = mask n"
  by (rule bit_eqI) (auto simp: bit_simps)

lemma unat_or_mask:
  assumes "n \<le> 64"
  shows "unat (x OR mask n :: u64) = unat x div 2 ^ n * 2 ^ n + (2 ^ n - 1)"
proof -
  have "unat (x OR mask n) = unat x OR mask n"
    using assms by (simp add: unsigned_or_eq unat_mask64)
  also have "\<dots> = push_bit n (drop_bit n (unat x)) OR mask n"
    by (rule bit_eqI) (auto simp: bit_simps)
  also have "\<dots> = push_bit n (drop_bit n (unat x)) + mask n"
    by (rule disjunctive_add [symmetric]) (auto simp: bit_simps)
  finally show ?thesis by (simp add: push_bit_eq_mult drop_bit_eq_div mask_eq_exp_minus_1)
qed

lemma scan_pos_next:
  assumes "k \<le> 64"
  shows "scan_pos (scanNext (mask k) v) = (scan_pos v div 2 ^ (64 - k) + 1) * 2 ^ (64 - k) mod 2 ^ 64"
proof -
  let ?B = "2 ^ (64 - k) :: nat"
  have "scan_pos (scanNext (mask k) v) = unat (word_reverse (v OR NOT (mask k)) + 1)"
    by (simp add: scan_pos_def scanNext_def rev_bits_reverse)
  also have "\<dots> = (unat (word_reverse v OR mask (64 - k)) + 1) mod 2 ^ 64"
    unfolding word_reverse_or_not_mask [OF assms] by (simp add: unat_word_ariths)
  also have "unat (word_reverse v OR mask (64 - k)) + 1 = (scan_pos v div ?B + 1) * ?B"
    by (simp add: unat_or_mask scan_pos_def)
  finally show ?thesis .
qed

lemma scan_pos_bucket:
  assumes "k \<le> 64" and "scan_pos h div 2 ^ (64 - k) = scan_pos v div 2 ^ (64 - k)"
  shows "h AND mask k = v AND mask k"
proof -
  have d: "drop_bit (64 - k) (word_reverse h) = drop_bit (64 - k) (word_reverse v)"
  proof (rule word_unat_eq_iff [THEN iffD2])
    have e: "unat (drop_bit (64 - k) w) = unat w div 2 ^ (64 - k)" for w :: u64
      using unat_less64 [of w] by (simp add: unsigned_drop_bit_eq take_bit_nat_eq_self flip: drop_bit_eq_div)
    show "unat (drop_bit (64 - k) (word_reverse h)) = unat (drop_bit (64 - k) (word_reverse v))"
      using assms(2) unfolding scan_pos_def e .
  qed
  show ?thesis
  proof (rule bit_word_eqI)
    fix i assume "i < LENGTH(64)"
    moreover have "bit h i = bit v i" if "i < k"
    proof -
      have "bit (drop_bit (64 - k) (word_reverse h)) (k - 1 - i) = bit (drop_bit (64 - k) (word_reverse v)) (k - 1 - i)"
        using d by simp
      moreover have "64 - k + (k - 1 - i) = 63 - i" using that assms(1) by simp
      moreover have "63 - i < (64 :: nat)" by linarith
      ultimately show ?thesis using that assms(1) by (simp add: bit_simps)
    qed
    ultimately show "bit (h AND mask k) i = bit (v AND mask k) i" by (auto simp: bit_simps)
  qed
qed


section \<open>The expansion loop\<close>

lemma unat_splice:
  assumes "k \<le> 64"
  shows "unat ((w AND NOT (mask k)) OR (v AND mask k) :: u64) = unat w div 2 ^ k * 2 ^ k + unat v mod 2 ^ k"
proof -
  have "unat ((w AND NOT (mask k)) OR (v AND mask k)) = push_bit k (drop_bit k (unat w)) OR take_bit k (unat v)"
    using assms by (intro bit_eqI) (auto simp: bit_simps dest: bit_imp_le_length)
  also have "\<dots> = push_bit k (drop_bit k (unat w)) + take_bit k (unat v)"
    by (rule disjunctive_add [symmetric]) (auto simp: bit_simps)
  finally show ?thesis by (simp add: push_bit_eq_mult drop_bit_eq_div take_bit_eq_mod)
qed

lemma unat_and_mask: "unat (v AND mask k :: u64) = unat v mod 2 ^ k"
  using unat_less64 [of v] by (simp add: unsigned_take_bit_eq flip: take_bit_eq_mask take_bit_eq_mod)

lemma unat_expand_inc:
  fixes v :: u64
  assumes "k \<le> 64"
  shows "unat ((((v OR mask k) + 1) AND NOT (mask k)) OR (v AND mask k)) =
    (unat v div 2 ^ k + 1) mod 2 ^ (64 - k) * 2 ^ k + unat v mod 2 ^ k"
proof -
  have "unat ((v OR mask k) + 1) = (unat v div 2 ^ k + 1) * 2 ^ k mod 2 ^ 64"
  proof -
    have "unat ((v OR mask k) + 1) = (unat (v OR mask k) + 1) mod 2 ^ 64" by (simp add: unat_word_ariths)
    also have "unat (v OR mask k) + 1 = (unat v div 2 ^ k + 1) * 2 ^ k" using assms by (simp add: unat_or_mask)
    finally show ?thesis .
  qed
  also have "(2 :: nat) ^ 64 = 2 ^ (64 - k) * 2 ^ k" using assms by (simp flip: power_add)
  finally have "unat ((v OR mask k) + 1) = (unat v div 2 ^ k + 1) mod 2 ^ (64 - k) * 2 ^ k"
    by (simp only: mod_mult_mult2)
  then show ?thesis using assms by (simp only: unat_splice nonzero_mult_div_cancel_right) simp
qed

lemma and_mask_diff:
  fixes v :: u64
  assumes "k0 \<le> k1" and "k1 \<le> 64"
  shows "v AND (mask k0 XOR mask k1) = 0 \<longleftrightarrow> unat v div 2 ^ k0 mod 2 ^ (k1 - k0) = 0"
proof -
  have "v AND (mask k0 XOR mask k1) = 0 \<longleftrightarrow> (\<forall>i. k0 \<le> i \<and> i < k1 \<longrightarrow> \<not> bit v i)"
  proof (intro iffI allI impI)
    fix i assume 0: "v AND (mask k0 XOR mask k1) = 0" and i: "k0 \<le> i \<and> i < k1"
    have "\<not> bit (v AND (mask k0 XOR mask k1)) i" unfolding 0 by simp
    then show "\<not> bit v i" using i assms by (simp add: bit_simps)
  next
    assume "\<forall>i. k0 \<le> i \<and> i < k1 \<longrightarrow> \<not> bit v i"
    then show "v AND (mask k0 XOR mask k1) = 0" using assms by (intro bit_word_eqI) (use not_less in \<open>auto simp: bit_simps\<close>)
  qed
  also have "\<dots> \<longleftrightarrow> (\<forall>i. i < k1 - k0 \<longrightarrow> \<not> bit v (k0 + i))"
  proof (intro iffI allI impI)
    fix i assume all: "\<forall>i. i < k1 - k0 \<longrightarrow> \<not> bit v (k0 + i)" and i: "k0 \<le> i \<and> i < k1"
    have "i - k0 < k1 - k0" using i by linarith
    then show "\<not> bit v i" using all [rule_format, of "i - k0"] i by simp
  qed (use assms in auto)
  also have "\<dots> \<longleftrightarrow> take_bit (k1 - k0) (drop_bit k0 (unat v)) = 0"
    using assms by (auto simp: bit_eq_iff bit_simps)
  finally show ?thesis by (simp add: take_bit_eq_mod drop_bit_eq_div)
qed

lemma mod_mask_split:
  fixes n :: nat
  assumes "k0 \<le> k1"
  shows "n mod 2 ^ k1 = n div 2 ^ k0 mod 2 ^ (k1 - k0) * 2 ^ k0 + n mod 2 ^ k0"
proof -
  have "(2 :: nat) ^ k1 = 2 ^ k0 * 2 ^ (k1 - k0)" using assms by (simp flip: power_add)
  then show ?thesis by (simp add: mod_mult2_eq)
qed

lemma scanExpand_spec:
  assumes t: "ht_table t1 = Some t" "length t = 2 ^ k1" and k: "k0 \<le> k1" "k1 \<le> 32"
  shows "\<exists>v'. scanExpand t1 (mask k0) (mask k1) v em =
      Some (v', em @ concat (map (\<lambda>j. t ! (j * 2 ^ k0 + unat v mod 2 ^ k0))
        [unat v div 2 ^ k0 mod 2 ^ (k1 - k0)..<2 ^ (k1 - k0)])) \<and> unat v' mod 2 ^ k0 = unat v mod 2 ^ k0"
proof (induction "2 ^ (k1 - k0) - unat v div 2 ^ k0 mod 2 ^ (k1 - k0)" arbitrary: v em rule: less_induct)
  case less
  define D a l where "D = (2 :: nat) ^ (k1 - k0)" and "a = unat v div 2 ^ k0" and "l = unat v mod 2 ^ k0"
  define w where "w = (((v OR mask k0) + 1) AND NOT (mask k0)) OR (v AND mask k0)"
  have lD: "a mod D < D" by (simp add: D_def)
  have ll: "l < 2 ^ k0" by (simp add: l_def)
  have uw: "unat w = (a + 1) mod 2 ^ (64 - k0) * 2 ^ k0 + l"
    unfolding w_def a_def l_def by (rule unat_expand_inc) (use k in simp)
  have wl: "unat w mod 2 ^ k0 = l" and wa: "unat w div 2 ^ k0 = (a + 1) mod 2 ^ (64 - k0)"
    using ll by (simp_all add: uw)
  have "D dvd 2 ^ (64 - k0)" unfolding D_def by (rule le_imp_power_dvd) (use k in simp)
  then have waD: "unat w div 2 ^ k0 mod D = (a + 1) mod D" unfolding wa by (rule mod_mod_cancel)
  have idx: "unat (v AND mask k1) = a mod D * 2 ^ k0 + l"
    unfolding unat_and_mask mod_mask_split [OF k(1)] D_def a_def l_def ..
  have idxl: "unat (v AND mask k1) < length t" unfolding unat_and_mask t(2) by simp
  have get: "bucket_get t1 (unat (v AND mask k1)) = Some (t ! (a mod D * 2 ^ k0 + l))"
    using bucket_get_eq [OF t(1)] idxl idx by simp
  have cond: "w AND (mask k0 XOR mask k1) = 0 \<longleftrightarrow> (a + 1) mod D = 0"
    using and_mask_diff [OF k(1), of w] waD k unfolding D_def by simp
  have unf: "scanExpand t1 (mask k0) (mask k1) v em =
      (if (a + 1) mod D = 0 then Some (w, em @ t ! (a mod D * 2 ^ k0 + l))
       else scanExpand t1 (mask k0) (mask k1) w (em @ t ! (a mod D * 2 ^ k0 + l)))"
    by (subst scanExpand.simps) (simp add: get cond Let_def flip: w_def)
  show ?case
  proof (cases "(a + 1) mod D = 0")
    case True
    then have "Suc (a mod D) = D" using mod_Suc [of a D] by (auto split: if_splits)
    then have "[a mod D..<D] = [a mod D]" using upt_conv_Cons [OF lD] by simp
    then show ?thesis using True unf wl by (simp add: D_def [symmetric] a_def [symmetric] l_def [symmetric])
  next
    case False
    then have s: "(a + 1) mod D = Suc (a mod D)" using mod_Suc [of a D] by (auto split: if_splits)
    have dec: "2 ^ (k1 - k0) - unat w div 2 ^ k0 mod 2 ^ (k1 - k0) < 2 ^ (k1 - k0) - unat v div 2 ^ k0 mod 2 ^ (k1 - k0)"
      using waD s lD unfolding D_def a_def by linarith
    obtain v' where v': "scanExpand t1 (mask k0) (mask k1) w (em @ t ! (a mod D * 2 ^ k0 + l)) =
        Some (v', (em @ t ! (a mod D * 2 ^ k0 + l)) @ concat (map (\<lambda>j. t ! (j * 2 ^ k0 + l)) [Suc (a mod D)..<D]))"
        "unat v' mod 2 ^ k0 = l"
      using less [OF dec, of "em @ t ! (a mod D * 2 ^ k0 + l)"] waD s wl unfolding D_def by auto
    then show ?thesis
      using False unf upt_conv_Cons [OF lD] by (simp add: D_def [symmetric] a_def [symmetric] l_def [symmetric])
  qed
qed


section \<open>What one call emits\<close>

lemma bucket_idx_mask:
  assumes "ht_sizemask h = 2 ^ k - 1" and "k \<le> 32"
  shows "bucket_idx ty h key = unat (ucast (hashFunction ty key) AND mask k :: u64)"
proof -
  have "unat (ucast (hashFunction ty key) :: u64) = unat (hashFunction ty key)"
  proof -
    have "unat (hashFunction ty key) < 2 ^ LENGTH(32)" by (rule unsigned_less)
    then show ?thesis by (simp add: unsigned_ucast_eq take_bit_nat_eq_self)
  qed
  moreover have "(2 :: nat) ^ k - 1 = mask k" by (simp add: mask_eq_exp_minus_1)
  ultimately show ?thesis
    unfolding bucket_idx_def assms(1) unat_and_mask by (simp only: take_bit_eq_mod flip: take_bit_eq_mask)
qed

lemma ht_ok_mask:
  assumes "ht_ok ty h" and "ht_table h = Some t"
  obtains k where "k \<le> 31" "length t = 2 ^ k" "ht_sizemask h = 2 ^ k - 1" "ht_size h = 2 ^ k"
    "(word_of_nat (ht_sizemask h) :: u64) = mask k"
proof -
  obtain k where k: "k \<le> 31" "length t = 2 ^ k" "ht_sizemask h = 2 ^ k - 1" "ht_size h = 2 ^ k"
    using assms by (auto simp: ht_ok_def)
  have "(word_of_nat (ht_sizemask h) :: u64) = mask k"
    unfolding k(3) by (simp add: mask_eq_exp_minus_1 of_nat_diff)
  then show ?thesis using that k by blast
qed

lemma ht_entry_bucket:
  assumes ok: "ht_ok ty h" and t: "ht_table h = Some t" "length t = 2 ^ k" "ht_sizemask h = 2 ^ k - 1" "k \<le> 31"
    and e: "e \<in> set (ht_entries h)"
  shows "e \<in> set (t ! unat (ucast (hashFunction ty (de_key e)) AND mask k :: u64))"
proof -
  obtain i where i: "i < length t" "e \<in> set (t ! i)"
  proof -
    obtain b where "b \<in> set t" "e \<in> set b" using e t(1) by (auto simp: ht_entries_def)
    then show ?thesis using that by (auto simp: in_set_conv_nth [of b])
  qed
  have "bucket_idx ty h (de_key e) = i" using ok t(1) i by (auto simp: ht_ok_def)
  then show ?thesis using i(2) bucket_idx_mask [OF t(3), of ty "de_key e"] t(4) by simp
qed

lemma scan_two_tables:
  assumes h: "ht_ok ty h0" "ht_ok ty h1" and t: "ht_table h0 = Some t0" "ht_table h1 = Some t1"
    and k0: "k0 \<le> 31" "length t0 = 2 ^ k0" "ht_sizemask h0 = 2 ^ k0 - 1"
    and k1: "k1 \<le> 31" "length t1 = 2 ^ k1" "ht_sizemask h1 = 2 ^ k1 - 1" and le: "k0 \<le> k1"
    and cur: "v AND (mask k0 XOR mask k1) = 0"
  shows "\<exists>c v' es. bucket_get h0 (unat (v AND mask k0)) = Some c \<and>
    scanExpand h1 (mask k0) (mask k1) v c = Some (v', es) \<and> v' AND mask k0 = v AND mask k0 \<and>
    (\<forall>e\<in>set (ht_entries h0) \<union> set (ht_entries h1).
       ucast (hashFunction ty (de_key e)) AND mask k0 = v AND mask k0 \<longrightarrow> e \<in> set es)"
proof -
  define D where "D = (2 :: nat) ^ (k1 - k0)"
  have l: "unat (v AND mask k0) < length t0" unfolding unat_and_mask k0(2) by simp
  define c where "c = t0 ! unat (v AND mask k0)"
  have get: "bucket_get h0 (unat (v AND mask k0)) = Some c" using bucket_get_eq [OF t(1)] l by (simp add: c_def)
  have z: "unat v div 2 ^ k0 mod D = 0" using cur and_mask_diff [OF le, of v] k1 by (simp add: D_def)
  define es where "es = c @ concat (map (\<lambda>j. t1 ! (j * 2 ^ k0 + unat v mod 2 ^ k0)) [0..<D])"
  obtain v' where v': "scanExpand h1 (mask k0) (mask k1) v c = Some (v', es)" "unat v' mod 2 ^ k0 = unat v mod 2 ^ k0"
    using scanExpand_spec [OF t(2) k1(2) le, of v c] k1(1) z by (auto simp: D_def es_def)
  have low: "v' AND mask k0 = v AND mask k0"
    using v'(2) by (simp add: unat_and_mask word_unat_eq_iff)
  have in0: "e \<in> set es" if "e \<in> set (ht_entries h0)" "ucast (hashFunction ty (de_key e)) AND mask k0 = v AND mask k0" for e
    using ht_entry_bucket [OF h(1) t(1) k0(2,3,1) that(1)] that(2) by (simp add: es_def c_def)
  have in1: "e \<in> set es" if e: "e \<in> set (ht_entries h1)" "ucast (hashFunction ty (de_key e)) AND mask k0 = v AND mask k0" for e
  proof -
    define x :: u64 where "x = ucast (hashFunction ty (de_key e))"
    have "unat (x AND mask k0) = unat (v AND mask k0)" using e(2) by (simp add: x_def)
    then have low: "unat x mod 2 ^ k0 = unat v mod 2 ^ k0" by (simp only: unat_and_mask)
    have "unat (x AND mask k1) = unat x div 2 ^ k0 mod D * 2 ^ k0 + unat v mod 2 ^ k0"
      unfolding unat_and_mask mod_mask_split [OF le] low D_def ..
    moreover have "unat x div 2 ^ k0 mod D < D" by (simp add: D_def)
    ultimately show ?thesis
      using ht_entry_bucket [OF h(2) t(2) k1(2,3,1) e(1)] unfolding x_def [symmetric] by (force simp: es_def)
  qed
  show ?thesis using get v'(1) low in0 in1 by blast
qed


text \<open>
  While the dictionary is being rehashed, the loop over the larger table is
  complete when the cursor has no bit between the two masks.
\<close>

definition scan_cursor_ok :: "('k, 'v) dict \<Rightarrow> u64 \<Rightarrow> bool" where
  "scan_cursor_ok d v \<longleftrightarrow>
     (dictIsRehashing d \<longrightarrow>
        v AND (word_of_nat (ht_sizemask (d_ht0 d)) XOR word_of_nat (ht_sizemask (d_ht1 d))) = 0)"

lemma scanNext_cong: "v AND mask k = w AND mask k \<Longrightarrow> scanNext (mask k) v = scanNext (mask k) w"
proof -
  assume eq: "v AND mask k = w AND mask k"
  have "x OR NOT (mask k) = (x AND mask k) OR NOT (mask k)" for x :: u64
    by (rule bit_word_eqI) (auto simp: bit_simps)
  then show ?thesis using eq unfolding scanNext_def by metis
qed

lemma dictScan_step:
  assumes ok: "dict_ok d" and ty: "d_type d = ty" and ne: "dict_entries d \<noteq> []" and cur: "scan_cursor_ok d v"
  shows "\<exists>k es. k \<le> 31 \<and> dictScan d v = Some (scanNext (mask k) v, es) \<and>
    (\<forall>e\<in>set (dict_entries d). ucast (hashFunction ty (de_key e)) AND mask k = v AND mask k \<longrightarrow> e \<in> set es)"
proof -
  have h: "ht_ok ty (d_ht0 d)" "ht_ok ty (d_ht1 d)" using ok ty by (auto simp: dict_ok_def)
  have sz: "dictSize d \<noteq> 0"
    using ne ht_used_entries [OF h(1)] ht_used_entries [OF h(2)] by (simp add: dictSize_def dict_entries_def)
  show ?thesis
  proof (cases "dictIsRehashing d")
    case False
    have e1: "ht_entries (d_ht1 d) = []" using ok False by (simp add: dict_ok_def dictReset_def ht_entries_def)
    then obtain t where t: "ht_table (d_ht0 d) = Some t"
      using ne by (cases "ht_table (d_ht0 d)") (auto simp: dict_entries_def ht_entries_def)
    obtain k where k: "k \<le> 31" "length t = 2 ^ k" "ht_sizemask (d_ht0 d) = 2 ^ k - 1"
        "(word_of_nat (ht_sizemask (d_ht0 d)) :: u64) = mask k"
      using ht_ok_mask [OF h(1) t] by metis
    have "unat (v AND mask k) < length t" unfolding unat_and_mask k(2) by simp
    then have "dictScan d v = Some (scanNext (mask k) v, t ! unat (v AND mask k))"
      using sz False k(4) bucket_get_eq [OF t] by (simp add: dictScan_def Let_def)
    moreover have "e \<in> set (t ! unat (v AND mask k))"
      if "e \<in> set (dict_entries d)" "ucast (hashFunction ty (de_key e)) AND mask k = v AND mask k" for e
      using ht_entry_bucket [OF h(1) t k(2,3,1), of e] that e1 by (simp add: dict_entries_def)
    ultimately show ?thesis using k(1) by blast
  next
    case True
    obtain t0 t1 where t: "ht_table (d_ht0 d) = Some t0" "ht_table (d_ht1 d) = Some t1"
      using ok True by (auto simp: dict_ok_def)
    obtain k0 where k0: "k0 \<le> 31" "length t0 = 2 ^ k0" "ht_sizemask (d_ht0 d) = 2 ^ k0 - 1" "ht_size (d_ht0 d) = 2 ^ k0"
        "(word_of_nat (ht_sizemask (d_ht0 d)) :: u64) = mask k0" using ht_ok_mask [OF h(1) t(1)] by metis
    obtain k1 where k1: "k1 \<le> 31" "length t1 = 2 ^ k1" "ht_sizemask (d_ht1 d) = 2 ^ k1 - 1" "ht_size (d_ht1 d) = 2 ^ k1"
        "(word_of_nat (ht_sizemask (d_ht1 d)) :: u64) = mask k1" using ht_ok_mask [OF h(2) t(2)] by metis
    have c: "v AND (mask k0 XOR mask k1) = 0" using cur True k0(5) k1(5) by (simp add: scan_cursor_ok_def)
    show ?thesis
    proof (cases "k1 < k0")
      case False
      then have le: "k0 \<le> k1" by simp
      obtain b v' es where s: "bucket_get (d_ht0 d) (unat (v AND mask k0)) = Some b"
          "scanExpand (d_ht1 d) (mask k0) (mask k1) v b = Some (v', es)" "v' AND mask k0 = v AND mask k0"
          "\<forall>e\<in>set (ht_entries (d_ht0 d)) \<union> set (ht_entries (d_ht1 d)).
             ucast (hashFunction ty (de_key e)) AND mask k0 = v AND mask k0 \<longrightarrow> e \<in> set es"
        using scan_two_tables [OF h t k0(1-3) k1(1-3) le c] by blast
      have "dictScan d v = Some (scanNext (mask k0) v', es)"
        using sz True le k0(4,5) k1(4,5) s(1,2) by (simp add: dictScan_def Let_def)
      then show ?thesis
        using k0(1) s(4) scanNext_cong [OF s(3)] by (intro exI [of _ k0] exI [of _ es]) (auto simp: dict_entries_def)
    next
      case lt: True
      then have le: "k1 \<le> k0" by simp
      have c': "v AND (mask k1 XOR mask k0) = 0" using c by (simp add: xor.commute)
      obtain b v' es where s: "bucket_get (d_ht1 d) (unat (v AND mask k1)) = Some b"
          "scanExpand (d_ht0 d) (mask k1) (mask k0) v b = Some (v', es)" "v' AND mask k1 = v AND mask k1"
          "\<forall>e\<in>set (ht_entries (d_ht1 d)) \<union> set (ht_entries (d_ht0 d)).
             ucast (hashFunction ty (de_key e)) AND mask k1 = v AND mask k1 \<longrightarrow> e \<in> set es"
        using scan_two_tables [OF h(2,1) t(2,1) k1(1-3) k0(1-3) le c'] by blast
      have "dictScan d v = Some (scanNext (mask k1) v', es)"
        using sz True lt k0(4,5) k1(4,5) s(1,2) by (simp add: dictScan_def Let_def)
      then show ?thesis
        using k1(1) s(4) scanNext_cong [OF s(3)] by (intro exI [of _ k1] exI [of _ es]) (auto simp: dict_entries_def)
    qed
  qed
qed

section \<open>Whole scans\<close>

text \<open>
  A scan: the dictionary as each call finds it, the cursor of each call being the
  result of the previous one.  The result is the last cursor and all emitted
  entries.
\<close>

fun scan_run :: "('k, 'v) dict list \<Rightarrow> u64 \<Rightarrow> (u64 \<times> ('k, 'v) chain) option" where
  "scan_run [] v = Some (v, [])"
| "scan_run (d # ds) v = do {
     (v, es) \<leftarrow> dictScan d v;
     (w, es') \<leftarrow> scan_run ds v;
     Some (w, es @ es')
   }"

fun scan_cursors_ok :: "('k, 'v) dict list \<Rightarrow> u64 \<Rightarrow> bool" where
  "scan_cursors_ok [] v = True"
| "scan_cursors_ok (d # ds) v =
     (scan_cursor_ok d v \<and> (case dictScan d v of Some (w, _) \<Rightarrow> scan_cursors_ok ds w | None \<Rightarrow> True))"

definition has_key :: "('k, 'v) dict \<Rightarrow> 'k \<Rightarrow> bool" where
  "has_key d key \<longleftrightarrow> (\<exists>e\<in>set (dict_entries d). de_key e = key)"

lemma scan_pos_0 [simp]: "scan_pos 0 = 0"
proof -
  have "word_reverse 0 = (0 :: u64)" by (rule bit_word_eqI) (simp add: bit_simps)
  then show ?thesis by (simp add: scan_pos_def)
qed

lemma scan_run_emits:
  "scan_run ds v = Some (0, es) \<Longrightarrow> ds \<noteq> [] \<Longrightarrow>
   \<forall>d\<in>set ds. dict_ok d \<and> d_type d = ty \<and> has_key d key \<Longrightarrow> scan_cursors_ok ds v \<Longrightarrow>
   scan_pos v \<le> scan_pos (ucast (hashFunction ty key)) \<Longrightarrow> key \<in> de_key ` set es"
proof (induction ds arbitrary: v es)
  case (Cons d ds)
  define h :: u64 where "h = ucast (hashFunction ty key)"
  have d: "dict_ok d" "d_type d = ty" "has_key d key" using Cons.prems(3) by auto
  then have ne: "dict_entries d \<noteq> []" by (auto simp: has_key_def)
  have cur: "scan_cursor_ok d v" using Cons.prems(4) by simp
  obtain k es1 where s: "k \<le> 31" "dictScan d v = Some (scanNext (mask k) v, es1)"
    "\<forall>e\<in>set (dict_entries d). ucast (hashFunction ty (de_key e)) AND mask k = v AND mask k \<longrightarrow> e \<in> set es1"
    using dictScan_step [OF d(1,2) ne cur] by blast
  define w where "w = scanNext (mask k) v"
  define B where "B = (2 :: nat) ^ (64 - k)"
  obtain es2 where run: "scan_run ds w = Some (0, es2)" "es = es1 @ es2"
    using Cons.prems(1) s(2) by (auto simp: w_def bind_eq_Some_conv)
  show ?case
  proof (cases "scan_pos h div B = scan_pos v div B")
    case True
    then have "h AND mask k = v AND mask k" unfolding B_def by (rule scan_pos_bucket [rotated]) (use s(1) in simp)
    then have "key \<in> de_key ` set es1" using d(3) s(3) unfolding h_def by (auto simp: has_key_def)
    then show ?thesis unfolding run(2) by auto
  next
    case False
    have B: "0 < B" by (simp add: B_def)
    have "scan_pos v div B \<le> scan_pos h div B" using Cons.prems(5) unfolding h_def by (rule div_le_mono)
    then have "scan_pos v div B + 1 \<le> scan_pos h div B" using False by simp
    then have le: "(scan_pos v div B + 1) * B \<le> scan_pos h"
      using less_eq_div_iff_mult_less_eq [OF B] by blast
    then have lt: "(scan_pos v div B + 1) * B < 2 ^ 64" using scan_pos_less [of h] by linarith
    have w: "scan_pos w = (scan_pos v div B + 1) * B"
      unfolding w_def B_def using scan_pos_next [of k v] s(1) lt by (simp only: mod_less B_def)
    then have "scan_pos w \<noteq> 0" using B by simp
    then have "w \<noteq> 0" by (cases "w = 0") simp_all
    then have "ds \<noteq> []" using run(1) by auto
    moreover have "scan_cursors_ok ds w" using Cons.prems(4) s(2) by (simp add: w_def)
    ultimately have "key \<in> de_key ` set es2"
      using Cons.IH [OF run(1)] Cons.prems(3) le w by (simp add: h_def)
    then show ?thesis unfolding run(2) by auto
  qed
qed simp


section \<open>Every call succeeds\<close>

lemma bucket_entries:
  assumes "ht_table h = Some t" and "i < length t"
  shows "set (t ! i) \<subseteq> set (ht_entries h)"
proof
  fix x assume "x \<in> set (t ! i)"
  then show "x \<in> set (ht_entries h)" using assms(1) nth_mem [OF assms(2)] by (auto simp: ht_entries_def)
qed

lemma scan_two_tables_total:
  assumes t: "ht_table h0 = Some t0" "ht_table h1 = Some t1" and k: "length t0 = 2 ^ k0" "length t1 = 2 ^ k1" "k1 \<le> 31"
    and le: "k0 \<le> k1"
  shows "\<exists>c v' es. bucket_get h0 (unat (v AND mask k0)) = Some c \<and>
    scanExpand h1 (mask k0) (mask k1) v c = Some (v', es) \<and> set es \<subseteq> set (ht_entries h0) \<union> set (ht_entries h1)"
proof -
  define D where "D = (2 :: nat) ^ (k1 - k0)"
  define l where "l = unat v mod 2 ^ k0"
  have i: "unat (v AND mask k0) < length t0" unfolding unat_and_mask k(1) by simp
  define c where "c = t0 ! unat (v AND mask k0)"
  have get: "bucket_get h0 (unat (v AND mask k0)) = Some c" using bucket_get_eq [OF t(1)] i by (simp add: c_def)
  have sub: "set (t1 ! (j * 2 ^ k0 + l)) \<subseteq> set (ht_entries h1)" if "j < D" for j
  proof (rule bucket_entries [OF t(2)])
    have "l < 2 ^ k0" by (simp add: l_def)
    then have "j * 2 ^ k0 + l < Suc j * 2 ^ k0" by simp
    also have "\<dots> \<le> D * 2 ^ k0" using that by (intro mult_right_mono) simp_all
    also have "\<dots> = length t1" unfolding D_def k(2) using le by (simp flip: power_add)
    finally show "j * 2 ^ k0 + l < length t1" .
  qed
  obtain v' where v': "scanExpand h1 (mask k0) (mask k1) v c =
      Some (v', c @ concat (map (\<lambda>j. t1 ! (j * 2 ^ k0 + l)) [unat v div 2 ^ k0 mod D..<D]))"
    using scanExpand_spec [OF t(2) k(2) le, of v c] k(3) unfolding l_def D_def by auto
  have "set (c @ concat (map (\<lambda>j. t1 ! (j * 2 ^ k0 + l)) [unat v div 2 ^ k0 mod D..<D])) \<subseteq>
      set (ht_entries h0) \<union> set (ht_entries h1)"
    using bucket_entries [OF t(1) i] by (auto simp: c_def dest!: subsetD [OF sub, rotated])
  then show ?thesis using get v' by blast
qed

lemma dictScan_ok:
  assumes ok: "dict_ok d"
  shows "\<exists>w es. dictScan d v = Some (w, es) \<and> set es \<subseteq> set (dict_entries d)"
proof (cases "dictSize d = 0")
  case False
  have h: "ht_ok (d_type d) (d_ht0 d)" "ht_ok (d_type d) (d_ht1 d)" using ok by (auto simp: dict_ok_def)
  show ?thesis
  proof (cases "dictIsRehashing d")
    case re: False
    have "d_ht1 d = dictReset" using ok re by (simp add: dict_ok_def)
    then obtain t where t: "ht_table (d_ht0 d) = Some t"
      using False h(1) by (cases "ht_table (d_ht0 d)") (auto simp: dictSize_def dictReset_def ht_ok_def)
    obtain k where k: "length t = 2 ^ k" "(word_of_nat (ht_sizemask (d_ht0 d)) :: u64) = mask k"
      using ht_ok_mask [OF h(1) t] by metis
    have i: "unat (v AND mask k) < length t" unfolding unat_and_mask k(1) by simp
    then have "dictScan d v = Some (scanNext (mask k) v, t ! unat (v AND mask k))"
      using False re k(2) bucket_get_eq [OF t] by (simp add: dictScan_def Let_def)
    then show ?thesis using bucket_entries [OF t i] by (auto simp: dict_entries_def)
  next
    case True
    obtain t0 t1 where t: "ht_table (d_ht0 d) = Some t0" "ht_table (d_ht1 d) = Some t1"
      using ok True by (auto simp: dict_ok_def)
    obtain k0 where k0: "k0 \<le> 31" "length t0 = 2 ^ k0" "ht_size (d_ht0 d) = 2 ^ k0"
        "(word_of_nat (ht_sizemask (d_ht0 d)) :: u64) = mask k0" using ht_ok_mask [OF h(1) t(1)] by metis
    obtain k1 where k1: "k1 \<le> 31" "length t1 = 2 ^ k1" "ht_size (d_ht1 d) = 2 ^ k1"
        "(word_of_nat (ht_sizemask (d_ht1 d)) :: u64) = mask k1" using ht_ok_mask [OF h(2) t(2)] by metis
    consider "k0 \<le> k1" "\<not> k1 < k0" | "k1 \<le> k0" "k1 < k0" by linarith
    then show ?thesis
    proof cases
      case 1
      obtain b v' es where "bucket_get (d_ht0 d) (unat (v AND mask k0)) = Some b"
          "scanExpand (d_ht1 d) (mask k0) (mask k1) v b = Some (v', es)"
          "set es \<subseteq> set (ht_entries (d_ht0 d)) \<union> set (ht_entries (d_ht1 d))"
        using scan_two_tables_total [OF t k0(2) k1(2,1) 1(1)] by blast
      then show ?thesis using False True 1(2) k0(3,4) k1(3,4)
        by (intro exI [of _ "scanNext (mask k0) v'"] exI [of _ es]) (simp add: dictScan_def Let_def dict_entries_def)
    next
      case 2
      obtain b v' es where "bucket_get (d_ht1 d) (unat (v AND mask k1)) = Some b"
          "scanExpand (d_ht0 d) (mask k1) (mask k0) v b = Some (v', es)"
          "set es \<subseteq> set (ht_entries (d_ht1 d)) \<union> set (ht_entries (d_ht0 d))"
        using scan_two_tables_total [OF t(2,1) k1(2) k0(2,1) 2(1)] by blast
      then show ?thesis using False True 2(2) k0(3,4) k1(3,4)
        by (intro exI [of _ "scanNext (mask k1) v'"] exI [of _ es])
           (simp add: dictScan_def Let_def dict_entries_def Un_commute)
    qed
  qed
qed (simp add: dictScan_def)

section \<open>Properties\<close>

text \<open>Property C10.  A complete scan, from cursor 0 until a call returns cursor 0, emits every key that
  is in the dictionary at all its calls, however the dictionary grows, shrinks, is rehashed or
  otherwise changes between the calls, as long as no call during a rehashing has a cursor with a bit
  set between the masks of the two tables.\<close>

theorem dictScan_complete:
  assumes "scan_run ds 0 = Some (0, es)" and "ds \<noteq> []" and "scan_cursors_ok ds 0"
    and "\<forall>d\<in>set ds. dict_ok d \<and> d_type d = ty \<and> has_key d key"
  shows "key \<in> de_key ` set es"
  by (rule scan_run_emits [OF assms(1,2,4,3)]) simp

text \<open>Property C25.  On a well-formed dictionary a call of \<open>dictScan\<close> with any cursor terminates, stays
  inside the tables and emits only entries of the dictionary.\<close>

theorem dictScan_total:
  assumes "dict_ok d"
  shows "\<exists>w es. dictScan d v = Some (w, es) \<and> set es \<subseteq> set (dict_entries d)"
  by (rule dictScan_ok [OF assms])

theorem dictScan_total_witness:
  "\<exists>w es. dictScan dict_ex 5 = Some (w, es) \<and> set es \<subseteq> set (dict_entries dict_ex)"
  by (rule dictScan_total [OF dict_ex_ok(1)])


text \<open>
  A table of 16 buckets with one entry, and the dictionary after \<open>dictResize\<close>
  has started to shrink it to 4 buckets.
\<close>

definition scan_ex16 :: "(bytes, nat) dict" where
  "scan_ex16 = \<lparr>d_type = dbDictType 5381,
     d_ht0 = \<lparr>ht_table = Some ((replicate 16 [])[4 := [\<lparr>de_key = [44], de_val = 1\<rparr>]]), ht_size = 16, ht_sizemask = 15, ht_used = 1\<rparr>,
     d_ht1 = dictReset, d_rehashidx = -1, d_iterators = 0\<rparr>"

definition scan_ex_shrink :: "(bytes, nat) dict" where
  "scan_ex_shrink = scan_ex16
     \<lparr>d_ht1 := \<lparr>ht_table = Some (replicate 4 []), ht_size = 4, ht_sizemask = 3, ht_used = 0\<rparr>, d_rehashidx := 0\<rparr>"

lemma scan_ex_hash: "dictSdsHash 5381 [44] = 2156371012"
  by code_simp

lemma scan_ex_ok: "dict_ok scan_ex16" "dict_ok scan_ex_shrink" "has_key scan_ex16 [44]" "has_key scan_ex_shrink [44]"
proof -
  have r: "[0..<16] = [0, 1, 2, 3, 4, 5, 6, 7, 8, 9, 10, 11, 12, 13, 14, 15 :: nat]" by code_simp
  have l: "length (concat ((replicate 16 [])[4 := [x]])) = 1" for x :: "(bytes, nat) dictEntry" by code_simp
  have "\<exists>k\<in>{0..31}. 16 = (2 :: nat) ^ k" by (rule bexI [of _ 4]) simp_all
  then have h0: "ht_ok (dbDictType 5381) (d_ht0 scan_ex16)"
    by (auto simp: ht_ok_def scan_ex16_def bucket_idx_def dbDictType_def scan_ex_hash l nth_list_update split: if_splits)
  have h1: "ht_ok (dbDictType 5381) (d_ht1 scan_ex_shrink)"
    using db_type.fresh_table_ok [of 2 5381] by (simp add: scan_ex_shrink_def)
  have e: "dict_entries scan_ex16 = [\<lparr>de_key = [44], de_val = 1\<rparr>]" "dict_entries scan_ex_shrink = [\<lparr>de_key = [44], de_val = 1\<rparr>]"
    by (code_simp, code_simp)
  have ok1: "ht_ok (dbDictType 5381) (dictReset :: (bytes, nat) dictht)" by (simp add: ht_ok_def dictReset_def)
  show "dict_ok scan_ex16"
    using h0 ok1 unfolding dict_ok_def e by (simp add: scan_ex16_def distinct_keys_def dictIsRehashing_def)
  show "dict_ok scan_ex_shrink"
    using h0 h1 unfolding dict_ok_def e by (simp add: scan_ex_shrink_def scan_ex16_def distinct_keys_def dictIsRehashing_def)
  show "has_key scan_ex16 [44]" "has_key scan_ex_shrink [44]" unfolding has_key_def e by simp_all
qed

lemma scan_ex_next:
  "scanNext 15 0 = 8" "scanNext 3 16 = 2" "scanNext 3 18 = 1" "scanNext 3 17 = 3" "scanNext 3 19 = 0"
  unfolding scanNext_def rev_bits_steps by code_simp+

lemma scan_ex_calls:
  "dictScan scan_ex16 0 = Some (8, [])" "dictScan scan_ex_shrink 8 = Some (2, [])"
  "dictScan scan_ex_shrink 2 = Some (1, [])" "dictScan scan_ex_shrink 1 = Some (3, [])"
  "dictScan scan_ex_shrink 3 = Some (0, [])"
  by (simp_all add: dictScan_def scan_ex16_def scan_ex_shrink_def dictSize_def dictIsRehashing_def dictReset_def
    bucket_get_def mem_get_def scan_ex_next scanExpand.simps nth_list_update)

lemma scan_ex_resize: "dictResize True scan_ex16 = Some (scan_ex_shrink, True)"
  by (simp add: dictResize_def scan_ex16_def scan_ex_shrink_def dictExpand_def dictNextPower_def
    dictNextPowerLoop.simps dictIsRehashing_def)


lemma scan_ex_next4: "scanNext 3 0 = 2" "scanNext 3 2 = 1" "scanNext 3 1 = 3" "scanNext 3 3 = 0"
proof -
  have m: "mask 2 = (3 :: u64)" by (simp add: mask_eq_exp_minus_1)
  note c = scanNext_cong [where k = 2, unfolded m]
  show "scanNext 3 0 = 2" "scanNext 3 2 = 1" "scanNext 3 1 = 3" "scanNext 3 3 = 0"
    using c [of 0 16] c [of 2 18] c [of 1 17] c [of 3 19] scan_ex_next by simp_all
qed

definition scan_ex4 :: "(bytes, nat) dict" where
  "scan_ex4 = dict_ex\<lparr>d_ht1 := dictReset, d_rehashidx := -1\<rparr>"

lemma scan_ex4_ok: "dict_ok scan_ex4" "d_type scan_ex4 = dbDictType 5381" "has_key scan_ex4 [97]"
  using dict_ex_ok(1)
  by (auto simp: scan_ex4_def dict_ok_def dictIsRehashing_def dict_entries_def ht_entries_def ht_ok_def dictReset_def
    dict_ex_def has_key_def)

lemma scan_ex4_run: "\<exists>es. scan_run [scan_ex4, scan_ex4, scan_ex4, scan_ex4] 0 = Some (0, es)"
proof -
  have "dictScan scan_ex4 0 = Some (2, [])" "dictScan scan_ex4 2 = Some (1, [])" "dictScan scan_ex4 1 = Some (3, [])"
    "dictScan scan_ex4 3 = Some (0, [\<lparr>de_key = [97], de_val = 1\<rparr>])"
    by (simp_all add: dictScan_def scan_ex4_def dict_ex_def dictSize_def dictIsRehashing_def dictReset_def
      bucket_get_def mem_get_def scan_ex_next4)
  then show ?thesis by simp
qed

theorem dictScan_complete_witness:
  "\<exists>es. scan_run [scan_ex4, scan_ex4, scan_ex4, scan_ex4] 0 = Some (0, es) \<and> [97] \<in> de_key ` set es"
proof -
  obtain es where es: "scan_run [scan_ex4, scan_ex4, scan_ex4, scan_ex4] 0 = Some (0, es)"
    using scan_ex4_run by blast
  have c: "scan_cursor_ok scan_ex4 v" for v by (simp add: scan_cursor_ok_def scan_ex4_def dictIsRehashing_def)
  have "scan_cursors_ok [scan_ex4, scan_ex4, scan_ex4, scan_ex4] 0"
    by (simp add: c split: option.splits)
  then show ?thesis
    using dictScan_complete [OF es, of "dbDictType 5381" "[97]"] scan_ex4_ok es by auto
qed


end
