(* ===== verification/DictIter.thy ===== *)
theory DictIter
  imports DictTypes
begin

unbundle bit_operations_syntax

text \<open>
  Iterators, random entries and sampling of \<open>dict.c\<close>.  An entry pointer of an
  iterator is the chain from that entry on (\<open>NULL\<close> is the empty chain), so
  that \<open>nextEntry\<close> stays meaningful when the client unlinks the returned
  entry.  The state of a client is the dictionary and the iterator.  Addresses of
  the two tables, which the fingerprint of an unsafe iterator hashes, are a
  parameter.  Random numbers are a sequence that is consumed from the front.
\<close>

section \<open>Fingerprints\<close>

definition fingerprintMix :: "u64 \<Rightarrow> u64 \<Rightarrow> u64" where
  "fingerprintMix hash x =
     (let hash = hash + x;
          hash = NOT hash + push_bit 21 hash;
          hash = hash XOR signed_drop_bit 24 hash;
          hash = (hash + push_bit 3 hash) + push_bit 8 hash;
          hash = hash XOR signed_drop_bit 14 hash;
          hash = (hash + push_bit 2 hash) + push_bit 4 hash;
          hash = hash XOR signed_drop_bit 28 hash
      in hash + push_bit 31 hash)"

definition dictFingerprint :: "u64 \<times> u64 \<Rightarrow> ('k, 'v) dict \<Rightarrow> u64" where
  "dictFingerprint addr d = foldl fingerprintMix 0
     [fst addr, word_of_nat (ht_size (d_ht0 d)), word_of_nat (ht_used (d_ht0 d)),
      snd addr, word_of_nat (ht_size (d_ht1 d)), word_of_nat (ht_used (d_ht1 d))]"

section \<open>Iterators\<close>

record ('k, 'v) dictIterator =
  it_index :: int
  it_table :: nat
  it_safe :: bool
  it_entry :: "('k, 'v) chain"
  it_nextEntry :: "('k, 'v) chain"
  it_fingerprint :: u64

definition dictGetIterator :: "('k, 'v) dictIterator" where
  "dictGetIterator = \<lparr>it_index = -1, it_table = 0, it_safe = False, it_entry = [], it_nextEntry = [], it_fingerprint = 0\<rparr>"

definition dictGetSafeIterator :: "('k, 'v) dictIterator" where
  "dictGetSafeIterator = dictGetIterator\<lparr>it_safe := True\<rparr>"

type_synonym ('k, 'v) iter_state = "('k, 'v) dict \<times> ('k, 'v) dictIterator"

text \<open>
  The part of an iteration that moves to the next bucket, when the current chain
  is exhausted; \<open>None\<close> inside is the \<open>break\<close> at the end of the tables.
\<close>

definition dictNextBucket :: "u64 \<times> u64 \<Rightarrow> ('k, 'v) iter_state \<Rightarrow> (('k, 'v) iter_state \<times> bool) option" where
  "dictNextBucket addr s = (case s of (d, it) \<Rightarrow> do {
     let (d, it) = (if it_index it = -1 \<and> it_table it = 0 then
           (if it_safe it then (d\<lparr>d_iterators := d_iterators d + 1\<rparr>, it)
            else (d, it\<lparr>it_fingerprint := dictFingerprint addr d\<rparr>))
         else (d, it));
     let it = it\<lparr>it_index := it_index it + 1\<rparr>;
     if it_index it \<ge> int (ht_size (dict_ht d (it_table it))) then
       (if dictIsRehashing d \<and> it_table it = 0 then do {
          let it = it\<lparr>it_table := 1, it_index := 0\<rparr>;
          c \<leftarrow> bucket_get (d_ht1 d) 0;
          Some ((d, it\<lparr>it_entry := c\<rparr>), True)
        }
        else Some ((d, it), False))
     else do {
       c \<leftarrow> bucket_get (dict_ht d (it_table it)) (nat (it_index it));
       Some ((d, it\<lparr>it_entry := c\<rparr>), True)
     }
   })"

partial_function (option) dictNext ::
    "u64 \<times> u64 \<Rightarrow> ('k, 'v) iter_state \<Rightarrow> (('k, 'v) iter_state \<times> ('k, 'v) dictEntry option) option" where
  "dictNext addr s = do {
     ((d, it), continue) \<leftarrow>
       (if it_entry (snd s) = [] then dictNextBucket addr s
        else Some ((fst s, (snd s)\<lparr>it_entry := it_nextEntry (snd s)\<rparr>), True));
     if \<not> continue then Some ((d, it), None)
     else (case it_entry it of
         e # next \<Rightarrow> Some ((d, it\<lparr>it_nextEntry := next\<rparr>), Some e)
       | [] \<Rightarrow> dictNext addr (d, it))
   }"

declare dictNext.simps [code]

text \<open>The failing branch is the assertion on the fingerprint.\<close>

definition dictReleaseIterator :: "u64 \<times> u64 \<Rightarrow> ('k, 'v) iter_state \<Rightarrow> ('k, 'v) dict option" where
  "dictReleaseIterator addr s = (case s of (d, it) \<Rightarrow>
     (if \<not> (it_index it = -1 \<and> it_table it = 0) then
        (if it_safe it then Some (d\<lparr>d_iterators := d_iterators d - 1\<rparr>)
         else if it_fingerprint it = dictFingerprint addr d then Some d else None)
      else Some d))"


section \<open>What an iterator returns\<close>

definition ht_buckets :: "('k, 'v) dictht \<Rightarrow> ('k, 'v) chain list" where
  "ht_buckets h = (case ht_table h of None \<Rightarrow> [] | Some t \<Rightarrow> t)"

definition it_started :: "('k, 'v) dictIterator \<Rightarrow> bool" where
  "it_started it \<longleftrightarrow> \<not> (it_index it = -1 \<and> it_table it = 0)"

definition it_dict :: "('k, 'v) dict \<Rightarrow> ('k, 'v) dictIterator \<Rightarrow> ('k, 'v) dict" where
  "it_dict d0 it = (if it_started it \<and> it_safe it then d0\<lparr>d_iterators := d_iterators d0 + 1\<rparr> else d0)"

definition it_ok :: "u64 \<times> u64 \<Rightarrow> ('k, 'v) dict \<Rightarrow> ('k, 'v) iter_state \<Rightarrow> bool" where
  "it_ok addr d0 s \<longleftrightarrow> (case s of (d, it) \<Rightarrow>
     d = it_dict d0 it \<and> it_index it \<ge> -1 \<and> it_table it \<le> 1 \<and>
     (it_table it = 1 \<longrightarrow> dictIsRehashing d0 \<and> it_index it \<ge> 0) \<and>
     (it_started it \<and> \<not> it_safe it \<longrightarrow> it_fingerprint it = dictFingerprint addr d0))"

definition it_buckets :: "('k, 'v) iter_state \<Rightarrow> ('k, 'v) chain list" where
  "it_buckets s = (case s of (d, it) \<Rightarrow>
     drop (nat (it_index it + 1)) (ht_buckets (dict_ht d (it_table it))) @
     (if it_table it = 0 \<and> dictIsRehashing d then ht_buckets (d_ht1 d) else []))"

definition it_left :: "('k, 'v) iter_state \<Rightarrow> ('k, 'v) dictEntry list" where
  "it_left s = (if it_entry (snd s) = [] then [] else it_nextEntry (snd s)) @ concat (it_buckets s)"

lemma ht_buckets_size: "ht_ok ty h \<Longrightarrow> length (ht_buckets h) = ht_size h"
  by (auto simp: ht_ok_def ht_buckets_def split: option.splits)

lemma ht_buckets_get: "i < length (ht_buckets h) \<Longrightarrow> bucket_get h i = Some (ht_buckets h ! i)"
  by (auto simp: ht_buckets_def bucket_get_def mem_get_def split: option.splits)

lemma ht_buckets_concat: "concat (ht_buckets h) = ht_entries h"
  by (simp add: ht_buckets_def ht_entries_def split: option.splits)

lemma it_dict_fields [simp]:
  "dict_ht (it_dict d it) t = dict_ht d t" "d_ht0 (it_dict d it) = d_ht0 d" "d_ht1 (it_dict d it) = d_ht1 d"
  "dictIsRehashing (it_dict d it) = dictIsRehashing d" "dictFingerprint addr (it_dict d it) = dictFingerprint addr d"
  by (simp_all add: it_dict_def dict_ht_def dictIsRehashing_def dictFingerprint_def)

text \<open>The start of an iteration registers the iterator or takes the fingerprint.\<close>

definition it_advance :: "u64 \<times> u64 \<Rightarrow> ('k, 'v) dict \<Rightarrow> ('k, 'v) dictIterator \<Rightarrow> ('k, 'v) dictIterator" where
  "it_advance addr d0 it = (if it_started it \<or> it_safe it then it else it\<lparr>it_fingerprint := dictFingerprint addr d0\<rparr>)
     \<lparr>it_index := it_index it + 1\<rparr>"

lemma dictNextBucket_eq:
  assumes "it_ok addr d0 (d, it)"
  defines "it' \<equiv> it_advance addr d0 it"
  shows "dictNextBucket addr (d, it) =
    (if it_index it' \<ge> int (ht_size (dict_ht d0 (it_table it))) then
       (if dictIsRehashing d0 \<and> it_table it = 0 then
          map_option (\<lambda>c. ((it_dict d0 it', it'\<lparr>it_table := 1, it_index := 0, it_entry := c\<rparr>), True)) (bucket_get (d_ht1 d0) 0)
        else Some ((it_dict d0 it', it'), False))
     else map_option (\<lambda>c. ((it_dict d0 it', it'\<lparr>it_entry := c\<rparr>), True))
       (bucket_get (dict_ht d0 (it_table it)) (nat (it_index it'))))"
proof -
  define it1 where "it1 = (if it_started it \<or> it_safe it then it else it\<lparr>it_fingerprint := dictFingerprint addr d0\<rparr>)"
  have it': "it' = it1\<lparr>it_index := it_index it + 1\<rparr>" by (simp add: it'_def it_advance_def it1_def)
  have st: "it_started it'" using assms(1) by (auto simp: it' it_started_def it_ok_def it1_def)
  have f: "it_safe it1 = it_safe it" "it_index it1 = it_index it" "it_table it1 = it_table it"
    by (simp_all add: it1_def)
  have first: "(if it_index it = -1 \<and> it_table it = 0 then
           (if it_safe it then (d\<lparr>d_iterators := d_iterators d + 1\<rparr>, it)
            else (d, it\<lparr>it_fingerprint := dictFingerprint addr d\<rparr>))
         else (d, it)) = (it_dict d0 it', it1)"
    using assms(1) st by (auto simp: it_ok_def it_dict_def it_started_def it1_def it' f)
  show ?thesis
    unfolding dictNextBucket_def prod.case Let_def first
    by (simp add: f it' map_conv_bind_option comp_def)
qed

lemma dictNextBucket_spec:
  assumes ok: "it_ok addr d0 s" and dok: "dict_ok d0"
  shows "it_buckets s = [] \<Longrightarrow>
      \<exists>s'. dictNextBucket addr s = Some (s', False) \<and> dictReleaseIterator addr s' = Some d0"
    and "it_buckets s = c # cs \<Longrightarrow>
      \<exists>s'. dictNextBucket addr s = Some (s', True) \<and> it_ok addr d0 s' \<and> it_entry (snd s') = c \<and> it_buckets s' = cs"
proof -
  obtain d it where s: "s = (d, it)" by (cases s)
  define it' where "it' = it_advance addr d0 it"
  have it: "d = it_dict d0 it" "it_index it \<ge> -1" "it_table it \<le> 1"
      "it_table it = 1 \<longrightarrow> dictIsRehashing d0 \<and> it_index it \<ge> 0"
    using ok by (auto simp: s it_ok_def)
  have f: "it_index it' = it_index it + 1" "it_table it' = it_table it" "it_safe it' = it_safe it"
    by (simp_all add: it'_def it_advance_def)
  have st: "it_started it'" using it(2,3) f by (auto simp: it_started_def)
  have fp: "\<not> it_safe it' \<longrightarrow> it_fingerprint it' = dictFingerprint addr d0"
    using ok by (auto simp: s it_ok_def it'_def it_advance_def)
  have ok': "it_ok addr d0 (it_dict d0 it'', it'')"
    if "it_started it''" "it_safe it'' = it_safe it'" "it_fingerprint it'' = it_fingerprint it'" "it_index it'' \<ge> 0"
      "it_table it'' \<le> 1" "it_table it'' = 1 \<longrightarrow> dictIsRehashing d0" for it''
    using that fp by (simp add: it_ok_def)
  have h: "ht_ok (d_type d0) (dict_ht d0 (it_table it))" "ht_ok (d_type d0) (d_ht1 d0)"
    using dok by (auto simp: dict_ok_def dict_ht_def)
  define bs where "bs = ht_buckets (dict_ht d0 (it_table it))"
  have sz: "ht_size (dict_ht d0 (it_table it)) = length bs" using ht_buckets_size [OF h(1)] by (simp add: bs_def)
  note eq = dictNextBucket_eq [OF ok [unfolded s], folded it'_def, unfolded sz]
  have bk: "it_buckets s = drop (nat (it_index it')) bs @ (if it_table it = 0 \<and> dictIsRehashing d0 then ht_buckets (d_ht1 d0) else [])"
    by (simp add: s it_buckets_def f bs_def it(1))
  have idx: "0 \<le> it_index it'" using f(1) it(2) by simp
  have rel: "dictReleaseIterator addr (it_dict d0 it', it') = Some d0"
    using st fp by (auto simp: dictReleaseIterator_def it_dict_def it_started_def dictFingerprint_def)
  have ne1: "ht_buckets (d_ht1 d0) \<noteq> []" if "dictIsRehashing d0"
    using dok that by (auto simp: dict_ok_def ht_ok_def ht_buckets_def)
  show "\<exists>s'. dictNextBucket addr s = Some (s', False) \<and> dictReleaseIterator addr s' = Some d0" if "it_buckets s = []"
  proof -
    have "length bs \<le> nat (it_index it')" "\<not> (dictIsRehashing d0 \<and> it_table it = 0)"
      using that bk ne1 by (auto split: if_splits)
    then show ?thesis using eq idx rel unfolding s by (auto simp: le_nat_iff)
  qed
  show "\<exists>s'. dictNextBucket addr s = Some (s', True) \<and> it_ok addr d0 s' \<and> it_entry (snd s') = c \<and> it_buckets s' = cs"
    if cons: "it_buckets s = c # cs"
  proof (cases "nat (it_index it') < length bs")
    case True
    let ?it = "it'\<lparr>it_entry := c\<rparr>"
    have "drop (nat (it_index it')) bs = bs ! nat (it_index it') # drop (Suc (nat (it_index it'))) bs"
      by (rule Cons_nth_drop_Suc [OF True, symmetric])
    then have c: "c = bs ! nat (it_index it')" and cs: "cs = drop (Suc (nat (it_index it'))) bs @
        (if it_table it = 0 \<and> dictIsRehashing d0 then ht_buckets (d_ht1 d0) else [])"
      using cons bk by simp_all
    have d: "it_dict d0 it' = it_dict d0 ?it" using st by (simp add: it_dict_def it_started_def)
    have "bucket_get (dict_ht d0 (it_table it)) (nat (it_index it')) = Some c"
      unfolding c bs_def by (rule ht_buckets_get) (use True in \<open>simp add: bs_def\<close>)
    then have "dictNextBucket addr s = Some ((it_dict d0 ?it, ?it), True)"
      using eq True idx unfolding s by (simp add: d zless_nat_conj not_le nat_less_iff)
    moreover have "it_ok addr d0 (it_dict d0 ?it, ?it)"
      by (rule ok') (use st idx it(3,4) f in \<open>auto simp: it_started_def\<close>)
    moreover have "it_buckets (it_dict d0 ?it, ?it) = cs"
    proof -
      have "nat (it_index it' + 1) = Suc (nat (it_index it'))" using idx by simp
      then show ?thesis by (simp add: it_buckets_def cs f(2) bs_def)
    qed
    ultimately show ?thesis by (intro exI [of _ "(it_dict d0 ?it, ?it)"]) simp
  next
    case False
    then have re: "dictIsRehashing d0" "it_table it = 0" and b1: "ht_buckets (d_ht1 d0) = c # cs"
      using cons bk by (auto split: if_splits)
    let ?it = "it'\<lparr>it_table := 1, it_index := 0, it_entry := c\<rparr>"
    have d: "it_dict d0 it' = it_dict d0 ?it" using st by (simp add: it_dict_def it_started_def)
    have "bucket_get (d_ht1 d0) 0 = Some c" using ht_buckets_get [of 0 "d_ht1 d0"] b1 by simp
    then have "dictNextBucket addr s = Some ((it_dict d0 ?it, ?it), True)"
      using eq False idx re unfolding s by (simp add: d not_less le_nat_iff)
    moreover have "it_ok addr d0 (it_dict d0 ?it, ?it)"
      by (rule ok') (use re in \<open>auto simp: it_started_def\<close>)
    moreover have "it_buckets (it_dict d0 ?it, ?it) = cs"
      by (simp add: it_buckets_def dict_ht_def b1)
    ultimately show ?thesis by (intro exI [of _ "(it_dict d0 ?it, ?it)"]) simp
  qed
qed

lemma dictNext_empty:
  assumes dok: "dict_ok d0"
  shows "it_ok addr d0 s \<Longrightarrow> it_entry (snd s) = [] \<Longrightarrow>
    (case it_left s of
       [] \<Rightarrow> \<exists>s'. dictNext addr s = Some (s', None) \<and> dictReleaseIterator addr s' = Some d0
     | x # xs \<Rightarrow> \<exists>s'. dictNext addr s = Some (s', Some x) \<and> it_ok addr d0 s' \<and> it_left s' = xs)"
proof (induction "it_buckets s" arbitrary: s)
  case Nil
  then obtain s' where "dictNextBucket addr s = Some (s', False)" "dictReleaseIterator addr s' = Some d0"
    using dictNextBucket_spec(1) [OF Nil.prems(1) dok] by auto
  moreover have "it_left s = []" using Nil by (simp add: it_left_def)
  ultimately show ?case using Nil.prems(2) by (subst dictNext.simps) (auto split: prod.splits)
next
  case (Cons c cs)
  obtain d1 it1 where s1: "dictNextBucket addr s = Some ((d1, it1), True)" "it_ok addr d0 (d1, it1)" "it_entry it1 = c"
      "it_buckets (d1, it1) = cs"
    using dictNextBucket_spec(2) [OF Cons.prems(1) dok Cons.hyps(2) [symmetric]] by auto
  show ?case
  proof (cases c)
    case Nil
    then have "dictNext addr s = dictNext addr (d1, it1)"
      using Cons.prems(2) s1 by (subst dictNext.simps) simp
    moreover have "it_left s = it_left (d1, it1)"
      using Cons.prems(2) Cons.hyps(2) s1 Nil by (simp add: it_left_def flip: Cons.hyps(2))
    moreover have "cs = it_buckets (d1, it1)" "it_entry (snd (d1, it1)) = []" using s1 Nil by simp_all
    ultimately show ?thesis using Cons.hyps(1) [OF _ s1(2)] by (simp only:)
  next
    case e: (Cons e nx)
    let ?s = "(d1, it1\<lparr>it_nextEntry := nx\<rparr>)"
    have "dictNext addr s = Some (?s, Some e)"
      using Cons.prems(2) s1 e by (subst dictNext.simps) simp
    moreover have "it_left s = e # (nx @ concat cs)"
      using Cons.prems(2) e by (simp add: it_left_def flip: Cons.hyps(2))
    moreover have "it_ok addr d0 ?s" using s1(2) by (simp add: it_ok_def it_dict_def it_started_def)
    moreover have "it_left ?s = nx @ concat cs" using s1(3,4) e by (simp add: it_left_def it_buckets_def)
    ultimately show ?thesis by simp
  qed
qed

lemma dictNext_spec:
  assumes dok: "dict_ok d0" and ok: "it_ok addr d0 s"
  shows "case it_left s of
       [] \<Rightarrow> \<exists>s'. dictNext addr s = Some (s', None) \<and> dictReleaseIterator addr s' = Some d0
     | x # xs \<Rightarrow> \<exists>s'. dictNext addr s = Some (s', Some x) \<and> it_ok addr d0 s' \<and> it_left s' = xs"
proof (cases "it_entry (snd s) = []")
  case False
  obtain d it where s: "s = (d, it)" by (cases s)
  let ?s = "(d, it\<lparr>it_entry := it_nextEntry it\<rparr>)"
  have ok': "it_ok addr d0 ?s" using ok by (simp add: s it_ok_def it_dict_def it_started_def)
  show ?thesis
  proof (cases "it_nextEntry it")
    case Nil
    then have "dictNext addr s = dictNext addr ?s" using False by (subst dictNext.simps) (simp add: s)
    moreover have "it_left s = it_left ?s" using False Nil by (simp add: s it_left_def it_buckets_def)
    moreover have "it_entry (snd ?s) = []" using Nil by simp
    ultimately show ?thesis using dictNext_empty [OF dok ok'] by (simp only:)
  next
    case (Cons e nx)
    let ?s' = "(d, it\<lparr>it_entry := it_nextEntry it, it_nextEntry := nx\<rparr>)"
    have "dictNext addr s = Some (?s', Some e)" using False Cons by (subst dictNext.simps) (simp add: s)
    moreover have "it_left s = e # it_left ?s'" using False Cons by (simp add: s it_left_def it_buckets_def)
    moreover have "it_ok addr d0 ?s'" using ok by (simp add: s it_ok_def it_dict_def it_started_def)
    ultimately show ?thesis by simp
  qed
qed (rule dictNext_empty [OF dok ok])

interpretation dict_iter: iterator "dictNext addr" it_left "\<lambda>s. dict_ok d0 \<and> it_ok addr d0 s"
  "\<lambda>s. dictReleaseIterator addr s = Some d0" for addr d0
proof
  fix s x xs
  assume "dict_ok d0 \<and> it_ok addr d0 s" "it_left s = x # xs"
  then show "\<exists>s'. dictNext addr s = Some (s', Some x) \<and> (dict_ok d0 \<and> it_ok addr d0 s') \<and> it_left s' = xs"
    using dictNext_spec [of d0 addr s] by auto
next
  fix s
  assume "dict_ok d0 \<and> it_ok addr d0 s" "it_left s = []"
  then show "\<exists>s'. dictNext addr s = Some (s', None) \<and> dictReleaseIterator addr s' = Some d0"
    using dictNext_spec [of d0 addr s] by auto
qed


section \<open>Random entries\<close>

text \<open>
  The loops that look for a non-empty bucket; \<open>rnd i\<close> is the \<open>i\<close>-th number
  that \<open>random()\<close> returns.  The table and index found are the result.
\<close>

partial_function (option) randomRehashing :: "(nat \<Rightarrow> nat) \<Rightarrow> nat \<Rightarrow> ('k, 'v) dict \<Rightarrow> (nat \<times> ('k, 'v) chain) option" where
  "randomRehashing rnd i d = do {
     let h = nat (d_rehashidx d) + rnd i mod (ht_size (d_ht0 d) + ht_size (d_ht1 d) - nat (d_rehashidx d));
     he \<leftarrow> (if h \<ge> ht_size (d_ht0 d) then bucket_get (d_ht1 d) (h - ht_size (d_ht0 d)) else bucket_get (d_ht0 d) h);
     if he = [] then randomRehashing rnd (Suc i) d else Some (Suc i, he)
   }"

declare randomRehashing.simps [code]

partial_function (option) randomSingle :: "(nat \<Rightarrow> nat) \<Rightarrow> nat \<Rightarrow> ('k, 'v) dict \<Rightarrow> (nat \<times> ('k, 'v) chain) option" where
  "randomSingle rnd i d = do {
     let h = rnd i AND ht_sizemask (d_ht0 d);
     he \<leftarrow> bucket_get (d_ht0 d) h;
     if he = [] then randomSingle rnd (Suc i) d else Some (Suc i, he)
   }"

declare randomSingle.simps [code]

definition dictGetRandomKey :: "(nat \<Rightarrow> nat) \<Rightarrow> ('k, 'v) dict \<Rightarrow> (('k, 'v) dict \<times> ('k, 'v) dictEntry option) option" where
  "dictGetRandomKey rnd d =
     (if dictSize d = 0 then Some (d, None)
      else do {
        d \<leftarrow> (if dictIsRehashing d then dictRehashStep d else Some d);
        (i, he) \<leftarrow> (if dictIsRehashing d then randomRehashing rnd 0 d else randomSingle rnd 0 d);
        let listele = rnd i mod length he;
        e \<leftarrow> mem_get listele he;
        Some (d, Some e)
      })"

text \<open>
  Random numbers are fair when every residue keeps occurring.
\<close>

definition fair :: "(nat \<Rightarrow> nat) \<Rightarrow> bool" where
  "fair rnd \<longleftrightarrow> (\<forall>n>0. \<forall>h<n. \<exists>j. rnd j mod n = h)"

definition random_bucket :: "('k, 'v) dict \<Rightarrow> nat \<Rightarrow> ('k, 'v) chain option" where
  "random_bucket d h = (if h \<ge> ht_size (d_ht0 d) then bucket_get (d_ht1 d) (h - ht_size (d_ht0 d)) else bucket_get (d_ht0 d) h)"

lemma randomRehashing_returns:
  assumes get: "\<forall>j. \<exists>c. random_bucket d (f (rnd j)) = Some c"
    and f: "f = (\<lambda>r. nat (d_rehashidx d) + r mod (ht_size (d_ht0 d) + ht_size (d_ht1 d) - nat (d_rehashidx d)))"
    and j: "random_bucket d (f (rnd j)) = Some c" "c \<noteq> []"
  shows "i \<le> j \<Longrightarrow> \<exists>k h he. randomRehashing rnd i d = Some (k, he) \<and> he \<noteq> [] \<and> random_bucket d h = Some he"
proof (induction "j - i" arbitrary: i)
  have unf: "randomRehashing rnd i d = (if c' = [] then randomRehashing rnd (Suc i) d else Some (Suc i, c'))"
    if "random_bucket d (f (rnd i)) = Some c'" for i c'
    using that f by (subst randomRehashing.simps) (simp add: random_bucket_def Let_def)
  {
    case 0
    then have "i = j" by simp
    then show ?case using j unf [OF j(1)] by auto
  next
    case (Suc n)
    obtain c' where c': "random_bucket d (f (rnd i)) = Some c'" using get by blast
    show ?case using unf [OF c'] Suc.hyps(1) [of "Suc i"] Suc.hyps(2) Suc.prems c' by (cases "c' = []") auto
  }
qed

lemma randomSingle_returns:
  assumes get: "\<forall>j. \<exists>c. bucket_get (d_ht0 d) (rnd j AND ht_sizemask (d_ht0 d)) = Some c"
    and j: "bucket_get (d_ht0 d) (rnd j AND ht_sizemask (d_ht0 d)) = Some c" "c \<noteq> []"
  shows "i \<le> j \<Longrightarrow> \<exists>k h he. randomSingle rnd i d = Some (k, he) \<and> he \<noteq> [] \<and> bucket_get (d_ht0 d) h = Some he"
proof (induction "j - i" arbitrary: i)
  case 0
  then have "i = j" by simp
  then show ?case using j by (subst randomSingle.simps) (auto simp: Let_def)
next
  case (Suc n)
  obtain c' where c': "bucket_get (d_ht0 d) (rnd i AND ht_sizemask (d_ht0 d)) = Some c'" using get by blast
  then have "randomSingle rnd i d = (if c' = [] then randomSingle rnd (Suc i) d else Some (Suc i, c'))"
    by (subst randomSingle.simps) (simp add: Let_def)
  then show ?case using Suc.hyps(1) [of "Suc i"] Suc.hyps(2) Suc.prems c' by (cases "c' = []") auto
qed

lemma bucket_get_entries: "bucket_get h i = Some c \<Longrightarrow> set c \<subseteq> set (ht_entries h)"
  by (fastforce simp: bucket_get_def mem_get_def ht_entries_def bind_eq_Some_conv split: if_splits)

lemma entry_bucket:
  assumes "e \<in> set (ht_entries h)"
  shows "\<exists>i c. i < length (ht_buckets h) \<and> bucket_get h i = Some c \<and> c \<noteq> []"
proof -
  obtain c where c: "c \<in> set (ht_buckets h)" "e \<in> set c" using assms by (auto simp flip: ht_buckets_concat)
  then obtain i where "i < length (ht_buckets h)" "ht_buckets h ! i = c" by (auto simp: in_set_conv_nth)
  then show ?thesis using ht_buckets_get c(2) by fastforce
qed


lemma random_bucket_total:
  assumes ok: "dict_ok d" and h: "h < ht_size (d_ht0 d) + ht_size (d_ht1 d)"
  shows "\<exists>c. random_bucket d h = Some c \<and> set c \<subseteq> set (dict_entries d)"
proof -
  have s: "length (ht_buckets (d_ht0 d)) = ht_size (d_ht0 d)" "length (ht_buckets (d_ht1 d)) = ht_size (d_ht1 d)"
    using ok ht_buckets_size by (auto simp: dict_ok_def)
  show ?thesis
  proof (cases "h \<ge> ht_size (d_ht0 d)")
    case True
    then have "bucket_get (d_ht1 d) (h - ht_size (d_ht0 d)) = Some (ht_buckets (d_ht1 d) ! (h - ht_size (d_ht0 d)))"
      using h s by (intro ht_buckets_get) simp
    then show ?thesis using True bucket_get_entries by (fastforce simp: random_bucket_def dict_entries_def)
  next
    case False
    then have "bucket_get (d_ht0 d) h = Some (ht_buckets (d_ht0 d) ! h)" using s by (intro ht_buckets_get) simp
    then show ?thesis using False bucket_get_entries by (fastforce simp: random_bucket_def dict_entries_def)
  qed
qed

lemma random_bucket_exists:
  assumes ok: "dict_ok d" and re: "dictIsRehashing d" and ne: "dict_entries d \<noteq> []"
  shows "\<exists>h c. nat (d_rehashidx d) \<le> h \<and> h < ht_size (d_ht0 d) + ht_size (d_ht1 d) \<and> random_bucket d h = Some c \<and> c \<noteq> []"
proof -
  have s: "length (ht_buckets (d_ht0 d)) = ht_size (d_ht0 d)" "length (ht_buckets (d_ht1 d)) = ht_size (d_ht1 d)"
    using ok ht_buckets_size by (auto simp: dict_ok_def)
  obtain e where "e \<in> set (ht_entries (d_ht0 d)) \<or> e \<in> set (ht_entries (d_ht1 d))"
    using ne last_in_set [OF ne] unfolding dict_entries_def by auto
  then show ?thesis
  proof
    assume "e \<in> set (ht_entries (d_ht0 d))"
    then obtain i c where i: "i < ht_size (d_ht0 d)" "bucket_get (d_ht0 d) i = Some c" "c \<noteq> []"
      using entry_bucket [of e "d_ht0 d"] s by auto
    have "nat (d_rehashidx d) \<le> i"
      using ok re i(2,3) by (cases "i < nat (d_rehashidx d)") (auto simp: dict_ok_def)
    then show ?thesis using i by (intro exI [of _ i] exI [of _ c]) (simp add: random_bucket_def)
  next
    assume "e \<in> set (ht_entries (d_ht1 d))"
    then obtain i c where i: "i < ht_size (d_ht1 d)" "bucket_get (d_ht1 d) i = Some c" "c \<noteq> []"
      using entry_bucket [of e "d_ht1 d"] s by auto
    have "nat (d_rehashidx d) \<le> ht_size (d_ht0 d)" using ok re by (simp add: dict_ok_def)
    then show ?thesis using i by (intro exI [of _ "ht_size (d_ht0 d) + i"] exI [of _ c]) (simp add: random_bucket_def)
  qed
qed

lemma random_chain:
  assumes ok: "dict_ok d" and ne: "dict_entries d \<noteq> []" and fair: "fair rnd"
  shows "\<exists>k he. (if dictIsRehashing d then randomRehashing rnd 0 d else randomSingle rnd 0 d) = Some (k, he) \<and>
    he \<noteq> [] \<and> set he \<subseteq> set (dict_entries d)"
proof (cases "dictIsRehashing d")
  case True
  define n where "n = ht_size (d_ht0 d) + ht_size (d_ht1 d) - nat (d_rehashidx d)"
  define f where "f = (\<lambda>r. nat (d_rehashidx d) + r mod n)"
  obtain h c where h: "nat (d_rehashidx d) \<le> h" "h < ht_size (d_ht0 d) + ht_size (d_ht1 d)" "random_bucket d h = Some c" "c \<noteq> []"
    using random_bucket_exists [OF ok True ne] by blast
  then have n: "0 < n" "h - nat (d_rehashidx d) < n" by (simp_all add: n_def)
  then obtain j where "rnd j mod n = h - nat (d_rehashidx d)" using fair unfolding fair_def by blast
  then have j: "random_bucket d (f (rnd j)) = Some c" using h by (simp add: f_def)
  have "f r < ht_size (d_ht0 d) + ht_size (d_ht1 d)" for r
    using n(1) mod_less_divisor [OF n(1), of r] unfolding f_def n_def by linarith
  then have get: "\<forall>j. \<exists>c. random_bucket d (f (rnd j)) = Some c" using random_bucket_total [OF ok] by blast
  obtain k h' he where k: "randomRehashing rnd 0 d = Some (k, he)" "he \<noteq> []" "random_bucket d h' = Some he"
    using randomRehashing_returns [OF get f_def [unfolded n_def] j h(4), of 0] by blast
  have "set he \<subseteq> set (dict_entries d)"
    using k(3) by (auto simp: random_bucket_def dict_entries_def dest: subsetD [OF bucket_get_entries] split: if_splits)
  then show ?thesis using True k by auto
next
  case False
  have h: "ht_ok (d_type d) (d_ht0 d)" and e1: "ht_entries (d_ht1 d) = []"
    using ok False by (auto simp: dict_ok_def dictReset_def ht_entries_def)
  then have "ht_entries (d_ht0 d) \<noteq> []" using ne by (simp add: dict_entries_def)
  then obtain e where e: "e \<in> set (ht_entries (d_ht0 d))" using last_in_set by blast
  then obtain t where t: "ht_table (d_ht0 d) = Some t" by (cases "ht_table (d_ht0 d)") (auto simp: ht_entries_def)
  obtain k where k: "length t = 2 ^ k" "ht_sizemask (d_ht0 d) = 2 ^ k - 1" using h t by (auto simp: ht_ok_def)
  have m: "r AND ht_sizemask (d_ht0 d) = r mod 2 ^ k" for r
  proof -
    have "(2 :: nat) ^ k - 1 = mask k" by (simp add: mask_eq_exp_minus_1)
    then show ?thesis unfolding k(2) by (simp only: take_bit_eq_mod flip: take_bit_eq_mask)
  qed
  obtain i c where i: "i < 2 ^ k" "bucket_get (d_ht0 d) i = Some c" "c \<noteq> []"
    using entry_bucket [OF e] t k(1) by (auto simp: ht_buckets_def)
  obtain j where "rnd j mod 2 ^ k = i" using fair i(1) unfolding fair_def by (metis zero_less_numeral zero_less_power)
  then have j: "bucket_get (d_ht0 d) (rnd j AND ht_sizemask (d_ht0 d)) = Some c" using i m by simp
  have get: "\<forall>j. \<exists>c. bucket_get (d_ht0 d) (rnd j AND ht_sizemask (d_ht0 d)) = Some c"
    unfolding m using bucket_get_eq [OF t] k(1) by simp
  obtain x h' he where "randomSingle rnd 0 d = Some (x, he)" "he \<noteq> []" "bucket_get (d_ht0 d) h' = Some he"
    using randomSingle_returns [OF get j i(3), of 0] by blast
  then show ?thesis using False bucket_get_entries by (fastforce simp: dict_entries_def)
qed


section \<open>Sampling\<close>

text \<open>
  The state of the sampling loop: the index \<open>i\<close>, the length of the current
  run of empty buckets, the entries stored so far and the number of random
  numbers drawn.
\<close>

type_synonym ('k, 'v) sample = "nat \<times> nat \<times> ('k, 'v) chain \<times> nat"

definition someKeysTable ::
    "(nat \<Rightarrow> nat) \<Rightarrow> nat \<Rightarrow> nat \<Rightarrow> nat \<Rightarrow> ('k, 'v) dict \<Rightarrow> nat \<Rightarrow> ('k, 'v) sample \<Rightarrow> ('k, 'v) sample option" where
  "someKeysTable rnd cnt maxsizemask tables d j s = (case s of (i, emptylen, stored, r) \<Rightarrow>
     (if tables = 2 \<and> j = 0 \<and> i < nat (d_rehashidx d) then
        Some (if i \<ge> ht_size (d_ht1 d) then nat (d_rehashidx d) else i, emptylen, stored, r)
      else if i \<ge> ht_size (dict_ht d j) then Some (i, emptylen, stored, r)
      else do {
        he \<leftarrow> bucket_get (dict_ht d j) i;
        if he = [] then
          (let emptylen = emptylen + 1 in
           if emptylen \<ge> 5 \<and> emptylen > cnt then Some (rnd r AND maxsizemask, 0, stored, r + 1)
           else Some (i, emptylen, stored, r))
        else Some (i, 0, stored @ take (cnt - length stored) he, r)
      }))"

fun someKeysLoop ::
    "(nat \<Rightarrow> nat) \<Rightarrow> nat \<Rightarrow> nat \<Rightarrow> nat \<Rightarrow> ('k, 'v) dict \<Rightarrow> nat \<Rightarrow> ('k, 'v) sample \<Rightarrow> ('k, 'v) chain option" where
  "someKeysLoop rnd cnt maxsizemask tables d 0 (i, emptylen, stored, r) = Some stored"
| "someKeysLoop rnd cnt maxsizemask tables d (Suc maxsteps) (i, emptylen, stored, r) =
     (if length stored \<ge> cnt then Some stored
      else do {
        (i, emptylen, stored, r) \<leftarrow> someKeysTable rnd cnt maxsizemask tables d 0 (i, emptylen, stored, r);
        if length stored = cnt then Some stored
        else do {
          (i, emptylen, stored, r) \<leftarrow>
            (if tables = 2 then someKeysTable rnd cnt maxsizemask tables d 1 (i, emptylen, stored, r)
             else Some (i, emptylen, stored, r));
          if length stored = cnt then Some stored
          else someKeysLoop rnd cnt maxsizemask tables d maxsteps ((i + 1) AND maxsizemask, emptylen, stored, r)
        }
      })"

text \<open>The rehashing work proportional to \<open>count\<close>.\<close>

fun someKeysRehash :: "nat \<Rightarrow> ('k, 'v) dict \<Rightarrow> ('k, 'v) dict option" where
  "someKeysRehash 0 d = Some d"
| "someKeysRehash (Suc n) d =
     (if dictIsRehashing d then do { d \<leftarrow> dictRehashStep d; someKeysRehash n d } else Some d)"

definition dictGetSomeKeys ::
    "(nat \<Rightarrow> nat) \<Rightarrow> ('k, 'v) dict \<Rightarrow> nat \<Rightarrow> (('k, 'v) dict \<times> ('k, 'v) chain) option" where
  "dictGetSomeKeys rnd d cnt = do {
     let cnt = (if dictSize d < cnt then dictSize d else cnt);
     d \<leftarrow> someKeysRehash cnt d;
     let tables = (if dictIsRehashing d then 2 else 1);
     let maxsizemask = (if tables > 1 \<and> ht_sizemask (d_ht0 d) < ht_sizemask (d_ht1 d)
                        then ht_sizemask (d_ht1 d) else ht_sizemask (d_ht0 d));
     es \<leftarrow> someKeysLoop rnd cnt maxsizemask tables d (cnt * 10) (rnd 0 AND maxsizemask, 0, [], 1);
     Some (d, es)
   }"

lemma someKeysTable_ok:
  assumes ok: "dict_ok d" and s: "set stored \<subseteq> set (dict_entries d)" "length stored \<le> cnt"
  shows "\<exists>i' e' stored' r'. someKeysTable rnd cnt m tables d j (i, emptylen, stored, r) = Some (i', e', stored', r') \<and>
    set stored' \<subseteq> set (dict_entries d) \<and> length stored' \<le> cnt"
proof (cases "tables = 2 \<and> j = 0 \<and> i < nat (d_rehashidx d) \<or> i \<ge> ht_size (dict_ht d j)")
  case True
  then show ?thesis using s by (auto simp: someKeysTable_def)
next
  case False
  have "ht_ok (d_type d) (dict_ht d j)" using ok by (auto simp: dict_ok_def dict_ht_def)
  then obtain c where c: "bucket_get (dict_ht d j) i = Some c"
    using ht_buckets_get [of i "dict_ht d j"] ht_buckets_size [of "d_type d" "dict_ht d j"] False by simp
  have "set c \<subseteq> set (dict_entries d)"
    using bucket_get_entries [OF c] by (auto simp: dict_entries_def dict_ht_def split: if_splits)
  then have "set (stored @ take (cnt - length stored) c) \<subseteq> set (dict_entries d)"
    using s(1) by (auto dest: in_set_takeD)
  then show ?thesis using False c s by (auto simp: someKeysTable_def Let_def)
qed

lemma someKeysLoop_ok:
  assumes ok: "dict_ok d"
  shows "set stored \<subseteq> set (dict_entries d) \<Longrightarrow> length stored \<le> cnt \<Longrightarrow>
    \<exists>es. someKeysLoop rnd cnt m tables d n (i, emptylen, stored, r) = Some es \<and>
      set es \<subseteq> set (dict_entries d) \<and> length es \<le> cnt"
proof (induction n arbitrary: i emptylen stored r)
  case (Suc n)
  obtain i1 e1 st1 r1 where 1: "someKeysTable rnd cnt m tables d 0 (i, emptylen, stored, r) = Some (i1, e1, st1, r1)"
      "set st1 \<subseteq> set (dict_entries d)" "length st1 \<le> cnt"
    using someKeysTable_ok [OF ok Suc.prems, of rnd m tables 0 i emptylen r] by auto
  obtain i2 e2 st2 r2 where 2: "(if tables = 2 then someKeysTable rnd cnt m tables d 1 (i1, e1, st1, r1)
        else Some (i1, e1, st1, r1)) = Some (i2, e2, st2, r2)"
      "set st2 \<subseteq> set (dict_entries d)" "length st2 \<le> cnt"
    using someKeysTable_ok [OF ok 1(2,3), of rnd m tables 1 i1 e1 r1] 1(2,3) by (cases "tables = 2") auto
  show ?case
    using Suc.prems 1 2 Suc.IH [OF 2(2,3)] by (auto simp del: One_nat_def)
qed simp

context dict_type
begin

lemma someKeysRehash_ok:
  "dict_ok d \<Longrightarrow> d_type d = ty \<Longrightarrow> \<exists>d'. someKeysRehash n d = Some d' \<and> dict_ok d' \<and> same_entries d d'"
proof (induction n arbitrary: d)
  case (Suc n)
  show ?case
  proof (cases "dictIsRehashing d")
    case True
    obtain d1 where d1: "dictRehashStep d = Some d1" "dict_ok d1" "same_entries d d1"
      using dictRehashStep_ok [OF Suc.prems] by blast
    then obtain d' where "someKeysRehash n d1 = Some d'" "dict_ok d'" "same_entries d1 d'"
      using Suc.IH [of d1] Suc.prems(2) by (auto simp: same_entries_def)
    then show ?thesis using True d1 same_entries_trans by auto
  qed (use Suc.prems in simp)
qed simp

end

section \<open>Properties\<close>

text \<open>Property C23.  An iterator, safe or not, on a well-formed dictionary that is possibly being
  rehashed returns every entry exactly once, bucket by bucket, and then no more; releasing it
  succeeds and leaves the dictionary as it was, with the cnt of iterators restored.\<close>

theorem dictIterator_all:
  assumes "dict_ok d"
  shows "\<exists>s. drain (dictNext addr) (d, if safe then dictGetSafeIterator else dictGetIterator) = Some (s, dict_entries d) \<and>
    dictReleaseIterator addr s = Some d"
proof -
  define it :: "('a, 'b) dictIterator" where "it = (if safe then dictGetSafeIterator else dictGetIterator)"
  have ok: "it_ok addr d (d, it)"
    by (auto simp: it_ok_def it_def dictGetSafeIterator_def dictGetIterator_def it_dict_def it_started_def)
  have "ht_entries (d_ht1 d) = []" if "\<not> dictIsRehashing d"
    using assms that by (simp add: dict_ok_def dictReset_def ht_entries_def)
  then have "it_left (d, it) = dict_entries d"
    by (auto simp: it_left_def it_buckets_def it_def dictGetSafeIterator_def dictGetIterator_def dict_entries_def
      dict_ht_def ht_buckets_concat)
  then show ?thesis using dict_iter.drain_all [of d addr "(d, it)"] assms ok unfolding it_def by auto
qed

theorem dictIterator_all_witness:
  "\<exists>s. drain (dictNext (1, 2)) (dict_ex, dictGetSafeIterator) = Some (s, [\<lparr>de_key = [97], de_val = 1\<rparr>]) \<and>
    dictReleaseIterator (1, 2) s = Some dict_ex"
  using dictIterator_all [OF dict_ex_ok(1), of "(1, 2)" True]
  by (simp add: dict_ex_def dict_entries_def ht_entries_def)




text \<open>Property C28.  Sampling a well-formed dictionary terminates whatever the random numbers, never
  leaves the tables, and stores at most the requested number of entries, all of them entries of the
  dictionary.\<close>

theorem dictGetSomeKeys_sound:
  assumes "dict_type ty" and "dict_ok d" and "d_type d = ty"
  shows "\<exists>d' es. dictGetSomeKeys rnd d cnt = Some (d', es) \<and> dict_ok d' \<and>
    set es \<subseteq> set (dict_entries d) \<and> length es \<le> min cnt (dictSize d)"
proof -
  define n where "n = (if dictSize d < cnt then dictSize d else cnt)"
  obtain d' where d': "someKeysRehash n d = Some d'" "dict_ok d'" "same_entries d d'"
    using dict_type.someKeysRehash_ok [OF assms] by blast
  have es: "set (dict_entries d') = set (dict_entries d)"
    using d'(3) by (auto simp: same_entries_def dest: mset_eq_setD)
  define t :: nat where "t = (if dictIsRehashing d' then 2 else 1)"
  define m where "m = (if t > 1 \<and> ht_sizemask (d_ht0 d') < ht_sizemask (d_ht1 d')
                        then ht_sizemask (d_ht1 d') else ht_sizemask (d_ht0 d'))"
  obtain r where r: "someKeysLoop rnd n m t d' (n * 10) (rnd 0 AND m, 0, [], 1) = Some r"
      "set r \<subseteq> set (dict_entries d')" "length r \<le> n"
    using someKeysLoop_ok [OF d'(2), of "[]" n rnd m t "n * 10" "rnd 0 AND m" 0 1] by auto
  have "dictGetSomeKeys rnd d cnt = Some (d', r)"
    unfolding dictGetSomeKeys_def n_def [symmetric] Let_def
    using d'(1) r(1) unfolding m_def t_def by simp
  moreover have "n = min cnt (dictSize d)" by (simp add: n_def)
  ultimately show ?thesis using d'(2) r(2,3) es by simp
qed

theorem dictGetSomeKeys_sound_witness:
  "\<exists>d' es. dictGetSomeKeys (\<lambda>i. i) dict_ex 3 = Some (d', es) \<and> dict_ok d' \<and>
    set es \<subseteq> set (dict_entries dict_ex) \<and> length es \<le> min 3 (dictSize dict_ex)"
  by (rule dictGetSomeKeys_sound [OF db_type.dict_type_axioms dict_ex_ok(1,2)])

end
