(* ===== verification/Adlist.thy ===== *)
theory Adlist
  imports Interfaces
begin

text \<open>
  The doubly linked list of \<open>adlist.c\<close> on an explicit heap: nodes are cells of a
  map from addresses to records, links are optional addresses (\<open>None\<close> is
  \<open>NULL\<close>), and dereferencing an address without a node is \<open>None\<close>.  The
  address that \<open>zmalloc\<close> returns is an argument of the operations that
  allocate.  Clients hold node addresses, so updates of links are visible
  through every alias as in the code.
\<close>

section \<open>Data\<close>

record 'v listNode =
  n_prev :: "nat option"
  n_next :: "nat option"
  n_value :: 'v

type_synonym 'v node_heap = "nat \<Rightarrow> 'v listNode option"

record 'v adlist =
  l_head :: "nat option"
  l_tail :: "nat option"
  l_len :: nat
  l_heap :: "'v node_heap"

datatype direction = AL_START_HEAD | AL_START_TAIL

record listIter =
  li_next :: "nat option"
  li_direction :: direction

definition set_next :: "nat \<Rightarrow> nat option \<Rightarrow> 'v node_heap \<Rightarrow> 'v node_heap option" where
  "set_next a x h = map_option (\<lambda>n. h(a \<mapsto> n\<lparr>n_next := x\<rparr>)) (h a)"

definition set_prev :: "nat \<Rightarrow> nat option \<Rightarrow> 'v node_heap \<Rightarrow> 'v node_heap option" where
  "set_prev a x h = map_option (\<lambda>n. h(a \<mapsto> n\<lparr>n_prev := x\<rparr>)) (h a)"

section \<open>Operations\<close>

definition listCreate :: "'v adlist" where
  "listCreate = \<lparr>l_head = None, l_tail = None, l_len = 0, l_heap = Map.empty\<rparr>"

fun listReleaseLoop :: "nat \<Rightarrow> nat option \<Rightarrow> 'v node_heap \<Rightarrow> 'v node_heap option" where
  "listReleaseLoop 0 current h = Some h"
| "listReleaseLoop (Suc len) current h = do {
     c \<leftarrow> current;
     n \<leftarrow> h c;
     listReleaseLoop len (n_next n) (h(c := None))
   }"

definition listRelease :: "'v adlist \<Rightarrow> 'v node_heap option" where
  "listRelease l = listReleaseLoop (l_len l) (l_head l) (l_heap l)"

definition listAddNodeHead :: "'v adlist \<Rightarrow> nat \<Rightarrow> 'v \<Rightarrow> 'v adlist option" where
  "listAddNodeHead l node v =
     (if l_len l = 0 then
        Some (l\<lparr>l_head := Some node, l_tail := Some node, l_len := l_len l + 1,
                l_heap := (l_heap l)(node \<mapsto> \<lparr>n_prev = None, n_next = None, n_value = v\<rparr>)\<rparr>)
      else do {
        let h = (l_heap l)(node \<mapsto> \<lparr>n_prev = None, n_next = l_head l, n_value = v\<rparr>);
        hd \<leftarrow> l_head l;
        h \<leftarrow> set_prev hd (Some node) h;
        Some (l\<lparr>l_head := Some node, l_len := l_len l + 1, l_heap := h\<rparr>)
      })"

definition listAddNodeTail :: "'v adlist \<Rightarrow> nat \<Rightarrow> 'v \<Rightarrow> 'v adlist option" where
  "listAddNodeTail l node v =
     (if l_len l = 0 then
        Some (l\<lparr>l_head := Some node, l_tail := Some node, l_len := l_len l + 1,
                l_heap := (l_heap l)(node \<mapsto> \<lparr>n_prev = None, n_next = None, n_value = v\<rparr>)\<rparr>)
      else do {
        let h = (l_heap l)(node \<mapsto> \<lparr>n_prev = l_tail l, n_next = None, n_value = v\<rparr>);
        tl \<leftarrow> l_tail l;
        h \<leftarrow> set_next tl (Some node) h;
        Some (l\<lparr>l_tail := Some node, l_len := l_len l + 1, l_heap := h\<rparr>)
      })"

definition listInsertNode :: "'v adlist \<Rightarrow> nat \<Rightarrow> nat \<Rightarrow> 'v \<Rightarrow> bool \<Rightarrow> 'v adlist option" where
  "listInsertNode l old_node node v after = do {
     old \<leftarrow> l_heap l old_node;
     let n = (if after then \<lparr>n_prev = Some old_node, n_next = n_next old, n_value = v\<rparr>
              else \<lparr>n_prev = n_prev old, n_next = Some old_node, n_value = v\<rparr>);
     let l = (if after then (if l_tail l = Some old_node then l\<lparr>l_tail := Some node\<rparr> else l)
              else (if l_head l = Some old_node then l\<lparr>l_head := Some node\<rparr> else l));
     let h = (l_heap l)(node \<mapsto> n);
     h \<leftarrow> (case n_prev n of Some p \<Rightarrow> set_next p (Some node) h | None \<Rightarrow> Some h);
     h \<leftarrow> (case n_next n of Some q \<Rightarrow> set_prev q (Some node) h | None \<Rightarrow> Some h);
     Some (l\<lparr>l_len := l_len l + 1, l_heap := h\<rparr>)
   }"

definition listDelNode :: "'v adlist \<Rightarrow> nat \<Rightarrow> 'v adlist option" where
  "listDelNode l node = do {
     n \<leftarrow> l_heap l node;
     l \<leftarrow> (case n_prev n of
         Some p \<Rightarrow> do { h \<leftarrow> set_next p (n_next n) (l_heap l); Some (l\<lparr>l_heap := h\<rparr>) }
       | None \<Rightarrow> Some (l\<lparr>l_head := n_next n\<rparr>));
     l \<leftarrow> (case n_next n of
         Some q \<Rightarrow> do { h \<leftarrow> set_prev q (n_prev n) (l_heap l); Some (l\<lparr>l_heap := h\<rparr>) }
       | None \<Rightarrow> Some (l\<lparr>l_tail := n_prev n\<rparr>));
     Some (l\<lparr>l_heap := (l_heap l)(node := None), l_len := l_len l - 1\<rparr>)
   }"

definition listGetIterator :: "'v adlist \<Rightarrow> direction \<Rightarrow> listIter" where
  "listGetIterator l d = \<lparr>li_next = (if d = AL_START_HEAD then l_head l else l_tail l), li_direction = d\<rparr>"

definition listRewind :: "'v adlist \<Rightarrow> listIter" where
  "listRewind l = \<lparr>li_next = l_head l, li_direction = AL_START_HEAD\<rparr>"

definition listRewindTail :: "'v adlist \<Rightarrow> listIter" where
  "listRewindTail l = \<lparr>li_next = l_tail l, li_direction = AL_START_TAIL\<rparr>"

text \<open>The result is the iterator and the node returned, if any.\<close>

definition listNext :: "'v adlist \<Rightarrow> listIter \<Rightarrow> (listIter \<times> nat option) option" where
  "listNext l it =
     (case li_next it of
        None \<Rightarrow> Some (it, None)
      | Some current \<Rightarrow> do {
          n \<leftarrow> l_heap l current;
          Some (it\<lparr>li_next := (if li_direction it = AL_START_HEAD then n_next n else n_prev n)\<rparr>, Some current)
        })"

text \<open>
  \<open>listDup\<close>: \<open>dup\<close> is the copy method (which may fail), \<open>fresh\<close> the
  addresses of the new nodes.  The outer option is an invalid access, the inner
  one the failure to copy.  The copy lives in a heap of its own.
\<close>

partial_function (option) listDupLoop ::
    "'v adlist \<Rightarrow> ('v \<Rightarrow> 'v option) option \<Rightarrow> (nat \<Rightarrow> nat) \<Rightarrow> nat \<Rightarrow> listIter \<Rightarrow> 'v adlist \<Rightarrow> 'v adlist option option" where
  "listDupLoop orig dup fresh i it copy = do {
     (it, node) \<leftarrow> listNext orig it;
     (case node of
        None \<Rightarrow> Some (Some copy)
      | Some a \<Rightarrow> do {
          n \<leftarrow> l_heap orig a;
          (case (case dup of Some f \<Rightarrow> f (n_value n) | None \<Rightarrow> Some (n_value n)) of
             None \<Rightarrow> do { _ \<leftarrow> listRelease copy; Some None }
           | Some v \<Rightarrow> do {
               copy \<leftarrow> listAddNodeTail copy (fresh i) v;
               listDupLoop orig dup fresh (Suc i) it copy
             })
        })
   }"

declare listDupLoop.simps [code]

definition listDup :: "'v adlist \<Rightarrow> ('v \<Rightarrow> 'v option) option \<Rightarrow> (nat \<Rightarrow> nat) \<Rightarrow> 'v adlist option option" where
  "listDup orig dup fresh = listDupLoop orig dup fresh 0 (listGetIterator orig AL_START_HEAD) listCreate"

partial_function (option) listSearchLoop ::
    "'v adlist \<Rightarrow> ('v \<Rightarrow> 'v \<Rightarrow> bool) option \<Rightarrow> 'v \<Rightarrow> listIter \<Rightarrow> nat option option" where
  "listSearchLoop l match key it = do {
     (it, node) \<leftarrow> listNext l it;
     (case node of
        None \<Rightarrow> Some None
      | Some a \<Rightarrow> do {
          n \<leftarrow> l_heap l a;
          if (case match of Some f \<Rightarrow> f (n_value n) key | None \<Rightarrow> key = n_value n) then Some (Some a)
          else listSearchLoop l match key it
        })
   }"

declare listSearchLoop.simps [code]

definition listSearchKey :: "'v adlist \<Rightarrow> ('v \<Rightarrow> 'v \<Rightarrow> bool) option \<Rightarrow> 'v \<Rightarrow> nat option option" where
  "listSearchKey l match key = listSearchLoop l match key (listGetIterator l AL_START_HEAD)"

fun listIndexLoop :: "'v node_heap \<Rightarrow> ('v listNode \<Rightarrow> nat option) \<Rightarrow> nat \<Rightarrow> nat option \<Rightarrow> nat option option" where
  "listIndexLoop h step index None = Some None"
| "listIndexLoop h step 0 (Some n) = Some (Some n)"
| "listIndexLoop h step (Suc index) (Some n) = do { c \<leftarrow> h n; listIndexLoop h step index (step c) }"

definition listIndex :: "'v adlist \<Rightarrow> int \<Rightarrow> nat option option" where
  "listIndex l index =
     (if index < 0 then listIndexLoop (l_heap l) n_prev (nat (- index - 1)) (l_tail l)
      else listIndexLoop (l_heap l) n_next (nat index) (l_head l))"

definition listRotate :: "'v adlist \<Rightarrow> 'v adlist option" where
  "listRotate l =
     (if l_len l \<le> 1 then Some l
      else do {
        tail \<leftarrow> l_tail l;
        tn \<leftarrow> l_heap l tail;
        newtail \<leftarrow> n_prev tn;
        h \<leftarrow> set_next newtail None (l_heap l);
        hd \<leftarrow> l_head l;
        h \<leftarrow> set_prev hd (Some tail) h;
        h \<leftarrow> set_prev tail None h;
        h \<leftarrow> set_next tail (Some hd) h;
        Some (l\<lparr>l_head := Some tail, l_tail := Some newtail, l_heap := h\<rparr>)
      })"

section \<open>The sequence a list stands for\<close>

text \<open>
  \<open>dseg h p cs n\<close>: the cells \<open>cs\<close> (address and value) are linked in this order,
  the first one back to \<open>p\<close> and the last one on to \<open>n\<close>.
\<close>

fun dseg :: "'v node_heap \<Rightarrow> nat option \<Rightarrow> (nat \<times> 'v) list \<Rightarrow> nat option \<Rightarrow> bool" where
  "dseg h p [] n \<longleftrightarrow> True"
| "dseg h p ((a, v) # cs) n \<longleftrightarrow>
     h a = Some \<lparr>n_prev = p, n_next = (case cs of [] \<Rightarrow> n | (b, _) # _ \<Rightarrow> Some b), n_value = v\<rparr> \<and>
     dseg h (Some a) cs n"

definition first_addr :: "(nat \<times> 'v) list \<Rightarrow> nat option \<Rightarrow> nat option" where
  "first_addr cs n = (case cs of [] \<Rightarrow> n | (a, _) # _ \<Rightarrow> Some a)"

definition last_addr :: "nat option \<Rightarrow> (nat \<times> 'v) list \<Rightarrow> nat option" where
  "last_addr p cs = (if cs = [] then p else Some (fst (last cs)))"

definition adlist_rep :: "'v adlist \<Rightarrow> (nat \<times> 'v) list \<Rightarrow> bool" where
  "adlist_rep l cs \<longleftrightarrow>
     distinct (map fst cs) \<and> l_len l = length cs \<and> l_head l = first_addr cs None \<and>
     l_tail l = last_addr None cs \<and> dseg (l_heap l) None cs None \<and> dom (l_heap l) = fst ` set cs"

lemma first_addr_simps [simp]:
  "first_addr [] n = n" "first_addr (c # cs) n = Some (fst c)" "first_addr (xs @ ys) n = first_addr xs (first_addr ys n)"
  by (auto simp: first_addr_def split: list.splits prod.splits)

lemma last_addr_simps [simp]:
  "last_addr p [] = p" "last_addr p (c # cs) = last_addr (Some (fst c)) cs"
  "last_addr p (xs @ ys) = last_addr (last_addr p xs) ys"
  by (auto simp: last_addr_def)

lemma dseg_Cons: "dseg h p (c # cs) n \<longleftrightarrow>
    h (fst c) = Some \<lparr>n_prev = p, n_next = first_addr cs n, n_value = snd c\<rparr> \<and> dseg h (Some (fst c)) cs n"
  by (cases c) (simp add: first_addr_def split: list.splits)

lemma dseg_append: "dseg h p (xs @ ys) n \<longleftrightarrow> dseg h p xs (first_addr ys n) \<and> dseg h (last_addr p xs) ys n"
  by (induction xs arbitrary: p) (auto simp: dseg_Cons simp del: dseg.simps(2))

lemma dseg_upd: "a \<notin> fst ` set cs \<Longrightarrow> dseg (h(a := x)) p cs n \<longleftrightarrow> dseg h p cs n"
  by (induction cs arbitrary: p) (auto simp: dseg_Cons simp del: dseg.simps(2))


declare dseg.simps(2) [simp del]

lemmas dseg_simps = dseg_Cons dseg_append dseg_upd set_next_def set_prev_def

lemma dseg_node: "dseg h p (xs @ c # ys) n \<Longrightarrow>
    h (fst c) = Some \<lparr>n_prev = last_addr p xs, n_next = first_addr ys n, n_value = snd c\<rparr>"
  by (simp add: dseg_simps)

lemma last_addr_in: "last_addr None xs = Some a \<Longrightarrow> \<exists>ys v. xs = ys @ [(a, v)]"
  by (cases xs rule: rev_cases) auto

lemma last_addr_mem: "last_addr (Some b) ys = Some a \<Longrightarrow> a = b \<or> a \<in> fst ` set ys"
  by (cases ys rule: rev_cases) auto

lemma first_addr_mem: "first_addr xs (Some b) = Some a \<Longrightarrow> a = b \<or> a \<in> fst ` set xs"
  by (cases xs) auto

lemma dom_single: "dom h = {a} \<Longrightarrow> h(a := None) = Map.empty"
  by (rule ext) auto

text \<open>Redirecting the link out of, or into, a segment.\<close>

lemma dseg_set_next:
  assumes "dseg h p (xs @ [(a, v)]) n" and "distinct (map fst (xs @ [(a, v)]))"
  shows "\<exists>h'. set_next a x h = Some h' \<and> dseg h' p (xs @ [(a, v)]) x \<and> (\<forall>b. b \<noteq> a \<longrightarrow> h' b = h b) \<and> dom h' = dom h"
  using assms by (auto simp: dseg_simps)

lemma dseg_set_prev:
  assumes "dseg h p ((a, v) # xs) n" and "distinct (map fst ((a, v) # xs))"
  shows "\<exists>h'. set_prev a x h = Some h' \<and> dseg h' x ((a, v) # xs) n \<and> (\<forall>b. b \<noteq> a \<longrightarrow> h' b = h b) \<and> dom h' = dom h"
  using assms by (auto simp: dseg_simps)

lemma dseg_cong: "\<forall>a\<in>fst ` set cs. h' a = h a \<Longrightarrow> dseg h' p cs n \<longleftrightarrow> dseg h p cs n"
  by (induction cs arbitrary: p) (auto simp: dseg_Cons)

lemma listAddNodeHead_ok:
  assumes "adlist_rep l cs" and "node \<notin> dom (l_heap l)"
  shows "\<exists>l'. listAddNodeHead l node v = Some l' \<and> adlist_rep l' ((node, v) # cs)"
proof (cases cs)
  case Nil
  then show ?thesis using assms by (auto simp: listAddNodeHead_def adlist_rep_def dseg_simps)
next
  case (Cons c cs')
  have "fst c \<noteq> node" "node \<notin> fst ` set cs'" using assms Cons by (auto simp: adlist_rep_def)
  then show ?thesis
    using assms Cons by (auto simp: listAddNodeHead_def adlist_rep_def dseg_simps Let_def)
qed

lemma listAddNodeTail_ok:
  assumes "adlist_rep l cs" and "node \<notin> dom (l_heap l)"
  shows "\<exists>l'. listAddNodeTail l node v = Some l' \<and> adlist_rep l' (cs @ [(node, v)])"
proof (cases cs rule: rev_cases)
  case Nil
  then show ?thesis using assms by (auto simp: listAddNodeTail_def adlist_rep_def dseg_simps)
next
  case (snoc cs' c)
  have "fst c \<noteq> node" "node \<notin> fst ` set cs'" using assms snoc by (auto simp: adlist_rep_def)
  then show ?thesis
    using assms snoc by (auto simp: listAddNodeTail_def adlist_rep_def dseg_simps Let_def)
qed

lemma listDelNode_ok:
  assumes rep: "adlist_rep l (xs @ (a, v) # ys)"
  shows "\<exists>l'. listDelNode l a = Some l' \<and> adlist_rep l' (xs @ ys)"
proof -
  have d: "distinct (map fst xs)" "distinct (map fst ys)" "a \<notin> fst ` set xs" "a \<notin> fst ` set ys"
      "fst ` set xs \<inter> fst ` set ys = {}"
    using rep by (auto simp: adlist_rep_def)
  consider "xs = []" "ys = []" | x xs' where "xs = xs' @ [x]" "ys = []" | y ys' where "xs = []" "ys = y # ys'"
    | x xs' y ys' where "xs = xs' @ [x]" "ys = y # ys'"
    by (metis list.exhaust rev_exhaust)
  then show ?thesis
  proof cases
    case 1
    then show ?thesis using rep d by (auto simp: listDelNode_def adlist_rep_def dseg_simps dom_single)
  next
    case 2
    then show ?thesis using rep d by (auto simp: listDelNode_def adlist_rep_def dseg_simps)
  next
    case 3
    then show ?thesis using rep d by (auto simp: listDelNode_def adlist_rep_def dseg_simps)
  next
    case 4
    then show ?thesis using rep d by (auto simp: listDelNode_def adlist_rep_def dseg_simps)
  qed
qed

lemma listInsertNode_ok:
  assumes rep: "adlist_rep l (xs @ (a, w) # ys)" and node: "node \<notin> dom (l_heap l)"
  shows "\<exists>l'. listInsertNode l a node v after = Some l' \<and>
    adlist_rep l' (if after then xs @ (a, w) # (node, v) # ys else xs @ (node, v) # (a, w) # ys)"
proof -
  have d: "distinct (map fst xs)" "distinct (map fst ys)" "a \<notin> fst ` set xs" "a \<notin> fst ` set ys"
      "fst ` set xs \<inter> fst ` set ys = {}" "node \<noteq> a" "node \<notin> fst ` set xs" "node \<notin> fst ` set ys"
    using rep node by (auto simp: adlist_rep_def)
  show ?thesis
  proof (cases after)
    case True
    show ?thesis
    proof (cases ys)
      case Nil
      then show ?thesis using True rep d by (auto simp: listInsertNode_def adlist_rep_def dseg_simps dest: last_addr_mem)
    next
      case (Cons y ys')
      then show ?thesis using True rep d by (auto simp: listInsertNode_def adlist_rep_def dseg_simps dest: last_addr_mem)
    qed
  next
    case False
    show ?thesis
    proof (cases xs rule: rev_cases)
      case Nil
      then show ?thesis using False rep d by (auto simp: listInsertNode_def adlist_rep_def dseg_simps dest: first_addr_mem)
    next
      case (snoc xs' x)
      then show ?thesis using False rep d by (auto simp: listInsertNode_def adlist_rep_def dseg_simps dest: first_addr_mem)
    qed
  qed
qed

lemma listRotate_ok:
  assumes rep: "adlist_rep l cs"
  shows "\<exists>l'. listRotate l = Some l' \<and> adlist_rep l' (if cs = [] then [] else last cs # butlast cs)"
proof -
  consider "length cs \<le> 1" | x xs y where "cs = x # xs @ [y]"
    by (cases cs; cases "tl cs" rule: rev_cases) auto
  then show ?thesis
  proof cases
    case 1
    then have "listRotate l = Some l" using rep by (simp add: listRotate_def adlist_rep_def)
    moreover have "(if cs = [] then [] else last cs # butlast cs) = cs" using 1 by (cases cs) auto
    ultimately show ?thesis using rep by simp
  next
    case 2
    then have r: "(if cs = [] then [] else last cs # butlast cs) = y # x # xs" by (simp add: butlast_append)
    show ?thesis
    proof (cases xs rule: rev_cases)
      case Nil
      then show ?thesis unfolding r using rep 2 by (auto simp: listRotate_def adlist_rep_def dseg_simps)
    next
      case (snoc zs z)
      then show ?thesis unfolding r using rep 2 by (auto simp: listRotate_def adlist_rep_def dseg_simps)
    qed
  qed
qed

subsection \<open>Traversal\<close>

lemma listIndexLoop_next:
  "dseg h p cs None \<Longrightarrow> listIndexLoop h n_next i (first_addr cs None) = Some (if i < length cs then Some (fst (cs ! i)) else None)"
proof (induction cs arbitrary: p i)
  case (Cons c cs)
  then show ?case by (cases i) (auto simp: dseg_simps)
qed simp

lemma listIndexLoop_prev:
  "dseg h None cs n \<Longrightarrow> listIndexLoop h n_prev i (last_addr None cs) = Some (if i < length cs then Some (fst (rev cs ! i)) else None)"
proof (induction cs arbitrary: n i rule: rev_induct)
  case (snoc c cs)
  then show ?case by (cases i) (auto simp: dseg_simps)
qed simp

lemma listIndex_ok:
  assumes "adlist_rep l cs"
  shows "listIndex l i = Some (if - int (length cs) \<le> i \<and> i < int (length cs)
    then Some (fst (cs ! nat (if i < 0 then int (length cs) + i else i))) else None)"
proof (cases "i < 0")
  have seg: "dseg (l_heap l) None cs None" using assms by (simp add: adlist_rep_def)
  case True
  have "listIndex l i = Some (if nat (- i - 1) < length cs then Some (fst (rev cs ! nat (- i - 1))) else None)"
    using True assms listIndexLoop_prev [OF seg] by (simp add: listIndex_def adlist_rep_def)
  moreover have "rev cs ! nat (- i - 1) = cs ! nat (int (length cs) + i)" if "nat (- i - 1) < length cs"
  proof -
    have "length cs - Suc (nat (- i - 1)) = nat (int (length cs) + i)" using True that by linarith
    then show ?thesis using that by (simp add: rev_nth)
  qed
  ultimately show ?thesis using True by auto
next
  case False
  have seg: "dseg (l_heap l) None cs None" using assms by (simp add: adlist_rep_def)
  then show ?thesis using False assms listIndexLoop_next [OF seg] by (auto simp: listIndex_def adlist_rep_def)
qed

text \<open>Iteration in both directions.\<close>

definition iter_left :: "'v adlist \<Rightarrow> (nat \<times> 'v) list \<Rightarrow> listIter \<Rightarrow> nat list \<Rightarrow> bool" where
  "iter_left l cs it as \<longleftrightarrow> adlist_rep l cs \<and>
     (\<exists>xs ys. cs = xs @ ys \<and>
       (if li_direction it = AL_START_HEAD then li_next it = first_addr ys None \<and> as = map fst ys
        else li_next it = last_addr None xs \<and> as = rev (map fst xs)))"

lemma listNext_ok:
  assumes "iter_left l cs it as"
  shows "case as of [] \<Rightarrow> listNext l it = Some (it, None)
    | a # as' \<Rightarrow> \<exists>it'. listNext l it = Some (it', Some a) \<and> iter_left l cs it' as'"
proof -
  obtain xs ys where c: "cs = xs @ ys" and d: "if li_direction it = AL_START_HEAD
      then li_next it = first_addr ys None \<and> as = map fst ys else li_next it = last_addr None xs \<and> as = rev (map fst xs)"
    and rep: "adlist_rep l cs" using assms by (auto simp: iter_left_def)
  show ?thesis
  proof (cases "li_direction it = AL_START_HEAD")
    case True
    show ?thesis
    proof (cases ys)
      case Nil
      then show ?thesis using d True by (simp add: listNext_def)
    next
      case (Cons y ys')
      have "l_heap l (fst y) = Some \<lparr>n_prev = last_addr None xs, n_next = first_addr ys' None, n_value = snd y\<rparr>"
        using rep c Cons by (simp add: adlist_rep_def dseg_simps)
      moreover have "iter_left l cs (it\<lparr>li_next := first_addr ys' None\<rparr>) (map fst ys')"
        unfolding iter_left_def using rep c Cons True by (intro conjI exI [of _ "xs @ [y]"] exI [of _ ys']) simp_all
      ultimately show ?thesis using d True Cons by (auto simp: listNext_def)
    qed
  next
    case False
    show ?thesis
    proof (cases xs rule: rev_cases)
      case Nil
      then show ?thesis using d False by (simp add: listNext_def)
    next
      case (snoc xs' x)
      have "l_heap l (fst x) = Some \<lparr>n_prev = last_addr None xs', n_next = first_addr ys None, n_value = snd x\<rparr>"
        using rep c snoc by (simp add: adlist_rep_def dseg_simps)
      moreover have "iter_left l cs (it\<lparr>li_next := last_addr None xs'\<rparr>) (rev (map fst xs'))"
        unfolding iter_left_def using rep c snoc False by (intro conjI exI [of _ xs'] exI [of _ "x # ys"]) simp_all
      ultimately show ?thesis using d False snoc by (auto simp: listNext_def)
    qed
  qed
qed


definition al_left :: "(nat \<times> 'v) list \<Rightarrow> listIter \<Rightarrow> nat list" where
  "al_left cs it = (case li_next it of None \<Rightarrow> []
     | Some a \<Rightarrow> dropWhile (\<lambda>b. b \<noteq> a) (if li_direction it = AL_START_HEAD then map fst cs else rev (map fst cs)))"

lemma dropWhile_neq: "x \<notin> set xs \<Longrightarrow> dropWhile (\<lambda>b. b \<noteq> x) (xs @ x # ys) = x # ys"
  by (induction xs) auto

lemma iter_left_fun:
  assumes "iter_left l cs it as"
  shows "as = al_left cs it"
proof -
  obtain xs ys where c: "cs = xs @ ys" and d: "if li_direction it = AL_START_HEAD
      then li_next it = first_addr ys None \<and> as = map fst ys else li_next it = last_addr None xs \<and> as = rev (map fst xs)"
    and dist: "distinct (map fst cs)" using assms by (auto simp: iter_left_def adlist_rep_def)
  show ?thesis
  proof (cases "li_direction it = AL_START_HEAD")
    case True
    then show ?thesis using c d dist by (cases ys) (auto simp: al_left_def dropWhile_neq image_iff)
  next
    case False
    then show ?thesis
      using c d dist by (cases xs rule: rev_cases) (auto simp: al_left_def dropWhile_neq [of _ "rev (map fst ys)", simplified] image_iff)
  qed
qed

interpretation list_iter: iterator "listNext l" "al_left cs" "\<lambda>it. iter_left l cs it (al_left cs it)" "\<lambda>_. True" for l cs
proof
  fix it a as
  assume "iter_left l cs it (al_left cs it)" "al_left cs it = a # as"
  then obtain it' where "listNext l it = Some (it', Some a)" "iter_left l cs it' as"
    using listNext_ok [of l cs it "a # as"] by auto
  then show "\<exists>it'. listNext l it = Some (it', Some a) \<and> iter_left l cs it' (al_left cs it') \<and> al_left cs it' = as"
    using iter_left_fun by blast
next
  fix it
  assume "iter_left l cs it (al_left cs it)" "al_left cs it = []"
  then show "\<exists>it'. listNext l it = Some (it', None) \<and> True"
    using listNext_ok [of l cs it "[]"] by simp
qed

lemma listGetIterator_left:
  "adlist_rep l cs \<Longrightarrow> iter_left l cs (listGetIterator l d) (if d = AL_START_HEAD then map fst cs else rev (map fst cs))"
  unfolding iter_left_def
  by (rule conjI, assumption, rule exI [of _ "if d = AL_START_HEAD then [] else cs"],
      rule exI [of _ "if d = AL_START_HEAD then cs else []"]) (simp add: listGetIterator_def adlist_rep_def)

lemma listSearchLoop_ok:
  assumes rep: "adlist_rep l cs"
  shows "iter_left l cs it as \<Longrightarrow> li_direction it = AL_START_HEAD \<Longrightarrow> as = map fst ys \<Longrightarrow> set ys \<subseteq> set cs \<Longrightarrow>
    listSearchLoop l match key it =
      Some (map_option fst (find (\<lambda>(a, v). case match of Some f \<Rightarrow> f v key | None \<Rightarrow> key = v) ys))"
proof (induction ys arbitrary: it as)
  case Nil
  then show ?case using listNext_ok [of l cs it as] by (subst listSearchLoop.simps) simp
next
  case (Cons y ys)
  obtain it' where it': "listNext l it = Some (it', Some (fst y))" "iter_left l cs it' (map fst ys)"
    using listNext_ok [OF Cons.prems(1)] Cons.prems(3) by auto
  have dir: "li_direction it' = AL_START_HEAD"
    using it'(1) Cons.prems(2) by (auto simp: listNext_def bind_eq_Some_conv split: option.splits)
  obtain us vs where "cs = us @ y # vs" using Cons.prems(4) by (auto dest: split_list)
  then have "l_heap l (fst y) = Some \<lparr>n_prev = last_addr None us, n_next = first_addr vs None, n_value = snd y\<rparr>"
    using rep by (simp add: adlist_rep_def dseg_simps)
  then show ?case
    using it'(1) Cons.IH [OF it'(2) dir refl] Cons.prems(4) by (subst listSearchLoop.simps) (cases match; auto simp: case_prod_unfold)
qed

lemma listSearchKey_ok:
  assumes "adlist_rep l cs"
  shows "listSearchKey l match key =
    Some (map_option fst (find (\<lambda>(a, v). case match of Some f \<Rightarrow> f v key | None \<Rightarrow> key = v) cs))"
  unfolding listSearchKey_def
  using listSearchLoop_ok [OF assms listGetIterator_left [OF assms, of AL_START_HEAD], of cs match key]
  by (simp add: listGetIterator_def)

lemma listReleaseLoop_ok:
  "dseg h p cs n \<Longrightarrow> distinct (map fst cs) \<Longrightarrow> dom h = fst ` set cs \<Longrightarrow>
   listReleaseLoop (length cs) (first_addr cs n) h = Some Map.empty"
proof (induction cs arbitrary: h p)
  case (Cons c cs)
  have "dseg (h(fst c := None)) (Some (fst c)) cs n"
    using Cons.prems by (subst dseg_upd) (auto simp: dseg_simps)
  moreover have "dom (h(fst c := None)) = fst ` set cs" using Cons.prems by auto
  ultimately have "listReleaseLoop (length cs) (first_addr cs n) (h(fst c := None)) = Some Map.empty"
    using Cons.prems(2) by (intro Cons.IH [of _ "Some (fst c)"]) (simp_all del: fun_upd_apply)
  then show ?case using Cons.prems(1) by (simp add: dseg_simps)
qed simp

lemma listRelease_ok: "adlist_rep l cs \<Longrightarrow> listRelease l = Some Map.empty"
  using listReleaseLoop_ok [of "l_heap l" None cs None] by (simp add: listRelease_def adlist_rep_def)

lemma listDupLoop_ok:
  assumes rep: "adlist_rep l cs" and fresh: "inj fresh"
  shows "iter_left l cs it (map fst ys) \<Longrightarrow> li_direction it = AL_START_HEAD \<Longrightarrow> set ys \<subseteq> set cs \<Longrightarrow>
    adlist_rep copy ds \<Longrightarrow> map fst ds = map fresh [0..<i] \<Longrightarrow>
    (case those (map (case dup of Some f \<Rightarrow> f | None \<Rightarrow> Some) (map snd ys)) of
       None \<Rightarrow> listDupLoop l dup fresh i it copy = Some None
     | Some vs \<Rightarrow> \<exists>c cs'. listDupLoop l dup fresh i it copy = Some (Some c) \<and> adlist_rep c cs' \<and> map snd cs' = map snd ds @ vs)"
proof (induction ys arbitrary: it copy ds i)
  case Nil
  then show ?case using listNext_ok [of l cs it "[]"] by (subst listDupLoop.simps) auto
next
  case (Cons y ys)
  obtain it' where it': "listNext l it = Some (it', Some (fst y))" "iter_left l cs it' (map fst ys)"
    using listNext_ok [OF Cons.prems(1)] by auto
  have dir: "li_direction it' = AL_START_HEAD"
    using it'(1) Cons.prems(2) by (auto simp: listNext_def bind_eq_Some_conv split: option.splits)
  obtain us ws where "cs = us @ y # ws" using Cons.prems(3) by (auto dest: split_list)
  then have node: "l_heap l (fst y) = Some \<lparr>n_prev = last_addr None us, n_next = first_addr ws None, n_value = snd y\<rparr>"
    using rep by (simp add: adlist_rep_def dseg_simps)
  define g where "g = (case dup of Some f \<Rightarrow> f | None \<Rightarrow> Some)"
  show ?case
  proof (cases "g (snd y)")
    case None
    then have "listDupLoop l dup fresh i it copy = Some None"
      using it'(1) node listRelease_ok [OF Cons.prems(4)] by (subst listDupLoop.simps) (cases dup; simp add: g_def)
    then show ?thesis using None by (simp flip: g_def)
  next
    case (Some v)
    have "fresh i \<notin> dom (l_heap copy)"
    proof -
      have "dom (l_heap copy) = set (map fst ds)" using Cons.prems(4) by (simp add: adlist_rep_def)
      then show ?thesis unfolding Cons.prems(5) using fresh by (auto dest: injD)
    qed
    then obtain c where c: "listAddNodeTail copy (fresh i) v = Some c" "adlist_rep c (ds @ [(fresh i, v)])"
      using listAddNodeTail_ok [OF Cons.prems(4)] by blast
    have "listDupLoop l dup fresh i it copy = listDupLoop l dup fresh (Suc i) it' c"
      using it'(1) node c(1) Some by (subst listDupLoop.simps) (cases dup; simp add: g_def)
    then show ?thesis
      using Cons.IH [OF it'(2) dir _ c(2), of "Suc i"] Cons.prems(3,5) Some
      by (auto simp flip: g_def split: option.splits)
  qed
qed


section \<open>Sequences of operations\<close>

text \<open>
  A client that addresses nodes by index; the address of the \<open>n\<close>-th allocated
  node is \<open>n\<close>.
\<close>

datatype 'v list_op = LAddHead 'v | LAddTail 'v | LInsert int 'v bool | LDel int | LRotate

fun run_list_op :: "'v list_op \<Rightarrow> nat \<Rightarrow> 'v adlist \<Rightarrow> 'v adlist option" where
  "run_list_op (LAddHead v) a l = listAddNodeHead l a v"
| "run_list_op (LAddTail v) a l = listAddNodeTail l a v"
| "run_list_op (LInsert i v after) a l = do {
     n \<leftarrow> listIndex l i;
     (case n of None \<Rightarrow> Some l | Some old \<Rightarrow> listInsertNode l old a v after) }"
| "run_list_op (LDel i) a l = do {
     n \<leftarrow> listIndex l i;
     (case n of None \<Rightarrow> Some l | Some old \<Rightarrow> listDelNode l old) }"
| "run_list_op LRotate a l = listRotate l"

fun run_list_ops :: "'v list_op list \<Rightarrow> nat \<Rightarrow> 'v adlist \<Rightarrow> 'v adlist option" where
  "run_list_ops [] a l = Some l"
| "run_list_ops (op # ops) a l = do { l \<leftarrow> run_list_op op a l; run_list_ops ops (Suc a) l }"

definition seq_index :: "'a list \<Rightarrow> int \<Rightarrow> nat option" where
  "seq_index xs i = (if - int (length xs) \<le> i \<and> i < int (length xs)
     then Some (nat (if i < 0 then int (length xs) + i else i)) else None)"

fun spec_list_op :: "'v list_op \<Rightarrow> 'v list \<Rightarrow> 'v list" where
  "spec_list_op (LAddHead v) xs = v # xs"
| "spec_list_op (LAddTail v) xs = xs @ [v]"
| "spec_list_op (LInsert i v after) xs = (case seq_index xs i of None \<Rightarrow> xs
     | Some j \<Rightarrow> if after then take (Suc j) xs @ v # drop (Suc j) xs else take j xs @ v # drop j xs)"
| "spec_list_op (LDel i) xs = (case seq_index xs i of None \<Rightarrow> xs | Some j \<Rightarrow> take j xs @ drop (Suc j) xs)"
| "spec_list_op LRotate xs = (if xs = [] then [] else last xs # butlast xs)"

lemma seq_index_bound: "seq_index xs i = Some j \<Longrightarrow> j < length xs"
  by (auto simp: seq_index_def split: if_splits)

lemma listIndex_seq: "adlist_rep l cs \<Longrightarrow> listIndex l i = Some (map_option (\<lambda>j. fst (cs ! j)) (seq_index (map snd cs) i))"
  by (simp add: listIndex_ok seq_index_def)

lemma run_list_op_ok:
  assumes rep: "adlist_rep l cs" and lt: "\<forall>b\<in>fst ` set cs. b < a"
  shows "\<exists>l' cs'. run_list_op op a l = Some l' \<and> adlist_rep l' cs' \<and>
    map snd cs' = spec_list_op op (map snd cs) \<and> (\<forall>b\<in>fst ` set cs'. b < Suc a)"
proof -
  have fresh: "a \<notin> dom (l_heap l)" using rep lt by (auto simp: adlist_rep_def)
  have lt': "\<forall>b\<in>fst ` set cs. b < Suc a" using lt less_SucI by blast
  have split: "cs = take j cs @ (fst (cs ! j), snd (cs ! j)) # drop (Suc j) cs" if "j < length cs" for j
    using id_take_nth_drop [OF that] by simp
  have sub: "\<forall>b\<in>fst ` set (take j cs). b < Suc a" "\<forall>b\<in>fst ` set (drop j cs). b < Suc a" for j
    using lt' by (auto dest: in_set_takeD in_set_dropD)
  show ?thesis
  proof (cases op)
    case (LAddHead v)
    then show ?thesis using listAddNodeHead_ok [OF rep fresh, of v] lt' by force
  next
    case (LAddTail v)
    then show ?thesis using listAddNodeTail_ok [OF rep fresh, of v] lt' by force
  next
    case (LInsert i v after)
    show ?thesis
    proof (cases "seq_index (map snd cs) i")
      case None
      then show ?thesis using LInsert rep lt' by (auto simp: listIndex_seq)
    next
      case (Some j)
      then have j: "j < length cs" using seq_index_bound by fastforce
      define b w where "b = fst (cs ! j)" and "w = snd (cs ! j)"
      define cs' where "cs' = (if after then take j cs @ (b, w) # (a, v) # drop (Suc j) cs else take j cs @ (a, v) # (b, w) # drop (Suc j) cs)"
      have cs: "cs = take j cs @ (b, w) # drop (Suc j) cs" unfolding b_def w_def by (rule split [OF j])
      obtain l' where l': "listInsertNode l b a v after = Some l'" "adlist_rep l' cs'"
        using listInsertNode_ok [of l "take j cs" b w "drop (Suc j) cs" a v after] rep fresh unfolding cs'_def by (metis cs)
      have "map snd cs' = spec_list_op op (map snd cs)"
        using Some j LInsert by (simp add: cs'_def w_def take_map drop_map take_Suc_conv_app_nth Cons_nth_drop_Suc [symmetric])
      moreover have "\<forall>x\<in>fst ` set cs'. x < Suc a"
        using sub lt' j by (auto simp: cs'_def b_def)
      moreover have "run_list_op op a l = Some l'" using LInsert Some l'(1) rep by (simp add: listIndex_seq b_def)
      ultimately show ?thesis using l'(2) by blast
    qed
  next
    case (LDel i)
    show ?thesis
    proof (cases "seq_index (map snd cs) i")
      case None
      then show ?thesis using LDel rep lt' by (auto simp: listIndex_seq)
    next
      case (Some j)
      then have j: "j < length cs" using seq_index_bound by fastforce
      obtain l' where l': "listDelNode l (fst (cs ! j)) = Some l'" "adlist_rep l' (take j cs @ drop (Suc j) cs)"
        using listDelNode_ok [of l "take j cs" "fst (cs ! j)" "snd (cs ! j)" "drop (Suc j) cs"] rep split [OF j] by metis
      moreover have "run_list_op op a l = Some l'" using LDel Some l'(1) rep by (simp add: listIndex_seq)
      moreover have "\<forall>b\<in>fst ` set (take j cs @ drop (Suc j) cs). b < Suc a" using sub by auto
      ultimately show ?thesis using LDel Some
        by (intro exI [of _ l'] exI [of _ "take j cs @ drop (Suc j) cs"]) (simp add: take_map drop_map)
    qed
  next
    case LRotate
    obtain l' where l': "listRotate l = Some l'" "adlist_rep l' (if cs = [] then [] else last cs # butlast cs)"
      using listRotate_ok [OF rep] by blast
    moreover have "\<forall>b\<in>fst ` set (if cs = [] then [] else last cs # butlast cs). b < Suc a"
      using lt' by (auto dest: in_set_butlastD)
    ultimately show ?thesis using LRotate
      by (intro exI [of _ l'] exI [of _ "if cs = [] then [] else last cs # butlast cs"]) (simp add: last_map map_butlast)
  qed
qed

lemma run_list_ops_ok:
  "adlist_rep l cs \<Longrightarrow> \<forall>b\<in>fst ` set cs. b < a \<Longrightarrow>
   \<exists>l' cs'. run_list_ops ops a l = Some l' \<and> adlist_rep l' cs' \<and> map snd cs' = fold spec_list_op ops (map snd cs)"
proof (induction ops arbitrary: l cs a)
  case (Cons op ops)
  obtain l1 cs1 where "run_list_op op a l = Some l1" "adlist_rep l1 cs1" "map snd cs1 = spec_list_op op (map snd cs)"
      "\<forall>b\<in>fst ` set cs1. b < Suc a"
    using run_list_op_ok [OF Cons.prems] by blast
  then show ?case using Cons.IH [of l1 cs1 "Suc a"] by simp
qed auto

lemma listCreate_rep: "adlist_rep listCreate []"
  by (simp add: adlist_rep_def listCreate_def)

section \<open>Properties\<close>


text \<open>Property C37.  Iterating a well-formed list returns its nodes in order, from the head or from the
  tail, each exactly once, and then \<open>NULL\<close>.\<close>

theorem listNext_all:
  assumes "adlist_rep l cs"
  shows "\<exists>it. drain (listNext l) (listGetIterator l d) =
    Some (it, if d = AL_START_HEAD then map fst cs else rev (map fst cs))"
  using list_iter.drain_all [of l cs "listGetIterator l d"] listGetIterator_left [OF assms, of d] iter_left_fun by metis

definition adlist_ex :: "nat adlist" where
  "adlist_ex = \<lparr>l_head = Some 5, l_tail = Some 9, l_len = 2,
     l_heap = [5 \<mapsto> \<lparr>n_prev = None, n_next = Some 9, n_value = 10\<rparr>, 9 \<mapsto> \<lparr>n_prev = Some 5, n_next = None, n_value = 20\<rparr>]\<rparr>"

lemma adlist_ex_rep: "adlist_rep adlist_ex [(5, 10), (9, 20)]"
  by (auto simp: adlist_rep_def adlist_ex_def dseg_simps)

theorem listNext_all_witness:
  "\<exists>it. drain (listNext adlist_ex) (listGetIterator adlist_ex AL_START_TAIL) = Some (it, [9, 5])"
  using listNext_all [OF adlist_ex_rep, of AL_START_TAIL] by simp

text \<open>Duplicating a well-formed list either yields a well-formed list, at new addresses, of
  the copies of all values in order, or, when the copy method fails on some value, releases the partial
  copy completely and reports the failure.\<close>

lemma listDup_copies:
  assumes "adlist_rep l cs" and "inj fresh"
  shows "case those (map (case dup of Some f \<Rightarrow> f | None \<Rightarrow> Some) (map snd cs)) of
      None \<Rightarrow> listDup l dup fresh = Some None
    | Some vs \<Rightarrow> \<exists>c cs'. listDup l dup fresh = Some (Some c) \<and> adlist_rep c cs' \<and> map snd cs' = vs"
proof -
  have "iter_left l cs (listGetIterator l AL_START_HEAD) (map fst cs)"
    using listGetIterator_left [OF assms(1), of AL_START_HEAD] by simp
  from listDupLoop_ok [OF assms this _ _ listCreate_rep, of 0 dup]
  show ?thesis
    by (cases "those (map (case dup of Some f \<Rightarrow> f | None \<Rightarrow> Some) (map snd cs))")
      (simp_all add: listDup_def listGetIterator_def)
qed

end
