(* ===== verification/Crc.thy ===== *)
theory Crc
  imports Prelude
begin

unbundle bit_operations_syntax

text \<open>
  The cyclic redundancy checks of \<open>crc16.c\<close> (cluster key slots) and
  \<open>crc64.c\<close> (RDB files, \<open>DUMP\<close> payloads) with their literal tables, and the
  mapping of keys to cluster slots, \<open>keyHashSlot\<close> of \<open>cluster.c\<close>.
\<close>

section \<open>The code\<close>

definition crc16tab :: "16 word list" where
  "crc16tab =
    [0x0000, 0x1021, 0x2042, 0x3063, 0x4084, 0x50a5, 0x60c6, 0x70e7,
     0x8108, 0x9129, 0xa14a, 0xb16b, 0xc18c, 0xd1ad, 0xe1ce, 0xf1ef,
     0x1231, 0x0210, 0x3273, 0x2252, 0x52b5, 0x4294, 0x72f7, 0x62d6,
     0x9339, 0x8318, 0xb37b, 0xa35a, 0xd3bd, 0xc39c, 0xf3ff, 0xe3de,
     0x2462, 0x3443, 0x0420, 0x1401, 0x64e6, 0x74c7, 0x44a4, 0x5485,
     0xa56a, 0xb54b, 0x8528, 0x9509, 0xe5ee, 0xf5cf, 0xc5ac, 0xd58d,
     0x3653, 0x2672, 0x1611, 0x0630, 0x76d7, 0x66f6, 0x5695, 0x46b4,
     0xb75b, 0xa77a, 0x9719, 0x8738, 0xf7df, 0xe7fe, 0xd79d, 0xc7bc,
     0x48c4, 0x58e5, 0x6886, 0x78a7, 0x0840, 0x1861, 0x2802, 0x3823,
     0xc9cc, 0xd9ed, 0xe98e, 0xf9af, 0x8948, 0x9969, 0xa90a, 0xb92b,
     0x5af5, 0x4ad4, 0x7ab7, 0x6a96, 0x1a71, 0x0a50, 0x3a33, 0x2a12,
     0xdbfd, 0xcbdc, 0xfbbf, 0xeb9e, 0x9b79, 0x8b58, 0xbb3b, 0xab1a,
     0x6ca6, 0x7c87, 0x4ce4, 0x5cc5, 0x2c22, 0x3c03, 0x0c60, 0x1c41,
     0xedae, 0xfd8f, 0xcdec, 0xddcd, 0xad2a, 0xbd0b, 0x8d68, 0x9d49,
     0x7e97, 0x6eb6, 0x5ed5, 0x4ef4, 0x3e13, 0x2e32, 0x1e51, 0x0e70,
     0xff9f, 0xefbe, 0xdfdd, 0xcffc, 0xbf1b, 0xaf3a, 0x9f59, 0x8f78,
     0x9188, 0x81a9, 0xb1ca, 0xa1eb, 0xd10c, 0xc12d, 0xf14e, 0xe16f,
     0x1080, 0x00a1, 0x30c2, 0x20e3, 0x5004, 0x4025, 0x7046, 0x6067,
     0x83b9, 0x9398, 0xa3fb, 0xb3da, 0xc33d, 0xd31c, 0xe37f, 0xf35e,
     0x02b1, 0x1290, 0x22f3, 0x32d2, 0x4235, 0x5214, 0x6277, 0x7256,
     0xb5ea, 0xa5cb, 0x95a8, 0x8589, 0xf56e, 0xe54f, 0xd52c, 0xc50d,
     0x34e2, 0x24c3, 0x14a0, 0x0481, 0x7466, 0x6447, 0x5424, 0x4405,
     0xa7db, 0xb7fa, 0x8799, 0x97b8, 0xe75f, 0xf77e, 0xc71d, 0xd73c,
     0x26d3, 0x36f2, 0x0691, 0x16b0, 0x6657, 0x7676, 0x4615, 0x5634,
     0xd94c, 0xc96d, 0xf90e, 0xe92f, 0x99c8, 0x89e9, 0xb98a, 0xa9ab,
     0x5844, 0x4865, 0x7806, 0x6827, 0x18c0, 0x08e1, 0x3882, 0x28a3,
     0xcb7d, 0xdb5c, 0xeb3f, 0xfb1e, 0x8bf9, 0x9bd8, 0xabbb, 0xbb9a,
     0x4a75, 0x5a54, 0x6a37, 0x7a16, 0x0af1, 0x1ad0, 0x2ab3, 0x3a92,
     0xfd2e, 0xed0f, 0xdd6c, 0xcd4d, 0xbdaa, 0xad8b, 0x9de8, 0x8dc9,
     0x7c26, 0x6c07, 0x5c64, 0x4c45, 0x3ca2, 0x2c83, 0x1ce0, 0x0cc1,
     0xef1f, 0xff3e, 0xcf5d, 0xdf7c, 0xaf9b, 0xbfba, 0x8fd9, 0x9ff8,
     0x6e17, 0x7e36, 0x4e55, 0x5e74, 0x2e93, 0x3eb2, 0x0ed1, 0x1ef0]"

text \<open>\<open>char\<close> is signed: the byte is sign-extended before it is combined with the remainder.\<close>

definition crc16_step :: "16 word \<Rightarrow> byte \<Rightarrow> 16 word" where
  "crc16_step crc b = push_bit 8 crc XOR crc16tab ! unat ((ucast (drop_bit 8 crc) XOR scast b) AND (0x00FF :: 32 word))"

definition crc16 :: "byte list \<Rightarrow> 16 word" where
  "crc16 buf = foldl crc16_step 0 buf"

definition crc64_tab :: "u64 list" where
  "crc64_tab =
    [0x0000000000000000, 0x7ad870c830358979, 0xf5b0e190606b12f2, 0x8f689158505e9b8b,
     0xc038e5739841b68f, 0xbae095bba8743ff6, 0x358804e3f82aa47d, 0x4f50742bc81f2d04,
     0xab28ecb46814fe75, 0xd1f09c7c5821770c, 0x5e980d24087fec87, 0x24407dec384a65fe,
     0x6b1009c7f05548fa, 0x11c8790fc060c183, 0x9ea0e857903e5a08, 0xe478989fa00bd371,
     0x7d08ff3b88be6f81, 0x07d08ff3b88be6f8, 0x88b81eabe8d57d73, 0xf2606e63d8e0f40a,
     0xbd301a4810ffd90e, 0xc7e86a8020ca5077, 0x4880fbd87094cbfc, 0x32588b1040a14285,
     0xd620138fe0aa91f4, 0xacf86347d09f188d, 0x2390f21f80c18306, 0x594882d7b0f40a7f,
     0x1618f6fc78eb277b, 0x6cc0863448deae02, 0xe3a8176c18803589, 0x997067a428b5bcf0,
     0xfa11fe77117cdf02, 0x80c98ebf2149567b, 0x0fa11fe77117cdf0, 0x75796f2f41224489,
     0x3a291b04893d698d, 0x40f16bccb908e0f4, 0xcf99fa94e9567b7f, 0xb5418a5cd963f206,
     0x513912c379682177, 0x2be1620b495da80e, 0xa489f35319033385, 0xde51839b2936bafc,
     0x9101f7b0e12997f8, 0xebd98778d11c1e81, 0x64b116208142850a, 0x1e6966e8b1770c73,
     0x8719014c99c2b083, 0xfdc17184a9f739fa, 0x72a9e0dcf9a9a271, 0x08719014c99c2b08,
     0x4721e43f0183060c, 0x3df994f731b68f75, 0xb29105af61e814fe, 0xc849756751dd9d87,
     0x2c31edf8f1d64ef6, 0x56e99d30c1e3c78f, 0xd9810c6891bd5c04, 0xa3597ca0a188d57d,
     0xec09088b6997f879, 0x96d1784359a27100, 0x19b9e91b09fcea8b, 0x636199d339c963f2,
     0xdf7adabd7a6e2d6f, 0xa5a2aa754a5ba416, 0x2aca3b2d1a053f9d, 0x50124be52a30b6e4,
     0x1f423fcee22f9be0, 0x659a4f06d21a1299, 0xeaf2de5e82448912, 0x902aae96b271006b,
     0x74523609127ad31a, 0x0e8a46c1224f5a63, 0x81e2d7997211c1e8, 0xfb3aa75142244891,
     0xb46ad37a8a3b6595, 0xceb2a3b2ba0eecec, 0x41da32eaea507767, 0x3b024222da65fe1e,
     0xa2722586f2d042ee, 0xd8aa554ec2e5cb97, 0x57c2c41692bb501c, 0x2d1ab4dea28ed965,
     0x624ac0f56a91f461, 0x1892b03d5aa47d18, 0x97fa21650afae693, 0xed2251ad3acf6fea,
     0x095ac9329ac4bc9b, 0x7382b9faaaf135e2, 0xfcea28a2faafae69, 0x8632586aca9a2710,
     0xc9622c4102850a14, 0xb3ba5c8932b0836d, 0x3cd2cdd162ee18e6, 0x460abd1952db919f,
     0x256b24ca6b12f26d, 0x5fb354025b277b14, 0xd0dbc55a0b79e09f, 0xaa03b5923b4c69e6,
     0xe553c1b9f35344e2, 0x9f8bb171c366cd9b, 0x10e3202993385610, 0x6a3b50e1a30ddf69,
     0x8e43c87e03060c18, 0xf49bb8b633338561, 0x7bf329ee636d1eea, 0x012b592653589793,
     0x4e7b2d0d9b47ba97, 0x34a35dc5ab7233ee, 0xbbcbcc9dfb2ca865, 0xc113bc55cb19211c,
     0x5863dbf1e3ac9dec, 0x22bbab39d3991495, 0xadd33a6183c78f1e, 0xd70b4aa9b3f20667,
     0x985b3e827bed2b63, 0xe2834e4a4bd8a21a, 0x6debdf121b863991, 0x1733afda2bb3b0e8,
     0xf34b37458bb86399, 0x8993478dbb8deae0, 0x06fbd6d5ebd3716b, 0x7c23a61ddbe6f812,
     0x3373d23613f9d516, 0x49aba2fe23cc5c6f, 0xc6c333a67392c7e4, 0xbc1b436e43a74e9d,
     0x95ac9329ac4bc9b5, 0xef74e3e19c7e40cc, 0x601c72b9cc20db47, 0x1ac40271fc15523e,
     0x5594765a340a7f3a, 0x2f4c0692043ff643, 0xa02497ca54616dc8, 0xdafce7026454e4b1,
     0x3e847f9dc45f37c0, 0x445c0f55f46abeb9, 0xcb349e0da4342532, 0xb1eceec59401ac4b,
     0xfebc9aee5c1e814f, 0x8464ea266c2b0836, 0x0b0c7b7e3c7593bd, 0x71d40bb60c401ac4,
     0xe8a46c1224f5a634, 0x927c1cda14c02f4d, 0x1d148d82449eb4c6, 0x67ccfd4a74ab3dbf,
     0x289c8961bcb410bb, 0x5244f9a98c8199c2, 0xdd2c68f1dcdf0249, 0xa7f41839ecea8b30,
     0x438c80a64ce15841, 0x3954f06e7cd4d138, 0xb63c61362c8a4ab3, 0xcce411fe1cbfc3ca,
     0x83b465d5d4a0eece, 0xf96c151de49567b7, 0x76048445b4cbfc3c, 0x0cdcf48d84fe7545,
     0x6fbd6d5ebd3716b7, 0x15651d968d029fce, 0x9a0d8ccedd5c0445, 0xe0d5fc06ed698d3c,
     0xaf85882d2576a038, 0xd55df8e515432941, 0x5a3569bd451db2ca, 0x20ed197575283bb3,
     0xc49581ead523e8c2, 0xbe4df122e51661bb, 0x3125607ab548fa30, 0x4bfd10b2857d7349,
     0x04ad64994d625e4d, 0x7e7514517d57d734, 0xf11d85092d094cbf, 0x8bc5f5c11d3cc5c6,
     0x12b5926535897936, 0x686de2ad05bcf04f, 0xe70573f555e26bc4, 0x9ddd033d65d7e2bd,
     0xd28d7716adc8cfb9, 0xa85507de9dfd46c0, 0x273d9686cda3dd4b, 0x5de5e64efd965432,
     0xb99d7ed15d9d8743, 0xc3450e196da80e3a, 0x4c2d9f413df695b1, 0x36f5ef890dc31cc8,
     0x79a59ba2c5dc31cc, 0x037deb6af5e9b8b5, 0x8c157a32a5b7233e, 0xf6cd0afa9582aa47,
     0x4ad64994d625e4da, 0x300e395ce6106da3, 0xbf66a804b64ef628, 0xc5bed8cc867b7f51,
     0x8aeeace74e645255, 0xf036dc2f7e51db2c, 0x7f5e4d772e0f40a7, 0x05863dbf1e3ac9de,
     0xe1fea520be311aaf, 0x9b26d5e88e0493d6, 0x144e44b0de5a085d, 0x6e963478ee6f8124,
     0x21c640532670ac20, 0x5b1e309b16452559, 0xd476a1c3461bbed2, 0xaeaed10b762e37ab,
     0x37deb6af5e9b8b5b, 0x4d06c6676eae0222, 0xc26e573f3ef099a9, 0xb8b627f70ec510d0,
     0xf7e653dcc6da3dd4, 0x8d3e2314f6efb4ad, 0x0256b24ca6b12f26, 0x788ec2849684a65f,
     0x9cf65a1b368f752e, 0xe62e2ad306bafc57, 0x6946bb8b56e467dc, 0x139ecb4366d1eea5,
     0x5ccebf68aecec3a1, 0x2616cfa09efb4ad8, 0xa97e5ef8cea5d153, 0xd3a62e30fe90582a,
     0xb0c7b7e3c7593bd8, 0xca1fc72bf76cb2a1, 0x45775673a732292a, 0x3faf26bb9707a053,
     0x70ff52905f188d57, 0x0a2722586f2d042e, 0x854fb3003f739fa5, 0xff97c3c80f4616dc,
     0x1bef5b57af4dc5ad, 0x61372b9f9f784cd4, 0xee5fbac7cf26d75f, 0x9487ca0fff135e26,
     0xdbd7be24370c7322, 0xa10fceec0739fa5b, 0x2e675fb4576761d0, 0x54bf2f7c6752e8a9,
     0xcdcf48d84fe75459, 0xb71738107fd2dd20, 0x387fa9482f8c46ab, 0x42a7d9801fb9cfd2,
     0x0df7adabd7a6e2d6, 0x772fdd63e7936baf, 0xf8474c3bb7cdf024, 0x829f3cf387f8795d,
     0x66e7a46c27f3aa2c, 0x1c3fd4a417c62355, 0x935745fc4798b8de, 0xe98f353477ad31a7,
     0xa6df411fbfb21ca3, 0xdc0731d78f8795da, 0x536fa08fdfd90e51, 0x29b7d047efec8728]"

definition crc64_step :: "u64 \<Rightarrow> byte \<Rightarrow> u64" where
  "crc64_step crc b = crc64_tab ! unat ((ucast crc :: byte) XOR b) XOR drop_bit 8 crc"

definition crc64 :: "u64 \<Rightarrow> byte list \<Rightarrow> u64" where
  "crc64 crc s = foldl crc64_step crc s"

text \<open>The loops \<open>for (s = i; s < keylen; s++) if (key[s] == c) break;\<close>.\<close>

function findByte :: "byte \<Rightarrow> byte list \<Rightarrow> nat \<Rightarrow> nat \<Rightarrow> nat" where
  "findByte c key keylen i = (if i < keylen \<and> key ! i \<noteq> c then findByte c key keylen (i + 1) else i)"
  by auto
termination by (relation "measure (\<lambda>(c, key, keylen, i). keylen - i)") auto

declare findByte.simps [simp del]

definition keyHashSlot :: "byte list \<Rightarrow> 32 word" where
  "keyHashSlot key =
     (let keylen = length key;
          s = findByte 123 key keylen 0 in
      if s = keylen then ucast (crc16 key) AND 0x3FFF
      else let e = findByte 125 key keylen (s + 1) in
        if e = keylen \<or> e = s + 1 then ucast (crc16 key) AND 0x3FFF
        else ucast (crc16 (take (e - s - 1) (drop (s + 1) key))) AND 0x3FFF)"

section \<open>Bitwise definitions of the checks\<close>

definition crc16_bit :: "16 word \<Rightarrow> 16 word" where
  "crc16_bit r = (if bit r 15 then push_bit 1 r XOR 0x1021 else push_bit 1 r)"

definition crc16_spec :: "byte list \<Rightarrow> 16 word" where
  "crc16_spec = foldl (\<lambda>r b. (crc16_bit ^^ 8) (r XOR push_bit 8 (ucast b))) 0"

definition crc64_bit :: "u64 \<Rightarrow> u64" where
  "crc64_bit r = (if bit r 0 then drop_bit 1 r XOR 0x95ac9329ac4bc9b5 else drop_bit 1 r)"

definition crc64_spec :: "u64 \<Rightarrow> byte list \<Rightarrow> u64" where
  "crc64_spec = foldl (\<lambda>r b. (crc64_bit ^^ 8) (r XOR ucast b))"

lemma funpow_xor:
  fixes f :: "'a::len word \<Rightarrow> 'a word"
  assumes "\<And>x y. f (x XOR y) = f x XOR f y"
  shows "(f ^^ n) (x XOR y) = (f ^^ n) x XOR (f ^^ n) y"
  by (induction n) (simp_all add: assms)

lemma crc16_bit_xor: "crc16_bit (x XOR y) = crc16_bit x XOR crc16_bit y"
  by (rule bit_word_eqI) (auto simp: crc16_bit_def bit_xor_iff bit_push_bit_iff)

lemma crc64_bit_xor: "crc64_bit (x XOR y) = crc64_bit x XOR crc64_bit y"
  by (rule bit_word_eqI) (auto simp: crc64_bit_def bit_xor_iff bit_drop_bit_eq)

text \<open>The polynomials have the outermost terms, so a step can be undone.\<close>

lemma crc16_bit_zero: "crc16_bit x = 0 \<Longrightarrow> x = 0"
proof (rule bit_word_eqI)
  assume 0: "crc16_bit x = 0"
  then have "\<not> bit (crc16_bit x) 0" by simp
  then have "\<not> bit x 15" by (simp add: crc16_bit_def bit_xor_iff bit_push_bit_iff split: if_splits del: push_bit_Suc)
  moreover fix n assume "n < LENGTH(16)"
  moreover have "\<not> bit (crc16_bit x) (Suc n)" using 0 by simp
  ultimately show "bit x n = bit 0 n" by (cases "n = 15") (simp_all add: crc16_bit_def bit_push_bit_iff del: push_bit_Suc)
qed

lemma crc64_bit_zero: "crc64_bit x = 0 \<Longrightarrow> x = 0"
proof (rule bit_word_eqI)
  assume 0: "crc64_bit x = 0"
  then have "\<not> bit (crc64_bit x) 63" by simp
  then have "\<not> bit x 0" by (auto simp: crc64_bit_def bit_xor_iff bit_drop_bit_eq dest: bit_imp_le_length split: if_splits)
  moreover fix n assume "n < LENGTH(64)"
  moreover have "\<not> bit (crc64_bit x) (n - 1)" using 0 by simp
  ultimately show "bit x n = bit 0 n" by (cases n) (simp_all add: crc64_bit_def bit_drop_bit_eq)
qed

lemma xor_cancel: "a XOR b = a XOR c \<longleftrightarrow> b = (c :: 'a::len word)"
  by (metis xor.assoc xor.left_neutral xor_self_eq)

lemma linear_inj:
  assumes "\<And>x y. f (x XOR y) = f x XOR (f y :: 'a::len word)" and "\<And>x. f x = 0 \<Longrightarrow> x = 0"
  shows "inj f"
proof (rule injI)
  fix x y assume "f x = f y"
  then have "f (x XOR y) = 0" by (simp add: assms(1))
  then have "x XOR y = 0" by (rule assms(2))
  then show "x = y" by (simp add: bit_eq_iff bit_xor_iff)
qed

lemma crc16_bit_inj: "inj crc16_bit" using linear_inj crc16_bit_xor crc16_bit_zero by blast

lemma crc64_bit_inj: "inj crc64_bit" using linear_inj crc64_bit_xor crc64_bit_zero by blast

section \<open>The tables hold the remainders of all bytes\<close>

text \<open>Row by row: entry \<open>2 i\<close> follows from entry \<open>i\<close>, entry \<open>2 i + 1\<close> from entry \<open>2 i\<close>.\<close>

fun crc16_pairs :: "16 word list \<Rightarrow> 16 word list \<Rightarrow> bool" where
  "crc16_pairs (a # b # xs) (c # cs) \<longleftrightarrow> a = crc16_bit c \<and> b = a XOR 0x1021 \<and> crc16_pairs xs cs"
| "crc16_pairs xs cs \<longleftrightarrow> xs = []"

fun crc64_pairs :: "u64 list \<Rightarrow> u64 list \<Rightarrow> bool" where
  "crc64_pairs (a # b # xs) (c # cs) \<longleftrightarrow> crc64_bit a = c \<and> b = a XOR 0x7ad870c830358979 \<and> crc64_pairs xs cs"
| "crc64_pairs xs cs \<longleftrightarrow> xs = []"

lemma crc16tab_pairs: "crc16_pairs crc16tab crc16tab"
  by (simp add: crc16tab_def crc16_bit_def)

lemma crc64_tab_pairs: "crc64_pairs crc64_tab crc64_tab"
  by (simp add: crc64_tab_def crc64_bit_def)

lemma crc16_pairs_nth:
  "crc16_pairs xs cs \<Longrightarrow> 2 * i + 1 < length xs \<Longrightarrow>
   xs ! (2 * i) = crc16_bit (cs ! i) \<and> xs ! (2 * i + 1) = xs ! (2 * i) XOR 0x1021"
  by (induction xs cs arbitrary: i rule: crc16_pairs.induct) (auto simp: nth_Cons split: nat.splits)

lemma crc64_pairs_nth:
  "crc64_pairs xs cs \<Longrightarrow> 2 * i + 1 < length xs \<Longrightarrow>
   crc64_bit (xs ! (2 * i)) = cs ! i \<and> xs ! (2 * i + 1) = xs ! (2 * i) XOR 0x7ad870c830358979"
  by (induction xs cs arbitrary: i rule: crc64_pairs.induct) (auto simp: nth_Cons split: nat.splits)

lemma length_crc16tab: "length crc16tab = 256" by (simp add: crc16tab_def)

lemma length_crc64_tab: "length crc64_tab = 256" by (simp add: crc64_tab_def)

lemma of_nat_double: "(of_nat (2 * i) :: 'a::len word) = push_bit 1 (of_nat i)"
  by (simp add: push_bit_eq_mult)

lemma of_nat_double_Suc: "(of_nat (2 * i + 1) :: 'a::len word) = of_nat (2 * i) XOR 1"
proof -
  have "even (of_nat (2 * i) :: 'a word)" by simp
  then show ?thesis by (simp add: even_xor_iff xor_one_eq)
qed

lemma not_bit_small: "(j :: nat) < 2 ^ n \<Longrightarrow> \<not> bit j n"
  by (metis bit_take_bit_iff less_irrefl take_bit_nat_eq_self)

lemma bit_of_nat_word: "bit (of_nat j :: 'a::len word) n \<longleftrightarrow> n < LENGTH('a) \<and> bit j n"
  using bit_unsigned_iff [where 'a = nat, of "of_nat j :: 'a word" n]
  by (auto simp: unsigned_of_nat bit_take_bit_iff dest: bit_imp_le_length)

lemma crc16_one: "(crc16_bit ^^ 8) (push_bit 8 1) = 0x1021" by code_simp

lemma crc64_one: "(crc64_bit ^^ 8) 1 = 0x7ad870c830358979" by code_simp

lemma crc16tab_nth: "i < 256 \<Longrightarrow> crc16tab ! i = (crc16_bit ^^ 8) (push_bit 8 (of_nat i))"
proof (induction i rule: less_induct)
  case (less i)
  define j where "j = i div 2"
  have j: "2 * j + 1 < 256" using less.prems unfolding j_def by presburger
  have pairs: "crc16tab ! (2 * j) = crc16_bit (crc16tab ! j)" "crc16tab ! (2 * j + 1) = crc16tab ! (2 * j) XOR 0x1021"
    using crc16_pairs_nth [OF crc16tab_pairs, of j] j by (simp_all add: length_crc16tab)
  have top: "crc16_bit (push_bit 8 (of_nat j)) = push_bit 8 (of_nat (2 * j))"
  proof -
    have "j < 2 ^ 7" using less.prems by (simp add: j_def)
    then have "\<not> bit j 7" by (simp add: not_bit_small)
    then have "\<not> bit (push_bit 8 (of_nat j :: 16 word)) 15"
      by (simp add: bit_push_bit_iff bit_of_nat_word)
    then show ?thesis unfolding of_nat_double by (simp add: crc16_bit_def push_bit_push_bit del: push_bit_Suc)
  qed
  have even: "crc16tab ! (2 * j) = (crc16_bit ^^ 8) (push_bit 8 (of_nat (2 * j)))"
  proof (cases "j = 0")
    case True
    then show ?thesis by (simp add: crc16tab_def crc16_bit_def eval_nat_numeral)
  next
    case False
    then have "crc16tab ! j = (crc16_bit ^^ 8) (push_bit 8 (of_nat j))"
      using less by (intro less.IH) (auto simp: j_def)
    then show ?thesis unfolding pairs top [symmetric] by (simp only: funpow_swap1)
  qed
  have odd: "crc16tab ! (2 * j + 1) = (crc16_bit ^^ 8) (push_bit 8 (of_nat (2 * j + 1)))"
    unfolding pairs(2) even of_nat_double_Suc push_bit_xor funpow_xor [of crc16_bit, OF crc16_bit_xor] crc16_one by simp
  have "i = 2 * j \<or> i = 2 * j + 1" by (simp add: j_def) presburger
  then show ?case using even odd by auto
qed

lemma crc64_tab_nth: "i < 256 \<Longrightarrow> crc64_tab ! i = (crc64_bit ^^ 8) (of_nat i)"
proof (induction i rule: less_induct)
  case (less i)
  define j where "j = i div 2"
  have j: "2 * j + 1 < 256" using less.prems unfolding j_def by presburger
  have pairs: "crc64_bit (crc64_tab ! (2 * j)) = crc64_tab ! j" "crc64_tab ! (2 * j + 1) = crc64_tab ! (2 * j) XOR 0x7ad870c830358979"
    using crc64_pairs_nth [OF crc64_tab_pairs, of j] j by (simp_all add: length_crc64_tab)
  have low: "crc64_bit (of_nat (2 * j)) = of_nat j"
  proof -
    have "j < 2 ^ 7" using less.prems by (simp add: j_def)
    then have "j < 2 ^ 63" by simp
    then have "\<not> bit (of_nat j :: u64) 63" by (simp add: bit_of_nat_word not_bit_small)
    then have "n < 63" if "bit (of_nat j :: u64) n" for n
      using that bit_imp_le_length [OF that] by (cases "n = 63") auto
    then have "drop_bit 1 (push_bit 1 (of_nat j :: u64)) = of_nat j"
      by (intro bit_word_eqI) (auto simp: bit_drop_bit_eq bit_push_bit_iff simp del: push_bit_Suc)
    then show ?thesis unfolding of_nat_double by (simp add: crc64_bit_def bit_push_bit_iff del: push_bit_Suc)
  qed
  have even: "crc64_tab ! (2 * j) = (crc64_bit ^^ 8) (of_nat (2 * j))"
  proof (cases "j = 0")
    case True
    then show ?thesis by (simp add: crc64_tab_def crc64_bit_def eval_nat_numeral)
  next
    case False
    then have "crc64_tab ! j = (crc64_bit ^^ 8) (of_nat j)"
      using less by (intro less.IH) (auto simp: j_def)
    then have "crc64_bit (crc64_tab ! (2 * j)) = crc64_bit ((crc64_bit ^^ 8) (of_nat (2 * j)))"
      unfolding pairs(1) low [symmetric] by (simp only: funpow_swap1)
    then show ?thesis by (rule injD [OF crc64_bit_inj])
  qed
  have odd: "crc64_tab ! (2 * j + 1) = (crc64_bit ^^ 8) (of_nat (2 * j + 1))"
    unfolding pairs(2) even of_nat_double_Suc funpow_xor [of crc64_bit, OF crc64_bit_xor] crc64_one by simp
  have "i = 2 * j \<or> i = 2 * j + 1" by (simp add: j_def) presburger
  then show ?case using even odd by auto
qed

section \<open>The tables compute the bitwise checks\<close>

lemma crc16_bits_low: "n \<le> 8 \<Longrightarrow> (crc16_bit ^^ n) (take_bit 8 r) = push_bit n (take_bit 8 r)"
proof (induction n)
  case (Suc n)
  then have "\<not> bit (push_bit n (take_bit 8 r)) 15" by (auto simp: bit_push_bit_iff bit_take_bit_iff)
  with Suc show ?case by (simp add: crc16_bit_def)
qed simp

lemma crc64_bits_high: "n \<le> 8 \<Longrightarrow> (crc64_bit ^^ n) (push_bit 8 (drop_bit 8 r)) = push_bit (8 - n) (drop_bit 8 r)"
proof (induction n)
  case (Suc n)
  then obtain k where k: "8 - n = Suc k" "8 - Suc n = k" by (metis Suc_diff_Suc Suc_le_lessD)
  then have "k < 8" by simp
  then have "drop_bit 1 (push_bit (Suc k) (drop_bit 8 r)) = push_bit k (drop_bit 8 r)"
    by (intro bit_word_eqI) (auto simp: bit_drop_bit_eq bit_push_bit_iff simp del: push_bit_Suc dest: bit_imp_le_length)
  then show ?case using Suc k by (simp add: crc64_bit_def [of "push_bit _ _"] bit_push_bit_iff del: push_bit_Suc)
qed simp

lemma word_split_low: "(r :: 'a::len word) = push_bit n (drop_bit n r) XOR take_bit n r"
  by (rule bit_word_eqI) (auto simp: bit_simps)

lemma crc16_index: "unat ((ucast (drop_bit 8 crc) XOR scast (b :: byte)) AND (0x00FF :: 32 word))
  = unat ((ucast (drop_bit 8 (crc :: 16 word)) :: byte) XOR b)"
proof -
  have "(ucast (drop_bit 8 crc) XOR scast b) AND (0x00FF :: 32 word) = ucast ((ucast (drop_bit 8 crc) :: byte) XOR b)"
  proof (rule bit_word_eqI)
    fix n
    have "bit (0x00FF :: 32 word) n \<longleftrightarrow> n < 8"
      using bit_mask_iff [where 'a = "32 word", of 8 n] by (auto simp: mask_eq_exp_minus_1 dest: bit_imp_le_length)
    then show "n < LENGTH(32) \<Longrightarrow> bit ((ucast (drop_bit 8 crc) XOR scast b) AND (0x00FF :: 32 word)) n
      = bit (ucast ((ucast (drop_bit 8 crc) :: byte) XOR b) :: 32 word) n"
      by (auto simp: bit_simps dest: bit_imp_le_length)
  qed
  then show ?thesis by (simp add: unsigned_ucast_eq take_bit_nat_eq_self less_trans [OF unsigned_less])
qed

lemma nth_crc16tab: "crc16tab ! unat (b :: byte) = (crc16_bit ^^ 8) (push_bit 8 (ucast b))"
proof -
  have "unat b < 256" using unsigned_less [of b] by simp
  then show ?thesis by (simp add: crc16tab_nth del: funpow.simps)
qed

lemma nth_crc64_tab: "crc64_tab ! unat (b :: byte) = (crc64_bit ^^ 8) (ucast b)"
proof -
  have "unat b < 256" using unsigned_less [of b] by simp
  then show ?thesis by (simp add: crc64_tab_nth del: funpow.simps)
qed

lemma crc16_step_spec: "crc16_step r b = (crc16_bit ^^ 8) (r XOR push_bit 8 (ucast b))"
proof -
  have eq: "r XOR push_bit 8 (ucast b) = push_bit 8 (ucast ((ucast (drop_bit 8 r) :: byte) XOR b)) XOR take_bit 8 r"
    by (rule bit_word_eqI) (auto simp: bit_simps)
  have "push_bit 8 (take_bit 8 r) = push_bit 8 r" by (rule bit_word_eqI) (auto simp: bit_simps)
  then show ?thesis
    unfolding eq funpow_xor [of crc16_bit, OF crc16_bit_xor] crc16_step_def crc16_index nth_crc16tab
    by (simp only: crc16_bits_low [OF order_refl] xor.commute)
qed

lemma crc64_step_spec: "crc64_step r b = (crc64_bit ^^ 8) (r XOR ucast b)"
proof -
  have eq: "r XOR ucast b = ucast ((ucast r :: byte) XOR b) XOR push_bit 8 (drop_bit 8 r)"
    by (rule bit_word_eqI) (auto simp: bit_simps)
  show ?thesis
    unfolding eq funpow_xor [of crc64_bit, OF crc64_bit_xor] crc64_step_def nth_crc64_tab crc64_bits_high [OF order_refl]
    by simp
qed


lemma crc16_bitwise: "crc16 buf = crc16_spec buf"
  by (simp add: crc16_def crc16_spec_def crc16_step_spec [abs_def])

lemma crc64_bitwise: "crc64 crc s = crc64_spec crc s"
  by (simp add: crc64_def crc64_spec_def crc64_step_spec [abs_def])

section \<open>Error detection\<close>

lemma crc64_foldl_word:
  "length us \<le> 8 \<Longrightarrow> foldl crc64_step r us = (crc64_bit ^^ (8 * length us)) (r XOR le_word us)"
proof (induction us arbitrary: r)
  case (Cons b us)
  have fits: "drop_bit 8 (push_bit 8 (le_word us)) = le_word us"
  proof (rule bit_word_eqI)
    fix n
    have "bit (le_word us) n \<Longrightarrow> n < 56" using le_word_take_bit [of us 7] Cons.prems
      bit_take_bit_iff [of 56 "le_word us" n] by simp
    then show "bit (drop_bit 8 (push_bit 8 (le_word us))) n = bit (le_word us) n"
      by (auto simp: bit_simps)
  qed
  have le: "le_word (b # us) = ucast b XOR push_bit 8 (le_word us)"
    by (rule bit_word_eqI) (auto simp: bit_simps dest: bit_imp_le_length)
  have high: "(crc64_bit ^^ 8) (push_bit 8 (le_word us)) = le_word us"
    using crc64_bits_high [OF order_refl, of "push_bit 8 (le_word us)"] unfolding fits by simp
  have "(crc64_bit ^^ 8) (r XOR le_word (b # us)) = crc64_step r b XOR le_word us"
    unfolding le xor.assoc [symmetric] funpow_xor [of crc64_bit, OF crc64_bit_xor] crc64_step_spec high ..
  moreover have "crc64_bit ^^ (8 * length (b # us)) = crc64_bit ^^ (8 * length us) \<circ> crc64_bit ^^ 8"
    by (simp add: add.commute flip: funpow_add)
  ultimately show ?case using Cons by (simp del: funpow.simps le_word.simps)
qed simp

lemma crc64_step_inj: "inj (\<lambda>r. crc64_step r b)"
proof (rule injI)
  fix r r' assume "crc64_step r b = crc64_step r' b"
  then have "r XOR ucast b = r' XOR ucast b"
    unfolding crc64_step_spec by (rule injD [OF inj_fn [OF crc64_bit_inj]])
  then show "r = r'" by (metis xor.commute xor_cancel)
qed

lemma crc64_foldl_inj: "foldl crc64_step r ys = foldl crc64_step r' ys \<Longrightarrow> r = r'"
  by (induction ys arbitrary: r r') (auto dest: injD [OF crc64_step_inj])

lemma crc64_burst:
  assumes "length us = length vs" "length us \<le> 8" "crc64 crc (xs @ us @ ys) = crc64 crc (xs @ vs @ ys)"
  shows "us = vs"
proof -
  define r where "r = foldl crc64_step crc xs"
  have "foldl crc64_step r us = foldl crc64_step r vs"
    using assms(3) by (simp add: crc64_def r_def crc64_foldl_inj)
  then have "(crc64_bit ^^ (8 * length us)) (r XOR le_word us) = (crc64_bit ^^ (8 * length us)) (r XOR le_word vs)"
    using assms(1,2) by (simp add: crc64_foldl_word)
  then have "r XOR le_word us = r XOR le_word vs" by (rule injD [OF inj_fn [OF crc64_bit_inj]])
  then have "le_word us = le_word vs" by (simp add: xor_cancel)
  then show ?thesis using assms(1,2) le_bytes_le_word by metis
qed

section \<open>Slots\<close>

lemma findByte_append:
  assumes "c \<notin> set mid" "keylen = length key" "key = pre @ mid @ rest" "rest = [] \<or> hd rest = c"
  shows "findByte c key keylen (length pre) = length pre + length mid"
  using assms
proof (induction mid arbitrary: pre)
  case Nil
  then show ?case by (subst findByte.simps) (cases rest; simp add: nth_append)
next
  case (Cons m mid)
  then show ?case using Cons.IH [of "pre @ [m]"] by (subst findByte.simps) (auto simp: nth_append)
qed

lemma keyHashSlot_whole:
  assumes "123 \<notin> set key \<or> 125 \<notin> set (tl (dropWhile (\<lambda>b. b \<noteq> 123) key))"
  shows "keyHashSlot key = ucast (crc16 key) AND 0x3FFF"
proof (cases "123 \<in> set key")
  case False
  then show ?thesis using findByte_append [of 123 key "length key" key "[]" "[]"] by (simp add: keyHashSlot_def)
next
  case True
  then obtain pre post where key: "key = pre @ 123 # post" "123 \<notin> set pre" by (meson split_list_first)
  then have "dropWhile (\<lambda>b. b \<noteq> 123) key = 123 # post" by (auto simp: dropWhile_append)
  then have "125 \<notin> set post" using assms True by simp
  then have "findByte 125 key (length key) (length pre + 1) = length key"
    using findByte_append [of 125 post "length key" key "pre @ [123]" "[]"] key by simp
  then show ?thesis using findByte_append [of 123 pre "length key" key "[]" "123 # post"] key
    by (simp add: keyHashSlot_def)
qed

lemma keyHashSlot_tag:
  assumes "123 \<notin> set pre" "125 \<notin> set tag" "tag \<noteq> []"
  shows "keyHashSlot (pre @ 123 # tag @ 125 # post) = ucast (crc16 tag) AND 0x3FFF"
proof -
  define k where k: "k = pre @ 123 # tag @ 125 # post"
  have "findByte 123 k (length k) 0 = length pre"
    using findByte_append [of 123 pre "length k" k "[]" "123 # tag @ 125 # post"] assms k by simp
  moreover have "findByte 125 k (length k) (length pre + 1) = length pre + 1 + length tag"
    using findByte_append [of 125 tag "length k" k "pre @ [123]" "125 # post"] assms k by simp
  moreover have "length k = length pre + length tag + length post + 2" by (simp add: k)
  moreover have "take (length tag) (drop (length pre + 1) k) = tag" by (simp add: k)
  ultimately have "keyHashSlot k = ucast (crc16 tag) AND 0x3FFF"
    using assms(3) by (simp add: keyHashSlot_def)
  then show ?thesis by (simp only: k)
qed

lemma keyHashSlot_less: "keyHashSlot key < 16384"
proof -
  have "w AND 0x3FFF < (16384 :: 32 word)" for w
  proof -
    have "w AND 0x3FFF \<le> 0x3FFF" by (rule word_and_le1)
    then show ?thesis by (rule le_less_trans) simp
  qed
  then show ?thesis by (simp add: keyHashSlot_def Let_def)
qed

section \<open>Properties\<close>

text \<open>Property C17.  The table-driven loops compute the cyclic redundancy checks that the comments of the
  files name, bit by bit: CRC-16/XMODEM (polynomial \<open>0x1021\<close>, not reflected, initial value 0) and
  CRC-64 with the Jones polynomial \<open>0xad93d23594c935a9\<close>, reflected, from any initial value.\<close>

theorem crc_tables_bitwise: "crc16 buf = crc16_spec buf \<and> crc64 crc s = crc64_spec crc s"
  by (simp add: crc16_bitwise crc64_bitwise)

text \<open>Property C21.  The checksum of RDB files and \<open>DUMP\<close> payloads detects every change that is confined
  to at most eight consecutive bytes.\<close>

theorem crc64_detects_bursts:
  assumes "length us = length vs" "length us \<le> 8" "us \<noteq> vs"
  shows "crc64 crc (xs @ us @ ys) \<noteq> crc64 crc (xs @ vs @ ys)"
  using crc64_burst assms by blast

theorem crc64_detects_bursts_witness:
  "crc64 0 ([82, 69] @ [68, 73] @ [83]) \<noteq> crc64 0 ([82, 69] @ [0, 73] @ [83])"
  using crc64_detects_bursts [of "[68, 73]" "[0, 73]" 0 "[82, 69]" "[83]"] by simp

text \<open>Property C36.  Every key is mapped to one of the 16384 slots; a key with a non-empty hash tag between
  its first opening brace and the next closing brace has the slot of the tag alone.\<close>

theorem keyHashSlot_tags:
  assumes "123 \<notin> set pre" "125 \<notin> set tag" "tag \<noteq> []"
  shows "keyHashSlot key < 16384 \<and> keyHashSlot (pre @ 123 # tag @ 125 # post) = keyHashSlot tag"
proof
  show "keyHashSlot key < 16384" by (rule keyHashSlot_less)
  have "125 \<notin> set (tl (dropWhile (\<lambda>b. b \<noteq> 123) tag))"
    using assms(2) set_dropWhileD [of 125 "\<lambda>b. b \<noteq> 123" tag]
      set_drop_subset [of 1 "dropWhile (\<lambda>b. b \<noteq> 123) tag"] by (auto simp: drop_Suc)
  then show "keyHashSlot (pre @ 123 # tag @ 125 # post) = keyHashSlot tag"
    using keyHashSlot_tag [OF assms] keyHashSlot_whole [of tag] by simp
qed

theorem keyHashSlot_tags_witness:
  "keyHashSlot [97] < 16384 \<and> keyHashSlot ([97] @ 123 # [98, 99] @ 125 # [100]) = keyHashSlot [98, 99]"
  using keyHashSlot_tags [of "[97]" "[98, 99]" "[97]" "[100]"] by simp

end
