(* ===== verification/Cluster.thy ===== *)
theory Cluster
  imports Prelude
begin

unbundle bit_operations_syntax

text \<open>
  The local state of a cluster node (\<open>cluster.c\<close>, \<open>cluster.h\<close>): which node
  serves which slot, configuration epochs, votes, failure reports and the
  decision whether the cluster is available.  Nodes are cells of a heap and
  pointers to them are addresses, \<open>None\<close> is \<open>NULL\<close>; invalid accesses and failed
  assertions are \<open>None\<close>.  Messages and calls that leave this state are appended
  to \<open>cs_events\<close>; readings of \<open>mstime()\<close> are arguments.  Links, addresses,
  handshakes, replication offsets and logging are left out.
\<close>

section \<open>Data\<close>

definition REDIS_CLUSTER_SLOTS :: nat where
  "REDIS_CLUSTER_SLOTS = 16384"

definition REDIS_NODE_MASTER :: u32 where "REDIS_NODE_MASTER = 1"
definition REDIS_NODE_SLAVE :: u32 where "REDIS_NODE_SLAVE = 2"
definition REDIS_NODE_PFAIL :: u32 where "REDIS_NODE_PFAIL = 4"
definition REDIS_NODE_FAIL :: u32 where "REDIS_NODE_FAIL = 8"

definition CLUSTER_TODO_HANDLE_FAILOVER :: u32 where "CLUSTER_TODO_HANDLE_FAILOVER = 1"
definition CLUSTER_TODO_UPDATE_STATE :: u32 where "CLUSTER_TODO_UPDATE_STATE = 2"
definition CLUSTER_TODO_SAVE_CONFIG :: u32 where "CLUSTER_TODO_SAVE_CONFIG = 4"
definition CLUSTER_TODO_FSYNC_CONFIG :: u32 where "CLUSTER_TODO_FSYNC_CONFIG = 8"

record clusterNodeFailReport =
  fr_node :: nat
  fr_time :: int

record clusterNode =
  cn_name :: bytes
  cn_flags :: u32
  cn_configEpoch :: u64
  cn_slots :: bytes
  cn_numslots :: int
  cn_slaves :: "nat list"
  cn_slaveof :: "nat option"
  cn_fail_time :: int
  cn_voted_time :: int
  cn_fail_reports :: "clusterNodeFailReport list"

definition nodeIsMaster :: "clusterNode \<Rightarrow> bool" where
  "nodeIsMaster n \<longleftrightarrow> cn_flags n AND REDIS_NODE_MASTER \<noteq> 0"

definition nodeIsSlave :: "clusterNode \<Rightarrow> bool" where
  "nodeIsSlave n \<longleftrightarrow> cn_flags n AND REDIS_NODE_SLAVE \<noteq> 0"

definition nodeTimedOut :: "clusterNode \<Rightarrow> bool" where
  "nodeTimedOut n \<longleftrightarrow> cn_flags n AND REDIS_NODE_PFAIL \<noteq> 0"

definition nodeFailed :: "clusterNode \<Rightarrow> bool" where
  "nodeFailed n \<longleftrightarrow> cn_flags n AND REDIS_NODE_FAIL \<noteq> 0"

datatype cluster_state = REDIS_CLUSTER_OK | REDIS_CLUSTER_FAIL

text \<open>\<open>SendFailoverAuth node epoch\<close> is the vote; its message header carries \<open>currentEpoch\<close>.\<close>

datatype cluster_event =
    SendFailoverAuth nat u64
  | SendFail bytes
  | SaveConfigOrDie
  | ReplicationSetMaster nat
  | DelKeysInSlot nat

text \<open>
  \<open>cs_nodes\<close> are the entries of the table of nodes in the order of an iteration,
  \<open>cs_slots_to_keys j\<close> the keys of slot \<open>j\<close>.  The two static variables of
  \<open>clusterUpdateState\<close> and the two configuration parameters it reads are fields.
\<close>

record clusterState =
  cs_heap :: "nat \<Rightarrow> clusterNode option"
  cs_myself :: nat
  cs_currentEpoch :: u64
  cs_state :: cluster_state
  cs_size :: int
  cs_nodes :: "(bytes \<times> nat) list"
  cs_migrating_slots_to :: "nat option list"
  cs_importing_slots_from :: "nat option list"
  cs_slots :: "nat option list"
  cs_slots_to_keys :: "nat \<Rightarrow> bytes list"
  cs_failover_auth_count :: int
  cs_failover_auth_epoch :: u64
  cs_mf_end :: int
  cs_mf_slave :: "nat option"
  cs_mf_master_offset :: int
  cs_mf_can_start :: bool
  cs_lastVoteEpoch :: u64
  cs_todo_before_sleep :: u32
  cs_node_timeout :: int
  cs_require_full_coverage :: bool
  cs_among_minority_time :: int
  cs_first_call_time :: int
  cs_events :: "cluster_event list"

definition upd_node :: "nat \<Rightarrow> (clusterNode \<Rightarrow> clusterNode) \<Rightarrow> clusterState \<Rightarrow> clusterState option" where
  "upd_node p f s = map_option (\<lambda>n. s\<lparr>cs_heap := (cs_heap s)(p \<mapsto> f n)\<rparr>) (cs_heap s p)"

definition emit :: "cluster_event \<Rightarrow> clusterState \<Rightarrow> clusterState" where
  "emit e s = s\<lparr>cs_events := cs_events s @ [e]\<rparr>"

definition clusterDoBeforeSleep :: "u32 \<Rightarrow> clusterState \<Rightarrow> clusterState" where
  "clusterDoBeforeSleep flags s = s\<lparr>cs_todo_before_sleep := cs_todo_before_sleep s OR flags\<rparr>"

text \<open>A node created at the address \<open>p\<close> that \<open>zmalloc\<close> returns; the name is given or random.\<close>

definition createClusterNode :: "bytes \<Rightarrow> u32 \<Rightarrow> clusterNode" where
  "createClusterNode nodename flags =
     \<lparr>cn_name = nodename, cn_flags = flags, cn_configEpoch = 0, cn_slots = replicate (REDIS_CLUSTER_SLOTS div 8) 0,
      cn_numslots = 0, cn_slaves = [], cn_slaveof = None, cn_fail_time = 0, cn_voted_time = 0, cn_fail_reports = []\<rparr>"

definition clusterAddNode :: "nat \<Rightarrow> clusterState \<Rightarrow> (bool \<times> clusterState) option" where
  "clusterAddNode p s = do {
     n \<leftarrow> cs_heap s p;
     (if cn_name n \<in> fst ` set (cs_nodes s) then Some (False, s)
      else Some (True, s\<lparr>cs_nodes := cs_nodes s @ [(cn_name n, p)]\<rparr>)) }"

section \<open>Slots\<close>

definition bitmapTestBit :: "bytes \<Rightarrow> nat \<Rightarrow> bool option" where
  "bitmapTestBit bitmap pos = do {
     b \<leftarrow> mem_get (pos div 8) bitmap;
     Some (b AND push_bit (pos mod 8) 1 \<noteq> 0) }"

definition bitmapSetBit :: "bytes \<Rightarrow> nat \<Rightarrow> bytes option" where
  "bitmapSetBit bitmap pos = do {
     b \<leftarrow> mem_get (pos div 8) bitmap;
     mem_set (pos div 8) (b OR push_bit (pos mod 8) 1) bitmap }"

definition bitmapClearBit :: "bytes \<Rightarrow> nat \<Rightarrow> bytes option" where
  "bitmapClearBit bitmap pos = do {
     b \<leftarrow> mem_get (pos div 8) bitmap;
     mem_set (pos div 8) (b AND NOT (push_bit (pos mod 8) 1)) bitmap }"

definition clusterNodeSetSlotBit :: "nat \<Rightarrow> nat \<Rightarrow> clusterState \<Rightarrow> (bool \<times> clusterState) option" where
  "clusterNodeSetSlotBit p slot s = do {
     n \<leftarrow> cs_heap s p;
     old \<leftarrow> bitmapTestBit (cn_slots n) slot;
     bm \<leftarrow> bitmapSetBit (cn_slots n) slot;
     s \<leftarrow> upd_node p (\<lambda>n. n\<lparr>cn_slots := bm, cn_numslots := (if old then cn_numslots n else cn_numslots n + 1)\<rparr>) s;
     Some (old, s) }"

definition clusterNodeClearSlotBit :: "nat \<Rightarrow> nat \<Rightarrow> clusterState \<Rightarrow> (bool \<times> clusterState) option" where
  "clusterNodeClearSlotBit p slot s = do {
     n \<leftarrow> cs_heap s p;
     old \<leftarrow> bitmapTestBit (cn_slots n) slot;
     bm \<leftarrow> bitmapClearBit (cn_slots n) slot;
     s \<leftarrow> upd_node p (\<lambda>n. n\<lparr>cn_slots := bm, cn_numslots := (if old then cn_numslots n - 1 else cn_numslots n)\<rparr>) s;
     Some (old, s) }"

definition clusterNodeGetSlotBit :: "nat \<Rightarrow> nat \<Rightarrow> clusterState \<Rightarrow> bool option" where
  "clusterNodeGetSlotBit p slot s = do { n \<leftarrow> cs_heap s p; bitmapTestBit (cn_slots n) slot }"

text \<open>The Boolean result is \<open>REDIS_OK\<close>.\<close>

definition clusterAddSlot :: "nat \<Rightarrow> nat \<Rightarrow> clusterState \<Rightarrow> (bool \<times> clusterState) option" where
  "clusterAddSlot p slot s = do {
     cur \<leftarrow> mem_get slot (cs_slots s);
     (if cur \<noteq> None then Some (False, s)
      else do {
        (_, s) \<leftarrow> clusterNodeSetSlotBit p slot s;
        sl \<leftarrow> mem_set slot (Some p) (cs_slots s);
        Some (True, s\<lparr>cs_slots := sl\<rparr>)
      }) }"

definition clusterDelSlot :: "nat \<Rightarrow> clusterState \<Rightarrow> (bool \<times> clusterState) option" where
  "clusterDelSlot slot s = do {
     cur \<leftarrow> mem_get slot (cs_slots s);
     (case cur of
        None \<Rightarrow> Some (False, s)
      | Some n \<Rightarrow> do {
          (old, s) \<leftarrow> clusterNodeClearSlotBit n slot s;
          (if \<not> old then None
           else do {
             sl \<leftarrow> mem_set slot None (cs_slots s);
             Some (True, s\<lparr>cs_slots := sl\<rparr>)
           })
        }) }"

definition clusterDelNodeSlots :: "nat \<Rightarrow> clusterState \<Rightarrow> (int \<times> clusterState) option" where
  "clusterDelNodeSlots node s =
     for_each [0..<REDIS_CLUSTER_SLOTS] (\<lambda>j (deleted, s). do {
       b \<leftarrow> clusterNodeGetSlotBit node j s;
       s \<leftarrow> (if b then map_option snd (clusterDelSlot j s) else Some s);
       Some (deleted + 1, s)
     }) (0, s)"

definition clusterCloseAllSlots :: "clusterState \<Rightarrow> clusterState" where
  "clusterCloseAllSlots s =
     s\<lparr>cs_migrating_slots_to := replicate REDIS_CLUSTER_SLOTS None,
       cs_importing_slots_from := replicate REDIS_CLUSTER_SLOTS None\<rparr>"

section \<open>Slaves and roles\<close>

fun removeSlave :: "nat \<Rightarrow> nat list \<Rightarrow> nat list option" where
  "removeSlave slave [] = None"
| "removeSlave slave (x # xs) = (if x = slave then Some xs else map_option ((#) x) (removeSlave slave xs))"

definition clusterNodeRemoveSlave :: "nat \<Rightarrow> nat \<Rightarrow> clusterState \<Rightarrow> (bool \<times> clusterState) option" where
  "clusterNodeRemoveSlave master slave s = do {
     m \<leftarrow> cs_heap s master;
     (case removeSlave slave (cn_slaves m) of
        None \<Rightarrow> Some (False, s)
      | Some xs \<Rightarrow> do { s \<leftarrow> upd_node master (\<lambda>m. m\<lparr>cn_slaves := xs\<rparr>) s; Some (True, s) }) }"

definition clusterNodeAddSlave :: "nat \<Rightarrow> nat \<Rightarrow> clusterState \<Rightarrow> (bool \<times> clusterState) option" where
  "clusterNodeAddSlave master slave s = do {
     m \<leftarrow> cs_heap s master;
     (if slave \<in> set (cn_slaves m) then Some (False, s)
      else do { s \<leftarrow> upd_node master (\<lambda>m. m\<lparr>cn_slaves := cn_slaves m @ [slave]\<rparr>) s; Some (True, s) }) }"

definition clusterSetNodeAsMaster :: "nat \<Rightarrow> clusterState \<Rightarrow> clusterState option" where
  "clusterSetNodeAsMaster p s = do {
     n \<leftarrow> cs_heap s p;
     (if nodeIsMaster n then Some s
      else do {
        s \<leftarrow> (case cn_slaveof n of
                None \<Rightarrow> Some s
              | Some m \<Rightarrow> map_option snd (clusterNodeRemoveSlave m p s));
        s \<leftarrow> upd_node p (\<lambda>n. n\<lparr>cn_flags := (cn_flags n AND NOT REDIS_NODE_SLAVE) OR REDIS_NODE_MASTER, cn_slaveof := None\<rparr>) s;
        Some (clusterDoBeforeSleep (CLUSTER_TODO_SAVE_CONFIG OR CLUSTER_TODO_UPDATE_STATE) s)
      }) }"

text \<open>Clients that were paused for the failover are resumed, which is not part of this state.\<close>

definition resetManualFailover :: "clusterState \<Rightarrow> clusterState" where
  "resetManualFailover s = s\<lparr>cs_mf_end := 0, cs_mf_can_start := False, cs_mf_slave := None, cs_mf_master_offset := 0\<rparr>"

definition clusterSetMaster :: "nat \<Rightarrow> clusterState \<Rightarrow> clusterState option" where
  "clusterSetMaster p s = do {
     me \<leftarrow> cs_heap s (cs_myself s);
     (if p = cs_myself s \<or> cn_numslots me \<noteq> 0 then None
      else do {
        s \<leftarrow> (if nodeIsMaster me then do {
                 s \<leftarrow> upd_node (cs_myself s) (\<lambda>n. n\<lparr>cn_flags := (cn_flags n AND NOT REDIS_NODE_MASTER) OR REDIS_NODE_SLAVE\<rparr>) s;
                 Some (clusterCloseAllSlots s) }
               else (case cn_slaveof me of
                   None \<Rightarrow> Some s
                 | Some m \<Rightarrow> map_option snd (clusterNodeRemoveSlave m (cs_myself s) s)));
        s \<leftarrow> upd_node (cs_myself s) (\<lambda>n. n\<lparr>cn_slaveof := Some p\<rparr>) s;
        (_, s) \<leftarrow> clusterNodeAddSlave p (cs_myself s) s;
        Some (resetManualFailover (emit (ReplicationSetMaster p) s))
      }) }"

section \<open>Epochs\<close>

fun maxEpochLoop :: "nat list \<Rightarrow> (nat \<Rightarrow> clusterNode option) \<Rightarrow> u64 \<Rightarrow> u64 option" where
  "maxEpochLoop [] h m = Some m"
| "maxEpochLoop (p # ps) h m = do { n \<leftarrow> h p; maxEpochLoop ps h (if cn_configEpoch n > m then cn_configEpoch n else m) }"

definition clusterGetMaxEpoch :: "clusterState \<Rightarrow> u64 option" where
  "clusterGetMaxEpoch s = do {
     m \<leftarrow> maxEpochLoop (map snd (cs_nodes s)) (cs_heap s) 0;
     Some (if m < cs_currentEpoch s then cs_currentEpoch s else m) }"

definition clusterBumpConfigEpochWithoutConsensus :: "clusterState \<Rightarrow> (bool \<times> clusterState) option" where
  "clusterBumpConfigEpochWithoutConsensus s = do {
     maxEpoch \<leftarrow> clusterGetMaxEpoch s;
     me \<leftarrow> cs_heap s (cs_myself s);
     (if cn_configEpoch me = 0 \<or> cn_configEpoch me \<noteq> maxEpoch then do {
        let s = s\<lparr>cs_currentEpoch := cs_currentEpoch s + 1\<rparr>;
        s \<leftarrow> upd_node (cs_myself s) (\<lambda>n. n\<lparr>cn_configEpoch := cs_currentEpoch s\<rparr>) s;
        Some (True, clusterDoBeforeSleep (CLUSTER_TODO_SAVE_CONFIG OR CLUSTER_TODO_FSYNC_CONFIG) s)
      }
      else Some (False, s)) }"

fun memcmp_le :: "bytes \<Rightarrow> bytes \<Rightarrow> bool" where
  "memcmp_le (a # as) (b # bs) = (a < b \<or> (a = b \<and> memcmp_le as bs))"
| "memcmp_le _ _ = True"

definition clusterHandleConfigEpochCollision :: "nat \<Rightarrow> clusterState \<Rightarrow> clusterState option" where
  "clusterHandleConfigEpochCollision sender s = do {
     sn \<leftarrow> cs_heap s sender;
     me \<leftarrow> cs_heap s (cs_myself s);
     (if cn_configEpoch sn \<noteq> cn_configEpoch me \<or> \<not> nodeIsMaster sn \<or> \<not> nodeIsMaster me then Some s
      else if memcmp_le (cn_name sn) (cn_name me) then Some s
      else do {
        let s = s\<lparr>cs_currentEpoch := cs_currentEpoch s + 1\<rparr>;
        s \<leftarrow> upd_node (cs_myself s) (\<lambda>n. n\<lparr>cn_configEpoch := cs_currentEpoch s\<rparr>) s;
        Some (emit SaveConfigOrDie s)
      }) }"

text \<open>The epochs that every packet of a known node carries (part of \<open>clusterProcessPacket\<close>).\<close>

definition packetEpochs :: "nat \<Rightarrow> u64 \<Rightarrow> u64 \<Rightarrow> clusterState \<Rightarrow> clusterState option" where
  "packetEpochs sender senderCurrentEpoch senderConfigEpoch s = do {
     let s = (if senderCurrentEpoch > cs_currentEpoch s then s\<lparr>cs_currentEpoch := senderCurrentEpoch\<rparr> else s);
     sn \<leftarrow> cs_heap s sender;
     (if senderConfigEpoch > cn_configEpoch sn then do {
        s \<leftarrow> upd_node sender (\<lambda>n. n\<lparr>cn_configEpoch := senderConfigEpoch\<rparr>) s;
        Some (clusterDoBeforeSleep (CLUSTER_TODO_SAVE_CONFIG OR CLUSTER_TODO_FSYNC_CONFIG) s)
      } else Some s) }"

section \<open>Configuration updates\<close>

definition countKeysInSlot :: "nat \<Rightarrow> clusterState \<Rightarrow> nat" where
  "countKeysInSlot j s = length (cs_slots_to_keys s j)"

definition delKeysInSlot :: "nat \<Rightarrow> clusterState \<Rightarrow> clusterState" where
  "delKeysInSlot j s = emit (DelKeysInSlot j) (s\<lparr>cs_slots_to_keys := (cs_slots_to_keys s)(j := [])\<rparr>)"

definition rebindSlot ::
  "nat \<Rightarrow> u64 \<Rightarrow> bytes \<Rightarrow> nat option \<Rightarrow> nat \<Rightarrow> clusterState \<times> nat list \<times> nat option
   \<Rightarrow> (clusterState \<times> nat list \<times> nat option) option" where
  "rebindSlot sender senderConfigEpoch slots curmaster j = (\<lambda>(s, dirty_slots, newmaster). do {
     claimed \<leftarrow> bitmapTestBit slots j;
     cur \<leftarrow> mem_get j (cs_slots s);
     importing \<leftarrow> mem_get j (cs_importing_slots_from s);
     (if \<not> claimed \<or> cur = Some sender \<or> importing \<noteq> None then Some (s, dirty_slots, newmaster)
      else do {
        older \<leftarrow> (case cur of None \<Rightarrow> Some True | Some p \<Rightarrow> map_option (\<lambda>n. cn_configEpoch n < senderConfigEpoch) (cs_heap s p));
        (if \<not> older then Some (s, dirty_slots, newmaster)
         else do {
           let dirty_slots = (if cur = Some (cs_myself s) \<and> countKeysInSlot j s \<noteq> 0 \<and> sender \<noteq> cs_myself s
                              then dirty_slots @ [j] else dirty_slots);
           let newmaster = (if cur = curmaster then Some sender else newmaster);
           (_, s) \<leftarrow> clusterDelSlot j s;
           (_, s) \<leftarrow> clusterAddSlot sender j s;
           Some (clusterDoBeforeSleep (CLUSTER_TODO_SAVE_CONFIG OR CLUSTER_TODO_UPDATE_STATE OR CLUSTER_TODO_FSYNC_CONFIG) s,
                 dirty_slots, newmaster)
         })
      }) })"

definition clusterUpdateSlotsConfigWith :: "nat \<Rightarrow> u64 \<Rightarrow> bytes \<Rightarrow> clusterState \<Rightarrow> clusterState option" where
  "clusterUpdateSlotsConfigWith sender senderConfigEpoch slots s = do {
     me \<leftarrow> cs_heap s (cs_myself s);
     let curmaster = (if nodeIsMaster me then Some (cs_myself s) else cn_slaveof me);
     (if sender = cs_myself s then Some s
      else do {
        (s, dirty_slots, newmaster) \<leftarrow> for_each [0..<REDIS_CLUSTER_SLOTS]
           (rebindSlot sender senderConfigEpoch slots curmaster) (s, [], None);
        demoted \<leftarrow> (if newmaster = None then Some False
                     else do { cm \<leftarrow> curmaster; n \<leftarrow> cs_heap s cm; Some (cn_numslots n = 0) });
        (if demoted then do {
           s \<leftarrow> clusterSetMaster sender s;
           Some (clusterDoBeforeSleep (CLUSTER_TODO_SAVE_CONFIG OR CLUSTER_TODO_UPDATE_STATE OR CLUSTER_TODO_FSYNC_CONFIG) s)
         } else Some (fold delKeysInSlot dirty_slots s))
      }) }"

text \<open>The \<open>UPDATE\<close> packet of \<open>clusterProcessPacket\<close>, for a known sender and a known node \<open>p\<close>.\<close>

definition packetUpdate :: "nat \<Rightarrow> u64 \<Rightarrow> bytes \<Rightarrow> clusterState \<Rightarrow> clusterState option" where
  "packetUpdate p reportedConfigEpoch slots s = do {
     n \<leftarrow> cs_heap s p;
     (if cn_configEpoch n \<ge> reportedConfigEpoch then Some s
      else do {
        s \<leftarrow> (if nodeIsSlave n then clusterSetNodeAsMaster p s else Some s);
        s \<leftarrow> upd_node p (\<lambda>n. n\<lparr>cn_configEpoch := reportedConfigEpoch\<rparr>) s;
        clusterUpdateSlotsConfigWith p reportedConfigEpoch slots
          (clusterDoBeforeSleep (CLUSTER_TODO_SAVE_CONFIG OR CLUSTER_TODO_FSYNC_CONFIG) s)
      }) }"

section \<open>Votes\<close>

record auth_request =
  req_currentEpoch :: u64
  req_configEpoch :: u64
  req_myslots :: bytes
  req_force_ack :: bool

fun claimsOk :: "nat list \<Rightarrow> u64 \<Rightarrow> bytes \<Rightarrow> clusterState \<Rightarrow> bool option" where
  "claimsOk [] requestConfigEpoch claimed_slots s = Some True"
| "claimsOk (j # js) requestConfigEpoch claimed_slots s = do {
     b \<leftarrow> bitmapTestBit claimed_slots j;
     cur \<leftarrow> mem_get j (cs_slots s);
     ok \<leftarrow> (case cur of None \<Rightarrow> Some True | Some p \<Rightarrow> map_option (\<lambda>n. cn_configEpoch n \<le> requestConfigEpoch) (cs_heap s p));
     (if \<not> b \<or> ok then claimsOk js requestConfigEpoch claimed_slots s else Some False) }"

definition clusterSendFailoverAuthIfNeeded ::
  "nat \<Rightarrow> auth_request \<Rightarrow> int \<Rightarrow> int \<Rightarrow> clusterState \<Rightarrow> clusterState option" where
  "clusterSendFailoverAuthIfNeeded p request now now' s = do {
     me \<leftarrow> cs_heap s (cs_myself s);
     node \<leftarrow> cs_heap s p;
     (if nodeIsSlave me \<or> cn_numslots me = 0 then Some s
      else if req_currentEpoch request < cs_currentEpoch s then Some s
      else if cs_lastVoteEpoch s = cs_currentEpoch s then Some s
      else if nodeIsMaster node then Some s
      else (case cn_slaveof node of
          None \<Rightarrow> Some s
        | Some m \<Rightarrow> do {
            master \<leftarrow> cs_heap s m;
            (if \<not> nodeFailed master \<and> \<not> req_force_ack request then Some s
             else if now - cn_voted_time master < cs_node_timeout s * 2 then Some s
             else do {
               ok \<leftarrow> claimsOk [0..<REDIS_CLUSTER_SLOTS] (req_configEpoch request) (req_myslots request) s;
               (if \<not> ok then Some s
                else do {
                  let s = emit (SendFailoverAuth p (cs_currentEpoch s)) s;
                  let s = s\<lparr>cs_lastVoteEpoch := cs_currentEpoch s\<rparr>;
                  upd_node m (\<lambda>n. n\<lparr>cn_voted_time := now'\<rparr>) s
                })
             })
          })) }"

text \<open>A \<open>FAILOVER_AUTH_REQUEST\<close> packet of a known node, with the epochs of its header.\<close>

definition packetAuthRequest :: "nat \<Rightarrow> auth_request \<Rightarrow> int \<Rightarrow> int \<Rightarrow> clusterState \<Rightarrow> clusterState option" where
  "packetAuthRequest p request now now' s = do {
     s \<leftarrow> packetEpochs p (req_currentEpoch request) (req_configEpoch request) s;
     clusterSendFailoverAuthIfNeeded p request now now' s }"

definition packetAuthAck :: "nat \<Rightarrow> u64 \<Rightarrow> clusterState \<Rightarrow> clusterState option" where
  "packetAuthAck sender senderCurrentEpoch s = do {
     sn \<leftarrow> cs_heap s sender;
     (if nodeIsMaster sn \<and> cn_numslots sn > 0 \<and> senderCurrentEpoch \<ge> cs_failover_auth_epoch s
      then Some (clusterDoBeforeSleep CLUSTER_TODO_HANDLE_FAILOVER (s\<lparr>cs_failover_auth_count := cs_failover_auth_count s + 1\<rparr>))
      else Some s) }"

section \<open>Failure detection\<close>

fun addReport :: "nat \<Rightarrow> int \<Rightarrow> clusterNodeFailReport list \<Rightarrow> bool \<times> clusterNodeFailReport list" where
  "addReport sender now [] = (True, [\<lparr>fr_node = sender, fr_time = now\<rparr>])"
| "addReport sender now (fr # frs) =
     (if fr_node fr = sender then (False, fr\<lparr>fr_time := now\<rparr> # frs)
      else map_prod id ((#) fr) (addReport sender now frs))"

definition clusterNodeAddFailureReport :: "nat \<Rightarrow> nat \<Rightarrow> int \<Rightarrow> clusterState \<Rightarrow> (bool \<times> clusterState) option" where
  "clusterNodeAddFailureReport failing sender now s = do {
     n \<leftarrow> cs_heap s failing;
     let (added, frs) = addReport sender now (cn_fail_reports n);
     s \<leftarrow> upd_node failing (\<lambda>n. n\<lparr>cn_fail_reports := frs\<rparr>) s;
     Some (added, s) }"

definition clusterNodeCleanupFailureReports :: "nat \<Rightarrow> int \<Rightarrow> clusterState \<Rightarrow> clusterState option" where
  "clusterNodeCleanupFailureReports p now s =
     upd_node p (\<lambda>n. n\<lparr>cn_fail_reports := filter (\<lambda>fr. \<not> now - fr_time fr > cs_node_timeout s * 2) (cn_fail_reports n)\<rparr>) s"

fun delReport :: "nat \<Rightarrow> clusterNodeFailReport list \<Rightarrow> clusterNodeFailReport list option" where
  "delReport sender [] = None"
| "delReport sender (fr # frs) = (if fr_node fr = sender then Some frs else map_option ((#) fr) (delReport sender frs))"

definition clusterNodeDelFailureReport :: "nat \<Rightarrow> nat \<Rightarrow> int \<Rightarrow> clusterState \<Rightarrow> (bool \<times> clusterState) option" where
  "clusterNodeDelFailureReport p sender now s = do {
     n \<leftarrow> cs_heap s p;
     (case delReport sender (cn_fail_reports n) of
        None \<Rightarrow> Some (False, s)
      | Some frs \<Rightarrow> do {
          s \<leftarrow> upd_node p (\<lambda>n. n\<lparr>cn_fail_reports := frs\<rparr>) s;
          s \<leftarrow> clusterNodeCleanupFailureReports p now s;
          Some (True, s)
        }) }"

definition clusterNodeFailureReportsCount :: "nat \<Rightarrow> int \<Rightarrow> clusterState \<Rightarrow> (int \<times> clusterState) option" where
  "clusterNodeFailureReportsCount p now s = do {
     s \<leftarrow> clusterNodeCleanupFailureReports p now s;
     n \<leftarrow> cs_heap s p;
     Some (int (length (cn_fail_reports n)), s) }"

definition markNodeAsFailingIfNeeded :: "nat \<Rightarrow> int \<Rightarrow> int \<Rightarrow> clusterState \<Rightarrow> clusterState option" where
  "markNodeAsFailingIfNeeded p now now' s = do {
     node \<leftarrow> cs_heap s p;
     let needed_quorum = cs_size s div 2 + 1;
     (if \<not> nodeTimedOut node then Some s
      else if nodeFailed node then Some s
      else do {
        (failures, s) \<leftarrow> clusterNodeFailureReportsCount p now s;
        me \<leftarrow> cs_heap s (cs_myself s);
        let failures = (if nodeIsMaster me then failures + 1 else failures);
        (if failures < needed_quorum then Some s
         else do {
           s \<leftarrow> upd_node p (\<lambda>n. n\<lparr>cn_flags := (cn_flags n AND NOT REDIS_NODE_PFAIL) OR REDIS_NODE_FAIL, cn_fail_time := now'\<rparr>) s;
           me \<leftarrow> cs_heap s (cs_myself s);
           let s = (if nodeIsMaster me then emit (SendFail (cn_name node)) s else s);
           Some (clusterDoBeforeSleep (CLUSTER_TODO_UPDATE_STATE OR CLUSTER_TODO_SAVE_CONFIG) s)
         })
      }) }"

definition clearNodeFailureIfNeeded :: "nat \<Rightarrow> int \<Rightarrow> clusterState \<Rightarrow> clusterState option" where
  "clearNodeFailureIfNeeded p now s = do {
     n \<leftarrow> cs_heap s p;
     (if \<not> nodeFailed n then None
      else do {
        s \<leftarrow> (if nodeIsSlave n \<or> cn_numslots n = 0 then do {
                 s \<leftarrow> upd_node p (\<lambda>n. n\<lparr>cn_flags := cn_flags n AND NOT REDIS_NODE_FAIL\<rparr>) s;
                 Some (clusterDoBeforeSleep (CLUSTER_TODO_UPDATE_STATE OR CLUSTER_TODO_SAVE_CONFIG) s) }
               else Some s);
        n \<leftarrow> cs_heap s p;
        (if nodeIsMaster n \<and> cn_numslots n > 0 \<and> now - cn_fail_time n > cs_node_timeout s * 2 then do {
           s \<leftarrow> upd_node p (\<lambda>n. n\<lparr>cn_flags := cn_flags n AND NOT REDIS_NODE_FAIL\<rparr>) s;
           Some (clusterDoBeforeSleep (CLUSTER_TODO_UPDATE_STATE OR CLUSTER_TODO_SAVE_CONFIG) s) }
         else Some s)
      }) }"

section \<open>Cluster state\<close>

fun slotsCovered :: "nat option list \<Rightarrow> (nat \<Rightarrow> clusterNode option) \<Rightarrow> bool option" where
  "slotsCovered [] h = Some True"
| "slotsCovered (None # sl) h = Some False"
| "slotsCovered (Some p # sl) h = do { n \<leftarrow> h p; (if nodeFailed n then Some False else slotsCovered sl h) }"

fun countMasters :: "nat list \<Rightarrow> (nat \<Rightarrow> clusterNode option) \<Rightarrow> int \<Rightarrow> int \<Rightarrow> (int \<times> int) option" where
  "countMasters [] h sz reachable = Some (sz, reachable)"
| "countMasters (p # ps) h sz reachable = do {
     n \<leftarrow> h p;
     (if nodeIsMaster n \<and> cn_numslots n \<noteq> 0
      then countMasters ps h (sz + 1) (if cn_flags n AND (REDIS_NODE_FAIL OR REDIS_NODE_PFAIL) = 0 then reachable + 1 else reachable)
      else countMasters ps h sz reachable) }"

text \<open>\<open>clock i\<close> is the \<open>i\<close>-th reading of the clock in the call.\<close>

definition evaluateState :: "(nat \<Rightarrow> int) \<Rightarrow> clusterNode \<Rightarrow> clusterState \<Rightarrow> clusterState option" where
  "evaluateState clock me s = do {
     covered \<leftarrow> (if cs_require_full_coverage s then slotsCovered (cs_slots s) (cs_heap s) else Some True);
     (sz, reachable_masters) \<leftarrow> countMasters (map snd (cs_nodes s)) (cs_heap s) 0 0;
     let s = s\<lparr>cs_size := sz\<rparr>;
     let minority = (reachable_masters < sz div 2 + 1);
     let new_state = (if covered \<and> \<not> minority then REDIS_CLUSTER_OK else REDIS_CLUSTER_FAIL);
     let s = (if minority then s\<lparr>cs_among_minority_time := clock 2\<rparr> else s);
     (if new_state \<noteq> cs_state s then
        (let rejoin_delay = max 500 (min 5000 (cs_node_timeout s)) in
         if new_state = REDIS_CLUSTER_OK \<and> nodeIsMaster me \<and> clock 3 - cs_among_minority_time s < rejoin_delay
         then Some s
         else Some (s\<lparr>cs_state := new_state\<rparr>))
      else Some s) }"

definition clusterUpdateState :: "(nat \<Rightarrow> int) \<Rightarrow> clusterState \<Rightarrow> clusterState option" where
  "clusterUpdateState clock s = do {
     let s = s\<lparr>cs_todo_before_sleep := cs_todo_before_sleep s AND NOT CLUSTER_TODO_UPDATE_STATE\<rparr>;
     let s = (if cs_first_call_time s = 0 then s\<lparr>cs_first_call_time := clock 0\<rparr> else s);
     me \<leftarrow> cs_heap s (cs_myself s);
     (if nodeIsMaster me \<and> cs_state s = REDIS_CLUSTER_FAIL \<and> clock 1 - cs_first_call_time s < 2000 then Some s
      else evaluateState clock me s) }"

section \<open>Bitmaps\<close>

definition bitAt :: "bytes \<Rightarrow> nat \<Rightarrow> bool" where
  "bitAt bm pos = bit (bm ! (pos div 8)) (pos mod 8)"

lemma byte_test: "(b :: byte) AND 2 ^ k \<noteq> 0 \<longleftrightarrow> bit b k"
  using bit_iff_and_push_bit_not_eq_0 [of b k] by simp

lemma bit_byte_one: "bit (2 ^ k :: byte) m \<longleftrightarrow> m = k \<and> k < 8"
  by (auto simp: bit_exp_iff)

lemma mod8_less: "pos mod 8 < (8 :: nat)" by simp

lemma bitmapTestBit_ok: "pos div 8 < length bm \<Longrightarrow> bitmapTestBit bm pos = Some (bitAt bm pos)"
  by (simp add: bitmapTestBit_def mem_get_def bitAt_def byte_test)

lemma div_mod_8_eq: "q div 8 = p div 8 \<Longrightarrow> q mod 8 = p mod 8 \<Longrightarrow> q = (p :: nat)"
  by (metis div_mult_mod_eq)

lemma bitmapSetBit_ok:
  "pos div 8 < length bm \<Longrightarrow> \<exists>bm'. bitmapSetBit bm pos = Some bm' \<and> length bm' = length bm \<and>
     (\<forall>q. bitAt bm' q \<longleftrightarrow> q = pos \<or> bitAt bm q)"
  by (auto simp: bitmapSetBit_def mem_get_def mem_set_def bitAt_def nth_list_update bit_or_iff bit_byte_one dest: div_mod_8_eq)

lemma bitmapClearBit_ok:
  "pos div 8 < length bm \<Longrightarrow> \<exists>bm'. bitmapClearBit bm pos = Some bm' \<and> length bm' = length bm \<and>
     (\<forall>q. bitAt bm' q \<longleftrightarrow> q \<noteq> pos \<and> bitAt bm q)"
  by (auto simp: bitmapClearBit_def mem_get_def mem_set_def bitAt_def nth_list_update bit_and_iff bit_not_iff bit_byte_one dest: div_mod_8_eq)

section \<open>Invariant\<close>

abbreviation N_SLOTS :: nat where "N_SLOTS \<equiv> REDIS_CLUSTER_SLOTS"

definition served :: "nat \<Rightarrow> nat option list \<Rightarrow> nat set" where
  "served p sl = {j. j < N_SLOTS \<and> sl ! j = Some p}"

definition node_ok :: "nat option list \<Rightarrow> nat \<Rightarrow> clusterNode \<Rightarrow> bool" where
  "node_ok sl p n \<longleftrightarrow> length (cn_slots n) = N_SLOTS div 8 \<and> {j. j < N_SLOTS \<and> bitAt (cn_slots n) j} = served p sl
     \<and> cn_numslots n = int (card (served p sl))"

definition slots_ok :: "clusterState \<Rightarrow> bool" where
  "slots_ok s \<longleftrightarrow> length (cs_slots s) = N_SLOTS \<and> length (cs_importing_slots_from s) = N_SLOTS
     \<and> (\<forall>p n. cs_heap s p = Some n \<longrightarrow> node_ok (cs_slots s) p n)
     \<and> (\<forall>p. Some p \<in> set (cs_slots s) \<longrightarrow> p \<in> dom (cs_heap s))"

definition refs_ok :: "clusterState \<Rightarrow> bool" where
  "refs_ok s \<longleftrightarrow> (\<forall>p n m. cs_heap s p = Some n \<longrightarrow> cn_slaveof n = Some m \<longrightarrow> m \<in> dom (cs_heap s))
     \<and> snd ` set (cs_nodes s) \<subseteq> dom (cs_heap s)"

text \<open>A node that is not a master serves no slots and knows its master.\<close>

definition myself_ok :: "clusterState \<Rightarrow> bool" where
  "myself_ok s \<longleftrightarrow> (\<exists>me. cs_heap s (cs_myself s) = Some me \<and>
     (nodeIsMaster me \<or> (cn_slaveof me \<noteq> None \<and> cn_numslots me = 0)))"

definition cluster_inv :: "clusterState \<Rightarrow> bool" where
  "cluster_inv s \<longleftrightarrow> slots_ok s \<and> refs_ok s \<and> myself_ok s"

lemma slot_div: "j < N_SLOTS \<Longrightarrow> j div 8 < N_SLOTS div 8"
  by (simp add: REDIS_CLUSTER_SLOTS_def)

lemma finite_served [simp]: "finite (served p sl)"
  by (simp add: served_def)

lemma served_update:
  "j < N_SLOTS \<Longrightarrow> length sl = N_SLOTS \<Longrightarrow>
   served p (sl[j := v]) = (if v = Some p then insert j (served p sl) else served p sl - {j})"
  by (auto simp: served_def nth_list_update)

lemma node_ok_cong:
  "cn_slots n = cn_slots n' \<Longrightarrow> cn_numslots n = cn_numslots n' \<Longrightarrow> node_ok sl p n = node_ok sl p n'"
  by (simp add: node_ok_def)

lemma node_ok_bit: "node_ok sl p n \<Longrightarrow> j < N_SLOTS \<Longrightarrow> bitAt (cn_slots n) j \<longleftrightarrow> sl ! j = Some p"
  unfolding node_ok_def served_def by blast

lemma slots_okD:
  assumes "slots_ok s"
  shows "length (cs_slots s) = N_SLOTS" "length (cs_importing_slots_from s) = N_SLOTS"
    "cs_heap s p = Some n \<Longrightarrow> node_ok (cs_slots s) p n"
    "j < N_SLOTS \<Longrightarrow> cs_slots s ! j = Some q \<Longrightarrow> \<exists>n. cs_heap s q = Some n"
  using assms unfolding slots_ok_def by (auto dest: nth_mem simp: dom_def) (metis nth_mem)

text \<open>What the rest of the state may do: change anything but the slots and the links of the nodes.\<close>

definition same_links :: "clusterNode \<Rightarrow> clusterNode \<Rightarrow> bool" where
  "same_links n n' \<longleftrightarrow> cn_slots n' = cn_slots n \<and> cn_numslots n' = cn_numslots n \<and> cn_slaveof n' = cn_slaveof n
     \<and> nodeIsMaster n' = nodeIsMaster n"

definition frame :: "clusterState \<Rightarrow> clusterState \<Rightarrow> bool" where
  "frame s s' \<longleftrightarrow> cs_slots s' = cs_slots s \<and> cs_importing_slots_from s' = cs_importing_slots_from s
     \<and> cs_myself s' = cs_myself s \<and> cs_nodes s' = cs_nodes s
     \<and> (\<forall>p. rel_option same_links (cs_heap s p) (cs_heap s' p))"

lemma same_links_refl [simp]: "same_links n n" by (simp add: same_links_def)

lemma frame_refl [simp]: "frame s s"
  by (simp add: frame_def option.rel_refl)

lemma frame_fwd: "frame s s' \<Longrightarrow> cs_heap s p = Some n \<Longrightarrow> \<exists>n'. cs_heap s' p = Some n' \<and> same_links n n'"
  unfolding frame_def by (metis option_rel_Some1)

lemma frame_bwd: "frame s s' \<Longrightarrow> cs_heap s' p = Some n' \<Longrightarrow> \<exists>n. cs_heap s p = Some n \<and> same_links n n'"
  unfolding frame_def by (metis option_rel_Some2)

lemma frame_trans [trans]:
  assumes "frame s s'" "frame s' s''"
  shows "frame s s''"
proof -
  have "transp same_links" by (auto simp: transp_def same_links_def)
  then have "rel_option same_links (cs_heap s p) (cs_heap s'' p)" for p
    using assms transpD [OF option.rel_transp] unfolding frame_def by metis
  then show ?thesis using assms by (simp add: frame_def)
qed

lemma frame_dom: "frame s s' \<Longrightarrow> dom (cs_heap s') = dom (cs_heap s)"
  by (auto simp: frame_def option.rel_sel dom_def)

lemma frame_slots_refs:
  assumes "frame s s'" "slots_ok s" "refs_ok s"
  shows "slots_ok s' \<and> refs_ok s'"
proof -
  note dom = frame_dom [OF assms(1)]
  have node: "\<exists>n. cs_heap s p = Some n \<and> same_links n n'" if "cs_heap s' p = Some n'" for p n'
    using frame_bwd [OF assms(1) that] .
  have "slots_ok s'"
    using assms dom node unfolding slots_ok_def frame_def same_links_def by (metis node_ok_cong)
  moreover have "refs_ok s'"
    using assms dom node unfolding refs_ok_def frame_def same_links_def by metis
  ultimately show ?thesis by simp
qed

lemma frame_inv:
  assumes "frame s s'" "cluster_inv s"
  shows "cluster_inv s'"
proof -
  obtain me where me: "cs_heap s (cs_myself s) = Some me" "nodeIsMaster me \<or> (cn_slaveof me \<noteq> None \<and> cn_numslots me = 0)"
    using assms(2) by (auto simp: cluster_inv_def myself_ok_def)
  then obtain me' where "cs_heap s' (cs_myself s) = Some me'" "same_links me me'"
    using frame_fwd [OF assms(1)] by blast
  then have "myself_ok s'" using me assms(1) by (auto simp: myself_ok_def frame_def same_links_def)
  then show ?thesis using frame_slots_refs [OF assms(1)] assms(2) by (simp add: cluster_inv_def)
qed

named_theorems frame_simps

lemma upd_node_frame:
  "cs_heap s p = Some n \<Longrightarrow> same_links n (f n) \<Longrightarrow> \<exists>s'. upd_node p f s = Some s' \<and> frame s s'"
  by (auto simp: upd_node_def frame_def option.rel_refl)

lemma frame_fields [frame_simps]:
  "frame s (clusterDoBeforeSleep fl s') = frame s s'"
  "frame s (emit e s') = frame s s'"
  "frame s (s'\<lparr>cs_currentEpoch := x\<rparr>) = frame s s'"
  "frame s (s'\<lparr>cs_lastVoteEpoch := x\<rparr>) = frame s s'"
  "frame s (s'\<lparr>cs_failover_auth_count := y\<rparr>) = frame s s'"
  "frame s (s'\<lparr>cs_todo_before_sleep := z\<rparr>) = frame s s'"
  "frame s (s'\<lparr>cs_first_call_time := t\<rparr>) = frame s s'"
  "frame s (s'\<lparr>cs_among_minority_time := t\<rparr>) = frame s s'"
  "frame s (s'\<lparr>cs_size := t\<rparr>) = frame s s'"
  "frame s (s'\<lparr>cs_state := st\<rparr>) = frame s s'"
  "frame s (s'\<lparr>cs_slots_to_keys := k\<rparr>) = frame s s'"
  "frame s (resetManualFailover s') = frame s s'"
  by (simp_all add: frame_def clusterDoBeforeSleep_def emit_def resetManualFailover_def)


lemma master_flag_simps [simp]:
  "nodeIsMaster (n\<lparr>cn_flags := (cn_flags n AND NOT REDIS_NODE_PFAIL) OR REDIS_NODE_FAIL\<rparr>) = nodeIsMaster n"
  "nodeIsMaster (n\<lparr>cn_flags := cn_flags n AND NOT REDIS_NODE_FAIL\<rparr>) = nodeIsMaster n"
  "nodeIsMaster (n\<lparr>cn_flags := (cn_flags n AND NOT REDIS_NODE_SLAVE) OR REDIS_NODE_MASTER\<rparr>)"
  "\<not> nodeIsMaster (n\<lparr>cn_flags := (cn_flags n AND NOT REDIS_NODE_MASTER) OR REDIS_NODE_SLAVE\<rparr>)"
proof -
  have *: "x AND (1 :: u32) \<noteq> 0 \<longleftrightarrow> bit x 0" for x
    using bit_iff_and_push_bit_not_eq_0 [of x 0] by simp
  show "nodeIsMaster (n\<lparr>cn_flags := (cn_flags n AND NOT REDIS_NODE_PFAIL) OR REDIS_NODE_FAIL\<rparr>) = nodeIsMaster n"
    "nodeIsMaster (n\<lparr>cn_flags := cn_flags n AND NOT REDIS_NODE_FAIL\<rparr>) = nodeIsMaster n"
    "nodeIsMaster (n\<lparr>cn_flags := (cn_flags n AND NOT REDIS_NODE_SLAVE) OR REDIS_NODE_MASTER\<rparr>)"
    "\<not> nodeIsMaster (n\<lparr>cn_flags := (cn_flags n AND NOT REDIS_NODE_MASTER) OR REDIS_NODE_SLAVE\<rparr>)"
    by (simp_all add: nodeIsMaster_def REDIS_NODE_MASTER_def REDIS_NODE_SLAVE_def REDIS_NODE_PFAIL_def
        REDIS_NODE_FAIL_def * bit_and_iff bit_or_iff bit_not_iff)
qed

lemma nodeIsMaster_fields [simp]:
  "nodeIsMaster (n\<lparr>cn_configEpoch := a\<rparr>) = nodeIsMaster n"
  "nodeIsMaster (n\<lparr>cn_voted_time := t\<rparr>) = nodeIsMaster n"
  "nodeIsMaster (n\<lparr>cn_fail_time := t\<rparr>) = nodeIsMaster n"
  "nodeIsMaster (n\<lparr>cn_fail_reports := frs\<rparr>) = nodeIsMaster n"
  "nodeIsMaster (n\<lparr>cn_slaves := sl\<rparr>) = nodeIsMaster n"
  "nodeIsMaster (n\<lparr>cn_slaveof := m\<rparr>) = nodeIsMaster n"
  "nodeIsMaster (n\<lparr>cn_slots := bm\<rparr>) = nodeIsMaster n"
  "nodeIsMaster (n\<lparr>cn_numslots := k\<rparr>) = nodeIsMaster n"
  by (simp_all add: nodeIsMaster_def)

section \<open>Operations that keep slots and links\<close>

lemma cluster_inv_myself: "cluster_inv s \<Longrightarrow> \<exists>me. cs_heap s (cs_myself s) = Some me"
  by (auto simp: cluster_inv_def myself_ok_def)

lemma refs_slaveof: "cluster_inv s \<Longrightarrow> cs_heap s p = Some n \<Longrightarrow> cn_slaveof n = Some m \<Longrightarrow> \<exists>mn. cs_heap s m = Some mn"
  unfolding cluster_inv_def refs_ok_def dom_def by simp

lemma packetEpochs_ok:
  assumes "cs_heap s p = Some n"
  shows "\<exists>s'. packetEpochs p e c s = Some s' \<and> frame s s' \<and> cs_currentEpoch s' = max e (cs_currentEpoch s)
    \<and> cs_lastVoteEpoch s' = cs_lastVoteEpoch s \<and> cs_events s' = cs_events s"
  using assms by (auto simp: packetEpochs_def upd_node_def Let_def clusterDoBeforeSleep_def frame_def
      same_links_def option.rel_refl max_def)

lemma maxEpochLoop_ok:
  "set ps \<subseteq> dom h \<Longrightarrow> maxEpochLoop ps h m = Some (foldl max m (map (cn_configEpoch \<circ> the \<circ> h) ps))"
proof (induction ps arbitrary: m)
  case (Cons p ps)
  then obtain n where "h p = Some n" by auto
  then show ?case using Cons by (simp add: max_def not_less) (simp add: less_le_not_le)
qed simp

lemma clusterGetMaxEpoch_ok:
  assumes "cluster_inv s"
  shows "\<exists>m. clusterGetMaxEpoch s = Some m"
proof -
  have "set (map snd (cs_nodes s)) \<subseteq> dom (cs_heap s)" using assms by (auto simp: cluster_inv_def refs_ok_def)
  then show ?thesis by (simp add: clusterGetMaxEpoch_def maxEpochLoop_ok)
qed

lemma clusterBumpConfigEpoch_ok:
  assumes "cluster_inv s"
  shows "\<exists>r s'. clusterBumpConfigEpochWithoutConsensus s = Some (r, s') \<and> frame s s' \<and> cs_events s' = cs_events s
    \<and> cs_lastVoteEpoch s' = cs_lastVoteEpoch s \<and> cs_currentEpoch s' = (if r then cs_currentEpoch s + 1 else cs_currentEpoch s)"
  using clusterGetMaxEpoch_ok [OF assms] cluster_inv_myself [OF assms]
  by (auto simp: clusterBumpConfigEpochWithoutConsensus_def Let_def upd_node_def clusterDoBeforeSleep_def
      frame_def same_links_def option.rel_refl)

lemma clusterHandleConfigEpochCollision_ok:
  assumes "cluster_inv s" "cs_heap s p = Some n"
  shows "\<exists>s'. clusterHandleConfigEpochCollision p s = Some s' \<and> frame s s'"
  using assms(2) cluster_inv_myself [OF assms(1)]
  by (auto simp: clusterHandleConfigEpochCollision_def Let_def upd_node_def emit_def frame_def same_links_def option.rel_refl)

lemma bitmapTestBit_slot: "length bm = N_SLOTS div 8 \<Longrightarrow> j < N_SLOTS \<Longrightarrow> bitmapTestBit bm j = Some (bitAt bm j)"
  by (simp add: bitmapTestBit_ok slot_div)

lemma claimsOk_total:
  assumes "slots_ok s" "length bm = N_SLOTS div 8" "set js \<subseteq> {..<N_SLOTS}"
  shows "\<exists>b. claimsOk js e bm s = Some b"
  using assms(3)
proof (induction js)
  case (Cons j js)
  have "mem_get j (cs_slots s) = Some (cs_slots s ! j)"
    using Cons.prems slots_okD(1) [OF assms(1)] by (simp add: mem_get_def)
  then show ?case
    using Cons assms(2) bitmapTestBit_slot [of bm j] slots_okD(4) [OF assms(1), of j]
    by (cases "cs_slots s ! j") auto
qed auto

lemma clusterSendFailoverAuth_ok:
  assumes inv: "cluster_inv s" and p: "cs_heap s p = Some n" and bm: "length (req_myslots req) = N_SLOTS div 8"
  shows "\<exists>s'. clusterSendFailoverAuthIfNeeded p req now now' s = Some s' \<and> frame s s' \<and> cs_currentEpoch s' = cs_currentEpoch s
    \<and> (cs_events s' = cs_events s \<and> cs_lastVoteEpoch s' = cs_lastVoteEpoch s \<or>
       cs_events s' = cs_events s @ [SendFailoverAuth p (cs_currentEpoch s)] \<and> cs_lastVoteEpoch s' = cs_currentEpoch s
         \<and> cs_lastVoteEpoch s \<noteq> cs_currentEpoch s)"
proof -
  obtain me where me: "cs_heap s (cs_myself s) = Some me" using cluster_inv_myself [OF inv] by blast
  obtain ok where ok: "claimsOk [0..<N_SLOTS] (req_configEpoch req) (req_myslots req) s = Some ok"
    using claimsOk_total [of s "req_myslots req" "[0..<N_SLOTS]"] inv bm by (auto simp: cluster_inv_def atLeast0LessThan)
  show ?thesis
  proof (cases "cn_slaveof n")
    case None
    then show ?thesis using me p by (simp add: clusterSendFailoverAuthIfNeeded_def)
  next
    case (Some m)
    then obtain mn where "cs_heap s m = Some mn" using refs_slaveof [OF inv p] by blast
    then show ?thesis
      using me p Some ok by (auto simp: clusterSendFailoverAuthIfNeeded_def Let_def upd_node_def emit_def
          frame_def same_links_def option.rel_refl)
  qed
qed


lemma packetAuthAck_ok: "cs_heap s p = Some n \<Longrightarrow> \<exists>s'. packetAuthAck p e s = Some s' \<and> frame s s' \<and> cs_events s' = cs_events s
    \<and> cs_currentEpoch s' = cs_currentEpoch s \<and> cs_lastVoteEpoch s' = cs_lastVoteEpoch s"
  by (auto simp: packetAuthAck_def frame_simps) (simp_all add: clusterDoBeforeSleep_def)

lemma clusterNodeAddFailureReport_ok:
  "cs_heap s p = Some n \<Longrightarrow> \<exists>r s'. clusterNodeAddFailureReport p q now s = Some (r, s') \<and> frame s s'"
  by (auto simp: clusterNodeAddFailureReport_def upd_node_def frame_def same_links_def option.rel_refl split: prod.splits)

lemma clusterNodeCleanup_ok:
  "cs_heap s p = Some n \<Longrightarrow> \<exists>s'. clusterNodeCleanupFailureReports p now s = Some s' \<and> frame s s'"
  by (auto simp: clusterNodeCleanupFailureReports_def upd_node_def frame_def same_links_def option.rel_refl)

lemma clusterNodeDelFailureReport_ok:
  "cs_heap s p = Some n \<Longrightarrow> \<exists>r s'. clusterNodeDelFailureReport p q now s = Some (r, s') \<and> frame s s'"
  by (auto simp: clusterNodeDelFailureReport_def clusterNodeCleanupFailureReports_def upd_node_def frame_def same_links_def
      option.rel_refl split: option.splits)

lemma clusterNodeFailureReportsCount_ok:
  assumes "cs_heap s p = Some n"
  shows "\<exists>s'. clusterNodeFailureReportsCount p now s =
      Some (int (length (filter (\<lambda>fr. now - fr_time fr \<le> cs_node_timeout s * 2) (cn_fail_reports n))), s') \<and> frame s s'"
  using assms by (auto simp: clusterNodeFailureReportsCount_def clusterNodeCleanupFailureReports_def upd_node_def frame_def
      same_links_def option.rel_refl not_less)

lemma markNodeAsFailing_ok:
  assumes "cluster_inv s" "cs_heap s p = Some n"
  shows "\<exists>s'. markNodeAsFailingIfNeeded p now now' s = Some s' \<and> frame s s'"
proof -
  obtain c s1 where s1: "clusterNodeFailureReportsCount p now s = Some (c, s1)" "frame s s1"
    using clusterNodeFailureReportsCount_ok [OF assms(2)] by blast
  obtain n1 where n1: "cs_heap s1 p = Some n1" using frame_fwd [OF s1(2) assms(2)] by blast
  obtain me where me: "cs_heap s1 (cs_myself s1) = Some me"
    using cluster_inv_myself [OF frame_inv [OF s1(2) assms(1)]] by blast
  let ?f = "\<lambda>n. n\<lparr>cn_flags := (cn_flags n AND NOT REDIS_NODE_PFAIL) OR REDIS_NODE_FAIL, cn_fail_time := now'\<rparr>"
  have "same_links n1 (?f n1)" by (simp add: same_links_def)
  then obtain s2 where s2: "upd_node p ?f s1 = Some s2" "frame s1 s2"
    using upd_node_frame [OF n1, of ?f] by blast
  obtain me2 where me2: "cs_heap s2 (cs_myself s2) = Some me2"
    using cluster_inv_myself [OF frame_inv [OF s2(2) frame_inv [OF s1(2) assms(1)]]] by blast
  show ?thesis using assms(2) s1 me s2 me2 frame_trans [OF s1(2) s2(2)]
    by (auto simp: markNodeAsFailingIfNeeded_def Let_def frame_simps)
qed

lemma clearNodeFailure_ok:
  assumes "cs_heap s p = Some n" "nodeFailed n"
  shows "\<exists>s'. clearNodeFailureIfNeeded p now s = Some s' \<and> frame s s'"
  using assms by (auto simp: clearNodeFailureIfNeeded_def upd_node_def Let_def clusterDoBeforeSleep_def frame_def
      same_links_def option.rel_refl)

lemma slotsCovered_ok:
  "(\<forall>p. Some p \<in> set sl \<longrightarrow> p \<in> dom h) \<Longrightarrow>
   slotsCovered sl h = Some (\<forall>v\<in>set sl. \<exists>p n. v = Some p \<and> h p = Some n \<and> \<not> nodeFailed n)"
proof (induction sl)
  case (Cons v sl)
  then show ?case by (cases v) auto
qed simp

definition voting :: "clusterNode \<Rightarrow> bool" where
  "voting n \<longleftrightarrow> nodeIsMaster n \<and> cn_numslots n \<noteq> 0"

definition reachable_master :: "clusterNode \<Rightarrow> bool" where
  "reachable_master n \<longleftrightarrow> voting n \<and> \<not> nodeFailed n \<and> \<not> nodeTimedOut n"

lemma fail_flags: "fl AND (REDIS_NODE_FAIL OR REDIS_NODE_PFAIL) = 0 \<longleftrightarrow> fl AND REDIS_NODE_FAIL = 0 \<and> fl AND REDIS_NODE_PFAIL = 0"
  by (auto simp: bit_eq_iff bit_and_iff bit_or_iff)

lemma countMasters_ok:
  "set ps \<subseteq> dom h \<Longrightarrow> countMasters ps h a b =
   Some (a + int (length (filter (\<lambda>p. voting (the (h p))) ps)), b + int (length (filter (\<lambda>p. reachable_master (the (h p))) ps)))"
proof (induction ps arbitrary: a b)
  case (Cons p ps)
  then obtain n where "h p = Some n" by auto
  then show ?case using Cons
    by (simp add: voting_def reachable_master_def nodeFailed_def nodeTimedOut_def fail_flags)
qed simp

section \<open>Operations that move slots\<close>

lemma upd_node_ok: "cs_heap s p = Some n \<Longrightarrow> upd_node p f s = Some (s\<lparr>cs_heap := (cs_heap s)(p \<mapsto> f n)\<rparr>)"
  by (simp add: upd_node_def)

definition moved :: "clusterNode \<Rightarrow> clusterNode \<Rightarrow> bool" where
  "moved n n' \<longleftrightarrow> (\<exists>sl k. n' = n\<lparr>cn_slots := sl, cn_numslots := k\<rparr>)"

lemma moved_refl [simp]: "moved n n"
  unfolding moved_def by (rule exI [of _ "cn_slots n"], rule exI [of _ "cn_numslots n"]) simp

lemma moved_upd [simp]: "moved n (n\<lparr>cn_slots := sl, cn_numslots := k\<rparr>)"
  unfolding moved_def by blast

definition rebound :: "nat \<Rightarrow> nat option \<Rightarrow> clusterState \<Rightarrow> clusterState \<Rightarrow> bool" where
  "rebound j v s s' \<longleftrightarrow> (\<exists>h. s' = s\<lparr>cs_slots := (cs_slots s)[j := v], cs_heap := h\<rparr> \<and>
     (\<forall>p. rel_option moved (cs_heap s p) (h p)))"

lemma reboundI:
  "cs_heap s p = Some n \<Longrightarrow>
   rebound j v s (s\<lparr>cs_slots := (cs_slots s)[j := v], cs_heap := (cs_heap s)(p \<mapsto> n\<lparr>cn_slots := bm, cn_numslots := k\<rparr>)\<rparr>)"
  unfolding rebound_def by (intro exI conjI refl) (auto simp: option.rel_refl)

text \<open>Binding and unbinding one slot, on the table and on the bitmap of the node together.\<close>

lemma slots_ok_move:
  assumes ok: "slots_ok s" and j: "j < N_SLOTS" and p: "cs_heap s p = Some n"
    and v: "cs_slots s ! j \<noteq> v" "cs_slots s ! j = None \<or> v = None" "cs_slots s ! j = Some p \<or> v = Some p"
    and bm: "length bm = length (cn_slots n)" "\<forall>q. bitAt bm q \<longleftrightarrow> (if q = j then v = Some p else bitAt (cn_slots n) q)"
  shows "slots_ok (s\<lparr>cs_slots := (cs_slots s)[j := v],
    cs_heap := (cs_heap s)(p \<mapsto> n\<lparr>cn_slots := bm, cn_numslots := (if v = Some p then cn_numslots n + 1 else cn_numslots n - 1)\<rparr>)\<rparr>)"
    (is "slots_ok ?s'")
proof -
  note len = slots_okD(1) [OF ok]
  have n: "node_ok (cs_slots s) p n" using slots_okD(3) [OF ok p] .
  have "node_ok (cs_slots ?s') q m" if m: "cs_heap ?s' q = Some m" for q m
  proof (cases "q = p")
    case True
    have sv: "served p (cs_slots ?s') = (if v = Some p then insert j (served p (cs_slots s)) else served p (cs_slots s) - {j})"
      using j len by (simp add: served_update)
    have "int (card (served p (cs_slots ?s'))) = int (card (served p (cs_slots s))) + (if v = Some p then 1 else - 1)"
    proof (cases "v = Some p")
      case True
      then have "j \<notin> served p (cs_slots s)" using v by (simp add: served_def)
      then show ?thesis using True sv by simp
    next
      case False
      then have "j \<in> served p (cs_slots s)" using v j by (simp add: served_def)
      then have "card (served p (cs_slots s)) = Suc (card (served p (cs_slots s) - {j}))"
        by (rule card.remove [OF finite_served])
      then show ?thesis unfolding sv using False by simp
    qed
    moreover have "{i. i < N_SLOTS \<and> bitAt bm i} = served p (cs_slots ?s')"
      using n bm(2) j unfolding sv by (auto simp: node_ok_def set_eq_iff split: if_splits)
    moreover have "m = n\<lparr>cn_slots := bm, cn_numslots := (if v = Some p then cn_numslots n + 1 else cn_numslots n - 1)\<rparr>"
      using m True by simp
    ultimately show ?thesis using n bm(1) True unfolding node_ok_def by simp
  next
    case False
    then have "served q (cs_slots ?s') = served q (cs_slots s)"
      using j len v by (auto simp: served_update) (auto simp: served_def)
    moreover have "cs_heap s q = Some m" using m False by simp
    ultimately show ?thesis using slots_okD(3) [OF ok, of q m] by (simp add: node_ok_def)
  qed
  moreover have "\<forall>q. Some q \<in> set (cs_slots ?s') \<longrightarrow> q \<in> dom (cs_heap ?s')"
    using ok v(3) p set_update_subset_insert [of "cs_slots s" j v] v(2) unfolding slots_ok_def by (auto simp: dom_def)
  ultimately show ?thesis using ok unfolding slots_ok_def by simp
qed


lemma clusterAddSlot_ok:
  assumes ok: "slots_ok s" and j: "j < N_SLOTS" and p: "cs_heap s p = Some n" and free: "cs_slots s ! j = None"
  shows "\<exists>s'. clusterAddSlot p j s = Some (True, s') \<and> slots_ok s' \<and> rebound j (Some p) s s'"
proof -
  have n: "node_ok (cs_slots s) p n" using slots_okD(3) [OF ok p] .
  have unset: "\<not> bitAt (cn_slots n) j" using node_ok_bit [OF n j] free by simp
  obtain bm where bm: "bitmapSetBit (cn_slots n) j = Some bm" "length bm = length (cn_slots n)"
      "\<forall>q. bitAt bm q \<longleftrightarrow> q = j \<or> bitAt (cn_slots n) q"
    using bitmapSetBit_ok [of j "cn_slots n"] n slot_div [OF j] by (auto simp: node_ok_def)
  have "bitmapTestBit (cn_slots n) j = Some False" using n unset j by (simp add: bitmapTestBit_slot node_ok_def)
  then have "clusterAddSlot p j s = Some (True, s\<lparr>cs_slots := (cs_slots s)[j := Some p],
      cs_heap := (cs_heap s)(p \<mapsto> n\<lparr>cn_slots := bm, cn_numslots := cn_numslots n + 1\<rparr>)\<rparr>)"
    using j p free bm(1) slots_okD(1) [OF ok]
    by (simp add: clusterAddSlot_def clusterNodeSetSlotBit_def mem_get_def mem_set_def upd_node_def)
  moreover have "slots_ok (s\<lparr>cs_slots := (cs_slots s)[j := Some p],
      cs_heap := (cs_heap s)(p \<mapsto> n\<lparr>cn_slots := bm, cn_numslots := cn_numslots n + 1\<rparr>)\<rparr>)"
    using slots_ok_move [OF ok j p, of "Some p" bm] free bm(2,3) by simp
  ultimately show ?thesis using reboundI [OF p] by blast
qed

lemma clusterDelSlot_ok:
  assumes ok: "slots_ok s" and j: "j < N_SLOTS" and cur: "cs_slots s ! j = Some p"
  shows "\<exists>s'. clusterDelSlot j s = Some (True, s') \<and> slots_ok s' \<and> rebound j None s s'"
proof -
  obtain n where p: "cs_heap s p = Some n" using slots_okD(4) [OF ok j cur] by blast
  have n: "node_ok (cs_slots s) p n" using slots_okD(3) [OF ok p] .
  have set: "bitAt (cn_slots n) j" using node_ok_bit [OF n j] cur by simp
  obtain bm where bm: "bitmapClearBit (cn_slots n) j = Some bm" "length bm = length (cn_slots n)"
      "\<forall>q. bitAt bm q \<longleftrightarrow> q \<noteq> j \<and> bitAt (cn_slots n) q"
    using bitmapClearBit_ok [of j "cn_slots n"] n slot_div [OF j] by (auto simp: node_ok_def)
  have "bitmapTestBit (cn_slots n) j = Some True" using n set j by (simp add: bitmapTestBit_slot node_ok_def)
  then have "clusterDelSlot j s = Some (True, s\<lparr>cs_slots := (cs_slots s)[j := None],
      cs_heap := (cs_heap s)(p \<mapsto> n\<lparr>cn_slots := bm, cn_numslots := cn_numslots n - 1\<rparr>)\<rparr>)"
    using j p cur bm(1) slots_okD(1) [OF ok]
    by (simp add: clusterDelSlot_def clusterNodeClearSlotBit_def mem_get_def mem_set_def upd_node_def)
  moreover have "slots_ok (s\<lparr>cs_slots := (cs_slots s)[j := None],
      cs_heap := (cs_heap s)(p \<mapsto> n\<lparr>cn_slots := bm, cn_numslots := cn_numslots n - 1\<rparr>)\<rparr>)"
    using slots_ok_move [OF ok j p, of None bm] cur bm(2,3) by simp
  ultimately show ?thesis using reboundI [OF p] by blast
qed

lemma clusterDelSlot_none: "slots_ok s \<Longrightarrow> j < N_SLOTS \<Longrightarrow> cs_slots s ! j = None \<Longrightarrow> clusterDelSlot j s = Some (False, s)"
  using slots_okD(1) by (simp add: clusterDelSlot_def mem_get_def)

lemma clusterAddSlot_busy:
  "slots_ok s \<Longrightarrow> j < N_SLOTS \<Longrightarrow> cs_slots s ! j \<noteq> None \<Longrightarrow> clusterAddSlot p j s = Some (False, s)"
  using slots_okD(1) by (simp add: clusterAddSlot_def mem_get_def)

text \<open>Rebinding slots changes only the slots, the bitmaps and the counters.\<close>

definition slots_moved :: "clusterState \<Rightarrow> clusterState \<Rightarrow> bool" where
  "slots_moved s s' \<longleftrightarrow> s' = s\<lparr>cs_slots := cs_slots s', cs_heap := cs_heap s', cs_todo_before_sleep := cs_todo_before_sleep s'\<rparr>
     \<and> (\<forall>p. rel_option moved (cs_heap s p) (cs_heap s' p))"

lemma moved_trans: "moved a b \<Longrightarrow> moved b c \<Longrightarrow> moved a c"
  unfolding moved_def by clarify (intro exI, simp)

lemma slots_moved_refl [simp]: "slots_moved s s"
  by (simp add: slots_moved_def option.rel_refl)

lemma rebound_moved: "rebound j v s s' \<Longrightarrow> slots_moved s s'"
  unfolding rebound_def slots_moved_def by clarify simp

lemma slots_moved_todo: "slots_moved s (clusterDoBeforeSleep fl s)"
  by (simp add: clusterDoBeforeSleep_def slots_moved_def option.rel_refl)

lemma slots_moved_trans [trans]:
  assumes "slots_moved s s'" "slots_moved s' s''"
  shows "slots_moved s s''"
proof -
  have "transp (rel_option moved)" using moved_trans by (intro option.rel_transp) (auto simp: transp_def)
  then have "rel_option moved (cs_heap s p) (cs_heap s'' p)" for p
    using assms unfolding slots_moved_def by (metis transpD)
  moreover have "s'' = s\<lparr>cs_slots := cs_slots s'', cs_heap := cs_heap s'', cs_todo_before_sleep := cs_todo_before_sleep s''\<rparr>"
    using assms unfolding slots_moved_def by (cases s; cases s'; cases s'') simp
  ultimately show ?thesis by (simp add: slots_moved_def)
qed

lemma slots_moved_fwd: "slots_moved s s' \<Longrightarrow> cs_heap s p = Some n \<Longrightarrow> \<exists>n'. cs_heap s' p = Some n' \<and> moved n n'"
  unfolding slots_moved_def by (metis option_rel_Some1)

lemma slots_moved_bwd: "slots_moved s s' \<Longrightarrow> cs_heap s' p = Some n' \<Longrightarrow> \<exists>n. cs_heap s p = Some n \<and> moved n n'"
  unfolding slots_moved_def by (metis option_rel_Some2)

lemma slots_moved_fields:
  assumes "slots_moved s s'"
  shows "cs_myself s' = cs_myself s" "cs_importing_slots_from s' = cs_importing_slots_from s" "cs_nodes s' = cs_nodes s"
    "cs_slots_to_keys s' = cs_slots_to_keys s" "cs_events s' = cs_events s" "cs_currentEpoch s' = cs_currentEpoch s"
    "cs_lastVoteEpoch s' = cs_lastVoteEpoch s"
  using assms unfolding slots_moved_def by (cases s; cases s'; simp)+

lemma moved_fields:
  "moved n n' \<Longrightarrow> cn_configEpoch n' = cn_configEpoch n \<and> cn_slaveof n' = cn_slaveof n \<and> cn_flags n' = cn_flags n \<and> cn_name n' = cn_name n"
  by (auto simp: moved_def)

lemma slots_moved_dom: "slots_moved s s' \<Longrightarrow> dom (cs_heap s') = dom (cs_heap s)"
  unfolding dom_def using slots_moved_fwd [of s s'] slots_moved_bwd [of s s'] by blast

lemma slots_moved_refs:
  assumes "slots_moved s s'" "refs_ok s"
  shows "refs_ok s'"
  unfolding refs_ok_def slots_moved_dom [OF assms(1)] slots_moved_fields(3) [OF assms(1)]
proof (intro conjI allI impI)
  fix p n' m assume n': "cs_heap s' p = Some n'" "cn_slaveof n' = Some m"
  obtain n where "cs_heap s p = Some n" "moved n n'" using slots_moved_bwd [OF assms(1) n'(1)] by blast
  moreover from this have "cn_slaveof n = Some m" using n'(2) by (simp add: moved_fields)
  ultimately have "cs_heap s p = Some n" "cn_slaveof n = Some m" by simp_all
  then show "m \<in> dom (cs_heap s)" using assms(2) unfolding refs_ok_def by blast
qed (use assms(2) in \<open>simp add: refs_ok_def\<close>)

text \<open>The slot table after the rebinding loop.\<close>

definition rebinds :: "clusterState \<Rightarrow> nat \<Rightarrow> u64 \<Rightarrow> bytes \<Rightarrow> nat \<Rightarrow> bool" where
  "rebinds s sender epoch slots j \<longleftrightarrow> bitAt slots j \<and> cs_slots s ! j \<noteq> Some sender \<and> cs_importing_slots_from s ! j = None \<and>
     (case cs_slots s ! j of None \<Rightarrow> True | Some p \<Rightarrow> cn_configEpoch (the (cs_heap s p)) < epoch)"

lemma rebindSlot_ok:
  assumes ok: "slots_ok s" and j: "j < N_SLOTS" and bm: "length slots = N_SLOTS div 8" and sd: "cs_heap s sender = Some sn"
  shows "\<exists>s' d m. rebindSlot sender epoch slots cm j (s, dirty, nm) = Some (s', d, m) \<and> slots_ok s' \<and> slots_moved s s' \<and>
     cs_slots s' = (if rebinds s sender epoch slots j then (cs_slots s)[j := Some sender] else cs_slots s) \<and>
     (m = nm \<or> m = Some sender \<and> rebinds s sender epoch slots j \<and> cs_slots s ! j = cm) \<and>
     (rebinds s sender epoch slots j \<longrightarrow> cs_slots s ! j = cm \<longrightarrow> m = Some sender)"
proof -
  have get: "mem_get j (cs_slots s) = Some (cs_slots s ! j)" "mem_get j (cs_importing_slots_from s) = Some (cs_importing_slots_from s ! j)"
    "bitmapTestBit slots j = Some (bitAt slots j)"
    using j bm slots_okD(1,2) [OF ok] by (simp_all add: mem_get_def bitmapTestBit_slot)
  show ?thesis
  proof (cases "rebinds s sender epoch slots j")
    case False
    then show ?thesis using get slots_okD(4) [OF ok j] ok
      by (cases "cs_slots s ! j") (auto simp: rebindSlot_def rebinds_def)
  next
    case True
    obtain b s1 where s1: "clusterDelSlot j s = Some (b, s1)" "slots_ok s1" "slots_moved s s1" "cs_slots s1 = (cs_slots s)[j := None]"
    proof (cases "cs_slots s ! j")
      case None
      then show ?thesis using that [of False s] clusterDelSlot_none [OF ok j] ok by (metis list_update_id slots_moved_refl)
    next
      case (Some p)
      then obtain s1 where "clusterDelSlot j s = Some (True, s1)" "slots_ok s1" "rebound j None s s1"
        using clusterDelSlot_ok [OF ok j] by blast
      moreover from this(3) have "cs_slots s1 = (cs_slots s)[j := None]" by (auto simp: rebound_def)
      ultimately show ?thesis using that rebound_moved by blast
    qed
    obtain n1 where "cs_heap s1 sender = Some n1" using slots_moved_fwd [OF s1(3) sd] by blast
    moreover have "cs_slots s1 ! j = None" using s1(4) j slots_okD(1) [OF ok] by simp
    ultimately obtain s2 where s2: "clusterAddSlot sender j s1 = Some (True, s2)" "slots_ok s2" "rebound j (Some sender) s1 s2"
      using clusterAddSlot_ok [OF s1(2) j] by blast
    define s3 where "s3 = clusterDoBeforeSleep (CLUSTER_TODO_SAVE_CONFIG OR CLUSTER_TODO_UPDATE_STATE OR CLUSTER_TODO_FSYNC_CONFIG) s2"
    have "slots_moved s s3"
      using slots_moved_trans [OF slots_moved_trans [OF s1(3) rebound_moved [OF s2(3)]] slots_moved_todo] by (simp add: s3_def)
    moreover have "slots_ok s3" using s2(2) by (simp add: s3_def slots_ok_def clusterDoBeforeSleep_def)
    moreover have "cs_slots s3 = (cs_slots s)[j := Some sender]"
      using s2(3) s1(4) by (auto simp: s3_def clusterDoBeforeSleep_def rebound_def)
    moreover have "\<exists>d. rebindSlot sender epoch slots cm j (s, dirty, nm) = Some (s3, d, if cs_slots s ! j = cm then Some sender else nm)"
      using get True s1(1) s2(1) slots_okD(4) [OF ok j]
      by (cases "cs_slots s ! j") (auto simp: rebindSlot_def rebinds_def Let_def s3_def)
    ultimately show ?thesis using True by auto
  qed
qed


lemma moved_epoch: "slots_moved s s' \<Longrightarrow> cn_configEpoch (the (cs_heap s' p)) = cn_configEpoch (the (cs_heap s p))"
  using slots_moved_fwd [of s s' p] slots_moved_bwd [of s s' p] moved_fields
  by (cases "cs_heap s p"; cases "cs_heap s' p") auto

lemma rebinds_cong:
  "slots_moved s s' \<Longrightarrow> cs_slots s' ! i = cs_slots s ! i \<Longrightarrow> rebinds s' p e bm i = rebinds s p e bm i"
  by (simp add: rebinds_def slots_moved_fields(2) moved_epoch split: option.split)

lemma rebindLoop_ok:
  assumes bm: "length slots = N_SLOTS div 8"
  shows "slots_ok s \<Longrightarrow> cs_heap s sender = Some sn \<Longrightarrow> distinct js \<Longrightarrow> set js \<subseteq> {..<N_SLOTS} \<Longrightarrow>
    \<exists>s' d m. for_each js (rebindSlot sender epoch slots cm) (s, dirty, nm) = Some (s', d, m) \<and> slots_ok s' \<and> slots_moved s s' \<and>
      (\<forall>i<N_SLOTS. cs_slots s' ! i = (if i \<in> set js \<and> rebinds s sender epoch slots i then Some sender else cs_slots s ! i)) \<and>
      m = (if \<exists>i\<in>set js. rebinds s sender epoch slots i \<and> cs_slots s ! i = cm then Some sender else nm)"
proof (induction js arbitrary: s sn dirty nm)
  case (Cons j js)
  have j: "j < N_SLOTS" using Cons.prems(4) by simp
  obtain s1 d1 m1 where s1: "rebindSlot sender epoch slots cm j (s, dirty, nm) = Some (s1, d1, m1)" "slots_ok s1" "slots_moved s s1"
      "cs_slots s1 = (if rebinds s sender epoch slots j then (cs_slots s)[j := Some sender] else cs_slots s)"
      "m1 = nm \<or> m1 = Some sender \<and> rebinds s sender epoch slots j \<and> cs_slots s ! j = cm"
      "rebinds s sender epoch slots j \<longrightarrow> cs_slots s ! j = cm \<longrightarrow> m1 = Some sender"
    using rebindSlot_ok [OF Cons.prems(1) j bm Cons.prems(2)] by blast
  obtain n1 where n1: "cs_heap s1 sender = Some n1" using slots_moved_fwd [OF s1(3) Cons.prems(2)] by blast
  obtain s2 d2 m2 where s2: "for_each js (rebindSlot sender epoch slots cm) (s1, d1, m1) = Some (s2, d2, m2)" "slots_ok s2" "slots_moved s1 s2"
      "\<forall>i<N_SLOTS. cs_slots s2 ! i = (if i \<in> set js \<and> rebinds s1 sender epoch slots i then Some sender else cs_slots s1 ! i)"
      "m2 = (if \<exists>i\<in>set js. rebinds s1 sender epoch slots i \<and> cs_slots s1 ! i = cm then Some sender else m1)"
    using Cons.IH [OF s1(2) n1, of d1 m1] Cons.prems(3,4) by auto
  have same: "cs_slots s1 ! i = cs_slots s ! i" "rebinds s1 sender epoch slots i = rebinds s sender epoch slots i" if "i \<noteq> j" for i
    using that s1(4) rebinds_cong [OF s1(3), of i] by (simp_all split: if_splits)
  have jn: "j \<notin> set js" using Cons.prems(3) by simp
  have "cs_slots s2 ! i = (if i \<in> set (j # js) \<and> rebinds s sender epoch slots i then Some sender else cs_slots s ! i)" if "i < N_SLOTS" for i
    using that s2(4) same [of i] jn s1(4) slots_okD(1) [OF Cons.prems(1)] by (cases "i = j") auto
  moreover have "m2 = (if \<exists>i\<in>set (j # js). rebinds s sender epoch slots i \<and> cs_slots s ! i = cm then Some sender else nm)"
  proof -
    have "(\<exists>i\<in>set js. rebinds s1 sender epoch slots i \<and> cs_slots s1 ! i = cm) \<longleftrightarrow> (\<exists>i\<in>set js. rebinds s sender epoch slots i \<and> cs_slots s ! i = cm)"
      using same jn by metis
    then show ?thesis using s2(5) s1(5,6) by auto
  qed
  moreover have "for_each (j # js) (rebindSlot sender epoch slots cm) (s, dirty, nm) = Some (s2, d2, m2)"
    using s1(1) s2(1) by simp
  ultimately show ?case using s2(2) slots_moved_trans [OF s1(3) s2(3)] by blast
qed auto

section \<open>Roles\<close>

lemma frame_myself: "frame s s' \<Longrightarrow> cs_myself s' = cs_myself s" by (simp add: frame_def)

lemma clusterNodeRemoveSlave_ok:
  "cs_heap s m = Some mn \<Longrightarrow> \<exists>r s'. clusterNodeRemoveSlave m p s = Some (r, s') \<and> frame s s'"
  by (auto simp: clusterNodeRemoveSlave_def upd_node_def frame_def same_links_def option.rel_refl split: option.split)

lemma clusterNodeAddSlave_ok:
  "cs_heap s m = Some mn \<Longrightarrow> \<exists>r s'. clusterNodeAddSlave m p s = Some (r, s') \<and> frame s s'"
  by (auto simp: clusterNodeAddSlave_def upd_node_def frame_def same_links_def option.rel_refl)

text \<open>Updates of one node that keep its slots.\<close>

lemma inv_upd_node:
  assumes "slots_ok s" "refs_ok s" "cs_heap s p = Some n" "cn_slots (f n) = cn_slots n" "cn_numslots (f n) = cn_numslots n"
    "\<forall>m. cn_slaveof (f n) = Some m \<longrightarrow> m \<in> dom (cs_heap s)"
  shows "slots_ok (s\<lparr>cs_heap := (cs_heap s)(p \<mapsto> f n)\<rparr>) \<and> refs_ok (s\<lparr>cs_heap := (cs_heap s)(p \<mapsto> f n)\<rparr>)"
proof -
  let ?s = "s\<lparr>cs_heap := (cs_heap s)(p \<mapsto> f n)\<rparr>"
  have dom: "dom (cs_heap ?s) = dom (cs_heap s)" using assms(3) by auto
  have "node_ok (cs_slots s) q m" if "cs_heap ?s q = Some m" for q m
  proof (cases "q = p")
    case True
    then show ?thesis using that assms(4,5) slots_okD(3) [OF assms(1,3)] by (auto simp: node_ok_def)
  next
    case False
    then show ?thesis using that slots_okD(3) [OF assms(1), of q m] by simp
  qed
  then have "slots_ok ?s" using assms(1) dom unfolding slots_ok_def by simp
  moreover have "m \<in> dom (cs_heap s)" if "cs_heap ?s q = Some k" "cn_slaveof k = Some m" for q k m
    using that assms(2,6) unfolding refs_ok_def by (cases "q = p") (simp, force)
  then have "refs_ok ?s" using assms(2) dom unfolding refs_ok_def by simp
  ultimately show ?thesis by simp
qed

lemma clusterSetNodeAsMaster_ok:
  assumes inv: "cluster_inv s" and p: "cs_heap s p = Some n"
  shows "\<exists>s'. clusterSetNodeAsMaster p s = Some s' \<and> cluster_inv s' \<and> cs_slots s' = cs_slots s \<and> cs_myself s' = cs_myself s
    \<and> dom (cs_heap s') = dom (cs_heap s) \<and> cs_importing_slots_from s' = cs_importing_slots_from s"
proof (cases "nodeIsMaster n")
  case True
  then show ?thesis using inv p by (simp add: clusterSetNodeAsMaster_def)
next
  case False
  obtain s1 where s1: "(case cn_slaveof n of None \<Rightarrow> Some s | Some m \<Rightarrow> map_option snd (clusterNodeRemoveSlave m p s)) = Some s1" "frame s s1"
  proof (cases "cn_slaveof n")
    case None
    then show ?thesis using that by simp
  next
    case (Some m)
    then obtain mn where "cs_heap s m = Some mn" using refs_slaveof [OF inv p] by blast
    then show ?thesis using clusterNodeRemoveSlave_ok [of s m mn p] Some that by auto
  qed
  note inv1 = frame_inv [OF s1(2) inv]
  obtain n1 where n1: "cs_heap s1 p = Some n1" using frame_fwd [OF s1(2) p] by blast
  let ?f = "\<lambda>n. n\<lparr>cn_flags := (cn_flags n AND NOT REDIS_NODE_SLAVE) OR REDIS_NODE_MASTER, cn_slaveof := None\<rparr>"
  define s2 where "s2 = s1\<lparr>cs_heap := (cs_heap s1)(p \<mapsto> ?f n1)\<rparr>"
  have "slots_ok s2 \<and> refs_ok s2" unfolding s2_def
    using inv_upd_node [of s1 p n1 ?f] inv1 n1 by (simp add: cluster_inv_def)
  moreover have "myself_ok s2"
    using inv1 by (auto simp: s2_def cluster_inv_def myself_ok_def)
  ultimately have inv2: "cluster_inv s2" by (simp add: cluster_inv_def)
  define s3 where "s3 = clusterDoBeforeSleep (CLUSTER_TODO_SAVE_CONFIG OR CLUSTER_TODO_UPDATE_STATE) s2"
  have fr: "frame s2 s3" by (simp add: frame_simps s3_def)
  have "clusterSetNodeAsMaster p s = Some s3"
    using False p s1(1) n1 by (simp add: clusterSetNodeAsMaster_def upd_node_def s2_def s3_def)
  moreover have "dom (cs_heap s3) = dom (cs_heap s)" using n1 frame_dom [OF s1(2)] frame_dom [OF fr] by (auto simp: s2_def)
  moreover have "cs_slots s3 = cs_slots s" "cs_myself s3 = cs_myself s" "cs_importing_slots_from s3 = cs_importing_slots_from s"
    using s1(2) by (simp_all add: s3_def s2_def clusterDoBeforeSleep_def frame_def)
  ultimately show ?thesis using frame_inv [OF fr inv2] by blast
qed


lemma clusterSetMaster_ok:
  assumes ok: "slots_ok s" "refs_ok s" and me: "cs_heap s (cs_myself s) = Some me" "cn_numslots me = 0"
    and p: "cs_heap s p = Some pn" "p \<noteq> cs_myself s"
  shows "\<exists>s'. clusterSetMaster p s = Some s' \<and> cluster_inv s' \<and> cs_slots s' = cs_slots s \<and> cs_myself s' = cs_myself s
    \<and> (\<forall>x. cs_heap s' (cs_myself s) = Some x \<longrightarrow> cn_slaveof x = Some p)"
proof -
  let ?me = "cs_myself s"
  define s1 where "s1 = (if nodeIsMaster me
      then clusterCloseAllSlots (s\<lparr>cs_heap := (cs_heap s)(?me \<mapsto> me\<lparr>cn_flags := (cn_flags me AND NOT REDIS_NODE_MASTER) OR REDIS_NODE_SLAVE\<rparr>)\<rparr>)
      else case cn_slaveof me of None \<Rightarrow> s | Some m \<Rightarrow> snd (the (clusterNodeRemoveSlave m ?me s)))"
  have slave: "\<exists>s'. (case cn_slaveof me of None \<Rightarrow> Some s | Some m \<Rightarrow> map_option snd (clusterNodeRemoveSlave m ?me s)) = Some s' \<and> frame s s'"
  proof (cases "cn_slaveof me")
    case (Some m)
    then have "m \<in> dom (cs_heap s)" using ok(2) me(1) unfolding refs_ok_def by blast
    then show ?thesis using clusterNodeRemoveSlave_ok [of s m _ ?me] Some by auto
  qed simp
  have s1: "slots_ok s1 \<and> refs_ok s1 \<and> cs_slots s1 = cs_slots s \<and> cs_myself s1 = ?me \<and> dom (cs_heap s1) = dom (cs_heap s)
      \<and> (\<exists>n. cs_heap s1 ?me = Some n \<and> \<not> nodeIsMaster n \<and> cn_numslots n = 0)"
  proof (cases "nodeIsMaster me")
    case True
    let ?f = "\<lambda>n. n\<lparr>cn_flags := (cn_flags n AND NOT REDIS_NODE_MASTER) OR REDIS_NODE_SLAVE\<rparr>"
    have "slots_ok (s\<lparr>cs_heap := (cs_heap s)(?me \<mapsto> ?f me)\<rparr>) \<and> refs_ok (s\<lparr>cs_heap := (cs_heap s)(?me \<mapsto> ?f me)\<rparr>)"
    proof -
      have "\<forall>m. cn_slaveof (?f me) = Some m \<longrightarrow> m \<in> dom (cs_heap s)"
        using ok(2) me(1) unfolding refs_ok_def by simp
      then show ?thesis by (intro inv_upd_node [OF ok me(1), of ?f]) simp_all
    qed
    then have "slots_ok s1 \<and> refs_ok s1" using True
      by (simp add: s1_def clusterCloseAllSlots_def slots_ok_def refs_ok_def)
    then show ?thesis using True me by (auto simp: s1_def clusterCloseAllSlots_def)
  next
    case False
    then have fr: "frame s s1" using slave by (auto simp: s1_def split: option.splits)
    then obtain n where n: "cs_heap s1 ?me = Some n" "same_links me n" using frame_fwd [OF fr me(1)] by blast
    then show ?thesis using fr n False me(2) frame_dom [OF fr] frame_slots_refs [OF fr ok] by (auto simp: frame_def same_links_def)
  qed
  then obtain n1 where n1: "cs_heap s1 ?me = Some n1" "\<not> nodeIsMaster n1" "cn_numslots n1 = 0" by blast
  define s2 where "s2 = s1\<lparr>cs_heap := (cs_heap s1)(?me \<mapsto> n1\<lparr>cn_slaveof := Some p\<rparr>)\<rparr>"
  have "slots_ok s2 \<and> refs_ok s2" unfolding s2_def
    using inv_upd_node [of s1 ?me n1 "\<lambda>n. n\<lparr>cn_slaveof := Some p\<rparr>"] s1 n1(1) p(1) by auto
  then have inv2: "cluster_inv s2" using s1 n1 by (simp add: cluster_inv_def myself_ok_def s2_def)
  obtain pn2 where pn2: "cs_heap s2 p = Some pn2" using s1 p by (auto simp: s2_def)
  obtain r s3 where s3: "clusterNodeAddSlave p ?me s2 = Some (r, s3)" "frame s2 s3"
    using clusterNodeAddSlave_ok [OF pn2] by blast
  define s4 where "s4 = resetManualFailover (emit (ReplicationSetMaster p) s3)"
  have fr: "frame s2 s4" using s3(2) by (simp add: s4_def frame_simps)
  have pre: "(if nodeIsMaster me
      then Some (clusterCloseAllSlots (s\<lparr>cs_heap := (cs_heap s)(?me \<mapsto> me\<lparr>cn_flags := (cn_flags me AND NOT REDIS_NODE_MASTER) OR REDIS_NODE_SLAVE\<rparr>)\<rparr>))
      else case cn_slaveof me of None \<Rightarrow> Some s | Some m \<Rightarrow> map_option snd (clusterNodeRemoveSlave m ?me s)) = Some s1"
    using slave by (auto simp: s1_def split: option.splits)
  have "clusterSetMaster p s = Some s4"
    using me p(2) pre s1 n1(1) s3(1) by (simp add: clusterSetMaster_def upd_node_ok s2_def s4_def split: if_splits)
  moreover have "cn_slaveof x = Some p" if "cs_heap s4 ?me = Some x" for x
    using frame_bwd [OF fr that] by (auto simp: s2_def same_links_def)
  moreover have "cs_slots s4 = cs_slots s" "cs_myself s4 = ?me" using fr s1 by (simp_all add: frame_def s2_def)
  ultimately show ?thesis using frame_inv [OF fr inv2] by blast
qed


lemma fold_delKeys_frame: "frame s (fold delKeysInSlot js s)"
proof (induction js arbitrary: s)
  case (Cons j js)
  have "frame s (delKeysInSlot j s)" by (simp add: delKeysInSlot_def frame_simps)
  then show ?case using Cons frame_trans by fastforce
qed simp

lemma moved_master: "moved n n' \<Longrightarrow> nodeIsMaster n' = nodeIsMaster n"
  by (simp add: nodeIsMaster_def moved_fields)

lemma slots_moved_myself:
  assumes mv: "slots_moved s s'" and inv: "cluster_inv s" and ok: "slots_ok s'"
    and sub: "served (cs_myself s) (cs_slots s') \<subseteq> served (cs_myself s) (cs_slots s)"
  shows "cluster_inv s'"
proof -
  obtain me where me: "cs_heap s (cs_myself s) = Some me" "nodeIsMaster me \<or> (cn_slaveof me \<noteq> None \<and> cn_numslots me = 0)"
    using inv by (auto simp: cluster_inv_def myself_ok_def)
  obtain me' where me': "cs_heap s' (cs_myself s) = Some me'" "moved me me'" using slots_moved_fwd [OF mv me(1)] by blast
  have "cn_numslots me' = 0" if "cn_numslots me = 0"
  proof -
    have "card (served (cs_myself s) (cs_slots s)) = 0"
      using that slots_okD(3) [OF _ me(1)] inv by (simp add: cluster_inv_def node_ok_def)
    then have "served (cs_myself s) (cs_slots s') = {}" using sub by simp
    then show ?thesis using slots_okD(3) [OF ok me'(1)] by (simp add: node_ok_def)
  qed
  then have "myself_ok s'"
    using me me' moved_master [OF me'(2)] moved_fields [OF me'(2)] slots_moved_fields(1) [OF mv] by (auto simp: myself_ok_def)
  then show ?thesis using ok slots_moved_refs [OF mv] inv by (simp add: cluster_inv_def)
qed

lemma clusterUpdateSlotsConfigWith_ok:
  assumes inv: "cluster_inv s" and p: "cs_heap s p = Some pn" and bm: "length slots = N_SLOTS div 8" and other: "p \<noteq> cs_myself s"
  shows "\<exists>s'. clusterUpdateSlotsConfigWith p epoch slots s = Some s' \<and> cluster_inv s' \<and> cs_myself s' = cs_myself s \<and>
    (\<forall>i<N_SLOTS. cs_slots s' ! i = (if rebinds s p epoch slots i then Some p else cs_slots s ! i))"
proof -
  obtain me where me: "cs_heap s (cs_myself s) = Some me" "nodeIsMaster me \<or> (cn_slaveof me \<noteq> None \<and> cn_numslots me = 0)"
    using inv by (auto simp: cluster_inv_def myself_ok_def)
  define cm where "cm = (if nodeIsMaster me then Some (cs_myself s) else cn_slaveof me)"
  have ok: "slots_ok s" using inv by (simp add: cluster_inv_def)
  obtain s1 d m where s1: "for_each [0..<N_SLOTS] (rebindSlot p epoch slots cm) (s, [], None) = Some (s1, d, m)" "slots_ok s1"
      "slots_moved s s1" "\<forall>i<N_SLOTS. cs_slots s1 ! i = (if rebinds s p epoch slots i then Some p else cs_slots s ! i)"
    using rebindLoop_ok [OF bm ok p, of "[0..<N_SLOTS]" epoch cm "[]" None] by (auto simp: atLeast0LessThan)
  have my: "cs_myself s1 = cs_myself s" using slots_moved_fields(1) [OF s1(3)] .
  have "served (cs_myself s) (cs_slots s1) \<subseteq> served (cs_myself s) (cs_slots s)"
    using s1(4) other by (auto simp: served_def split: if_splits)
  then have inv1: "cluster_inv s1" by (rule slots_moved_myself [OF s1(3) inv s1(2)])
  obtain c where c: "cm = Some c" "\<exists>n. cs_heap s c = Some n"
  proof (cases "nodeIsMaster me")
    case True
    then show ?thesis using that [of "cs_myself s"] me(1) by (simp add: cm_def)
  next
    case False
    then show ?thesis using that me refs_slaveof [OF inv me(1)] by (auto simp: cm_def)
  qed
  then obtain cn where cn: "cs_heap s1 c = Some cn" using slots_moved_fwd [OF s1(3)] by blast
  obtain me1 where me1: "cs_heap s1 (cs_myself s1) = Some me1" "moved me me1" using slots_moved_fwd [OF s1(3) me(1)] my by auto
  have run: "clusterUpdateSlotsConfigWith p epoch slots s =
     (if m \<noteq> None \<and> cn_numslots cn = 0 then do {
        s' \<leftarrow> clusterSetMaster p s1;
        Some (clusterDoBeforeSleep (CLUSTER_TODO_SAVE_CONFIG OR CLUSTER_TODO_UPDATE_STATE OR CLUSTER_TODO_FSYNC_CONFIG) s') }
      else Some (fold delKeysInSlot d s1))"
    using me(1) other s1(1) c(1) cn by (simp add: clusterUpdateSlotsConfigWith_def cm_def Let_def)
  show ?thesis
  proof (cases "m \<noteq> None \<and> cn_numslots cn = 0")
    case True
    have "cn_numslots me1 = 0"
    proof (cases "nodeIsMaster me")
      case True
      then show ?thesis using \<open>m \<noteq> None \<and> cn_numslots cn = 0\<close> c(1) cn me1(1) my by (simp add: cm_def)
    next
      case False
      then show ?thesis using inv1 me1 moved_master [OF me1(2)] by (auto simp: cluster_inv_def myself_ok_def)
    qed
    moreover obtain pn1 where "cs_heap s1 p = Some pn1" using slots_moved_fwd [OF s1(3) p] by blast
    ultimately obtain s2 where s2: "clusterSetMaster p s1 = Some s2" "cluster_inv s2" "cs_slots s2 = cs_slots s1" "cs_myself s2 = cs_myself s1"
      using clusterSetMaster_ok [OF _ _ me1(1)] inv1 other my unfolding cluster_inv_def by metis
    define s3 where "s3 = clusterDoBeforeSleep (CLUSTER_TODO_SAVE_CONFIG OR CLUSTER_TODO_UPDATE_STATE OR CLUSTER_TODO_FSYNC_CONFIG) s2"
    have fr: "frame s2 s3" by (simp add: s3_def frame_simps)
    have "clusterUpdateSlotsConfigWith p epoch slots s = Some s3" using run True s2(1) by (simp add: s3_def)
    moreover have "cs_slots s3 = cs_slots s1" "cs_myself s3 = cs_myself s" using fr s2(3,4) my by (simp_all add: frame_def)
    ultimately show ?thesis using frame_inv [OF fr s2(2)] s1(4) by simp
  next
    case False
    have fr: "frame s1 (fold delKeysInSlot d s1)" by (rule fold_delKeys_frame)
    moreover from run have "clusterUpdateSlotsConfigWith p epoch slots s = Some (fold delKeysInSlot d s1)"
      unfolding if_not_P [OF False] .
    ultimately show ?thesis using frame_inv [OF fr inv1] s1(4) my by (simp add: frame_def)
  qed
qed

lemma clusterUpdateSlotsConfigWith_total:
  assumes inv: "cluster_inv s" and p: "cs_heap s p = Some pn" and bm: "length slots = N_SLOTS div 8"
  shows "\<exists>s'. clusterUpdateSlotsConfigWith p epoch slots s = Some s' \<and> cluster_inv s'"
proof (cases "p = cs_myself s")
  case True
  then show ?thesis using inv p by (simp add: clusterUpdateSlotsConfigWith_def)
next
  case False
  then show ?thesis using clusterUpdateSlotsConfigWith_ok [OF assms] by blast
qed

lemma packetUpdate_ok:
  assumes inv: "cluster_inv s" and p: "cs_heap s p = Some pn" and bm: "length slots = N_SLOTS div 8"
  shows "\<exists>s'. packetUpdate p epoch slots s = Some s' \<and> cluster_inv s'"
proof (cases "cn_configEpoch pn \<ge> epoch")
  case True
  then show ?thesis using p inv by (simp add: packetUpdate_def)
next
  case False
  obtain s1 where s1: "(if nodeIsSlave pn then clusterSetNodeAsMaster p s else Some s) = Some s1" "cluster_inv s1"
      "dom (cs_heap s1) = dom (cs_heap s)"
    using clusterSetNodeAsMaster_ok [OF inv p] inv by (cases "nodeIsSlave pn") auto
  then obtain n1 where n1: "cs_heap s1 p = Some n1" using p by auto
  have "same_links n1 (n1\<lparr>cn_configEpoch := epoch\<rparr>)" by (simp add: same_links_def)
  then obtain s2 where s2: "upd_node p (\<lambda>n. n\<lparr>cn_configEpoch := epoch\<rparr>) s1 = Some s2" "frame s1 s2"
    using upd_node_frame [OF n1, of "\<lambda>n. n\<lparr>cn_configEpoch := epoch\<rparr>"] by blast
  define s3 where "s3 = clusterDoBeforeSleep (CLUSTER_TODO_SAVE_CONFIG OR CLUSTER_TODO_FSYNC_CONFIG) s2"
  have fr: "frame s1 s3" using s2(2) by (simp add: s3_def frame_simps)
  obtain n3 where n3: "cs_heap s3 p = Some n3" using frame_fwd [OF fr n1] by blast
  obtain s4 where "clusterUpdateSlotsConfigWith p epoch slots s3 = Some s4" "cluster_inv s4"
    using clusterUpdateSlotsConfigWith_total [OF frame_inv [OF fr s1(2)] n3 bm] by blast
  then show ?thesis using False p s1(1) s2(1) by (auto simp: packetUpdate_def s3_def)
qed

definition delNodeSlot :: "nat \<Rightarrow> nat \<Rightarrow> int \<times> clusterState \<Rightarrow> (int \<times> clusterState) option" where
  "delNodeSlot node = (\<lambda>j (deleted, s). do {
       b \<leftarrow> clusterNodeGetSlotBit node j s;
       s \<leftarrow> (if b then map_option snd (clusterDelSlot j s) else Some s);
       Some (deleted + 1, s)
     })"

lemma delNodeSlotsLoop_ok:
  "slots_ok s \<Longrightarrow> cs_heap s p = Some n \<Longrightarrow> set js \<subseteq> {..<N_SLOTS} \<Longrightarrow>
   \<exists>s'. for_each js (delNodeSlot p) (d, s) = Some (d + int (length js), s') \<and> slots_ok s' \<and> slots_moved s s' \<and>
     (\<forall>i<N_SLOTS. cs_slots s' ! i = (if i \<in> set js \<and> cs_slots s ! i = Some p then None else cs_slots s ! i))"
proof (induction js arbitrary: s n d)
  case (Cons j js)
  have j: "j < N_SLOTS" using Cons.prems(3) by simp
  have len: "length (cs_slots s) = N_SLOTS" using slots_okD(1) [OF Cons.prems(1)] .
  have nok: "node_ok (cs_slots s) p n" using slots_okD(3) [OF Cons.prems(1,2)] .
  have bit: "clusterNodeGetSlotBit p j s = Some (cs_slots s ! j = Some p)"
    using Cons.prems(2) node_ok_bit [OF nok j] nok bitmapTestBit_slot [of "cn_slots n" j] j
    by (simp add: clusterNodeGetSlotBit_def node_ok_def)
  obtain s1 where s1: "delNodeSlot p j (d, s) = Some (d + 1, s1)" "slots_ok s1" "slots_moved s s1"
      "cs_slots s1 = (if cs_slots s ! j = Some p then (cs_slots s)[j := None] else cs_slots s)"
  proof (cases "cs_slots s ! j = Some p")
    case True
    then obtain s1 where "clusterDelSlot j s = Some (True, s1)" "slots_ok s1" "rebound j None s s1"
      using clusterDelSlot_ok [OF Cons.prems(1) j] by blast
    then show ?thesis using that [of s1] True bit rebound_moved [of j None s s1] by (auto simp: delNodeSlot_def rebound_def)
  next
    case False
    then show ?thesis using that [of s] bit Cons.prems(1) by (simp add: delNodeSlot_def)
  qed
  obtain n1 where n1: "cs_heap s1 p = Some n1" using slots_moved_fwd [OF s1(3) Cons.prems(2)] by blast
  obtain s2 where s2: "for_each js (delNodeSlot p) (d + 1, s1) = Some (d + 1 + int (length js), s2)" "slots_ok s2" "slots_moved s1 s2"
      "\<forall>i<N_SLOTS. cs_slots s2 ! i = (if i \<in> set js \<and> cs_slots s1 ! i = Some p then None else cs_slots s1 ! i)"
    using Cons.IH [OF s1(2) n1, of "d + 1"] Cons.prems(3) by auto
  have "cs_slots s2 ! i = (if i \<in> set (j # js) \<and> cs_slots s ! i = Some p then None else cs_slots s ! i)" if "i < N_SLOTS" for i
    using that s2(4) s1(4) len by (cases "i = j") auto
  then show ?case using s1(1) s2(1,2) slots_moved_trans [OF s1(3) s2(3)] by (intro exI [of _ s2]) auto
qed auto

lemma clusterDelNodeSlots_ok:
  assumes inv: "cluster_inv s" and p: "cs_heap s p = Some n"
  shows "\<exists>s'. clusterDelNodeSlots p s = Some (int N_SLOTS, s') \<and> cluster_inv s' \<and>
    (\<forall>i<N_SLOTS. cs_slots s' ! i = (if cs_slots s ! i = Some p then None else cs_slots s ! i))"
proof -
  have ok: "slots_ok s" using inv by (simp add: cluster_inv_def)
  obtain s' where s': "for_each [0..<N_SLOTS] (delNodeSlot p) (0, s) = Some (int N_SLOTS, s')" "slots_ok s'" "slots_moved s s'"
      "\<forall>i<N_SLOTS. cs_slots s' ! i = (if cs_slots s ! i = Some p then None else cs_slots s ! i)"
    using delNodeSlotsLoop_ok [OF ok p, of "[0..<N_SLOTS]" 0] by (auto simp: atLeast0LessThan)
  have "served (cs_myself s) (cs_slots s') \<subseteq> served (cs_myself s) (cs_slots s)"
    using s'(4) by (auto simp: served_def split: if_splits)
  then have "cluster_inv s'" by (rule slots_moved_myself [OF s'(3) inv s'(2)])
  then show ?thesis using s' by (auto simp: clusterDelNodeSlots_def delNodeSlot_def)
qed


section \<open>Availability\<close>

definition masters :: "(clusterNode \<Rightarrow> bool) \<Rightarrow> clusterState \<Rightarrow> nat" where
  "masters P s = length (filter (\<lambda>p. P (the (cs_heap s p))) (map snd (cs_nodes s)))"

definition healthy :: "clusterState \<Rightarrow> bool" where
  "healthy s \<longleftrightarrow>
     (cs_require_full_coverage s \<longrightarrow> (\<forall>v\<in>set (cs_slots s). \<exists>p n. v = Some p \<and> cs_heap s p = Some n \<and> \<not> nodeFailed n))
     \<and> 2 * masters reachable_master s > masters voting s"

definition may_rejoin :: "(nat \<Rightarrow> int) \<Rightarrow> clusterState \<Rightarrow> bool" where
  "may_rejoin clock s \<longleftrightarrow>
     clock 1 - (if cs_first_call_time s = 0 then clock 0 else cs_first_call_time s) \<ge> 2000
     \<and> clock 3 - cs_among_minority_time s \<ge> max 500 (min 5000 (cs_node_timeout s))"

lemma evaluateState_ok:
  assumes inv: "cluster_inv s"
  shows "\<exists>s'. evaluateState clock me s = Some s' \<and> frame s s' \<and> cs_events s' = cs_events s
    \<and> cs_currentEpoch s' = cs_currentEpoch s \<and> cs_lastVoteEpoch s' = cs_lastVoteEpoch s
    \<and> (cs_state s' = REDIS_CLUSTER_OK \<longleftrightarrow> healthy s \<and> (cs_state s = REDIS_CLUSTER_OK \<or> \<not> nodeIsMaster me
         \<or> clock 3 - cs_among_minority_time s \<ge> max 500 (min 5000 (cs_node_timeout s))))"
proof -
  define cv where "cv = (cs_require_full_coverage s \<longrightarrow> (\<forall>v\<in>set (cs_slots s). \<exists>p n. v = Some p \<and> cs_heap s p = Some n \<and> \<not> nodeFailed n))"
  define maj where "maj = (2 * masters reachable_master s > masters voting s)"
  have cov: "(if cs_require_full_coverage s then slotsCovered (cs_slots s) (cs_heap s) else Some True) = Some cv"
    using inv slotsCovered_ok [of "cs_slots s" "cs_heap s"] by (simp add: cluster_inv_def slots_ok_def cv_def)
  have cnt: "countMasters (map snd (cs_nodes s)) (cs_heap s) 0 0 = Some (int (masters voting s), int (masters reachable_master s))"
  proof -
    have "set (map snd (cs_nodes s)) \<subseteq> dom (cs_heap s)" using inv by (simp add: cluster_inv_def refs_ok_def)
    then show ?thesis unfolding masters_def by (simp add: countMasters_ok)
  qed
  have minority: "int (masters reachable_master s) < int (masters voting s) div 2 + 1 \<longleftrightarrow> \<not> maj"
    unfolding maj_def by linarith
  have h: "healthy s \<longleftrightarrow> cv \<and> maj" by (simp add: healthy_def cv_def maj_def)
  show ?thesis
    unfolding evaluateState_def cov cnt h bind.bind_lunit prod.case Let_def minority
    by (cases maj; cases cv; cases "cs_state s"; simp add: frame_simps; linarith?)
qed

lemma clusterUpdateState_ok:
  assumes inv: "cluster_inv s" and me: "cs_heap s (cs_myself s) = Some me"
  shows "\<exists>s'. clusterUpdateState clock s = Some s' \<and> frame s s' \<and> cs_events s' = cs_events s
    \<and> cs_currentEpoch s' = cs_currentEpoch s \<and> cs_lastVoteEpoch s' = cs_lastVoteEpoch s
    \<and> (cs_state s' = REDIS_CLUSTER_OK \<longleftrightarrow>
        healthy s \<and> (cs_state s = REDIS_CLUSTER_OK \<or> \<not> nodeIsMaster me \<or> may_rejoin clock s))"
proof -
  define t where "t = (if cs_first_call_time s = 0 then clock 0 else cs_first_call_time s)"
  define s1 where "s1 = s\<lparr>cs_todo_before_sleep := cs_todo_before_sleep s AND NOT CLUSTER_TODO_UPDATE_STATE, cs_first_call_time := t\<rparr>"
  have fr: "frame s s1" by (simp add: s1_def frame_simps)
  have run: "clusterUpdateState clock s =
    (if nodeIsMaster me \<and> cs_state s = REDIS_CLUSTER_FAIL \<and> clock 1 - t < 2000 then Some s1 else evaluateState clock me s1)"
    using me by (simp add: clusterUpdateState_def Let_def s1_def t_def)
  have same: "healthy s1 = healthy s" "cs_state s1 = cs_state s" "cs_among_minority_time s1 = cs_among_minority_time s"
    "cs_node_timeout s1 = cs_node_timeout s" "cs_events s1 = cs_events s" "cs_currentEpoch s1 = cs_currentEpoch s"
    "cs_lastVoteEpoch s1 = cs_lastVoteEpoch s"
    by (simp_all add: s1_def healthy_def masters_def)
  obtain s2 where s2: "evaluateState clock me s1 = Some s2" "frame s1 s2" "cs_events s2 = cs_events s"
      "cs_currentEpoch s2 = cs_currentEpoch s" "cs_lastVoteEpoch s2 = cs_lastVoteEpoch s"
      "cs_state s2 = REDIS_CLUSTER_OK \<longleftrightarrow> healthy s \<and> (cs_state s = REDIS_CLUSTER_OK \<or> \<not> nodeIsMaster me
         \<or> clock 3 - cs_among_minority_time s \<ge> max 500 (min 5000 (cs_node_timeout s)))"
    using evaluateState_ok [OF frame_inv [OF fr inv], of clock me] unfolding same by blast
  have may: "may_rejoin clock s \<longleftrightarrow> clock 1 - t \<ge> 2000 \<and> clock 3 - cs_among_minority_time s \<ge> max 500 (min 5000 (cs_node_timeout s))"
    by (simp add: may_rejoin_def t_def)
  show ?thesis
  proof (cases "nodeIsMaster me \<and> cs_state s = REDIS_CLUSTER_FAIL \<and> clock 1 - t < 2000")
    case True
    then show ?thesis using run fr same may by simp
  next
    case False
    then have "cs_state s = REDIS_CLUSTER_OK \<or> \<not> nodeIsMaster me \<or> clock 1 - t \<ge> 2000" by (cases "cs_state s") auto
    then show ?thesis using run False s2 frame_trans [OF fr s2(2)] may by auto
  qed
qed

section \<open>The node as a state machine\<close>

datatype cluster_op =
    NewNode nat bytes u32
  | AddSlot nat nat
  | DelSlot nat
  | DelNodeSlots nat
  | SetNodeAsMaster nat
  | PacketEpochs nat u64 u64
  | BumpEpoch
  | EpochCollision nat
  | SlotsConfig nat u64 bytes
  | PacketUpdate nat u64 bytes
  | AuthRequest nat auth_request int int
  | AuthAck nat u64
  | FailureReport nat nat int
  | NoFailureReport nat nat int
  | MarkFailing nat int int
  | ClearFailure nat int
  | UpdateState "nat \<Rightarrow> int"

fun run_cluster_op :: "cluster_op \<Rightarrow> clusterState \<Rightarrow> clusterState option" where
  "run_cluster_op (NewNode p name flags) s =
     map_option snd (clusterAddNode p (s\<lparr>cs_heap := (cs_heap s)(p \<mapsto> createClusterNode name flags)\<rparr>))"
| "run_cluster_op (AddSlot p j) s = map_option snd (clusterAddSlot p j s)"
| "run_cluster_op (DelSlot j) s = map_option snd (clusterDelSlot j s)"
| "run_cluster_op (DelNodeSlots p) s = map_option snd (clusterDelNodeSlots p s)"
| "run_cluster_op (SetNodeAsMaster p) s = clusterSetNodeAsMaster p s"
| "run_cluster_op (PacketEpochs p cur conf) s = packetEpochs p cur conf s"
| "run_cluster_op BumpEpoch s = map_option snd (clusterBumpConfigEpochWithoutConsensus s)"
| "run_cluster_op (EpochCollision p) s = clusterHandleConfigEpochCollision p s"
| "run_cluster_op (SlotsConfig p e bm) s = clusterUpdateSlotsConfigWith p e bm s"
| "run_cluster_op (PacketUpdate p e bm) s = packetUpdate p e bm s"
| "run_cluster_op (AuthRequest p req t t') s = packetAuthRequest p req t t' s"
| "run_cluster_op (AuthAck p e) s = packetAuthAck p e s"
| "run_cluster_op (FailureReport p q t) s = map_option snd (clusterNodeAddFailureReport p q t s)"
| "run_cluster_op (NoFailureReport p q t) s = map_option snd (clusterNodeDelFailureReport p q t s)"
| "run_cluster_op (MarkFailing p t t') s = markNodeAsFailingIfNeeded p t t' s"
| "run_cluster_op (ClearFailure p t) s = clearNodeFailureIfNeeded p t s"
| "run_cluster_op (UpdateState clock) s = clusterUpdateState clock s"

text \<open>
  What the callers guarantee: nodes are known, slots are in range, bitmaps have
  the size of the message field; new nodes are at fresh addresses; a node that
  is a slave is given no slots; the epoch counter has not reached its maximum
  when it is incremented.
\<close>

fun cluster_op_ok :: "cluster_op \<Rightarrow> clusterState \<Rightarrow> bool" where
  "cluster_op_ok (NewNode p name flags) s \<longleftrightarrow> cs_heap s p = None"
| "cluster_op_ok (AddSlot p j) s \<longleftrightarrow> j < N_SLOTS \<and> (case cs_heap s p of None \<Rightarrow> False | Some n \<Rightarrow> p = cs_myself s \<longrightarrow> nodeIsMaster n)"
| "cluster_op_ok (DelSlot j) s \<longleftrightarrow> j < N_SLOTS"
| "cluster_op_ok (DelNodeSlots p) s \<longleftrightarrow> cs_heap s p \<noteq> None"
| "cluster_op_ok (SetNodeAsMaster p) s \<longleftrightarrow> cs_heap s p \<noteq> None"
| "cluster_op_ok (PacketEpochs p cur conf) s \<longleftrightarrow> cs_heap s p \<noteq> None"
| "cluster_op_ok BumpEpoch s \<longleftrightarrow> cs_currentEpoch s \<noteq> - 1"
| "cluster_op_ok (EpochCollision p) s \<longleftrightarrow> cs_heap s p \<noteq> None \<and> cs_currentEpoch s \<noteq> - 1"
| "cluster_op_ok (SlotsConfig p e bm) s \<longleftrightarrow> cs_heap s p \<noteq> None \<and> length bm = N_SLOTS div 8"
| "cluster_op_ok (PacketUpdate p e bm) s \<longleftrightarrow> cs_heap s p \<noteq> None \<and> length bm = N_SLOTS div 8"
| "cluster_op_ok (AuthRequest p req t t') s \<longleftrightarrow> cs_heap s p \<noteq> None \<and> length (req_myslots req) = N_SLOTS div 8"
| "cluster_op_ok (AuthAck p e) s \<longleftrightarrow> cs_heap s p \<noteq> None"
| "cluster_op_ok (FailureReport p q t) s \<longleftrightarrow> cs_heap s p \<noteq> None"
| "cluster_op_ok (NoFailureReport p q t) s \<longleftrightarrow> cs_heap s p \<noteq> None"
| "cluster_op_ok (MarkFailing p t t') s \<longleftrightarrow> cs_heap s p \<noteq> None"
| "cluster_op_ok (ClearFailure p t) s \<longleftrightarrow> (case cs_heap s p of None \<Rightarrow> False | Some n \<Rightarrow> nodeFailed n)"
| "cluster_op_ok (UpdateState clock) s \<longleftrightarrow> True"

lemma AddSlot_ok:
  assumes inv: "cluster_inv s" and ok: "cluster_op_ok (AddSlot p j) s"
  shows "\<exists>s'. run_cluster_op (AddSlot p j) s = Some s' \<and> cluster_inv s'"
proof (cases "cs_slots s ! j = None")
  case True
  obtain n where n: "cs_heap s p = Some n" "p = cs_myself s \<longrightarrow> nodeIsMaster n" using ok by (auto split: option.splits)
  have sok: "slots_ok s" and j: "j < N_SLOTS" using inv ok by (simp_all add: cluster_inv_def)
  obtain s' where s': "clusterAddSlot p j s = Some (True, s')" "slots_ok s'" "rebound j (Some p) s s'"
    using clusterAddSlot_ok [OF sok j n(1) True] by blast
  note mv = rebound_moved [OF s'(3)]
  have "cluster_inv s'"
  proof (cases "p = cs_myself s")
    case True
    obtain me' where "cs_heap s' (cs_myself s) = Some me'" "nodeIsMaster me'"
      using slots_moved_fwd [OF mv n(1)] moved_master n(2) True by auto
    then show ?thesis using s'(2) slots_moved_refs [OF mv] inv slots_moved_fields(1) [OF mv] by (simp add: cluster_inv_def myself_ok_def)
  next
    case False
    have "cs_slots s' = (cs_slots s)[j := Some p]" using s'(3) by (auto simp: rebound_def)
    then have "served (cs_myself s) (cs_slots s') \<subseteq> served (cs_myself s) (cs_slots s)"
      using served_update [OF j slots_okD(1) [OF sok]] False by auto
    then show ?thesis by (rule slots_moved_myself [OF mv inv s'(2)])
  qed
  then show ?thesis using s'(1) by simp
next
  case False
  then show ?thesis using clusterAddSlot_busy [of s j p] inv ok by (simp add: cluster_inv_def)
qed

lemma DelSlot_ok:
  assumes inv: "cluster_inv s" and j: "j < N_SLOTS"
  shows "\<exists>s'. run_cluster_op (DelSlot j) s = Some s' \<and> cluster_inv s'"
proof (cases "cs_slots s ! j")
  case None
  then show ?thesis using clusterDelSlot_none [of s j] inv j by (simp add: cluster_inv_def)
next
  case (Some p)
  have sok: "slots_ok s" using inv by (simp add: cluster_inv_def)
  obtain s' where s': "clusterDelSlot j s = Some (True, s')" "slots_ok s'" "rebound j None s s'"
    using clusterDelSlot_ok [OF sok j Some] by blast
  have "cs_slots s' = (cs_slots s)[j := None]" using s'(3) by (auto simp: rebound_def)
  then have "served (cs_myself s) (cs_slots s') \<subseteq> served (cs_myself s) (cs_slots s)"
    using served_update [OF j slots_okD(1) [OF sok]] by auto
  then have "cluster_inv s'" by (rule slots_moved_myself [OF rebound_moved [OF s'(3)] inv s'(2)])
  then show ?thesis using s'(1) by simp
qed

lemma NewNode_ok:
  assumes inv: "cluster_inv s" and p: "cs_heap s p = None"
  shows "\<exists>s'. run_cluster_op (NewNode p name flags) s = Some s' \<and> cluster_inv s'"
proof -
  let ?n = "createClusterNode name flags"
  let ?s = "s\<lparr>cs_heap := (cs_heap s)(p \<mapsto> ?n)\<rparr>"
  have free: "served p (cs_slots s) = {}"
  proof -
    have "Some p \<notin> set (cs_slots s)" using inv p by (auto simp: cluster_inv_def slots_ok_def)
    moreover have "length (cs_slots s) = N_SLOTS" using inv by (simp add: cluster_inv_def slots_ok_def)
    ultimately show ?thesis unfolding served_def by (metis (mono_tags, lifting) empty_Collect_eq nth_mem)
  qed
  have "\<not> bitAt (cn_slots ?n) j" if "j < N_SLOTS" for j
    using slot_div [OF that] by (simp add: createClusterNode_def bitAt_def)
  then have "node_ok (cs_slots s) p ?n" using free by (auto simp: node_ok_def) (simp_all add: createClusterNode_def)
  then have "slots_ok ?s" using inv unfolding cluster_inv_def slots_ok_def by simp
  moreover have "refs_ok ?s" using inv unfolding cluster_inv_def refs_ok_def by (auto simp: createClusterNode_def)
  moreover have "myself_ok ?s" using inv p unfolding cluster_inv_def myself_ok_def by auto
  ultimately show ?thesis
    by (auto simp: clusterAddNode_def cluster_inv_def slots_ok_def refs_ok_def myself_ok_def)
qed


lemma packetAuthRequest_ok:
  assumes inv: "cluster_inv s" and p: "cs_heap s p = Some n" and bm: "length (req_myslots req) = N_SLOTS div 8"
  shows "\<exists>s'. packetAuthRequest p req t t' s = Some s' \<and> cluster_inv s'"
proof -
  obtain s1 where s1: "packetEpochs p (req_currentEpoch req) (req_configEpoch req) s = Some s1" "frame s s1"
    using packetEpochs_ok [OF p] by blast
  obtain n1 where "cs_heap s1 p = Some n1" using frame_fwd [OF s1(2) p] by blast
  then obtain s2 where "clusterSendFailoverAuthIfNeeded p req t t' s1 = Some s2" "frame s1 s2"
    using clusterSendFailoverAuth_ok [OF frame_inv [OF s1(2) inv] _ bm] by blast
  then show ?thesis using s1(1) frame_inv [OF _ frame_inv [OF s1(2) inv]] by (auto simp: packetAuthRequest_def)
qed

lemma frame_step: "\<exists>s'. r = Some s' \<and> frame s s' \<Longrightarrow> cluster_inv s \<Longrightarrow> \<exists>s'. r = Some s' \<and> cluster_inv s'"
  using frame_inv by blast

lemma cluster_op_inv:
  assumes inv: "cluster_inv s" and ok: "cluster_op_ok op s"
  shows "\<exists>s'. run_cluster_op op s = Some s' \<and> cluster_inv s'"
proof (cases op)
  case (NewNode p name flags)
  then show ?thesis using NewNode_ok [OF inv] ok by (simp del: run_cluster_op.simps)
next
  case (AddSlot p j)
  then show ?thesis using AddSlot_ok [OF inv] ok by blast
next
  case (DelSlot j)
  then show ?thesis using DelSlot_ok [OF inv] ok by (simp del: run_cluster_op.simps)
next
  case (DelNodeSlots p)
  then obtain n where "cs_heap s p = Some n" using ok by auto
  then show ?thesis using clusterDelNodeSlots_ok [OF inv] DelNodeSlots by fastforce
next
  case (SetNodeAsMaster p)
  then obtain n where "cs_heap s p = Some n" using ok by auto
  then show ?thesis using clusterSetNodeAsMaster_ok [OF inv] SetNodeAsMaster by fastforce
next
  case (PacketEpochs p cur conf)
  then obtain n where "cs_heap s p = Some n" using ok by auto
  then show ?thesis using frame_step [OF _ inv] packetEpochs_ok [of s p n cur conf] PacketEpochs by force
next
  case BumpEpoch
  then show ?thesis using clusterBumpConfigEpoch_ok [OF inv] frame_inv [OF _ inv] by fastforce
next
  case (EpochCollision p)
  then obtain n where "cs_heap s p = Some n" using ok by auto
  then show ?thesis using frame_step [OF clusterHandleConfigEpochCollision_ok [OF inv] inv] EpochCollision by simp
next
  case (SlotsConfig p e bm)
  then obtain n where "cs_heap s p = Some n" using ok by auto
  then show ?thesis using clusterUpdateSlotsConfigWith_total [OF inv] SlotsConfig ok by simp
next
  case (PacketUpdate p e bm)
  then obtain n where "cs_heap s p = Some n" using ok by auto
  then show ?thesis using packetUpdate_ok [OF inv] PacketUpdate ok by simp
next
  case (AuthRequest p req t t')
  then obtain n where "cs_heap s p = Some n" using ok by auto
  then show ?thesis using packetAuthRequest_ok [OF inv] AuthRequest ok by simp
next
  case (AuthAck p e)
  then obtain n where "cs_heap s p = Some n" using ok by auto
  then show ?thesis using frame_step [OF _ inv] packetAuthAck_ok [of s p n e] AuthAck by force
next
  case (FailureReport p q t)
  then obtain n where "cs_heap s p = Some n" using ok by auto
  then show ?thesis using clusterNodeAddFailureReport_ok [of s p n q t] frame_inv [OF _ inv] FailureReport by fastforce
next
  case (NoFailureReport p q t)
  then obtain n where "cs_heap s p = Some n" using ok by auto
  then show ?thesis using clusterNodeDelFailureReport_ok [of s p n q t] frame_inv [OF _ inv] NoFailureReport by fastforce
next
  case (MarkFailing p t t')
  then obtain n where "cs_heap s p = Some n" using ok by auto
  then show ?thesis using frame_step [OF markNodeAsFailing_ok [OF inv] inv] MarkFailing by simp
next
  case (ClearFailure p t)
  then obtain n where "cs_heap s p = Some n" "nodeFailed n" using ok by (auto split: option.splits)
  then show ?thesis using frame_step [OF clearNodeFailure_ok inv] ClearFailure by simp
next
  case (UpdateState clock)
  obtain me where "cs_heap s (cs_myself s) = Some me" using cluster_inv_myself [OF inv] by blast
  then obtain s' where "clusterUpdateState clock s = Some s'" "frame s s'" using clusterUpdateState_ok [OF inv] by blast
  then show ?thesis using UpdateState frame_inv [OF _ inv] by auto
qed

text \<open>The state that \<open>clusterInit\<close> builds without a configuration file: this node alone, a master without slots.\<close>

definition cluster_init :: "bytes \<Rightarrow> int \<Rightarrow> bool \<Rightarrow> clusterState" where
  "cluster_init name node_timeout full_coverage =
     \<lparr>cs_heap = [0 \<mapsto> createClusterNode name (16 OR REDIS_NODE_MASTER)], cs_myself = 0, cs_currentEpoch = 0,
      cs_state = REDIS_CLUSTER_FAIL, cs_size = 1, cs_nodes = [(name, 0)],
      cs_migrating_slots_to = replicate N_SLOTS None, cs_importing_slots_from = replicate N_SLOTS None,
      cs_slots = replicate N_SLOTS None, cs_slots_to_keys = (\<lambda>_. []), cs_failover_auth_count = 0, cs_failover_auth_epoch = 0,
      cs_mf_end = 0, cs_mf_slave = None, cs_mf_master_offset = 0, cs_mf_can_start = False, cs_lastVoteEpoch = 0,
      cs_todo_before_sleep = 0, cs_node_timeout = node_timeout, cs_require_full_coverage = full_coverage,
      cs_among_minority_time = 0, cs_first_call_time = 0, cs_events = []\<rparr>"

inductive cluster_reachable :: "clusterState \<Rightarrow> bool" where
  start: "cluster_reachable (cluster_init name timeout cov)"
| step: "cluster_reachable s \<Longrightarrow> cluster_op_ok op s \<Longrightarrow> run_cluster_op op s = Some s' \<Longrightarrow> cluster_reachable s'"

lemma cluster_init_inv: "cluster_inv (cluster_init name timeout cov)"
proof -
  have "served p (replicate N_SLOTS None) = {}" for p by (auto simp: served_def)
  moreover have "\<not> bitAt (replicate (N_SLOTS div 8) 0) j" if "j < N_SLOTS" for j
    using slot_div [OF that] by (simp add: bitAt_def)
  ultimately have "node_ok (replicate N_SLOTS None) 0 (createClusterNode name (16 OR REDIS_NODE_MASTER))"
    by (auto simp: node_ok_def createClusterNode_def)
  moreover have "nodeIsMaster (createClusterNode name (16 OR REDIS_NODE_MASTER))"
    by (simp add: nodeIsMaster_def createClusterNode_def REDIS_NODE_MASTER_def)
  ultimately show ?thesis
    by (auto simp: cluster_inv_def slots_ok_def refs_ok_def myself_ok_def cluster_init_def) (simp add: createClusterNode_def)
qed

lemma reachable_inv: "cluster_reachable s \<Longrightarrow> cluster_inv s"
proof (induction rule: cluster_reachable.induct)
  case (step s op s')
  then show ?case using cluster_op_inv [of s op] by simp
qed (rule cluster_init_inv)


section \<open>Votes\<close>

fun vote_epoch :: "cluster_event \<Rightarrow> u64 list" where
  "vote_epoch (SendFailoverAuth p e) = [e]"
| "vote_epoch _ = []"

definition vote_epochs :: "clusterState \<Rightarrow> u64 list" where
  "vote_epochs s = concat (map vote_epoch (cs_events s))"

text \<open>Steps in which no vote is cast; the epoch does not go back.\<close>

definition quiet :: "clusterState \<Rightarrow> clusterState \<Rightarrow> bool" where
  "quiet s s' \<longleftrightarrow> cs_lastVoteEpoch s' = cs_lastVoteEpoch s \<and> cs_currentEpoch s \<le> cs_currentEpoch s' \<and> vote_epochs s' = vote_epochs s"

named_theorems quiet_ops

lemma quiet_refl [simp]: "quiet s s" by (simp add: quiet_def)

lemma quiet_trans: "quiet s s' \<Longrightarrow> quiet s' s'' \<Longrightarrow> quiet s s''" by (auto simp: quiet_def)

lemma upd_node_quiet [quiet_ops]: "upd_node p f s = Some s' \<Longrightarrow> quiet s s'"
  by (auto simp: upd_node_def quiet_def vote_epochs_def)

lemma quiet_fields [simp]:
  "quiet s (clusterDoBeforeSleep fl s') = quiet s s'"
  "quiet s (s'\<lparr>cs_slots := a\<rparr>) = quiet s s'"
  "quiet s (clusterCloseAllSlots s') = quiet s s'"
  "quiet s (resetManualFailover s') = quiet s s'"
  "vote_epoch e = [] \<Longrightarrow> quiet s (emit e s') = quiet s s'"
  "quiet s (s'\<lparr>cs_slots_to_keys := b\<rparr>) = quiet s s'"
  by (simp_all add: quiet_def vote_epochs_def clusterDoBeforeSleep_def clusterCloseAllSlots_def resetManualFailover_def emit_def)

lemma quiet_fields_left [simp]:
  "quiet (clusterDoBeforeSleep fl s) s' = quiet s s'"
  "quiet (clusterCloseAllSlots s) s' = quiet s s'"
  by (simp_all add: quiet_def vote_epochs_def clusterDoBeforeSleep_def clusterCloseAllSlots_def)

lemma for_each_quiet:
  assumes "\<And>j x x'. f j x = Some x' \<Longrightarrow> quiet (g x) (g x')"
  shows "for_each js f x = Some x' \<Longrightarrow> quiet (g x) (g x')"
proof (induction js arbitrary: x)
  case (Cons j js)
  then obtain y where "f j x = Some y" "for_each js f y = Some x'" by (auto simp: bind_eq_Some_conv)
  then show ?case using assms Cons.IH quiet_trans by blast
qed simp

lemma clusterAddSlot_quiet [quiet_ops]: "clusterAddSlot p j s = Some (r, s') \<Longrightarrow> quiet s s'"
  by (auto simp: clusterAddSlot_def clusterNodeSetSlotBit_def bind_eq_Some_conv split: if_splits dest!: upd_node_quiet)

lemma clusterDelSlot_quiet [quiet_ops]: "clusterDelSlot j s = Some (r, s') \<Longrightarrow> quiet s s'"
  by (auto simp: clusterDelSlot_def clusterNodeClearSlotBit_def bind_eq_Some_conv split: if_splits option.splits dest!: upd_node_quiet)

lemma clusterDelNodeSlots_quiet [quiet_ops]:
  assumes "clusterDelNodeSlots p s = Some (r, s')"
  shows "quiet s s'"
proof -
  have "quiet (snd (0 :: int, s)) (snd (r, s'))"
    by (rule for_each_quiet [OF _ assms [unfolded clusterDelNodeSlots_def]])
      (auto simp: bind_eq_Some_conv split: if_splits prod.splits dest: clusterDelSlot_quiet)
  then show ?thesis by simp
qed

lemma slaves_quiet [quiet_ops]:
  "clusterNodeRemoveSlave m p s = Some (r, s') \<Longrightarrow> quiet s s'"
  "clusterNodeAddSlave m p s = Some (r, s') \<Longrightarrow> quiet s s'"
  by (auto simp: clusterNodeRemoveSlave_def clusterNodeAddSlave_def bind_eq_Some_conv split: option.splits if_splits dest!: upd_node_quiet)

lemma clusterSetNodeAsMaster_quiet [quiet_ops]: "clusterSetNodeAsMaster p s = Some s' \<Longrightarrow> quiet s s'"
  by (auto simp: clusterSetNodeAsMaster_def bind_eq_Some_conv split: if_splits option.splits
      dest!: upd_node_quiet slaves_quiet intro: quiet_trans)

lemma clusterSetMaster_quiet [quiet_ops]: "clusterSetMaster p s = Some s' \<Longrightarrow> quiet s s'"
  by (auto simp: clusterSetMaster_def bind_eq_Some_conv split: if_splits option.splits dest!: upd_node_quiet slaves_quiet;
      meson quiet_trans)

lemma rebindSlot_quiet: "rebindSlot p e bm cm j x = Some x' \<Longrightarrow> quiet (fst x) (fst x')"
  by (cases x) (auto simp: rebindSlot_def bind_eq_Some_conv Let_def split: if_splits option.splits
      dest!: clusterAddSlot_quiet clusterDelSlot_quiet intro: quiet_trans)

lemma fold_delKeys_quiet: "quiet s (fold delKeysInSlot js s)"
proof (induction js arbitrary: s)
  case (Cons j js)
  have "quiet s (delKeysInSlot j s)" by (simp add: delKeysInSlot_def)
  then show ?case using Cons quiet_trans by fastforce
qed simp

lemma clusterUpdateSlotsConfigWith_quiet [quiet_ops]:
  assumes "clusterUpdateSlotsConfigWith p e bm s = Some s'"
  shows "quiet s s'"
proof (cases "p = cs_myself s")
  case True
  then show ?thesis using assms by (auto simp: clusterUpdateSlotsConfigWith_def bind_eq_Some_conv)
next
  case False
  obtain me where me: "cs_heap s (cs_myself s) = Some me"
    using assms by (auto simp: clusterUpdateSlotsConfigWith_def bind_eq_Some_conv)
  define cm where "cm = (if nodeIsMaster me then Some (cs_myself s) else cn_slaveof me)"
  obtain s1 d m where loop: "for_each [0..<N_SLOTS] (rebindSlot p e bm cm) (s, [], None) = Some (s1, d, m)"
    using assms me False by (auto simp: clusterUpdateSlotsConfigWith_def bind_eq_Some_conv Let_def cm_def)
  have q: "quiet s s1" using for_each_quiet [of "rebindSlot p e bm cm" fst, OF rebindSlot_quiet loop] by simp
  have "s' = fold delKeysInSlot d s1 \<or> (\<exists>s2 fl. clusterSetMaster p s1 = Some s2 \<and> s' = clusterDoBeforeSleep fl s2)"
    using assms me False loop unfolding clusterUpdateSlotsConfigWith_def Let_def cm_def [symmetric]
    by (auto simp: bind_eq_Some_conv simp flip: cm_def split: if_splits)
  then show ?thesis using q clusterSetMaster_quiet fold_delKeys_quiet quiet_trans by (metis quiet_fields(1))
qed

lemma packetUpdate_quiet: "packetUpdate p e bm s = Some s' \<Longrightarrow> quiet s s'"
  by (auto simp: packetUpdate_def bind_eq_Some_conv split: if_splits
      dest!: upd_node_quiet clusterSetNodeAsMaster_quiet clusterUpdateSlotsConfigWith_quiet; meson quiet_trans)

lemma u64_inc: "(e :: u64) \<noteq> - 1 \<Longrightarrow> e \<le> e + 1"
proof -
  assume "e \<noteq> - 1"
  then have "1 + e \<noteq> 0" by (metis add.commute eq_neg_iff_add_eq_0)
  then have "unat (1 + e) = Suc (unat e)" by (rule unatSuc)
  then show ?thesis by (simp add: word_le_nat_alt add.commute)
qed

lemma epochs_quiet:
  "packetEpochs p a b s = Some s' \<Longrightarrow> quiet s s'"
  "cs_currentEpoch s \<noteq> - 1 \<Longrightarrow> clusterBumpConfigEpochWithoutConsensus s = Some (r, s') \<Longrightarrow> quiet s s'"
  "cs_currentEpoch s \<noteq> - 1 \<Longrightarrow> clusterHandleConfigEpochCollision p s = Some s' \<Longrightarrow> quiet s s'"
  by (auto simp: packetEpochs_def clusterBumpConfigEpochWithoutConsensus_def clusterHandleConfigEpochCollision_def
      Let_def bind_eq_Some_conv upd_node_def quiet_def vote_epochs_def clusterDoBeforeSleep_def emit_def u64_inc split: if_splits)

lemma reports_quiet:
  "clusterNodeAddFailureReport p q t s = Some (b, s') \<Longrightarrow> quiet s s'"
  "clusterNodeDelFailureReport p q t s = Some (b, s') \<Longrightarrow> quiet s s'"
  "clusterNodeFailureReportsCount p t s = Some (k, s') \<Longrightarrow> quiet s s'"
  by (auto simp: clusterNodeAddFailureReport_def clusterNodeDelFailureReport_def clusterNodeFailureReportsCount_def
      clusterNodeCleanupFailureReports_def bind_eq_Some_conv Let_def case_prod_unfold split: option.splits dest!: upd_node_quiet intro: quiet_trans)

lemma failing_quiet:
  "markNodeAsFailingIfNeeded p t t' s = Some s' \<Longrightarrow> quiet s s'"
  "clearNodeFailureIfNeeded p t s = Some s' \<Longrightarrow> quiet s s'"
  by (auto simp: markNodeAsFailingIfNeeded_def clearNodeFailureIfNeeded_def Let_def bind_eq_Some_conv
      split: if_splits dest!: upd_node_quiet reports_quiet(3) intro: quiet_trans)

text \<open>Every step but a vote request is quiet.\<close>

lemma step_quiet:
  assumes inv: "cluster_inv s" and ok: "cluster_op_ok op s" and run: "run_cluster_op op s = Some s'"
    and no: "\<And>p req t t'. op \<noteq> AuthRequest p req t t'"
  shows "quiet s s'"
proof (cases op)
  case (UpdateState clock)
  obtain me where "cs_heap s (cs_myself s) = Some me" using cluster_inv_myself [OF inv] by blast
  then show ?thesis using clusterUpdateState_ok [OF inv, of me clock] run UpdateState by (auto simp: quiet_def vote_epochs_def)
qed (use ok run no in \<open>auto simp: clusterAddNode_def packetAuthAck_def bind_eq_Some_conv quiet_def [of _ "_\<lparr>cs_nodes := _\<rparr>"]
   quiet_def [of _ "_\<lparr>cs_heap := _\<rparr>"] quiet_def [of _ "_\<lparr>cs_failover_auth_count := _\<rparr>"] vote_epochs_def split: if_splits
   intro: quiet_ops packetUpdate_quiet epochs_quiet reports_quiet failing_quiet\<close>)

definition votes_ok :: "clusterState \<Rightarrow> bool" where
  "votes_ok s \<longleftrightarrow> sorted_wrt (<) (vote_epochs s) \<and> (\<forall>e\<in>set (vote_epochs s). e \<le> cs_lastVoteEpoch s) \<and> cs_lastVoteEpoch s \<le> cs_currentEpoch s"

lemma quiet_votes: "quiet s s' \<Longrightarrow> votes_ok s \<Longrightarrow> votes_ok s'"
  by (auto simp: quiet_def votes_ok_def)

lemma AuthRequest_votes:
  assumes inv: "cluster_inv s" and p: "cs_heap s p = Some n" and bm: "length (req_myslots req) = N_SLOTS div 8"
    and run: "packetAuthRequest p req t t' s = Some s'" and votes: "votes_ok s"
  shows "votes_ok s'"
proof -
  obtain s1 where s1: "packetEpochs p (req_currentEpoch req) (req_configEpoch req) s = Some s1" "frame s s1"
      "clusterSendFailoverAuthIfNeeded p req t t' s1 = Some s'"
    using packetEpochs_ok [OF p, of "req_currentEpoch req" "req_configEpoch req"] run by (auto simp: packetAuthRequest_def)
  have v1: "votes_ok s1" using quiet_votes [OF epochs_quiet(1) [OF s1(1)] votes] .
  obtain n1 where "cs_heap s1 p = Some n1" using frame_fwd [OF s1(2) p] by blast
  then consider "cs_events s' = cs_events s1" "cs_lastVoteEpoch s' = cs_lastVoteEpoch s1" "cs_currentEpoch s' = cs_currentEpoch s1"
    | "cs_events s' = cs_events s1 @ [SendFailoverAuth p (cs_currentEpoch s1)]" "cs_lastVoteEpoch s' = cs_currentEpoch s1"
      "cs_currentEpoch s' = cs_currentEpoch s1" "cs_lastVoteEpoch s1 \<noteq> cs_currentEpoch s1"
    using clusterSendFailoverAuth_ok [OF frame_inv [OF s1(2) inv] _ bm, of p n1 t t'] s1(3) by auto
  then show ?thesis
  proof cases
    case 1
    then show ?thesis using v1 by (simp add: votes_ok_def vote_epochs_def)
  next
    case 2
    then have "cs_lastVoteEpoch s1 < cs_currentEpoch s1" using v1 by (simp add: order_less_le votes_ok_def)
    then have "\<forall>e\<in>set (vote_epochs s1). e < cs_currentEpoch s1"
      using v1 unfolding votes_ok_def by (meson order_le_less_trans)
    moreover have "vote_epochs s' = vote_epochs s1 @ [cs_currentEpoch s1]" using 2 by (simp add: vote_epochs_def)
    ultimately show ?thesis using v1 2 by (auto simp: votes_ok_def sorted_wrt_append order_less_imp_le)
  qed
qed

lemma reachable_votes: "cluster_reachable s \<Longrightarrow> votes_ok s"
proof (induction rule: cluster_reachable.induct)
  case (start name timeout cov)
  then show ?case by (simp add: votes_ok_def vote_epochs_def cluster_init_def)
next
  case (step s op s')
  note inv = reachable_inv [OF step.hyps(1)]
  show ?case
  proof (cases "\<exists>p req t t'. op = AuthRequest p req t t'")
    case True
    then show ?thesis using AuthRequest_votes [OF inv] step by auto
  next
    case False
    then show ?thesis using quiet_votes [OF step_quiet [OF inv step.hyps(2,3)]] step.IH by blast
  qed
qed


section \<open>Properties\<close>







text \<open>Property C22.  After an evaluation of the cluster state the cluster is considered available exactly when a
  strict majority of the masters that serve slots is reachable and, if full coverage is required, every
  slot is served by a node that is not failing; except that a master that was in the failed state stays
  there until two seconds after the first evaluation and until the rejoin delay after it was last in
  a minority.\<close>

theorem clusterUpdateState_available:
  assumes "cluster_reachable s" and "cs_heap s (cs_myself s) = Some me"
  shows "\<exists>s'. clusterUpdateState clock s = Some s' \<and> (cs_state s' = REDIS_CLUSTER_OK \<longleftrightarrow>
    healthy s \<and> (cs_state s = REDIS_CLUSTER_OK \<or> \<not> nodeIsMaster me \<or> may_rejoin clock s))"
  using clusterUpdateState_ok [OF reachable_inv [OF assms(1)] assms(2)] by blast

theorem clusterUpdateState_available_witness:
  "\<exists>s'. clusterUpdateState (\<lambda>_. 10000) (cluster_init [] 15000 False) = Some s' \<and> cs_state s' = REDIS_CLUSTER_FAIL"
proof -
  have me: "cs_heap (cluster_init [] 15000 False) (cs_myself (cluster_init [] 15000 False)) = Some (createClusterNode [] (16 OR REDIS_NODE_MASTER))"
    by (simp add: cluster_init_def)
  have "\<not> healthy (cluster_init [] 15000 False)"
    by (simp add: healthy_def masters_def cluster_init_def voting_def reachable_master_def createClusterNode_def)
  then show ?thesis
    using clusterUpdateState_available [OF cluster_reachable.start me, of "\<lambda>_. 10000"] by (metis cluster_state.exhaust)
qed

end
