(* ===== verification/Glob.thy ===== *)
theory Glob
  imports Util
begin

text \<open>
  The glob-style matcher of \<open>util.c\<close>, which \<open>KEYS\<close>, \<open>SCAN\<close>, \<open>PSUBSCRIBE\<close> and \<open>CONFIG GET\<close> use.
  A pattern and a string are blocks that end in a terminator, a pointer is an offset and the
  remaining lengths are signed, as in the code; \<open>None\<close> is an access behind the terminator or a
  loop that does not end.
\<close>

section \<open>The code\<close>

text \<open>A character as the \<open>int\<close> that \<open>char\<close> is promoted to.\<close>

definition char_int :: "byte \<Rightarrow> int" where
  "char_int c = sint c"

definition eq_char :: "bool \<Rightarrow> byte \<Rightarrow> byte \<Rightarrow> bool" where
  "eq_char nocase a b \<longleftrightarrow> (if nocase then tolower a = tolower b else a = b)"

definition in_range :: "bool \<Rightarrow> byte \<Rightarrow> byte \<Rightarrow> byte \<Rightarrow> bool" where
  "in_range nocase a b c =
     (let (s, e) = (if char_int a > char_int b then (b, a) else (a, b));
          (s, e, c) = (if nocase then (tolower s, tolower e, tolower c) else (s, e, c)) in
      char_int s \<le> char_int c \<and> char_int c \<le> char_int e)"

text \<open>The loop over a character class; the position behind it is that of the closing bracket.\<close>

function classLoop :: "bool \<Rightarrow> bytes \<Rightarrow> bytes \<Rightarrow> nat \<Rightarrow> nat \<Rightarrow> int \<Rightarrow> bool \<Rightarrow> (bool \<times> nat \<times> int) option" where
  "classLoop nocase pat str j i plen found = do {
     p0 \<leftarrow> mem_get i pat;
     (if p0 = 92 then do {
        p1 \<leftarrow> mem_get (i + 1) pat;
        c \<leftarrow> mem_get j str;
        classLoop nocase pat str j (i + 2) (plen - 2) (found \<or> p1 = c) }
      else if p0 = 93 then Some (found, i, plen)
      else if plen = 0 then (if i = 0 then None else Some (found, i - 1, plen + 1))
      else do {
        p1 \<leftarrow> mem_get (i + 1) pat;
        (if p1 = 45 \<and> plen \<ge> 3 then do {
           p2 \<leftarrow> mem_get (i + 2) pat;
           c \<leftarrow> mem_get j str;
           classLoop nocase pat str j (i + 3) (plen - 3) (found \<or> in_range nocase p0 p2 c) }
         else do {
           c \<leftarrow> mem_get j str;
           classLoop nocase pat str j (i + 1) (plen - 1) (found \<or> eq_char nocase p0 c) }) }) }"
  by pat_completeness auto
termination
  by (relation "measure (\<lambda>(nocase, pat, str, j, i, plen, found). length pat - i)") (auto simp: mem_get_Some_iff)

declare classLoop.simps [simp del]

text \<open>
  The cases that consume one character: \<open>None\<close> inside is the result \<open>no match\<close>, otherwise the
  positions and lengths after the case.
\<close>

definition matchClass :: "bool \<Rightarrow> bytes \<Rightarrow> bytes \<Rightarrow> nat \<Rightarrow> int \<Rightarrow> nat \<Rightarrow> int \<Rightarrow> (nat \<times> int \<times> nat \<times> int) option option" where
  "matchClass nocase pat str i plen j slen = do {
     let i = i + 1;
     let plen = plen - 1;
     p0 \<leftarrow> mem_get i pat;
     let neg = (p0 = 94);
     (found, i, plen) \<leftarrow> (if neg then classLoop nocase pat str j (i + 1) (plen - 1) False
                          else classLoop nocase pat str j i plen False);
     Some (if found = neg then None else Some (i, plen, j + 1, slen - 1)) }"

definition matchChar :: "bool \<Rightarrow> bytes \<Rightarrow> bytes \<Rightarrow> nat \<Rightarrow> int \<Rightarrow> nat \<Rightarrow> int \<Rightarrow> (nat \<times> int \<times> nat \<times> int) option option" where
  "matchChar nocase pat str i plen j slen = do {
     p0 \<leftarrow> mem_get i pat;
     c \<leftarrow> mem_get j str;
     Some (if eq_char nocase p0 c then Some (i, plen, j + 1, slen - 1) else None) }"

definition matchOne :: "bool \<Rightarrow> bytes \<Rightarrow> bytes \<Rightarrow> nat \<Rightarrow> int \<Rightarrow> nat \<Rightarrow> int \<Rightarrow> (nat \<times> int \<times> nat \<times> int) option option" where
  "matchOne nocase pat str i plen j slen = do {
     p0 \<leftarrow> mem_get i pat;
     (if p0 = 63 then Some (if slen = 0 then None else Some (i, plen, j + 1, slen - 1))
      else if p0 = 91 then matchClass nocase pat str i plen j slen
      else if p0 = 92 \<and> plen \<ge> 2 then matchChar nocase pat str (i + 1) (plen - 1) j slen
      else matchChar nocase pat str i plen j slen) }"

text \<open>Skipping the asterisks from \<open>i\<close> on.\<close>

function skipStars :: "bytes \<Rightarrow> nat \<Rightarrow> int \<Rightarrow> (nat \<times> int) option" where
  "skipStars pat i plen = do {
     p0 \<leftarrow> mem_get i pat;
     (if p0 = 42 then skipStars pat (i + 1) (plen - 1) else Some (i, plen)) }"
  by pat_completeness auto
termination
  by (relation "measure (\<lambda>(pat, i, plen). length pat - i)") (auto simp: mem_get_Some_iff)

declare skipStars.simps [simp del]

text \<open>
  With \<open>star\<close> the loop over the rest of the string in the case of an asterisk, otherwise the loop
  over the pattern.
\<close>

partial_function (option) stringmatch_loop ::
    "bool \<Rightarrow> bytes \<Rightarrow> bytes \<Rightarrow> bool \<Rightarrow> nat \<Rightarrow> int \<Rightarrow> nat \<Rightarrow> int \<Rightarrow> bool option" where
  "stringmatch_loop nocase pat str star i plen j slen =
     (if star then
        (if slen = 0 then Some False
         else do {
           found \<leftarrow> stringmatch_loop nocase pat str False i plen j slen;
           (if found then Some True else stringmatch_loop nocase pat str True i plen (j + 1) (slen - 1)) })
      else if plen = 0 then Some (slen = 0)
      else do {
        p0 \<leftarrow> mem_get i pat;
        (if p0 = 42 then do {
           (i, plen) \<leftarrow> skipStars pat (i + 1) (plen - 1);
           (if plen = 0 then Some True else stringmatch_loop nocase pat str True i plen j slen) }
         else do {
           r \<leftarrow> matchOne nocase pat str i plen j slen;
           (case r of
              None \<Rightarrow> Some False
            | Some (i, plen, j, slen) \<Rightarrow>
                if slen = 0 then do {
                  (i, plen) \<leftarrow> skipStars pat (i + 1) (plen - 1);
                  Some (plen = 0) }
                else stringmatch_loop nocase pat str False (i + 1) (plen - 1) j slen) }) })"

definition stringmatchlen :: "bytes \<Rightarrow> int \<Rightarrow> bytes \<Rightarrow> int \<Rightarrow> bool \<Rightarrow> bool option" where
  "stringmatchlen pat plen str slen nocase = stringmatch_loop nocase pat str False 0 plen 0 slen"

definition stringmatch :: "bytes \<Rightarrow> bytes \<Rightarrow> bool \<Rightarrow> bool option" where
  "stringmatch pat str nocase = stringmatchlen pat (int (length (c_str pat))) str (int (length (c_str str))) nocase"


section \<open>The language of patterns\<close>

text \<open>
  A pattern is a sequence of asterisks and of sets of characters.  Inside a class a backslash
  quotes the next character, which is then compared exactly even when case is ignored, two
  characters around a hyphen are a range, and a class that is not closed ends with the pattern.
\<close>

datatype glob_token = Star | One "byte \<Rightarrow> bool"

definition item :: "(byte \<Rightarrow> bool) \<Rightarrow> ((byte \<Rightarrow> bool) \<times> bytes) option \<Rightarrow> ((byte \<Rightarrow> bool) \<times> bytes) option" where
  "item g r = map_option (\<lambda>(f, rest). (\<lambda>c. g c \<or> f c, rest)) r"

fun class_items :: "bool \<Rightarrow> bytes \<Rightarrow> ((byte \<Rightarrow> bool) \<times> bytes) option" where
  "class_items nocase [] = Some (\<lambda>_. False, [])"
| "class_items nocase (a # p) =
     (if a = 92 then (case p of [] \<Rightarrow> None | x # p' \<Rightarrow> item (\<lambda>c. x = c) (class_items nocase p'))
      else if a = 93 then Some (\<lambda>_. False, p)
      else (case p of
          b # e # p' \<Rightarrow>
            if b = 45 then item (in_range nocase a e) (class_items nocase p')
            else item (eq_char nocase a) (class_items nocase p)
        | _ \<Rightarrow> item (eq_char nocase a) (class_items nocase p)))"

lemma item_Some: "item g r = Some (f, rest) \<longleftrightarrow> (\<exists>h. r = Some (h, rest) \<and> f = (\<lambda>c. g c \<or> h c))"
  by (auto simp: item_def)

lemma item_map: "map_option (\<lambda>(f, rest). F f rest) (item g r) = map_option (\<lambda>(f, rest). F (\<lambda>c. g c \<or> f c) rest) r"
  by (cases r) (auto simp: item_def)

lemma class_cases:
  fixes q :: bytes
  obtains "a = 92" "q = []" | x r where "a = 92" "q = x # r" | "a = 93" | e r where "a \<noteq> 92" "a \<noteq> 93" "q = 45 # e # r"
    | "a \<noteq> (92 :: byte)" "a \<noteq> 93" "\<not> (2 \<le> length q \<and> hd q = 45)"
  by (cases q; cases "tl q") auto

lemma class_items_char:
  "a \<noteq> 92 \<Longrightarrow> a \<noteq> 93 \<Longrightarrow> \<not> (2 \<le> length q \<and> hd q = 45) \<Longrightarrow> class_items nocase (a # q) = item (eq_char nocase a) (class_items nocase q)"
  by (cases q; cases "tl q") auto

lemma class_items_cases:
  assumes "class_items nocase (a # q) = Some (f, rest)"
  shows "rest = q \<or> (\<exists>r h. class_items nocase r = Some (h, rest) \<and> length r \<le> length q)"
proof (cases rule: class_cases [of a q])
  case (2 x r)
  then have "item (\<lambda>c. x = c) (class_items nocase r) = Some (f, rest)" using assms by simp
  then show ?thesis using 2 unfolding item_Some by auto
next
  case (4 e r)
  then have "item (in_range nocase a e) (class_items nocase r) = Some (f, rest)" using assms by simp
  then show ?thesis using 4 unfolding item_Some by auto
next
  case 5
  then have "item (eq_char nocase a) (class_items nocase q) = Some (f, rest)" using assms class_items_char by simp
  then show ?thesis unfolding item_Some by auto
qed (use assms in simp_all)

lemma class_items_length: "class_items nocase p = Some (f, rest) \<Longrightarrow> length rest \<le> length p"
proof (induction "length p" arbitrary: p f rest rule: less_induct)
  case less
  show ?case
  proof (cases p)
    case (Cons a q)
    then have "class_items nocase (a # q) = Some (f, rest)" using less.prems by simp
    from class_items_cases [OF this] show ?thesis
    proof (elim disjE exE conjE)
      fix r h assume "class_items nocase r = Some (h, rest)" "length r \<le> length q"
      then show ?thesis using less.hyps [of r h rest] Cons by simp
    qed (simp add: Cons)
  qed (use less.prems in simp)
qed

function parse_glob :: "bool \<Rightarrow> bytes \<Rightarrow> glob_token list option" where
  "parse_glob nocase p =
     (case p of
        [] \<Rightarrow> Some []
      | a # q \<Rightarrow>
          if a = 42 then map_option (Cons Star) (parse_glob nocase q)
          else if a = 63 then map_option (Cons (One (\<lambda>_. True))) (parse_glob nocase q)
          else if a = 91 then
            (let neg = (q \<noteq> [] \<and> hd q = 94) in
             case class_items nocase (if neg then tl q else q) of
               None \<Rightarrow> None
             | Some (f, rest) \<Rightarrow> map_option (Cons (One (\<lambda>c. f c \<noteq> neg))) (parse_glob nocase rest))
          else if a = 92 \<and> q \<noteq> [] then map_option (Cons (One (eq_char nocase (hd q)))) (parse_glob nocase (tl q))
          else map_option (Cons (One (eq_char nocase a))) (parse_glob nocase q))"
  by pat_completeness auto
termination
proof (relation "measure (\<lambda>(nocase, p). length p)", goal_cases)
  case (4 nocase p a q neg fr f rest)
  then show ?case using class_items_length [of nocase "if neg then tl q else q" f rest] by (auto split: if_splits)
qed auto

declare parse_glob.simps [simp del]

fun glob_match :: "glob_token list \<Rightarrow> bytes \<Rightarrow> bool" where
  "glob_match [] s = (s = [])"
| "glob_match (One f # ts) [] = False"
| "glob_match (One f # ts) (c # s) = (f c \<and> glob_match ts s)"
| "glob_match (Star # ts) [] = glob_match ts []"
| "glob_match (Star # ts) (c # s) = (glob_match ts (c # s) \<or> glob_match (Star # ts) s)"

section \<open>Classes\<close>

lemma get_at: "i = length A \<Longrightarrow> mem_get i (A @ a # B) = Some a"
  by (simp add: mem_get_def nth_append)

text \<open>The loop over a class computes whether the character is in the class, and where it ends.\<close>

lemma classLoop_items:
  assumes "A \<noteq> []" "0 \<notin> set p" "mem_get j str = Some c"
  shows "classLoop nocase (A @ p @ [0]) str j (length A) (int (length p)) found =
    map_option (\<lambda>(f, rest). (found \<or> f c, length A + length p - length rest - 1, int (length rest) + 1)) (class_items nocase p)"
  using assms(1,2)
proof (induction "length p" arbitrary: A p found rule: less_induct)
  case less
  note step = classLoop.simps [of nocase "A @ p @ [0]" str j "length A" "int (length p)" found]
  show ?case
  proof (cases p)
    case Nil
    then show ?thesis using step less.prems(1) get_at [of "length A" A 0 "[]"] by simp
  next
    case (Cons a q)
    have g0: "mem_get (length A) (A @ p @ [0]) = Some a" using Cons get_at [of "length A" A a "q @ [0]"] by simp
    have IH: "classLoop nocase (A @ p @ [0]) str j (length A + k) (int (length p) - int k) found' =
        map_option (\<lambda>(f, rest). (found' \<or> f c, length A + length p - length rest - 1, int (length rest) + 1)) (class_items nocase (drop k p))"
      if "0 < k" "k \<le> length p" for k found'
    proof -
      have "classLoop nocase ((A @ take k p) @ drop k p @ [0]) str j (length (A @ take k p)) (int (length (drop k p))) found' =
          map_option (\<lambda>(f, rest). (found' \<or> f c, length (A @ take k p) + length (drop k p) - length rest - 1, int (length rest) + 1))
            (class_items nocase (drop k p))"
        by (rule less.hyps) (use that less.prems in \<open>auto dest: in_set_dropD\<close>)
      moreover have e: "(A @ take k p) @ drop k p @ [0] = A @ p @ [0]" by simp
      moreover have l: "length (A @ take k p) + length (drop k p) = length A + length p" using that by auto
      moreover have "length (A @ take k p) = length A + k" "int (length (drop k p)) = int (length p) - int k" using that by auto
      ultimately show ?thesis unfolding e l by (simp only:)
    qed
    have get: "mem_get (length A + k) (A @ p @ [0]) = Some ((p @ [0]) ! k)" if "k \<le> length p" for k
      using that by (simp add: mem_get_def nth_append)
    show ?thesis
    proof (cases rule: class_cases [of a q])
      case 1
      have "classLoop nocase (A @ p @ [0]) str j (length A + 2) plen f = None" for plen f
        by (subst classLoop.simps) (simp add: mem_get_def Cons 1)
      then show ?thesis using step g0 get [of 1] assms(3) Cons 1 by simp
    next
      case (2 x r)
      then show ?thesis using step g0 get [of 1] assms(3) Cons IH [of 2 "found \<or> x = c"]
        by (simp add: item_map disj_assoc)
    next
      case 3
      then show ?thesis using step g0 Cons by simp
    next
      case (4 e r)
      then show ?thesis using step g0 get [of 1] get [of 2] assms(3) Cons IH [of 3 "found \<or> in_range nocase a e c"]
        by (simp add: item_map disj_assoc)
    next
      case 5
      have ci: "class_items nocase p = item (eq_char nocase a) (class_items nocase q)"
        using Cons 5 class_items_char by simp
      have "\<not> ((p @ [0]) ! 1 = 45 \<and> 3 \<le> int (length p))" using Cons 5 by (cases q) auto
      then have "classLoop nocase (A @ p @ [0]) str j (length A) (int (length p)) found =
          classLoop nocase (A @ p @ [0]) str j (length A + 1) (int (length p) - int 1) (found \<or> eq_char nocase a c)"
        using step g0 get [of 1] assms(3) Cons 5 by auto
      then show ?thesis using IH [of 1 "found \<or> eq_char nocase a c"] Cons unfolding ci
        by (simp add: item_map disj_assoc)
    qed
  qed
qed


section \<open>One character\<close>

text \<open>The character that the code reads at the position: the terminator behind the last one.\<close>

definition cur :: "bytes \<Rightarrow> byte" where
  "cur s = (case s of [] \<Rightarrow> 0 | c # _ \<Rightarrow> c)"

lemma get_cur: "mem_get (length B) (B @ s @ [0]) = Some (cur s)"
  by (cases s) (simp_all add: cur_def mem_get_def nth_append)

text \<open>The first token of a pattern that does not start with an asterisk, and what the code does with it.\<close>

definition token_step :: "bool \<Rightarrow> bytes \<Rightarrow> (byte \<Rightarrow> bool) \<Rightarrow> bytes \<Rightarrow> bool" where
  "token_step nocase p f rest \<longleftrightarrow> (\<exists>pre. p = pre @ rest \<and> pre \<noteq> []) \<and>
     (\<forall>A B s. matchOne nocase (A @ p @ [0]) (B @ s @ [0]) (length A) (int (length p)) (length B) (int (length s)) =
       Some (if f (cur s) \<and> (s = [] \<longrightarrow> hd p \<noteq> 63)
             then Some (length A + length p - length rest - 1, int (length rest) + 1, length B + 1, int (length s) - 1) else None))"

lemma class_items_suffix: "class_items nocase p = Some (f, rest) \<Longrightarrow> \<exists>pre. p = pre @ rest"
proof (induction "length p" arbitrary: p f rest rule: less_induct)
  case less
  show ?case
  proof (cases p)
    case (Cons a q)
    have suf: "\<exists>pre. p = pre @ rest" if "class_items nocase r = Some (h, rest)" "p = u @ r" "u \<noteq> []" for u r h
    proof -
      have "length r < length p" using that(2,3) by simp
      from less.hyps [OF this that(1)] obtain pre where "r = pre @ rest" by blast
      then show ?thesis using that(2) by (intro exI [of _ "u @ pre"]) simp
    qed
    show ?thesis
    proof (cases rule: class_cases [of a q])
      case 1
      then show ?thesis using less.prems Cons by simp
    next
      case (2 x r)
      then have "item (\<lambda>c. x = c) (class_items nocase r) = Some (f, rest)" using less.prems Cons by simp
      then show ?thesis using suf [of r _ "[a, x]"] Cons 2 unfolding item_Some by auto
    next
      case 3
      then show ?thesis using less.prems Cons by (intro exI [of _ "[a]"]) simp
    next
      case (4 e r)
      then have "item (in_range nocase a e) (class_items nocase r) = Some (f, rest)" using less.prems Cons by simp
      then show ?thesis using suf [of r _ "[a, 45, e]"] Cons 4 unfolding item_Some by auto
    next
      case 5
      then have "item (eq_char nocase a) (class_items nocase q) = Some (f, rest)" using less.prems Cons class_items_char by simp
      then show ?thesis using suf [of q _ "[a]"] Cons unfolding item_Some by auto
    qed
  qed (use less.prems in simp)
qed

lemma token_class:
  assumes p: "p = 91 # q" "0 \<notin> set p" and neg: "neg = (q \<noteq> [] \<and> hd q = 94)"
    and ci: "class_items nocase (if neg then tl q else q) = Some (f, rest)"
  shows "token_step nocase p (\<lambda>c. f c \<noteq> neg) rest"
  unfolding token_step_def
proof (intro conjI allI)
  obtain pre where "(if neg then tl q else q) = pre @ rest" using class_items_suffix [OF ci] by blast
  then show "\<exists>pre. p = pre @ rest \<and> pre \<noteq> []" using p(1) neg
    by (intro exI [of _ "91 # (if neg then [94] else []) @ pre"]) (cases q, auto split: if_splits)
  fix A B s
  have len: "length rest \<le> length (if neg then tl q else q)" using class_items_length [OF ci] .
  have c0: "mem_get (length A) (A @ p @ [0]) = Some 91" using get_at [of "length A" A 91 "q @ [0]"] p(1) by simp
  have c1: "mem_get (length A + 1) (A @ p @ [0]) = Some (cur q)" using get_cur [of "A @ [91]" q] p(1) by simp
  have n: "(cur q = 94) = neg" using neg by (cases q) (auto simp: cur_def)
  have "(if neg then classLoop nocase (A @ p @ [0]) (B @ s @ [0]) (length B) (length A + 1 + 1) (int (length p) - 1 - 1) False
      else classLoop nocase (A @ p @ [0]) (B @ s @ [0]) (length B) (length A + 1) (int (length p) - 1) False) =
      Some (f (cur s), length A + length p - length rest - 1, int (length rest) + 1)"
  proof (cases neg)
    case True
    then obtain r where q: "q = 94 # r" using neg by (cases q) auto
    have "classLoop nocase ((A @ [91, 94]) @ r @ [0]) (B @ s @ [0]) (length B) (length (A @ [91, 94])) (int (length r)) False =
        Some (f (cur s), length (A @ [91, 94]) + length r - length rest - 1, int (length rest) + 1)"
      using classLoop_items [of "A @ [91, 94]" r "length B" "B @ s @ [0]" "cur s" nocase False] p get_cur ci True q by simp
    then show ?thesis using True p(1) q by (simp add: algebra_simps)
  next
    case False
    have "classLoop nocase ((A @ [91]) @ q @ [0]) (B @ s @ [0]) (length B) (length (A @ [91])) (int (length q)) False =
        Some (f (cur s), length (A @ [91]) + length q - length rest - 1, int (length rest) + 1)"
      using classLoop_items [of "A @ [91]" q "length B" "B @ s @ [0]" "cur s" nocase False] p get_cur ci False by simp
    then show ?thesis using False p(1) by simp
  qed
  then show "matchOne nocase (A @ p @ [0]) (B @ s @ [0]) (length A) (int (length p)) (length B) (int (length s)) =
       Some (if (f (cur s) \<noteq> neg) \<and> (s = [] \<longrightarrow> hd p \<noteq> 63)
             then Some (length A + length p - length rest - 1, int (length rest) + 1, length B + 1, int (length s) - 1) else None)"
    using c0 c1 n p(1) by (auto simp: matchOne_def matchClass_def Let_def)
qed

lemma token_char:
  assumes "p = a # q" "a \<noteq> 42" "a \<noteq> 63" "a \<noteq> 91" "a = 92 \<longrightarrow> q = []"
  shows "token_step nocase p (eq_char nocase a) q"
  unfolding token_step_def
proof (intro conjI allI)
  fix A B s
  have "mem_get (length A) (A @ p @ [0]) = Some a" using get_at [of "length A" A a "q @ [0]"] assms(1) by simp
  then show "matchOne nocase (A @ p @ [0]) (B @ s @ [0]) (length A) (int (length p)) (length B) (int (length s)) =
       Some (if eq_char nocase a (cur s) \<and> (s = [] \<longrightarrow> hd p \<noteq> 63)
             then Some (length A + length p - length q - 1, int (length q) + 1, length B + 1, int (length s) - 1) else None)"
    using assms get_cur [of B s] by (auto simp: matchOne_def matchChar_def)
qed (use assms(1) in simp)

lemma token_quoted:
  assumes "p = 92 # x # q"
  shows "token_step nocase p (eq_char nocase x) q"
  unfolding token_step_def
proof (intro conjI allI)
  show "\<exists>pre. p = pre @ q \<and> pre \<noteq> []" using assms by (intro exI [of _ "[92, x]"]) simp
  fix A B s
  have "mem_get (length A) (A @ p @ [0]) = Some 92" "mem_get (length A + 1) (A @ p @ [0]) = Some x"
    using get_at [of "length A" A 92 "x # q @ [0]"] get_at [of "length A + 1" "A @ [92]" x "q @ [0]"] assms by simp_all
  then show "matchOne nocase (A @ p @ [0]) (B @ s @ [0]) (length A) (int (length p)) (length B) (int (length s)) =
       Some (if eq_char nocase x (cur s) \<and> (s = [] \<longrightarrow> hd p \<noteq> 63)
             then Some (length A + length p - length q - 1, int (length q) + 1, length B + 1, int (length s) - 1) else None)"
    using assms get_cur [of B s] by (auto simp: matchOne_def matchChar_def)
qed

lemma token_any:
  assumes "p = 63 # q"
  shows "token_step nocase p (\<lambda>_. True) q"
  unfolding token_step_def
proof (intro conjI allI)
  fix A B s
  have "mem_get (length A) (A @ p @ [0]) = Some 63" using get_at [of "length A" A 63 "q @ [0]"] assms(1) by simp
  then show "matchOne nocase (A @ p @ [0]) (B @ s @ [0]) (length A) (int (length p)) (length B) (int (length s)) =
       Some (if True \<and> (s = [] \<longrightarrow> hd p \<noteq> 63)
             then Some (length A + length p - length q - 1, int (length q) + 1, length B + 1, int (length s) - 1) else None)"
    using assms by (auto simp: matchOne_def)
qed (use assms in simp)

lemma parse_token:
  assumes p: "p \<noteq> []" "hd p \<noteq> 42" "0 \<notin> set p" and ts: "parse_glob nocase p = Some ts"
  shows "\<exists>f rest ts'. ts = One f # ts' \<and> parse_glob nocase rest = Some ts' \<and> token_step nocase p f rest"
proof -
  obtain a q where aq: "p = a # q" "a \<noteq> 42" using p by (cases p) auto
  have "parse_glob nocase (a # q) = Some ts" using ts aq(1) by simp
  note e = this [unfolded parse_glob.simps [of nocase "a # q", unfolded list.case]]
  consider "a = 63" | "a = 91" | x r where "a = 92" "q = x # r" | "a \<noteq> 63" "a \<noteq> 91" "a = 92 \<longrightarrow> q = []" by (cases q) auto
  then show ?thesis
  proof cases
    case 1
    then show ?thesis using e token_any [of p q nocase] aq(1) by auto
  next
    case 2
    define neg where "neg = (q \<noteq> [] \<and> hd q = 94)"
    from e 2 obtain f rest where c: "class_items nocase (if neg then tl q else q) = Some (f, rest)"
        "map_option (Cons (One (\<lambda>c. f c \<noteq> neg))) (parse_glob nocase rest) = Some ts"
      by (auto simp: Let_def neg_def split: option.splits)
    have "p = 91 # q" using aq 2 by simp
    from token_class [OF this p(3) neg_def c(1)] c(2) show ?thesis by auto
  next
    case 3
    then show ?thesis using e token_quoted [of p x r nocase] aq(1) by auto
  next
    case 4
    then have "map_option (Cons (One (eq_char nocase a))) (parse_glob nocase q) = Some ts" using e aq(2) by (simp split: if_splits)
    then show ?thesis using token_char [OF aq 4, of nocase] by auto
  qed
qed


section \<open>The whole pattern\<close>

definition unstar :: "bytes \<Rightarrow> bytes" where
  "unstar p = dropWhile (\<lambda>a. a = 42) p"

lemma skipStars_unstar:
  "skipStars (A @ p @ [0]) (length A) (int (length p)) = Some (length A + length p - length (unstar p), int (length (unstar p)))"
proof (induction p arbitrary: A)
  case Nil
  then show ?case using get_at [of "length A" A 0 "[]"] by (subst skipStars.simps) (simp add: unstar_def)
next
  case (Cons a p)
  have g: "mem_get (length A) (A @ (a # p) @ [0]) = Some a" using get_at [of "length A" A a "p @ [0]"] by simp
  show ?case
  proof (cases "a = 42")
    case True
    have "skipStars (A @ (a # p) @ [0]) (length A) (int (length (a # p))) = skipStars ((A @ [a]) @ p @ [0]) (length (A @ [a])) (int (length p))"
      using g True by (subst skipStars.simps) simp
    then show ?thesis using Cons.IH [of "A @ [a]"] True by (simp add: unstar_def)
  next
    case False
    then show ?thesis using g by (subst skipStars.simps) (simp add: unstar_def)
  qed
qed

lemma unstar_le: "length (unstar p) \<le> length p"
  by (simp add: unstar_def length_dropWhile_le)

lemma parse_unstar:
  "parse_glob nocase p = Some ts \<Longrightarrow> \<exists>k ts'. ts = replicate k Star @ ts' \<and> parse_glob nocase (unstar p) = Some ts' \<and> (k = 0 \<longleftrightarrow> p = [] \<or> hd p \<noteq> 42)"
proof (induction p arbitrary: ts)
  case Nil
  then show ?case by (intro exI [of _ 0] exI [of _ ts]) (simp add: unstar_def)
next
  case (Cons a p)
  show ?case
  proof (cases "a = 42")
    case True
    then obtain ts1 where t: "parse_glob nocase p = Some ts1" "ts = Star # ts1" using Cons.prems by (subst (asm) parse_glob.simps) auto
    from Cons.IH [OF t(1)] obtain k ts' where "ts1 = replicate k Star @ ts'" "parse_glob nocase (unstar p) = Some ts'" by blast
    then show ?thesis using True t(2) by (intro exI [of _ "Suc k"] exI [of _ ts']) (simp add: unstar_def)
  next
    case False
    then show ?thesis using Cons.prems by (intro exI [of _ 0] exI [of _ ts]) (simp add: unstar_def)
  qed
qed

lemma glob_star_star: "glob_match (Star # Star # ts) s = glob_match (Star # ts) s"
  by (induction s) auto

lemma glob_stars: "glob_match (replicate (Suc k) Star @ ts) s = glob_match (Star # ts) s"
  by (induction k) (simp_all add: glob_star_star)

lemma glob_stars_empty: "glob_match (replicate k Star @ ts) [] = glob_match ts []"
  by (induction k) simp_all

lemma star_only: "glob_match [Star] s"
  by (induction s) simp_all

lemma unstar_hd: "unstar p \<noteq> [] \<Longrightarrow> hd (unstar p) \<noteq> 42"
  using hd_dropWhile [of "\<lambda>a. a = 42" p] by (simp add: unstar_def)

lemma unstar_set: "set (unstar p) \<subseteq> set p"
  by (auto simp: unstar_def dest: set_dropWhileD)

lemma match_empty_parse:
  assumes "p \<noteq> []" "hd p \<noteq> 42" "0 \<notin> set p" "parse_glob nocase p = Some ts"
  shows "\<not> glob_match ts []"
  using parse_token [OF assms] by auto

text \<open>
  The first token of the pattern does not take the terminator of an empty string for a
  character: only a class can do so, in particular a complemented one.
\<close>

definition sound_start :: "bytes \<Rightarrow> glob_token list \<Rightarrow> bytes \<Rightarrow> bool" where
  "sound_start p ts s \<longleftrightarrow> s \<noteq> [] \<or> p = [] \<or> hd p \<noteq> 91 \<or> (case ts of One f # _ \<Rightarrow> \<not> f 0 | _ \<Rightarrow> True)"

definition loop_at :: "bool \<Rightarrow> bool \<Rightarrow> bytes \<Rightarrow> bytes \<Rightarrow> bytes \<Rightarrow> bytes \<Rightarrow> bool option" where
  "loop_at nocase star A p B s =
     stringmatch_loop nocase (A @ p @ [0]) (B @ s @ [0]) star (length A) (int (length p)) (length B) (int (length s))"

lemma loop_star:
  assumes main: "\<And>B s. s \<noteq> [] \<Longrightarrow> loop_at nocase False A p B s = Some (glob_match ts s)" and e: "\<not> glob_match ts []"
  shows "loop_at nocase True A p B s = Some (glob_match (Star # ts) s)"
proof (induction s arbitrary: B)
  case Nil
  then show ?case using e by (simp add: loop_at_def, subst stringmatch_loop.simps) simp
next
  case (Cons c s)
  have "loop_at nocase True A p B (c # s) = do {
      found \<leftarrow> loop_at nocase False A p B (c # s);
      (if found then Some True else loop_at nocase True A p (B @ [c]) s) }"
    unfolding loop_at_def by (subst (1) stringmatch_loop.simps) (simp cong: if_cong)
  then show ?case using main [of "c # s" B] Cons.IH [of "B @ [c]"] by simp
qed

lemma eq_char_0: "a \<noteq> 0 \<Longrightarrow> \<not> eq_char nocase a 0"
proof -
  assume "a \<noteq> 0"
  moreover have "a + 32 \<noteq> 0" if "65 \<le> a" "a \<le> 90"
    using that by (auto simp: word_le_nat_alt unat_word_ariths word_unat_eq_iff)
  ultimately show ?thesis by (auto simp: eq_char_def tolower_def)
qed

lemma parse_start:
  assumes "p \<noteq> []" "hd p \<noteq> 42" "0 \<notin> set p" "parse_glob nocase p = Some (One f # ts')" "sound_start p (One f # ts') []"
  shows "hd p = 63 \<or> \<not> f 0"
proof -
  obtain a q where aq: "p = a # q" "a \<noteq> 42" using assms(1,2) by (cases p) auto
  have "parse_glob nocase (a # q) = Some (One f # ts')" using assms(4) aq(1) by simp
  note e = this [unfolded parse_glob.simps [of nocase "a # q", unfolded list.case]]
  show ?thesis
  proof (cases "a = 63 \<or> a = 91")
    case True
    then show ?thesis using assms(5) aq by (auto simp: sound_start_def)
  next
    case False
    then obtain x where "x \<in> set p" "f = eq_char nocase x" using e aq by (cases q) (auto split: if_splits)
    then show ?thesis using eq_char_0 [of x nocase] assms(3) by metis
  qed
qed

lemma loop_token:
  assumes p: "p \<noteq> []" "hd p \<noteq> 42" "0 \<notin> set p" "parse_glob nocase p = Some ts" and s: "sound_start p ts s"
    and IH: "\<And>A rest ts' B s. length rest < length p \<Longrightarrow> 0 \<notin> set rest \<Longrightarrow> parse_glob nocase rest = Some ts' \<Longrightarrow> s \<noteq> [] \<Longrightarrow>
      loop_at nocase False A rest B s = Some (glob_match ts' s)"
  shows "loop_at nocase False A p B s = Some (glob_match ts s)"
proof -
  obtain f rest ts' where t: "ts = One f # ts'" "parse_glob nocase rest = Some ts'" "token_step nocase p f rest"
    using parse_token [OF p] by blast
  obtain pre where pre: "p = pre @ rest" "pre \<noteq> []" using t(3) by (auto simp: token_step_def)
  have one: "matchOne nocase (A @ p @ [0]) (B @ s @ [0]) (length A) (int (length p)) (length B) (int (length s)) =
       Some (if f (cur s) \<and> (s = [] \<longrightarrow> hd p \<noteq> 63)
             then Some (length A + length p - length rest - 1, int (length rest) + 1, length B + 1, int (length s) - 1) else None)"
    using t(3) unfolding token_step_def by blast
  obtain a q where aq: "p = a # q" "a \<noteq> 42" using p(1,2) by (cases p) auto
  have g: "mem_get (length A) (A @ p @ [0]) = Some a" using get_at [of "length A" A a "q @ [0]"] aq by simp
  have nz: "int (length p) \<noteq> 0" using p(1) by simp
  note step = stringmatch_loop.simps [of nocase "A @ p @ [0]" "B @ s @ [0]" False "length A" "int (length p)" "length B" "int (length s)"]
  show ?thesis
  proof (cases s)
    case Nil
    have "hd p = 63 \<or> \<not> f 0" by (rule parse_start [OF p(1-3)]) (use p(4) s t(1) Nil in simp_all)
    then have "matchOne nocase (A @ p @ [0]) (B @ s @ [0]) (length A) (int (length p)) (length B) (int (length s)) = Some None"
      using one Nil by (auto simp: cur_def)
    then show ?thesis using step g nz aq(2) Nil t(1) by (simp add: loop_at_def)
  next
    case (Cons c s')
    have n1: "length A + length p - length rest - 1 + 1 = length (A @ pre)" using pre by (cases pre) auto
    have one': "matchOne nocase (A @ p @ [0]) (B @ s @ [0]) (length A) (int (length p)) (length B) (int (length s)) =
       Some (if f c then Some (length A + length p - length rest - 1, int (length rest) + 1, length B + 1, int (length s')) else None)"
      using one Cons by (simp add: cur_def)
    show ?thesis
    proof (cases "f c")
      case False
      then show ?thesis using step g nz aq(2) one' Cons t(1) by (simp add: loop_at_def)
    next
      case True
      have sk: "skipStars (A @ p @ [0]) (length (A @ pre)) (int (length rest)) =
          Some (length (A @ pre) + length rest - length (unstar rest), int (length (unstar rest)))"
        using skipStars_unstar [of "A @ pre" rest] pre(1) by simp
      have st: "loop_at nocase False A p B s =
          (if s' = [] then Some (unstar rest = []) else loop_at nocase False (A @ pre) rest (B @ [c]) s')"
        using step g nz aq(2) one' True sk n1 Cons pre(1) by (simp add: loop_at_def)
      show ?thesis
      proof (cases "s' = []")
        case True
        from parse_unstar [OF t(2)] obtain k us where u: "ts' = replicate k Star @ us" "parse_glob nocase (unstar rest) = Some us" by blast
        have "glob_match us [] = (unstar rest = [])"
        proof (cases "unstar rest = []")
          case True
          then show ?thesis using u(2) by (simp add: parse_glob.simps)
        next
          case False
          have "0 \<notin> set (unstar rest)" using unstar_set [of rest] p(3) pre(1) by auto
          then show ?thesis using match_empty_parse [OF False unstar_hd [OF False] _ u(2)] False by simp
        qed
        then show ?thesis using st True \<open>f c\<close> t(1) Cons u(1) by (simp add: glob_stars_empty)
      next
        case False
        have "loop_at nocase False (A @ pre) rest (B @ [c]) s' = Some (glob_match ts' s')"
          by (rule IH) (use pre p(3) t(2) False in auto)
        then show ?thesis using st False \<open>f c\<close> t(1) Cons by simp
      qed
    qed
  qed
qed

lemma loop_glob:
  "0 \<notin> set p \<Longrightarrow> parse_glob nocase p = Some ts \<Longrightarrow> sound_start p ts s \<Longrightarrow> loop_at nocase False A p B s = Some (glob_match ts s)"
proof (induction "length p" arbitrary: p ts s A B rule: less_induct)
  case less
  show ?case
  proof (cases "p = []")
    case True
    then show ?thesis using less.prems(2) by (simp add: loop_at_def, subst stringmatch_loop.simps) (auto simp: parse_glob.simps)
  next
    case ne: False
    show ?thesis
    proof (cases "hd p = 42")
      case False
      show ?thesis
        by (rule loop_token [OF ne False less.prems]) (rule less.hyps, simp_all add: sound_start_def)
    next
      case True
      then obtain q where q: "p = 42 # q" using ne by (cases p) auto
      obtain k us where u: "ts = replicate k Star @ us" "parse_glob nocase (unstar p) = Some us" "k \<noteq> 0"
        using parse_unstar [OF less.prems(2)] ne True by blast
      have up: "unstar p = unstar q" using q by (simp add: unstar_def)
      have m: "glob_match ts s = glob_match (Star # us) s" using u(1,3) glob_stars [of "k - 1" us s] by simp
      have g: "mem_get (length A) (A @ p @ [0]) = Some 42" using get_at [of "length A" A 42 "q @ [0]"] q by simp
      obtain pre where pre: "p = pre @ unstar p" unfolding unstar_def by (metis takeWhile_dropWhile_id)
      have sk: "skipStars (A @ p @ [0]) (length A + 1) (int (length p) - 1) = Some (length (A @ pre), int (length (unstar p)))"
      proof -
        have "length p = length pre + length (unstar q)" using arg_cong [OF pre, of length] up by simp
        then have l: "length (A @ [42]) + length q - length (unstar q) = length (A @ pre)" using q by simp
        have "skipStars (A @ p @ [0]) (length A + 1) (int (length p) - 1) = skipStars ((A @ [42]) @ q @ [0]) (length (A @ [42])) (int (length q))"
          using q by simp
        then show ?thesis unfolding skipStars_unstar l up .
      qed
      have st: "loop_at nocase False A p B s =
          (if unstar p = [] then Some True else loop_at nocase True (A @ pre) (unstar p) B s)"
      proof -
        have app: "(A @ pre) @ unstar p @ [0] = A @ p @ [0]" by (metis append_assoc pre)
        show ?thesis unfolding loop_at_def app
          using g sk ne stringmatch_loop.simps [of nocase "A @ p @ [0]" "B @ s @ [0]" False "length A" "int (length p)" "length B" "int (length s)"]
          by simp
      qed
      show ?thesis
      proof (cases "unstar p = []")
        case True
        then show ?thesis using st m u(2) star_only by (simp add: parse_glob.simps)
      next
        case False
        have nz: "0 \<notin> set (unstar p)" using unstar_set [of p] less.prems(1) by auto
        have len: "length (unstar p) < length p" using up unstar_le [of q] q by simp
        have "loop_at nocase True (A @ pre) (unstar p) B s = Some (glob_match (Star # us) s)"
          by (rule loop_star) (use less.hyps [OF len nz u(2)] match_empty_parse [OF False unstar_hd [OF False] nz u(2)] in \<open>simp_all add: sound_start_def\<close>)
        then show ?thesis using st m False by simp
      qed
    qed
  qed
qed


section \<open>Properties\<close>



lemma class_end: "classLoop nocase (A @ [92, 0]) str j (length A) plen found = None"
proof -
  have "classLoop nocase (A @ [92, 0]) str j (length A + 2) plen' f = None" for plen' f
    by (subst classLoop.simps) (simp add: mem_get_def)
  then show ?thesis by (subst classLoop.simps) (simp add: mem_get_def nth_append split: bind_splits)
qed

text \<open>Property C39.  Two defects at the ends of pattern and string.  A pattern that starts with a
  complemented class and goes on with an asterisk matches the empty string, which its language
  does not contain: the class takes the terminator for a character, and the remaining length
  becomes negative.  And a class that ends in a backslash is read behind the terminator of the
  pattern, for every string.\<close>

theorem stringmatchlen_class_ends:
  assumes "class_items nocase q = Some (f, [42])" "\<not> f 0" "0 \<notin> set q"
  shows "stringmatchlen (91 # 94 # q @ [0]) (int (length q) + 2) [0] 0 nocase = Some True \<and>
    (\<exists>ts. parse_glob nocase (91 # 94 # q) = Some ts \<and> \<not> glob_match ts []) \<and>
    stringmatchlen (91 # 92 # [0]) 2 str slen nocase = None"
proof (intro conjI)
  define p where "p = 91 # 94 # q"
  have ts: "token_step nocase p (\<lambda>c. f c \<noteq> True) [42]"
    by (rule token_class [where q = "94 # q"]) (use assms in \<open>simp_all add: p_def\<close>)
  then obtain pre where pre: "p = pre @ [42]" "pre \<noteq> []" unfolding token_step_def by blast
  have "matchOne nocase ([] @ p @ [0]) ([] @ [] @ [0]) (length ([] :: bytes)) (int (length p)) (length ([] :: bytes)) (int (length ([] :: bytes))) =
      Some (if (f (cur []) \<noteq> True) \<and> (([] :: bytes) = [] \<longrightarrow> hd p \<noteq> 63)
            then Some (length ([] :: bytes) + length p - length [42 :: byte] - 1, int (length [42 :: byte]) + 1, length ([] :: bytes) + 1,
              int (length ([] :: bytes)) - 1) else None)"
    using ts unfolding token_step_def by blast
  then have one: "matchOne nocase (p @ [0]) [0] 0 (int (length p)) 0 0 = Some (Some (length p - 2, 2, 1, - 1))"
    using assms(2) by (simp add: cur_def p_def)
  have g: "mem_get 0 (p @ [0]) = Some 91" by (simp add: p_def mem_get_def)
  have "2 \<le> length p" using pre by (cases pre) simp_all
  then have "Suc (length p - 2) = length pre" using pre(1) by simp
  moreover have "mem_get (length pre) (p @ [0]) = Some 42" using pre(1) get_at [of "length pre" pre 42 "[0]"] by simp
  moreover have "skipStars (p @ [0]) (Suc (length pre)) 0 = Some (Suc (length pre), 0)"
    using skipStars_unstar [of "pre @ [42]" "[]"] pre(1) by (simp add: unstar_def)
  ultimately have "stringmatch_loop nocase (p @ [0]) [0] False (Suc (length p - 2)) 1 1 (- 1) = Some True"
    by (subst stringmatch_loop.simps) simp
  then have "stringmatch_loop nocase (p @ [0]) [0] False 0 (int (length p)) 0 0 = Some True"
    using g one by (subst stringmatch_loop.simps) (simp add: p_def)
  then show "stringmatchlen (91 # 94 # q @ [0]) (int (length q) + 2) [0] 0 nocase = Some True"
    by (simp add: stringmatchlen_def p_def algebra_simps)
  have "parse_glob nocase [42] = Some [Star]" by (simp add: parse_glob.simps)
  then have "parse_glob nocase (91 # 94 # q) = Some [One (\<lambda>c. f c \<noteq> True), Star]"
    using assms(1) by (subst parse_glob.simps) simp
  then show "\<exists>ts. parse_glob nocase (91 # 94 # q) = Some ts \<and> \<not> glob_match ts []" by (intro exI [of _ "[One (\<lambda>c. f c \<noteq> True), Star]"]) simp
  have "classLoop nocase [91, 92, 0] str 0 1 1 False = None" using class_end [of nocase "[91]" str 0 1 False] by simp
  then show "stringmatchlen (91 # 92 # [0]) 2 str slen nocase = None"
    unfolding stringmatchlen_def by (subst stringmatch_loop.simps) (simp add: matchOne_def matchClass_def mem_get_def Let_def)
qed

theorem stringmatchlen_class_ends_witness:
  "stringmatchlen [91, 94, 97, 93, 42, 0] 5 [0] 0 False = Some True \<and> stringmatchlen [91, 92, 0] 2 [97, 0] 1 False = None"
proof -
  have "class_items False [97, 93, 42] = Some (eq_char False 97, [42])" by (simp add: item_def)
  from stringmatchlen_class_ends [OF this, of "[97, 0]" 1] show ?thesis by (simp add: eq_char_def)
qed

end
