(* ===== verification/Sds.thy ===== *)
theory Sds
  imports Util Interfaces
begin

unbundle bit_operations_syntax

text \<open>
  The dynamic strings of \<open>sds.c\<close>.  A string is a block of \<open>len + free + 1\<close> bytes
  with its two counters; accesses outside the block, failed assertions and
  counters beyond 32 bits are \<open>None\<close>.  Arguments of type \<open>bytes\<close> are the memory
  at the pointers that are passed.  New memory has arbitrary contents, given by
  the argument \<open>fresh\<close>.
\<close>

section \<open>Data\<close>

record sdshdr =
  sh_len :: nat
  sh_free :: nat
  sh_buf :: bytes

definition SDS_MAX_PREALLOC :: nat where
  "SDS_MAX_PREALLOC = 1024 * 1024"

text \<open>Both counters are \<open>unsigned int\<close>.\<close>

definition mk_sds :: "nat \<Rightarrow> nat \<Rightarrow> bytes \<Rightarrow> sdshdr option" where
  "mk_sds len free buf =
     (if len < 2 ^ 32 \<and> free < 2 ^ 32 then Some \<lparr>sh_len = len, sh_free = free, sh_buf = buf\<rparr> else None)"

definition sdslen :: "sdshdr \<Rightarrow> nat" where "sdslen s = sh_len s"

definition sdsavail :: "sdshdr \<Rightarrow> nat" where "sdsavail s = sh_free s"

definition sds_text :: "sdshdr \<Rightarrow> bytes" where
  "sds_text s = take (sh_len s) (sh_buf s)"

section \<open>Creation and resizing\<close>

text \<open>\<open>init\<close> is \<open>None\<close> for the null pointer.\<close>

definition sdsnewlen :: "fresh_mem \<Rightarrow> bytes option \<Rightarrow> nat \<Rightarrow> sdshdr option" where
  "sdsnewlen fresh init initlen = do {
     let buf = (case init of Some _ \<Rightarrow> mem_alloc fresh (initlen + 1) | None \<Rightarrow> replicate (initlen + 1) 0);
     buf \<leftarrow> (case init of
         Some t \<Rightarrow> if initlen \<noteq> 0 then do { xs \<leftarrow> mem_read 0 initlen t; mem_write 0 xs buf } else Some buf
       | None \<Rightarrow> Some buf);
     buf \<leftarrow> mem_set initlen 0 buf;
     mk_sds initlen 0 buf }"

definition sdsempty :: "fresh_mem \<Rightarrow> sdshdr option" where
  "sdsempty fresh = sdsnewlen fresh (Some []) 0"

definition sdsnew :: "fresh_mem \<Rightarrow> bytes option \<Rightarrow> sdshdr option" where
  "sdsnew fresh init = sdsnewlen fresh init (case init of None \<Rightarrow> 0 | Some t \<Rightarrow> length (c_str t))"

definition sdsdup :: "fresh_mem \<Rightarrow> sdshdr \<Rightarrow> sdshdr option" where
  "sdsdup fresh s = sdsnewlen fresh (Some (sh_buf s)) (sdslen s)"

definition sdsupdatelen :: "sdshdr \<Rightarrow> sdshdr option" where
  "sdsupdatelen s =
     (let reallen = length (c_str (sh_buf s)) in
      if reallen = length (sh_buf s) then None
      else mk_sds reallen (sh_free s + (sh_len s - reallen)) (sh_buf s))"

definition sdsclear :: "sdshdr \<Rightarrow> sdshdr option" where
  "sdsclear s = do { buf \<leftarrow> mem_set 0 0 (sh_buf s); mk_sds 0 (sh_free s + sh_len s) buf }"

definition sdsMakeRoomFor :: "fresh_mem \<Rightarrow> sdshdr \<Rightarrow> nat \<Rightarrow> sdshdr option" where
  "sdsMakeRoomFor fresh s addlen =
     (if sdsavail s \<ge> addlen then Some s
      else let len = sdslen s;
               newlen = len + addlen;
               newlen = (if newlen < SDS_MAX_PREALLOC then newlen * 2 else newlen + SDS_MAX_PREALLOC) in
        mk_sds len (newlen - len) (mem_realloc fresh (newlen + 1) (sh_buf s)))"

definition sdsRemoveFreeSpace :: "fresh_mem \<Rightarrow> sdshdr \<Rightarrow> sdshdr option" where
  "sdsRemoveFreeSpace fresh s = mk_sds (sh_len s) 0 (mem_realloc fresh (sh_len s + 1) (sh_buf s))"

definition sdsAllocSize :: "sdshdr \<Rightarrow> nat" where
  "sdsAllocSize s = 8 + sh_len s + sh_free s + 1"

definition sdsIncrLen :: "sdshdr \<Rightarrow> int \<Rightarrow> sdshdr option" where
  "sdsIncrLen s incr =
     (if (if incr \<ge> 0 then int (sh_free s) \<ge> incr else int (sh_len s) \<ge> - incr) then do {
        let len = nat (int (sh_len s) + incr);
        buf \<leftarrow> mem_set len 0 (sh_buf s);
        mk_sds len (nat (int (sh_free s) - incr)) buf }
      else None)"

definition sdsgrowzero :: "fresh_mem \<Rightarrow> sdshdr \<Rightarrow> nat \<Rightarrow> sdshdr option" where
  "sdsgrowzero fresh s len =
     (let curlen = sh_len s in
      if len \<le> curlen then Some s
      else do {
        s \<leftarrow> sdsMakeRoomFor fresh s (len - curlen);
        buf \<leftarrow> mem_write curlen (replicate (len - curlen + 1) 0) (sh_buf s);
        mk_sds len (sh_len s + sh_free s - len) buf })"

section \<open>Contents\<close>

definition sdscatlen :: "fresh_mem \<Rightarrow> sdshdr \<Rightarrow> bytes \<Rightarrow> nat \<Rightarrow> sdshdr option" where
  "sdscatlen fresh s t len = do {
     let curlen = sdslen s;
     s \<leftarrow> sdsMakeRoomFor fresh s len;
     xs \<leftarrow> mem_read 0 len t;
     buf \<leftarrow> mem_write curlen xs (sh_buf s);
     buf \<leftarrow> mem_set (curlen + len) 0 buf;
     mk_sds (curlen + len) (sh_free s - len) buf }"

definition sdscat :: "fresh_mem \<Rightarrow> sdshdr \<Rightarrow> bytes \<Rightarrow> sdshdr option" where
  "sdscat fresh s t = sdscatlen fresh s t (length (c_str t))"

definition sdscatsds :: "fresh_mem \<Rightarrow> sdshdr \<Rightarrow> sdshdr \<Rightarrow> sdshdr option" where
  "sdscatsds fresh s t = sdscatlen fresh s (sh_buf t) (sdslen t)"

definition sdscpylen :: "fresh_mem \<Rightarrow> sdshdr \<Rightarrow> bytes \<Rightarrow> nat \<Rightarrow> sdshdr option" where
  "sdscpylen fresh s t len = do {
     s \<leftarrow> (if sh_free s + sh_len s < len then sdsMakeRoomFor fresh s (len - sh_len s) else Some s);
     let totlen = sh_free s + sh_len s;
     xs \<leftarrow> mem_read 0 len t;
     buf \<leftarrow> mem_write 0 xs (sh_buf s);
     buf \<leftarrow> mem_set len 0 buf;
     mk_sds len (totlen - len) buf }"

definition sdscpy :: "fresh_mem \<Rightarrow> sdshdr \<Rightarrow> bytes \<Rightarrow> sdshdr option" where
  "sdscpy fresh s t = sdscpylen fresh s t (length (c_str t))"

text \<open>\<open>strchr\<close> also finds the terminator of the set, so null bytes are trimmed too.\<close>

definition in_cset :: "bytes \<Rightarrow> byte \<Rightarrow> bool" where
  "in_cset cset c \<longleftrightarrow> c \<in> set (c_str cset) \<or> c = 0"

fun trimLeft :: "bytes \<Rightarrow> bytes \<Rightarrow> nat \<Rightarrow> nat \<Rightarrow> nat" where
  "trimLeft cset buf 0 sp = sp"
| "trimLeft cset buf (Suc n) sp = (if in_cset cset (buf ! sp) then trimLeft cset buf n (sp + 1) else sp)"

fun trimRight :: "bytes \<Rightarrow> bytes \<Rightarrow> nat \<Rightarrow> nat" where
  "trimRight cset buf 0 = 0"
| "trimRight cset buf (Suc ep) = (if in_cset cset (buf ! Suc ep) then trimRight cset buf ep else Suc ep)"

text \<open>\<open>sp\<close> and \<open>ep\<close> are offsets; with \<open>len = 0\<close> the end pointer is before the start.\<close>

definition sdstrim :: "sdshdr \<Rightarrow> bytes \<Rightarrow> sdshdr option" where
  "sdstrim s cset =
     (let sp = trimLeft cset (sh_buf s) (sh_len s) 0;
          len = (if sh_len s = 0 then 0
                 else let ep = trimRight cset (sh_buf s) (sh_len s - 1) in if sp > ep then 0 else ep - sp + 1) in
      do {
        buf \<leftarrow> (if sp \<noteq> 0 then mem_move 0 sp len (sh_buf s) else Some (sh_buf s));
        buf \<leftarrow> mem_set len 0 buf;
        mk_sds len (sh_free s + (sh_len s - len)) buf })"

definition sdsrange :: "sdshdr \<Rightarrow> int \<Rightarrow> int \<Rightarrow> sdshdr option" where
  "sdsrange s start end =
     (let len = int (sdslen s) in
      if len = 0 then Some s
      else let start = (if start < 0 then max 0 (len + start) else start);
               end = (if end < 0 then max 0 (len + end) else end);
               newlen = (if start > end then 0 else end - start + 1);
               (start, newlen) =
                 (if newlen \<noteq> 0 then
                    (if start \<ge> len then (start, 0)
                     else if end \<ge> len then (start, if start > len - 1 then 0 else len - 1 - start + 1)
                     else (start, newlen))
                  else (0, newlen)) in
        do {
          buf \<leftarrow> (if start \<noteq> 0 \<and> newlen \<noteq> 0 then mem_move 0 (nat start) (nat newlen) (sh_buf s) else Some (sh_buf s));
          buf \<leftarrow> mem_set (nat newlen) 0 buf;
          mk_sds (nat newlen) (sh_free s + (sh_len s - nat newlen)) buf })"

definition toupper :: "byte \<Rightarrow> byte" where
  "toupper c = (if 97 \<le> c \<and> c \<le> 122 then c - 32 else c)"

definition sdstolower :: "sdshdr \<Rightarrow> sdshdr option" where
  "sdstolower s = for_each [0..<sdslen s] (\<lambda>j s. do {
     c \<leftarrow> mem_get j (sh_buf s); buf \<leftarrow> mem_set j (tolower c) (sh_buf s); Some (s\<lparr>sh_buf := buf\<rparr>) }) s"

definition sdstoupper :: "sdshdr \<Rightarrow> sdshdr option" where
  "sdstoupper s = for_each [0..<sdslen s] (\<lambda>j s. do {
     c \<leftarrow> mem_get j (sh_buf s); buf \<leftarrow> mem_set j (toupper c) (sh_buf s); Some (s\<lparr>sh_buf := buf\<rparr>) }) s"

fun mapchar :: "bytes \<Rightarrow> bytes \<Rightarrow> nat \<Rightarrow> byte \<Rightarrow> byte" where
  "mapchar (f # from) (t # to) (Suc setlen) c = (if c = f then t else mapchar from to setlen c)"
| "mapchar _ _ _ c = c"

definition sdsmapchars :: "sdshdr \<Rightarrow> bytes \<Rightarrow> bytes \<Rightarrow> nat \<Rightarrow> sdshdr option" where
  "sdsmapchars s from to setlen =
     (if length from < setlen \<or> length to < setlen then None
      else for_each [0..<sdslen s] (\<lambda>j s. do {
        c \<leftarrow> mem_get j (sh_buf s); buf \<leftarrow> mem_set j (mapchar from to setlen c) (sh_buf s); Some (s\<lparr>sh_buf := buf\<rparr>) }) s)"

section \<open>Comparing, splitting and joining\<close>

text \<open>The sign of \<open>memcmp\<close> as the difference of the first bytes that differ.\<close>

fun memcmp :: "bytes \<Rightarrow> bytes \<Rightarrow> int" where
  "memcmp (a # as) (b # bs) = (if a = b then memcmp as bs else uint a - uint b)"
| "memcmp _ _ = 0"

definition sdscmp :: "sdshdr \<Rightarrow> sdshdr \<Rightarrow> int option" where
  "sdscmp s1 s2 = do {
     let l1 = sdslen s1;
     let l2 = sdslen s2;
     let minlen = (if l1 < l2 then l1 else l2);
     a \<leftarrow> mem_read 0 minlen (sh_buf s1);
     b \<leftarrow> mem_read 0 minlen (sh_buf s2);
     let cmp = memcmp a b;
     Some (if cmp = 0 then int l1 - int l2 else cmp) }"

text \<open>The tokens found so far are an argument; the growth of their array is allocation only.\<close>

function splitLoop :: "bytes \<Rightarrow> bytes \<Rightarrow> nat \<Rightarrow> nat \<Rightarrow> bytes list \<Rightarrow> bytes list" where
  "splitLoop s sep start j tokens =
     (if sep = [] then []
      else if j < length s - (length sep - 1) then
        (if take (length sep) (drop j s) = sep
         then splitLoop s sep (j + length sep) (j + length sep) (tokens @ [take (j - start) (drop start s)])
         else splitLoop s sep start (j + 1) tokens)
      else tokens @ [take (length s - start) (drop start s)])"
  by pat_completeness auto
termination
  by (relation "measure (\<lambda>(s, sep, start, j, tokens). length s - j)") (auto simp: less_diff_conv simp flip: length_greater_0_conv)

declare splitLoop.simps [simp del]

definition sdssplitlen :: "bytes \<Rightarrow> bytes \<Rightarrow> bytes list option" where
  "sdssplitlen s sep =
     (if length sep < 1 then None
      else if length s = 0 then Some []
      else Some (splitLoop s sep 0 0 []))"

fun joinLoop :: "fresh_mem \<Rightarrow> bytes list \<Rightarrow> bytes \<Rightarrow> sdshdr \<Rightarrow> sdshdr option" where
  "joinLoop fresh [] sep join = Some join"
| "joinLoop fresh (a # as) sep join = do {
     join \<leftarrow> sdscat fresh join a;
     join \<leftarrow> (if as \<noteq> [] then sdscat fresh join sep else Some join);
     joinLoop fresh as sep join }"

definition sdsjoin :: "fresh_mem \<Rightarrow> bytes list \<Rightarrow> bytes \<Rightarrow> sdshdr option" where
  "sdsjoin fresh argv sep = do { join \<leftarrow> sdsempty fresh; joinLoop fresh argv sep join }"

section \<open>Quoting\<close>

definition isprint :: "byte \<Rightarrow> bool" where
  "isprint c \<longleftrightarrow> 32 \<le> c \<and> c \<le> 126"

definition isspace :: "byte \<Rightarrow> bool" where
  "isspace c \<longleftrightarrow> c = 32 \<or> (9 \<le> c \<and> c \<le> 13)"

definition hexchar :: "byte \<Rightarrow> byte" where
  "hexchar d = (if d < 10 then 48 + d else 87 + d)"

text \<open>The bytes appended for one character: \<open>92\<close> is the backslash, \<open>34\<close> the quote.\<close>

definition reprChar :: "byte \<Rightarrow> bytes" where
  "reprChar c =
     (if c = 92 \<or> c = 34 then [92, c]
      else if c = 10 then [92, 110]
      else if c = 13 then [92, 114]
      else if c = 9 then [92, 116]
      else if c = 7 then [92, 97]
      else if c = 8 then [92, 98]
      else if isprint c then [c]
      else [92, 120, hexchar (c div 16), hexchar (c mod 16)])"

fun catreprLoop :: "fresh_mem \<Rightarrow> sdshdr \<Rightarrow> bytes \<Rightarrow> sdshdr option" where
  "catreprLoop fresh s [] = Some s"
| "catreprLoop fresh s (c # p) = do {
     s \<leftarrow> sdscatlen fresh s (reprChar c) (length (reprChar c));
     catreprLoop fresh s p }"

definition sdscatrepr :: "fresh_mem \<Rightarrow> sdshdr \<Rightarrow> bytes \<Rightarrow> sdshdr option" where
  "sdscatrepr fresh s p = do {
     s \<leftarrow> sdscatlen fresh s [34] 1;
     s \<leftarrow> catreprLoop fresh s p;
     sdscatlen fresh s [34] 1 }"

definition is_hex_digit :: "byte \<Rightarrow> bool" where
  "is_hex_digit c \<longleftrightarrow> (48 \<le> c \<and> c \<le> 57) \<or> (97 \<le> c \<and> c \<le> 102) \<or> (65 \<le> c \<and> c \<le> 70)"

definition hex_digit_to_int :: "byte \<Rightarrow> byte" where
  "hex_digit_to_int c =
     (if 48 \<le> c \<and> c \<le> 57 then c - 48
      else if 97 \<le> c \<and> c \<le> 102 then c - 87
      else if 65 \<le> c \<and> c \<le> 70 then c - 55
      else 0)"

definition unescape :: "byte \<Rightarrow> byte" where
  "unescape c =
     (if c = 110 then 10 else if c = 114 then 13 else if c = 116 then 9 else if c = 98 then 8
      else if c = 97 then 7 else c)"

text \<open>
  \<open>sdssplitargs\<close> on the characters of the line before its terminator: the end of
  the list is the null byte.  The token functions return the finished token and
  the rest of the line, or \<open>None\<close> for unbalanced quotes.
\<close>

definition at_end :: "bytes \<Rightarrow> bool" where
  "at_end p \<longleftrightarrow> p = [] \<or> isspace (hd p)"

fun tokenDq :: "bytes \<Rightarrow> bytes \<Rightarrow> (bytes \<times> bytes) option" where
  "tokenDq current [] = None"
| "tokenDq current (c # p) =
     (if c = 92 \<and> length p \<ge> 3 \<and> p ! 0 = 120 \<and> is_hex_digit (p ! 1) \<and> is_hex_digit (p ! 2) then
        tokenDq (current @ [hex_digit_to_int (p ! 1) * 16 + hex_digit_to_int (p ! 2)]) (drop 3 p)
      else if c = 92 \<and> p \<noteq> [] then tokenDq (current @ [unescape (hd p)]) (tl p)
      else if c = 34 then (if at_end p then Some (current, p) else None)
      else tokenDq (current @ [c]) p)"

fun tokenSq :: "bytes \<Rightarrow> bytes \<Rightarrow> (bytes \<times> bytes) option" where
  "tokenSq current [] = None"
| "tokenSq current (c # p) =
     (if c = 92 \<and> p \<noteq> [] \<and> hd p = 39 then tokenSq (current @ [39]) (tl p)
      else if c = 39 then (if at_end p then Some (current, p) else None)
      else tokenSq (current @ [c]) p)"

fun token :: "bytes \<Rightarrow> bytes \<Rightarrow> (bytes \<times> bytes) option" where
  "token current [] = Some (current, [])"
| "token current (c # p) =
     (if c = 32 \<or> c = 10 \<or> c = 13 \<or> c = 9 then Some (current, p)
      else if c = 34 then tokenDq current p
      else if c = 39 then tokenSq current p
      else token (current @ [c]) p)"


lemma tokenDq_length: "tokenDq cur p = Some (t, rest) \<Longrightarrow> length rest < length p"
  by (induction cur p rule: tokenDq.induct) (auto split: if_splits)

lemma tokenSq_length: "tokenSq cur p = Some (t, rest) \<Longrightarrow> length rest < length p"
  by (induction cur p rule: tokenSq.induct) (auto split: if_splits)

lemma token_length: "token cur p = Some (t, rest) \<Longrightarrow> p \<noteq> [] \<Longrightarrow> length rest < length p"
proof (induction cur p rule: token.induct)
  case (2 cur c p)
  then show ?case
    by (cases "p = []") (auto split: if_splits dest: tokenDq_length tokenSq_length less_SucI)
qed simp

function splitargsLoop :: "bytes \<Rightarrow> bytes list \<Rightarrow> bytes list option" where
  "splitargsLoop p vector =
     (let p = dropWhile isspace p in
      if p = [] then Some vector
      else (case token [] p of
          None \<Rightarrow> None
        | Some (current, p) \<Rightarrow> splitargsLoop p (vector @ [current])))"
  by pat_completeness auto
termination
proof (relation "measure (\<lambda>(p, vector). length p)")
  fix p vector x a x2 current rest
  assume "x = dropWhile isspace p" "x \<noteq> []" "token [] x = Some x2" "(current, rest) = x2"
  then show "((rest, vector @ [current]), (p, vector)) \<in> measure (\<lambda>(p, vector). length p)"
    using token_length [of "[]" x current rest] length_dropWhile_le [of isspace p] by auto
qed simp

declare splitargsLoop.simps [simp del]

definition sdssplitargs :: "bytes \<Rightarrow> bytes list option" where
  "sdssplitargs line = splitargsLoop (c_str line) []"

section \<open>Numbers and formats\<close>

function digitsRev :: "u64 \<Rightarrow> bytes" where
  "digitsRev v = (48 + ucast (v mod 10)) # (if v div 10 = 0 then [] else digitsRev (v div 10))"
  by auto
termination
proof (relation "measure unat")
  fix v :: u64 assume "v div 10 \<noteq> 0"
  then have "v \<noteq> 0" by auto
  then have "unat v \<noteq> 0" by (simp add: unat_eq_0)
  then have "unat v div 10 < unat v" by simp
  moreover have "unat (v div 10) = unat v div 10" by (simp add: unat_div)
  ultimately show "(v div 10, v) \<in> measure unat" by simp
qed simp

declare digitsRev.simps [simp del]

function reverseLoop :: "bytes \<Rightarrow> nat \<Rightarrow> nat \<Rightarrow> bytes" where
  "reverseLoop buf s p =
     (if s < p then (let aux = buf ! s in reverseLoop (buf[s := buf ! p, p := aux]) (s + 1) (p - 1)) else buf)"
  by auto
termination by (relation "measure (\<lambda>(buf, s, p). p)") auto

declare reverseLoop.simps [simp del]

text \<open>
  Both conversions write to the buffer \<open>s\<close> and return its new contents and the
  length of the text.  The magnitude of the least integer is computed with
  wrap-around.
\<close>

definition sdsull2str :: "bytes \<Rightarrow> u64 \<Rightarrow> (bytes \<times> nat) option" where
  "sdsull2str s v = do {
     let xs = digitsRev v;
     s \<leftarrow> mem_write 0 (xs @ [0]) s;
     Some (reverseLoop s 0 (length xs - 1), length xs) }"

definition sdsll2str :: "bytes \<Rightarrow> i64 \<Rightarrow> (bytes \<times> nat) option" where
  "sdsll2str s value = do {
     let v = (if value <s 0 then - value else value);
     let xs = digitsRev v @ (if value <s 0 then [45] else []);
     s \<leftarrow> mem_write 0 (xs @ [0]) s;
     Some (reverseLoop s 0 (length xs - 1), length xs) }"

definition sdsfromlonglong :: "fresh_mem \<Rightarrow> i64 \<Rightarrow> sdshdr option" where
  "sdsfromlonglong fresh value = do {
     (buf, len) \<leftarrow> sdsll2str (mem_alloc fresh 21) value;
     sdsnewlen fresh (Some buf) len }"

text \<open>
  The arguments of \<open>sdscatfmt\<close>.  An argument that does not fit its specifier and
  a percent sign at the end of the format, after which the loop continues behind
  the terminator, are \<open>None\<close>.  The position \<open>i\<close> of the code is always \<open>sh->len\<close>.
\<close>

datatype fmt_arg = FStr bytes | FSds sdshdr | FInt u32 | FLong i64 | FUInt u32 | FULong u64

definition fmtPut :: "fresh_mem \<Rightarrow> sdshdr \<Rightarrow> bytes \<Rightarrow> nat \<Rightarrow> sdshdr option" where
  "fmtPut fresh s t l = do {
     s \<leftarrow> (if sh_free s < l then sdsMakeRoomFor fresh s l else Some s);
     xs \<leftarrow> mem_read 0 l t;
     buf \<leftarrow> mem_write (sh_len s) xs (sh_buf s);
     mk_sds (sh_len s + l) (sh_free s - l) buf }"

definition fmtArg :: "fresh_mem \<Rightarrow> byte \<Rightarrow> fmt_arg \<Rightarrow> sdshdr \<Rightarrow> sdshdr option" where
  "fmtArg fresh next arg s =
     (if next = 115 then (case arg of FStr t \<Rightarrow> fmtPut fresh s t (length (c_str t)) | _ \<Rightarrow> None)
      else if next = 83 then (case arg of FSds t \<Rightarrow> fmtPut fresh s (sh_buf t) (sdslen t) | _ \<Rightarrow> None)
      else if next = 105 then (case arg of FInt n \<Rightarrow> do { (buf, l) \<leftarrow> sdsll2str (mem_alloc fresh 21) (scast n); fmtPut fresh s buf l } | _ \<Rightarrow> None)
      else if next = 73 then (case arg of FLong n \<Rightarrow> do { (buf, l) \<leftarrow> sdsll2str (mem_alloc fresh 21) n; fmtPut fresh s buf l } | _ \<Rightarrow> None)
      else if next = 117 then (case arg of FUInt n \<Rightarrow> do { (buf, l) \<leftarrow> sdsull2str (mem_alloc fresh 21) (ucast n); fmtPut fresh s buf l } | _ \<Rightarrow> None)
      else (case arg of FULong n \<Rightarrow> do { (buf, l) \<leftarrow> sdsull2str (mem_alloc fresh 21) n; fmtPut fresh s buf l } | _ \<Rightarrow> None))"

definition is_spec :: "byte \<Rightarrow> bool" where
  "is_spec c \<longleftrightarrow> c = 115 \<or> c = 83 \<or> c = 105 \<or> c = 73 \<or> c = 117 \<or> c = 85"

definition putChar :: "sdshdr \<Rightarrow> byte \<Rightarrow> sdshdr option" where
  "putChar s c = do { buf \<leftarrow> mem_set (sh_len s) c (sh_buf s); if sh_free s = 0 then None else mk_sds (sh_len s + 1) (sh_free s - 1) buf }"

fun catfmtLoop :: "fresh_mem \<Rightarrow> bytes \<Rightarrow> fmt_arg list \<Rightarrow> sdshdr \<Rightarrow> sdshdr option" where
  "catfmtLoop fresh [] args s = do { buf \<leftarrow> mem_set (sh_len s) 0 (sh_buf s); Some (s\<lparr>sh_buf := buf\<rparr>) }"
| "catfmtLoop fresh (c # f) args s = do {
     s \<leftarrow> (if sh_free s = 0 then sdsMakeRoomFor fresh s 1 else Some s);
     (if c = 37 then
        (case f of
           [] \<Rightarrow> None
         | next # f \<Rightarrow>
             (if is_spec next then
                (case args of
                   [] \<Rightarrow> None
                 | arg # args \<Rightarrow> do { s \<leftarrow> fmtArg fresh next arg s; catfmtLoop fresh f args s })
              else do { s \<leftarrow> putChar s next; catfmtLoop fresh f args s }))
      else do { s \<leftarrow> putChar s c; catfmtLoop fresh f args s }) }"

definition sdscatfmt :: "fresh_mem \<Rightarrow> sdshdr \<Rightarrow> bytes \<Rightarrow> fmt_arg list \<Rightarrow> sdshdr option" where
  "sdscatfmt fresh s fmt args = catfmtLoop fresh (c_str fmt) args s"

section \<open>What a string represents\<close>

definition sds_rep :: "sdshdr \<Rightarrow> bytes \<Rightarrow> bool" where
  "sds_rep s x \<longleftrightarrow> (\<exists>ys. s = \<lparr>sh_len = length x, sh_free = length ys, sh_buf = x @ 0 # ys\<rparr> \<and> length x + length ys < 2 ^ 32)"

named_theorems sds_ops

lemma sds_rep_text: "sds_rep s x \<Longrightarrow> sds_text s = x"
  by (auto simp: sds_rep_def sds_text_def)

lemma sds_rep_len: "sds_rep s x \<Longrightarrow> sh_len s = length x"
  by (auto simp: sds_rep_def)

lemma mk_sds_rep:
  "length x + length ys < 2 ^ 32 \<Longrightarrow> l = length x \<Longrightarrow> f = length ys \<Longrightarrow> buf = x @ 0 # ys \<Longrightarrow>
   \<exists>s'. mk_sds l f buf = Some s' \<and> sds_rep s' x"
  by (auto simp: mk_sds_def sds_rep_def)

lemma sdsMakeRoomFor_open:
  assumes s: "s = \<lparr>sh_len = length x, sh_free = length ys, sh_buf = x @ d # ys\<rparr>" "length x + length ys < 2 ^ 32"
    and small: "length x + add < 2 ^ 31"
  shows "\<exists>ys. sdsMakeRoomFor fresh s add = Some \<lparr>sh_len = length x, sh_free = length ys, sh_buf = x @ d # ys\<rparr>
    \<and> add \<le> length ys \<and> length x + length ys < 2 ^ 32"
proof -
  show ?thesis
  proof (cases "add \<le> length ys")
    case True
    then show ?thesis using s by (simp add: sdsMakeRoomFor_def sdsavail_def)
  next
    case False
    define nl where "nl = (if length x + add < SDS_MAX_PREALLOC then (length x + add) * 2 else length x + add + SDS_MAX_PREALLOC)"
    have nl: "length x + add \<le> nl" "nl < 2 ^ 32" using small by (auto simp: nl_def SDS_MAX_PREALLOC_def)
    define more where "more = map fresh [Suc (length x + length ys)..<Suc nl]"
    have more: "mem_realloc fresh (nl + 1) (x @ d # ys) = x @ d # (ys @ more)" "length (ys @ more) = nl - length x"
      using nl False by (simp_all add: mem_realloc_def more_def)
    have "sdsMakeRoomFor fresh s add = mk_sds (length x) (nl - length x) (mem_realloc fresh (nl + 1) (x @ d # ys))"
      using False s by (simp add: sdsMakeRoomFor_def sdsavail_def sdslen_def Let_def nl_def)
    then have "sdsMakeRoomFor fresh s add = Some \<lparr>sh_len = length x, sh_free = length (ys @ more), sh_buf = x @ d # (ys @ more)\<rparr>"
      using more nl by (simp add: mk_sds_def)
    moreover have "add \<le> length (ys @ more)" "length x + length (ys @ more) < 2 ^ 32" using more(2) nl by simp_all
    ultimately show ?thesis by blast
  qed
qed

lemma sdsMakeRoomFor_ok:
  assumes "sds_rep s x" "length x + add < 2 ^ 31"
  shows "\<exists>ys. sdsMakeRoomFor fresh s add = Some \<lparr>sh_len = length x, sh_free = length ys, sh_buf = x @ 0 # ys\<rparr>
    \<and> add \<le> length ys \<and> length x + length ys < 2 ^ 32"
proof -
  obtain ys where "s = \<lparr>sh_len = length x, sh_free = length ys, sh_buf = x @ 0 # ys\<rparr>" "length x + length ys < 2 ^ 32"
    using assms(1) unfolding sds_rep_def by (elim exE conjE)
  then show ?thesis using assms(2) by (rule sdsMakeRoomFor_open)
qed

lemma sdsMakeRoomFor_rep: "sds_rep s x \<Longrightarrow> length x + add < 2 ^ 31 \<Longrightarrow> \<exists>s'. sdsMakeRoomFor fresh s add = Some s' \<and> sds_rep s' x"
  using sdsMakeRoomFor_ok [of s x add fresh] by (auto simp: sds_rep_def)

lemma put_end: "length t \<le> length ys \<Longrightarrow> mem_write (length x) t (x @ 0 # ys) = Some (x @ t @ drop (length t) (0 # ys))"
  by (simp add: mem_write_def)

lemma set_end: "mem_set (length x) c (x @ d # ys) = Some (x @ c # ys)"
  by (simp add: mem_set_def)

lemma drop_Cons_ex: "length t \<le> length ys \<Longrightarrow> \<exists>d. drop (length t) (c # ys) = d # drop (length t) ys"
  by (metis Cons_nth_drop_Suc drop_Suc_Cons length_Cons less_Suc_eq_le)

text \<open>Writing \<open>t\<close> over the end of the text and terminating it.\<close>

lemma put_rep:
  assumes "length u \<le> length ys" "length x + length ys < 2 ^ 32"
  shows "\<exists>s'. do { buf \<leftarrow> mem_write (length x) u (x @ 0 # ys); buf \<leftarrow> mem_set (length x + length u) 0 buf;
       mk_sds (length x + length u) (length ys - length u) buf } = Some s' \<and> sds_rep s' (x @ u)"
proof -
  obtain d where "drop (length u) (0 # ys) = d # drop (length u) ys"
    using drop_Cons_ex [OF assms(1), of 0] by (elim exE)
  then have "mem_write (length x) u (x @ 0 # ys) = Some ((x @ u) @ d # drop (length u) ys)"
    using put_end [OF assms(1), of x] by simp
  moreover have "mem_set (length x + length u) 0 ((x @ u) @ d # drop (length u) ys) = Some ((x @ u) @ 0 # drop (length u) ys)"
    using set_end [of "x @ u" 0 d "drop (length u) ys"] by simp
  moreover have "\<exists>s'. mk_sds (length x + length u) (length ys - length u) ((x @ u) @ 0 # drop (length u) ys) = Some s' \<and> sds_rep s' (x @ u)"
    by (rule mk_sds_rep) (use assms in simp_all)
  ultimately show ?thesis by (simp only: bind.bind_lunit)
qed

lemma sdscatlen_ok [sds_ops]:
  assumes "sds_rep s x" "length x + len < 2 ^ 31" "len \<le> length t"
  shows "\<exists>s'. sdscatlen fresh s t len = Some s' \<and> sds_rep s' (x @ take len t)"
proof -
  obtain ys where ys: "sdsMakeRoomFor fresh s len = Some \<lparr>sh_len = length x, sh_free = length ys, sh_buf = x @ 0 # ys\<rparr>"
      "len \<le> length ys" "length x + length ys < 2 ^ 32"
    using sdsMakeRoomFor_ok [OF assms(1,2)] by blast
  then show ?thesis using assms sds_rep_len [OF assms(1)] put_rep [of "take len t" ys x]
    by (simp add: sdscatlen_def sdslen_def mem_read_def Let_def)
qed

lemma length_c_str: "length (c_str t) \<le> length t" "take (length (c_str t)) t = c_str t"
  by (simp_all add: c_str_def length_takeWhile_le takeWhile_eq_take [symmetric])

lemma sdscat_ok:
  "sds_rep s x \<Longrightarrow> length x + length (c_str t) < 2 ^ 31 \<Longrightarrow> \<exists>s'. sdscat fresh s t = Some s' \<and> sds_rep s' (x @ c_str t)"
  using sdscatlen_ok [of s x "length (c_str t)" t fresh] length_c_str [of t] by (simp add: sdscat_def)

lemma sdscatsds_ok:
  assumes "sds_rep s x" "sds_rep t y" "length x + length y < 2 ^ 31"
  shows "\<exists>s'. sdscatsds fresh s t = Some s' \<and> sds_rep s' (x @ y)"
proof -
  obtain zs where "t = \<lparr>sh_len = length y, sh_free = length zs, sh_buf = y @ 0 # zs\<rparr>" using assms(2) by (auto simp: sds_rep_def)
  then show ?thesis using sdscatlen_ok [OF assms(1,3), of "y @ 0 # zs" fresh] by (simp add: sdscatsds_def sdslen_def)
qed

lemma sdsnewlen_ok [sds_ops]:
  assumes "n \<le> length t" "n < 2 ^ 32"
  shows "\<exists>s. sdsnewlen fresh (Some t) n = Some s \<and> sds_rep s (take n t)"
proof -
  define u where "u = take n t"
  have u: "length u = n" using assms(1) by (simp add: u_def)
  obtain d where d: "mem_alloc fresh (Suc n) = map fresh [0..<n] @ [d]" by (simp add: mem_alloc_def)
  have "mem_set n 0 (u @ [d]) = Some (u @ [0])" using set_end [of u 0 d "[]"] u by simp
  moreover have "n \<noteq> 0 \<Longrightarrow> mem_write 0 u (mem_alloc fresh (Suc n)) = Some (u @ [d])" using u d by (simp add: mem_write_def)
  moreover have "n = 0 \<Longrightarrow> mem_alloc fresh (Suc n) = u @ [d]" using d u by simp
  ultimately have "sdsnewlen fresh (Some t) n = mk_sds n 0 (u @ [0])"
    using assms by (cases "n = 0") (simp_all add: sdsnewlen_def mem_read_def flip: u_def)
  then show ?thesis using mk_sds_rep [of u "[]" n 0] u assms(2) unfolding u_def by simp
qed

lemma sdsnewlen_zero:
  assumes "n < 2 ^ 32"
  shows "\<exists>s. sdsnewlen fresh None n = Some s \<and> sds_rep s (replicate n 0)"
proof -
  have "mem_set n (0 :: byte) (replicate (n + 1) 0) = Some (replicate n 0 @ [0])"
    using set_end [of "replicate n 0" 0 0 "[]"] by (simp flip: replicate_append_same)
  then have "sdsnewlen fresh None n = mk_sds n 0 (replicate n 0 @ 0 # [])"
    unfolding sdsnewlen_def by (simp only: option.case bind.bind_lunit Let_def)
  moreover have "\<exists>s'. mk_sds n 0 (replicate n 0 @ 0 # []) = Some s' \<and> sds_rep s' (replicate n 0)"
    by (rule mk_sds_rep) (use assms in simp_all)
  ultimately show ?thesis by (simp only:)
qed

lemma sdsempty_ok [sds_ops]: "\<exists>s. sdsempty fresh = Some s \<and> sds_rep s []"
  using sdsnewlen_ok [of 0 "[]" fresh] by (simp add: sdsempty_def)


lemma sdsdup_ok: "sds_rep s x \<Longrightarrow> \<exists>s'. sdsdup fresh s = Some s' \<and> sds_rep s' x"
  using sdsnewlen_ok [of "length x" "sh_buf s" fresh] by (auto simp: sds_rep_def sdsdup_def sdslen_def)

lemma sds_repE:
  assumes "sds_rep s x"
  obtains ys where "s = \<lparr>sh_len = length x, sh_free = length ys, sh_buf = x @ 0 # ys\<rparr>" "length x + length ys < 2 ^ 32"
  using assms by (auto simp: sds_rep_def)

lemma sdsclear_ok: 
  assumes "sds_rep s x"
  shows "\<exists>s'. sdsclear s = Some s' \<and> sds_rep s' []"
proof -
  obtain ys where s: "s = \<lparr>sh_len = length x, sh_free = length ys, sh_buf = x @ 0 # ys\<rparr>" "length x + length ys < 2 ^ 32"
    using assms by (rule sds_repE)
  have "mem_set 0 0 (x @ 0 # ys) = Some (0 # tl (x @ 0 # ys))" by (cases x) (simp_all add: mem_set_def)
  moreover have "\<exists>s'. mk_sds 0 (length ys + length x) ([] @ 0 # tl (x @ 0 # ys)) = Some s' \<and> sds_rep s' []"
    by (rule mk_sds_rep) (use s(2) in simp_all)
  ultimately show ?thesis using s(1) by (simp add: sdsclear_def)
qed

lemma sdsRemoveFreeSpace_ok:
  assumes "sds_rep s x"
  shows "\<exists>s'. sdsRemoveFreeSpace fresh s = Some s' \<and> sds_rep s' x \<and> sdsAllocSize s' = 8 + length x + 1"
proof -
  obtain ys where s: "s = \<lparr>sh_len = length x, sh_free = length ys, sh_buf = x @ 0 # ys\<rparr>" "length x + length ys < 2 ^ 32"
    using assms by (rule sds_repE)
  have "mem_realloc fresh (length x + 1) (x @ 0 # ys) = x @ [0]" by (simp add: mem_realloc_def)
  then show ?thesis using s by (auto simp: sdsRemoveFreeSpace_def mk_sds_def sds_rep_def sdsAllocSize_def)
qed

text \<open>Keeping a prefix \<open>y\<close> of the text in a block of the same size.\<close>

lemma shrink_rep:
  assumes "length x + length ys < 2 ^ 32" "length y \<le> length x" "length zs = length x - length y + length ys"
  shows "\<exists>s'. mk_sds (length y) (length ys + (length x - length y)) (y @ 0 # zs) = Some s' \<and> sds_rep s' y"
  by (rule mk_sds_rep) (use assms in simp_all)

lemma set_prefix:
  assumes "n \<le> length x"
  shows "\<exists>zs. mem_set n 0 (x @ 0 # ys) = Some (take n x @ 0 # zs) \<and> length zs = length x - n + length ys"
proof (cases "n = length x")
  case True
  then show ?thesis using set_end [of x 0 0 ys] by simp
next
  case False
  then have "n < length x" using assms by simp
  then show ?thesis by (simp add: mem_set_def list_update_append upd_conv_take_nth_drop)
qed

lemma sdsIncrLen_shrink_ok:
  assumes "sds_rep s x" "n \<le> length x"
  shows "\<exists>s'. sdsIncrLen s (- int n) = Some s' \<and> sds_rep s' (take (length x - n) x)"
proof (cases "n = 0")
  case True
  then show ?thesis using assms(1) set_end [of x 0 0] by (auto simp: sds_rep_def sdsIncrLen_def mk_sds_def)
next
  case False
  obtain ys where s: "s = \<lparr>sh_len = length x, sh_free = length ys, sh_buf = x @ 0 # ys\<rparr>" "length x + length ys < 2 ^ 32"
    using assms(1) by (rule sds_repE)
  obtain zs where zs: "mem_set (length x - n) 0 (x @ 0 # ys) = Some (take (length x - n) x @ 0 # zs)" "length zs = n + length ys"
    using set_prefix [of "length x - n" x ys] assms(2) by auto
  have "\<exists>s'. mk_sds (length (take (length x - n) x)) (length ys + (length x - length (take (length x - n) x))) (take (length x - n) x @ 0 # zs) = Some s'
      \<and> sds_rep s' (take (length x - n) x)"
    by (rule shrink_rep) (use s(2) zs(2) assms(2) in simp_all)
  moreover have "nat (int (length x) - int n) = length x - n" "nat (int (length ys) + int n) = length ys + n" by simp_all
  ultimately show ?thesis using s(1) zs(1) False assms(2) by (simp add: sdsIncrLen_def Let_def)
qed

lemma sdsgrowzero_ok:
  assumes "sds_rep s x" "n < 2 ^ 31"
  shows "\<exists>s'. sdsgrowzero fresh s n = Some s' \<and> sds_rep s' (x @ replicate (n - length x) 0)"
proof (cases "n \<le> length x")
  case True
  then show ?thesis using assms sds_rep_len [OF assms(1)] by (simp add: sdsgrowzero_def Let_def)
next
  case False
  define k where "k = n - length x"
  have n: "n = length x + k" using False by (simp add: k_def)
  obtain ys where ys: "sdsMakeRoomFor fresh s k = Some \<lparr>sh_len = length x, sh_free = length ys, sh_buf = x @ 0 # ys\<rparr>"
      "k \<le> length ys" "length x + length ys < 2 ^ 32"
    using sdsMakeRoomFor_ok [OF assms(1), of k] assms(2) n by auto
  have "mem_write (length x) (replicate (k + 1) 0) (x @ 0 # ys) = Some (x @ replicate (k + 1) 0 @ drop (k + 1) (0 # ys))"
    using ys(2) by (simp add: mem_write_def)
  also have "x @ replicate (k + 1) 0 @ drop (k + 1) (0 # ys) = (x @ replicate k 0) @ 0 # drop k ys"
    using replicate_append_same [of k "0 :: byte"] by simp
  finally have w: "mem_write (length x) (replicate (k + 1) 0) (x @ 0 # ys) = Some ((x @ replicate k 0) @ 0 # drop k ys)" .
  have "\<exists>s'. mk_sds n (length x + length ys - n) ((x @ replicate k 0) @ 0 # drop k ys) = Some s' \<and> sds_rep s' (x @ replicate k 0)"
    by (rule mk_sds_rep) (use ys(2,3) n in simp_all)
  then show ?thesis using False ys(1) w sds_rep_len [OF assms(1)]
    unfolding sdsgrowzero_def Let_def k_def by (simp only: bind.bind_lunit) simp
qed

lemma sdscpylen_ok:
  assumes "sds_rep s x" "len \<le> length t" "len < 2 ^ 31" "length x < 2 ^ 31"
  shows "\<exists>s'. sdscpylen fresh s t len = Some s' \<and> sds_rep s' (take len t)"
proof -
  obtain ys0 where s: "s = \<lparr>sh_len = length x, sh_free = length ys0, sh_buf = x @ 0 # ys0\<rparr>" "length x + length ys0 < 2 ^ 32"
    using assms(1) by (rule sds_repE)
  obtain ys where ys: "(if sh_free s + sh_len s < len then sdsMakeRoomFor fresh s (len - sh_len s) else Some s)
       = Some \<lparr>sh_len = length x, sh_free = length ys, sh_buf = x @ 0 # ys\<rparr>"
      "len \<le> length x + length ys" "length x + length ys < 2 ^ 32"
  proof (cases "sh_free s + sh_len s < len")
    case True
    then show ?thesis using that sdsMakeRoomFor_ok [OF assms(1), of "len - length x" fresh] s(1) assms(3) by auto
  next
    case False
    then show ?thesis using that s by auto
  qed
  define u where "u = take len t"
  have u: "length u = len" using assms(2) by (simp add: u_def)
  have "length (x @ 0 # ys) > len" using ys(2) by simp
  then obtain d zs where d: "drop len (x @ 0 # ys) = d # zs" "length zs = length x + length ys - len"
    by (metis (no_types, lifting) Cons_nth_drop_Suc One_nat_def add_Suc_right append.right_neutral diff_Suc_Suc length_append length_drop list.size(4) add.right_neutral)
  have "mem_write 0 u (x @ 0 # ys) = Some (u @ d # zs)" using u ys(2) d(1) by (simp add: mem_write_def)
  moreover have "mem_set len 0 (u @ d # zs) = Some (u @ 0 # zs)" using set_end [of u 0 d zs] u by simp
  moreover have "\<exists>s'. mk_sds len (length ys + length x - len) (u @ 0 # zs) = Some s' \<and> sds_rep s' u"
    by (rule mk_sds_rep) (use u d(2) ys in simp_all)
  ultimately show ?thesis using ys(1) assms(2) u
    by (simp add: sdscpylen_def mem_read_def Let_def flip: u_def)
qed


lemma move_front:
  assumes "n + k \<le> length x"
  shows "\<exists>zs. do { buf \<leftarrow> (if n \<noteq> 0 \<and> k \<noteq> 0 then mem_move 0 n k (x @ 0 # ys) else Some (x @ 0 # ys)); mem_set k 0 buf }
     = Some (take k (drop n x) @ 0 # zs) \<and> length zs = length x - k + length ys"
proof (cases "n \<noteq> 0 \<and> k \<noteq> 0")
  case True
  define y where "y = take k (drop n x)"
  have y: "length y = k" using assms by (simp add: y_def)
  have "mem_move 0 n k (x @ 0 # ys) = Some (y @ drop k (x @ 0 # ys))"
    using assms by (simp add: mem_move_def mem_read_def mem_write_def y_def)
  moreover obtain d zs where d: "drop k (x @ 0 # ys) = d # zs" "length zs = length x - k + length ys"
    using assms by (cases "drop k (x @ 0 # ys)") (auto dest: arg_cong [of _ _ length])
  moreover have "mem_set k 0 (y @ d # zs) = Some (y @ 0 # zs)" using set_end [of y 0 d zs] y by simp
  ultimately show ?thesis using True by (simp add: y_def)
next
  case False
  then have "take k (drop n x) = take k x" by auto
  then show ?thesis using False set_prefix [of k x ys] assms by auto
qed

text \<open>The substring with inclusive bounds, which count from the end when they are negative.\<close>

definition substring :: "bytes \<Rightarrow> int \<Rightarrow> int \<Rightarrow> bytes" where
  "substring x start end =
     (let s = (if start < 0 then max 0 (int (length x) + start) else start);
          e = (if end < 0 then max 0 (int (length x) + end) else end) in
      take (nat (e - s + 1)) (drop (nat s) x))"

lemma sdsrange_ok:
  assumes "sds_rep s x"
  shows "\<exists>s'. sdsrange s start end = Some s' \<and> sds_rep s' (substring x start end)"
proof (cases "x = []")
  case True
  then show ?thesis using assms by (auto simp: sds_rep_def sdsrange_def sdslen_def substring_def Let_def)
next
  case False
  obtain ys where s: "s = \<lparr>sh_len = length x, sh_free = length ys, sh_buf = x @ 0 # ys\<rparr>" "length x + length ys < 2 ^ 32"
    using assms by (rule sds_repE)
  define a where "a = (if start < 0 then max 0 (int (length x) + start) else start)"
  define e where "e = (if end < 0 then max 0 (int (length x) + end) else end)"
  have ae: "0 \<le> a" "0 \<le> e" by (simp_all add: a_def e_def)
  define k where "k = (if a > e \<or> a \<ge> int (length x) then 0 else nat (min e (int (length x) - 1) - a + 1))"
  define st where "st = (if a > e then 0 else a)"
  have bounds: "(let newlen = if a > e then 0 else e - a + 1;
        (start, newlen) = (if newlen \<noteq> 0 then if a \<ge> int (length x) then (a, 0)
           else if e \<ge> int (length x) then (a, if a > int (length x) - 1 then 0 else int (length x) - 1 - a + 1) else (a, newlen)
           else (0, newlen)) in (start, newlen)) = (st, int k)"
    using ae by (auto simp: k_def st_def min_def Let_def)
  have run: "sdsrange s start end = do {
      buf \<leftarrow> (if st \<noteq> 0 \<and> int k \<noteq> 0 then mem_move 0 (nat st) (nat (int k)) (x @ 0 # ys) else Some (x @ 0 # ys));
      buf \<leftarrow> mem_set (nat (int k)) 0 buf;
      mk_sds (nat (int k)) (length ys + (length x - nat (int k))) buf }"
    using False s(1) bounds unfolding sdsrange_def
    by (simp add: sdslen_def Let_def a_def [symmetric] e_def [symmetric] split: prod.splits if_splits)
  define n where "n = (if k = 0 then 0 else nat a)"
  have nk: "n + k \<le> length x" using ae by (auto simp: n_def k_def)
  have sub: "substring x start end = take k (drop n x)"
  proof (cases "k = 0")
    case True
    then have "a > e \<or> a \<ge> int (length x)" using ae by (auto simp: k_def split: if_splits)
    then show ?thesis using True ae by (auto simp: substring_def Let_def a_def [symmetric] e_def [symmetric])
  next
    case False
    then have c: "a \<le> e" "a < int (length x)" by (auto simp: k_def split: if_splits)
    have "length (drop (nat a) x) = length x - nat a" by simp
    then have "take (nat (e - a + 1)) (drop (nat a) x) = take (nat (min e (int (length x) - 1) - a + 1)) (drop (nat a) x)"
      using c ae by (cases "e \<le> int (length x) - 1") (auto simp: min_def)
    then show ?thesis using c False by (simp add: substring_def Let_def a_def [symmetric] e_def [symmetric] n_def k_def)
  qed
  have "(if st \<noteq> 0 \<and> int k \<noteq> 0 then mem_move 0 (nat st) (nat (int k)) (x @ 0 # ys) else Some (x @ 0 # ys))
      = (if n \<noteq> 0 \<and> k \<noteq> 0 then mem_move 0 n k (x @ 0 # ys) else Some (x @ 0 # ys))"
    using ae by (auto simp: n_def st_def k_def)
  moreover obtain zs where zs: "do { buf \<leftarrow> (if n \<noteq> 0 \<and> k \<noteq> 0 then mem_move 0 n k (x @ 0 # ys) else Some (x @ 0 # ys)); mem_set k 0 buf }
       = Some (take k (drop n x) @ 0 # zs)" "length zs = length x - k + length ys"
    using move_front [OF nk] by blast
  moreover have "\<exists>s'. mk_sds (length (take k (drop n x))) (length ys + (length x - length (take k (drop n x)))) (take k (drop n x) @ 0 # zs) = Some s'
      \<and> sds_rep s' (take k (drop n x))"
    by (rule shrink_rep) (use s(2) nk zs(2) in simp_all)
  ultimately show ?thesis using run nk unfolding sub by (simp flip: bind_assoc)
qed


definition trim :: "bytes \<Rightarrow> bytes \<Rightarrow> bytes" where
  "trim cset x = rev (dropWhile (in_cset cset) (rev (dropWhile (in_cset cset) x)))"

lemma trimLeft_ok:
  "n + k = length x \<Longrightarrow> trimLeft cset (x @ ys) k n = n + length (takeWhile (in_cset cset) (drop n x))"
proof (induction k arbitrary: n)
  case (Suc k)
  then have "drop n x = x ! n # drop (Suc n) x" by (simp add: Cons_nth_drop_Suc)
  then show ?case using Suc by (simp add: nth_append)
qed simp

lemma trimRight_ok:
  "n < length x \<Longrightarrow> trimRight cset (x @ ys) n =
    (let r = length (dropWhile (in_cset cset) (rev (take (Suc n) x))) in if r = 0 then 0 else r - 1)"
proof (induction n)
  case 0
  then show ?case by (cases x) simp_all
next
  case (Suc n)
  then have "rev (take (Suc (Suc n)) x) = x ! Suc n # rev (take (Suc n) x)" by (simp add: take_Suc_conv_app_nth)
  then show ?case using Suc by (simp add: nth_append Let_def)
qed

lemma trim_split:
  "x = takeWhile P x @ rev (dropWhile P (rev (dropWhile P x))) @ rev (takeWhile P (rev (dropWhile P x)))"
  by (metis append.assoc rev_append rev_rev_ident takeWhile_dropWhile_id)

lemma sdstrim_ok:
  assumes "sds_rep s x"
  shows "\<exists>s'. sdstrim s cset = Some s' \<and> sds_rep s' (trim cset x)"
proof -
  obtain ys where s: "s = \<lparr>sh_len = length x, sh_free = length ys, sh_buf = x @ 0 # ys\<rparr>" "length x + length ys < 2 ^ 32"
    using assms by (rule sds_repE)
  let ?P = "in_cset cset"
  define n where "n = length (takeWhile ?P x)"
  define k where "k = length (trim cset x)"
  define r where "r = rev (takeWhile ?P (rev (dropWhile ?P x)))"
  have x: "x = takeWhile ?P x @ trim cset x @ r" unfolding trim_def r_def by (rule trim_split)
  have nk: "n + k \<le> length x" and y: "take k (drop n x) = trim cset x"
    using arg_cong [OF x, of length] arg_cong [OF x, of "\<lambda>x. take k (drop n x)"] by (simp_all add: n_def k_def)
  have sp: "trimLeft cset (x @ 0 # ys) (length x) 0 = n" using trimLeft_ok [of 0 "length x" x cset "0 # ys"] by (simp add: n_def)
  have len: "(if length x = 0 then 0 else let ep = trimRight cset (x @ 0 # ys) (length x - 1) in if n > ep then 0 else ep - n + 1) = k"
  proof (cases "x = []")
    case True
    then show ?thesis by (simp add: k_def trim_def)
  next
    case False
    define rr where "rr = length (dropWhile ?P (rev x))"
    have ep: "trimRight cset (x @ 0 # ys) (length x - 1) = (if rr = 0 then 0 else rr - 1)"
      using trimRight_ok [of "length x - 1" x cset "0 # ys"] False by (simp add: rr_def Let_def)
    show ?thesis
    proof (cases "\<exists>c\<in>set x. \<not> ?P c")
      case True
      have "rr = n + k"
      proof -
        have tr: "dropWhile ?P x \<noteq> []" using True by (auto simp: dropWhile_eq_Nil_conv)
        then obtain c where c: "c \<in> set (rev (dropWhile ?P x))" "\<not> ?P c"
          by (metis hd_dropWhile hd_in_set set_rev)
        have "dropWhile ?P (rev (dropWhile ?P x) @ rev (takeWhile ?P x)) = dropWhile ?P (rev (dropWhile ?P x)) @ rev (takeWhile ?P x)"
          using c by (rule dropWhile_append1)
        then have "dropWhile ?P (rev x) = rev (trim cset x) @ rev (takeWhile ?P x)"
          unfolding trim_def by (metis rev_append rev_rev_ident takeWhile_dropWhile_id)
        then show ?thesis by (simp add: rr_def n_def k_def)
      qed
      moreover have "k \<noteq> 0"
      proof -
        obtain c where "c \<in> set (dropWhile ?P x)" "\<not> ?P c" using True by (metis dropWhile_eq_Nil_conv hd_dropWhile hd_in_set)
        then have "dropWhile ?P (rev (dropWhile ?P x)) \<noteq> []" by (auto simp: dropWhile_eq_Nil_conv)
        then show ?thesis by (simp add: k_def trim_def)
      qed
      ultimately show ?thesis using False ep by (auto simp: Let_def)
    next
      case all: False
      then have d: "dropWhile ?P x = []" "dropWhile ?P (rev x) = []" by (auto simp: dropWhile_eq_Nil_conv)
      have t: "takeWhile ?P x = x" using takeWhile_dropWhile_id [of ?P x] unfolding d(1) by (metis append.right_neutral)
      have "n = length x" unfolding n_def t ..
      moreover have "k = 0" unfolding k_def trim_def d(1) by simp
      moreover have "rr = 0" unfolding rr_def d(2) by simp
      ultimately show ?thesis using False ep by (auto simp: Let_def)
    qed
  qed
  obtain zs where zs: "do { buf \<leftarrow> (if n \<noteq> 0 then mem_move 0 n k (x @ 0 # ys) else Some (x @ 0 # ys)); mem_set k 0 buf }
       = Some (trim cset x @ 0 # zs)" "length zs = length x - k + length ys"
  proof (cases "k = 0")
    case True
    have "n \<le> length x + 1 + length ys" using nk by simp
    then have mv: "(if n \<noteq> 0 then mem_move 0 n k (x @ 0 # ys) else Some (x @ 0 # ys)) = Some (x @ 0 # ys)"
      using True by (simp add: mem_move_def mem_read_def mem_write_def)
    obtain zs where "mem_set 0 0 (x @ 0 # ys) = Some ([] @ 0 # zs)" "length zs = length x + length ys"
      using set_prefix [of 0 x ys] by auto
    moreover have "trim cset x = []" using True by (simp add: k_def)
    ultimately show ?thesis using that [of zs] True unfolding mv by simp
  next
    case False
    then show ?thesis using that move_front [OF nk, of ys] y by auto
  qed
  have "\<exists>s'. mk_sds (length (trim cset x)) (length ys + (length x - length (trim cset x))) (trim cset x @ 0 # zs) = Some s' \<and> sds_rep s' (trim cset x)"
    by (rule shrink_rep) (use s(2) nk zs(2) in \<open>simp_all add: k_def\<close>)
  moreover have "sdstrim s cset = do {
      buf \<leftarrow> (if n \<noteq> 0 then mem_move 0 n k (x @ 0 # ys) else Some (x @ 0 # ys));
      buf \<leftarrow> mem_set k 0 buf; mk_sds k (length ys + (length x - k)) buf }"
    unfolding sdstrim_def s(1) sdshdr.select_convs Let_def sp len [unfolded Let_def] ..
  ultimately show ?thesis using zs(1) unfolding k_def [symmetric] by (simp flip: bind_assoc)
qed


lemma map_loop:
  "sh_buf s = map g u @ v @ zs \<Longrightarrow>
   for_each [length u..<length u + length v] (\<lambda>j s. do {
     c \<leftarrow> mem_get j (sh_buf s); buf \<leftarrow> mem_set j (g c) (sh_buf s); Some (s\<lparr>sh_buf := buf\<rparr>) }) s
   = Some (s\<lparr>sh_buf := map g (u @ v) @ zs\<rparr>)"
proof (induction v arbitrary: u s)
  case Nil
  then show ?case by simp
next
  case (Cons c v)
  have up: "[length u..<length u + length (c # v)] = length u # [length (u @ [c])..<length (u @ [c]) + length v]"
    by (simp add: upt_rec)
  have "mem_get (length u) (sh_buf s) = Some c"
    "mem_set (length u) (g c) (sh_buf s) = Some (map g (u @ [c]) @ v @ zs)"
    using Cons.prems set_end [of "map g u" "g c" c "v @ zs"] by (simp_all add: mem_get_def nth_append)
  then show ?case unfolding up using Cons.IH [of "s\<lparr>sh_buf := map g (u @ [c]) @ v @ zs\<rparr>" "u @ [c]"] by simp
qed

lemma map_rep:
  assumes "sds_rep s x"
  shows "\<exists>s'. for_each [0..<sdslen s] (\<lambda>j s. do {
     c \<leftarrow> mem_get j (sh_buf s); buf \<leftarrow> mem_set j (g c) (sh_buf s); Some (s\<lparr>sh_buf := buf\<rparr>) }) s = Some s' \<and> sds_rep s' (map g x)"
proof -
  obtain ys where s: "s = \<lparr>sh_len = length x, sh_free = length ys, sh_buf = x @ 0 # ys\<rparr>" "length x + length ys < 2 ^ 32"
    using assms by (rule sds_repE)
  then show ?thesis using map_loop [of s g "[]" x "0 # ys"] by (simp add: sds_rep_def sdslen_def)
qed

lemma sdstolower_ok: "sds_rep s x \<Longrightarrow> \<exists>s'. sdstolower s = Some s' \<and> sds_rep s' (map tolower x)"
  unfolding sdstolower_def by (rule map_rep)

lemma sdstoupper_ok: "sds_rep s x \<Longrightarrow> \<exists>s'. sdstoupper s = Some s' \<and> sds_rep s' (map toupper x)"
  unfolding sdstoupper_def by (rule map_rep)

lemma sdsmapchars_ok:
  "sds_rep s x \<Longrightarrow> n \<le> length from \<Longrightarrow> n \<le> length to \<Longrightarrow>
   \<exists>s'. sdsmapchars s from to n = Some s' \<and> sds_rep s' (map (mapchar from to n) x)"
  using map_rep [of s x "mapchar from to n"] by (simp add: sdsmapchars_def)

text \<open>The order of \<open>sdscmp\<close> is the lexicographic order of unsigned bytes.\<close>

fun lex_sign :: "bytes \<Rightarrow> bytes \<Rightarrow> int" where
  "lex_sign [] [] = 0"
| "lex_sign [] (b # bs) = - 1"
| "lex_sign (a # as) [] = 1"
| "lex_sign (a # as) (b # bs) = (if a < b then - 1 else if b < a then 1 else lex_sign as bs)"

lemma memcmp_lex:
  "sgn (if memcmp (take (min (length x) (length y)) x) (take (min (length x) (length y)) y) = 0 then int (length x) - int (length y)
        else memcmp (take (min (length x) (length y)) x) (take (min (length x) (length y)) y)) = lex_sign x y"
proof (induction x y rule: lex_sign.induct)
  case (4 a as b bs)
  have "a = b \<or> uint a \<noteq> uint b" using unsigned_word_eqI by blast
  then show ?case using 4 by (auto simp: word_less_def sgn_if min_def)
qed (simp_all add: sgn_if)

lemma sdscmp_ok:
  assumes "sds_rep s x" "sds_rep t y"
  shows "\<exists>r. sdscmp s t = Some r \<and> sgn r = lex_sign x y"
proof -
  obtain u v where "s = \<lparr>sh_len = length x, sh_free = length u, sh_buf = x @ 0 # u\<rparr>"
      "t = \<lparr>sh_len = length y, sh_free = length v, sh_buf = y @ 0 # v\<rparr>"
    using assms by (auto simp: sds_rep_def)
  moreover have "(if length x < length y then length x else length y) = min (length x) (length y)" by simp
  moreover have "min (length x) (length y) \<le> length x" "min (length x) (length y) \<le> length y" by simp_all
  ultimately show ?thesis using memcmp_lex [of x y]
    by (auto simp: le_SucI trans_le_add1 sdscmp_def sdslen_def mem_read_def Let_def split: if_splits)
qed

section \<open>Splitting and joining\<close>

fun intersperse_concat :: "bytes \<Rightarrow> bytes list \<Rightarrow> bytes" where
  "intersperse_concat sep [] = []"
| "intersperse_concat sep [t] = t"
| "intersperse_concat sep (t # u # ts) = t @ sep @ intersperse_concat sep (u # ts)"

lemma intersperse_snoc: "ts \<noteq> [] \<Longrightarrow> intersperse_concat sep (ts @ [t]) = intersperse_concat sep ts @ sep @ t"
  by (induction sep ts rule: intersperse_concat.induct) auto

lemma splitLoop_join:
  "sep \<noteq> [] \<Longrightarrow> start \<le> j \<Longrightarrow> j \<le> length s \<Longrightarrow>
   take start s = (if tokens = [] then [] else intersperse_concat sep tokens @ sep) \<Longrightarrow>
   intersperse_concat sep (splitLoop s sep start j tokens) = s"
proof (induction s sep start j tokens rule: splitLoop.induct)
  case (1 s sep start j tokens)
  have tok: "take start s @ take (k - start) (drop start s) = take k s" if "start \<le> k" for k
    using that by (metis le_add_diff_inverse take_add)
  show ?case
  proof (cases "j < length s - (length sep - 1)")
    case False
    have "intersperse_concat sep (tokens @ [take (length s - start) (drop start s)]) = take start s @ take (length s - start) (drop start s)"
      using 1(6) by (cases "tokens = []") (auto simp: intersperse_snoc)
    also have "\<dots> = s" using tok [of "length s"] 1(4,5) by simp
    finally show ?thesis using False 1(3) by (subst splitLoop.simps) simp
  next
    case True
    have j': "j + length sep \<le> length s" using True 1(3) by (cases sep) auto
    show ?thesis
    proof (cases "take (length sep) (drop j s) = sep")
      case sepr: True
      have "take (j + length sep) s = take j s @ sep" using sepr by (simp add: take_add)
      then have "take (j + length sep) s = intersperse_concat sep (tokens @ [take (j - start) (drop start s)]) @ sep"
        using tok [OF 1(4)] 1(6) by (cases "tokens = []") (simp_all add: intersperse_snoc)
      then show ?thesis using 1(1) [OF _ True sepr 1(3)] sepr True 1(3) j' by (subst splitLoop.simps) simp
    next
      case False
      have "intersperse_concat sep (splitLoop s sep start (j + 1) tokens) = s"
        by (rule 1(2) [OF _ True False 1(3) _ _ 1(6)]) (use 1(3,4) j' in \<open>cases sep; simp\<close>)+
      then show ?thesis using False True 1(3) by (subst splitLoop.simps) simp
    qed
  qed
qed


section \<open>Quoting and splitting\<close>

definition quoted :: "bytes \<Rightarrow> bytes" where
  "quoted x = 34 # concat (map reprChar x) @ [34]"

lemma catreprLoop_ok:
  "sds_rep s x \<Longrightarrow> length x + length (concat (map reprChar p)) < 2 ^ 31 \<Longrightarrow>
   \<exists>s'. catreprLoop fresh s p = Some s' \<and> sds_rep s' (x @ concat (map reprChar p))"
proof (induction p arbitrary: s x)
  case (Cons c p)
  obtain s1 where "sdscatlen fresh s (reprChar c) (length (reprChar c)) = Some s1" "sds_rep s1 (x @ reprChar c)"
    using sdscatlen_ok [OF Cons.prems(1), of "length (reprChar c)" "reprChar c" fresh] Cons.prems(2) by auto
  then show ?case using Cons.IH [of s1 "x @ reprChar c"] Cons.prems(2) by simp
qed simp

lemma sdscatrepr_ok:
  assumes "sds_rep s x" "length x + length (quoted p) < 2 ^ 31"
  shows "\<exists>s'. sdscatrepr fresh s p = Some s' \<and> sds_rep s' (x @ quoted p)"
proof -
  have len: "length (quoted p) = length (concat (map reprChar p)) + 2" by (simp add: quoted_def)
  obtain s1 where s1: "sdscatlen fresh s [34] 1 = Some s1" "sds_rep s1 (x @ [34])"
    using sdscatlen_ok [OF assms(1), of 1 "[34]" fresh] assms(2) len by auto
  obtain s2 where s2: "catreprLoop fresh s1 p = Some s2" "sds_rep s2 ((x @ [34]) @ concat (map reprChar p))"
    using catreprLoop_ok [OF s1(2), of p fresh] assms(2) len by auto
  obtain s3 where "sdscatlen fresh s2 [34] 1 = Some s3" "sds_rep s3 (((x @ [34]) @ concat (map reprChar p)) @ [34])"
    using sdscatlen_ok [OF s2(2), of 1 "[34]" fresh] assms(2) len by auto
  then show ?thesis using s1(1) s2(1) by (simp add: sdscatrepr_def quoted_def)
qed

lemma hex_digits:
  "list_all (\<lambda>d. is_hex_digit (hexchar d) \<and> hex_digit_to_int (hexchar d) = d \<and> hexchar d \<noteq> 0) (map word_of_nat [0..<16])"
  by code_simp

lemma hex_digit_ok:
  assumes "(d :: byte) < 16"
  shows "is_hex_digit (hexchar d)" "hex_digit_to_int (hexchar d) = d" "hexchar d \<noteq> 0"
proof -
  have "unat d < 16" using assms by (simp add: word_less_nat_alt)
  then have "word_of_nat (unat d) \<in> set (map (word_of_nat :: nat \<Rightarrow> byte) [0..<16])"
    unfolding set_map set_upt by (intro imageI) simp
  then have "d \<in> set (map word_of_nat [0..<16])" by simp
  then show "is_hex_digit (hexchar d)" "hex_digit_to_int (hexchar d) = d" "hexchar d \<noteq> 0"
    using hex_digits unfolding list_all_iff by blast+
qed

lemma hex_roundtrip:
  "is_hex_digit (hexchar (c div 16))" "is_hex_digit (hexchar (c mod 16))"
  "hex_digit_to_int (hexchar (c div 16)) * 16 + hex_digit_to_int (hexchar (c mod 16)) = c"
  "hexchar (c div 16) \<noteq> 0" "hexchar (c mod 16) \<noteq> 0"
proof -
  have "unat c < 256" using unsigned_less [of c] by simp
  then have "unat c div 16 < 16" by simp
  then have "c div 16 < 16" "c mod 16 < 16" by (simp_all add: word_less_nat_alt unat_div unat_mod)
  then show "is_hex_digit (hexchar (c div 16))" "is_hex_digit (hexchar (c mod 16))"
    "hex_digit_to_int (hexchar (c div 16)) * 16 + hex_digit_to_int (hexchar (c mod 16)) = c"
    "hexchar (c div 16) \<noteq> 0" "hexchar (c mod 16) \<noteq> 0"
    by (simp_all add: hex_digit_ok div_mult_mod_eq)
qed

lemma reprChar_nz: "0 \<notin> set (reprChar c)"
  using hex_roundtrip(4,5) [of c] unfolding reprChar_def isprint_def by (simp split: if_split) auto

lemma tokenDq_hex:
  assumes "is_hex_digit a" "is_hex_digit b"
  shows "tokenDq cur (92 # 120 # a # b # t) = tokenDq (cur @ [hex_digit_to_int a * 16 + hex_digit_to_int b]) t"
  using assms by (subst tokenDq.simps) (simp del: tokenDq.simps)

lemma tokenDq_escape: "d \<noteq> 120 \<Longrightarrow> tokenDq cur (92 # d # t) = tokenDq (cur @ [unescape d]) t"
  by (subst tokenDq.simps) (simp del: tokenDq.simps)

lemma tokenDq_plain: "c \<noteq> 92 \<Longrightarrow> c \<noteq> 34 \<Longrightarrow> tokenDq cur (c # t) = tokenDq (cur @ [c]) t"
  by (subst tokenDq.simps) (simp del: tokenDq.simps)

lemma tokenDq_close: "tokenDq cur (34 # t) = (if at_end t then Some (cur, t) else None)"
  by (subst tokenDq.simps) (simp del: tokenDq.simps)

lemma tokenDq_reprChar: "tokenDq cur (reprChar c @ t) = tokenDq (cur @ [c]) t"
proof -
  consider "c = 92" | "c = 34" | "c = 10" | "c = 13" | "c = 9" | "c = 7" | "c = 8"
    | "c \<notin> {92, 34, 10, 13, 9, 7, 8}" by blast
  then show ?thesis
  proof cases
    case 8
    then show ?thesis using tokenDq_hex [OF hex_roundtrip(1,2), of cur c c t] hex_roundtrip(3) [of c]
      by (cases "isprint c") (simp_all add: reprChar_def tokenDq_plain del: tokenDq.simps)
  qed (simp_all add: reprChar_def tokenDq_escape unescape_def del: tokenDq.simps)
qed

lemma tokenDq_repr:
  "tokenDq cur (concat (map reprChar x) @ 34 # rest) = (if at_end rest then Some (cur @ x, rest) else None)"
  by (induction x arbitrary: cur) (simp_all add: tokenDq_reprChar tokenDq_close del: tokenDq.simps)

lemma splitargs_quoted:
  "at_end rest \<Longrightarrow> splitargsLoop (quoted x @ rest) vec = splitargsLoop rest (vec @ [x])"
  using tokenDq_repr [of "[]" x rest]
  by (subst splitargsLoop.simps) (simp add: quoted_def isspace_def)

lemma splitargs_space: "splitargsLoop (32 # rest) vec = splitargsLoop rest vec"
  by (subst (1 2) splitargsLoop.simps) (simp add: isspace_def)

lemma splitargs_join: "splitargsLoop (intersperse_concat [32] (map quoted xs)) vec = Some (vec @ xs)"
proof (induction xs arbitrary: vec rule: induct_list012)
  case 1
  then show ?case by (subst splitargsLoop.simps) simp
next
  case (2 x)
  then show ?case using splitargs_quoted [of "[]" x vec] by (simp add: at_end_def) (subst splitargsLoop.simps, simp)
next
  case (3 x y zs)
  have "at_end ([32] @ intersperse_concat [32] (map quoted (y # zs)))" by (simp add: at_end_def isspace_def)
  then show ?case using splitargs_quoted 3 by (simp add: splitargs_space)
qed

lemma quoted_nz: "0 \<notin> set (quoted x)"
  using reprChar_nz by (auto simp: quoted_def)

lemma intersperse_nz: "0 \<notin> set sep \<Longrightarrow> \<forall>x\<in>set xs. 0 \<notin> set x \<Longrightarrow> 0 \<notin> set (intersperse_concat sep xs)"
  by (induction sep xs rule: intersperse_concat.induct) auto

lemma sdssplitargs_join: "sdssplitargs (intersperse_concat [32] (map quoted xs)) = Some xs"
  using splitargs_join [of xs "[]"] intersperse_nz [of "[32]" "map quoted xs"] quoted_nz
  by (simp add: sdssplitargs_def c_str_id)

section \<open>Numbers\<close>

lemma rev_digitsRev: "rev (digitsRev v) = dec (unat v)"
proof (induction v rule: digitsRev.induct)
  case (1 v)
  have d: "unat (v div 10) = unat v div 10" "unat (v mod 10) = unat v mod 10" by (simp_all add: unat_div unat_mod)
  have "(ucast (v mod 10) :: byte) = word_of_nat (unat (v mod 10))" by simp
  then have c: "48 + ucast (v mod 10) = (48 + word_of_nat (unat v mod 10) :: byte)" using d(2) by simp
  show ?case
  proof (cases "v div 10 = 0")
    case True
    then have "unat v div 10 = 0" using d(1) by simp
    then have "unat v < 10" by simp
    then show ?thesis using True c by (subst digitsRev.simps) (simp add: dec_small)
  next
    case False
    then have "10 \<le> unat v" using d(1) by (metis div_eq_0_iff not_less unat_eq_0)
    then show ?thesis using False c 1 d(1) by (subst digitsRev.simps) (simp add: dec_step)
  qed
qed


lemma reverseLoop_ok: "m \<noteq> [] \<Longrightarrow> reverseLoop (a @ m @ b) (length a) (length a + length m - 1) = a @ rev m @ b"
proof (induction "length m" arbitrary: a m b rule: less_induct)
  case less
  show ?case
  proof (cases "length m \<le> 1")
    case True
    then obtain x where "m = [x]" using less.prems by (cases m) auto
    then show ?thesis by (subst reverseLoop.simps) simp
  next
    case False
    then obtain x n y where m: "m = x # n @ [y]"
      by (cases m; cases "tl m" rule: rev_cases) auto
    have sw: "(a @ (x # n @ [y]) @ b)[length a := y, length a + length n + 1 := x] = (a @ [y]) @ n @ (x # b)"
      by (simp add: list_update_append)
    have step: "reverseLoop (a @ m @ b) (length a) (length a + length m - 1) =
        reverseLoop ((a @ [y]) @ n @ (x # b)) (length a + 1) (length a + length n)"
      using sw by (subst reverseLoop.simps) (simp add: m nth_append Let_def)
    show ?thesis
    proof (cases "n = []")
      case True
      then show ?thesis using step m by (simp add: reverseLoop.simps [of _ "Suc (length a)"])
    next
      case False
      then show ?thesis using step less.hyps [of n "a @ [y]" "x # b"] m by simp
    qed
  qed
qed

lemma conv_ok:
  assumes "xs \<noteq> []" "length xs < length s"
  shows "\<exists>s'. mem_write 0 (xs @ [0]) s = Some s' \<and> reverseLoop s' 0 (length xs - 1) = rev xs @ 0 # drop (Suc (length xs)) s"
  using reverseLoop_ok [of xs "[]" "0 # drop (Suc (length xs)) s"] assms by (simp add: mem_write_def)

lemma digitsRev_ne: "digitsRev v \<noteq> []"
  by (subst digitsRev.simps) simp

lemma length_dec_u64: "length (dec (unat (v :: u64))) \<le> 20"
proof -
  have "unat v < 10 ^ Suc 19" using unat_less64 [of v] by simp
  then show ?thesis using length_dec_le [of "unat v" 19] by simp
qed

lemma length_digitsRev: "length (digitsRev v) = length (dec (unat v))"
  using arg_cong [OF rev_digitsRev [of v], of length] by simp

lemma sdsull2str_ok:
  assumes "21 \<le> length s"
  shows "sdsull2str s v = Some (dec (unat v) @ 0 # drop (Suc (length (dec (unat v)))) s, length (dec (unat v)))"
  using conv_ok [OF digitsRev_ne, of v s] assms length_dec_u64 [of v]
  by (auto simp: sdsull2str_def length_digitsRev rev_digitsRev Let_def)

lemma ll_magnitude:
  "v <s 0 \<Longrightarrow> unat (- v :: i64) = nat (- sint v)"
  "\<not> v <s 0 \<Longrightarrow> unat (v :: i64) = nat (sint v)"
proof -
  show "unat (- v) = nat (- sint v)" if "v <s 0"
  proof -
    have "(if v \<noteq> LLONG_MIN then - v else 0x7fffffffffffffff + 1) = - v" by simp
    then show ?thesis using ll2string_value(1) [OF that] by (simp only:)
  qed
  show "unat v = nat (sint v)" if "\<not> v <s 0"
    using that by (rule ll2string_value(2))
qed

lemma length_print_ll: "length (print_ll v) \<le> 20"
proof -
  have "nat (- sint v) < 10 ^ Suc 18" "nat (sint v) < 10 ^ Suc 18"
    using sint_lt [of v] sint_greater_eq [of v] by simp_all
  then show ?thesis using length_dec_le [of "nat (- sint v)" 18] length_dec_le [of "nat (sint v)" 18]
    by (simp add: print_ll_def)
qed

lemma sdsll2str_ok:
  assumes "21 \<le> length s"
  shows "sdsll2str s v = Some (print_ll v @ 0 # drop (Suc (length (print_ll v))) s, length (print_ll v))"
proof -
  define xs where "xs = digitsRev (if v <s 0 then - v else v) @ (if v <s 0 then [45] else [])"
  have r: "rev xs = print_ll v"
    using ll_magnitude [of v] by (simp add: xs_def rev_digitsRev print_ll_def)
  then have l: "length xs = length (print_ll v)" by (metis length_rev)
  have "xs \<noteq> []" by (simp add: xs_def digitsRev_ne)
  then obtain s' where "mem_write 0 (xs @ [0]) s = Some s'"
      "reverseLoop s' 0 (length (print_ll v) - 1) = print_ll v @ 0 # drop (Suc (length (print_ll v))) s"
    using conv_ok [of xs s] assms length_print_ll [of v] r l by auto
  then show ?thesis unfolding sdsll2str_def Let_def xs_def [symmetric] l by (simp only: bind.bind_lunit)
qed

lemma sdsfromlonglong_ok: "\<exists>s. sdsfromlonglong fresh v = Some s \<and> sds_rep s (print_ll v)"
proof -
  let ?b = "print_ll v @ 0 # drop (Suc (length (print_ll v))) (mem_alloc fresh 21)"
  have "\<exists>s. sdsnewlen fresh (Some ?b) (length (print_ll v)) = Some s \<and> sds_rep s (take (length (print_ll v)) ?b)"
    by (rule sdsnewlen_ok) (use length_print_ll [of v] in simp_all)
  then show ?thesis using sdsll2str_ok [of "mem_alloc fresh 21" v] by (simp add: sdsfromlonglong_def)
qed


section \<open>Formats\<close>

definition arg_text :: "byte \<Rightarrow> fmt_arg \<Rightarrow> bytes option" where
  "arg_text next arg =
     (case arg of
        FStr t \<Rightarrow> if next = 115 then Some (c_str t) else None
      | FSds t \<Rightarrow> if next = 83 then Some (sds_text t) else None
      | FInt n \<Rightarrow> if next = 105 then Some (print_ll (scast n)) else None
      | FLong n \<Rightarrow> if next = 73 then Some (print_ll n) else None
      | FUInt n \<Rightarrow> if next = 117 then Some (dec (unat n)) else None
      | FULong n \<Rightarrow> if next = 85 then Some (dec (unat n)) else None)"

fun fmt_text :: "bytes \<Rightarrow> fmt_arg list \<Rightarrow> bytes option" where
  "fmt_text [] args = Some []"
| "fmt_text (c # f) args =
     (if c \<noteq> 37 then map_option ((#) c) (fmt_text f args)
      else (case f of
          [] \<Rightarrow> None
        | next # f \<Rightarrow>
            if \<not> is_spec next then map_option ((#) next) (fmt_text f args)
            else (case args of
                [] \<Rightarrow> None
              | arg # args \<Rightarrow> do { t \<leftarrow> arg_text next arg; u \<leftarrow> fmt_text f args; Some (t @ u) })))"

definition arg_ok :: "fmt_arg \<Rightarrow> bool" where
  "arg_ok arg \<longleftrightarrow> (case arg of FSds t \<Rightarrow> sds_rep t (sds_text t) | _ \<Rightarrow> True)"

text \<open>During the loop the text is not terminated.\<close>

definition sds_open :: "sdshdr \<Rightarrow> bytes \<Rightarrow> bool" where
  "sds_open s x \<longleftrightarrow> (\<exists>d ys. s = \<lparr>sh_len = length x, sh_free = length ys, sh_buf = x @ d # ys\<rparr> \<and> length x + length ys < 2 ^ 32)"

lemma fmtPut_ok:
  assumes "sds_open s x" "length x + l < 2 ^ 31" "l \<le> length t"
  shows "\<exists>s'. fmtPut fresh s t l = Some s' \<and> sds_open s' (x @ take l t)"
proof -
  obtain d zs where s: "s = \<lparr>sh_len = length x, sh_free = length zs, sh_buf = x @ d # zs\<rparr>" "length x + length zs < 2 ^ 32"
    using assms(1) unfolding sds_open_def by (elim exE conjE)
  obtain ys where ys: "sdsMakeRoomFor fresh s l = Some \<lparr>sh_len = length x, sh_free = length ys, sh_buf = x @ d # ys\<rparr>"
      "l \<le> length ys" "length x + length ys < 2 ^ 32"
    using sdsMakeRoomFor_open [OF s assms(2), of fresh] by (elim exE conjE)
  have room: "(if sh_free s < l then sdsMakeRoomFor fresh s l else Some s) = sdsMakeRoomFor fresh s l"
    by (simp add: sdsMakeRoomFor_def sdsavail_def)
  obtain e where e: "drop l (d # ys) = e # drop l ys" using drop_Cons_ex [of "take l t" ys d] ys(2) assms(3) by auto
  have "mem_write (length x) (take l t) (x @ d # ys) = Some ((x @ take l t) @ e # drop l ys)"
    using ys(2) assms(3) e by (simp add: mem_write_def)
  then have "fmtPut fresh s t l = Some \<lparr>sh_len = length x + l, sh_free = length ys - l, sh_buf = (x @ take l t) @ e # drop l ys\<rparr>"
    using ys assms(3) room unfolding fmtPut_def by (simp add: mem_read_def mk_sds_def)
  moreover have "sds_open \<lparr>sh_len = length x + l, sh_free = length ys - l, sh_buf = (x @ take l t) @ e # drop l ys\<rparr> (x @ take l t)"
    unfolding sds_open_def by (rule exI [of _ e], rule exI [of _ "drop l ys"]) (use ys assms(3) in simp)
  ultimately show ?thesis by blast
qed


lemma sds_openE:
  assumes "sds_open s x"
  obtains d ys where "s = \<lparr>sh_len = length x, sh_free = length ys, sh_buf = x @ d # ys\<rparr>" "length x + length ys < 2 ^ 32"
  using assms unfolding sds_open_def by blast

lemma putChar_ok:
  assumes "sds_open s x" "sh_free s \<noteq> 0"
  shows "\<exists>s'. putChar s c = Some s' \<and> sds_open s' (x @ [c])"
proof -
  obtain d ys where s: "s = \<lparr>sh_len = length x, sh_free = length ys, sh_buf = x @ d # ys\<rparr>" "length x + length ys < 2 ^ 32"
    using assms(1) by (rule sds_openE)
  obtain e zs where ys: "ys = e # zs" using assms(2) s(1) by (cases ys) auto
  have "putChar s c = Some \<lparr>sh_len = length (x @ [c]), sh_free = length zs, sh_buf = (x @ [c]) @ e # zs\<rparr>"
    using s ys by (simp add: putChar_def set_end mk_sds_def)
  then show ?thesis using s(2) ys unfolding sds_open_def by simp
qed

lemma room_open:
  assumes "sds_open s x" "length x + 1 < 2 ^ 31"
  shows "\<exists>s'. (if sh_free s = 0 then sdsMakeRoomFor fresh s 1 else Some s) = Some s' \<and> sds_open s' x \<and> sh_free s' \<noteq> 0"
proof (cases "sh_free s = 0")
  case True
  obtain d zs where s: "s = \<lparr>sh_len = length x, sh_free = length zs, sh_buf = x @ d # zs\<rparr>" "length x + length zs < 2 ^ 32"
    using assms(1) by (rule sds_openE)
  obtain ys where ys: "sdsMakeRoomFor fresh s 1 = Some \<lparr>sh_len = length x, sh_free = length ys, sh_buf = x @ d # ys\<rparr>"
      "1 \<le> length ys" "length x + length ys < 2 ^ 32"
    using sdsMakeRoomFor_open [OF s assms(2), of fresh] by (elim exE conjE)
  then have "sds_open \<lparr>sh_len = length x, sh_free = length ys, sh_buf = x @ d # ys\<rparr> x" unfolding sds_open_def by blast
  moreover have "length ys \<noteq> 0" using ys(2) by linarith
  ultimately show ?thesis using ys(1) True by simp
qed (use assms in simp)

lemma sds_open_rep: "sds_rep s x \<Longrightarrow> sds_open s x"
  unfolding sds_rep_def sds_open_def by blast

lemma unat_ucast_u32: "unat (ucast (n :: u32) :: u64) = unat n"
proof -
  have "unat n < 2 ^ LENGTH(32)" by (rule unsigned_less)
  then show ?thesis by (simp add: unsigned_ucast_eq take_bit_nat_eq_self_iff)
qed

lemma fmtArg_ok:
  assumes "sds_open s x" "arg_text next arg = Some t" "arg_ok arg" "length x + length t < 2 ^ 31"
  shows "\<exists>s'. fmtArg fresh next arg s = Some s' \<and> sds_open s' (x @ t)"
proof -
  have put: "\<exists>s'. fmtPut fresh s (t @ u) (length t) = Some s' \<and> sds_open s' (x @ t)" for u
    using fmtPut_ok [OF assms(1,4), of "t @ u" fresh] by simp
  show ?thesis
  proof (cases arg)
    case (FStr p)
    then have "t = c_str p" "next = 115" using assms(2) by (auto simp: arg_text_def split: if_splits)
    then show ?thesis using fmtPut_ok [OF assms(1,4), of p fresh] length_c_str [of p] FStr by (simp add: fmtArg_def)
  next
    case (FSds p)
    then have p: "sds_rep p t" "next = 83" using assms(2,3) by (auto simp: arg_text_def arg_ok_def split: if_splits)
    obtain zs where "p = \<lparr>sh_len = length t, sh_free = length zs, sh_buf = t @ 0 # zs\<rparr>" using p(1) by (rule sds_repE)
    then show ?thesis using put [of "0 # zs"] p(2) FSds by (simp add: fmtArg_def sdslen_def)
  qed (use assms(2) put in \<open>auto simp: arg_text_def fmtArg_def sdsll2str_ok sdsull2str_ok unat_ucast_u32 split: if_splits\<close>)
qed

lemma catfmtLoop_ok:
  "sds_open s x \<Longrightarrow> fmt_text f args = Some t \<Longrightarrow> list_all arg_ok args \<Longrightarrow> length x + length t + 1 < 2 ^ 31 \<Longrightarrow>
   \<exists>s'. catfmtLoop fresh f args s = Some s' \<and> sds_rep s' (x @ t)"
proof (induction "length f" arbitrary: f args s x t rule: less_induct)
  case less
  show ?case
  proof (cases f)
    case Nil
    obtain d ys where "s = \<lparr>sh_len = length x, sh_free = length ys, sh_buf = x @ d # ys\<rparr>" "length x + length ys < 2 ^ 32"
      using less.prems(1) by (rule sds_openE)
    then show ?thesis using Nil less.prems(2) by (simp add: set_end sds_rep_def)
  next
    case (Cons c f1)
    have "length x + 1 < 2 ^ 31" using less.prems(4) by simp
    from room_open [OF less.prems(1) this, of fresh]
    obtain s1 where s1: "(if sh_free s = 0 then sdsMakeRoomFor fresh s 1 else Some s) = Some s1" "sds_open s1 x" "sh_free s1 \<noteq> 0"
      by (elim exE conjE)
    have char: "\<exists>s'. do { s \<leftarrow> putChar s1 e; catfmtLoop fresh g args s } = Some s' \<and> sds_rep s' (x @ t)"
      if g: "length g < length f" "fmt_text g args = Some u" "t = e # u" for e g u
    proof -
      obtain s2 where s2: "putChar s1 e = Some s2" "sds_open s2 (x @ [e])" using putChar_ok [OF s1(2,3), of e] by (elim exE conjE)
      then show ?thesis using less.hyps [OF g(1) s2(2) g(2) less.prems(3)] less.prems(4) g(3) by simp
    qed
    consider (plain) "c \<noteq> 37" | (esc) n g where "c = 37" "f1 = n # g" "\<not> is_spec n"
      | (spec) n g a as where "c = 37" "f1 = n # g" "is_spec n" "args = a # as"
      using less.prems(2) Cons by (auto split: list.splits if_splits)
    then show ?thesis
    proof cases
      case plain
      then obtain u where "fmt_text f1 args = Some u" "t = c # u" using less.prems(2) Cons by auto
      then show ?thesis using char [of f1 u c] plain Cons s1(1) by simp
    next
      case esc
      then obtain u where "fmt_text g args = Some u" "t = n # u" using less.prems(2) Cons by auto
      then show ?thesis using char [of g u n] esc Cons s1(1) by simp
    next
      case spec
      then obtain v u where u: "arg_text n a = Some v" "fmt_text g as = Some u" "t = v @ u" using less.prems(2) Cons
        by (auto split: bind_splits)
      have ok: "arg_ok a" "list_all arg_ok as" "length x + length v < 2 ^ 31" using less.prems(3,4) spec u by auto
      obtain s2 where s2: "fmtArg fresh n a s1 = Some s2" "sds_open s2 (x @ v)"
        using fmtArg_ok [OF s1(2) u(1) ok(1,3), of fresh] by (elim exE conjE)
      then show ?thesis using less.hyps [OF _ s2(2) u(2) ok(2)] less.prems(4) u(3) spec Cons s1(1) by simp
    qed
  qed
qed

lemma sdscatfmt_ok:
  assumes "sds_rep s x" "fmt_text (c_str fmt) args = Some t" "list_all arg_ok args" "length x + length t + 1 < 2 ^ 31"
  shows "\<exists>s'. sdscatfmt fresh s fmt args = Some s' \<and> sds_rep s' (x @ t)"
  unfolding sdscatfmt_def by (rule catfmtLoop_ok [OF sds_open_rep [OF assms(1)] assms(2-4)])

lemma joinLoop_ok:
  "sds_rep j x \<Longrightarrow> length x + length (intersperse_concat (c_str sep) (map c_str argv)) < 2 ^ 31 \<Longrightarrow>
   \<exists>j'. joinLoop fresh argv sep j = Some j' \<and> sds_rep j' (x @ intersperse_concat (c_str sep) (map c_str argv))"
proof (induction argv arbitrary: j x rule: induct_list012)
  case (2 a)
  then show ?case using sdscat_ok [of j x a fresh] by auto
next
  case (3 a b as)
  obtain j1 where j1: "sdscat fresh j a = Some j1" "sds_rep j1 (x @ c_str a)"
    using sdscat_ok [OF 3(3), of a fresh] 3(4) by auto
  obtain j2 where "sdscat fresh j1 sep = Some j2" "sds_rep j2 ((x @ c_str a) @ c_str sep)"
    using sdscat_ok [OF j1(2), of sep fresh] 3(4) by auto
  then show ?case using 3(2) [of j2 "(x @ c_str a) @ c_str sep"] j1(1) 3(4) by simp
qed simp

lemma sdsjoin_ok:
  assumes "length (intersperse_concat (c_str sep) (map c_str argv)) < 2 ^ 31"
  shows "\<exists>j. sdsjoin fresh argv sep = Some j \<and> sds_rep j (intersperse_concat (c_str sep) (map c_str argv))"
proof -
  obtain e where "sdsempty fresh = Some e" "sds_rep e []" using sdsempty_ok by blast
  then show ?thesis using joinLoop_ok [of e "[]" sep argv fresh] assms by (simp add: sdsjoin_def)
qed


section \<open>The command lines shown to monitors\<close>

text \<open>
  The loop of \<open>replicationFeedMonitors\<close> over the arguments of a command; an
  argument is an integer encoded or a string object.
\<close>

datatype mon_arg = ArgInt i64 | ArgStr bytes

fun feedArgsLoop :: "fresh_mem \<Rightarrow> mon_arg list \<Rightarrow> sdshdr \<Rightarrow> sdshdr option" where
  "feedArgsLoop fresh [] cmdrepr = Some cmdrepr"
| "feedArgsLoop fresh (a # argv) cmdrepr = do {
     cmdrepr \<leftarrow> (case a of
         ArgInt n \<Rightarrow> sdscat fresh cmdrepr (34 # print_ll n @ [34, 0])
       | ArgStr p \<Rightarrow> sdscatrepr fresh cmdrepr p);
     cmdrepr \<leftarrow> (if argv \<noteq> [] then sdscatlen fresh cmdrepr [32] 1 else Some cmdrepr);
     feedArgsLoop fresh argv cmdrepr }"

fun mon_text :: "mon_arg \<Rightarrow> bytes" where
  "mon_text (ArgInt n) = print_ll n"
| "mon_text (ArgStr p) = p"

lemma dec_digits: "\<forall>c\<in>set (dec n). 48 \<le> c \<and> c \<le> 57"
proof (induction n rule: dec.induct)
  case (1 n)
  have "\<forall>d<10. 48 \<le> (48 + word_of_nat d :: byte) \<and> (48 + word_of_nat d :: byte) \<le> 57"
    by (simp add: word_le_nat_alt unat_word_ariths unat_of_nat take_bit_nat_def)
  then have "48 \<le> (48 + word_of_nat (n mod 10) :: byte)" "(48 + word_of_nat (n mod 10) :: byte) \<le> 57" by simp_all
  then show ?case using 1 dec_small [of n] dec_step [of n] by (cases "n < 10") simp_all
qed

lemma reprChar_plain: "48 \<le> c \<and> c \<le> 57 \<or> c = 45 \<Longrightarrow> reprChar c = [c]"
  using order_trans [of 32 48 c] order_trans [of c 57 126] by (auto simp: reprChar_def isprint_def)

lemma print_ll_chars: "c \<in> set (print_ll n) \<Longrightarrow> 48 \<le> c \<and> c \<le> 57 \<or> c = 45"
  using dec_digits by (auto simp: print_ll_def split: if_splits)

lemma concat_repr_plain: "(\<And>c. c \<in> set x \<Longrightarrow> 48 \<le> c \<and> c \<le> 57 \<or> c = 45) \<Longrightarrow> concat (map reprChar x) = x"
proof (induction x)
  case (Cons c x)
  then show ?case using reprChar_plain [of c] by simp
qed simp

lemma quoted_int: "quoted (print_ll n) = 34 # print_ll n @ [34]"
  unfolding quoted_def by (simp add: concat_repr_plain [OF print_ll_chars])

lemma feedArg_ok:
  assumes "sds_rep s x" "length x + length (quoted (mon_text a)) < 2 ^ 31"
  shows "\<exists>s'. (case a of ArgInt n \<Rightarrow> sdscat fresh s (34 # print_ll n @ [34, 0]) | ArgStr p \<Rightarrow> sdscatrepr fresh s p) = Some s'
    \<and> sds_rep s' (x @ quoted (mon_text a))"
proof (cases a)
  case (ArgInt n)
  have nz: "0 \<notin> set (34 # print_ll n @ [34])" using print_ll_chars [of 0 n] by auto
  then have "c_str ((34 # print_ll n @ [34]) @ [0]) = 34 # print_ll n @ [34]"
    unfolding c_str_def by (subst takeWhile_append2) auto
  then show ?thesis using sdscat_ok [OF assms(1), of "34 # print_ll n @ [34, 0]" fresh] assms(2) ArgInt
    by (simp add: quoted_int)
next
  case (ArgStr p)
  then show ?thesis using sdscatrepr_ok [OF assms(1), of p fresh] assms(2) by simp
qed

lemma feedArgsLoop_ok:
  "sds_rep s x \<Longrightarrow> length x + length (intersperse_concat [32] (map quoted (map mon_text argv))) < 2 ^ 31 \<Longrightarrow>
   \<exists>s'. feedArgsLoop fresh argv s = Some s' \<and> sds_rep s' (x @ intersperse_concat [32] (map quoted (map mon_text argv)))"
proof (induction argv arbitrary: s x rule: induct_list012)
  case (2 a)
  then show ?case using feedArg_ok [of s x a fresh] by auto
next
  case (3 a b as)
  have "length x + length (quoted (mon_text a)) < 2 ^ 31" using 3(4) by simp
  from feedArg_ok [OF 3(3) this, of fresh]
  obtain s1 where s1: "(case a of ArgInt n \<Rightarrow> sdscat fresh s (34 # print_ll n @ [34, 0]) | ArgStr p \<Rightarrow> sdscatrepr fresh s p) = Some s1"
      "sds_rep s1 (x @ quoted (mon_text a))" by (elim exE conjE)
  obtain s2 where s2: "sdscatlen fresh s1 [32] 1 = Some s2" "sds_rep s2 ((x @ quoted (mon_text a)) @ [32])"
    using sdscatlen_ok [OF s1(2), of 1 "[32]" fresh] 3(4) by auto
  have "feedArgsLoop fresh (a # b # as) s = feedArgsLoop fresh (b # as) s2"
    using s1(1) s2(1) by (subst feedArgsLoop.simps) (simp del: feedArgsLoop.simps)
  then show ?case using 3(2) [OF s2(2)] 3(4) by simp
qed simp

lemma c_str_rep: "sds_rep s x \<Longrightarrow> 0 \<notin> set x \<Longrightarrow> c_str (sh_buf s) = x"
  by (auto simp: sds_rep_def c_str_def takeWhile_append2 takeWhile_tail)

text \<open>Property C19.
  A monitor can read back what was executed: the line that \<open>replicationFeedMonitors\<close>
  builds from any arguments (binary ones included, integers in both encodings) is
  split by \<open>sdssplitargs\<close> into exactly these arguments.
\<close>

theorem sdssplitargs_feed:
  assumes "length (intersperse_concat [32] (map quoted (map mon_text argv))) < 2 ^ 31"
  shows "\<exists>e s. sdsempty fresh = Some e \<and> feedArgsLoop fresh argv e = Some s \<and>
    sdssplitargs (sh_buf s) = Some (map mon_text argv)"
proof -
  let ?t = "intersperse_concat [32] (map quoted (map mon_text argv))"
  obtain e where e: "sdsempty fresh = Some e" "sds_rep e []" using sdsempty_ok by blast
  obtain s where s: "feedArgsLoop fresh argv e = Some s" "sds_rep s ?t"
    using feedArgsLoop_ok [OF e(2), of argv fresh] assms by auto
  have nz: "0 \<notin> set ?t" using intersperse_nz [of "[32]" "map quoted (map mon_text argv)"] quoted_nz by auto
  have "sdssplitargs (sh_buf s) = sdssplitargs ?t"
    using c_str_rep [OF s(2) nz] c_str_id [OF nz] by (simp add: sdssplitargs_def)
  then show ?thesis using e(1) s(1) sdssplitargs_join [of "map mon_text argv"] by auto
qed

theorem sdssplitargs_feed_witness:
  "\<exists>e s. sdsempty (\<lambda>_. 0) = Some e \<and> feedArgsLoop (\<lambda>_. 0) [ArgStr [34, 0, 92], ArgInt 7] e = Some s \<and>
    sdssplitargs (sh_buf s) = Some (map mon_text [ArgStr [34, 0, 92], ArgInt 7])"
  by (rule sdssplitargs_feed) (simp add: quoted_def reprChar_def isprint_def print_ll_def dec_small word_sless_alt hexchar_def)

section \<open>Splitting and joining\<close>

lemma intersperse_set: "t \<in> set ts \<Longrightarrow> set t \<subseteq> set (intersperse_concat sep ts)"
  by (induction sep ts rule: intersperse_concat.induct) auto



text \<open>Property C33.
  \<open>sdscatfmt\<close> appends the text that its format denotes: literal characters, C strings,
  dynamic strings with null bytes, and decimal numerals of 32 and 64 bit integers, the
  least one included.
\<close>

theorem sdscatfmt_text:
  assumes "sds_rep s x" "fmt_text (c_str fmt) args = Some t" "list_all arg_ok args" "length x + length t + 1 < 2 ^ 31"
  shows "\<exists>s'. sdscatfmt fresh s fmt args = Some s' \<and> sds_rep s' (x @ t)"
  using assms by (rule sdscatfmt_ok)

theorem sdscatfmt_text_witness:
  "\<exists>s'. sdscatfmt (\<lambda>_. 0) \<lparr>sh_len = 1, sh_free = 0, sh_buf = [88, 0]\<rparr> [37, 105, 58, 37, 115, 37, 37] [FInt (- 1), FStr [97, 98, 0]] = Some s' \<and>
    sds_rep s' ([88] @ [45, 49, 58, 97, 98, 37])"
proof (rule sdscatfmt_text)
  show "sds_rep \<lparr>sh_len = 1, sh_free = 0, sh_buf = [88, 0]\<rparr> [88]" by (simp add: sds_rep_def)
  have "print_ll (- word_of_nat 1) = 45 # dec 1" by (rule print_ll_of_nat(2)) simp_all
  then have p: "print_ll (- 1) = [45, 49]" using dec_small [of 1] by simp
  show "fmt_text (c_str [37, 105, 58, 37, 115, 37, 37]) [FInt (- 1), FStr [97, 98, 0]] = Some [45, 49, 58, 97, 98, 37]"
    by (simp add: c_str_def is_spec_def arg_text_def p)
qed (simp_all add: arg_ok_def)

section \<open>Sequences of operations\<close>

datatype sds_op = OCat bytes | OCpy bytes | OTrim bytes | ORange int int | OGrow nat | OClear | OLower | OUpper
  | OMakeRoom nat | OCompact | ODup | OCut nat | ORepr bytes | OMapChars bytes bytes nat | OFmt bytes "fmt_arg list"

fun run_sds_op :: "fresh_mem \<Rightarrow> sds_op \<Rightarrow> sdshdr \<Rightarrow> sdshdr option" where
  "run_sds_op fresh (OCat t) s = sdscatlen fresh s t (length t)"
| "run_sds_op fresh (OCpy t) s = sdscpylen fresh s t (length t)"
| "run_sds_op fresh (OTrim cset) s = sdstrim s cset"
| "run_sds_op fresh (ORange start end) s = sdsrange s start end"
| "run_sds_op fresh (OGrow n) s = sdsgrowzero fresh s n"
| "run_sds_op fresh OClear s = sdsclear s"
| "run_sds_op fresh OLower s = sdstolower s"
| "run_sds_op fresh OUpper s = sdstoupper s"
| "run_sds_op fresh (OMakeRoom n) s = sdsMakeRoomFor fresh s n"
| "run_sds_op fresh OCompact s = sdsRemoveFreeSpace fresh s"
| "run_sds_op fresh ODup s = sdsdup fresh s"
| "run_sds_op fresh (OCut n) s = sdsIncrLen s (- int n)"
| "run_sds_op fresh (ORepr p) s = sdscatrepr fresh s p"
| "run_sds_op fresh (OMapChars from to n) s = sdsmapchars s from to n"
| "run_sds_op fresh (OFmt fmt args) s = sdscatfmt fresh s fmt args"

text \<open>The same operations on byte strings, as long as no length reaches \<open>2 ^ 31\<close>.\<close>

definition within :: "nat \<Rightarrow> bytes \<Rightarrow> bytes option" where
  "within n x = (if n < 2 ^ 31 then Some x else None)"

fun spec_sds_op :: "sds_op \<Rightarrow> bytes \<Rightarrow> bytes option" where
  "spec_sds_op (OCat t) x = within (length x + length t) (x @ t)"
| "spec_sds_op (OCpy t) x = within (max (length x) (length t)) t"
| "spec_sds_op (OTrim cset) x = Some (trim cset x)"
| "spec_sds_op (ORange start end) x = Some (substring x start end)"
| "spec_sds_op (OGrow n) x = within n (x @ replicate (n - length x) 0)"
| "spec_sds_op OClear x = Some []"
| "spec_sds_op OLower x = Some (map tolower x)"
| "spec_sds_op OUpper x = Some (map toupper x)"
| "spec_sds_op (OMakeRoom n) x = within (length x + n) x"
| "spec_sds_op OCompact x = Some x"
| "spec_sds_op ODup x = Some x"
| "spec_sds_op (OCut n) x = (if n \<le> length x then Some (take (length x - n) x) else None)"
| "spec_sds_op (ORepr p) x = within (length x + length (quoted p)) (x @ quoted p)"
| "spec_sds_op (OMapChars from to n) x =
     (if n \<le> length from \<and> n \<le> length to then Some (map (mapchar from to n) x) else None)"
| "spec_sds_op (OFmt fmt args) x =
     (case fmt_text (c_str fmt) args of
        Some t \<Rightarrow> if list_all arg_ok args then within (length x + length t + 1) (x @ t) else None
      | None \<Rightarrow> None)"

lemma within_Some: "within n x = Some y \<longleftrightarrow> n < 2 ^ 31 \<and> y = x"
  by (auto simp: within_def)

lemma run_sds_op_ok:
  assumes "sds_rep s x" "spec_sds_op op x = Some y"
  shows "\<exists>s'. run_sds_op fresh op s = Some s' \<and> sds_rep s' y"
proof (cases op)
  case (OCat t)
  then show ?thesis using assms sdscatlen_ok [OF assms(1), of "length t" t fresh] by (simp add: within_Some)
next
  case (OCpy t)
  then show ?thesis using assms sdscpylen_ok [OF assms(1), of "length t" t fresh] by (simp add: within_Some)
next
  case (OGrow n)
  then show ?thesis using assms sdsgrowzero_ok [OF assms(1), of n fresh] by (simp add: within_Some)
next
  case OCompact
  then show ?thesis using assms sdsRemoveFreeSpace_ok [OF assms(1), of fresh] by auto
next
  case (OCut n)
  then show ?thesis using assms sdsIncrLen_shrink_ok [OF assms(1), of n] by (simp split: if_splits)
next
  case (OFmt fmt args)
  then obtain t where t: "fmt_text (c_str fmt) args = Some t" "list_all arg_ok args" "length x + length t + 1 < 2 ^ 31" "y = x @ t"
    using assms(2) by (auto simp: within_Some split: option.splits if_splits)
  then show ?thesis using sdscatfmt_ok [OF assms(1) t(1-3), of fresh] OFmt by simp
qed (use assms sdsclear_ok sdstrim_ok sdsrange_ok sdstolower_ok sdstoupper_ok sdsMakeRoomFor_rep sdsdup_ok
    sdscatrepr_ok sdsmapchars_ok in \<open>auto simp: within_Some split: if_splits\<close>)

text \<open>Property C12.
  A dynamic string behaves as a byte string: any sequence of the operations of
  \<open>sds.c\<close> on a new string, as long as no length reaches \<open>2 ^ 31\<close>, stays inside the
  allocated block and leaves a terminated string with the right counters whose text is
  that of the same operations on byte strings, whatever uninitialised memory holds.
\<close>

theorem sds_refines_bytes:
  assumes "foldr (\<lambda>op r. \<lambda>x. spec_sds_op op x \<bind> r) ops Some [] = Some x"
  shows "\<exists>e s. sdsempty fresh = Some e \<and> for_each ops (run_sds_op fresh) e = Some s \<and> sds_rep s x \<and>
    sdslen s = length x \<and> sds_text s = x"
proof -
  have run: "\<exists>s'. for_each ops (run_sds_op fresh) s = Some s' \<and> sds_rep s' y"
    if "foldr (\<lambda>op r. \<lambda>x. spec_sds_op op x \<bind> r) ops Some x = Some y" "sds_rep s x" for s x y
    using that
  proof (induction ops arbitrary: s x)
    case (Cons op ops)
    then obtain z where z: "spec_sds_op op x = Some z" "foldr (\<lambda>op r. \<lambda>x. spec_sds_op op x \<bind> r) ops Some z = Some y"
      by (cases "spec_sds_op op x") auto
    obtain s1 where "run_sds_op fresh op s = Some s1" "sds_rep s1 z" using run_sds_op_ok [OF Cons.prems(2) z(1)] by blast
    then show ?case using Cons.IH [OF z(2), of s1] by simp
  qed simp
  obtain e where e: "sdsempty fresh = Some e" "sds_rep e []" using sdsempty_ok by blast
  then obtain s where "for_each ops (run_sds_op fresh) e = Some s" "sds_rep s x" using run [OF assms] by blast
  then show ?thesis using e(1) by (auto simp: sds_rep_text sdslen_def sds_rep_len)
qed

theorem sds_refines_bytes_witness:
  "\<exists>e s. sdsempty (\<lambda>_. 1) = Some e \<and> for_each [OCat [97, 98, 99], ORange 1 (- 1), OCat [32]] (run_sds_op (\<lambda>_. 1)) e = Some s \<and>
    sds_rep s [98, 99, 32] \<and> sdslen s = length ([98, 99, 32] :: bytes) \<and> sds_text s = [98, 99, 32]"
  by (rule sds_refines_bytes) (simp add: within_def substring_def)

end
