(* ===== verification/Reply.thy ===== *)
theory Reply
  imports Sds
begin

text \<open>
  The output side of a client in \<open>networking.c\<close>: the static buffer, the list of
  reply objects, the functions that build replies and the handler that sends
  them.  String objects live in a heap with their reference counts, as in
  \<open>object.c\<close>, because the tail of the reply list is extended in place unless it
  is shared.  \<open>None\<close> is an access outside a block, a dangling pointer or a failed
  assertion.  The counter \<open>reply_bytes\<close> is a number; a decrement below zero, which
  the assertion of \<open>asyncCloseClientOnOutputBufferLimitReached\<close> is there to catch, is
  \<open>None\<close> as well.
\<close>

section \<open>Objects\<close>

datatype encoding = REDIS_ENCODING_RAW | REDIS_ENCODING_EMBSTR | REDIS_ENCODING_INT

datatype obj_ptr = PNull | PSds sdshdr | PInt i64

record robj =
  ob_encoding :: encoding
  ob_ptr :: obj_ptr
  ob_refcount :: nat

section \<open>Clients\<close>

text \<open>Client flags by the position of their bit.\<close>

definition REDIS_SLAVE :: nat where "REDIS_SLAVE = 0"
definition REDIS_MASTER :: nat where "REDIS_MASTER = 1"
definition REDIS_MONITOR :: nat where "REDIS_MONITOR = 2"
definition REDIS_MULTI :: nat where "REDIS_MULTI = 3"
definition REDIS_BLOCKED :: nat where "REDIS_BLOCKED = 4"
definition REDIS_CLOSE_AFTER_REPLY :: nat where "REDIS_CLOSE_AFTER_REPLY = 6"
definition REDIS_LUA_CLIENT :: nat where "REDIS_LUA_CLIENT = 8"
definition REDIS_ASKING :: nat where "REDIS_ASKING = 9"
definition REDIS_CLOSE_ASAP :: nat where "REDIS_CLOSE_ASAP = 10"
definition REDIS_MASTER_FORCE_REPLY :: nat where "REDIS_MASTER_FORCE_REPLY = 13"
definition REDIS_PUBSUB :: nat where "REDIS_PUBSUB = 18"

definition REDIS_REPLY_CHUNK_BYTES :: nat where "REDIS_REPLY_CHUNK_BYTES = 16 * 1024"
definition REDIS_MAX_WRITE_PER_EVENT :: nat where "REDIS_MAX_WRITE_PER_EVENT = 1024 * 64"
definition REDIS_SHARED_BULKHDR_LEN :: nat where "REDIS_SHARED_BULKHDR_LEN = 32"
definition REDIS_REPL_NONE :: nat where "REDIS_REPL_NONE = 0"
definition REDIS_REPL_ONLINE :: nat where "REDIS_REPL_ONLINE = 9"

text \<open>
  The nodes of the reply list are pairs of the address of the node and of its
  object.  The object heap of the server and the next unused address are kept in
  the record too, and \<open>c_wevent\<close> says that the write handler is installed.
\<close>

record redisClient =
  c_heap :: "nat \<Rightarrow> robj option"
  c_next :: nat
  c_fd :: int
  c_flags :: u32
  c_replstate :: nat
  c_put_online_on_ack :: bool
  c_buf :: bytes
  c_bufpos :: nat
  c_sentlen :: nat
  c_reply :: "(nat \<times> nat) list"
  c_reply_bytes :: nat
  c_soft_limit_time :: int
  c_wevent :: bool
  c_to_close :: bool
  c_freed :: bool
  c_stat_net_output_bytes :: nat
  c_stat_net_input_bytes :: nat
  c_lastinteraction :: int
  c_querybuf :: sdshdr
  c_querybuf_peak :: nat
  c_argv :: "bytes list"
  c_argv_size :: nat
  c_cmd :: "bytes option"
  c_reqtype :: nat
  c_multibulklen :: nat
  c_bulklen :: int
  c_reploff :: int
  c_repl_ack_time :: int

text \<open>
  What the functions read of the rest of the server: the contents of new memory,
  the allocator's size of a block, the result of \<open>aeCreateFileEvent\<close>, the clock,
  the output limits per client class, and whether the memory limit allows to
  interrupt a long transmission.
\<close>

record limits =
  hard_limit_bytes :: nat
  soft_limit_bytes :: nat
  soft_limit_seconds :: int

record server_env =
  sv_fresh :: fresh_mem
  sv_msize :: "nat \<Rightarrow> nat"
  sv_ae_ok :: bool
  sv_unixtime :: int
  sv_obuf_limits :: "nat \<Rightarrow> limits"
  sv_below_maxmemory :: bool

record shared_objects =
  sh_crlf :: nat
  sh_czero :: nat
  sh_cone :: nat
  sh_nullbulk :: nat
  sh_mbulkhdr :: "nat list"
  sh_bulkhdr :: "nat list"

definition has_flag :: "nat \<Rightarrow> redisClient \<Rightarrow> bool" where
  "has_flag k c \<longleftrightarrow> bit (c_flags c) k"

definition set_flag :: "nat \<Rightarrow> redisClient \<Rightarrow> redisClient" where
  "set_flag k c = c\<lparr>c_flags := Bit_Operations.set_bit k (c_flags c)\<rparr>"

text \<open>The bytes of a string literal.\<close>

definition lit :: "string \<Rightarrow> bytes" where
  "lit s = map of_char s"

definition CRLF :: bytes where
  "CRLF = [13, 10]"

section \<open>Reference counts\<close>

definition newObject :: "robj \<Rightarrow> redisClient \<Rightarrow> nat \<times> redisClient" where
  "newObject ob c = (c_next c, c\<lparr>c_heap := (c_heap c)(c_next c \<mapsto> ob), c_next := c_next c + 1\<rparr>)"

definition createObject :: "obj_ptr \<Rightarrow> redisClient \<Rightarrow> nat \<times> redisClient" where
  "createObject ptr c =
     newObject \<lparr>ob_encoding = REDIS_ENCODING_RAW, ob_ptr = ptr, ob_refcount = 1\<rparr> c"

definition createRawStringObject :: "server_env \<Rightarrow> bytes \<Rightarrow> nat \<Rightarrow> redisClient \<Rightarrow> (nat \<times> redisClient) option" where
  "createRawStringObject sv ptr len c = do {
     s \<leftarrow> sdsnewlen (sv_fresh sv) (Some ptr) len;
     Some (createObject (PSds s) c) }"

definition createEmbeddedStringObject :: "bytes \<Rightarrow> nat \<Rightarrow> redisClient \<Rightarrow> (nat \<times> redisClient) option" where
  "createEmbeddedStringObject ptr len c = do {
     xs \<leftarrow> mem_read 0 len ptr;
     s \<leftarrow> mk_sds len 0 (xs @ [0]);
     Some (newObject \<lparr>ob_encoding = REDIS_ENCODING_EMBSTR, ob_ptr = PSds s, ob_refcount = 1\<rparr> c) }"

definition createStringObject :: "server_env \<Rightarrow> bytes \<Rightarrow> nat \<Rightarrow> redisClient \<Rightarrow> (nat \<times> redisClient) option" where
  "createStringObject sv ptr len c =
     (if len \<le> 39 then createEmbeddedStringObject ptr len c else createRawStringObject sv ptr len c)"

definition dupStringObject :: "server_env \<Rightarrow> nat \<Rightarrow> redisClient \<Rightarrow> (nat \<times> redisClient) option" where
  "dupStringObject sv a c = do {
     ob \<leftarrow> c_heap c a;
     (case (ob_encoding ob, ob_ptr ob) of
        (REDIS_ENCODING_RAW, PSds s) \<Rightarrow> createRawStringObject sv (sh_buf s) (sdslen s) c
      | (REDIS_ENCODING_EMBSTR, PSds s) \<Rightarrow> createEmbeddedStringObject (sh_buf s) (sdslen s) c
      | (REDIS_ENCODING_INT, p) \<Rightarrow> Some (newObject \<lparr>ob_encoding = REDIS_ENCODING_INT, ob_ptr = p, ob_refcount = 1\<rparr> c)
      | _ \<Rightarrow> None) }"

definition incrRefCount :: "nat \<Rightarrow> redisClient \<Rightarrow> redisClient option" where
  "incrRefCount a c = do {
     ob \<leftarrow> c_heap c a;
     Some (c\<lparr>c_heap := (c_heap c)(a \<mapsto> ob\<lparr>ob_refcount := ob_refcount ob + 1\<rparr>)\<rparr>) }"

definition decrRefCount :: "nat \<Rightarrow> redisClient \<Rightarrow> redisClient option" where
  "decrRefCount a c = do {
     ob \<leftarrow> c_heap c a;
     (if ob_refcount ob = 0 then None
      else if ob_refcount ob = 1 then Some (c\<lparr>c_heap := (c_heap c)(a := None)\<rparr>)
      else Some (c\<lparr>c_heap := (c_heap c)(a \<mapsto> ob\<lparr>ob_refcount := ob_refcount ob - 1\<rparr>)\<rparr>)) }"

definition getDecodedObject_heap :: "server_env \<Rightarrow> nat \<Rightarrow> redisClient \<Rightarrow> (nat \<times> redisClient) option" where
  "getDecodedObject_heap sv a c = do {
     ob \<leftarrow> c_heap c a;
     (case (ob_encoding ob, ob_ptr ob) of
        (REDIS_ENCODING_INT, PInt n) \<Rightarrow> do {
          (buf, l) \<leftarrow> ll2string (mem_alloc (sv_fresh sv) 32) 32 n;
          createStringObject sv buf (length (c_str buf)) c }
      | (REDIS_ENCODING_INT, _) \<Rightarrow> None
      | _ \<Rightarrow> do { c \<leftarrow> incrRefCount a c; Some (a, c) }) }"

section \<open>Limits of the output buffers\<close>

definition zmalloc_size_sds :: "server_env \<Rightarrow> sdshdr \<Rightarrow> nat" where
  "zmalloc_size_sds sv s = sv_msize sv (sdsAllocSize s)"

definition getStringObjectSdsUsedMemory :: "server_env \<Rightarrow> robj \<Rightarrow> nat option" where
  "getStringObjectSdsUsedMemory sv ob =
     (case (ob_encoding ob, ob_ptr ob) of
        (REDIS_ENCODING_RAW, PSds s) \<Rightarrow> Some (zmalloc_size_sds sv s)
      | (REDIS_ENCODING_EMBSTR, PSds s) \<Rightarrow> Some (sdslen s)
      | (REDIS_ENCODING_INT, _) \<Rightarrow> Some 0
      | _ \<Rightarrow> None)"

definition getClientType :: "redisClient \<Rightarrow> nat" where
  "getClientType c =
     (if has_flag REDIS_SLAVE c \<and> \<not> has_flag REDIS_MONITOR c then 1
      else if has_flag REDIS_PUBSUB c then 2
      else 0)"

definition getClientOutputBufferMemoryUsage :: "redisClient \<Rightarrow> nat" where
  "getClientOutputBufferMemoryUsage c = c_reply_bytes c + (24 + 16) * length (c_reply c)"

definition checkClientOutputBufferLimits :: "server_env \<Rightarrow> redisClient \<Rightarrow> bool \<times> redisClient" where
  "checkClientOutputBufferLimits sv c =
     (let used_mem = getClientOutputBufferMemoryUsage c;
          lim = sv_obuf_limits sv (getClientType c);
          hard = (hard_limit_bytes lim \<noteq> 0 \<and> used_mem \<ge> hard_limit_bytes lim);
          soft = (soft_limit_bytes lim \<noteq> 0 \<and> used_mem \<ge> soft_limit_bytes lim) in
      if soft then
        (if c_soft_limit_time c = 0 then (hard, c\<lparr>c_soft_limit_time := sv_unixtime sv\<rparr>)
         else (sv_unixtime sv - c_soft_limit_time c > soft_limit_seconds lim \<or> hard, c))
      else (hard, c\<lparr>c_soft_limit_time := 0\<rparr>))"

definition freeClientAsync :: "redisClient \<Rightarrow> redisClient" where
  "freeClientAsync c =
     (if has_flag REDIS_CLOSE_ASAP c then c else (set_flag REDIS_CLOSE_ASAP c)\<lparr>c_to_close := True\<rparr>)"

definition asyncCloseClientOnOutputBufferLimitReached :: "server_env \<Rightarrow> redisClient \<Rightarrow> redisClient" where
  "asyncCloseClientOnOutputBufferLimitReached sv c =
     (if c_reply_bytes c = 0 \<or> has_flag REDIS_CLOSE_ASAP c then c
      else let (reached, c) = checkClientOutputBufferLimits sv c in if reached then freeClientAsync c else c)"

definition addBytes :: "nat \<Rightarrow> redisClient \<Rightarrow> redisClient" where
  "addBytes n c = c\<lparr>c_reply_bytes := c_reply_bytes c + n\<rparr>"

definition subBytes :: "nat \<Rightarrow> redisClient \<Rightarrow> redisClient option" where
  "subBytes n c = (if n \<le> c_reply_bytes c then Some (c\<lparr>c_reply_bytes := c_reply_bytes c - n\<rparr>) else None)"

section \<open>Adding to the output buffers\<close>

definition prepareClientToWrite :: "server_env \<Rightarrow> redisClient \<Rightarrow> bool \<times> redisClient" where
  "prepareClientToWrite sv c =
     (if has_flag REDIS_LUA_CLIENT c then (True, c)
      else if has_flag REDIS_MASTER c \<and> \<not> has_flag REDIS_MASTER_FORCE_REPLY c then (False, c)
      else if c_fd c \<le> 0 then (False, c)
      else if c_bufpos c = 0 \<and> length (c_reply c) = 0 \<and>
          (c_replstate c = REDIS_REPL_NONE \<or> (c_replstate c = REDIS_REPL_ONLINE \<and> \<not> c_put_online_on_ack c)) then
        (if sv_ae_ok sv then (True, c\<lparr>c_wevent := True\<rparr>) else (False, freeClientAsync c))
      else (True, c))"

definition listAddTail :: "nat \<Rightarrow> redisClient \<Rightarrow> redisClient" where
  "listAddTail a c = c\<lparr>c_reply := c_reply c @ [(c_next c, a)], c_next := c_next c + 1\<rparr>"

definition dupLastObjectIfNeeded :: "server_env \<Rightarrow> redisClient \<Rightarrow> (nat \<times> redisClient) option" where
  "dupLastObjectIfNeeded sv c =
     (if c_reply c = [] then None
      else let (ln, cur) = last (c_reply c) in do {
        ob \<leftarrow> c_heap c cur;
        (if ob_refcount ob > 1 then do {
           (new, c) \<leftarrow> dupStringObject sv cur c;
           c \<leftarrow> decrRefCount cur c;
           Some (new, c\<lparr>c_reply := butlast (c_reply c) @ [(ln, new)]\<rparr>) }
         else Some (cur, c)) })"

definition addReplyToBuffer :: "bytes \<Rightarrow> nat \<Rightarrow> redisClient \<Rightarrow> (bool \<times> redisClient) option" where
  "addReplyToBuffer s len c =
     (let available = REDIS_REPLY_CHUNK_BYTES - c_bufpos c in
      if has_flag REDIS_CLOSE_AFTER_REPLY c then Some (True, c)
      else if c_reply c \<noteq> [] then Some (False, c)
      else if len > available then Some (False, c)
      else do {
        xs \<leftarrow> mem_read 0 len s;
        buf \<leftarrow> mem_write (c_bufpos c) xs (c_buf c);
        Some (True, c\<lparr>c_buf := buf, c_bufpos := c_bufpos c + len\<rparr>) })"

text \<open>
  The tail is extended when it is a string of its own encoding with room below the
  chunk size: the part that the three functions for objects, dynamic strings and
  character arrays share.
\<close>

definition tailHasRoom :: "nat \<Rightarrow> redisClient \<Rightarrow> bool option" where
  "tailHasRoom len c = do {
     ob \<leftarrow> c_heap c (snd (last (c_reply c)));
     Some (case ob_ptr ob of
         PSds t \<Rightarrow> ob_encoding ob = REDIS_ENCODING_RAW \<and> sdslen t + len \<le> REDIS_REPLY_CHUNK_BYTES
       | _ \<Rightarrow> False) }"

definition appendToTail :: "server_env \<Rightarrow> bytes \<Rightarrow> nat \<Rightarrow> redisClient \<Rightarrow> redisClient option" where
  "appendToTail sv s len c = do {
     ob \<leftarrow> c_heap c (snd (last (c_reply c)));
     t \<leftarrow> (case ob_ptr ob of PSds t \<Rightarrow> Some t | _ \<Rightarrow> None);
     c \<leftarrow> subBytes (zmalloc_size_sds sv t) c;
     (tail, c) \<leftarrow> dupLastObjectIfNeeded sv c;
     ob \<leftarrow> c_heap c tail;
     t \<leftarrow> (case ob_ptr ob of PSds t \<Rightarrow> Some t | _ \<Rightarrow> None);
     t \<leftarrow> sdscatlen (sv_fresh sv) t s len;
     Some (addBytes (zmalloc_size_sds sv t) (c\<lparr>c_heap := (c_heap c)(tail \<mapsto> ob\<lparr>ob_ptr := PSds t\<rparr>)\<rparr>)) }"

definition addReplyObjectToList :: "server_env \<Rightarrow> nat \<Rightarrow> redisClient \<Rightarrow> redisClient option" where
  "addReplyObjectToList sv a c =
     (if has_flag REDIS_CLOSE_AFTER_REPLY c then Some c
      else do {
        ob \<leftarrow> c_heap c a;
        s \<leftarrow> (case ob_ptr ob of PSds s \<Rightarrow> Some s | _ \<Rightarrow> None);
        room \<leftarrow> (if length (c_reply c) = 0 then Some False else tailHasRoom (sdslen s) c);
        c \<leftarrow> (if room then appendToTail sv (sh_buf s) (sdslen s) c
             else do {
               c \<leftarrow> incrRefCount a c;
               m \<leftarrow> getStringObjectSdsUsedMemory sv ob;
               Some (addBytes m (listAddTail a c)) });
        Some (asyncCloseClientOnOutputBufferLimitReached sv c) })"

definition addReplySdsToList :: "server_env \<Rightarrow> sdshdr \<Rightarrow> redisClient \<Rightarrow> redisClient option" where
  "addReplySdsToList sv s c =
     (if has_flag REDIS_CLOSE_AFTER_REPLY c then Some c
      else do {
        room \<leftarrow> (if length (c_reply c) = 0 then Some False else tailHasRoom (sdslen s) c);
        c \<leftarrow> (if room then appendToTail sv (sh_buf s) (sdslen s) c
             else let (a, c) = createObject (PSds s) c in Some (addBytes (zmalloc_size_sds sv s) (listAddTail a c)));
        Some (asyncCloseClientOnOutputBufferLimitReached sv c) })"

definition addReplyStringToList :: "server_env \<Rightarrow> bytes \<Rightarrow> nat \<Rightarrow> redisClient \<Rightarrow> redisClient option" where
  "addReplyStringToList sv s len c =
     (if has_flag REDIS_CLOSE_AFTER_REPLY c then Some c
      else do {
        room \<leftarrow> (if length (c_reply c) = 0 then Some False else tailHasRoom len c);
        c \<leftarrow> (if room then appendToTail sv s len c
             else do {
               (a, c) \<leftarrow> createStringObject sv s len c;
               ob \<leftarrow> c_heap c a;
               m \<leftarrow> getStringObjectSdsUsedMemory sv ob;
               Some (addBytes m (listAddTail a c)) });
        Some (asyncCloseClientOnOutputBufferLimitReached sv c) })"

section \<open>Replies\<close>

definition addReplyText :: "server_env \<Rightarrow> nat \<Rightarrow> sdshdr \<Rightarrow> redisClient \<Rightarrow> redisClient option" where
  "addReplyText sv a s c = do {
     (ok, c) \<leftarrow> addReplyToBuffer (sh_buf s) (sdslen s) c;
     (if ok then Some c else addReplyObjectToList sv a c) }"

definition addReplyInt :: "server_env \<Rightarrow> nat \<Rightarrow> redisClient \<Rightarrow> redisClient option" where
  "addReplyInt sv a c = do {
     (a, c) \<leftarrow> getDecodedObject_heap sv a c;
     ob \<leftarrow> c_heap c a;
     s \<leftarrow> (case ob_ptr ob of PSds s \<Rightarrow> Some s | _ \<Rightarrow> None);
     c \<leftarrow> addReplyText sv a s c;
     decrRefCount a c }"

definition addReply :: "server_env \<Rightarrow> nat \<Rightarrow> redisClient \<Rightarrow> redisClient option" where
  "addReply sv a c =
     (let (ok, c) = prepareClientToWrite sv c in
      if \<not> ok then Some c
      else do {
        ob \<leftarrow> c_heap c a;
        (case (ob_encoding ob, ob_ptr ob) of
           (REDIS_ENCODING_INT, PInt n) \<Rightarrow>
             (if c_reply c = [] \<and> REDIS_REPLY_CHUNK_BYTES - c_bufpos c \<ge> 32 then do {
                (buf, len) \<leftarrow> ll2string (mem_alloc (sv_fresh sv) 32) 32 n;
                (done, c) \<leftarrow> addReplyToBuffer buf len c;
                (if done then Some c else addReplyInt sv a c) }
              else addReplyInt sv a c)
         | (REDIS_ENCODING_INT, _) \<Rightarrow> None
         | (_, PSds s) \<Rightarrow> addReplyText sv a s c
         | _ \<Rightarrow> None) })"

definition addReplySds :: "server_env \<Rightarrow> sdshdr \<Rightarrow> redisClient \<Rightarrow> redisClient option" where
  "addReplySds sv s c =
     (let (ok, c) = prepareClientToWrite sv c in
      if \<not> ok then Some c
      else do {
        (done, c) \<leftarrow> addReplyToBuffer (sh_buf s) (sdslen s) c;
        (if done then Some c else addReplySdsToList sv s c) })"

definition addReplyString :: "server_env \<Rightarrow> bytes \<Rightarrow> nat \<Rightarrow> redisClient \<Rightarrow> redisClient option" where
  "addReplyString sv s len c =
     (let (ok, c) = prepareClientToWrite sv c in
      if \<not> ok then Some c
      else do {
        (done, c) \<leftarrow> addReplyToBuffer s len c;
        (if done then Some c else addReplyStringToList sv s len c) })"

definition addReplyErrorLength :: "server_env \<Rightarrow> bytes \<Rightarrow> nat \<Rightarrow> redisClient \<Rightarrow> redisClient option" where
  "addReplyErrorLength sv s len c = do {
     c \<leftarrow> addReplyString sv (lit ''-ERR '') 5 c;
     c \<leftarrow> addReplyString sv s len c;
     addReplyString sv CRLF 2 c }"

definition addReplyError :: "server_env \<Rightarrow> bytes \<Rightarrow> redisClient \<Rightarrow> redisClient option" where
  "addReplyError sv err c = addReplyErrorLength sv err (length (c_str err)) c"

text \<open>The text that the format denotes is the argument of the two formatting functions.\<close>

definition addReplyErrorFormat :: "server_env \<Rightarrow> bytes \<Rightarrow> redisClient \<Rightarrow> redisClient option" where
  "addReplyErrorFormat sv s c =
     (let s = map (\<lambda>ch. if ch = 13 \<or> ch = 10 then 32 else ch) s in addReplyErrorLength sv s (length s) c)"

definition addReplyStatusLength :: "server_env \<Rightarrow> bytes \<Rightarrow> nat \<Rightarrow> redisClient \<Rightarrow> redisClient option" where
  "addReplyStatusLength sv s len c = do {
     c \<leftarrow> addReplyString sv [43] 1 c;
     c \<leftarrow> addReplyString sv s len c;
     addReplyString sv CRLF 2 c }"

definition addReplyStatus :: "server_env \<Rightarrow> bytes \<Rightarrow> redisClient \<Rightarrow> redisClient option" where
  "addReplyStatus sv status c = addReplyStatusLength sv status (length (c_str status)) c"

definition addReplyStatusFormat :: "server_env \<Rightarrow> bytes \<Rightarrow> redisClient \<Rightarrow> redisClient option" where
  "addReplyStatusFormat sv s c = addReplyStatusLength sv s (length s) c"

text \<open>The index into the table of shared headers is only bounded from above by the code.\<close>

definition shared_at :: "nat list \<Rightarrow> int \<Rightarrow> nat option" where
  "shared_at xs i = (if 0 \<le> i then mem_get (nat i) xs else None)"

definition addReplyLongLongWithPrefix ::
    "server_env \<Rightarrow> shared_objects \<Rightarrow> i64 \<Rightarrow> byte \<Rightarrow> redisClient \<Rightarrow> redisClient option" where
  "addReplyLongLongWithPrefix sv sh ll prefix c =
     (if prefix = 42 \<and> sint ll < int REDIS_SHARED_BULKHDR_LEN then do {
        a \<leftarrow> shared_at (sh_mbulkhdr sh) (sint ll);
        addReply sv a c }
      else if prefix = 36 \<and> sint ll < int REDIS_SHARED_BULKHDR_LEN then do {
        a \<leftarrow> shared_at (sh_bulkhdr sh) (sint ll);
        addReply sv a c }
      else do {
        let buf = mem_alloc (sv_fresh sv) 128;
        buf \<leftarrow> mem_set 0 prefix buf;
        (rest, len) \<leftarrow> ll2string (drop 1 buf) 127 ll;
        let buf = take 1 buf @ rest;
        buf \<leftarrow> mem_set (len + 1) 13 buf;
        buf \<leftarrow> mem_set (len + 2) 10 buf;
        addReplyString sv buf (len + 3) c })"

definition addReplyLongLong :: "server_env \<Rightarrow> shared_objects \<Rightarrow> i64 \<Rightarrow> redisClient \<Rightarrow> redisClient option" where
  "addReplyLongLong sv sh ll c =
     (if ll = 0 then addReply sv (sh_czero sh) c
      else if ll = 1 then addReply sv (sh_cone sh) c
      else addReplyLongLongWithPrefix sv sh ll 58 c)"

definition addReplyMultiBulkLen :: "server_env \<Rightarrow> shared_objects \<Rightarrow> i64 \<Rightarrow> redisClient \<Rightarrow> redisClient option" where
  "addReplyMultiBulkLen sv sh len c =
     (if sint len < int REDIS_SHARED_BULKHDR_LEN then do {
        a \<leftarrow> shared_at (sh_mbulkhdr sh) (sint len);
        addReply sv a c }
      else addReplyLongLongWithPrefix sv sh len 42 c)"

text \<open>The number of decimal digits, by repeated division.\<close>

function bulkDigits :: "nat \<Rightarrow> nat" where
  "bulkDigits n = (if n div 10 \<noteq> 0 then 1 + bulkDigits (n div 10) else 1)"
  by auto
termination by (relation "measure id") auto

declare bulkDigits.simps [simp del]

text \<open>For the least integer the negation is undefined behaviour, \<open>None\<close> here.\<close>

definition addReplyBulkLen :: "server_env \<Rightarrow> shared_objects \<Rightarrow> nat \<Rightarrow> redisClient \<Rightarrow> redisClient option" where
  "addReplyBulkLen sv sh a c = do {
     ob \<leftarrow> c_heap c a;
     len \<leftarrow> (case (ob_encoding ob, ob_ptr ob) of
         (REDIS_ENCODING_INT, PInt n) \<Rightarrow>
           if n <s 0 then (if - n = n then None else Some (1 + bulkDigits (unat (- n)))) else Some (bulkDigits (unat n))
       | (REDIS_ENCODING_INT, _) \<Rightarrow> None
       | (_, PSds s) \<Rightarrow> Some (sdslen s)
       | _ \<Rightarrow> None);
     (if len < REDIS_SHARED_BULKHDR_LEN then do {
        h \<leftarrow> mem_get len (sh_bulkhdr sh);
        addReply sv h c }
      else addReplyLongLongWithPrefix sv sh (word_of_nat len) 36 c) }"

definition addReplyBulk :: "server_env \<Rightarrow> shared_objects \<Rightarrow> nat \<Rightarrow> redisClient \<Rightarrow> redisClient option" where
  "addReplyBulk sv sh a c = do {
     c \<leftarrow> addReplyBulkLen sv sh a c;
     c \<leftarrow> addReply sv a c;
     addReply sv (sh_crlf sh) c }"

definition addReplyBulkCBuffer :: "server_env \<Rightarrow> shared_objects \<Rightarrow> bytes \<Rightarrow> nat \<Rightarrow> redisClient \<Rightarrow> redisClient option" where
  "addReplyBulkCBuffer sv sh p len c = do {
     c \<leftarrow> addReplyLongLongWithPrefix sv sh (word_of_nat len) 36 c;
     c \<leftarrow> addReplyString sv p len c;
     addReply sv (sh_crlf sh) c }"

definition addReplyBulkCString :: "server_env \<Rightarrow> shared_objects \<Rightarrow> bytes option \<Rightarrow> redisClient \<Rightarrow> redisClient option" where
  "addReplyBulkCString sv sh s c =
     (case s of
        None \<Rightarrow> addReply sv (sh_nullbulk sh) c
      | Some s \<Rightarrow> addReplyBulkCBuffer sv sh s (length (c_str s)) c)"

definition addReplyBulkLongLong :: "server_env \<Rightarrow> shared_objects \<Rightarrow> i64 \<Rightarrow> redisClient \<Rightarrow> redisClient option" where
  "addReplyBulkLongLong sv sh ll c = do {
     (buf, len) \<leftarrow> ll2string (mem_alloc (sv_fresh sv) 64) 64 ll;
     addReplyBulkCBuffer sv sh buf len c }"

section \<open>Lengths that are known later\<close>

definition addDeferredMultiBulkLength :: "server_env \<Rightarrow> redisClient \<Rightarrow> nat option \<times> redisClient" where
  "addDeferredMultiBulkLength sv c =
     (let (ok, c) = prepareClientToWrite sv c in
      if \<not> ok then (None, c)
      else let (a, c) = createObject PNull c; c = listAddTail a c in (Some (fst (last (c_reply c))), c))"

definition setDeferredMultiBulkLength :: "server_env \<Rightarrow> nat option \<Rightarrow> i64 \<Rightarrow> redisClient \<Rightarrow> redisClient option" where
  "setDeferredMultiBulkLength sv node len c =
     (case node of
        None \<Rightarrow> Some c
      | Some ln \<Rightarrow> do {
          let before = takeWhile (\<lambda>(n, a). n \<noteq> ln) (c_reply c);
          let rest = dropWhile (\<lambda>(n, a). n \<noteq> ln) (c_reply c);
          a \<leftarrow> (case rest of [] \<Rightarrow> None | (_, a) # _ \<Rightarrow> Some a);
          ob \<leftarrow> c_heap c a;
          s \<leftarrow> sdsempty (sv_fresh sv);
          s \<leftarrow> sdscat (sv_fresh sv) s (42 # print_ll len @ CRLF @ [0]);
          let c = addBytes (zmalloc_size_sds sv s)
            (c\<lparr>c_heap := (c_heap c)(a \<mapsto> ob\<lparr>ob_ptr := PSds s, ob_encoding := REDIS_ENCODING_RAW\<rparr>)\<rparr>);
          c \<leftarrow> (case tl rest of
              [] \<Rightarrow> Some c
            | (_, b) # after \<Rightarrow> do {
                next \<leftarrow> c_heap c b;
                (case ob_ptr next of
                   PSds t \<Rightarrow> do {
                     c \<leftarrow> subBytes (zmalloc_size_sds sv s) c;
                     m \<leftarrow> getStringObjectSdsUsedMemory sv next;
                     c \<leftarrow> subBytes m c;
                     s \<leftarrow> sdscatlen (sv_fresh sv) s (sh_buf t) (sdslen t);
                     let c = addBytes (zmalloc_size_sds sv s)
                       (c\<lparr>c_heap := (c_heap c)(a \<mapsto> ob\<lparr>ob_ptr := PSds s, ob_encoding := REDIS_ENCODING_RAW\<rparr>)\<rparr>);
                     decrRefCount b (c\<lparr>c_reply := before @ hd rest # after\<rparr>) }
                 | _ \<Rightarrow> Some c) });
          Some (asyncCloseClientOnOutputBufferLimitReached sv c) })"

section \<open>Sending\<close>

definition countOutput :: "nat \<Rightarrow> redisClient \<Rightarrow> redisClient" where
  "countOutput totwritten c = c\<lparr>c_stat_net_output_bytes := c_stat_net_output_bytes c + totwritten\<rparr>"

text \<open>
  \<open>writes\<close> are the numbers of bytes that the successive calls of \<open>write\<close> are ready to
  take; zero and the end of the list are a call that returns zero or \<open>EAGAIN\<close>.  The
  result is the bytes written in this event and the client.
\<close>

function sendLoop :: "server_env \<Rightarrow> nat list \<Rightarrow> bytes \<Rightarrow> redisClient \<Rightarrow> (bytes \<times> redisClient) option" where
  "sendLoop sv writes out c =
     (if c_bufpos c > 0 then
        (case writes of
           [] \<Rightarrow> Some (out, c)
         | w # ws \<Rightarrow>
             (let nwritten = min w (c_bufpos c - c_sentlen c) in
              if nwritten = 0 then Some (out, c)
              else do {
                xs \<leftarrow> mem_read (c_sentlen c) nwritten (c_buf c);
                let c = c\<lparr>c_sentlen := c_sentlen c + nwritten\<rparr>;
                let c = (if c_sentlen c = c_bufpos c then c\<lparr>c_bufpos := 0, c_sentlen := 0\<rparr> else c);
                let out = out @ xs;
                let c = countOutput (length out) c;
                (if length out > REDIS_MAX_WRITE_PER_EVENT \<and> sv_below_maxmemory sv then Some (out, c)
                 else sendLoop sv ws out c) }))
      else (case c_reply c of
          [] \<Rightarrow> Some (out, c)
        | (_, a) # rest \<Rightarrow> do {
            ob \<leftarrow> c_heap c a;
            s \<leftarrow> (case ob_ptr ob of PSds s \<Rightarrow> Some s | _ \<Rightarrow> None);
            objmem \<leftarrow> getStringObjectSdsUsedMemory sv ob;
            (if sdslen s = 0 then do {
               c1 \<leftarrow> decrRefCount a c;
               c1 \<leftarrow> subBytes objmem c1;
               sendLoop sv writes out (c1\<lparr>c_reply := rest\<rparr>) }
             else (case writes of
                 [] \<Rightarrow> Some (out, c)
               | w # ws \<Rightarrow>
                   (let nwritten = min w (sdslen s - c_sentlen c) in
                    if nwritten = 0 then Some (out, c)
                    else do {
                      xs \<leftarrow> mem_read (c_sentlen c) nwritten (sh_buf s);
                      let c = c\<lparr>c_sentlen := c_sentlen c + nwritten\<rparr>;
                      c \<leftarrow> (if c_sentlen c = sdslen s then do {
                            c \<leftarrow> decrRefCount a (c\<lparr>c_reply := rest\<rparr>);
                            subBytes objmem (c\<lparr>c_sentlen := 0\<rparr>) }
                          else Some c);
                      let out = out @ xs;
                      let c = countOutput (length out) c;
                      (if length out > REDIS_MAX_WRITE_PER_EVENT \<and> sv_below_maxmemory sv then Some (out, c)
                       else sendLoop sv ws out c) }))) }))"
  by pat_completeness auto
termination
proof (relation "measure (\<lambda>(sv, writes, out, c). length writes + length (c_reply c))", goal_cases)
qed (auto simp: countOutput_def decrRefCount_def subBytes_def split: bind_splits if_splits)

declare sendLoop.simps [simp del]

text \<open>\<open>err\<close> says that the last call of \<open>write\<close> failed for another reason than \<open>EAGAIN\<close>.\<close>

definition sendReplyToClient :: "server_env \<Rightarrow> nat list \<Rightarrow> bool \<Rightarrow> redisClient \<Rightarrow> (bytes \<times> redisClient) option" where
  "sendReplyToClient sv writes err c = do {
     (out, c) \<leftarrow> sendLoop sv writes [] c;
     (if err then Some (out, c\<lparr>c_freed := True\<rparr>)
      else let c = (if out \<noteq> [] \<and> \<not> has_flag REDIS_MASTER c then c\<lparr>c_lastinteraction := sv_unixtime sv\<rparr> else c) in
        if c_bufpos c = 0 \<and> length (c_reply c) = 0 then
          (let c = c\<lparr>c_sentlen := 0, c_wevent := False\<rparr> in
           Some (out, if has_flag REDIS_CLOSE_AFTER_REPLY c then c\<lparr>c_freed := True\<rparr> else c))
        else Some (out, c)) }"


section \<open>A new client\<close>

text \<open>
  \<open>createClient\<close> for a connected socket, and the shared objects of the server that the
  replies use.  The heap is part of the record, so the objects are created in it.
\<close>

definition createClient :: "server_env \<Rightarrow> int \<Rightarrow> redisClient option" where
  "createClient sv fd = do {
     querybuf \<leftarrow> sdsempty (sv_fresh sv);
     Some \<lparr>c_heap = \<lambda>_. None, c_next = 0, c_fd = fd, c_flags = 0, c_replstate = REDIS_REPL_NONE, c_put_online_on_ack = False,
       c_buf = mem_alloc (sv_fresh sv) REDIS_REPLY_CHUNK_BYTES, c_bufpos = 0, c_sentlen = 0, c_reply = [], c_reply_bytes = 0,
       c_soft_limit_time = 0, c_wevent = False, c_to_close = False, c_freed = False, c_stat_net_output_bytes = 0,
       c_stat_net_input_bytes = 0,
       c_lastinteraction = sv_unixtime sv, c_querybuf = querybuf, c_querybuf_peak = 0, c_argv = [], c_argv_size = 0, c_cmd = None,
       c_reqtype = 0, c_multibulklen = 0, c_bulklen = - 1, c_reploff = 0, c_repl_ack_time = 0\<rparr> }"

definition sharedObject :: "server_env \<Rightarrow> bytes \<Rightarrow> redisClient \<Rightarrow> (nat \<times> redisClient) option" where
  "sharedObject sv t c = do {
     s \<leftarrow> sdsnew (sv_fresh sv) (Some (t @ [0]));
     Some (createObject (PSds s) c) }"

fun sharedHeaders :: "server_env \<Rightarrow> nat list \<Rightarrow> redisClient \<Rightarrow> (nat list \<times> nat list \<times> redisClient) option" where
  "sharedHeaders sv [] c = Some ([], [], c)"
| "sharedHeaders sv (j # js) c = do {
     (m, c) \<leftarrow> sharedObject sv (42 # dec j @ CRLF) c;
     (b, c) \<leftarrow> sharedObject sv (36 # dec j @ CRLF) c;
     (ms, bs, c) \<leftarrow> sharedHeaders sv js c;
     Some (m # ms, b # bs, c) }"

definition createSharedObjects :: "server_env \<Rightarrow> redisClient \<Rightarrow> (shared_objects \<times> redisClient) option" where
  "createSharedObjects sv c = do {
     (crlf, c) \<leftarrow> sharedObject sv CRLF c;
     (czero, c) \<leftarrow> sharedObject sv (58 # dec 0 @ CRLF) c;
     (cone, c) \<leftarrow> sharedObject sv (58 # dec 1 @ CRLF) c;
     (nullbulk, c) \<leftarrow> sharedObject sv (lit ''$-1'' @ CRLF) c;
     (ms, bs, c) \<leftarrow> sharedHeaders sv [0..<REDIS_SHARED_BULKHDR_LEN] c;
     Some (\<lparr>sh_crlf = crlf, sh_czero = czero, sh_cone = cone, sh_nullbulk = nullbulk, sh_mbulkhdr = ms, sh_bulkhdr = bs\<rparr>, c) }"

end
