(* ===== verification/ReplyHeap.thy ===== *)
theory ReplyHeap
  imports Reply
begin

unbundle bit_operations_syntax

text \<open>
  The invariant of the output side of a client: reference counts, the encoding of
  objects, the bounds of the static buffer and the memory counter of the reply list;
  and the functions at the lowest level, which add a node to the list or extend its
  last node.
\<close>

section \<open>What the buffers hold\<close>

definition view :: "(nat \<Rightarrow> robj option) \<Rightarrow> nat \<Rightarrow> (encoding \<times> obj_ptr) option" where
  "view h a = map_option (\<lambda>ob. (ob_encoding ob, ob_ptr ob)) (h a)"

definition v_text :: "(encoding \<times> obj_ptr) option \<Rightarrow> bytes option" where
  "v_text v = (case v of Some (e, PSds s) \<Rightarrow> Some (sds_text s) | Some (e, PInt n) \<Rightarrow> Some (print_ll n) | _ \<Rightarrow> None)"

definition v_used :: "server_env \<Rightarrow> (encoding \<times> obj_ptr) option \<Rightarrow> nat" where
  "v_used sv v =
     (case v of
        Some (REDIS_ENCODING_RAW, PSds s) \<Rightarrow> zmalloc_size_sds sv s
      | Some (REDIS_ENCODING_EMBSTR, PSds s) \<Rightarrow> sdslen s
      | _ \<Rightarrow> 0)"

definition v_wf :: "encoding \<times> obj_ptr \<Rightarrow> bool" where
  "v_wf v = (case v of
       (e, PSds s) \<Rightarrow> e \<noteq> REDIS_ENCODING_INT \<and> sds_rep s (sds_text s)
     | (e, PInt n) \<Rightarrow> e = REDIS_ENCODING_INT
     | (e, PNull) \<Rightarrow> e = REDIS_ENCODING_RAW)"

text \<open>The reply list with the texts of its objects; a length that is not yet known has none.\<close>

definition texts :: "redisClient \<Rightarrow> (nat \<times> bytes option) list" where
  "texts c = map (\<lambda>(n, a). (n, v_text (view (c_heap c) a))) (c_reply c)"

definition refs :: "redisClient \<Rightarrow> nat \<Rightarrow> nat" where
  "refs c a = count_list (map snd (c_reply c)) a"

text \<open>\<open>ext\<close> counts the references to objects from outside the reply list.\<close>

definition heap_ok :: "(nat \<Rightarrow> nat) \<Rightarrow> redisClient \<Rightarrow> bool" where
  "heap_ok ext c \<longleftrightarrow>
     (\<forall>a ob. c_heap c a = Some ob \<longrightarrow> a < c_next c \<and> v_wf (ob_encoding ob, ob_ptr ob) \<and>
        ob_refcount ob = ext a + refs c a \<and> 0 < ob_refcount ob) \<and>
     (\<forall>a. 0 < ext a \<longrightarrow> (\<exists>v. view (c_heap c) a = Some v \<and> snd v \<noteq> PNull)) \<and>
     (\<forall>(n, a)\<in>set (c_reply c). n < c_next c \<and> (\<exists>v. view (c_heap c) a = Some v \<and> fst v \<noteq> REDIS_ENCODING_INT)) \<and>
     distinct (map fst (c_reply c))"

definition buf_ok :: "redisClient \<Rightarrow> bool" where
  "buf_ok c \<longleftrightarrow> length (c_buf c) = REDIS_REPLY_CHUNK_BYTES \<and> c_bufpos c \<le> REDIS_REPLY_CHUNK_BYTES"

definition mem_ok :: "server_env \<Rightarrow> redisClient \<Rightarrow> bool" where
  "mem_ok sv c \<longleftrightarrow> c_reply_bytes c = sum_list (map (\<lambda>(n, a). v_used sv (view (c_heap c) a)) (c_reply c))"

definition reply_inv :: "server_env \<Rightarrow> (nat \<Rightarrow> nat) \<Rightarrow> redisClient \<Rightarrow> bool" where
  "reply_inv sv ext c \<longleftrightarrow> heap_ok ext c \<and> buf_ok c \<and> mem_ok sv c"

text \<open>Everything a reply function leaves alone.\<close>

definition rframe :: "(nat \<Rightarrow> nat) \<Rightarrow> redisClient \<Rightarrow> redisClient \<Rightarrow> bool" where
  "rframe ext c c' \<longleftrightarrow>
     (\<forall>a. 0 < ext a \<longrightarrow> view (c_heap c') a = view (c_heap c) a) \<and>
     (\<forall>k. k \<noteq> REDIS_CLOSE_ASAP \<longrightarrow> has_flag k c' = has_flag k c) \<and>
     c_fd c' = c_fd c \<and> c_replstate c' = c_replstate c \<and> c_put_online_on_ack c' = c_put_online_on_ack c \<and>
     c_sentlen c' = c_sentlen c \<and> c_freed c' = c_freed c \<and> c_lastinteraction c' = c_lastinteraction c \<and>
     c_querybuf c' = c_querybuf c \<and> c_querybuf_peak c' = c_querybuf_peak c \<and> c_argv c' = c_argv c \<and>
     c_argv_size c' = c_argv_size c \<and> c_cmd c' = c_cmd c \<and> c_reqtype c' = c_reqtype c \<and>
     c_multibulklen c' = c_multibulklen c \<and> c_bulklen c' = c_bulklen c \<and> c_reploff c' = c_reploff c \<and>
     c_repl_ack_time c' = c_repl_ack_time c \<and> c_stat_net_output_bytes c' = c_stat_net_output_bytes c \<and>
     c_stat_net_input_bytes c' = c_stat_net_input_bytes c"

lemma rframe_refl: "rframe ext c c"
  by (simp add: rframe_def)

lemma rframe_trans: "rframe ext c d \<Longrightarrow> rframe ext d e \<Longrightarrow> rframe ext c e"
  unfolding rframe_def by auto

named_theorems reply_simps

lemma view_upd [reply_simps]: "view (h(a \<mapsto> ob)) b = (if b = a then Some (ob_encoding ob, ob_ptr ob) else view h b)"
  by (simp add: view_def)

lemma view_upd_rc: "h a = Some ob \<Longrightarrow> view (h(a \<mapsto> ob\<lparr>ob_refcount := n\<rparr>)) = view h"
  by (rule ext) (simp add: view_def)

lemma view_Some: "view h a = Some v \<longleftrightarrow> (\<exists>ob. h a = Some ob \<and> v = (ob_encoding ob, ob_ptr ob))"
  by (auto simp: view_def)

lemma heap_ok_fresh: "heap_ok ext c \<Longrightarrow> c_heap c (c_next c) = None"
  by (cases "c_heap c (c_next c)") (auto simp: heap_ok_def)

lemma heap_ok_ext0: "heap_ok ext c \<Longrightarrow> ext (c_next c) = 0"
proof (rule ccontr)
  assume h: "heap_ok ext c" and "ext (c_next c) \<noteq> 0"
  then have "\<exists>v. view (c_heap c) (c_next c) = Some v \<and> snd v \<noteq> PNull" unfolding heap_ok_def by blast
  then show False using heap_ok_fresh [OF h] by (auto simp: view_def)
qed

lemma heap_ok_reply: "heap_ok ext c \<Longrightarrow> (n, a) \<in> set (c_reply c) \<Longrightarrow> \<exists>ob. c_heap c a = Some ob"
  by (fastforce simp: heap_ok_def view_Some)

lemma heap_ok_not_reply: "heap_ok ext c \<Longrightarrow> c_next c \<notin> set (map snd (c_reply c))"
  using heap_ok_reply [of ext c _ "c_next c"] heap_ok_fresh [of ext c] by force

lemma refs_0: "heap_ok ext c \<Longrightarrow> refs c (c_next c) = 0"
  unfolding refs_def count_list_0_iff by (rule heap_ok_not_reply)

subsection \<open>Closing and the write handler\<close>

lemma has_flag_upd: "bit (Bit_Operations.set_bit j (w :: u32)) k \<longleftrightarrow> bit w k \<or> (k = j \<and> j < 32)"
  by (auto simp: bit_simps dest: bit_imp_le_length)

definition only_flags :: "redisClient \<Rightarrow> redisClient \<Rightarrow> bool" where
  "only_flags c c' \<longleftrightarrow>
     c' = c\<lparr>c_flags := c_flags c', c_soft_limit_time := c_soft_limit_time c', c_to_close := c_to_close c', c_wevent := c_wevent c'\<rparr> \<and>
     (\<forall>k. k \<noteq> REDIS_CLOSE_ASAP \<longrightarrow> has_flag k c' = has_flag k c)"

lemma freeClientAsync_flags: "only_flags c (freeClientAsync (c\<lparr>c_soft_limit_time := t\<rparr>))" "only_flags c (freeClientAsync c)"
  unfolding only_flags_def freeClientAsync_def set_flag_def by (simp_all add: has_flag_def has_flag_upd)

lemma asyncClose_flags: "only_flags c (asyncCloseClientOnOutputBufferLimitReached sv c)"
proof -
  have id: "only_flags c c" "only_flags c (c\<lparr>c_soft_limit_time := t\<rparr>)" for t
    by (simp_all add: only_flags_def has_flag_def)
  show ?thesis
    unfolding asyncCloseClientOnOutputBufferLimitReached_def checkClientOutputBufferLimits_def Let_def
    by (simp add: id freeClientAsync_flags split: if_split)
qed

lemma only_flags_fields:
  assumes "only_flags c c'"
  shows "reply_inv sv ext c' = reply_inv sv ext c" "texts c' = texts c" "rframe ext c c'"
    "c_buf c' = c_buf c" "c_bufpos c' = c_bufpos c" "c_reply c' = c_reply c" "c_heap c' = c_heap c"
proof -
  obtain f t b w where c': "c' = c\<lparr>c_flags := f, c_soft_limit_time := t, c_to_close := b, c_wevent := w\<rparr>"
    using assms unfolding only_flags_def by blast
  show "reply_inv sv ext c' = reply_inv sv ext c" "texts c' = texts c"
    "c_buf c' = c_buf c" "c_bufpos c' = c_bufpos c" "c_reply c' = c_reply c" "c_heap c' = c_heap c"
    unfolding c' by (simp_all add: reply_inv_def heap_ok_def buf_ok_def mem_ok_def texts_def refs_def)
  have "\<forall>k. k \<noteq> REDIS_CLOSE_ASAP \<longrightarrow> has_flag k c' = has_flag k c" using assms unfolding only_flags_def by blast
  then show "rframe ext c c'" unfolding rframe_def by (simp add: c')
qed

text \<open>A client that accepts replies: the write handler can be installed, if it is needed.\<close>

definition accepts :: "server_env \<Rightarrow> redisClient \<Rightarrow> bool" where
  "accepts sv c \<longleftrightarrow> \<not> has_flag REDIS_CLOSE_AFTER_REPLY c \<and>
     (has_flag REDIS_LUA_CLIENT c \<or>
      ((\<not> has_flag REDIS_MASTER c \<or> has_flag REDIS_MASTER_FORCE_REPLY c) \<and> 0 < c_fd c \<and> sv_ae_ok sv))"

lemma prepare_ok:
  assumes "accepts sv c"
  shows "\<exists>c'. prepareClientToWrite sv c = (True, c') \<and> only_flags c c'"
proof -
  have "only_flags c c" "only_flags c (c\<lparr>c_wevent := True\<rparr>)" by (simp_all add: only_flags_def has_flag_def)
  then show ?thesis using assms by (auto simp: prepareClientToWrite_def accepts_def)
qed

lemma accepts_frame: "rframe ext c c' \<Longrightarrow> accepts sv c' = accepts sv c"
  unfolding rframe_def accepts_def
  by (simp add: REDIS_CLOSE_AFTER_REPLY_def REDIS_LUA_CLIENT_def REDIS_MASTER_def REDIS_MASTER_FORCE_REPLY_def REDIS_CLOSE_ASAP_def)

subsection \<open>Adding a node\<close>

definition extends :: "(nat \<times> bytes option) list \<Rightarrow> (nat \<times> bytes option) list \<Rightarrow> bytes \<Rightarrow> bool" where
  "extends r r' s \<longleftrightarrow>
     (\<exists>m. r' = r @ [(m, Some s)]) \<or> (\<exists>us n u. r = us @ [(n, Some u)] \<and> r' = us @ [(n, Some (u @ s))])"

lemma heap_okI:
  assumes "\<And>a ob. c_heap c a = Some ob \<Longrightarrow> a < c_next c \<and> v_wf (ob_encoding ob, ob_ptr ob) \<and>
        ob_refcount ob = ext a + refs c a \<and> 0 < ob_refcount ob"
    and "\<And>a. 0 < ext a \<Longrightarrow> \<exists>v. view (c_heap c) a = Some v \<and> snd v \<noteq> PNull"
    and "\<And>n a. (n, a) \<in> set (c_reply c) \<Longrightarrow> n < c_next c \<and> (\<exists>v. view (c_heap c) a = Some v \<and> fst v \<noteq> REDIS_ENCODING_INT)"
    and "distinct (map fst (c_reply c))"
  shows "heap_ok ext c"
  unfolding heap_ok_def using assms by blast

lemma heap_okD:
  assumes "heap_ok ext c"
  shows "c_heap c a = Some ob \<Longrightarrow> a < c_next c" "c_heap c a = Some ob \<Longrightarrow> v_wf (ob_encoding ob, ob_ptr ob)"
    "c_heap c a = Some ob \<Longrightarrow> ob_refcount ob = ext a + refs c a" "c_heap c a = Some ob \<Longrightarrow> 0 < ob_refcount ob"
    "0 < ext a \<Longrightarrow> \<exists>v. view (c_heap c) a = Some v \<and> snd v \<noteq> PNull"
    "(n, a) \<in> set (c_reply c) \<Longrightarrow> n < c_next c"
    "(n, a) \<in> set (c_reply c) \<Longrightarrow> \<exists>v. view (c_heap c) a = Some v \<and> fst v \<noteq> REDIS_ENCODING_INT"
    "distinct (map fst (c_reply c))"
  using assms unfolding heap_ok_def by blast+

lemma texts_cong:
  "(\<And>a. a \<in> snd ` set xs \<Longrightarrow> view h' a = view h a) \<Longrightarrow>
   map (\<lambda>(n, a). (n, v_text (view h' a))) xs = map (\<lambda>(n, a). (n, v_text (view h a))) xs"
  "(\<And>a. a \<in> snd ` set xs \<Longrightarrow> view h' a = view h a) \<Longrightarrow>
   map (\<lambda>(n, a). v_used sv (view h' a)) xs = map (\<lambda>(n, a). v_used sv (view h a)) xs"
  by (auto intro!: map_cong) (metis image_eqI snd_conv)+

text \<open>A new object as the last node.\<close>

lemma add_new:
  assumes inv: "reply_inv sv ext c" and wf: "v_wf (ob_encoding ob, ob_ptr ob)" "ob_encoding ob \<noteq> REDIS_ENCODING_INT" "ob_refcount ob = 1"
    and new: "newObject ob c = (a, c1)" and m: "m = v_used sv (Some (ob_encoding ob, ob_ptr ob))"
  shows "reply_inv sv ext (addBytes m (listAddTail a c1))"
    "texts (addBytes m (listAddTail a c1)) = texts c @ [(c_next c + 1, v_text (Some (ob_encoding ob, ob_ptr ob)))]"
    "rframe ext c (addBytes m (listAddTail a c1))" "c_heap c1 a = Some ob"
proof -
  have h: "heap_ok ext c" and b: "buf_ok c" and mem: "mem_ok sv c" using inv by (simp_all add: reply_inv_def)
  define c2 where "c2 = addBytes m (listAddTail a c1)"
  have a: "a = c_next c" and c2: "c2 = c\<lparr>c_heap := (c_heap c)(a \<mapsto> ob), c_next := c_next c + 2,
      c_reply := c_reply c @ [(c_next c + 1, a)], c_reply_bytes := c_reply_bytes c + m\<rparr>"
    using new unfolding c2_def by (auto simp: newObject_def addBytes_def listAddTail_def)
  have ne: "\<And>n b. (n, b) \<in> set (c_reply c) \<Longrightarrow> b \<noteq> a" using heap_ok_not_reply [OF h] a by force
  have r: "refs c2 b = refs c b + (if b = a then 1 else 0)" for b by (simp add: refs_def c2)
  have "heap_ok ext c2"
  proof (rule heap_okI)
    fix b ob' assume "c_heap c2 b = Some ob'"
    then show "b < c_next c2 \<and> v_wf (ob_encoding ob', ob_ptr ob') \<and> ob_refcount ob' = ext b + refs c2 b \<and> 0 < ob_refcount ob'"
      using heap_okD(1-4) [OF h, of b ob'] wf heap_ok_ext0 [OF h] refs_0 [OF h] a r [of b] by (auto simp: c2 split: if_splits)
  next
    fix b assume "0 < ext b"
    moreover have "b \<noteq> a" using calculation heap_ok_ext0 [OF h] a by auto
    ultimately show "\<exists>v. view (c_heap c2) b = Some v \<and> snd v \<noteq> PNull" using heap_okD(5) [OF h] by (simp add: c2 view_upd)
  next
    fix n b assume "(n, b) \<in> set (c_reply c2)"
    then consider "(n, b) \<in> set (c_reply c)" | "n = c_next c + 1" "b = a" by (auto simp: c2)
    then show "n < c_next c2 \<and> (\<exists>v. view (c_heap c2) b = Some v \<and> fst v \<noteq> REDIS_ENCODING_INT)"
    proof cases
      case 1
      then show ?thesis using heap_okD(6,7) [OF h 1] ne [OF 1] by (simp add: c2 view_upd)
    next
      case 2
      then show ?thesis using wf(2) by (simp add: c2 view_upd)
    qed
  next
    show "distinct (map fst (c_reply c2))" using heap_okD(8) [OF h] heap_okD(6) [OF h] by (force simp: c2)
  qed
  moreover have same: "view (c_heap c2) b = view (c_heap c) b" if "b \<in> snd ` set (c_reply c)" for b
  proof -
    have "b \<noteq> a" using that ne by force
    then show ?thesis by (simp add: c2 view_upd)
  qed
  have c2r: "c_reply c2 = c_reply c @ [(c_next c + 1, a)]" "c_reply_bytes c2 = c_reply_bytes c + m"
      "view (c_heap c2) a = Some (ob_encoding ob, ob_ptr ob)" by (simp_all add: c2 view_upd)
  have "(\<Sum>(n, b)\<leftarrow>c_reply c. v_used sv (view (c_heap c2) b)) = (\<Sum>(n, b)\<leftarrow>c_reply c. v_used sv (view (c_heap c) b))"
    by (rule arg_cong [where f = sum_list], rule texts_cong(2), rule same)
  then have "mem_ok sv c2" using mem m by (simp add: mem_ok_def c2r)
  moreover have "buf_ok c2" using b by (simp add: buf_ok_def c2)
  ultimately show "reply_inv sv ext (addBytes m (listAddTail a c1))" unfolding c2_def [symmetric] reply_inv_def by simp
  show "texts (addBytes m (listAddTail a c1)) = texts c @ [(c_next c + 1, v_text (Some (ob_encoding ob, ob_ptr ob)))]"
  proof -
    have "map (\<lambda>(n, b). (n, v_text (view (c_heap c2) b))) (c_reply c) = map (\<lambda>(n, b). (n, v_text (view (c_heap c) b))) (c_reply c)"
      by (rule texts_cong(1)) (rule same)
    then show ?thesis unfolding c2_def [symmetric] texts_def c2r map_append by (simp only: c2r list.map prod.case)
  qed
  show "rframe ext c (addBytes m (listAddTail a c1))" unfolding c2_def [symmetric] rframe_def
    using heap_ok_ext0 [OF h] a by (auto simp: c2 view_upd has_flag_def)
  show "c_heap c1 a = Some ob" using new by (auto simp: newObject_def)
qed


text \<open>A shared object as the last node.\<close>

lemma add_shared:
  assumes inv: "reply_inv sv ext c" and v: "view (c_heap c) a = Some (e, PSds s)" and pos: "0 < ext a"
    and inc: "incrRefCount a c = Some c1" and m: "m = v_used sv (Some (e, PSds s))"
  shows "reply_inv sv ext (addBytes m (listAddTail a c1))"
    "texts (addBytes m (listAddTail a c1)) = texts c @ [(c_next c, Some (sds_text s))]"
    "rframe ext c (addBytes m (listAddTail a c1))"
proof -
  have h: "heap_ok ext c" and b: "buf_ok c" and mem: "mem_ok sv c" using inv by (simp_all add: reply_inv_def)
  obtain ob where ob: "c_heap c a = Some ob" "ob_encoding ob = e" "ob_ptr ob = PSds s" using v by (auto simp: view_Some)
  define c2 where "c2 = addBytes m (listAddTail a c1)"
  have c2: "c2 = c\<lparr>c_heap := (c_heap c)(a \<mapsto> ob\<lparr>ob_refcount := ob_refcount ob + 1\<rparr>), c_next := c_next c + 1,
      c_reply := c_reply c @ [(c_next c, a)], c_reply_bytes := c_reply_bytes c + m\<rparr>"
    using inc ob(1) unfolding c2_def by (auto simp: incrRefCount_def addBytes_def listAddTail_def)
  have c2r: "c_reply c2 = c_reply c @ [(c_next c, a)]" "c_reply_bytes c2 = c_reply_bytes c + m" "c_next c2 = c_next c + 1"
      and vw: "view (c_heap c2) = view (c_heap c)" using view_upd_rc [of "c_heap c" a ob, OF ob(1)] by (simp_all add: c2)
  have r: "refs c2 b = refs c b + (if b = a then 1 else 0)" for b by (simp add: refs_def c2)
  have e: "e \<noteq> REDIS_ENCODING_INT" using heap_okD(2) [OF h ob(1)] ob by (simp add: v_wf_def)
  have "heap_ok ext c2"
  proof (rule heap_okI)
    fix b ob' assume b: "c_heap c2 b = Some ob'"
    show "b < c_next c2 \<and> v_wf (ob_encoding ob', ob_ptr ob') \<and> ob_refcount ob' = ext b + refs c2 b \<and> 0 < ob_refcount ob'"
    proof (cases "b = a")
      case True
      then have "ob' = ob\<lparr>ob_refcount := ob_refcount ob + 1\<rparr>" using b by (simp add: c2)
      then show ?thesis using True heap_okD(1-4) [OF h ob(1)] r [of a] c2r(3) by simp
    next
      case False
      then show ?thesis using heap_okD(1-4) [OF h, of b ob'] b r [of b] by (simp add: c2)
    qed
  next
    fix b assume "0 < ext b"
    then show "\<exists>v. view (c_heap c2) b = Some v \<and> snd v \<noteq> PNull" using heap_okD(5) [OF h] by (simp add: vw)
  next
    fix n b assume "(n, b) \<in> set (c_reply c2)"
    then consider "(n, b) \<in> set (c_reply c)" | "n = c_next c" "b = a" by (auto simp: c2r)
    then show "n < c_next c2 \<and> (\<exists>v. view (c_heap c2) b = Some v \<and> fst v \<noteq> REDIS_ENCODING_INT)"
    proof cases
      case 1
      then show ?thesis using heap_okD(6,7) [OF h 1] by (simp add: c2r vw)
    next
      case 2
      then show ?thesis using v e by (simp add: c2r vw)
    qed
  next
    show "distinct (map fst (c_reply c2))" using heap_okD(8) [OF h] heap_okD(6) [OF h] by (force simp: c2r)
  qed
  moreover have "mem_ok sv c2" using mem m v by (simp add: mem_ok_def c2r vw)
  moreover have "buf_ok c2" using b by (simp add: buf_ok_def c2)
  ultimately show "reply_inv sv ext (addBytes m (listAddTail a c1))" unfolding c2_def [symmetric] reply_inv_def by simp
  show "texts (addBytes m (listAddTail a c1)) = texts c @ [(c_next c, Some (sds_text s))]"
    unfolding c2_def [symmetric] texts_def using v by (simp add: c2r vw v_text_def)
  show "rframe ext c (addBytes m (listAddTail a c1))" unfolding c2_def [symmetric] rframe_def by (simp add: vw) (simp add: c2 has_flag_def)
qed


subsection \<open>Extending the last node\<close>

lemma sds_rep_read:
  "sds_rep s x \<Longrightarrow> sdslen s \<le> length (sh_buf s)" "sds_rep s x \<Longrightarrow> sdslen s < 2 ^ 32"
  "sds_rep s x \<Longrightarrow> take (sdslen s) (sh_buf s) = x"
  by (auto simp: sds_rep_def sdslen_def)

text \<open>The last object is duplicated when it is shared, so that it can be changed.\<close>

lemma dupLast_ok:
  assumes h: "heap_ok ext c" and r: "c_reply c = us @ [(n, t)]" and v: "view (c_heap c) t = Some (REDIS_ENCODING_RAW, PSds x)"
  shows "\<exists>tail c1 y. dupLastObjectIfNeeded sv c = Some (tail, c1) \<and> heap_ok ext c1 \<and> c_reply c1 = us @ [(n, tail)] \<and>
    view (c_heap c1) tail = Some (REDIS_ENCODING_RAW, PSds y) \<and> sds_rep y (sds_text x) \<and> ext tail = 0 \<and> tail \<notin> snd ` set us \<and>
    (\<forall>a. 0 < ext a \<or> a \<in> snd ` set us \<longrightarrow> view (c_heap c1) a = view (c_heap c) a) \<and>
    c1 = c\<lparr>c_heap := c_heap c1, c_next := c_next c1, c_reply := c_reply c1\<rparr>"
proof -
  obtain ob where ob: "c_heap c t = Some ob" "ob_encoding ob = REDIS_ENCODING_RAW" "ob_ptr ob = PSds x" using v by (auto simp: view_Some)
  have rep: "sds_rep x (sds_text x)" using heap_okD(2) [OF h ob(1)] ob by (simp add: v_wf_def)
  have rc: "ob_refcount ob = ext t + count_list (map snd us) t + 1" using heap_okD(3) [OF h ob(1)] by (simp add: refs_def r)
  show ?thesis
  proof (cases "ob_refcount ob > 1")
    case False
    then have z: "ext t = 0" "t \<notin> snd ` set us" using rc by (auto simp: count_list_0_iff)
    have "dupLastObjectIfNeeded sv c = Some (t, c)" using False ob r by (simp add: dupLastObjectIfNeeded_def)
    then show ?thesis using h r v rep z by auto
  next
    case True
    have "\<exists>y. sdsnewlen (sv_fresh sv) (Some (sh_buf x)) (sdslen x) = Some y \<and> sds_rep y (take (sdslen x) (sh_buf x))"
      by (rule sdsnewlen_ok) (rule sds_rep_read [OF rep])+
    then obtain y where y: "sdsnewlen (sv_fresh sv) (Some (sh_buf x)) (sdslen x) = Some y" "sds_rep y (sds_text x)"
      by (auto simp: sds_text_def sdslen_def)
    define new where "new = c_next c"
    define nob where "nob = \<lparr>ob_encoding = REDIS_ENCODING_RAW, ob_ptr = PSds y, ob_refcount = 1\<rparr>"
    define c1 where "c1 = c\<lparr>c_heap := (c_heap c)(new \<mapsto> nob, t \<mapsto> ob\<lparr>ob_refcount := ob_refcount ob - 1\<rparr>),
       c_next := c_next c + 1, c_reply := us @ [(n, new)]\<rparr>"
    have tn: "t \<noteq> new" using heap_ok_fresh [OF h] ob(1) by (auto simp: new_def)
    have nus: "new \<notin> snd ` set us" using heap_ok_not_reply [OF h] by (simp add: r new_def)
    have run: "dupLastObjectIfNeeded sv c = Some (new, c1)"
      using True ob r y(1) tn
      by (simp add: dupLastObjectIfNeeded_def dupStringObject_def createRawStringObject_def createObject_def newObject_def
          decrRefCount_def new_def nob_def c1_def)
    have vw: "view (c_heap c1) a = (if a = new then Some (REDIS_ENCODING_RAW, PSds y) else view (c_heap c) a)" for a
      using tn ob by (simp add: c1_def view_upd nob_def) (simp add: view_def)
    have n1: "c_next c1 = c_next c + 1" by (simp add: c1_def)
    have rf: "refs c1 a = (if a = new then 1 else if a = t then refs c a - 1 else refs c a)" for a
      using nus by (simp add: refs_def c1_def r tn)
    have "heap_ok ext c1"
    proof (rule heap_okI)
      fix b ob' assume b: "c_heap c1 b = Some ob'"
      consider "b = new" "ob' = nob" | "b = t" "ob' = ob\<lparr>ob_refcount := ob_refcount ob - 1\<rparr>" | "b \<noteq> new" "b \<noteq> t" "c_heap c b = Some ob'"
        using b tn by (auto simp: c1_def split: if_splits)
      then show "b < c_next c1 \<and> v_wf (ob_encoding ob', ob_ptr ob') \<and> ob_refcount ob' = ext b + refs c1 b \<and> 0 < ob_refcount ob'"
      proof cases
        case 1
        then show ?thesis using heap_ok_ext0 [OF h] rf [of new] sds_rep_text [OF y(2)] y(2)
          by (simp add: c1_def nob_def new_def v_wf_def)
      next
        case 2
        then show ?thesis using heap_okD(1-3) [OF h ob(1)] True rf [of t] tn by (simp add: c1_def) (simp add: refs_def r)
      next
        case 3
        then show ?thesis using heap_okD(1-4) [OF h 3(3)] rf [of b] by (simp add: c1_def)
      qed
    next
      fix b assume "0 < ext b"
      moreover have "b \<noteq> new" using calculation heap_ok_ext0 [OF h] by (auto simp: new_def)
      ultimately show "\<exists>v. view (c_heap c1) b = Some v \<and> snd v \<noteq> PNull" using heap_okD(5) [OF h] by (simp add: vw)
    next
      fix m b assume "(m, b) \<in> set (c_reply c1)"
      then consider "(m, b) \<in> set us" "b \<noteq> new" | "m = n" "b = new" using nus by (force simp: c1_def)
      then show "m < c_next c1 \<and> (\<exists>v. view (c_heap c1) b = Some v \<and> fst v \<noteq> REDIS_ENCODING_INT)"
      proof cases
        case 1
        then show ?thesis using heap_okD(6,7) [OF h, of m b] n1 by (simp add: vw r)
      next
        case 2
        then show ?thesis using heap_okD(6) [OF h, of n t] n1 by (simp add: vw r)
      qed
    next
      show "distinct (map fst (c_reply c1))" using heap_okD(8) [OF h] by (simp add: c1_def r)
    qed
    moreover have "view (c_heap c1) a = view (c_heap c) a" if "0 < ext a \<or> a \<in> snd ` set us" for a
      using that nus heap_ok_ext0 [OF h] by (auto simp: vw new_def)
    moreover have "c1 = c\<lparr>c_heap := c_heap c1, c_next := c_next c1, c_reply := c_reply c1\<rparr>" "c_reply c1 = us @ [(n, new)]"
      by (simp_all add: c1_def)
    moreover have "ext new = 0" using heap_ok_ext0 [OF h] by (simp add: new_def)
    moreover have "view (c_heap c1) new = Some (REDIS_ENCODING_RAW, PSds y)" by (simp add: vw)
    ultimately show ?thesis using run y(2) nus by blast
  qed
qed

lemma set_ptr:
  assumes h: "heap_ok ext c" and ob: "c_heap c t = Some ob" and e: "ext t = 0"
    and wf: "v_wf (enc, p)" "enc \<noteq> REDIS_ENCODING_INT"
  shows "heap_ok ext (c\<lparr>c_heap := (c_heap c)(t \<mapsto> ob\<lparr>ob_ptr := p, ob_encoding := enc\<rparr>)\<rparr>)"
proof (rule heap_okI)
  let ?c = "c\<lparr>c_heap := (c_heap c)(t \<mapsto> ob\<lparr>ob_ptr := p, ob_encoding := enc\<rparr>)\<rparr>"
  have rf: "refs ?c = refs c" by (simp add: refs_def fun_eq_iff)
  fix b ob' assume "c_heap ?c b = Some ob'"
  then show "b < c_next ?c \<and> v_wf (ob_encoding ob', ob_ptr ob') \<and> ob_refcount ob' = ext b + refs ?c b \<and> 0 < ob_refcount ob'"
    using heap_okD(1-4) [OF h, of b] ob wf(1) unfolding rf by (cases "b = t") auto
next
  let ?c = "c\<lparr>c_heap := (c_heap c)(t \<mapsto> ob\<lparr>ob_ptr := p, ob_encoding := enc\<rparr>)\<rparr>"
  fix b assume "0 < ext b"
  then show "\<exists>v. view (c_heap ?c) b = Some v \<and> snd v \<noteq> PNull" using heap_okD(5) [OF h, of b] e by (auto simp: view_upd)
next
  let ?c = "c\<lparr>c_heap := (c_heap c)(t \<mapsto> ob\<lparr>ob_ptr := p, ob_encoding := enc\<rparr>)\<rparr>"
  fix m b assume "(m, b) \<in> set (c_reply ?c)"
  then show "m < c_next ?c \<and> (\<exists>v. view (c_heap ?c) b = Some v \<and> fst v \<noteq> REDIS_ENCODING_INT)"
    using heap_okD(6,7) [OF h, of m b] wf(2) by (auto simp: view_upd)
next
  show "distinct (map fst (c_reply (c\<lparr>c_heap := (c_heap c)(t \<mapsto> ob\<lparr>ob_ptr := p, ob_encoding := enc\<rparr>)\<rparr>)))"
    using heap_okD(8) [OF h] by simp
qed


lemma heap_ok_cong:
  "c_heap c' = c_heap c \<Longrightarrow> c_next c' = c_next c \<Longrightarrow> c_reply c' = c_reply c \<Longrightarrow> heap_ok ext c' = heap_ok ext c"
  unfolding heap_ok_def refs_def by (simp only:)

lemma frameI:
  assumes "c' = c\<lparr>c_heap := h, c_next := m, c_reply := r, c_reply_bytes := b\<rparr>"
    and "\<And>a. 0 < ext a \<Longrightarrow> view h a = view (c_heap c) a"
  shows "rframe ext c c'"
  using assms by (simp add: rframe_def has_flag_def)

lemma appendToTail_ok:
  assumes inv: "reply_inv sv ext c" and r: "c_reply c = us @ [(n, t)]" and v: "view (c_heap c) t = Some (REDIS_ENCODING_RAW, PSds x)"
    and len: "len \<le> length s" "sdslen x + len \<le> REDIS_REPLY_CHUNK_BYTES"
  shows "\<exists>c'. appendToTail sv s len c = Some c' \<and> reply_inv sv ext c' \<and> extends (texts c) (texts c') (take len s) \<and>
    rframe ext c c' \<and> c_buf c' = c_buf c \<and> c_bufpos c' = c_bufpos c"
proof -
  have h: "heap_ok ext c" and b: "buf_ok c" and mem: "mem_ok sv c" using inv by (simp_all add: reply_inv_def)
  define rest where "rest = (\<Sum>(n, a)\<leftarrow>us. v_used sv (view (c_heap c) a))"
  have bytes: "c_reply_bytes c = rest + zmalloc_size_sds sv x" using mem r v by (simp add: mem_ok_def v_used_def rest_def)
  define c0 where "c0 = c\<lparr>c_reply_bytes := rest\<rparr>"
  have h0: "heap_ok ext c0" using h heap_ok_cong [of c0 c ext] by (simp add: c0_def)
  have r0: "c_reply c0 = us @ [(n, t)]" "c_heap c0 = c_heap c" using r by (simp_all add: c0_def)
  have v0: "view (c_heap c0) t = Some (REDIS_ENCODING_RAW, PSds x)" using v r0(2) by simp
  from dupLast_ok [OF h0 r0(1) v0, of sv] obtain tail c1 y where
    d: "dupLastObjectIfNeeded sv c0 = Some (tail, c1)" "heap_ok ext c1" "c_reply c1 = us @ [(n, tail)]"
      "view (c_heap c1) tail = Some (REDIS_ENCODING_RAW, PSds y)" "sds_rep y (sds_text x)" "ext tail = 0" "tail \<notin> snd ` set us"
    and same0: "\<forall>a. 0 < ext a \<or> a \<in> snd ` set us \<longrightarrow> view (c_heap c1) a = view (c_heap c0) a"
    and c1: "c1 = c0\<lparr>c_heap := c_heap c1, c_next := c_next c1, c_reply := c_reply c1\<rparr>"
    by (elim exE conjE)
  define hh nn where "hh = c_heap c1" and "nn = c_next c1"
  have c1e: "c1 = c0\<lparr>c_heap := hh, c_next := nn, c_reply := us @ [(n, tail)]\<rparr>" using c1 unfolding hh_def nn_def d(3) .
  have same: "\<And>a. 0 < ext a \<or> a \<in> snd ` set us \<Longrightarrow> view (c_heap c1) a = view (c_heap c) a" using same0 r0(2) by auto
  obtain ob where ob: "c_heap c1 tail = Some ob" "ob_encoding ob = REDIS_ENCODING_RAW" "ob_ptr ob = PSds y" using d(4) by (auto simp: view_Some)
  obtain ob0 where ob0: "c_heap c t = Some ob0" "ob_ptr ob0 = PSds x" using v by (auto simp: view_Some)
  have "sds_rep x (sds_text x)" using heap_okD(2) [OF h ob0(1)] ob0(2) by (simp add: v_wf_def)
  then have lx: "length (sds_text x) = sdslen x" using sds_rep_len [of x "sds_text x"] by (simp add: sdslen_def)
  have "\<exists>z. sdscatlen (sv_fresh sv) y s len = Some z \<and> sds_rep z (sds_text x @ take len s)"
    by (rule sdscatlen_ok [OF d(5)]) (use len lx in \<open>simp_all add: REDIS_REPLY_CHUNK_BYTES_def\<close>)
  then obtain z where z: "sdscatlen (sv_fresh sv) y s len = Some z" "sds_rep z (sds_text x @ take len s)" by (elim exE conjE)
  define c2 where "c2 = c1\<lparr>c_heap := (c_heap c1)(tail \<mapsto> ob\<lparr>ob_ptr := PSds z\<rparr>)\<rparr>"
  have ob': "ob\<lparr>ob_ptr := PSds z, ob_encoding := REDIS_ENCODING_RAW\<rparr> = ob\<lparr>ob_ptr := PSds z\<rparr>" using ob(2) by simp
  have "heap_ok ext (c1\<lparr>c_heap := (c_heap c1)(tail \<mapsto> ob\<lparr>ob_ptr := PSds z, ob_encoding := REDIS_ENCODING_RAW\<rparr>)\<rparr>)"
    by (rule set_ptr [OF d(2) ob(1) d(6)]) (use z(2) sds_rep_text [OF z(2)] in \<open>simp_all add: v_wf_def\<close>)
  then have h2: "heap_ok ext c2" unfolding c2_def ob' .
  define c3 where "c3 = addBytes (zmalloc_size_sds sv z) c2"
  have v3: "view (c_heap c3) tail = Some (REDIS_ENCODING_RAW, PSds z)" "\<And>a. a \<noteq> tail \<Longrightarrow> view (c_heap c3) a = view (c_heap c1) a"
    using ob(2) by (simp_all add: c3_def addBytes_def c2_def view_upd)
  have r3: "c_reply c3 = us @ [(n, tail)]" "c_reply_bytes c3 = rest + zmalloc_size_sds sv z"
    by (simp_all add: c3_def addBytes_def c2_def c1e c0_def)
  have us: "view (c_heap c3) a = view (c_heap c) a" if "a \<in> snd ` set us" for a using same [of a] v3(2) [of a] that d(7) by auto
  have f3: "c3 = c\<lparr>c_heap := c_heap c3, c_next := c_next c3, c_reply := c_reply c3, c_reply_bytes := c_reply_bytes c3\<rparr>"
    by (simp add: c3_def addBytes_def c2_def c1e c0_def)
  have "appendToTail sv s len c = Some c3"
    using bytes v r ob0 d(1) ob z(1)
    by (simp add: appendToTail_def subBytes_def c0_def [symmetric] c3_def c2_def)
  moreover have "reply_inv sv ext c3"
  proof -
    have "heap_ok ext c3" using h2 heap_ok_cong [of c3 c2 ext] by (simp add: c3_def addBytes_def)
    moreover have "(\<Sum>(n, a)\<leftarrow>us. v_used sv (view (c_heap c3) a)) = rest" unfolding rest_def
      by (rule arg_cong [where f = sum_list], rule texts_cong(2), rule us)
    then have "mem_ok sv c3" using r3 v3(1) by (simp add: mem_ok_def v_used_def)
    moreover have "buf_ok c3" using b by (simp add: buf_ok_def c3_def addBytes_def c2_def c1e c0_def)
    ultimately show ?thesis by (simp add: reply_inv_def)
  qed
  moreover have "extends (texts c) (texts c3) (take len s)"
  proof -
    have "map (\<lambda>(n, a). (n, v_text (view (c_heap c3) a))) us = map (\<lambda>(n, a). (n, v_text (view (c_heap c) a))) us"
      by (rule texts_cong(1)) (rule us)
    then have "texts c3 = map (\<lambda>(n, a). (n, v_text (view (c_heap c) a))) us @ [(n, Some (sds_text x @ take len s))]"
      unfolding texts_def r3(1) map_append using v3(1) sds_rep_text [OF z(2)] by (simp only: list.map prod.case v_text_def option.case obj_ptr.case)
    moreover have "texts c = map (\<lambda>(n, a). (n, v_text (view (c_heap c) a))) us @ [(n, Some (sds_text x))]"
      using r v by (simp add: texts_def v_text_def)
    ultimately show ?thesis unfolding extends_def by blast
  qed
  moreover have "rframe ext c c3"
  proof -
    have "view (c_heap c3) a = view (c_heap c) a" if "0 < ext a" for a
      using same [of a] v3(2) [of a] that d(6) by (cases "a = tail") auto
    then show ?thesis by (rule frameI [OF f3])
  qed
  moreover have "c_buf c3 = c_buf c" "c_bufpos c3 = c_bufpos c" by (simp_all add: c3_def addBytes_def c2_def c1e c0_def)
  ultimately show ?thesis by blast
qed


text \<open>What every function that adds to the list does.\<close>

definition listed :: "server_env \<Rightarrow> (nat \<Rightarrow> nat) \<Rightarrow> redisClient \<Rightarrow> bytes \<Rightarrow> redisClient \<Rightarrow> bool" where
  "listed sv ext c s c' \<longleftrightarrow> reply_inv sv ext c' \<and> extends (texts c) (texts c') s \<and> rframe ext c c' \<and>
     c_buf c' = c_buf c \<and> c_bufpos c' = c_bufpos c"

lemma listed_async: "listed sv ext c s c' \<Longrightarrow> listed sv ext c s (asyncCloseClientOnOutputBufferLimitReached sv c')"
  using only_flags_fields [OF asyncClose_flags [of c' sv]] unfolding listed_def by (auto intro: rframe_trans)

lemma listed_new:
  assumes "reply_inv sv ext c" "newObject ob c = (a, c1)" "ob_ptr ob = PSds s" "ob_encoding ob \<noteq> REDIS_ENCODING_INT"
    "ob_refcount ob = 1" "sds_rep s x" "m = v_used sv (Some (ob_encoding ob, ob_ptr ob))"
  shows "listed sv ext c x (addBytes m (listAddTail a c1))"
proof -
  have wf: "v_wf (ob_encoding ob, ob_ptr ob)" using assms sds_rep_text [OF assms(6)] by (simp add: v_wf_def)
  have "v_text (Some (ob_encoding ob, ob_ptr ob)) = Some x" using assms(3) sds_rep_text [OF assms(6)] by (simp add: v_text_def)
  then have "extends (texts c) (texts (addBytes m (listAddTail a c1))) x"
    using add_new(2) [OF assms(1) wf assms(4,5,2,7)] by (auto simp: extends_def)
  moreover have "c_buf (addBytes m (listAddTail a c1)) = c_buf c" "c_bufpos (addBytes m (listAddTail a c1)) = c_bufpos c"
    using assms(2) by (auto simp: newObject_def addBytes_def listAddTail_def)
  ultimately show ?thesis using add_new(1,3) [OF assms(1) wf assms(4,5,2,7)] unfolding listed_def by blast
qed

lemma used_eq: "getStringObjectSdsUsedMemory sv ob = Some (v_used sv (Some (ob_encoding ob, ob_ptr ob)))"
  if "v_wf (ob_encoding ob, ob_ptr ob)" "ob_ptr ob = PSds s"
  using that by (cases "ob_encoding ob") (simp_all add: getStringObjectSdsUsedMemory_def v_used_def v_wf_def)

lemma createStringObject_ok:
  assumes "len \<le> length s" "len < 2 ^ 32"
  shows "\<exists>ob y. createStringObject sv s len c = Some (newObject ob c) \<and> ob_ptr ob = PSds y \<and> ob_encoding ob \<noteq> REDIS_ENCODING_INT \<and>
    ob_refcount ob = 1 \<and> sds_rep y (take len s)"
proof (cases "len \<le> 39")
  case True
  have "\<exists>y. mk_sds len 0 (take len s @ [0]) = Some y \<and> sds_rep y (take len s)"
    by (rule mk_sds_rep [where ys = "[]"]) (use assms in simp_all)
  then obtain y where "mk_sds len 0 (take len s @ [0]) = Some y" "sds_rep y (take len s)" by (elim exE conjE)
  then show ?thesis using True assms by (auto simp: createStringObject_def createEmbeddedStringObject_def mem_read_def)
next
  case False
  then show ?thesis using sdsnewlen_ok [OF assms, of "sv_fresh sv"]
    by (auto simp: createStringObject_def createRawStringObject_def createObject_def)
qed

lemma tailHasRoom_ok:
  assumes "heap_ok ext c" "c_reply c \<noteq> []"
  shows "\<exists>b. tailHasRoom len c = Some b \<and>
    (b \<longrightarrow> (\<exists>us n t x. c_reply c = us @ [(n, t)] \<and> view (c_heap c) t = Some (REDIS_ENCODING_RAW, PSds x) \<and>
       sdslen x + len \<le> REDIS_REPLY_CHUNK_BYTES))"
proof -
  obtain us n t where r: "c_reply c = us @ [(n, t)]" using assms(2) by (cases "c_reply c" rule: rev_cases) auto
  obtain ob where ob: "c_heap c t = Some ob" using heap_ok_reply [OF assms(1), of n t] r by auto
  then show ?thesis using r
    by (cases "ob_ptr ob") (auto simp: tailHasRoom_def view_def)
qed

lemma room_cases:
  assumes inv: "reply_inv sv ext c" and len: "len \<le> length s"
    and new: "\<exists>c'. new = Some c' \<and> listed sv ext c (take len s) c'"
  shows "\<exists>c'. do { room \<leftarrow> (if length (c_reply c) = 0 then Some False else tailHasRoom len c);
       c \<leftarrow> (if room then appendToTail sv s len c else new);
       Some (asyncCloseClientOnOutputBufferLimitReached sv c) } = Some c' \<and> listed sv ext c (take len s) c'"
proof -
  obtain d where d: "new = Some d" "listed sv ext c (take len s) d" using new by (elim exE conjE)
  have h: "heap_ok ext c" using inv by (simp add: reply_inv_def)
  show ?thesis
  proof (cases "length (c_reply c) = 0 \<or> tailHasRoom len c = Some False")
    case True
    then show ?thesis using d(1) listed_async [OF d(2)] by auto
  next
    case False
    then obtain us n t x where t: "tailHasRoom len c = Some True" "c_reply c = us @ [(n, t)]"
        "view (c_heap c) t = Some (REDIS_ENCODING_RAW, PSds x)" "sdslen x + len \<le> REDIS_REPLY_CHUNK_BYTES"
      using tailHasRoom_ok [OF h, of len] by auto
    obtain c' where "appendToTail sv s len c = Some c'" "listed sv ext c (take len s) c'"
      using appendToTail_ok [OF inv t(2,3) len t(4)] unfolding listed_def by (elim exE conjE) blast
    then show ?thesis using t(1,2) listed_async [of sv ext c "take len s" c'] by simp
  qed
qed

lemma addReplyStringToList_ok:
  assumes inv: "reply_inv sv ext c" and len: "len \<le> length s" "len < 2 ^ 32" and f: "\<not> has_flag REDIS_CLOSE_AFTER_REPLY c"
  shows "\<exists>c'. addReplyStringToList sv s len c = Some c' \<and> listed sv ext c (take len s) c'"
proof -
  from createStringObject_ok [OF len, of sv c] obtain ob y where
    y: "createStringObject sv s len c = Some (newObject ob c)" "ob_ptr ob = PSds y" "ob_encoding ob \<noteq> REDIS_ENCODING_INT"
      "ob_refcount ob = 1" "sds_rep y (take len s)" by (elim exE conjE)
  obtain a c1 where n: "newObject ob c = (a, c1)" by (cases "newObject ob c")
  then have a: "c_heap c1 a = Some ob" by (auto simp: newObject_def)
  have "v_wf (ob_encoding ob, ob_ptr ob)" using y sds_rep_text [OF y(5)] by (simp add: v_wf_def)
  note u = used_eq [OF this y(2), of sv]
  have "listed sv ext c (take len s) (addBytes (v_used sv (Some (ob_encoding ob, ob_ptr ob))) (listAddTail a c1))"
    by (rule listed_new [OF inv n y(2-5) refl])
  then have "\<exists>c'. do { (a, c) \<leftarrow> createStringObject sv s len c; ob \<leftarrow> c_heap c a; m \<leftarrow> getStringObjectSdsUsedMemory sv ob;
      Some (addBytes m (listAddTail a c)) } = Some c' \<and> listed sv ext c (take len s) c'"
    using y(1) n a u by simp
  then show ?thesis using room_cases [OF inv len(1)] f unfolding addReplyStringToList_def by simp
qed

lemma addReplySdsToList_ok:
  assumes inv: "reply_inv sv ext c" and s: "sds_rep s x" and f: "\<not> has_flag REDIS_CLOSE_AFTER_REPLY c"
  shows "\<exists>c'. addReplySdsToList sv s c = Some c' \<and> listed sv ext c x c'"
proof -
  obtain a c1 where n: "createObject (PSds s) c = (a, c1)" by (cases "createObject (PSds s) c")
  have "listed sv ext c x (addBytes (zmalloc_size_sds sv s) (listAddTail a c1))"
    by (rule listed_new [OF inv n [unfolded createObject_def], of s]) (use s in \<open>simp_all add: v_used_def\<close>)
  then have "\<exists>c'. (let (a, c) = createObject (PSds s) c in Some (addBytes (zmalloc_size_sds sv s) (listAddTail a c))) = Some c' \<and>
      listed sv ext c (take (sdslen s) (sh_buf s)) c'" using n sds_rep_read(3) [OF s] by simp
  then show ?thesis using room_cases [OF inv sds_rep_read(1) [OF s]] f sds_rep_read(3) [OF s]
    unfolding addReplySdsToList_def by simp
qed

lemma addReplyObjectToList_ok:
  assumes inv: "reply_inv sv ext c" and v: "view (c_heap c) a = Some (e, PSds s)" "0 < ext a" and f: "\<not> has_flag REDIS_CLOSE_AFTER_REPLY c"
  shows "\<exists>c'. addReplyObjectToList sv a c = Some c' \<and> listed sv ext c (sds_text s) c'"
proof -
  obtain ob where ob: "c_heap c a = Some ob" "ob_encoding ob = e" "ob_ptr ob = PSds s" using v(1) by (auto simp: view_Some)
  have h: "heap_ok ext c" using inv by (simp add: reply_inv_def)
  have wf: "v_wf (ob_encoding ob, ob_ptr ob)" by (rule heap_okD(2) [OF h ob(1)])
  then have s: "sds_rep s (sds_text s)" using ob by (simp add: v_wf_def)
  obtain c1 where c1: "incrRefCount a c = Some c1" using ob by (simp add: incrRefCount_def)
  have "c_buf c1 = c_buf c" "c_bufpos c1 = c_bufpos c" using c1 ob by (auto simp: incrRefCount_def)
  then have "listed sv ext c (sds_text s) (addBytes (v_used sv (Some (e, PSds s))) (listAddTail a c1))"
    using add_shared [OF inv v c1 refl] unfolding listed_def extends_def by (auto simp: addBytes_def listAddTail_def)
  then have "\<exists>c'. do { c \<leftarrow> incrRefCount a c; m \<leftarrow> getStringObjectSdsUsedMemory sv ob; Some (addBytes m (listAddTail a c)) } = Some c' \<and>
      listed sv ext c (take (sdslen s) (sh_buf s)) c'"
    using c1 used_eq [OF wf ob(3), of sv] ob sds_rep_read(3) [OF s] by simp
  then show ?thesis using room_cases [OF inv sds_rep_read(1) [OF s]] f sds_rep_read(3) [OF s] ob
    unfolding addReplyObjectToList_def by simp
qed

end
