(* ===== verification/ReplyStream.thy ===== *)
theory ReplyStream
  imports ReplyHeap
begin

unbundle bit_operations_syntax

text \<open>
  Replies as a stream of bytes: each reply function appends its protocol text to what
  the buffers hold, the transmission removes a prefix, and so the client receives the
  texts of its replies in order.
\<close>

section \<open>Replies as a stream of bytes\<close>

type_synonym ostate = "bytes \<times> (nat \<times> bytes option) list"

definition ost :: "redisClient \<Rightarrow> ostate" where
  "ost c = (take (c_bufpos c) (c_buf c), texts c)"

definition push :: "ostate \<Rightarrow> bytes \<Rightarrow> ostate \<Rightarrow> bool" where
  "push x s y \<longleftrightarrow> (snd x = [] \<and> snd y = [] \<and> fst y = fst x @ s) \<or> (fst y = fst x \<and> extends (snd x) (snd y) s)"

inductive chain :: "ostate \<Rightarrow> bytes \<Rightarrow> ostate \<Rightarrow> bool" where
  chain_refl: "chain x [] x"
| chain_step: "chain x s y \<Longrightarrow> push y t z \<Longrightarrow> chain x (s @ t) z"

definition flat :: "(nat \<times> bytes option) list \<Rightarrow> bytes" where
  "flat r = concat (map (\<lambda>(n, t). case t of Some x \<Rightarrow> x | None \<Rightarrow> []) r)"

definition all_bytes :: "ostate \<Rightarrow> bytes" where
  "all_bytes x = fst x @ flat (snd x)"

lemma chain_push: "push x s y \<Longrightarrow> chain x s y"
  using chain_step [OF chain_refl] by fastforce

lemma chain_trans: "chain y t z \<Longrightarrow> chain x s y \<Longrightarrow> chain x (s @ t) z"
proof (induction rule: chain.induct)
  case (chain_step y t z u w)
  then show ?case using chain.chain_step [of x "s @ t" z u w] by simp
qed simp

lemma chain_bytes: "chain x s y \<Longrightarrow> all_bytes y = all_bytes x @ s"
proof (induction rule: chain.induct)
  case (chain_step x s y t z)
  have "all_bytes z = all_bytes y @ t" using chain_step.hyps(2) by (auto simp: push_def all_bytes_def extends_def flat_def)
  then show ?case using chain_step.IH by simp
qed simp

text \<open>Nothing is moved in front of a length that is not known yet.\<close>

lemma chain_hole:
  "chain x s y \<Longrightarrow> x = (b, r @ (m, None) # post) \<Longrightarrow> \<exists>post'. y = (b, r @ (m, None) # post') \<and> flat post' = flat post @ s"
proof (induction rule: chain.induct)
  case (chain_step x s y t z)
  then obtain post' where y: "y = (b, r @ (m, None) # post')" "flat post' = flat post @ s" by auto
  obtain q where z: "z = (b, q)" "extends (r @ (m, None) # post') q t" using chain_step.hyps(2) y(1) by (cases z) (auto simp: push_def)
  from z(2) show ?case unfolding extends_def
  proof (elim disjE exE conjE)
    fix k assume "q = (r @ (m, None) # post') @ [(k, Some t)]"
    then show ?thesis using y(2) z(1) by (intro exI [of _ "post' @ [(k, Some t)]"]) (simp add: flat_def)
  next
    fix us n u assume e: "r @ (m, None) # post' = us @ [(n, Some u)]" and q: "q = us @ [(n, Some (u @ t))]"
    obtain vs where "post' = vs @ [(n, Some u)]" using e by (cases post' rule: rev_cases) auto
    then show ?thesis using e q y(2) z(1) by (intro exI [of _ "vs @ [(n, Some (u @ t))]"]) (simp add: flat_def)
  qed
qed simp

lemma chain_full:
  "chain x s y \<Longrightarrow> x = (b, r @ [(m, None)]) \<Longrightarrow> snd y = r @ (m, None) # post \<Longrightarrow> list_all (\<lambda>(n, t). t \<noteq> None) post"
proof (induction arbitrary: post rule: chain.induct)
  case (chain_step x s y t z)
  from chain_hole [OF chain_step.hyps(1) chain_step.prems(1)] obtain post' where y: "snd y = r @ (m, None) # post'" by auto
  have full: "list_all (\<lambda>(n, t). t \<noteq> None) post'" by (rule chain_step.IH [OF chain_step.prems(1) y])
  have "extends (snd y) (snd z) t" using chain_step.hyps(2) y by (auto simp: push_def)
  then show ?case unfolding extends_def
  proof (elim disjE exE conjE)
    fix k assume "snd z = snd y @ [(k, Some t)]"
    then show ?thesis using y full chain_step.prems(2) by simp
  next
    fix us n u assume e: "snd y = us @ [(n, Some u)]" and q: "snd z = us @ [(n, Some (u @ t))]"
    obtain vs where vs: "post' = vs @ [(n, Some u)]" using e y by (cases post' rule: rev_cases) auto
    then have "us = r @ (m, None) # vs" using e y by simp
    then have "post = vs @ [(n, Some (u @ t))]" using q chain_step.prems(2) by simp
    then show ?thesis using full vs by simp
  qed
qed simp

definition appended :: "server_env \<Rightarrow> (nat \<Rightarrow> nat) \<Rightarrow> redisClient \<Rightarrow> bytes \<Rightarrow> redisClient \<Rightarrow> bool" where
  "appended sv ext c s c' \<longleftrightarrow> reply_inv sv ext c' \<and> rframe ext c c' \<and> chain (ost c) s (ost c')"

lemma appended_trans: "appended sv ext c s c1 \<Longrightarrow> appended sv ext c1 t c2 \<Longrightarrow> appended sv ext c (s @ t) c2"
  unfolding appended_def using chain_trans rframe_trans by blast

lemma listed_appended: "listed sv ext c s c' \<Longrightarrow> appended sv ext c s c'"
  unfolding listed_def appended_def ost_def by (auto intro!: chain_push simp: push_def)

lemma appended_only_flags: "only_flags c c1 \<Longrightarrow> appended sv ext c1 s c2 \<Longrightarrow> appended sv ext c s c2"
  using only_flags_fields [of c c1] unfolding appended_def ost_def by (auto intro: rframe_trans)

lemma addReplyToBuffer_ok:
  assumes inv: "reply_inv sv ext c" and len: "len \<le> length s" and f: "\<not> has_flag REDIS_CLOSE_AFTER_REPLY c"
  shows "\<exists>b c'. addReplyToBuffer s len c = Some (b, c') \<and> (b \<longrightarrow> appended sv ext c (take len s) c') \<and> (\<not> b \<longrightarrow> c' = c)"
proof (cases "c_reply c \<noteq> [] \<or> len > REDIS_REPLY_CHUNK_BYTES - c_bufpos c")
  case True
  then show ?thesis using f by (auto simp: addReplyToBuffer_def Let_def)
next
  case False
  have b: "length (c_buf c) = REDIS_REPLY_CHUNK_BYTES" "c_bufpos c + len \<le> REDIS_REPLY_CHUNK_BYTES"
    using inv False by (auto simp: reply_inv_def buf_ok_def)
  define c1 where "c1 = c\<lparr>c_buf := take (c_bufpos c) (c_buf c) @ take len s @ drop (c_bufpos c + len) (c_buf c), c_bufpos := c_bufpos c + len\<rparr>"
  have "addReplyToBuffer s len c = Some (True, c1)"
    using False f b len by (simp add: addReplyToBuffer_def mem_read_def mem_write_def Let_def c1_def)
  moreover have "reply_inv sv ext c1"
  proof -
    have "heap_ok ext c1" using inv heap_ok_cong [of c1 c ext] by (simp add: reply_inv_def c1_def)
    moreover have "mem_ok sv c1" using inv by (simp add: reply_inv_def mem_ok_def c1_def)
    moreover have "buf_ok c1" using b len by (simp add: buf_ok_def c1_def)
    ultimately show ?thesis by (simp add: reply_inv_def)
  qed
  moreover have "rframe ext c c1" by (simp add: rframe_def c1_def has_flag_def)
  moreover have "push (ost c) (take len s) (ost c1)" using False b len by (simp add: push_def ost_def texts_def c1_def)
  ultimately show ?thesis unfolding appended_def using chain_push by blast
qed

lemma accepts_flag: "accepts sv c \<Longrightarrow> \<not> has_flag REDIS_CLOSE_AFTER_REPLY c"
  by (simp add: accepts_def)

text \<open>First the buffer, then the list.\<close>

lemma buffer_or_list:
  assumes inv: "reply_inv sv ext c" and len: "len \<le> length s" and f: "\<not> has_flag REDIS_CLOSE_AFTER_REPLY c"
    and l: "\<exists>c'. f c = Some c' \<and> listed sv ext c (take len s) c'"
  shows "\<exists>c'. do { (ok, c) \<leftarrow> addReplyToBuffer s len c; (if ok then Some c else f c) } = Some c' \<and> appended sv ext c (take len s) c'"
proof -
  obtain b c1 where b: "addReplyToBuffer s len c = Some (b, c1)" "b \<longrightarrow> appended sv ext c (take len s) c1" "\<not> b \<longrightarrow> c1 = c"
    using addReplyToBuffer_ok [OF inv len f] by (elim exE conjE)
  then show ?thesis using l listed_appended by (cases b) auto
qed

lemma addReplyString_ok:
  assumes inv: "reply_inv sv ext c" and acc: "accepts sv c" and len: "len \<le> length s" "len < 2 ^ 32"
  shows "\<exists>c'. addReplyString sv s len c = Some c' \<and> appended sv ext c (take len s) c'"
proof -
  obtain c1 where c1: "prepareClientToWrite sv c = (True, c1)" "only_flags c c1" using prepare_ok [OF acc] by (elim exE conjE)
  have inv1: "reply_inv sv ext c1" using only_flags_fields(1) [OF c1(2)] inv by simp
  have f1: "\<not> has_flag REDIS_CLOSE_AFTER_REPLY c1"
    using accepts_flag accepts_frame [OF only_flags_fields(3) [OF c1(2)]] acc by blast
  have "\<exists>c'. do { (ok, c) \<leftarrow> addReplyToBuffer s len c1; (if ok then Some c else addReplyStringToList sv s len c) } = Some c' \<and>
      appended sv ext c1 (take len s) c'"
    by (rule buffer_or_list [OF inv1 len(1) f1]) (rule addReplyStringToList_ok [OF inv1 len f1])
  then show ?thesis using c1 appended_only_flags [OF c1(2)] unfolding addReplyString_def by auto
qed

lemma addReplySds_ok:
  assumes inv: "reply_inv sv ext c" and acc: "accepts sv c" and s: "sds_rep s x"
  shows "\<exists>c'. addReplySds sv s c = Some c' \<and> appended sv ext c x c'"
proof -
  obtain c1 where c1: "prepareClientToWrite sv c = (True, c1)" "only_flags c c1" using prepare_ok [OF acc] by (elim exE conjE)
  have inv1: "reply_inv sv ext c1" using only_flags_fields(1) [OF c1(2)] inv by simp
  have f1: "\<not> has_flag REDIS_CLOSE_AFTER_REPLY c1"
    using accepts_flag accepts_frame [OF only_flags_fields(3) [OF c1(2)]] acc by blast
  have "\<exists>c'. do { (ok, c) \<leftarrow> addReplyToBuffer (sh_buf s) (sdslen s) c1; (if ok then Some c else addReplySdsToList sv s c) } = Some c' \<and>
      appended sv ext c1 (take (sdslen s) (sh_buf s)) c'"
    by (rule buffer_or_list [OF inv1 sds_rep_read(1) [OF s] f1])
      (use addReplySdsToList_ok [OF inv1 s f1] sds_rep_read(3) [OF s] in simp)
  then show ?thesis using c1 appended_only_flags [OF c1(2)] sds_rep_read(3) [OF s] unfolding addReplySds_def by auto
qed

lemma addReplyText_ok:
  assumes inv: "reply_inv sv ext c" and f: "\<not> has_flag REDIS_CLOSE_AFTER_REPLY c"
    and v: "view (c_heap c) a = Some (e, PSds s)" "0 < ext a"
  shows "\<exists>c'. addReplyText sv a s c = Some c' \<and> appended sv ext c (sds_text s) c'"
proof -
  obtain ob where ob: "c_heap c a = Some ob" "ob_ptr ob = PSds s" using v(1) by (auto simp: view_Some)
  have "heap_ok ext c" using inv by (simp add: reply_inv_def)
  from heap_okD(2) [OF this ob(1)] have s: "sds_rep s (sds_text s)" using ob by (simp add: v_wf_def)
  show ?thesis using buffer_or_list [OF inv sds_rep_read(1) [OF s] f, of "addReplyObjectToList sv a"]
      addReplyObjectToList_ok [OF inv v f] sds_rep_read(3) [OF s]
    unfolding addReplyText_def by simp
qed


subsection \<open>Objects held while they are sent\<close>

lemma hold_new:
  assumes inv: "reply_inv sv ext c" and wf: "v_wf (ob_encoding ob, ob_ptr ob)" "ob_ptr ob \<noteq> PNull" "ob_refcount ob = 1"
    and new: "newObject ob c = (a, c1)"
  shows "reply_inv sv (ext(a := 1)) c1" "rframe ext c c1" "ost c1 = ost c" "ext a = 0" "view (c_heap c1) a = Some (ob_encoding ob, ob_ptr ob)"
proof -
  have h: "heap_ok ext c" and b: "buf_ok c" and mem: "mem_ok sv c" using inv by (simp_all add: reply_inv_def)
  have a: "a = c_next c" and c1: "c1 = c\<lparr>c_heap := (c_heap c)(a \<mapsto> ob), c_next := c_next c + 1\<rparr>"
    using new by (auto simp: newObject_def)
  show e: "ext a = 0" using heap_ok_ext0 [OF h] a by simp
  show va: "view (c_heap c1) a = Some (ob_encoding ob, ob_ptr ob)" by (simp add: c1 view_upd)
  have na: "a \<notin> snd ` set (c_reply c)" using heap_ok_not_reply [OF h] a by simp
  have same: "view (c_heap c1) x = view (c_heap c) x" if "x \<in> snd ` set (c_reply c)" for x using that na by (auto simp: c1 view_upd)
  have r1: "c_reply c1 = c_reply c" "c_next c1 = c_next c + 1" "c_reply_bytes c1 = c_reply_bytes c" "refs c1 = refs c"
    by (simp_all add: c1 refs_def fun_eq_iff)
  have "heap_ok (ext(a := 1)) c1"
  proof (rule heap_okI)
    fix x ob' assume x: "c_heap c1 x = Some ob'"
    show "x < c_next c1 \<and> v_wf (ob_encoding ob', ob_ptr ob') \<and> ob_refcount ob' = (ext(a := 1)) x + refs c1 x \<and> 0 < ob_refcount ob'"
    proof (cases "x = a")
      case True
      then show ?thesis using x wf refs_0 [OF h] a r1 by (simp add: c1)
    next
      case False
      then show ?thesis using x heap_okD(1-4) [OF h, of x ob'] r1 by (simp add: c1)
    qed
  next
    fix x assume "0 < (ext(a := 1)) x"
    then show "\<exists>v. view (c_heap c1) x = Some v \<and> snd v \<noteq> PNull" using heap_okD(5) [OF h, of x] wf(2) by (cases "x = a") (auto simp: c1 view_upd)
  next
    fix n x assume x: "(n, x) \<in> set (c_reply c1)"
    then have "x \<in> snd ` set (c_reply c)" using r1(1) by force
    then show "n < c_next c1 \<and> (\<exists>v. view (c_heap c1) x = Some v \<and> fst v \<noteq> REDIS_ENCODING_INT)"
      using heap_okD(6,7) [OF h, of n x] x r1 same by simp
  next
    show "distinct (map fst (c_reply c1))" using heap_okD(8) [OF h] r1 by simp
  qed
  moreover have "(\<Sum>(n, b)\<leftarrow>c_reply c. v_used sv (view (c_heap c1) b)) = (\<Sum>(n, b)\<leftarrow>c_reply c. v_used sv (view (c_heap c) b))"
    by (rule arg_cong [where f = sum_list], rule texts_cong(2), rule same)
  then have "mem_ok sv c1" using mem by (simp add: mem_ok_def r1)
  moreover have "buf_ok c1" using b by (simp add: buf_ok_def c1)
  ultimately show "reply_inv sv (ext(a := 1)) c1" by (simp add: reply_inv_def)
  show "rframe ext c c1" using e by (auto simp: rframe_def c1 view_upd has_flag_def)
  have "texts c1 = texts c" unfolding texts_def r1 by (rule texts_cong(1)) (rule same)
  then show "ost c1 = ost c" by (simp add: ost_def) (simp add: c1)
qed

lemma release:
  assumes inv: "reply_inv sv (ext(a := Suc (ext a))) c"
  shows "\<exists>c'. decrRefCount a c = Some c' \<and> reply_inv sv ext c' \<and> rframe ext c c' \<and> ost c' = ost c"
proof -
  have h: "heap_ok (ext(a := Suc (ext a))) c" and b: "buf_ok c" and mem: "mem_ok sv c" using inv by (simp_all add: reply_inv_def)
  obtain ob where ob: "c_heap c a = Some ob" using heap_okD(5) [OF h, of a] by (auto simp: view_Some)
  have rc: "ob_refcount ob = Suc (ext a) + refs c a" using heap_okD(3) [OF h ob] by simp
  define h' where "h' = (if ob_refcount ob = 1 then (c_heap c)(a := None) else (c_heap c)(a \<mapsto> ob\<lparr>ob_refcount := ob_refcount ob - 1\<rparr>))"
  define c1 where "c1 = c\<lparr>c_heap := h'\<rparr>"
  have run: "decrRefCount a c = Some c1" using ob rc by (simp add: decrRefCount_def c1_def h'_def)
  have v1: "view h' x = view (c_heap c) x" if "x \<noteq> a \<or> ob_refcount ob \<noteq> 1" for x
    using that ob by (auto simp: h'_def view_def)
  have same: "view (c_heap c1) x = view (c_heap c) x" if "x \<in> snd ` set (c_reply c)" for x
  proof -
    have "x \<noteq> a \<or> ob_refcount ob \<noteq> 1"
    proof (rule ccontr)
      assume "\<not> ?thesis"
      then have "refs c a = 0" "x = a" using rc by auto
      then show False using that by (simp add: refs_def count_list_0_iff)
    qed
    then show ?thesis using v1 by (simp add: c1_def)
  qed
  have r1: "c_reply c1 = c_reply c" "c_next c1 = c_next c" "c_reply_bytes c1 = c_reply_bytes c" "refs c1 = refs c"
    by (simp_all add: c1_def refs_def fun_eq_iff)
  have "heap_ok ext c1"
  proof (rule heap_okI)
    fix x ob' assume x: "c_heap c1 x = Some ob'"
    show "x < c_next c1 \<and> v_wf (ob_encoding ob', ob_ptr ob') \<and> ob_refcount ob' = ext x + refs c1 x \<and> 0 < ob_refcount ob'"
    proof (cases "x = a")
      case True
      then have "ob' = ob\<lparr>ob_refcount := ob_refcount ob - 1\<rparr>" "ob_refcount ob \<noteq> 1" using x by (auto simp: c1_def h'_def split: if_splits)
      then show ?thesis using True heap_okD(1,2) [OF h ob] rc r1 by simp
    next
      case False
      then have "c_heap c x = Some ob'" using x by (simp add: c1_def h'_def split: if_splits)
      then show ?thesis using False heap_okD(1-4) [OF h, of x ob'] r1 by simp
    qed
  next
    fix x assume x: "0 < ext x"
    then have "x \<noteq> a \<or> ob_refcount ob \<noteq> 1" using rc by auto
    then show "\<exists>v. view (c_heap c1) x = Some v \<and> snd v \<noteq> PNull" using heap_okD(5) [OF h, of x] v1 [of x] x by (simp add: c1_def)
  next
    fix n x assume x: "(n, x) \<in> set (c_reply c1)"
    then have "x \<in> snd ` set (c_reply c)" using r1(1) by force
    then show "n < c_next c1 \<and> (\<exists>v. view (c_heap c1) x = Some v \<and> fst v \<noteq> REDIS_ENCODING_INT)"
      using heap_okD(6,7) [OF h, of n x] x r1 same by simp
  next
    show "distinct (map fst (c_reply c1))" using heap_okD(8) [OF h] r1 by simp
  qed
  moreover have "(\<Sum>(n, b)\<leftarrow>c_reply c. v_used sv (view (c_heap c1) b)) = (\<Sum>(n, b)\<leftarrow>c_reply c. v_used sv (view (c_heap c) b))"
    by (rule arg_cong [where f = sum_list], rule texts_cong(2), rule same)
  then have "mem_ok sv c1" using mem by (simp add: mem_ok_def r1)
  moreover have "buf_ok c1" using b by (simp add: buf_ok_def c1_def)
  moreover have "view h' x = view (c_heap c) x" if "0 < ext x" for x using v1 [of x] that rc by auto
  then have "rframe ext c c1" by (simp add: rframe_def c1_def has_flag_def)
  moreover have "texts c1 = texts c" unfolding texts_def r1 by (rule texts_cong(1)) (rule same)
  then have "ost c1 = ost c" by (simp add: ost_def) (simp add: c1_def)
  ultimately show ?thesis using run by (simp add: reply_inv_def)
qed


lemma appended_hold:
  assumes "appended sv (ext(a := 1)) c1 s c2" "rframe ext c c1" "ost c1 = ost c" "ext a = 0"
  shows "rframe ext c c2" "chain (ost c) s (ost c2)"
proof -
  have "rframe ext c1 c2" using assms(1,4) unfolding appended_def rframe_def by auto
  then show "rframe ext c c2" using assms(2) rframe_trans by blast
  show "chain (ost c) s (ost c2)" using assms(1,3) by (simp add: appended_def)
qed

lemma ll2string_32:
  "32 \<le> n \<Longrightarrow> ll2string (mem_alloc fresh n) n v =
    Some (print_ll v @ 0 # drop (Suc (length (print_ll v))) (mem_alloc fresh n), length (print_ll v))"
  using ll2string_ok [of "mem_alloc fresh n" n v] length_print_ll [of v] by simp

lemma print_ll_nz: "0 \<notin> set (print_ll v)"
  using print_ll_chars [of 0 v] by auto

lemma c_str_prefix: "0 \<notin> set x \<Longrightarrow> c_str (x @ 0 # y) = x"
  by (auto simp: c_str_def takeWhile_append2 takeWhile_tail)

lemma addReplyInt_ok:
  assumes inv: "reply_inv sv ext c" and f: "\<not> has_flag REDIS_CLOSE_AFTER_REPLY c"
    and v: "view (c_heap c) a = Some (REDIS_ENCODING_INT, PInt n)"
  shows "\<exists>c'. addReplyInt sv a c = Some c' \<and> appended sv ext c (print_ll n) c'"
proof -
  define buf where "buf = print_ll n @ 0 # drop (Suc (length (print_ll n))) (mem_alloc (sv_fresh sv) 32)"
  have l: "length (c_str buf) = length (print_ll n)" unfolding buf_def by (simp add: c_str_prefix print_ll_nz)
  have le: "length (print_ll n) \<le> length buf" by (simp add: buf_def)
  have "length (print_ll n) < 2 ^ 32" using length_print_ll [of n] by simp
  from createStringObject_ok [OF le this, of sv c] obtain ob y where
    y: "createStringObject sv buf (length (print_ll n)) c = Some (newObject ob c)" "ob_ptr ob = PSds y" "ob_encoding ob \<noteq> REDIS_ENCODING_INT"
      "ob_refcount ob = 1" "sds_rep y (take (length (print_ll n)) buf)" by (elim exE conjE)
  have yt: "sds_rep y (print_ll n)" "sds_text y = print_ll n" using y(5) sds_rep_text by (simp_all add: buf_def)
  obtain b c1 where n: "newObject ob c = (b, c1)" by (cases "newObject ob c")
  have wf: "v_wf (ob_encoding ob, ob_ptr ob)" using y(2,3) yt by (simp add: v_wf_def)
  note hold = hold_new [OF inv wf _ y(4) n]
  have v1: "view (c_heap c1) b = Some (ob_encoding ob, PSds y)" using hold(5) y(2) by simp
  have inv1: "reply_inv sv (ext(b := 1)) c1" and fr: "rframe ext c c1" and o1: "ost c1 = ost c" and e: "ext b = 0" using hold y(2) by simp_all
  have f1: "\<not> has_flag REDIS_CLOSE_AFTER_REPLY c1"
    using fr f unfolding rframe_def by (simp add: REDIS_CLOSE_AFTER_REPLY_def REDIS_CLOSE_ASAP_def)
  obtain c2 where c2: "addReplyText sv b y c1 = Some c2" "appended sv (ext(b := 1)) c1 (print_ll n) c2"
    using addReplyText_ok [OF inv1 f1 v1] yt(2) by auto
  have inv2: "reply_inv sv (ext(b := 1)) c2" using c2(2) by (simp add: appended_def)
  obtain c3 where c3: "decrRefCount b c2 = Some c3" "reply_inv sv ext c3" "rframe ext c2 c3" "ost c3 = ost c2"
    using release [of sv ext b c2] inv2 e by auto
  obtain oa where oa: "c_heap c a = Some oa" "ob_encoding oa = REDIS_ENCODING_INT" "ob_ptr oa = PInt n" using v by (auto simp: view_Some)
  obtain ob1 where ob1: "c_heap c1 b = Some ob1" "ob_ptr ob1 = PSds y" using v1 by (auto simp: view_Some)
  have ll: "ll2string (mem_alloc (sv_fresh sv) 32) 32 n = Some (buf, length (print_ll n))" unfolding buf_def by (rule ll2string_32) simp
  have "getDecodedObject_heap sv a c = Some (b, c1)" using oa ll l y(1) n by (simp add: getDecodedObject_heap_def)
  then have "addReplyInt sv a c = Some c3" using ob1 c2(1) c3(1) by (simp add: addReplyInt_def)
  moreover have "appended sv ext c (print_ll n) c3"
    unfolding appended_def using c3 appended_hold [OF c2(2) fr o1 e] rframe_trans by auto
  ultimately show ?thesis by blast
qed

definition obj_text :: "redisClient \<Rightarrow> nat \<Rightarrow> bytes option" where
  "obj_text c a = v_text (view (c_heap c) a)"

lemma addReply_ok:
  assumes inv: "reply_inv sv ext c" and acc: "accepts sv c" and a: "0 < ext a" "obj_text c a = Some t"
  shows "\<exists>c'. addReply sv a c = Some c' \<and> appended sv ext c t c'"
proof -
  obtain c1 where c1: "prepareClientToWrite sv c = (True, c1)" "only_flags c c1" using prepare_ok [OF acc] by (elim exE conjE)
  have inv1: "reply_inv sv ext c1" using only_flags_fields(1) [OF c1(2)] inv by simp
  have f1: "\<not> has_flag REDIS_CLOSE_AFTER_REPLY c1"
    using accepts_flag accepts_frame [OF only_flags_fields(3) [OF c1(2)]] acc by blast
  have t1: "obj_text c1 a = Some t" using a(2) only_flags_fields(7) [OF c1(2)] by (simp add: obj_text_def)
  then obtain ob where ob: "c_heap c1 a = Some ob" by (auto simp: obj_text_def v_text_def view_def split: option.splits)
  have wf: "v_wf (ob_encoding ob, ob_ptr ob)" using inv1 heap_okD(2) [of ext c1, OF _ ob] by (simp add: reply_inv_def)
  have vw: "view (c_heap c1) a = Some (ob_encoding ob, ob_ptr ob)" using ob by (simp add: view_def)
  show ?thesis
  proof (cases "ob_ptr ob")
    case PNull
    then show ?thesis using t1 vw by (simp add: obj_text_def v_text_def)
  next
    case (PSds s)
    have "sds_text s = t" using t1 vw PSds by (simp add: obj_text_def v_text_def)
    then obtain c2 where c2: "addReplyText sv a s c1 = Some c2" "appended sv ext c1 t c2"
      using addReplyText_ok [OF inv1 f1 _ a(1)] vw PSds by auto
    have "ob_encoding ob \<noteq> REDIS_ENCODING_INT" using wf PSds by (simp add: v_wf_def)
    then have "addReply sv a c = Some c2" using c1(1) ob PSds c2(1) by (cases "ob_encoding ob") (simp_all add: addReply_def)
    then show ?thesis using appended_only_flags [OF c1(2) c2(2)] by simp
  next
    case (PInt n)
    have e: "ob_encoding ob = REDIS_ENCODING_INT" "t = print_ll n" using wf t1 vw PInt by (simp_all add: v_wf_def obj_text_def v_text_def)
    define buf where "buf = print_ll n @ 0 # drop (Suc (length (print_ll n))) (mem_alloc (sv_fresh sv) 32)"
    have ll: "ll2string (mem_alloc (sv_fresh sv) 32) 32 n = Some (buf, length (print_ll n))" unfolding buf_def by (rule ll2string_32) simp
    have tk: "length (print_ll n) \<le> length buf" "take (length (print_ll n)) buf = print_ll n" by (simp_all add: buf_def)
    obtain c2 where c2: "addReplyInt sv a c1 = Some c2" "appended sv ext c1 t c2"
      using addReplyInt_ok [OF inv1 f1] vw PInt e by auto
    obtain b c3 where b: "addReplyToBuffer buf (length (print_ll n)) c1 = Some (b, c3)" "b \<longrightarrow> appended sv ext c1 t c3" "\<not> b \<longrightarrow> c3 = c1"
      using addReplyToBuffer_ok [OF inv1 tk(1) f1] tk(2) e(2) by auto
    have "\<exists>c'. addReply sv a c = Some c' \<and> appended sv ext c1 t c'"
      using c1(1) ob PInt e(1) ll b c2
      by (cases "c_reply c1 = [] \<and> REDIS_REPLY_CHUNK_BYTES - c_bufpos c1 \<ge> 32"; cases b) (simp_all add: addReply_def)
    then show ?thesis using appended_only_flags [OF c1(2)] by auto
  qed
qed


subsection \<open>Protocol elements\<close>

definition shared_ok :: "(nat \<Rightarrow> nat) \<Rightarrow> shared_objects \<Rightarrow> redisClient \<Rightarrow> bool" where
  "shared_ok ext sh c \<longleftrightarrow>
     0 < ext (sh_crlf sh) \<and> obj_text c (sh_crlf sh) = Some CRLF \<and>
     0 < ext (sh_czero sh) \<and> obj_text c (sh_czero sh) = Some (58 # dec 0 @ CRLF) \<and>
     0 < ext (sh_cone sh) \<and> obj_text c (sh_cone sh) = Some (58 # dec 1 @ CRLF) \<and>
     0 < ext (sh_nullbulk sh) \<and> obj_text c (sh_nullbulk sh) = Some (lit ''$-1'' @ CRLF) \<and>
     length (sh_mbulkhdr sh) = REDIS_SHARED_BULKHDR_LEN \<and> length (sh_bulkhdr sh) = REDIS_SHARED_BULKHDR_LEN \<and>
     (\<forall>i<REDIS_SHARED_BULKHDR_LEN. 0 < ext (sh_mbulkhdr sh ! i) \<and> obj_text c (sh_mbulkhdr sh ! i) = Some (42 # dec i @ CRLF)) \<and>
     (\<forall>i<REDIS_SHARED_BULKHDR_LEN. 0 < ext (sh_bulkhdr sh ! i) \<and> obj_text c (sh_bulkhdr sh ! i) = Some (36 # dec i @ CRLF))"

text \<open>A client that takes replies and the objects they share.\<close>

definition ready :: "server_env \<Rightarrow> (nat \<Rightarrow> nat) \<Rightarrow> shared_objects \<Rightarrow> redisClient \<Rightarrow> bool" where
  "ready sv ext sh c \<longleftrightarrow> reply_inv sv ext c \<and> accepts sv c \<and> shared_ok ext sh c"

lemma frame_text: "rframe ext c c' \<Longrightarrow> 0 < ext a \<Longrightarrow> obj_text c' a = obj_text c a"
  by (simp add: rframe_def obj_text_def)

lemma frame_shared: "rframe ext c c' \<Longrightarrow> shared_ok ext sh c \<Longrightarrow> shared_ok ext sh c'"
  unfolding shared_ok_def by (simp add: frame_text)

lemma ready_appended: "ready sv ext sh c \<Longrightarrow> appended sv ext c s c' \<Longrightarrow> ready sv ext sh c'"
  unfolding ready_def appended_def using accepts_frame frame_shared by blast

text \<open>One reply after another.\<close>

lemma then_append:
  assumes r: "ready sv ext sh c" and f: "\<exists>c1. m = Some c1 \<and> appended sv ext c s c1"
    and g: "\<And>c1. ready sv ext sh c1 \<Longrightarrow> rframe ext c c1 \<Longrightarrow> \<exists>c2. k c1 = Some c2 \<and> appended sv ext c1 t c2"
  shows "\<exists>c2. m \<bind> k = Some c2 \<and> appended sv ext c (s @ t) c2"
proof -
  obtain c1 where c1: "m = Some c1" "appended sv ext c s c1" using f by (elim exE conjE)
  have "rframe ext c c1" using c1(2) by (simp add: appended_def)
  from g [OF ready_appended [OF r c1(2)] this] obtain c2 where "k c1 = Some c2" "appended sv ext c1 t c2" by (elim exE conjE)
  then show ?thesis using c1 appended_trans [OF c1(2)] by auto
qed

lemma ready_string: "ready sv ext sh c \<Longrightarrow> length s < 2 ^ 32 \<Longrightarrow> \<exists>c'. addReplyString sv (s @ z) (length s) c = Some c' \<and> appended sv ext c s c'"
  using addReplyString_ok [of sv ext c "length s" "s @ z"] by (simp add: ready_def)

lemma ready_string0: "ready sv ext sh c \<Longrightarrow> length s < 2 ^ 32 \<Longrightarrow> \<exists>c'. addReplyString sv s (length s) c = Some c' \<and> appended sv ext c s c'"
  using ready_string [of sv ext sh c s "[]"] by simp

lemma ready_obj: "ready sv ext sh c \<Longrightarrow> 0 < ext a \<Longrightarrow> obj_text c a = Some t \<Longrightarrow> \<exists>c'. addReply sv a c = Some c' \<and> appended sv ext c t c'"
  by (rule addReply_ok) (simp_all add: ready_def)

lemma ready_crlf: "ready sv ext sh c \<Longrightarrow> \<exists>c'. addReply sv (sh_crlf sh) c = Some c' \<and> appended sv ext c CRLF c'"
  using ready_obj [of sv ext sh c "sh_crlf sh" CRLF] by (simp add: ready_def shared_ok_def)

lemma length_CRLF: "length CRLF = 2"
  by (simp add: CRLF_def)

lemma ready_CRLF: "ready sv ext sh c \<Longrightarrow> \<exists>c'. addReplyString sv CRLF 2 c = Some c' \<and> appended sv ext c CRLF c'"
  using ready_string0 [of sv ext sh c CRLF] by (simp add: length_CRLF)

lemma length_lit_err: "length (lit ''-ERR '') = 5"
  by (simp add: lit_def)

lemma addReplyErrorLength_ok:
  assumes "ready sv ext sh c" "length s < 2 ^ 32"
  shows "\<exists>c'. addReplyErrorLength sv (s @ z) (length s) c = Some c' \<and> appended sv ext c (lit ''-ERR '' @ s @ CRLF) c'"
  unfolding addReplyErrorLength_def
proof (rule then_append [OF assms(1)])
  show "\<exists>c1. addReplyString sv (lit ''-ERR '') 5 c = Some c1 \<and> appended sv ext c (lit ''-ERR '') c1"
    by (rule ready_string0 [OF assms(1), of "lit ''-ERR ''", unfolded length_lit_err]) simp
  fix c1 assume r: "ready sv ext sh c1"
  show "\<exists>c2. addReplyString sv (s @ z) (length s) c1 \<bind> addReplyString sv CRLF 2 = Some c2 \<and> appended sv ext c1 (s @ CRLF) c2"
    by (rule then_append [OF r ready_string [OF r assms(2)]]) (rule ready_CRLF)
qed

lemma addReplyStatusLength_ok:
  assumes "ready sv ext sh c" "length s < 2 ^ 32"
  shows "\<exists>c'. addReplyStatusLength sv (s @ z) (length s) c = Some c' \<and> appended sv ext c ([43] @ s @ CRLF) c'"
  unfolding addReplyStatusLength_def
proof (rule then_append [OF assms(1)])
  show "\<exists>c1. addReplyString sv [43] 1 c = Some c1 \<and> appended sv ext c [43] c1"
    using ready_string0 [OF assms(1), of "[43]"] by simp
  fix c1 assume r: "ready sv ext sh c1"
  show "\<exists>c2. addReplyString sv (s @ z) (length s) c1 \<bind> addReplyString sv CRLF 2 = Some c2 \<and> appended sv ext c1 (s @ CRLF) c2"
    by (rule then_append [OF r ready_string [OF r assms(2)]]) (rule ready_CRLF)
qed

lemma c_str_split: "\<exists>z. s = c_str s @ z"
  unfolding c_str_def by (metis takeWhile_dropWhile_id)

lemma addReplyError_ok:
  assumes "ready sv ext sh c" "length (c_str s) < 2 ^ 32"
  shows "\<exists>c'. addReplyError sv s c = Some c' \<and> appended sv ext c (lit ''-ERR '' @ c_str s @ CRLF) c'"
proof -
  obtain z where "s = c_str s @ z" using c_str_split by (rule exE)
  then show ?thesis using addReplyErrorLength_ok [OF assms, of z] by (simp add: addReplyError_def)
qed

lemma addReplyStatus_ok:
  assumes "ready sv ext sh c" "length (c_str s) < 2 ^ 32"
  shows "\<exists>c'. addReplyStatus sv s c = Some c' \<and> appended sv ext c ([43] @ c_str s @ CRLF) c'"
proof -
  obtain z where "s = c_str s @ z" using c_str_split by (rule exE)
  then show ?thesis using addReplyStatusLength_ok [OF assms, of z] by (simp add: addReplyStatus_def)
qed

lemma print_ll_dec: "0 \<le> sint v \<Longrightarrow> print_ll v = dec (nat (sint v))"
  by (simp add: print_ll_def word_sless_alt)

lemma addReplyLongLongWithPrefix_ok:
  assumes r: "ready sv ext sh c" and p: "prefix = 42 \<or> prefix = 36 \<Longrightarrow> 0 \<le> sint v"
  shows "\<exists>c'. addReplyLongLongWithPrefix sv sh v prefix c = Some c' \<and> appended sv ext c (prefix # print_ll v @ CRLF) c'"
proof (cases "(prefix = 42 \<or> prefix = 36) \<and> sint v < int REDIS_SHARED_BULKHDR_LEN")
  case True
  then have v: "0 \<le> sint v" "nat (sint v) < REDIS_SHARED_BULKHDR_LEN" using p by auto
  have sh: "shared_ok ext sh c" using r by (simp add: ready_def)
  define tab where "tab = (if prefix = 42 then sh_mbulkhdr sh else sh_bulkhdr sh)"
  have a: "shared_at tab (sint v) = Some (tab ! nat (sint v))" "0 < ext (tab ! nat (sint v))"
      "obj_text c (tab ! nat (sint v)) = Some (prefix # print_ll v @ CRLF)"
    using sh v True unfolding tab_def by (auto simp: shared_ok_def shared_at_def mem_get_def print_ll_dec)
  have "addReplyLongLongWithPrefix sv sh v prefix c = addReply sv (tab ! nat (sint v)) c"
    using True a(1) by (auto simp: addReplyLongLongWithPrefix_def tab_def split: if_splits)
  then show ?thesis using ready_obj [OF r a(2,3)] by simp
next
  case False
  let ?n = "length (print_ll v)"
  have n: "?n \<le> 20" by (rule length_print_ll)
  obtain b0 bs where b: "mem_alloc (sv_fresh sv) 128 = b0 # bs" "length bs = 127"
    using length_mem_alloc [of "sv_fresh sv" 128] by (cases "mem_alloc (sv_fresh sv) 128") auto
  define z where "z = drop (Suc ?n) bs"
  obtain z0 z' where z: "z = z0 # z'" using b(2) n by (cases z) (auto simp: z_def)
  have ll: "ll2string bs 127 v = Some (print_ll v @ 0 # z, ?n)" using ll2string_ok [OF b(2), of v] n by (simp add: z_def)
  have "addReplyLongLongWithPrefix sv sh v prefix c = addReplyString sv ((prefix # print_ll v @ CRLF) @ z') (?n + 3) c"
    using False b ll z by (auto simp: addReplyLongLongWithPrefix_def mem_set_def Let_def CRLF_def list_update_append)
  moreover have L: "length (prefix # print_ll v @ CRLF) = ?n + 3" by (simp add: length_CRLF)
  have "\<exists>c'. addReplyString sv ((prefix # print_ll v @ CRLF) @ z') (?n + 3) c = Some c' \<and> appended sv ext c (prefix # print_ll v @ CRLF) c'"
    by (rule ready_string [OF r, of "prefix # print_ll v @ CRLF" z', unfolded L]) (use n in simp)
  ultimately show ?thesis by simp
qed

lemma addReplyLongLong_ok:
  assumes r: "ready sv ext sh c"
  shows "\<exists>c'. addReplyLongLong sv sh v c = Some c' \<and> appended sv ext c (58 # print_ll v @ CRLF) c'"
proof -
  have sh: "shared_ok ext sh c" using r by (simp add: ready_def)
  consider "v = 0" | "v = 1" | "v \<noteq> 0" "v \<noteq> 1" by blast
  then show ?thesis
  proof cases
    case 1
    then show ?thesis using ready_obj [OF r, of "sh_czero sh"] sh by (simp add: shared_ok_def addReplyLongLong_def print_ll_dec)
  next
    case 2
    then show ?thesis using ready_obj [OF r, of "sh_cone sh"] sh by (simp add: shared_ok_def addReplyLongLong_def print_ll_dec)
  next
    case 3
    then show ?thesis using addReplyLongLongWithPrefix_ok [OF r, of 58 v] by (simp add: addReplyLongLong_def)
  qed
qed

lemma addReplyMultiBulkLen_ok:
  assumes r: "ready sv ext sh c" and v: "0 \<le> sint v"
  shows "\<exists>c'. addReplyMultiBulkLen sv sh v c = Some c' \<and> appended sv ext c (42 # print_ll v @ CRLF) c'"
proof -
  have "addReplyMultiBulkLen sv sh v c = addReplyLongLongWithPrefix sv sh v 42 c"
    by (simp add: addReplyMultiBulkLen_def addReplyLongLongWithPrefix_def)
  then show ?thesis using addReplyLongLongWithPrefix_ok [OF r, of 42 v] v by simp
qed


lemma bulkDigits_dec: "bulkDigits n = length (dec n)"
proof (induction n rule: bulkDigits.induct)
  case (1 n)
  show ?case
  proof (cases "n < 10")
    case True
    then show ?thesis by (subst bulkDigits.simps) (simp add: dec_small)
  next
    case False
    then have "n div 10 \<noteq> 0" by simp
    then show ?thesis using 1 False dec_step [of n] by (subst bulkDigits.simps) simp
  qed
qed

lemma print_ll_nat: "n < 2 ^ 63 \<Longrightarrow> print_ll (word_of_nat n) = dec n" "n < 2 ^ 63 \<Longrightarrow> 0 \<le> sint (word_of_nat n :: i64)"
  using sint_of_nat_small [of n, where 'a = 64] by (simp_all add: print_ll_dec)

text \<open>A bulk: the length of the text, the text, and the end of the line.\<close>

definition bulk :: "bytes \<Rightarrow> bytes" where
  "bulk t = (36 # dec (length t) @ CRLF) @ t @ CRLF"

lemma bulkLen_int:
  assumes "n <s 0 \<Longrightarrow> - n \<noteq> n"
  shows "(if n <s 0 then (if - n = n then None else Some (1 + bulkDigits (unat (- n)))) else Some (bulkDigits (unat n))) =
    Some (length (print_ll n))"
  using assms ll_magnitude [of n] by (simp add: print_ll_def bulkDigits_dec)

text \<open>The objects that may be sent: not the least integer in integer encoding.\<close>

definition sendable :: "redisClient \<Rightarrow> nat \<Rightarrow> bool" where
  "sendable c a \<longleftrightarrow> (case view (c_heap c) a of Some (e, PInt n) \<Rightarrow> n <s 0 \<longrightarrow> - n \<noteq> n | _ \<Rightarrow> True)"

lemma addReplyBulkLen_ok:
  assumes r: "ready sv ext sh c" and a: "0 < ext a" "obj_text c a = Some t" "sendable c a"
  shows "\<exists>c'. addReplyBulkLen sv sh a c = Some c' \<and> appended sv ext c (36 # dec (length t) @ CRLF) c'"
proof -
  have h: "heap_ok ext c" and sh: "shared_ok ext sh c" using r by (simp_all add: ready_def reply_inv_def)
  obtain ob where ob: "c_heap c a = Some ob" using a(2) by (auto simp: obj_text_def v_text_def view_def split: option.splits)
  note wf = heap_okD(2) [OF h ob]
  have vw: "view (c_heap c) a = Some (ob_encoding ob, ob_ptr ob)" using ob by (simp add: view_def)
  have lens: "(case (ob_encoding ob, ob_ptr ob) of
         (REDIS_ENCODING_INT, PInt n) \<Rightarrow>
           if n <s 0 then (if - n = n then None else Some (1 + bulkDigits (unat (- n)))) else Some (bulkDigits (unat n))
       | (REDIS_ENCODING_INT, _) \<Rightarrow> None
       | (_, PSds s) \<Rightarrow> Some (sdslen s)
       | _ \<Rightarrow> None) = Some (length t) \<and> length t < 2 ^ 63"
  proof -
    have ?thesis if "ob_ptr ob = PSds s" for s
    proof -
      have s: "sds_rep s t" "ob_encoding ob \<noteq> REDIS_ENCODING_INT" using that wf a(2) vw by (simp_all add: v_wf_def obj_text_def v_text_def)
      have "sdslen s = length t" using sds_rep_len [OF s(1)] by (simp add: sdslen_def)
      then show ?thesis using s sds_rep_read(2) [OF s(1)] that by (cases "ob_encoding ob") simp_all
    qed
    moreover have ?thesis if "ob_ptr ob = PInt n" for n
    proof -
      have s: "t = print_ll n" "ob_encoding ob = REDIS_ENCODING_INT" using that wf a(2) vw by (simp_all add: v_wf_def obj_text_def v_text_def)
      have m: "n <s 0 \<Longrightarrow> - n \<noteq> n" using a(3) vw that by (auto simp: sendable_def)
      show ?thesis using s that bulkLen_int [OF m] length_print_ll [of n] by simp
    qed
    moreover have "ob_ptr ob \<noteq> PNull" using a(2) vw by (auto simp: obj_text_def v_text_def)
    ultimately show ?thesis by (cases "ob_ptr ob") blast+
  qed
  note len = conjunct1 [OF lens] and lt = conjunct2 [OF lens]
  show ?thesis
  proof (cases "length t < REDIS_SHARED_BULKHDR_LEN")
    case True
    then have i: "0 < ext (sh_bulkhdr sh ! length t)" "obj_text c (sh_bulkhdr sh ! length t) = Some (36 # dec (length t) @ CRLF)"
        "mem_get (length t) (sh_bulkhdr sh) = Some (sh_bulkhdr sh ! length t)"
      using sh by (simp_all add: shared_ok_def mem_get_def)
    have "addReplyBulkLen sv sh a c = addReply sv (sh_bulkhdr sh ! length t) c"
      unfolding addReplyBulkLen_def using ob i(3) True by (simp only: len bind.bind_lunit if_True)
    then show ?thesis using ready_obj [OF r i(1,2)] by simp
  next
    case False
    have "addReplyBulkLen sv sh a c = addReplyLongLongWithPrefix sv sh (word_of_nat (length t)) 36 c"
      unfolding addReplyBulkLen_def using ob False by (simp only: len bind.bind_lunit if_False)
    then show ?thesis using addReplyLongLongWithPrefix_ok [OF r, of 36 "word_of_nat (length t)"] print_ll_nat [OF lt] by simp
  qed
qed

lemma addReplyBulk_ok:
  assumes r: "ready sv ext sh c" and a: "0 < ext a" "obj_text c a = Some t" "sendable c a"
  shows "\<exists>c'. addReplyBulk sv sh a c = Some c' \<and> appended sv ext c (bulk t) c'"
  unfolding addReplyBulk_def bulk_def
proof (rule then_append [OF r addReplyBulkLen_ok [OF assms]])
  fix c1 assume r1: "ready sv ext sh c1" and fr: "rframe ext c c1"
  show "\<exists>c2. addReply sv a c1 \<bind> addReply sv (sh_crlf sh) = Some c2 \<and> appended sv ext c1 (t @ CRLF) c2"
    by (rule then_append [OF r1 ready_obj [OF r1 a(1)]]) (use frame_text [OF fr a(1)] a(2) ready_crlf in simp_all)
qed

lemma addReplyBulkCBuffer_ok:
  assumes r: "ready sv ext sh c" and t: "length t < 2 ^ 32"
  shows "\<exists>c'. addReplyBulkCBuffer sv sh (t @ z) (length t) c = Some c' \<and> appended sv ext c (bulk t) c'"
  unfolding addReplyBulkCBuffer_def bulk_def
proof (rule then_append [OF r])
  have "length t < 2 ^ 63" using t by simp
  then show "\<exists>c1. addReplyLongLongWithPrefix sv sh (word_of_nat (length t)) 36 c = Some c1 \<and> appended sv ext c (36 # dec (length t) @ CRLF) c1"
    using addReplyLongLongWithPrefix_ok [OF r, of 36 "word_of_nat (length t)"] print_ll_nat [of "length t"] by simp
  fix c1 assume r1: "ready sv ext sh c1"
  show "\<exists>c2. addReplyString sv (t @ z) (length t) c1 \<bind> addReply sv (sh_crlf sh) = Some c2 \<and> appended sv ext c1 (t @ CRLF) c2"
    by (rule then_append [OF r1 ready_string [OF r1 t]]) (rule ready_crlf)
qed

lemma addReplyBulkCString_ok:
  assumes r: "ready sv ext sh c" and t: "\<And>t. s = Some t \<Longrightarrow> length (c_str t) < 2 ^ 32"
  shows "\<exists>c'. addReplyBulkCString sv sh s c = Some c' \<and>
    appended sv ext c (case s of None \<Rightarrow> lit ''$-1'' @ CRLF | Some t \<Rightarrow> bulk (c_str t)) c'"
proof (cases s)
  case None
  then show ?thesis using ready_obj [OF r, of "sh_nullbulk sh"] r by (simp add: addReplyBulkCString_def ready_def shared_ok_def)
next
  case (Some u)
  obtain z where "u = c_str u @ z" using c_str_split by (rule exE)
  then show ?thesis using addReplyBulkCBuffer_ok [OF r t [OF Some], of z] Some by (simp add: addReplyBulkCString_def)
qed

lemma addReplyBulkLongLong_ok:
  assumes r: "ready sv ext sh c"
  shows "\<exists>c'. addReplyBulkLongLong sv sh v c = Some c' \<and> appended sv ext c (bulk (print_ll v)) c'"
proof -
  have "length (print_ll v) < 2 ^ 32" using length_print_ll [of v] by simp
  from addReplyBulkCBuffer_ok [OF r this] show ?thesis
    using ll2string_32 [of 64 "sv_fresh sv" v] by (simp add: addReplyBulkLongLong_def)
qed


subsection \<open>Removing a node\<close>

lemma drop_node:
  assumes h: "heap_ok ext c" and r: "c_reply c = xs @ (n, a) # ys" and v: "view (c_heap c) a = Some (e, PSds s)"
  shows "heap_ok (ext(a := Suc (ext a))) (c\<lparr>c_reply := xs @ ys\<rparr>)"
proof (rule heap_okI)
  let ?c = "c\<lparr>c_reply := xs @ ys\<rparr>"
  have rf: "refs c x = refs ?c x + (if x = a then 1 else 0)" for x by (simp add: refs_def r)
  fix x ob assume "c_heap ?c x = Some ob"
  then show "x < c_next ?c \<and> v_wf (ob_encoding ob, ob_ptr ob) \<and> ob_refcount ob = (ext(a := Suc (ext a))) x + refs ?c x \<and> 0 < ob_refcount ob"
    using heap_okD(1-4) [OF h, of x ob] rf [of x] by simp
next
  fix x assume "0 < (ext(a := Suc (ext a))) x"
  then show "\<exists>w. view (c_heap (c\<lparr>c_reply := xs @ ys\<rparr>)) x = Some w \<and> snd w \<noteq> PNull"
    using heap_okD(5) [OF h, of x] v by (cases "x = a") simp_all
next
  fix m x assume "(m, x) \<in> set (c_reply (c\<lparr>c_reply := xs @ ys\<rparr>))"
  then show "m < c_next (c\<lparr>c_reply := xs @ ys\<rparr>) \<and> (\<exists>w. view (c_heap (c\<lparr>c_reply := xs @ ys\<rparr>)) x = Some w \<and> fst w \<noteq> REDIS_ENCODING_INT)"
    using heap_okD(6,7) [OF h, of m x] by (auto simp: r)
next
  show "distinct (map fst (c_reply (c\<lparr>c_reply := xs @ ys\<rparr>)))" using heap_okD(8) [OF h] by (auto simp: r)
qed

text \<open>Unlinking a node and releasing its object, in any order with the counter.\<close>

lemma decr_commute:
  "decrRefCount a (c\<lparr>c_reply := r\<rparr>) = map_option (\<lambda>c. c\<lparr>c_reply := r\<rparr>) (decrRefCount a c)"
  "decrRefCount a (c\<lparr>c_reply_bytes := m\<rparr>) = map_option (\<lambda>c. c\<lparr>c_reply_bytes := m\<rparr>) (decrRefCount a c)"
  "decrRefCount a (c\<lparr>c_sentlen := k\<rparr>) = map_option (\<lambda>c. c\<lparr>c_sentlen := k\<rparr>) (decrRefCount a c)"
  by (cases "c_heap c a"; simp add: decrRefCount_def)+

lemma decr_bytes: "decrRefCount a c = Some c' \<Longrightarrow> c_reply_bytes c' = c_reply_bytes c \<and> c_reply c' = c_reply c \<and> c_sentlen c' = c_sentlen c"
  by (auto simp: decrRefCount_def split: bind_splits if_splits)

lemma remove_node:
  assumes inv: "heap_ok ext c" "buf_ok c" and r: "c_reply c = xs @ (n, a) # ys" and v: "view (c_heap c) a = Some (e, PSds s)"
    and m: "m = (\<Sum>(n, b)\<leftarrow>xs @ ys. v_used sv (view (c_heap c) b))"
  shows "\<exists>c'. decrRefCount a (c\<lparr>c_reply := xs @ ys, c_reply_bytes := m\<rparr>) = Some c' \<and> reply_inv sv ext c' \<and> rframe ext c c' \<and>
    ost c' = (fst (ost c), map (\<lambda>(n, b). (n, v_text (view (c_heap c) b))) (xs @ ys))"
proof -
  define d where "d = c\<lparr>c_reply := xs @ ys, c_reply_bytes := m\<rparr>"
  have "heap_ok (ext(a := Suc (ext a))) d"
    using drop_node [OF inv(1) r v] heap_ok_cong [of d "c\<lparr>c_reply := xs @ ys\<rparr>" "ext(a := Suc (ext a))"] by (simp add: d_def)
  then have "reply_inv sv (ext(a := Suc (ext a))) d"
    using inv(2) m by (simp add: reply_inv_def buf_ok_def mem_ok_def d_def)
  from release [OF this] obtain c' where c': "decrRefCount a d = Some c'" "reply_inv sv ext c'" "rframe ext d c'" "ost c' = ost d"
    by (elim exE conjE)
  have "rframe ext c d" by (simp add: rframe_def d_def has_flag_def)
  moreover have "ost d = (fst (ost c), map (\<lambda>(n, b). (n, v_text (view (c_heap c) b))) (xs @ ys))"
    by (simp add: ost_def d_def texts_def)
  ultimately show ?thesis using c' rframe_trans unfolding d_def [symmetric] by auto
qed

subsection \<open>Sending\<close>

text \<open>The position in the buffer, or in the first object when the buffer is empty.\<close>

definition sent_ok :: "nat \<Rightarrow> ostate \<Rightarrow> bool" where
  "sent_ok k x \<longleftrightarrow>
     (if fst x \<noteq> [] then k < length (fst x)
      else (case snd x of [] \<Rightarrow> k = 0 | (n, t) # r \<Rightarrow> k = 0 \<or> (\<exists>y. t = Some y \<and> k < length y)))"

definition no_holes :: "ostate \<Rightarrow> bool" where
  "no_holes x \<longleftrightarrow> list_all (\<lambda>(n, t). t \<noteq> None) (snd x)"

lemma extends_sent: "extends r r' s \<Longrightarrow> sent_ok k (b, r) \<Longrightarrow> sent_ok k (b, r')"
  unfolding extends_def
proof (elim disjE exE conjE)
  fix m assume "sent_ok k (b, r)" "r' = r @ [(m, Some s)]"
  then show "sent_ok k (b, r')" by (cases r) (auto simp: sent_ok_def)
next
  fix us n u assume "sent_ok k (b, r)" "r = us @ [(n, Some u)]" "r' = us @ [(n, Some (u @ s))]"
  then show "sent_ok k (b, r')" by (cases us) (auto simp: sent_ok_def split: if_splits)
qed

lemma push_sent: "push x s y \<Longrightarrow> sent_ok k x \<Longrightarrow> sent_ok k y"
  unfolding push_def
proof (elim disjE conjE)
  assume "sent_ok k x" "snd x = []" "snd y = []" "fst y = fst x @ s"
  then show "sent_ok k y" by (cases "fst x = []") (auto simp: sent_ok_def)
next
  assume "sent_ok k x" "fst y = fst x" "extends (snd x) (snd y) s"
  then show "sent_ok k y" using extends_sent [of "snd x" "snd y" s k "fst x"] by (cases x; cases y) simp
qed

lemma push_holes: "push x s y \<Longrightarrow> no_holes x \<Longrightarrow> no_holes y"
  by (auto simp: push_def no_holes_def extends_def)

lemma chain_sent: "chain x s y \<Longrightarrow> sent_ok k x \<Longrightarrow> sent_ok k y"
  by (induction rule: chain.induct) (auto intro: push_sent)

lemma chain_holes: "chain x s y \<Longrightarrow> no_holes x \<Longrightarrow> no_holes y"
  by (induction rule: chain.induct) (auto intro: push_holes)

definition sframe :: "(nat \<Rightarrow> nat) \<Rightarrow> redisClient \<Rightarrow> redisClient \<Rightarrow> bool" where
  "sframe ext c c' \<longleftrightarrow> rframe ext c (c'\<lparr>c_sentlen := c_sentlen c, c_stat_net_output_bytes := c_stat_net_output_bytes c\<rparr>)"

lemma sframe_fields: "sframe ext c c' \<longleftrightarrow>
  rframe ext (c\<lparr>c_sentlen := 0, c_stat_net_output_bytes := 0\<rparr>) (c'\<lparr>c_sentlen := 0, c_stat_net_output_bytes := 0\<rparr>)"
  unfolding sframe_def rframe_def by (simp add: has_flag_def)

lemma sframe_trans: "sframe ext c d \<Longrightarrow> sframe ext d e \<Longrightarrow> sframe ext c e"
  unfolding sframe_fields by (rule rframe_trans)

lemma frame_sframe: "rframe ext c c' \<Longrightarrow> sframe ext c c'"
  unfolding sframe_def rframe_def by (simp add: has_flag_def)

lemma sframe_upd: "sframe ext c (c\<lparr>c_sentlen := k, c_stat_net_output_bytes := n, c_bufpos := p\<rparr>)"
  unfolding sframe_def rframe_def by (simp add: has_flag_def)

text \<open>One step of the transmission: what is sent and what is left.\<close>

definition sent_step :: "server_env \<Rightarrow> (nat \<Rightarrow> nat) \<Rightarrow> redisClient \<Rightarrow> bytes \<Rightarrow> redisClient \<Rightarrow> bool" where
  "sent_step sv ext c xs c' \<longleftrightarrow>
     reply_inv sv ext c' \<and> sent_ok (c_sentlen c') (ost c') \<and> no_holes (ost c') \<and> sframe ext c c' \<and>
     drop (c_sentlen c) (all_bytes (ost c)) = xs @ drop (c_sentlen c') (all_bytes (ost c'))"

lemma sent_step_trans: "sent_step sv ext c xs d \<Longrightarrow> sent_step sv ext d ys e \<Longrightarrow> sent_step sv ext c (xs @ ys) e"
  unfolding sent_step_def using sframe_trans by auto

lemma sent_step_count: "sent_step sv ext c xs d \<Longrightarrow> sent_step sv ext c xs (countOutput n d)"
proof -
  have "reply_inv sv ext (countOutput n d) = reply_inv sv ext d" "ost (countOutput n d) = ost d" "sframe ext c d \<Longrightarrow> sframe ext c (countOutput n d)"
    using heap_ok_cong [of "countOutput n d" d ext]
    by (simp_all add: countOutput_def reply_inv_def buf_ok_def mem_ok_def ost_def texts_def sframe_def)
  then show "sent_step sv ext c xs d \<Longrightarrow> sent_step sv ext c xs (countOutput n d)" unfolding sent_step_def by (simp add: countOutput_def)
qed


lemma sent_ok_0: "sent_ok 0 x"
  by (cases "snd x") (auto simp: sent_ok_def)

lemma del_first:
  assumes inv: "reply_inv sv ext c" and r: "c_reply c = (n, a) # rest" and ob: "c_heap c a = Some ob" "ob_ptr ob = PSds s"
  shows "\<exists>d m. decrRefCount a c = Some d \<and> getStringObjectSdsUsedMemory sv ob = Some m \<and> m \<le> c_reply_bytes c \<and>
    reply_inv sv ext (d\<lparr>c_reply := rest, c_reply_bytes := c_reply_bytes c - m\<rparr>) \<and>
    rframe ext c (d\<lparr>c_reply := rest, c_reply_bytes := c_reply_bytes c - m\<rparr>) \<and>
    ost (d\<lparr>c_reply := rest, c_reply_bytes := c_reply_bytes c - m\<rparr>) = (fst (ost c), tl (texts c))"
proof -
  have h: "heap_ok ext c" and b: "buf_ok c" and mem: "mem_ok sv c" using inv by (simp_all add: reply_inv_def)
  have v: "view (c_heap c) a = Some (ob_encoding ob, PSds s)" using ob by (simp add: view_def)
  define m where "m = v_used sv (Some (ob_encoding ob, ob_ptr ob))"
  have m: "getStringObjectSdsUsedMemory sv ob = Some m" unfolding m_def by (rule used_eq [OF heap_okD(2) [OF h ob(1)] ob(2)])
  define k where "k = (\<Sum>(n, b)\<leftarrow>rest. v_used sv (view (c_heap c) b))"
  have bytes: "c_reply_bytes c = m + k" using mem v ob(2) by (simp add: mem_ok_def r m_def k_def)
  from remove_node [of ext c "[]" n a rest "ob_encoding ob" s k sv]
  obtain c' where c': "decrRefCount a (c\<lparr>c_reply := rest, c_reply_bytes := k\<rparr>) = Some c'" "reply_inv sv ext c'" "rframe ext c c'"
      "ost c' = (fst (ost c), map (\<lambda>(n, b). (n, v_text (view (c_heap c) b))) rest)"
    using h b r v by (auto simp: k_def)
  have ot: "ost c' = (fst (ost c), tl (texts c))" using c'(4) r by (simp add: texts_def)
  obtain d where d: "decrRefCount a c = Some d" "c' = d\<lparr>c_reply := rest, c_reply_bytes := k\<rparr>"
    using c'(1) by (auto simp: decr_commute)
  then show ?thesis using m bytes c'(2,3) ot by auto
qed

lemma write_buffer:
  assumes inv: "reply_inv sv ext c" "sent_ok (c_sentlen c) (ost c)" "no_holes (ost c)" and p: "c_bufpos c > 0"
    and w: "0 < w" "w \<le> c_bufpos c - c_sentlen c"
    and c1: "c1 = (if c_sentlen c + w = c_bufpos c then c\<lparr>c_bufpos := 0, c_sentlen := 0\<rparr> else c\<lparr>c_sentlen := c_sentlen c + w\<rparr>)"
  shows "mem_read (c_sentlen c) w (c_buf c) = Some (take w (drop (c_sentlen c) (c_buf c)))"
    "sent_step sv ext c (take w (drop (c_sentlen c) (c_buf c))) c1"
proof -
  have b: "c_bufpos c \<le> length (c_buf c)" using inv(1) by (simp add: reply_inv_def buf_ok_def)
  have k: "c_sentlen c < c_bufpos c" using w by simp
  show "mem_read (c_sentlen c) w (c_buf c) = Some (take w (drop (c_sentlen c) (c_buf c)))" using b w k by (simp add: mem_read_def)
  define k where "k = c_sentlen c"
  define o1 where "o1 = take (c_bufpos c) (c_buf c)"
  have lo: "length o1 = c_bufpos c" using b by (simp add: o1_def)
  have xs: "take w (drop k (c_buf c)) = take w (drop k o1)"
    using w(2) by (simp add: o1_def k_def drop_take take_take min_def)
  have all: "drop k (all_bytes (ost c)) = drop k o1 @ flat (texts c)"
    using k lo by (simp add: all_bytes_def ost_def o1_def k_def)
  have i1: "reply_inv sv ext c1" "texts c1 = texts c"
    using inv(1) heap_ok_cong [of c1 c ext] by (auto simp: c1 reply_inv_def buf_ok_def mem_ok_def texts_def)
  have sf: "sframe ext c c1" using c1 unfolding sframe_def rframe_def by (simp add: has_flag_def)
  show "sent_step sv ext c (take w (drop (c_sentlen c) (c_buf c))) c1"
  proof (cases "c_sentlen c + w = c_bufpos c")
    case True
    then have o1: "ost c1 = ([], texts c)" "c_sentlen c1 = 0" using i1(2) by (simp_all add: ost_def c1)
    have "take w (drop k o1) = drop k o1" using True lo by (simp add: k_def)
    then have "drop k (all_bytes (ost c)) = take w (drop k o1) @ all_bytes (ost c1)" using all o1(1) by (simp add: all_bytes_def)
    then show ?thesis using i1(1) sf inv(3) o1 xs sent_ok_0 unfolding sent_step_def k_def [symmetric] by (simp add: no_holes_def ost_def)
  next
    case False
    then have o1': "ost c1 = (o1, texts c)" "c_sentlen c1 = k + w" using i1(2) by (simp_all add: ost_def c1 o1_def k_def)
    have "k + w < length o1" using False w(2) lo k by (simp add: k_def)
    moreover have "drop k o1 = take w (drop k o1) @ drop (k + w) o1" by (metis append_take_drop_id drop_drop add.commute)
    ultimately show ?thesis using i1(1) sf inv(3) o1' xs all unfolding sent_step_def k_def [symmetric]
      by (auto simp: no_holes_def ost_def sent_ok_def all_bytes_def)
  qed
qed

lemma first_text:
  assumes "heap_ok ext c" "c_reply c = (n, a) # rest" "no_holes (ost c)"
  shows "\<exists>ob s. c_heap c a = Some ob \<and> ob_ptr ob = PSds s \<and> sds_rep s (sds_text s) \<and>
    texts c = (n, Some (sds_text s)) # tl (texts c)"
proof -
  obtain v where v: "view (c_heap c) a = Some v" "fst v \<noteq> REDIS_ENCODING_INT" using heap_okD(7) [OF assms(1), of n a] assms(2) by auto
  then obtain ob where ob: "c_heap c a = Some ob" "v = (ob_encoding ob, ob_ptr ob)" by (auto simp: view_Some)
  have wf: "v_wf (ob_encoding ob, ob_ptr ob)" by (rule heap_okD(2) [OF assms(1) ob(1)])
  have nn: "ob_ptr ob \<noteq> PNull" using assms(2,3) v ob by (auto simp: no_holes_def ost_def texts_def v_text_def)
  show ?thesis
  proof (cases "ob_ptr ob")
    case (PSds s)
    then show ?thesis using wf ob v assms(2) by (simp add: v_wf_def texts_def v_text_def)
  qed (use wf nn v ob in \<open>simp_all add: v_wf_def\<close>)
qed

lemma write_part:
  assumes inv: "reply_inv sv ext c" "sent_ok (c_sentlen c) (ost c)" "no_holes (ost c)" and p: "c_bufpos c = 0"
    and r: "c_reply c = (n, a) # rest" and ob: "c_heap c a = Some ob" "ob_ptr ob = PSds s" "sds_rep s (sds_text s)"
    and t: "texts c = (n, Some (sds_text s)) # tl (texts c)" and w: "0 < w" "w \<le> sdslen s - c_sentlen c"
  shows "mem_read (c_sentlen c) w (sh_buf s) = Some (take w (drop (c_sentlen c) (sds_text s)))"
    "c_sentlen c + w \<noteq> sdslen s \<Longrightarrow> sent_step sv ext c (take w (drop (c_sentlen c) (sds_text s))) (c\<lparr>c_sentlen := c_sentlen c + w\<rparr>)"
    "c_sentlen c + w = sdslen s \<Longrightarrow> reply_inv sv ext d \<Longrightarrow> rframe ext c d \<Longrightarrow> ost d = (fst (ost c), tl (texts c)) \<Longrightarrow>
      sent_step sv ext c (take w (drop (c_sentlen c) (sds_text s))) (d\<lparr>c_sentlen := 0\<rparr>)"
proof -
  define x where "x = sds_text s"
  define k where "k = c_sentlen c"
  obtain ys where s: "s = \<lparr>sh_len = length x, sh_free = length ys, sh_buf = x @ 0 # ys\<rparr>" using ob(3) unfolding x_def by (rule sds_repE)
  have l: "sdslen s = length x" and sb: "sh_buf s = x @ 0 # ys" by (subst s, simp add: sdslen_def)+
  have ost: "ost c = ([], texts c)" using p by (simp add: ost_def)
  define r' where "r' = tl (texts c)"
  have tt: "texts c = (n, Some x) # r'" using t unfolding x_def r'_def .
  have all: "all_bytes (ost c) = x @ flat r'" by (simp add: all_bytes_def ost tt flat_def)
  have kx: "k \<le> length x" using w l by (simp add: k_def)
  show "mem_read (c_sentlen c) w (sh_buf s) = Some (take w (drop (c_sentlen c) (sds_text s)))"
    using w by (simp add: mem_read_def sb l x_def [symmetric])
  show "sent_step sv ext c (take w (drop (c_sentlen c) (sds_text s))) (c\<lparr>c_sentlen := c_sentlen c + w\<rparr>)" if ne: "c_sentlen c + w \<noteq> sdslen s"
  proof -
    let ?c = "c\<lparr>c_sentlen := k + w\<rparr>"
    have "reply_inv sv ext ?c" "ost ?c = ost c"
      using inv(1) heap_ok_cong [of ?c c ext] by (simp_all add: reply_inv_def buf_ok_def mem_ok_def ost_def texts_def)
    moreover have lt: "k + w < length x" using ne w l by (simp add: k_def)
    moreover have "sent_ok (k + w) (ost c)" using lt by (simp add: sent_ok_def ost tt)
    moreover have "sframe ext c ?c" unfolding sframe_def rframe_def by (simp add: has_flag_def)
    moreover have "drop k x = take w (drop k x) @ drop (k + w) x" by (metis append_take_drop_id drop_drop add.commute)
    ultimately show ?thesis using inv(3) all kx unfolding sent_step_def k_def [symmetric] x_def [symmetric] by simp
  qed
  show "sent_step sv ext c (take w (drop (c_sentlen c) (sds_text s))) (d\<lparr>c_sentlen := 0\<rparr>)"
    if e: "c_sentlen c + w = sdslen s" and d: "reply_inv sv ext d" "rframe ext c d" "ost d = (fst (ost c), tl (texts c))"
  proof -
    let ?d = "d\<lparr>c_sentlen := 0\<rparr>"
    have "reply_inv sv ext ?d" using d(1) heap_ok_cong [of ?d d ext] by (simp add: reply_inv_def buf_ok_def mem_ok_def)
    moreover have "ost ?d = ost d" by (simp add: ost_def texts_def)
    then have "ost ?d = ([], r')" using d(3) ost by (simp add: tt)
    moreover have "sframe ext c ?d" using frame_sframe [OF d(2)] by (simp add: sframe_def)
    moreover have "take w (drop k x) = drop k x" using e l w by (simp add: k_def)
    moreover have "no_holes ([], r')" using inv(3) by (simp add: no_holes_def ost tt)
    ultimately show ?thesis using all kx sent_ok_0 unfolding sent_step_def k_def [symmetric] x_def [symmetric] by (simp add: all_bytes_def)
  qed
qed


definition send_inv :: "server_env \<Rightarrow> (nat \<Rightarrow> nat) \<Rightarrow> redisClient \<Rightarrow> bool" where
  "send_inv sv ext c \<longleftrightarrow> reply_inv sv ext c \<and> sent_ok (c_sentlen c) (ost c) \<and> no_holes (ost c)"

lemma sent_step_refl: "send_inv sv ext c \<Longrightarrow> sent_step sv ext c [] c"
  using frame_sframe [OF rframe_refl] by (simp add: sent_step_def send_inv_def)

lemma sent_step_inv: "sent_step sv ext c xs c' \<Longrightarrow> send_inv sv ext c'"
  by (simp add: sent_step_def send_inv_def)

lemma count_reply: "c_reply (countOutput n c) = c_reply c"
  by (simp add: countOutput_def)

text \<open>The rest of the loop after a write.\<close>

lemma after_write:
  assumes "sent_step sv ext c xs d"
    and IH: "\<And>e out. send_inv sv ext e \<Longrightarrow> c_reply e = c_reply d \<Longrightarrow>
      \<exists>ys e'. sendLoop sv ws out e = Some (out @ ys, e') \<and> sent_step sv ext e ys e'"
  shows "\<exists>ys e'. (if length (out @ xs) > REDIS_MAX_WRITE_PER_EVENT \<and> sv_below_maxmemory sv
      then Some (out @ xs, countOutput (length (out @ xs)) d)
      else sendLoop sv ws (out @ xs) (countOutput (length (out @ xs)) d)) = Some (out @ ys, e') \<and> sent_step sv ext c ys e'"
proof -
  define e where "e = countOutput (length (out @ xs)) d"
  have e: "sent_step sv ext c xs e" unfolding e_def by (rule sent_step_count [OF assms(1)])
  from IH [OF sent_step_inv [OF e], of "out @ xs"] obtain ys e' where
    "sendLoop sv ws (out @ xs) e = Some ((out @ xs) @ ys, e')" "sent_step sv ext e ys e'" by (auto simp: e_def count_reply)
  then show ?thesis unfolding e_def [symmetric] using e sent_step_trans [OF e] by auto
qed

lemma sendLoop_ok:
  "send_inv sv ext c \<Longrightarrow> \<exists>xs c'. sendLoop sv ws out c = Some (out @ xs, c') \<and> sent_step sv ext c xs c'"
proof (induction "length ws + length (c_reply c)" arbitrary: ws out c rule: less_induct)
  case less
  note inv = less.prems
  have i: "reply_inv sv ext c" "sent_ok (c_sentlen c) (ost c)" "no_holes (ost c)" using inv by (simp_all add: send_inv_def)
  have h: "heap_ok ext c" using i(1) by (simp add: reply_inv_def)
  have stop: "\<exists>xs c'. Some (out, c) = Some (out @ xs, c') \<and> sent_step sv ext c xs c'" using sent_step_refl [OF inv] by auto
  consider (buf) "c_bufpos c > 0" | (empty) "c_bufpos c = 0" "c_reply c = []" | (obj) n a rest where "c_bufpos c = 0" "c_reply c = (n, a) # rest"
    by (cases "c_reply c") auto
  then show ?case
  proof cases
    case empty
    then show ?thesis using stop by (subst sendLoop.simps) simp
  next
    case buf
    show ?thesis
    proof (cases ws)
      case Nil
      then show ?thesis using stop buf by (subst sendLoop.simps) simp
    next
      case (Cons w ws')
      define k where "k = min w (c_bufpos c - c_sentlen c)"
      show ?thesis
      proof (cases "k = 0")
        case True
        then show ?thesis using stop buf Cons by (subst sendLoop.simps) (simp add: k_def [symmetric])
      next
        case False
        define d where "d = (if c_sentlen c + k = c_bufpos c then c\<lparr>c_bufpos := 0, c_sentlen := 0\<rparr> else c\<lparr>c_sentlen := c_sentlen c + k\<rparr>)"
        have k: "0 < k" "k \<le> c_bufpos c - c_sentlen c" using False by (simp_all add: k_def)
        note wb = write_buffer [OF i buf k d_def]
        have r: "c_reply d = c_reply c" by (simp add: d_def)
        have "\<exists>ys e'. sendLoop sv ws' o2 e = Some (o2 @ ys, e') \<and> sent_step sv ext e ys e'"
          if "send_inv sv ext e" "c_reply e = c_reply d" for e o2
          by (rule less.hyps [OF _ that(1)]) (use that(2) r Cons in simp)
        note aw = after_write [OF wb(2) this, of out]
        define xs where "xs = take k (drop (c_sentlen c) (c_buf c))"
        have "sendLoop sv ws out c = (if length (out @ xs) > REDIS_MAX_WRITE_PER_EVENT \<and> sv_below_maxmemory sv
            then Some (out @ xs, countOutput (length (out @ xs)) d) else sendLoop sv ws' (out @ xs) (countOutput (length (out @ xs)) d))"
          using buf Cons False wb(1) unfolding d_def
          by (subst sendLoop.simps, cases "c_sentlen c + k = c_bufpos c") (simp_all add: k_def [symmetric] Let_def xs_def [symmetric])
        then show ?thesis using aw unfolding xs_def by simp
      qed
    qed
  next
    case obj
    from first_text [OF h obj(2) i(3)] obtain ob s where
      ob: "c_heap c a = Some ob" "ob_ptr ob = PSds s" "sds_rep s (sds_text s)" "texts c = (n, Some (sds_text s)) # tl (texts c)" by (elim exE conjE)
    from del_first [OF i(1) obj(2) ob(1,2)] obtain d m where
      d: "decrRefCount a c = Some d" "getStringObjectSdsUsedMemory sv ob = Some m" "m \<le> c_reply_bytes c"
        "reply_inv sv ext (d\<lparr>c_reply := rest, c_reply_bytes := c_reply_bytes c - m\<rparr>)"
        "rframe ext c (d\<lparr>c_reply := rest, c_reply_bytes := c_reply_bytes c - m\<rparr>)"
        "ost (d\<lparr>c_reply := rest, c_reply_bytes := c_reply_bytes c - m\<rparr>) = (fst (ost c), tl (texts c))" by (elim exE conjE)
    define e where "e = d\<lparr>c_reply := rest, c_reply_bytes := c_reply_bytes c - m\<rparr>"
    have db: "c_reply_bytes d = c_reply_bytes c" "c_sentlen d = c_sentlen c" using decr_bytes [OF d(1)] by simp_all
    have e2: "e = d\<lparr>c_reply_bytes := c_reply_bytes c - m, c_reply := rest\<rparr>" by (simp add: e_def)
    have os: "ost c = ([], texts c)" using obj(1) by (simp add: ost_def)
    show ?thesis
    proof (cases "sdslen s = 0")
      case True
      then have nil: "sds_text s = []" using sds_rep_len [OF ob(3)] by (simp add: sdslen_def)
      have z: "c_sentlen c = 0"
      proof -
        have "sent_ok (c_sentlen c) ([], (n, Some (sds_text s)) # tl (texts c))" using i(2) unfolding os using ob(4) by simp
        then show ?thesis using nil by (simp add: sent_ok_def)
      qed
      have "all_bytes (ost c) = all_bytes (ost e)"
        unfolding e_def d(6) os all_bytes_def fst_conv snd_conv by (subst ob(4)) (simp add: flat_def nil)
      moreover have "no_holes (ost e)" unfolding e_def d(6) using i(3) unfolding os no_holes_def snd_conv by (subst (asm) ob(4)) simp
      moreover have "c_sentlen e = 0" using db(2) z by (simp add: e_def)
      ultimately have st: "sent_step sv ext c [] e" using d(4,5) frame_sframe sent_ok_0 z unfolding sent_step_def e_def [symmetric] by simp
      have lt: "length ws + length (c_reply e) < length ws + length (c_reply c)" using obj(2) by (simp add: e_def)
      from less.hyps [OF lt sent_step_inv [OF st], of out] obtain xs c' where
        "sendLoop sv ws out e = Some (out @ xs, c')" "sent_step sv ext e xs c'" by (elim exE conjE)
      moreover have "sendLoop sv ws out c = sendLoop sv ws out e"
        using obj ob(1,2) d(1,2,3) db True by (subst sendLoop.simps) (simp add: subBytes_def e2)
      ultimately show ?thesis using sent_step_trans [OF st] by auto
    next
      case False
      note ne = False
      show ?thesis
      proof (cases ws)
        case Nil
        then show ?thesis using stop obj ob(1,2) d(2) ne by (subst sendLoop.simps) simp
      next
        case (Cons w ws')
        define k where "k = min w (sdslen s - c_sentlen c)"
        show ?thesis
        proof (cases "k = 0")
          case True
          then show ?thesis using stop obj ob(1,2) d(2) ne Cons by (subst sendLoop.simps) (simp add: k_def [symmetric])
        next
          case False
          have k: "0 < k" "k \<le> sdslen s - c_sentlen c" using False by (simp_all add: k_def)
          note wp = write_part [OF i obj ob k]
          show ?thesis
          proof (cases "c_sentlen c + k = sdslen s")
            case True
            have st: "sent_step sv ext c (take k (drop (c_sentlen c) (sds_text s))) (e\<lparr>c_sentlen := 0\<rparr>)"
              unfolding e_def by (rule wp(3) [OF True d(4-6)])
            have "\<exists>ys e'. sendLoop sv ws' o2 f = Some (o2 @ ys, e') \<and> sent_step sv ext f ys e'"
              if "send_inv sv ext f" "c_reply f = c_reply (e\<lparr>c_sentlen := 0\<rparr>)" for f o2
              by (rule less.hyps [OF _ that(1)]) (use that(2) obj(2) Cons in \<open>simp add: e_def\<close>)
            note aw = after_write [OF st this, of out]
            define xs f where "xs = take k (drop (c_sentlen c) (sds_text s))" and "f = e\<lparr>c_sentlen := 0\<rparr>"
            have f: "f = d\<lparr>c_reply := rest, c_sentlen := 0, c_reply_bytes := c_reply_bytes c - m\<rparr>" by (simp add: f_def e_def)
            have "sendLoop sv ws out c = (if length (out @ xs) > REDIS_MAX_WRITE_PER_EVENT \<and> sv_below_maxmemory sv
                then Some (out @ xs, countOutput (length (out @ xs)) f) else sendLoop sv ws' (out @ xs) (countOutput (length (out @ xs)) f))"
              using obj ob(1,2) d(1,2,3) db ne Cons False wp(1) True
              by (subst sendLoop.simps) (simp add: k_def [symmetric] Let_def decr_commute subBytes_def f [symmetric] xs_def [symmetric])
            then show ?thesis using aw unfolding xs_def f_def by simp
          next
            case part: False
            have "\<exists>ys e'. sendLoop sv ws' o2 f = Some (o2 @ ys, e') \<and> sent_step sv ext f ys e'"
              if "send_inv sv ext f" "c_reply f = c_reply (c\<lparr>c_sentlen := c_sentlen c + k\<rparr>)" for f o2
              by (rule less.hyps [OF _ that(1)]) (use that(2) Cons in simp)
            from after_write [OF wp(2) [OF part] this, of out] show ?thesis
              using obj ob(1,2) d(2) ne Cons False wp(1) part
              by (subst sendLoop.simps) (simp add: k_def [symmetric] Let_def)
          qed
        qed
      qed
    qed
  qed
qed


subsection \<open>Deferred lengths\<close>

lemma addDeferred_ok:
  assumes "ready sv ext sh c"
  shows "\<exists>ln c1. addDeferredMultiBulkLength sv c = (Some ln, c1) \<and> reply_inv sv ext c1 \<and> rframe ext c c1 \<and>
    ost c1 = (fst (ost c), texts c @ [(ln, None)])"
proof -
  have acc: "accepts sv c" and inv: "reply_inv sv ext c" using assms by (simp_all add: ready_def)
  obtain c0 where c0: "prepareClientToWrite sv c = (True, c0)" "only_flags c c0" using prepare_ok [OF acc] by (elim exE conjE)
  note of = only_flags_fields [OF c0(2)]
  have inv0: "reply_inv sv ext c0" using of(1) inv by simp
  define ob where "ob = \<lparr>ob_encoding = REDIS_ENCODING_RAW, ob_ptr = PNull, ob_refcount = 1\<rparr>"
  obtain a c1 where n: "newObject ob c0 = (a, c1)" by (cases "newObject ob c0")
  have wf: "v_wf (ob_encoding ob, ob_ptr ob)" "ob_encoding ob \<noteq> REDIS_ENCODING_INT" "ob_refcount ob = 1" by (simp_all add: ob_def v_wf_def)
  have m: "0 = v_used sv (Some (ob_encoding ob, ob_ptr ob))" "v_text (Some (ob_encoding ob, ob_ptr ob)) = None"
    by (simp_all add: ob_def v_used_def v_text_def)
  have z: "addBytes 0 x = x" for x by (simp add: addBytes_def)
  note an = add_new [OF inv0 wf n m(1), unfolded z m(2)]
  have "c_reply (listAddTail a c1) = c_reply c0 @ [(c_next c0 + 1, a)]" "c_buf (listAddTail a c1) = c_buf c0" "c_bufpos (listAddTail a c1) = c_bufpos c0"
    using n by (auto simp: listAddTail_def newObject_def)
  moreover from this have "addDeferredMultiBulkLength sv c = (Some (c_next c0 + 1), listAddTail a c1)"
    using c0(1) n by (simp add: addDeferredMultiBulkLength_def createObject_def ob_def)
  ultimately show ?thesis using an(1,2,3) of rframe_trans [OF of(3)] by (auto simp: ost_def)
qed

definition header :: "i64 \<Rightarrow> bytes" where
  "header v = 42 # print_ll v @ CRLF"

lemma header_sds: "\<exists>e s. sdsempty fresh = Some e \<and> sdscat fresh e (42 # print_ll v @ CRLF @ [0]) = Some s \<and> sds_rep s (header v)"
proof -
  obtain e where e: "sdsempty fresh = Some e" "sds_rep e []" using sdsempty_ok by blast
  have "0 \<notin> set (header v)" using print_ll_nz [of v] by (simp add: header_def CRLF_def)
  from c_str_prefix [OF this, of "[]"] have c: "c_str (42 # print_ll v @ CRLF @ [0]) = header v" by (simp add: header_def)
  have "length (header v) < 2 ^ 31" using length_print_ll [of v] by (simp add: header_def length_CRLF)
  then show ?thesis using sdscat_ok [OF e(2), of "42 # print_ll v @ CRLF @ [0]" fresh] e(1) by (auto simp: c)
qed

lemma hole_node:
  assumes h: "heap_ok ext c" and t: "texts c = r @ (ln, None) # post" and full: "list_all (\<lambda>(n, t). t \<noteq> None) (r @ post)"
  shows "\<exists>before a rest ob. c_reply c = before @ (ln, a) # rest \<and> c_heap c a = Some ob \<and> ob_ptr ob = PNull \<and> ext a = 0 \<and>
    a \<notin> snd ` set (before @ rest) \<and> takeWhile (\<lambda>(n, a). n \<noteq> ln) (c_reply c) = before \<and>
    dropWhile (\<lambda>(n, a). n \<noteq> ln) (c_reply c) = (ln, a) # rest \<and>
    map (\<lambda>(n, a). (n, v_text (view (c_heap c) a))) before = r \<and> map (\<lambda>(n, a). (n, v_text (view (c_heap c) a))) rest = post"
proof -
  from t obtain before a rest where r: "c_reply c = before @ (ln, a) # rest" and
      maps: "map (\<lambda>(n, a). (n, v_text (view (c_heap c) a))) before = r" "map (\<lambda>(n, a). (n, v_text (view (c_heap c) a))) rest = post"
      and v: "v_text (view (c_heap c) a) = None"
    unfolding texts_def map_eq_append_conv map_eq_Cons_conv by (auto split: prod.splits)
  obtain w where w: "view (c_heap c) a = Some w" "fst w \<noteq> REDIS_ENCODING_INT" using heap_okD(7) [OF h, of ln a] r by auto
  obtain ob where ob: "c_heap c a = Some ob" "w = (ob_encoding ob, ob_ptr ob)" using w(1) by (auto simp: view_Some)
  have wf: "v_wf (ob_encoding ob, ob_ptr ob)" by (rule heap_okD(2) [OF h ob(1)])
  have p: "ob_ptr ob = PNull" using v w ob(2) wf by (cases "ob_ptr ob") (simp_all add: v_text_def v_wf_def)
  have e: "ext a = 0"
  proof (rule ccontr)
    assume "ext a \<noteq> 0"
    then have "\<exists>v. view (c_heap c) a = Some v \<and> snd v \<noteq> PNull" using heap_okD(5) [OF h, of a] by simp
    then show False using w ob p by simp
  qed
  have "a \<notin> snd ` set (before @ rest)"
  proof
    assume "a \<in> snd ` set (before @ rest)"
    then obtain n where "(n, a) \<in> set (before @ rest)" by force
    then have "(n, None) \<in> set (r @ post)" using v maps by force
    then show False using full by (auto simp: list_all_iff)
  qed
  moreover have "\<forall>(n, b)\<in>set before. n \<noteq> ln" using heap_okD(8) [OF h] r by (auto simp: rev_image_eqI)
  then have "takeWhile (\<lambda>(n, a). n \<noteq> ln) (c_reply c) = before" "dropWhile (\<lambda>(n, a). n \<noteq> ln) (c_reply c) = (ln, a) # rest"
    unfolding r by (subst takeWhile_append2 dropWhile_append2; auto)+
  ultimately show ?thesis using r ob(1) p e maps by blast
qed

text \<open>Filling in the length.\<close>

lemma fill_hole:
  assumes h: "heap_ok ext c" and r: "c_reply c = before @ (ln, a) # rest" and ob: "c_heap c a = Some ob" "ob_ptr ob = PNull"
    and e: "ext a = 0" "a \<notin> snd ` set (before @ rest)" and s: "sds_rep s x"
    and d: "d = c\<lparr>c_heap := (c_heap c)(a \<mapsto> ob\<lparr>ob_ptr := PSds s, ob_encoding := REDIS_ENCODING_RAW\<rparr>)\<rparr>"
  shows "heap_ok ext d" "\<And>b. b \<noteq> a \<Longrightarrow> view (c_heap d) b = view (c_heap c) b" "view (c_heap d) a = Some (REDIS_ENCODING_RAW, PSds s)"
    "rframe ext c d" "map (\<lambda>(n, a). (n, v_text (view (c_heap d) a))) before = map (\<lambda>(n, a). (n, v_text (view (c_heap c) a))) before"
    "map (\<lambda>(n, a). (n, v_text (view (c_heap d) a))) rest = map (\<lambda>(n, a). (n, v_text (view (c_heap c) a))) rest"
    "(\<Sum>(n, b)\<leftarrow>before. v_used sv (view (c_heap d) b)) = (\<Sum>(n, b)\<leftarrow>before. v_used sv (view (c_heap c) b))"
    "(\<Sum>(n, b)\<leftarrow>rest. v_used sv (view (c_heap d) b)) = (\<Sum>(n, b)\<leftarrow>rest. v_used sv (view (c_heap c) b))"
proof -
  show "heap_ok ext d" unfolding d by (rule set_ptr [OF h ob(1) e(1)]) (use s sds_rep_text [OF s] in \<open>simp_all add: v_wf_def\<close>)
  show v: "\<And>b. b \<noteq> a \<Longrightarrow> view (c_heap d) b = view (c_heap c) b" and "view (c_heap d) a = Some (REDIS_ENCODING_RAW, PSds s)"
    by (simp_all add: d view_upd)
  have "view (c_heap d) b = view (c_heap c) b" if "0 < ext b" for b by (rule v) (use that e(1) in auto)
  then show "rframe ext c d" by (simp add: rframe_def d has_flag_def)
  have vb: "view (c_heap d) b = view (c_heap c) b" if "b \<in> snd ` set before" for b by (rule v) (use that e(2) in auto)
  have vr: "view (c_heap d) b = view (c_heap c) b" if "b \<in> snd ` set rest" for b by (rule v) (use that e(2) in auto)
  show "map (\<lambda>(n, a). (n, v_text (view (c_heap d) a))) before = map (\<lambda>(n, a). (n, v_text (view (c_heap c) a))) before"
    by (rule texts_cong(1)) (rule vb)
  show "map (\<lambda>(n, a). (n, v_text (view (c_heap d) a))) rest = map (\<lambda>(n, a). (n, v_text (view (c_heap c) a))) rest"
    by (rule texts_cong(1)) (rule vr)
  show "(\<Sum>(n, b)\<leftarrow>before. v_used sv (view (c_heap d) b)) = (\<Sum>(n, b)\<leftarrow>before. v_used sv (view (c_heap c) b))"
    by (rule arg_cong [where f = sum_list], rule texts_cong(2), rule vb)
  show "(\<Sum>(n, b)\<leftarrow>rest. v_used sv (view (c_heap d) b)) = (\<Sum>(n, b)\<leftarrow>rest. v_used sv (view (c_heap c) b))"
    by (rule arg_cong [where f = sum_list], rule texts_cong(2), rule vr)
qed


lemma setDeferred_ok:
  assumes inv: "reply_inv sv ext c" and t: "texts c = r @ (ln, None) # post" and full: "list_all (\<lambda>(n, t). t \<noteq> None) (r @ post)"
    and small: "length (flat post) < 2 ^ 30"
  shows "\<exists>c' y post'. setDeferredMultiBulkLength sv (Some ln) v c = Some c' \<and> reply_inv sv ext c' \<and> rframe ext c c' \<and>
    ost c' = (fst (ost c), r @ (ln, Some (header v @ y)) # post') \<and> y @ flat post' = flat post \<and> list_all (\<lambda>(n, t). t \<noteq> None) post'"
proof -
  have h: "heap_ok ext c" and b: "buf_ok c" and mem: "mem_ok sv c" using inv by (simp_all add: reply_inv_def)
  from hole_node [OF h t full] obtain before a rest ob where
    cr: "c_reply c = before @ (ln, a) # rest" and ob: "c_heap c a = Some ob" "ob_ptr ob = PNull" and e: "ext a = 0" "a \<notin> snd ` set (before @ rest)"
    and tw: "takeWhile (\<lambda>(n, a). n \<noteq> ln) (c_reply c) = before" "dropWhile (\<lambda>(n, a). n \<noteq> ln) (c_reply c) = (ln, a) # rest"
    and maps: "map (\<lambda>(n, a). (n, v_text (view (c_heap c) a))) before = r" "map (\<lambda>(n, a). (n, v_text (view (c_heap c) a))) rest = post"
    by (elim exE conjE)
  from header_sds [of "sv_fresh sv" v] obtain em s where
    s: "sdsempty (sv_fresh sv) = Some em" "sdscat (sv_fresh sv) em (42 # print_ll v @ CRLF @ [0]) = Some s" "sds_rep s (header v)" by (elim exE conjE)
  have va: "view (c_heap c) a = Some (ob_encoding ob, PNull)" using ob by (simp add: view_def)
  have bytes: "c_reply_bytes c = (\<Sum>(n, b)\<leftarrow>before. v_used sv (view (c_heap c) b)) + (\<Sum>(n, b)\<leftarrow>rest. v_used sv (view (c_heap c) b))"
    using mem va by (cases "ob_encoding ob") (simp_all add: mem_ok_def cr v_used_def)
  show ?thesis
  proof (cases rest)
    case Nil
    define d where "d = c\<lparr>c_heap := (c_heap c)(a \<mapsto> ob\<lparr>ob_ptr := PSds s, ob_encoding := REDIS_ENCODING_RAW\<rparr>)\<rparr>"
    note fh = fill_hole [OF h cr ob e s(3) d_def]
    define d1 where "d1 = addBytes (zmalloc_size_sds sv s) d"
    have run: "setDeferredMultiBulkLength sv (Some ln) v c = Some (asyncCloseClientOnOutputBufferLimitReached sv d1)"
      using s(1,2) ob(1) by (simp add: setDeferredMultiBulkLength_def tw Nil d1_def d_def)
    have "heap_ok ext d1" using fh(1) heap_ok_cong [of d1 d ext] by (simp add: d1_def addBytes_def)
    moreover have "mem_ok sv d1" using bytes fh(3) fh(7) [of sv] by (simp add: mem_ok_def d1_def addBytes_def v_used_def) (simp add: d_def cr Nil)
    moreover have "buf_ok d1" using b by (simp add: buf_ok_def d1_def addBytes_def d_def)
    ultimately have "reply_inv sv ext d1" by (simp add: reply_inv_def)
    moreover have "rframe ext c d1" using fh(4) by (simp add: rframe_def d1_def addBytes_def has_flag_def)
    moreover have "ost d1 = (fst (ost c), r @ [(ln, Some (header v))])"
    proof -
      have "texts d1 = map (\<lambda>(n, a). (n, v_text (view (c_heap d) a))) (c_reply c)" by (simp add: texts_def d1_def addBytes_def d_def)
      also have "\<dots> = r @ [(ln, Some (header v))]"
        unfolding cr map_append trans [OF fh(5) maps(1)] using fh(3) sds_rep_text [OF s(3)] by (simp add: Nil v_text_def)
      finally show ?thesis by (simp add: ost_def d1_def addBytes_def d_def)
    qed
    moreover note of = only_flags_fields [OF asyncClose_flags [of d1 sv]]
    ultimately show ?thesis using run maps(2) Nil rframe_trans [OF _ of(3)]
      by (intro exI [of _ "asyncCloseClientOnOutputBufferLimitReached sv d1"] exI [of _ "[]"]) (simp add: of ost_def flat_def)
  next
    case (Cons nb after)
    obtain m nx where nb: "nb = (m, nx)" by (cases nb)
    obtain u pt where post: "post = (m, Some u) # pt" "v_text (view (c_heap c) nx) = Some u" "map (\<lambda>(n, a). (n, v_text (view (c_heap c) a))) after = pt"
      using maps(2) full Cons nb by (auto simp: list_all_iff)
    have nx: "nx \<noteq> a" using e(2) Cons nb by auto
    obtain w where w: "view (c_heap c) nx = Some w" "fst w \<noteq> REDIS_ENCODING_INT" using heap_okD(7) [OF h, of m nx] cr Cons nb by auto
    obtain obn where obn: "c_heap c nx = Some obn" "w = (ob_encoding obn, ob_ptr obn)" using w(1) by (auto simp: view_Some)
    note wf = heap_okD(2) [OF h obn(1)]
    obtain p where p: "ob_ptr obn = PSds p" "sds_text p = u" using wf post(2) w obn(2) by (cases "ob_ptr obn") (auto simp: v_wf_def v_text_def)
    have rp: "sds_rep p u" using wf p by (simp add: v_wf_def)
    note used = used_eq [OF wf p(1), of sv]
    define k where "k = v_used sv (Some (ob_encoding obn, ob_ptr obn))"
    have "length u < 2 ^ 30" using small post(1) by (simp add: flat_def)
    moreover have "length (header v) \<le> 23" using length_print_ll [of v] by (simp add: header_def length_CRLF)
    ultimately have "\<exists>s2. sdscatlen (sv_fresh sv) s (sh_buf p) (sdslen p) = Some s2 \<and> sds_rep s2 (header v @ take (sdslen p) (sh_buf p))"
      using sds_rep_len [OF rp] sds_rep_read(1) [OF rp] by (intro sdscatlen_ok [OF s(3)]) (simp_all add: sdslen_def)
    then obtain s2 where s2: "sdscatlen (sv_fresh sv) s (sh_buf p) (sdslen p) = Some s2" "sds_rep s2 (header v @ u)"
      using sds_rep_read(3) [OF rp] by auto
    define d where "d = c\<lparr>c_heap := (c_heap c)(a \<mapsto> ob\<lparr>ob_ptr := PSds s2, ob_encoding := REDIS_ENCODING_RAW\<rparr>)\<rparr>"
    note fh = fill_hole [OF h cr ob e s2(2) d_def]
    have dr: "c_reply d = (before @ [(ln, a)]) @ (m, nx) # after" by (simp add: d_def cr Cons nb)
    have vn: "view (c_heap d) nx = Some (ob_encoding obn, PSds p)" using fh(2) [OF nx] w obn p by simp
    define q where "q = c_reply_bytes c - k + zmalloc_size_sds sv s2"
    have vk: "v_used sv (view (c_heap c) nx) = k" using w obn by (simp add: k_def)
    have kb: "k \<le> c_reply_bytes c" using bytes vk Cons nb by simp
    have qs: "q = (\<Sum>(n, b)\<leftarrow>(before @ [(ln, a)]) @ after. v_used sv (view (c_heap d) b))"
      using bytes fh(7) [of sv] fh(8) [of sv] fh(3) vk fh(2) [OF nx] by (simp add: q_def Cons nb v_used_def)
    have bd: "buf_ok d" using b by (simp add: buf_ok_def d_def)
    from remove_node [OF fh(1) bd dr vn qs] obtain c' where
      c': "decrRefCount nx (d\<lparr>c_reply := (before @ [(ln, a)]) @ after, c_reply_bytes := q\<rparr>) = Some c'" "reply_inv sv ext c'" "rframe ext d c'"
        "ost c' = (fst (ost d), map (\<lambda>(n, b). (n, v_text (view (c_heap d) b))) ((before @ [(ln, a)]) @ after))" by (elim exE conjE)
    have "map (\<lambda>(n, b). (n, v_text (view (c_heap d) b))) after = pt" using trans [OF fh(6) maps(2)] post(1) Cons by simp
    moreover have "fst (ost d) = fst (ost c)" by (simp add: ost_def d_def)
    moreover have "v_text (view (c_heap d) a) = Some (header v @ u)" using fh(3) sds_rep_text [OF s2(2)] by (simp add: v_text_def)
    ultimately have ot: "ost c' = (fst (ost c), r @ (ln, Some (header v @ u)) # pt)"
      unfolding c'(4) map_append trans [OF fh(5) maps(1)] by simp
    have "d\<lparr>c_reply := (before @ [(ln, a)]) @ after, c_reply_bytes := q\<rparr> = d\<lparr>c_reply_bytes := q, c_reply := before @ (ln, a) # after\<rparr>" by simp
    note dec = c'(1) [unfolded this]
    have run: "setDeferredMultiBulkLength sv (Some ln) v c = Some (asyncCloseClientOnOutputBufferLimitReached sv c')"
      using s(1,2) s2(1) ob(1) obn(1) p(1) nx used kb dec
      by (simp add: setDeferredMultiBulkLength_def tw Cons nb addBytes_def subBytes_def q_def d_def k_def)
    moreover note of = only_flags_fields [OF asyncClose_flags [of c' sv]]
    have "ost (asyncCloseClientOnOutputBufferLimitReached sv c') = ost c'" by (simp add: ost_def of)
    moreover have "list_all (\<lambda>(n, t). t \<noteq> None) pt" using full post(1) by simp
    moreover have "u @ flat pt = flat post" using post(1) by (simp add: flat_def)
    moreover have "rframe ext c (asyncCloseClientOnOutputBufferLimitReached sv c')" using fh(4) c'(3) of(3) rframe_trans by blast
    ultimately show ?thesis using ot c'(2) of(1) by auto
  qed
qed


section \<open>Replies and transmissions in any order\<close>

datatype rop = RObj nat | RSds sdshdr | RString bytes | RError bytes | RErrorFormat bytes | RStatus bytes | RStatusFormat bytes
  | RLongLong i64 | RMultiBulkLen i64 | RBulk nat | RBulkBuffer bytes | RBulkCString "bytes option" | RBulkLongLong i64

fun run_rop :: "server_env \<Rightarrow> shared_objects \<Rightarrow> rop \<Rightarrow> redisClient \<Rightarrow> redisClient option" where
  "run_rop sv sh (RObj a) c = addReply sv a c"
| "run_rop sv sh (RSds s) c = addReplySds sv s c"
| "run_rop sv sh (RString s) c = addReplyString sv s (length s) c"
| "run_rop sv sh (RError s) c = addReplyError sv s c"
| "run_rop sv sh (RErrorFormat s) c = addReplyErrorFormat sv s c"
| "run_rop sv sh (RStatus s) c = addReplyStatus sv s c"
| "run_rop sv sh (RStatusFormat s) c = addReplyStatusFormat sv s c"
| "run_rop sv sh (RLongLong v) c = addReplyLongLong sv sh v c"
| "run_rop sv sh (RMultiBulkLen v) c = addReplyMultiBulkLen sv sh v c"
| "run_rop sv sh (RBulk a) c = addReplyBulk sv sh a c"
| "run_rop sv sh (RBulkBuffer s) c = addReplyBulkCBuffer sv sh s (length s) c"
| "run_rop sv sh (RBulkCString s) c = addReplyBulkCString sv sh s c"
| "run_rop sv sh (RBulkLongLong v) c = addReplyBulkLongLong sv sh v c"

text \<open>What a reply says in the protocol.\<close>

fun rop_text :: "redisClient \<Rightarrow> rop \<Rightarrow> bytes" where
  "rop_text c (RObj a) = the (obj_text c a)"
| "rop_text c (RSds s) = sds_text s"
| "rop_text c (RString s) = s"
| "rop_text c (RError s) = lit ''-ERR '' @ c_str s @ CRLF"
| "rop_text c (RErrorFormat s) = lit ''-ERR '' @ map (\<lambda>ch. if ch = 13 \<or> ch = 10 then 32 else ch) s @ CRLF"
| "rop_text c (RStatus s) = [43] @ c_str s @ CRLF"
| "rop_text c (RStatusFormat s) = [43] @ s @ CRLF"
| "rop_text c (RLongLong v) = 58 # print_ll v @ CRLF"
| "rop_text c (RMultiBulkLen v) = header v"
| "rop_text c (RBulk a) = bulk (the (obj_text c a))"
| "rop_text c (RBulkBuffer s) = bulk s"
| "rop_text c (RBulkCString s) = (case s of None \<Rightarrow> lit ''$-1'' @ CRLF | Some t \<Rightarrow> bulk (c_str t))"
| "rop_text c (RBulkLongLong v) = bulk (print_ll v)"

text \<open>Objects must be held by someone else, texts shorter than 4 GB, lengths not negative.\<close>

fun rop_ok :: "(nat \<Rightarrow> nat) \<Rightarrow> redisClient \<Rightarrow> rop \<Rightarrow> bool" where
  "rop_ok ext c (RObj a) \<longleftrightarrow> 0 < ext a"
| "rop_ok ext c (RSds s) \<longleftrightarrow> sds_rep s (sds_text s)"
| "rop_ok ext c (RString s) \<longleftrightarrow> length s < 2 ^ 32"
| "rop_ok ext c (RError s) \<longleftrightarrow> length s < 2 ^ 32"
| "rop_ok ext c (RErrorFormat s) \<longleftrightarrow> length s < 2 ^ 32"
| "rop_ok ext c (RStatus s) \<longleftrightarrow> length s < 2 ^ 32"
| "rop_ok ext c (RStatusFormat s) \<longleftrightarrow> length s < 2 ^ 32"
| "rop_ok ext c (RLongLong v) \<longleftrightarrow> True"
| "rop_ok ext c (RMultiBulkLen v) \<longleftrightarrow> 0 \<le> sint v"
| "rop_ok ext c (RBulk a) \<longleftrightarrow> 0 < ext a \<and> sendable c a"
| "rop_ok ext c (RBulkBuffer s) \<longleftrightarrow> length s < 2 ^ 32"
| "rop_ok ext c (RBulkCString s) \<longleftrightarrow> (case s of None \<Rightarrow> True | Some t \<Rightarrow> length t < 2 ^ 32)"
| "rop_ok ext c (RBulkLongLong v) \<longleftrightarrow> True"

lemma ext_text: "ready sv ext sh c \<Longrightarrow> 0 < ext a \<Longrightarrow> \<exists>t. obj_text c a = Some t"
proof -
  assume "ready sv ext sh c" "0 < ext a"
  then have "\<exists>v. view (c_heap c) a = Some v \<and> snd v \<noteq> PNull" using heap_okD(5) [of ext c a] by (simp add: ready_def reply_inv_def)
  then obtain e p where "view (c_heap c) a = Some (e, p)" "p \<noteq> PNull" by auto
  then show ?thesis by (cases p) (simp_all add: obj_text_def v_text_def)
qed

lemma run_rop_ok:
  assumes r: "ready sv ext sh c" and op: "rop_ok ext c op"
  shows "\<exists>c'. run_rop sv sh op c = Some c' \<and> appended sv ext c (rop_text c op) c'"
proof (cases op)
  case (RObj a)
  then obtain t where "obj_text c a = Some t" using op ext_text [OF r] by auto
  then show ?thesis using ready_obj [OF r, of a t] RObj op by simp
next
  case (RSds s)
  then show ?thesis using addReplySds_ok [of sv ext c s "sds_text s"] r op by (simp add: ready_def)
next
  case (RString s)
  then show ?thesis using ready_string0 [OF r, of s] op by simp
next
  case (RError s)
  then show ?thesis using addReplyError_ok [OF r, of s] op length_c_str(1) [of s] by simp
next
  case (RErrorFormat s)
  define u where "u = map (\<lambda>ch. if ch = 13 \<or> ch = 10 then 32 else ch) s"
  have "length u < 2 ^ 32" using RErrorFormat op by (simp add: u_def)
  from addReplyErrorLength_ok [OF r this, of "[]"] show ?thesis using RErrorFormat by (simp add: addReplyErrorFormat_def u_def Let_def)
next
  case (RStatus s)
  then show ?thesis using addReplyStatus_ok [OF r, of s] op length_c_str(1) [of s] by simp
next
  case (RStatusFormat s)
  then show ?thesis using addReplyStatusLength_ok [OF r, of s "[]"] op by (simp add: addReplyStatusFormat_def)
next
  case (RLongLong v)
  then show ?thesis using addReplyLongLong_ok [OF r, of v] by simp
next
  case (RMultiBulkLen v)
  then show ?thesis using addReplyMultiBulkLen_ok [OF r, of v] op by (simp add: header_def)
next
  case (RBulk a)
  then obtain t where "obj_text c a = Some t" using op ext_text [OF r] by auto
  then show ?thesis using addReplyBulk_ok [OF r, of a t] RBulk op by simp
next
  case (RBulkBuffer s)
  then show ?thesis using addReplyBulkCBuffer_ok [OF r, of s "[]"] op by simp
next
  case (RBulkCString s)
  have "length (c_str t) < 2 ^ 32" if "s = Some t" for t using that op RBulkCString length_c_str(1) [of t] by simp
  from addReplyBulkCString_ok [OF r this] show ?thesis using RBulkCString by simp
next
  case (RBulkLongLong v)
  then show ?thesis using addReplyBulkLongLong_ok [OF r, of v] by simp
qed

text \<open>What replies and transmissions both leave alone.\<close>

definition vframe :: "(nat \<Rightarrow> nat) \<Rightarrow> redisClient \<Rightarrow> redisClient \<Rightarrow> bool" where
  "vframe ext c c' \<longleftrightarrow> (\<forall>a. 0 < ext a \<longrightarrow> view (c_heap c') a = view (c_heap c) a) \<and>
     (\<forall>k. k \<noteq> REDIS_CLOSE_ASAP \<longrightarrow> has_flag k c' = has_flag k c) \<and> c_fd c' = c_fd c"

lemma frame_vframe: "rframe ext c c' \<Longrightarrow> vframe ext c c'"
  by (simp add: rframe_def vframe_def)

lemma vframe_trans: "vframe ext c d \<Longrightarrow> vframe ext d e \<Longrightarrow> vframe ext c e"
  by (simp add: vframe_def)

lemma vframe_rop:
  assumes "vframe ext c c'" "rop_ok ext c op"
  shows "rop_ok ext c' op" "rop_text c' op = rop_text c op"
proof -
  have v: "view (c_heap c') a = view (c_heap c) a" if "0 < ext a" for a using assms(1) that by (simp add: vframe_def)
  show "rop_ok ext c' op" using assms(2) v by (cases op) (auto simp: sendable_def)
  show "rop_text c' op = rop_text c op" using assms(2) v by (cases op) (auto simp: obj_text_def)
qed

lemma vframe_rops:
  assumes "vframe ext c c'" "list_all (rop_ok ext c) ops"
  shows "list_all (rop_ok ext c') ops" "concat (map (rop_text c') ops) = concat (map (rop_text c) ops)"
proof -
  have "map (rop_text c') ops = map (rop_text c) ops" using assms(2) vframe_rop(2) [OF assms(1)] by (auto simp: list_all_iff)
  then show "concat (map (rop_text c') ops) = concat (map (rop_text c) ops)" by (rule arg_cong)
  show "list_all (rop_ok ext c') ops" using assms(2) vframe_rop(1) [OF assms(1)] by (auto simp: list_all_iff)
qed

lemma vframe_ready: "vframe ext c c' \<Longrightarrow> ready sv ext sh c \<Longrightarrow> reply_inv sv ext c' \<Longrightarrow> ready sv ext sh c'"
  unfolding ready_def vframe_def accepts_def shared_ok_def obj_text_def
  by (simp add: REDIS_CLOSE_AFTER_REPLY_def REDIS_LUA_CLIENT_def REDIS_MASTER_def REDIS_MASTER_FORCE_REPLY_def REDIS_CLOSE_ASAP_def)

lemma run_rops_ok:
  assumes "ready sv ext sh c" "list_all (rop_ok ext c) ops"
  shows "\<exists>c'. for_each ops (run_rop sv sh) c = Some c' \<and> appended sv ext c (concat (map (rop_text c) ops)) c'"
  using assms
proof (induction ops arbitrary: c)
  case Nil
  then show ?case by (simp add: appended_def ready_def rframe_refl chain_refl)
next
  case (Cons op ops)
  then obtain c1 where c1: "run_rop sv sh op c = Some c1" "appended sv ext c (rop_text c op) c1"
    using run_rop_ok [of sv ext sh c op] by auto
  have fr: "vframe ext c c1" using c1(2) frame_vframe by (simp add: appended_def)
  have ok: "list_all (rop_ok ext c) ops" using Cons.prems(2) by simp
  from Cons.IH [OF ready_appended [OF Cons.prems(1) c1(2)] vframe_rops(1) [OF fr ok]] obtain c2 where
    "for_each ops (run_rop sv sh) c1 = Some c2" "appended sv ext c1 (concat (map (rop_text c) ops)) c2"
    unfolding vframe_rops(2) [OF fr ok] by (elim exE conjE)
  then show ?case using c1 appended_trans [OF c1(2)] by auto
qed

datatype out_event = EReply rop | EDeferred i64 "rop list" | ESend "nat list"

fun run_event :: "server_env \<Rightarrow> shared_objects \<Rightarrow> out_event \<Rightarrow> bytes \<times> redisClient \<Rightarrow> (bytes \<times> redisClient) option" where
  "run_event sv sh (EReply op) (out, c) = map_option (Pair out) (run_rop sv sh op c)"
| "run_event sv sh (EDeferred v ops) (out, c) =
     (let (node, c) = addDeferredMultiBulkLength sv c in do {
        c \<leftarrow> for_each ops (run_rop sv sh) c;
        c \<leftarrow> setDeferredMultiBulkLength sv node v c;
        Some (out, c) })"
| "run_event sv sh (ESend writes) (out, c) = do {
     (xs, c) \<leftarrow> sendReplyToClient sv writes False c;
     Some (out @ xs, c) }"

fun event_text :: "redisClient \<Rightarrow> out_event \<Rightarrow> bytes" where
  "event_text c (EReply op) = rop_text c op"
| "event_text c (EDeferred v ops) = header v @ concat (map (rop_text c) ops)"
| "event_text c (ESend writes) = []"

fun event_ok :: "(nat \<Rightarrow> nat) \<Rightarrow> redisClient \<Rightarrow> out_event \<Rightarrow> bool" where
  "event_ok ext c (EReply op) \<longleftrightarrow> rop_ok ext c op"
| "event_ok ext c (EDeferred v ops) \<longleftrightarrow> list_all (rop_ok ext c) ops \<and> length (concat (map (rop_text c) ops)) < 2 ^ 30"
| "event_ok ext c (ESend writes) \<longleftrightarrow> True"

definition pending :: "redisClient \<Rightarrow> bytes" where
  "pending c = drop (c_sentlen c) (all_bytes (ost c))"


text \<open>The effect of one event on what has been sent and what is pending.\<close>

definition delivers :: "server_env \<Rightarrow> (nat \<Rightarrow> nat) \<Rightarrow> redisClient \<Rightarrow> bytes \<Rightarrow> bytes \<Rightarrow> redisClient \<Rightarrow> bool" where
  "delivers sv ext c s xs c' \<longleftrightarrow> send_inv sv ext c' \<and> vframe ext c c' \<and> pending c @ s = xs @ pending c'"

lemma appended_delivers:
  assumes "send_inv sv ext c" "appended sv ext c s c'"
  shows "delivers sv ext c s [] c'"
proof -
  have i: "sent_ok (c_sentlen c) (ost c)" "no_holes (ost c)" using assms(1) by (simp_all add: send_inv_def)
  have a: "reply_inv sv ext c'" "rframe ext c c'" "chain (ost c) s (ost c')" using assms(2) by (simp_all add: appended_def)
  have k: "c_sentlen c' = c_sentlen c" using a(2) by (simp add: rframe_def)
  have "c_sentlen c \<le> length (all_bytes (ost c))"
    using i(1) by (cases "snd (ost c)") (auto simp: sent_ok_def all_bytes_def flat_def split: if_splits)
  then show ?thesis unfolding delivers_def send_inv_def pending_def
    using a k frame_vframe chain_bytes [OF a(3)] chain_sent [OF a(3) i(1)] chain_holes [OF a(3) i(2)] by simp
qed

lemma deferred_delivers:
  assumes r: "ready sv ext sh c" and i: "send_inv sv ext c" and ok: "event_ok ext c (EDeferred v ops)"
  shows "\<exists>c'. run_event sv sh (EDeferred v ops) (out, c) = Some (out, c') \<and> delivers sv ext c (event_text c (EDeferred v ops)) [] c'"
proof -
  have s0: "sent_ok (c_sentlen c) (ost c)" "no_holes (ost c)" using i by (simp_all add: send_inv_def)
  from addDeferred_ok [OF r] obtain ln c1 where
    c1: "addDeferredMultiBulkLength sv c = (Some ln, c1)" "reply_inv sv ext c1" "rframe ext c c1" "ost c1 = (fst (ost c), texts c @ [(ln, None)])"
    by (elim exE conjE)
  have r1: "ready sv ext sh c1" by (rule vframe_ready [OF frame_vframe [OF c1(3)] r c1(2)])
  have ops: "list_all (rop_ok ext c) ops" "length (concat (map (rop_text c) ops)) < 2 ^ 30" using ok by simp_all
  define t where "t = concat (map (rop_text c) ops)"
  from run_rops_ok [OF r1 vframe_rops(1) [OF frame_vframe [OF c1(3)] ops(1)]] obtain c2 where
    c2: "for_each ops (run_rop sv sh) c1 = Some c2" "appended sv ext c1 t c2"
    unfolding vframe_rops(2) [OF frame_vframe [OF c1(3)] ops(1)] t_def by (elim exE conjE)
  have c2': "reply_inv sv ext c2" "rframe ext c1 c2" "chain (ost c1) t (ost c2)" using c2(2) by (simp_all add: appended_def)
  from chain_hole [OF c2'(3) c1(4)] obtain post where post: "ost c2 = (fst (ost c), texts c @ (ln, None) # post)" "flat post = t"
    by (auto simp: flat_def)
  have full: "list_all (\<lambda>(n, t). t \<noteq> None) (texts c @ post)"
    using s0(2) chain_full [OF c2'(3) c1(4)] post(1) by (simp add: no_holes_def ost_def)
  have t2: "texts c2 = texts c @ (ln, None) # post" using post(1) by (simp add: ost_def)
  from setDeferred_ok [OF c2'(1) t2 full, of v] obtain c3 y post' where
    c3: "setDeferredMultiBulkLength sv (Some ln) v c2 = Some c3" "reply_inv sv ext c3" "rframe ext c2 c3"
      "ost c3 = (fst (ost c2), texts c @ (ln, Some (header v @ y)) # post')" "y @ flat post' = flat post" "list_all (\<lambda>(n, t). t \<noteq> None) post'"
    using post(2) ops(2) t_def by auto
  have fr: "rframe ext c c3" using c1(3) c2'(2) c3(3) rframe_trans by blast
  have o3: "ost c3 = (fst (ost c), texts c @ (ln, Some (header v @ y)) # post')" using c3(4) post(1) by simp
  have k: "c_sentlen c3 = c_sentlen c" using fr by (simp add: rframe_def)
  have le: "c_sentlen c \<le> length (all_bytes (ost c))"
    using s0(1) by (cases "snd (ost c)") (auto simp: sent_ok_def all_bytes_def flat_def split: if_splits)
  have "all_bytes (ost c3) = all_bytes (ost c) @ header v @ t"
    using c3(5) post(2) unfolding o3 by (simp add: all_bytes_def flat_def ost_def)
  moreover have "sent_ok (c_sentlen c) (ost c3)"
    using s0(1) unfolding o3 by (cases "texts c") (auto simp: sent_ok_def ost_def)
  moreover have "no_holes (ost c3)" using c3(6) full unfolding o3 by (simp add: no_holes_def)
  ultimately have "delivers sv ext c (header v @ t) [] c3"
    unfolding delivers_def send_inv_def pending_def using c3(2) k le frame_vframe [OF fr] by simp
  then show ?thesis using c1(1) c2(1) c3(1) by (simp add: t_def)
qed


lemma only_idle:
  assumes "send_inv sv ext c" "c' = c\<lparr>c_lastinteraction := l, c_wevent := w\<rparr>"
  shows "send_inv sv ext c'" "vframe ext c c'" "pending c' = pending c"
  using assms heap_ok_cong [of c' c ext]
  by (simp_all add: send_inv_def reply_inv_def buf_ok_def mem_ok_def ost_def texts_def vframe_def has_flag_def pending_def)

lemma idle_sentlen:
  assumes "send_inv sv ext c" "c_bufpos c = 0" "c_reply c = []"
  shows "c_sentlen c = 0"
  using assms by (simp add: send_inv_def sent_ok_def ost_def texts_def)

lemma send_delivers:
  assumes i: "send_inv sv ext c" and acc: "accepts sv c"
  shows "\<exists>xs c'. sendReplyToClient sv writes False c = Some (xs, c') \<and> delivers sv ext c [] xs c'"
proof -
  obtain xs d where d: "sendLoop sv writes [] c = Some (xs, d)" "sent_step sv ext c xs d" using sendLoop_ok [OF i, of writes "[]"] by auto
  have i1: "send_inv sv ext d" by (rule sent_step_inv [OF d(2)])
  have vd: "vframe ext c d" "pending c = xs @ pending d" using d(2) by (simp_all add: sent_step_def sframe_def rframe_def vframe_def pending_def has_flag_def)
  define l where "l = (if xs \<noteq> [] \<and> \<not> has_flag REDIS_MASTER d then sv_unixtime sv else c_lastinteraction d)"
  define w where "w = (c_wevent d \<and> \<not> (c_bufpos d = 0 \<and> c_reply d = []))"
  define e where "e = d\<lparr>c_lastinteraction := l, c_wevent := w\<rparr>"
  note e = only_idle [OF i1 e_def]
  have nf: "\<not> has_flag REDIS_CLOSE_AFTER_REPLY d"
    using acc vd(1) by (simp add: accepts_def vframe_def REDIS_CLOSE_AFTER_REPLY_def REDIS_CLOSE_ASAP_def)
  have "sendReplyToClient sv writes False c = Some (xs, e)"
  proof (cases "c_bufpos d = 0 \<and> c_reply d = []")
    case True
    have "c_sentlen d = 0" using idle_sentlen [OF i1] True by simp
    then show ?thesis using d(1) nf True
      by (simp add: sendReplyToClient_def e_def w_def l_def Let_def has_flag_def)
  next
    case False
    then show ?thesis using d(1) by (auto simp: sendReplyToClient_def e_def w_def l_def Let_def)
  qed
  moreover have "delivers sv ext c [] xs e" unfolding delivers_def using e vd vframe_trans by auto
  ultimately show ?thesis by blast
qed

lemma run_event_ok:
  assumes r: "ready sv ext sh c" and i: "send_inv sv ext c" and ok: "event_ok ext c ev"
  shows "\<exists>xs c'. run_event sv sh ev (out, c) = Some (out @ xs, c') \<and> delivers sv ext c (event_text c ev) xs c' \<and> ready sv ext sh c'"
proof -
  have "\<exists>xs c'. run_event sv sh ev (out, c) = Some (out @ xs, c') \<and> delivers sv ext c (event_text c ev) xs c'"
  proof (cases ev)
    case (EReply op)
    then show ?thesis using run_rop_ok [OF r, of op] ok appended_delivers [OF i] by auto
  next
    case (EDeferred v ops)
    then show ?thesis using deferred_delivers [OF r i, of v ops out] ok by auto
  next
    case (ESend ws)
    have "accepts sv c" using r by (simp add: ready_def)
    then show ?thesis using send_delivers [OF i, of ws] ESend by auto
  qed
  then show ?thesis using vframe_ready [OF _ r] unfolding delivers_def send_inv_def by blast
qed

lemma vframe_event:
  assumes "vframe ext c c'" "event_ok ext c ev"
  shows "event_ok ext c' ev" "event_text c' ev = event_text c ev"
proof -
  show "event_ok ext c' ev" using assms vframe_rop [OF assms(1)] vframe_rops [OF assms(1)] by (cases ev) auto
  show "event_text c' ev = event_text c ev" using assms vframe_rop [OF assms(1)] vframe_rops [OF assms(1)] by (cases ev) auto
qed

lemma run_events_ok:
  assumes "ready sv ext sh c" "send_inv sv ext c" "list_all (event_ok ext c) evs"
  shows "\<exists>xs c'. for_each evs (run_event sv sh) (out, c) = Some (out @ xs, c') \<and>
    delivers sv ext c (concat (map (event_text c) evs)) xs c'"
  using assms
proof (induction evs arbitrary: c out)
  case Nil
  then show ?case by (simp add: delivers_def vframe_def)
next
  case (Cons ev evs)
  have ok: "event_ok ext c ev" "list_all (event_ok ext c) evs" using Cons.prems(3) by simp_all
  from run_event_ok [OF Cons.prems(1,2) ok(1), of out] obtain xs c1 where
    c1: "run_event sv sh ev (out, c) = Some (out @ xs, c1)" "delivers sv ext c (event_text c ev) xs c1" "ready sv ext sh c1" by (elim exE conjE)
  have v: "vframe ext c c1" and i1: "send_inv sv ext c1" and p1: "pending c @ event_text c ev = xs @ pending c1"
    using c1(2) by (simp_all add: delivers_def)
  have ok1: "list_all (event_ok ext c1) evs" using ok(2) vframe_event(1) [OF v] by (auto simp: list_all_iff)
  have "map (event_text c1) evs = map (event_text c) evs" using ok(2) vframe_event(2) [OF v] by (auto simp: list_all_iff)
  then have tx: "concat (map (event_text c1) evs) = concat (map (event_text c) evs)" by (rule arg_cong)
  from Cons.IH [OF c1(3) i1 ok1, of "out @ xs"] obtain ys c2 where
    c2: "for_each evs (run_event sv sh) (out @ xs, c1) = Some ((out @ xs) @ ys, c2)"
      "delivers sv ext c1 (concat (map (event_text c) evs)) ys c2" unfolding tx by (elim exE conjE)
  have p2: "pending c1 @ concat (map (event_text c) evs) = ys @ pending c2" using c2(2) by (simp add: delivers_def)
  have "pending c @ event_text c ev @ concat (map (event_text c) evs) = (xs @ ys) @ pending c2" using p1 p2
    by (metis append.assoc)
  then have "delivers sv ext c (concat (map (event_text c) (ev # evs))) (xs @ ys) c2"
    using c2(2) vframe_trans [OF v] by (simp add: delivers_def)
  then show ?case using c1(1) c2(1) by (auto intro!: exI [of _ "xs @ ys"])
qed

section \<open>The shared objects of a new client\<close>

definition held :: "(nat \<Rightarrow> nat) \<Rightarrow> redisClient \<Rightarrow> nat \<Rightarrow> bytes \<Rightarrow> bool" where
  "held ext c a t \<longleftrightarrow> 0 < ext a \<and> obj_text c a = Some t"

definition shares :: "server_env \<Rightarrow> (nat \<Rightarrow> nat) \<Rightarrow> redisClient \<Rightarrow> (nat \<Rightarrow> nat) \<Rightarrow> redisClient \<Rightarrow> bool" where
  "shares sv ext c ext' c' \<longleftrightarrow> reply_inv sv ext' c' \<and> rframe ext c c' \<and> ost c' = ost c \<and> (\<forall>a t. held ext c a t \<longrightarrow> held ext' c' a t)"

lemma shares_trans:
  assumes "shares sv ext c ext1 c1" "shares sv ext1 c1 ext2 c2" "\<And>a. 0 < ext a \<Longrightarrow> 0 < ext1 a"
  shows "shares sv ext c ext2 c2"
proof -
  have "rframe ext c1 c2" using assms(2,3) unfolding shares_def rframe_def by blast
  then show ?thesis using assms(1,2) rframe_trans unfolding shares_def by metis
qed

lemma sharedObject_ok:
  assumes inv: "reply_inv sv ext c" and t: "0 \<notin> set t" "length t < 2 ^ 32"
  shows "\<exists>a c1. sharedObject sv t c = Some (a, c1) \<and> shares sv ext c (ext(a := 1)) c1 \<and> held (ext(a := 1)) c1 a t"
proof -
  have ct: "c_str (t @ [0]) = t" by (rule c_str_prefix [OF t(1)])
  have "\<exists>s. sdsnewlen (sv_fresh sv) (Some (t @ [0])) (length t) = Some s \<and> sds_rep s (take (length t) (t @ [0]))"
    by (rule sdsnewlen_ok) (use t(2) in simp_all)
  then obtain s where s: "sdsnewlen (sv_fresh sv) (Some (t @ [0])) (length t) = Some s" "sds_rep s t" by auto
  define ob where "ob = \<lparr>ob_encoding = REDIS_ENCODING_RAW, ob_ptr = PSds s, ob_refcount = 1\<rparr>"
  obtain a c1 where n: "newObject ob c = (a, c1)" by (cases "newObject ob c")
  have wf: "v_wf (ob_encoding ob, ob_ptr ob)" "ob_ptr ob \<noteq> PNull" "ob_refcount ob = 1"
    using s(2) sds_rep_text [OF s(2)] by (simp_all add: ob_def v_wf_def)
  note hold = hold_new [OF inv wf n]
  have "sharedObject sv t c = Some (a, c1)" using s(1) n by (simp add: sharedObject_def sdsnew_def ct createObject_def ob_def)
  moreover have "held (ext(a := 1)) c1 a t"
    using hold(5) sds_rep_text [OF s(2)] by (simp add: held_def obj_text_def v_text_def ob_def)
  moreover have "shares sv ext c (ext(a := 1)) c1"
    using hold(1-4) frame_text [OF hold(2)] unfolding shares_def held_def by auto
  ultimately show ?thesis by blast
qed

lemma share_then:
  assumes "shares sv ext c ext1 c1" "\<And>a. 0 < ext a \<Longrightarrow> 0 < ext1 a" "0 \<notin> set t" "length t < 2 ^ 32"
  shows "\<exists>a ext2 c2. sharedObject sv t c1 = Some (a, c2) \<and> shares sv ext c ext2 c2 \<and> (\<forall>a. 0 < ext a \<longrightarrow> 0 < ext2 a) \<and>
    held ext2 c2 a t \<and> (\<forall>b u. held ext1 c1 b u \<longrightarrow> held ext2 c2 b u)"
proof -
  have "reply_inv sv ext1 c1" using assms(1) by (simp add: shares_def)
  from sharedObject_ok [OF this assms(3,4)] obtain a c2 where
    a: "sharedObject sv t c1 = Some (a, c2)" "shares sv ext1 c1 (ext1(a := 1)) c2" "held (ext1(a := 1)) c2 a t" by (elim exE conjE)
  have "shares sv ext c (ext1(a := 1)) c2" by (rule shares_trans [OF assms(1) a(2) assms(2)])
  then show ?thesis using a assms(2) unfolding shares_def
    by (intro exI [of _ a] exI [of _ "ext1(a := 1)"] exI [of _ c2]) auto
qed

lemma dec_nz: "0 \<notin> set (dec n)"
  using dec_digits [of n] by auto

lemma hdr_ok: "n < 10 ^ 9 \<Longrightarrow> p \<noteq> 0 \<Longrightarrow> 0 \<notin> set (p # dec n @ CRLF)" "n < 10 ^ 9 \<Longrightarrow> length (p # dec n @ CRLF) < 2 ^ 32"
  using dec_nz [of n] length_dec_le [of n 8] by (auto simp: CRLF_def)

lemma sharedHeaders_ok:
  assumes "shares sv ext c ext1 c1" "\<And>a. 0 < ext a \<Longrightarrow> 0 < ext1 a" "\<forall>j\<in>set js. j < 10 ^ 9"
  shows "\<exists>ms bs ext2 c2. sharedHeaders sv js c1 = Some (ms, bs, c2) \<and> shares sv ext c ext2 c2 \<and> (\<forall>b u. held ext1 c1 b u \<longrightarrow> held ext2 c2 b u) \<and>
    length ms = length js \<and> length bs = length js \<and>
    (\<forall>i<length js. held ext2 c2 (ms ! i) (42 # dec (js ! i) @ CRLF) \<and> held ext2 c2 (bs ! i) (36 # dec (js ! i) @ CRLF))"
  using assms
proof (induction js arbitrary: ext1 c1)
  case Nil
  then show ?case by auto
next
  case (Cons j js)
  have j: "j < 10 ^ 9" using Cons.prems(3) by simp
  from share_then [OF Cons.prems(1,2) hdr_ok [OF j, of 42]] obtain m ext2 c2 where
    m: "sharedObject sv (42 # dec j @ CRLF) c1 = Some (m, c2)" "shares sv ext c ext2 c2" "\<forall>a. 0 < ext a \<longrightarrow> 0 < ext2 a"
      "held ext2 c2 m (42 # dec j @ CRLF)" "\<forall>b u. held ext1 c1 b u \<longrightarrow> held ext2 c2 b u" by auto
  from share_then [OF m(2) _ hdr_ok [OF j, of 36]] m(3) obtain b ext3 c3 where
    b: "sharedObject sv (36 # dec j @ CRLF) c2 = Some (b, c3)" "shares sv ext c ext3 c3" "\<forall>a. 0 < ext a \<longrightarrow> 0 < ext3 a"
      "held ext3 c3 b (36 # dec j @ CRLF)" "\<forall>b u. held ext2 c2 b u \<longrightarrow> held ext3 c3 b u" by auto
  have "\<forall>j\<in>set js. j < 10 ^ 9" using Cons.prems(3) by simp
  from Cons.IH [OF b(2) _ this] b(3) obtain ms bs ext4 c4 where
    r: "sharedHeaders sv js c3 = Some (ms, bs, c4)" "shares sv ext c ext4 c4" "\<forall>b u. held ext3 c3 b u \<longrightarrow> held ext4 c4 b u"
      "length ms = length js" "length bs = length js"
      "\<forall>i<length js. held ext4 c4 (ms ! i) (42 # dec (js ! i) @ CRLF) \<and> held ext4 c4 (bs ! i) (36 # dec (js ! i) @ CRLF)" by auto
  have "sharedHeaders sv (j # js) c1 = Some (m # ms, b # bs, c4)" using m(1) b(1) r(1) by simp
  moreover have "held ext4 c4 ((m # ms) ! i) (42 # dec ((j # js) ! i) @ CRLF) \<and> held ext4 c4 ((b # bs) ! i) (36 # dec ((j # js) ! i) @ CRLF)"
    if "i < length (j # js)" for i using that r(3,6) m(4) b(4,5) by (cases i) auto
  moreover have "\<forall>b u. held ext1 c1 b u \<longrightarrow> held ext4 c4 b u" using m(5) b(5) r(3) by blast
  ultimately show ?case using r(2,4,5) by (intro exI [of _ "m # ms"] exI [of _ "b # bs"] exI [of _ ext4] exI [of _ c4]) simp
qed

lemma createClient_ok:
  "\<exists>c. createClient sv fd = Some c \<and> reply_inv sv (\<lambda>_. 0) c \<and> ost c = ([], []) \<and> c_sentlen c = 0 \<and> c_flags c = 0 \<and> c_fd c = fd"
proof -
  obtain q where "sdsempty (sv_fresh sv) = Some q" using sdsempty_ok [of "sv_fresh sv"] by blast
  then show ?thesis
    by (simp add: createClient_def reply_inv_def heap_ok_def buf_ok_def mem_ok_def ost_def texts_def)
qed

lemma created_ready:
  assumes "0 < fd" "sv_ae_ok sv"
  shows "\<exists>c sh c' ext. createClient sv fd = Some c \<and> createSharedObjects sv c = Some (sh, c') \<and>
    ready sv ext sh c' \<and> send_inv sv ext c' \<and> pending c' = []"
proof -
  from createClient_ok [of sv fd] obtain c where
    c: "createClient sv fd = Some c" "reply_inv sv (\<lambda>_. 0) c" "ost c = ([], [])" "c_sentlen c = 0" "c_flags c = 0" "c_fd c = fd" by (elim exE conjE)
  have s0: "shares sv (\<lambda>_. 0) c (\<lambda>_. 0) c" using c(2) by (simp add: shares_def rframe_refl)
  note nz = dec_nz length_dec_le [of _ 8]
  have "0 \<notin> set CRLF" "length CRLF < 2 ^ 32" by (simp_all add: CRLF_def)
  from share_then [OF s0 _ this] obtain a1 e1 c1 where
    a1: "sharedObject sv CRLF c = Some (a1, c1)" "shares sv (\<lambda>_. 0) c e1 c1" "held e1 c1 a1 CRLF" by auto
  from share_then [OF a1(2) _ hdr_ok, of 0 58] obtain a2 e2 c2 where
    a2: "sharedObject sv (58 # dec 0 @ CRLF) c1 = Some (a2, c2)" "shares sv (\<lambda>_. 0) c e2 c2" "held e2 c2 a2 (58 # dec 0 @ CRLF)"
      "\<forall>b u. held e1 c1 b u \<longrightarrow> held e2 c2 b u" by auto
  from share_then [OF a2(2) _ hdr_ok, of 1 58] obtain a3 e3 c3 where
    a3: "sharedObject sv (58 # dec 1 @ CRLF) c2 = Some (a3, c3)" "shares sv (\<lambda>_. 0) c e3 c3" "held e3 c3 a3 (58 # dec 1 @ CRLF)"
      "\<forall>b u. held e2 c2 b u \<longrightarrow> held e3 c3 b u" by auto
  have "0 \<notin> set (lit ''$-1'' @ CRLF)" "length (lit ''$-1'' @ CRLF) < 2 ^ 32" by (simp_all add: lit_def CRLF_def)
  from share_then [OF a3(2) _ this] obtain a4 e4 c4 where
    a4: "sharedObject sv (lit ''$-1'' @ CRLF) c3 = Some (a4, c4)" "shares sv (\<lambda>_. 0) c e4 c4" "held e4 c4 a4 (lit ''$-1'' @ CRLF)"
      "\<forall>b u. held e3 c3 b u \<longrightarrow> held e4 c4 b u" by auto
  have "\<forall>j\<in>set [0..<REDIS_SHARED_BULKHDR_LEN]. j < 10 ^ 9" by (simp add: REDIS_SHARED_BULKHDR_LEN_def)
  from sharedHeaders_ok [OF a4(2) _ this] obtain ms bs e5 c5 where
    a5: "sharedHeaders sv [0..<REDIS_SHARED_BULKHDR_LEN] c4 = Some (ms, bs, c5)" "shares sv (\<lambda>_. 0) c e5 c5"
      "\<forall>b u. held e4 c4 b u \<longrightarrow> held e5 c5 b u" "length ms = REDIS_SHARED_BULKHDR_LEN" "length bs = REDIS_SHARED_BULKHDR_LEN"
      "\<forall>i<REDIS_SHARED_BULKHDR_LEN. held e5 c5 (ms ! i) (42 # dec i @ CRLF) \<and> held e5 c5 (bs ! i) (36 # dec i @ CRLF)" by auto
  define sh where "sh = \<lparr>sh_crlf = a1, sh_czero = a2, sh_cone = a3, sh_nullbulk = a4, sh_mbulkhdr = ms, sh_bulkhdr = bs\<rparr>"
  have run: "createSharedObjects sv c = Some (sh, c5)"
    using a1(1) a2(1) a3(1) a4(1) a5(1) by (simp add: createSharedObjects_def sh_def)
  have h: "held e5 c5 a1 CRLF" "held e5 c5 a2 (58 # dec 0 @ CRLF)" "held e5 c5 a3 (58 # dec 1 @ CRLF)" "held e5 c5 a4 (lit ''$-1'' @ CRLF)"
    using a1(3) a2(3,4) a3(3,4) a4(3,4) a5(3) by blast+
  have s: "shared_ok e5 sh c5" unfolding shared_ok_def using h a5(4-6) by (simp add: sh_def held_def)
  have f: "rframe (\<lambda>_. 0) c c5" "reply_inv sv e5 c5" "ost c5 = ([], [])" using a5(2) c(3) by (simp_all add: shares_def)
  have "\<not> has_flag k c5" if "k \<noteq> REDIS_CLOSE_ASAP" for k using f(1) that c(5) by (simp add: rframe_def has_flag_def)
  then have "accepts sv c5" using assms c(6) f(1)
    by (simp add: accepts_def rframe_def REDIS_CLOSE_AFTER_REPLY_def REDIS_MASTER_def REDIS_CLOSE_ASAP_def)
  moreover have "c_sentlen c5 = 0" using f(1) c(4) by (simp add: rframe_def)
  ultimately show ?thesis using c(1) run f s by (auto simp: ready_def send_inv_def sent_ok_def no_holes_def pending_def all_bytes_def flat_def)
qed


section \<open>Properties\<close>

text \<open>Property C6.
  Replies form a stream.  Any interleaving of reply functions (objects in every encoding,
  strings, errors, numbers, bulks, arrays whose length is filled in later) and of
  transmissions in which the kernel takes any number of bytes sends the protocol texts of
  the replies completely and in order: what was sent followed by what is still pending is
  what was pending followed by these texts.  The static buffer, the chunks of the reply
  list and the sharing of objects do not show.
\<close>

theorem reply_stream:
  assumes "ready sv ext sh c" "send_inv sv ext c" "list_all (event_ok ext c) evs"
  shows "\<exists>sent c'. for_each evs (run_event sv sh) ([], c) = Some (sent, c') \<and>
    sent @ pending c' = pending c @ concat (map (event_text c) evs)"
proof -
  from run_events_ok [OF assms, of "[]"] obtain xs c' where
    "for_each evs (run_event sv sh) ([], c) = Some (xs, c')" "delivers sv ext c (concat (map (event_text c) evs)) xs c'" by auto
  then show ?thesis by (auto simp: delivers_def)
qed

definition sv_ex :: server_env where
  "sv_ex = \<lparr>sv_fresh = \<lambda>_. 0, sv_msize = id, sv_ae_ok = True, sv_unixtime = 0,
     sv_obuf_limits = \<lambda>_. \<lparr>hard_limit_bytes = 0, soft_limit_bytes = 0, soft_limit_seconds = 0\<rparr>, sv_below_maxmemory = True\<rparr>"

theorem reply_stream_witness:
  "\<exists>c0 c sh ext sent c'. createClient sv_ex 5 = Some c0 \<and> createSharedObjects sv_ex c0 = Some (sh, c) \<and> ready sv_ex ext sh c \<and>
    for_each [EReply (RLongLong 1), ESend [2], EDeferred 1 [RBulkBuffer [97, 98]]] (run_event sv_ex sh) ([], c) = Some (sent, c') \<and>
    sent @ pending c' = pending c @ concat (map (event_text c) [EReply (RLongLong 1), ESend [2], EDeferred 1 [RBulkBuffer [97, 98]]])"
proof -
  have "0 < (5 :: int)" "sv_ae_ok sv_ex" by (simp_all add: sv_ex_def)
  from created_ready [OF this] obtain c0 sh c ext where
    c: "createClient sv_ex 5 = Some c0" "createSharedObjects sv_ex c0 = Some (sh, c)" "ready sv_ex ext sh c" "send_inv sv_ex ext c" by (elim exE conjE)
  have "list_all (event_ok ext c) [EReply (RLongLong 1), ESend [2], EDeferred 1 [RBulkBuffer [97, 98]]]"
    by (simp add: bulk_def CRLF_def dec_small)
  from reply_stream [OF c(3,4) this] show ?thesis using c(1-3) by blast
qed

text \<open>Property C14.
  The reference counts stay exact: after any replies and transmissions every object on the
  heap is counted once for each reference from outside and once for each node of the reply
  list, so nothing is freed too early or leaked, and no object that is shared with others is
  changed when the tail of the list is extended.
\<close>

theorem reply_refcounts:
  assumes "ready sv ext sh c" "send_inv sv ext c" "list_all (event_ok ext c) evs"
  shows "\<exists>sent c'. for_each evs (run_event sv sh) ([], c) = Some (sent, c') \<and>
    (\<forall>a ob. c_heap c' a = Some ob \<longrightarrow> ob_refcount ob = ext a + count_list (map snd (c_reply c')) a \<and> 0 < ob_refcount ob) \<and>
    (\<forall>a. 0 < ext a \<longrightarrow> obj_text c' a = obj_text c a)"
proof -
  from run_events_ok [OF assms, of "[]"] obtain xs c' where
    c': "for_each evs (run_event sv sh) ([], c) = Some (xs, c')" "delivers sv ext c (concat (map (event_text c) evs)) xs c'" by auto
  have h: "heap_ok ext c'" and v: "vframe ext c c'" using c'(2) by (simp_all add: delivers_def send_inv_def reply_inv_def)
  have "\<forall>a ob. c_heap c' a = Some ob \<longrightarrow> ob_refcount ob = ext a + count_list (map snd (c_reply c')) a \<and> 0 < ob_refcount ob"
    using heap_okD(3,4) [OF h] by (simp add: refs_def)
  moreover have "\<forall>a. 0 < ext a \<longrightarrow> obj_text c' a = obj_text c a" using v by (simp add: vframe_def obj_text_def)
  ultimately show ?thesis using c'(1) by blast
qed

theorem reply_refcounts_witness:
  "\<exists>c0 c sh ext sent c'. createClient sv_ex 5 = Some c0 \<and> createSharedObjects sv_ex c0 = Some (sh, c) \<and> ready sv_ex ext sh c \<and>
    for_each [EReply (RObj (sh_crlf sh)), EReply (RString [1])] (run_event sv_ex sh) ([], c) = Some (sent, c') \<and>
    (\<forall>a ob. c_heap c' a = Some ob \<longrightarrow> ob_refcount ob = ext a + count_list (map snd (c_reply c')) a \<and> 0 < ob_refcount ob) \<and>
    (\<forall>a. 0 < ext a \<longrightarrow> obj_text c' a = obj_text c a)"
proof -
  have "0 < (5 :: int)" "sv_ae_ok sv_ex" by (simp_all add: sv_ex_def)
  from created_ready [OF this] obtain c0 sh c ext where
    c: "createClient sv_ex 5 = Some c0" "createSharedObjects sv_ex c0 = Some (sh, c)" "ready sv_ex ext sh c" "send_inv sv_ex ext c" by (elim exE conjE)
  have "list_all (event_ok ext c) [EReply (RObj (sh_crlf sh)), EReply (RString [1])]" using c(3) by (simp add: ready_def shared_ok_def)
  from reply_refcounts [OF c(3,4) this] show ?thesis using c(1-3) by blast
qed

text \<open>
  The output statistics count too much: the running total of the event is added after every
  call of \<open>write\<close>, so a buffer of two bytes that is sent in two calls is counted as three.
\<close>

lemma stat_net_output_overcounts:
  assumes "c_bufpos c = 2" "c_sentlen c = 0" "c_buf c = a # b # bs" "c_reply c = []" "\<not> has_flag REDIS_CLOSE_AFTER_REPLY c"
  shows "\<exists>c'. sendReplyToClient sv [1, 1] False c = Some ([a, b], c') \<and>
    c_stat_net_output_bytes c' = c_stat_net_output_bytes c + 3"
proof -
  have "sendLoop sv [1, 1] [] c = Some ([a, b], c\<lparr>c_bufpos := 0, c_sentlen := 0, c_stat_net_output_bytes := c_stat_net_output_bytes c + 3\<rparr>)"
    using assms
    by (subst sendLoop.simps, simp add: mem_read_def countOutput_def REDIS_MAX_WRITE_PER_EVENT_def)
      (subst sendLoop.simps, simp add: mem_read_def countOutput_def REDIS_MAX_WRITE_PER_EVENT_def,
       subst sendLoop.simps, simp add: eval_nat_numeral)
  then show ?thesis using assms by (simp add: sendReplyToClient_def Let_def has_flag_def)
qed

end
