(* ===== verification/Network.thy ===== *)
theory Network
  imports ReplyStream
begin

unbundle bit_operations_syntax

text \<open>
  The input side of a client in \<open>networking.c\<close>: reading from the socket, the parser of
  inline and of multi bulk requests, and the loop that executes the requests of the
  query buffer.  An argument is the byte string of its object, which only the client
  refers to while the request is read.  \<open>None\<close> is a failed assertion or an access
  outside a block.  The executor of commands and the test for paused clients are
  arguments of the loop, over a state of the rest of the server; the log of the loop
  collects the argument vectors it hands to the executor.
\<close>

section \<open>Requests and resets\<close>

definition REDIS_INLINE_MAX_SIZE :: nat where "REDIS_INLINE_MAX_SIZE = 1024 * 64"
definition REDIS_MBULK_BIG_ARG :: nat where "REDIS_MBULK_BIG_ARG = 1024 * 32"
definition REDIS_IOBUF_LEN :: nat where "REDIS_IOBUF_LEN = 1024 * 16"
definition REDIS_REQ_INLINE :: nat where "REDIS_REQ_INLINE = 1"
definition REDIS_REQ_MULTIBULK :: nat where "REDIS_REQ_MULTIBULK = 2"

definition clear_flag :: "nat \<Rightarrow> redisClient \<Rightarrow> redisClient" where
  "clear_flag k c = c\<lparr>c_flags := Bit_Operations.unset_bit k (c_flags c)\<rparr>"

text \<open>The index of the first \<open>ch\<close> in front of the terminator, from \<open>pos\<close> on.\<close>

definition strchr :: "bytes \<Rightarrow> nat \<Rightarrow> byte \<Rightarrow> nat option" where
  "strchr buf pos ch =
     (let t = c_str (drop pos buf); k = length (takeWhile (\<lambda>b. b \<noteq> ch) t) in
      if k < length t then Some (pos + k) else None)"

definition freeClientArgv :: "redisClient \<Rightarrow> redisClient" where
  "freeClientArgv c = c\<lparr>c_argv := [], c_cmd := None\<rparr>"

definition resetClient :: "redisClient \<Rightarrow> redisClient" where
  "resetClient c =
     (let asking = (c_cmd c = Some (lit ''asking''));
          c = (freeClientArgv c)\<lparr>c_reqtype := 0, c_multibulklen := 0, c_bulklen := - 1\<rparr> in
      if \<not> has_flag REDIS_MULTI c \<and> \<not> asking then clear_flag REDIS_ASKING c else c)"

definition setProtocolError :: "nat \<Rightarrow> redisClient \<Rightarrow> redisClient option" where
  "setProtocolError pos c = do {
     let c = set_flag REDIS_CLOSE_AFTER_REPLY c;
     q \<leftarrow> sdsrange (c_querybuf c) (int pos) (- 1);
     Some (c\<lparr>c_querybuf := q\<rparr>) }"

definition protocolError :: "server_env \<Rightarrow> string \<Rightarrow> nat \<Rightarrow> redisClient \<Rightarrow> redisClient option" where
  "protocolError sv msg pos c = do {
     c \<leftarrow> addReplyError sv (lit msg @ [0]) c;
     setProtocolError pos c }"

section \<open>Inline requests\<close>

definition processInlineBuffer :: "server_env \<Rightarrow> redisClient \<Rightarrow> (bool \<times> redisClient) option" where
  "processInlineBuffer sv c =
     (let q = c_querybuf c in
      case strchr (sh_buf q) 0 10 of
        None \<Rightarrow>
          if sdslen q > REDIS_INLINE_MAX_SIZE then do {
            c \<leftarrow> protocolError sv ''Protocol error: too big inline request'' 0 c;
            Some (False, c) }
          else Some (False, c)
      | Some newline \<Rightarrow> do {
          newline \<leftarrow> (if newline = 0 then Some 0
                      else do { prev \<leftarrow> mem_get (newline - 1) (sh_buf q); Some (if prev = 13 then newline - 1 else newline) });
          let querylen = newline;
          aux \<leftarrow> sdsnewlen (sv_fresh sv) (Some (sh_buf q)) querylen;
          (case sdssplitargs (sh_buf aux) of
             None \<Rightarrow> do {
               c \<leftarrow> protocolError sv ''Protocol error: unbalanced quotes in request'' 0 c;
               Some (False, c) }
           | Some argv \<Rightarrow> do {
               let c = (if querylen = 0 \<and> has_flag REDIS_SLAVE c then c\<lparr>c_repl_ack_time := sv_unixtime sv\<rparr> else c);
               q \<leftarrow> sdsrange q (int (querylen + 2)) (- 1);
               let c = (if argv \<noteq> [] then c\<lparr>c_argv_size := length argv\<rparr> else c);
               Some (True, c\<lparr>c_querybuf := q, c_argv := filter (\<lambda>a. a \<noteq> []) argv\<rparr>) }) })"

section \<open>Multi bulk requests\<close>

text \<open>How a piece of \<open>processMultibulkBuffer\<close> ends: it returns, leaves the loop or goes on at \<open>pos\<close>.\<close>

datatype step = Return bool redisClient | Break nat redisClient | Continue nat redisClient

definition multibulkLength :: "server_env \<Rightarrow> redisClient \<Rightarrow> step option" where
  "multibulkLength sv c =
     (let q = c_querybuf c in
      if c_multibulklen c \<noteq> 0 then Some (Continue 0 c)
      else if c_argv c \<noteq> [] then None
      else (case strchr (sh_buf q) 0 13 of
          None \<Rightarrow>
            if sdslen q > REDIS_INLINE_MAX_SIZE then do {
              c \<leftarrow> protocolError sv ''Protocol error: too big mbulk count string'' 0 c;
              Some (Return False c) }
            else Some (Return False c)
        | Some newline \<Rightarrow>
            if int newline > int (sdslen q) - 2 then Some (Return False c)
            else do {
              star \<leftarrow> mem_get 0 (sh_buf q);
              (if star \<noteq> 42 then None
               else do {
                 t \<leftarrow> mem_read 1 (newline - 1) (sh_buf q);
                 (case string2ll t of
                    None \<Rightarrow> do { c \<leftarrow> protocolError sv ''Protocol error: invalid multibulk length'' 0 c; Some (Return False c) }
                  | Some ll \<Rightarrow>
                      if sint ll > 1024 * 1024 then do {
                        c \<leftarrow> protocolError sv ''Protocol error: invalid multibulk length'' 0 c;
                        Some (Return False c) }
                      else let pos = newline + 2 in
                        if sint ll \<le> 0 then do {
                          q \<leftarrow> sdsrange q (int pos) (- 1);
                          Some (Return True (c\<lparr>c_querybuf := q\<rparr>)) }
                        else Some (Continue pos (c\<lparr>c_multibulklen := nat (sint ll), c_argv_size := nat (sint ll)\<rparr>))) }) }))"

definition bulkLength :: "server_env \<Rightarrow> nat \<Rightarrow> redisClient \<Rightarrow> step option" where
  "bulkLength sv pos c =
     (let q = c_querybuf c in
      if c_bulklen c \<noteq> - 1 then Some (Continue pos c)
      else (case strchr (sh_buf q) pos 13 of
          None \<Rightarrow>
            if sdslen q > REDIS_INLINE_MAX_SIZE then do {
              c \<leftarrow> protocolError sv ''Protocol error: too big bulk count string'' 0 c;
              Some (Return False c) }
            else Some (Break pos c)
        | Some newline \<Rightarrow>
            if int newline > int (sdslen q) - 2 then Some (Break pos c)
            else do {
              ch \<leftarrow> mem_get pos (sh_buf q);
              (if ch \<noteq> 36 then do {
                 c \<leftarrow> addReplyErrorFormat sv (lit ''Protocol error: expected '' @ [39, 36, 39] @ lit '', got '' @ [39, ch, 39]) c;
                 c \<leftarrow> setProtocolError pos c;
                 Some (Return False c) }
               else do {
                 t \<leftarrow> mem_read (pos + 1) (newline - (pos + 1)) (sh_buf q);
                 (case string2ll t of
                    None \<Rightarrow> do { c \<leftarrow> protocolError sv ''Protocol error: invalid bulk length'' pos c; Some (Return False c) }
                  | Some ll \<Rightarrow>
                      if sint ll < 0 \<or> sint ll > 512 * 1024 * 1024 then do {
                        c \<leftarrow> protocolError sv ''Protocol error: invalid bulk length'' pos c;
                        Some (Return False c) }
                      else let pos = newline + 2; len = nat (sint ll) in
                        if len \<ge> REDIS_MBULK_BIG_ARG then do {
                          q \<leftarrow> sdsrange q (int pos) (- 1);
                          let qblen = sdslen q;
                          q \<leftarrow> (if qblen < len + 2 then sdsMakeRoomFor (sv_fresh sv) q (len + 2 - qblen) else Some q);
                          Some (Continue 0 (c\<lparr>c_querybuf := q, c_bulklen := sint ll\<rparr>)) }
                        else Some (Continue pos (c\<lparr>c_bulklen := sint ll\<rparr>))) }) }))"

text \<open>
  The difference of the unsigned lengths is large when \<open>pos\<close> is behind the text.  A big
  argument that is all the buffer holds becomes the argument without a copy.
\<close>

definition bulkArgument :: "server_env \<Rightarrow> nat \<Rightarrow> redisClient \<Rightarrow> step option" where
  "bulkArgument sv pos c =
     (let q = c_querybuf c; len = nat (c_bulklen c) in
      if pos \<le> sdslen q \<and> sdslen q - pos < len + 2 then Some (Break pos c)
      else do {
        (pos, arg, q) \<leftarrow>
          (if pos = 0 \<and> len \<ge> REDIS_MBULK_BIG_ARG \<and> sdslen q = len + 2 then do {
             arg \<leftarrow> sdsIncrLen q (- 2);
             q \<leftarrow> sdsempty (sv_fresh sv);
             q \<leftarrow> sdsMakeRoomFor (sv_fresh sv) q (len + 2);
             Some (0, sds_text arg, q) }
           else do {
             arg \<leftarrow> mem_read pos len (sh_buf q);
             Some (pos + (len + 2), arg, q) });
        (if length (c_argv c) < c_argv_size c then
           Some (Continue pos (c\<lparr>c_querybuf := q, c_argv := c_argv c @ [arg], c_bulklen := - 1,
             c_multibulklen := c_multibulklen c - 1\<rparr>))
         else None) })"

lemma bulkLength_count: "bulkLength sv pos c = Some (Continue p d) \<Longrightarrow> c_multibulklen d = c_multibulklen c"
  by (auto simp: bulkLength_def Let_def split: if_splits option.splits bind_splits)

lemma bulkArgument_count: "bulkArgument sv pos c = Some (Continue p d) \<Longrightarrow> c_multibulklen d = c_multibulklen c - 1"
  by (auto simp: bulkArgument_def Let_def split: if_splits option.splits bind_splits)

function multibulkLoop :: "server_env \<Rightarrow> nat \<Rightarrow> redisClient \<Rightarrow> step option" where
  "multibulkLoop sv pos c =
     (if c_multibulklen c = 0 then Some (Break pos c)
      else do {
        r \<leftarrow> bulkLength sv pos c;
        (case r of
           Continue pos c1 \<Rightarrow> do {
             r \<leftarrow> bulkArgument sv pos c1;
             (case r of Continue pos c2 \<Rightarrow> multibulkLoop sv pos c2 | _ \<Rightarrow> Some r) }
         | _ \<Rightarrow> Some r) })"
  by pat_completeness auto
termination
  by (relation "measure (\<lambda>(sv, pos, c). c_multibulklen c)") (auto dest!: bulkLength_count bulkArgument_count)

declare multibulkLoop.simps [simp del]

definition processMultibulkBuffer :: "server_env \<Rightarrow> redisClient \<Rightarrow> (bool \<times> redisClient) option" where
  "processMultibulkBuffer sv c = do {
     r \<leftarrow> multibulkLength sv c;
     (case r of
        Return ok c \<Rightarrow> Some (ok, c)
      | Break _ _ \<Rightarrow> None
      | Continue pos c \<Rightarrow>
          if c_multibulklen c = 0 then None
          else do {
            r \<leftarrow> multibulkLoop sv pos c;
            (case r of
               Return ok c \<Rightarrow> Some (ok, c)
             | Break pos c \<Rightarrow> do {
                 q \<leftarrow> (if pos \<noteq> 0 then sdsrange (c_querybuf c) (int pos) (- 1) else Some (c_querybuf c));
                 Some (c_multibulklen c = 0, c\<lparr>c_querybuf := q\<rparr>) }
             | Continue _ _ \<Rightarrow> None) }) }"

section \<open>The loop over requests\<close>

text \<open>The type of the next request is known from its first byte.\<close>

definition requestType :: "redisClient \<Rightarrow> redisClient option" where
  "requestType c =
     (if c_reqtype c = 0 then do {
        ch \<leftarrow> mem_get 0 (sh_buf (c_querybuf c));
        Some (c\<lparr>c_reqtype := (if ch = 42 then REDIS_REQ_MULTIBULK else REDIS_REQ_INLINE)\<rparr>) }
      else Some c)"

definition parseRequest :: "server_env \<Rightarrow> redisClient \<Rightarrow> (bool \<times> redisClient) option" where
  "parseRequest sv c = do {
     c \<leftarrow> requestType c;
     (if c_reqtype c = REDIS_REQ_INLINE then processInlineBuffer sv c
      else if c_reqtype c = REDIS_REQ_MULTIBULK then processMultibulkBuffer sv c
      else None) }"

type_synonym 's pause = "'s \<Rightarrow> bool \<times> 's"
type_synonym 's executor = "'s \<Rightarrow> redisClient \<Rightarrow> (bool \<times> 's \<times> redisClient) option"

partial_function (option) processInputBuffer ::
    "server_env \<Rightarrow> 's pause \<Rightarrow> 's executor \<Rightarrow> bytes list list \<Rightarrow> 's \<Rightarrow> redisClient \<Rightarrow> (bytes list list \<times> 's \<times> redisClient) option" where
  "processInputBuffer sv clientsArePaused processCommand log s c =
     (if sdslen (c_querybuf c) = 0 then Some (log, s, c)
      else let (paused, s) = (if has_flag REDIS_SLAVE c then (False, s) else clientsArePaused s) in
        if paused \<or> has_flag REDIS_BLOCKED c \<or> has_flag REDIS_CLOSE_AFTER_REPLY c then Some (log, s, c)
        else do {
          (ok, c) \<leftarrow> parseRequest sv c;
          (if \<not> ok then Some (log, s, c)
           else if c_argv c = [] then processInputBuffer sv clientsArePaused processCommand log s (resetClient c)
           else do {
             (executed, s, c') \<leftarrow> processCommand s c;
             processInputBuffer sv clientsArePaused processCommand (log @ [c_argv c]) s
               (if executed then resetClient c' else c') }) })"

section \<open>Reading\<close>

text \<open>The result of \<open>read\<close>: the bytes, none of them at the end of the stream, or an error.\<close>

datatype read_result = Nread bytes | EAgain | EFail

definition readLength :: "redisClient \<Rightarrow> int" where
  "readLength c =
     (if c_reqtype c = REDIS_REQ_MULTIBULK \<and> c_multibulklen c \<noteq> 0 \<and> c_bulklen c \<noteq> - 1 \<and> c_bulklen c \<ge> int REDIS_MBULK_BIG_ARG then
        (let remaining = c_bulklen c + 2 - int (sdslen (c_querybuf c)) in
         if remaining < int REDIS_IOBUF_LEN then remaining else int REDIS_IOBUF_LEN)
      else int REDIS_IOBUF_LEN)"

text \<open>A negative length would be the size of a huge block, \<open>None\<close> here.\<close>

definition readQueryFromClient ::
    "server_env \<Rightarrow> nat \<Rightarrow> 's pause \<Rightarrow> 's executor \<Rightarrow> (nat \<Rightarrow> read_result) \<Rightarrow> 's \<Rightarrow> redisClient \<Rightarrow>
     (bytes list list \<times> 's \<times> redisClient) option" where
  "readQueryFromClient sv client_max_querybuf_len clientsArePaused processCommand read s c =
     (if readLength c < 0 then None
      else do {
        let readlen = nat (readLength c);
        let qblen = sdslen (c_querybuf c);
        let c = (if c_querybuf_peak c < qblen then c\<lparr>c_querybuf_peak := qblen\<rparr> else c);
        q \<leftarrow> sdsMakeRoomFor (sv_fresh sv) (c_querybuf c) readlen;
        let c = c\<lparr>c_querybuf := q\<rparr>;
        (case read readlen of
           EFail \<Rightarrow> Some ([], s, c\<lparr>c_freed := True\<rparr>)
         | EAgain \<Rightarrow> Some ([], s, c)
         | Nread xs \<Rightarrow>
             if xs = [] then Some ([], s, c\<lparr>c_freed := True\<rparr>)
             else do {
               buf \<leftarrow> mem_write qblen xs (sh_buf q);
               q \<leftarrow> sdsIncrLen (q\<lparr>sh_buf := buf\<rparr>) (int (length xs));
               let c = c\<lparr>c_querybuf := q, c_lastinteraction := sv_unixtime sv,
                 c_reploff := (if has_flag REDIS_MASTER c then c_reploff c + int (length xs) else c_reploff c),
                 c_stat_net_input_bytes := c_stat_net_input_bytes c + length xs\<rparr>;
               (if sdslen q > client_max_querybuf_len then Some ([], s, c\<lparr>c_freed := True\<rparr>)
                else processInputBuffer sv clientsArePaused processCommand [] s c) }) })"



section \<open>The text of the query buffer\<close>

text \<open>\<open>y\<close> is the text of the query buffer from \<open>pos\<close> on.\<close>

definition unread :: "nat \<Rightarrow> redisClient \<Rightarrow> bytes \<Rightarrow> bool" where
  "unread pos c y \<longleftrightarrow> (\<exists>x. sds_rep (c_querybuf c) x \<and> pos \<le> length x \<and> drop pos x = y)"

lemma unread_len: "unread pos c y \<Longrightarrow> sdslen (c_querybuf c) = pos + length y"
  by (auto simp: unread_def sdslen_def sds_rep_def)

lemma unread_rep: "unread 0 c y \<longleftrightarrow> sds_rep (c_querybuf c) y"
  by (auto simp: unread_def)

lemma unread_eq: "c_querybuf c' = c_querybuf c \<Longrightarrow> unread pos c' y = unread pos c y"
  by (simp add: unread_def)

lemma unread_buf: "unread pos c y \<Longrightarrow> \<exists>x ys. sh_buf (c_querybuf c) = x @ y @ 0 # ys \<and> length x = pos"
proof -
  assume "unread pos c y"
  then obtain x ys where x: "sh_buf (c_querybuf c) = x @ 0 # ys" "pos \<le> length x" "drop pos x = y"
    by (auto simp: unread_def sds_rep_def)
  then have "x = take pos x @ y" by (metis append_take_drop_id)
  then show ?thesis using x(1,2) by (intro exI [of _ "take pos x"] exI [of _ ys]) simp
qed

lemma unread_get: "unread pos c (a # y) \<Longrightarrow> mem_get pos (sh_buf (c_querybuf c)) = Some a"
  using unread_buf [of pos c "a # y"] by (auto simp: mem_get_def nth_append)

lemma unread_read: "unread pos c (a @ b @ y) \<Longrightarrow> mem_read (pos + length a) (length b) (sh_buf (c_querybuf c)) = Some b"
proof -
  assume "unread pos c (a @ b @ y)"
  then obtain x ys where "sh_buf (c_querybuf c) = (x @ a) @ b @ y @ 0 # ys" "length x = pos"
    using unread_buf by fastforce
  then show ?thesis using mem_read_append3 [of "x @ a" b "y @ 0 # ys"] by simp
qed

lemma unread_skip: "unread pos c (a @ y) \<Longrightarrow> unread (pos + length a) c y"
proof -
  assume "unread pos c (a @ y)"
  then obtain x where x: "sds_rep (c_querybuf c) x" "pos \<le> length x" "drop pos x = a @ y" by (auto simp: unread_def)
  have "length a \<le> length x - pos" using arg_cong [OF x(3), of length] by simp
  moreover have "drop (pos + length a) x = y" using x(3) by (metis add.commute append_eq_conv_conj drop_drop)
  ultimately show ?thesis using x by (auto simp: unread_def)
qed

lemma substring_drop: "substring x (int n) (- 1) = drop n x"
  by (cases "x = []") (auto simp: substring_def Let_def nat_diff_distrib' le_nat_iff)

lemma unread_trim: "unread pos c y \<Longrightarrow> \<exists>q. sdsrange (c_querybuf c) (int pos) (- 1) = Some q \<and> sds_rep q y"
proof -
  assume "unread pos c y"
  then obtain x where x: "sds_rep (c_querybuf c) x" "drop pos x = y" by (auto simp: unread_def)
  show ?thesis using sdsrange_ok [OF x(1), of "int pos" "- 1"] unfolding substring_drop x(2) .
qed

text \<open>The search for a byte only depends on the text.\<close>

definition find_byte :: "byte \<Rightarrow> bytes \<Rightarrow> nat option" where
  "find_byte ch y = strchr y 0 ch"

lemma c_str_end: "c_str (y @ 0 # ys) = c_str y"
  by (simp add: c_str_def takeWhile_tail)

lemma strchr_unread: "unread pos c y \<Longrightarrow> strchr (sh_buf (c_querybuf c)) pos ch = map_option ((+) pos) (find_byte ch y)"
  using unread_buf [of pos c y] by (auto simp: find_byte_def strchr_def Let_def c_str_end)

lemma find_byte_simps:
  "find_byte ch [] = None"
  "find_byte ch (a # y) = (if a = 0 then None else if a = ch then Some 0 else map_option Suc (find_byte ch y))"
  by (auto simp: find_byte_def strchr_def Let_def c_str_def)

lemma find_byte_hit: "ch \<noteq> 0 \<Longrightarrow> ch \<notin> set a \<Longrightarrow> 0 \<notin> set a \<Longrightarrow> find_byte ch (a @ ch # b) = Some (length a)"
  by (induction a) (auto simp: find_byte_simps)

lemma find_byte_SomeD:
  "find_byte ch y = Some k \<Longrightarrow> \<exists>a b. y = a @ ch # b \<and> length a = k \<and> ch \<notin> set a \<and> 0 \<notin> set a"
proof (induction y arbitrary: k)
  case (Cons x y)
  show ?case
  proof (cases "x = ch")
    case True
    then show ?thesis using Cons.prems by (intro exI [of _ "[]"] exI [of _ y]) (simp add: find_byte_simps split: if_splits)
  next
    case False
    then obtain j where j: "find_byte ch y = Some j" "k = Suc j" "x \<noteq> 0"
      using Cons.prems by (auto simp: find_byte_simps split: if_splits)
    then obtain a b where "y = a @ ch # b" "length a = j" "ch \<notin> set a" "0 \<notin> set a" using Cons.IH by blast
    then show ?thesis using False j by (intro exI [of _ "x # a"] exI [of _ b]) simp
  qed
qed (simp add: find_byte_simps)

lemma find_byte_miss: "ch \<notin> set y \<Longrightarrow> find_byte ch y = None"
  by (induction y) (auto simp: find_byte_simps)

section \<open>Errors of the protocol\<close>

lemma prepare_total: "\<exists>ok c'. prepareClientToWrite sv c = (ok, c') \<and> only_flags c c'"
proof -
  have "only_flags c c" "only_flags c (c\<lparr>c_wevent := True\<rparr>)" by (simp_all add: only_flags_def has_flag_def)
  then show ?thesis using freeClientAsync_flags(2) [of c] by (auto simp: prepareClientToWrite_def)
qed

text \<open>Every client in a consistent state takes an error text, also one that gets no replies.\<close>

lemma addReplyString_total:
  assumes inv: "reply_inv sv ext c" and f: "\<not> has_flag REDIS_CLOSE_AFTER_REPLY c" and len: "len \<le> length s" "len < 2 ^ 32"
  shows "\<exists>c'. addReplyString sv s len c = Some c' \<and> reply_inv sv ext c' \<and> rframe ext c c'"
proof -
  obtain ok c1 where c1: "prepareClientToWrite sv c = (ok, c1)" "only_flags c c1" using prepare_total [of sv c] by (elim exE conjE)
  have inv1: "reply_inv sv ext c1" and fr: "rframe ext c c1" using only_flags_fields(1,3) [OF c1(2)] inv by simp_all
  have f1: "\<not> has_flag REDIS_CLOSE_AFTER_REPLY c1"
    using f fr by (simp add: rframe_def REDIS_CLOSE_AFTER_REPLY_def REDIS_CLOSE_ASAP_def)
  have "\<exists>c'. do { (ok, c) \<leftarrow> addReplyToBuffer s len c1; (if ok then Some c else addReplyStringToList sv s len c) } = Some c' \<and>
      appended sv ext c1 (take len s) c'"
    by (rule buffer_or_list [OF inv1 len(1) f1]) (rule addReplyStringToList_ok [OF inv1 len f1])
  then obtain c' where "do { (ok, c) \<leftarrow> addReplyToBuffer s len c1; (if ok then Some c else addReplyStringToList sv s len c) } = Some c'"
      "reply_inv sv ext c'" "rframe ext c1 c'" unfolding appended_def by blast
  then show ?thesis using c1(1) inv1 fr rframe_trans [OF fr] by (cases ok) (auto simp: addReplyString_def)
qed

lemma rframe_close_after: "rframe ext c c' \<Longrightarrow> has_flag REDIS_CLOSE_AFTER_REPLY c' = has_flag REDIS_CLOSE_AFTER_REPLY c"
  by (simp add: rframe_def REDIS_CLOSE_AFTER_REPLY_def REDIS_CLOSE_ASAP_def)

lemma addReplyErrorLength_total:
  assumes inv: "reply_inv sv ext c" and f: "\<not> has_flag REDIS_CLOSE_AFTER_REPLY c" and len: "len \<le> length s" "len < 2 ^ 32"
  shows "\<exists>c'. addReplyErrorLength sv s len c = Some c' \<and> reply_inv sv ext c' \<and> rframe ext c c'"
proof -
  obtain c1 where c1: "addReplyString sv (lit ''-ERR '') 5 c = Some c1" "reply_inv sv ext c1" "rframe ext c c1"
    using addReplyString_total [OF inv f, of 5 "lit ''-ERR ''"] by (auto simp: length_lit_err)
  obtain c2 where c2: "addReplyString sv s len c1 = Some c2" "reply_inv sv ext c2" "rframe ext c1 c2"
    using addReplyString_total [OF c1(2) _ len] f rframe_close_after [OF c1(3)] by auto
  obtain c3 where c3: "addReplyString sv CRLF 2 c2 = Some c3" "reply_inv sv ext c3" "rframe ext c2 c3"
    using addReplyString_total [OF c2(2), of 2 CRLF] f rframe_close_after [OF c1(3)] rframe_close_after [OF c2(3)]
    by (auto simp: length_CRLF)
  have "rframe ext c c3" using rframe_trans [OF rframe_trans [OF c1(3) c2(3)] c3(3)] .
  then show ?thesis using c1(1) c2(1) c3 by (simp add: addReplyErrorLength_def)
qed



lemma reply_inv_cong:
  "c_heap c' = c_heap c \<Longrightarrow> c_next c' = c_next c \<Longrightarrow> c_reply c' = c_reply c \<Longrightarrow> c_buf c' = c_buf c \<Longrightarrow>
   c_bufpos c' = c_bufpos c \<Longrightarrow> c_reply_bytes c' = c_reply_bytes c \<Longrightarrow> reply_inv sv ext c' = reply_inv sv ext c"
  by (simp add: reply_inv_def heap_ok_def buf_ok_def mem_ok_def refs_def)

definition consistent :: "server_env \<Rightarrow> redisClient \<Rightarrow> bool" where
  "consistent sv c \<longleftrightarrow> (\<exists>ext. reply_inv sv ext c)"

lemma consistent_cong:
  "c_heap c' = c_heap c \<Longrightarrow> c_next c' = c_next c \<Longrightarrow> c_reply c' = c_reply c \<Longrightarrow> c_buf c' = c_buf c \<Longrightarrow>
   c_bufpos c' = c_bufpos c \<Longrightarrow> c_reply_bytes c' = c_reply_bytes c \<Longrightarrow> consistent sv c' = consistent sv c"
  unfolding consistent_def using reply_inv_cong [of c' c sv] by simp

text \<open>A client after an error of the protocol; \<open>n\<close> bounds its query buffer.\<close>

definition shut :: "server_env \<Rightarrow> nat \<Rightarrow> redisClient \<Rightarrow> redisClient \<Rightarrow> bool" where
  "shut sv n c c' \<longleftrightarrow> consistent sv c' \<and> has_flag REDIS_CLOSE_AFTER_REPLY c' \<and> c_bulklen c' = - 1 \<and> c_freed c' = c_freed c \<and>
     (\<exists>x. sds_rep (c_querybuf c') x \<and> length x \<le> n)"

lemma setProtocolError_ok:
  assumes "consistent sv c" "unread pos c y" "c_bulklen c = - 1"
  shows "\<exists>c'. setProtocolError pos c = Some c' \<and> shut sv (length y) c c'"
proof -
  obtain q where q: "sdsrange (c_querybuf c) (int pos) (- 1) = Some q" "sds_rep q y" using unread_trim [OF assms(2)] by blast
  define c' where "c' = (set_flag REDIS_CLOSE_AFTER_REPLY c)\<lparr>c_querybuf := q\<rparr>"
  have "setProtocolError pos c = Some c'" using q(1) by (simp add: setProtocolError_def set_flag_def c'_def)
  moreover have "consistent sv c'" using assms(1) consistent_cong [of c' c sv] by (simp add: c'_def set_flag_def)
  moreover have "has_flag REDIS_CLOSE_AFTER_REPLY c'"
    by (simp add: c'_def has_flag_def set_flag_def bit_simps REDIS_CLOSE_AFTER_REPLY_def)
  ultimately show ?thesis using q(2) assms(3) by (auto simp: shut_def c'_def set_flag_def)
qed

lemma error_shut:
  assumes c1: "reply_inv sv ext c1" "rframe ext c c1" and u: "unread pos c y" and b: "c_bulklen c = - 1"
  shows "\<exists>c'. setProtocolError pos c1 = Some c' \<and> shut sv (length y) c c'"
proof -
  have f: "c_querybuf c1 = c_querybuf c" "c_bulklen c1 = - 1" "c_freed c1 = c_freed c" using c1(2) b by (simp_all add: rframe_def)
  have "\<exists>c'. setProtocolError pos c1 = Some c' \<and> shut sv (length y) c1 c'"
    by (rule setProtocolError_ok) (use c1(1) u f unread_eq [OF f(1)] in \<open>auto simp: consistent_def\<close>)
  then show ?thesis using f(3) by (simp add: shut_def)
qed

lemma protocolError_ok:
  assumes inv: "consistent sv c" and f: "\<not> has_flag REDIS_CLOSE_AFTER_REPLY c" and u: "unread pos c y" and b: "c_bulklen c = - 1"
    and len: "length msg < 2 ^ 31"
  shows "\<exists>c'. protocolError sv msg pos c = Some c' \<and> shut sv (length y) c c'"
proof -
  obtain ext where ext: "reply_inv sv ext c" using inv by (auto simp: consistent_def)
  have l: "length (c_str (lit msg @ [0])) \<le> length msg"
  proof -
    have "c_str (lit msg @ [0]) = c_str (lit msg)" using c_str_end [of "lit msg" "[]"] by simp
    then show ?thesis using length_c_str(1) [of "lit msg"] by (simp add: lit_def)
  qed
  have "\<exists>c1. addReplyErrorLength sv (lit msg @ [0]) (length (c_str (lit msg @ [0]))) c = Some c1 \<and> reply_inv sv ext c1 \<and> rframe ext c c1"
    by (rule addReplyErrorLength_total [OF ext f]) (use l len in \<open>simp_all add: lit_def\<close>)
  then obtain c1 where c1: "addReplyError sv (lit msg @ [0]) c = Some c1" "reply_inv sv ext c1" "rframe ext c c1"
    unfolding addReplyError_def by blast
  then show ?thesis using error_shut [OF c1(2,3) u b] by (simp add: protocolError_def)
qed

lemma addReplyErrorFormat_total:
  assumes "reply_inv sv ext c" "\<not> has_flag REDIS_CLOSE_AFTER_REPLY c" "length s < 2 ^ 32"
  shows "\<exists>c'. addReplyErrorFormat sv s c = Some c' \<and> reply_inv sv ext c' \<and> rframe ext c c'"
  unfolding addReplyErrorFormat_def Let_def
  by (rule addReplyErrorLength_total [OF assms(1,2)]) (use assms(3) in simp_all)

section \<open>Well-formed clients\<close>

text \<open>
  The request that the client is in the middle of: none, one whose type is known, one
  whose number of arguments is known, and one that is waiting for \<open>bulklen\<close> bytes.
\<close>

definition idle :: "redisClient \<Rightarrow> bool" where
  "idle c \<longleftrightarrow> c_argv c = [] \<and> c_multibulklen c = 0 \<and> c_bulklen c = - 1"

definition counting :: "redisClient \<Rightarrow> bool" where
  "counting c \<longleftrightarrow> c_reqtype c = REDIS_REQ_MULTIBULK \<and> length (c_argv c) + c_multibulklen c = c_argv_size c"

definition MAX_BULK :: nat where "MAX_BULK = 512 * 1024 * 1024"

definition bulk_ok :: "redisClient \<Rightarrow> bool" where
  "bulk_ok c \<longleftrightarrow> 0 \<le> c_bulklen c \<and> c_bulklen c \<le> int MAX_BULK"

definition input_ok :: "redisClient \<Rightarrow> bytes \<Rightarrow> bool" where
  "input_ok c x \<longleftrightarrow>
     (has_flag REDIS_CLOSE_AFTER_REPLY c \<and> c_bulklen c = - 1) \<or>
     (idle c \<and> (c_reqtype c = 0 \<or> c_reqtype c = REDIS_REQ_INLINE)) \<or>
     (idle c \<and> c_reqtype c = REDIS_REQ_MULTIBULK \<and> x \<noteq> [] \<and> hd x = 42) \<or>
     (counting c \<and> 0 < c_multibulklen c \<and>
      (c_bulklen c = - 1 \<or> bulk_ok c \<and> (int REDIS_MBULK_BIG_ARG \<le> c_bulklen c \<longrightarrow> int (length x) \<le> c_bulklen c + 2)))"

definition client_ok :: "server_env \<Rightarrow> nat \<Rightarrow> redisClient \<Rightarrow> bool" where
  "client_ok sv n c \<longleftrightarrow> consistent sv c \<and> (\<exists>x. sds_rep (c_querybuf c) x \<and> length x \<le> n \<and> input_ok c x)"

lemma shut_client_ok: "shut sv m c c' \<Longrightarrow> m \<le> n \<Longrightarrow> client_ok sv n c'"
  unfolding shut_def client_ok_def input_ok_def by (meson order_trans)

subsection \<open>The length of a bulk\<close>

lemma string2ll_line:
  assumes "unread pos c (36 # t @ 13 # z)"
  shows "mem_read (pos + 1) (pos + Suc (length t) - (pos + 1)) (sh_buf (c_querybuf c)) = Some t"
  using unread_read [of pos c "[36]" t "13 # z"] assms by simp

text \<open>The two ways to read a complete header: a short argument and a big one.\<close>

lemma bulkLength_short:
  assumes u: "unread pos c (36 # t @ 13 # a # z)" and t: "13 \<notin> set t" "0 \<notin> set t" and b: "c_bulklen c = - 1"
    and ll: "string2ll t = Some ll" "0 \<le> sint ll" "sint ll < int REDIS_MBULK_BIG_ARG"
  shows "bulkLength sv pos c = Some (Continue (pos + length t + 3) (c\<lparr>c_bulklen := sint ll\<rparr>))"
    and "unread (pos + length t + 3) (c\<lparr>c_bulklen := sint ll\<rparr>) z"
proof -
  have f: "strchr (sh_buf (c_querybuf c)) pos 13 = Some (pos + Suc (length t))"
    using strchr_unread [OF u, of 13] find_byte_hit [of 13 "36 # t" "a # z"] t by simp
  have n: "\<not> REDIS_MBULK_BIG_ARG \<le> nat (sint ll)" "\<not> 512 * 1024 * 1024 < sint ll" using ll(2,3) by (simp_all add: REDIS_MBULK_BIG_ARG_def)
  show "bulkLength sv pos c = Some (Continue (pos + length t + 3) (c\<lparr>c_bulklen := sint ll\<rparr>))"
    using b ll n f unread_len [OF u] unread_get [OF u] string2ll_line [OF u]
    by (simp add: bulkLength_def Let_def numeral_3_eq_3)
  show "unread (pos + length t + 3) (c\<lparr>c_bulklen := sint ll\<rparr>) z"
    using unread_skip [of pos c "36 # t @ [13, a]" z] u by (simp add: unread_def numeral_3_eq_3 add.assoc)
qed

lemma bulkLength_big:
  assumes u: "unread pos c (36 # t @ 13 # a # z)" and t: "13 \<notin> set t" "0 \<notin> set t" and b: "c_bulklen c = - 1"
    and ll: "string2ll t = Some ll" "int REDIS_MBULK_BIG_ARG \<le> sint ll" "sint ll \<le> int MAX_BULK"
  shows "\<exists>q. bulkLength sv pos c = Some (Continue 0 (c\<lparr>c_querybuf := q, c_bulklen := sint ll\<rparr>)) \<and> sds_rep q z"
proof -
  have f: "strchr (sh_buf (c_querybuf c)) pos 13 = Some (pos + Suc (length t))"
    using strchr_unread [OF u, of 13] find_byte_hit [of 13 "36 # t" "a # z"] t by simp
  have "unread (pos + Suc (length t) + 2) c z"
    using unread_skip [of pos c "36 # t @ [13, a]" z] u by (simp add: add.assoc)
  from unread_trim [OF this] obtain q where q: "sdsrange (c_querybuf c) (int (pos + Suc (length t) + 2)) (- 1) = Some q" "sds_rep q z"
    by (elim exE conjE)
  have len: "sdslen q = length z" using sds_rep_len [OF q(2)] by (simp add: sdslen_def)
  have "\<exists>q'. (if length z < nat (sint ll) + 2 then sdsMakeRoomFor (sv_fresh sv) q (nat (sint ll) + 2 - length z) else Some q) = Some q'
      \<and> sds_rep q' z"
  proof (cases "length z < nat (sint ll) + 2")
    case True
    then have "length z + (nat (sint ll) + 2 - length z) < 2 ^ 31" using ll(3) by (simp add: MAX_BULK_def)
    from sdsMakeRoomFor_rep [OF q(2) this] show ?thesis using True by simp
  qed (use q(2) in simp)
  then obtain q' where q': "(if length z < nat (sint ll) + 2 then sdsMakeRoomFor (sv_fresh sv) q (nat (sint ll) + 2 - length z) else Some q) = Some q'"
      "sds_rep q' z" by (elim exE conjE)
  have n: "REDIS_MBULK_BIG_ARG \<le> nat (sint ll)" "\<not> 512 * 1024 * 1024 < sint ll" "\<not> sint ll < 0"
    using ll(2,3) by (simp_all add: le_nat_iff MAX_BULK_def)
  have "bulkLength sv pos c = Some (Continue 0 (c\<lparr>c_querybuf := q', c_bulklen := sint ll\<rparr>))"
    unfolding bulkLength_def Let_def
    using b ll(1) n f unread_len [OF u] unread_get [OF u] string2ll_line [OF u] q(1) len q'(1)
    by (simp add: numeral_2_eq_2 split: if_splits)
  then show ?thesis using q'(2) by blast
qed



lemma unread_all: "unread pos c y \<Longrightarrow> \<exists>x. unread 0 c x \<and> length x = pos + length y"
  by (auto simp: unread_def)

lemma shut_mono: "shut sv m c c' \<Longrightarrow> m \<le> n \<Longrightarrow> shut sv n c c'"
  unfolding shut_def by (meson order_trans)

lemma bulkLength_bad_char:
  assumes inv: "consistent sv c" "\<not> has_flag REDIS_CLOSE_AFTER_REPLY c" and u: "unread pos c (ch # y)" and b: "c_bulklen c = - 1"
    and k: "find_byte 13 (ch # y) = Some k" "k < length y" and ch: "ch \<noteq> 36"
  shows "\<exists>c'. bulkLength sv pos c = Some (Return False c') \<and> shut sv (length (ch # y)) c c'"
proof -
  obtain ext where ext: "reply_inv sv ext c" using inv(1) by (auto simp: consistent_def)
  define msg where "msg = lit ''Protocol error: expected '' @ [39, 36, 39] @ lit '', got '' @ [39, ch, 39]"
  have "length msg < 2 ^ 32" by (simp add: msg_def lit_def)
  from addReplyErrorFormat_total [OF ext inv(2) this] obtain c1 where
    c1: "addReplyErrorFormat sv msg c = Some c1" "reply_inv sv ext c1" "rframe ext c c1" by (elim exE conjE)
  from error_shut [OF c1(2,3) u b] obtain c' where c': "setProtocolError pos c1 = Some c'" "shut sv (length (ch # y)) c c'" by (elim exE conjE)
  have "strchr (sh_buf (c_querybuf c)) pos 13 = Some (pos + k)" using strchr_unread [OF u, of 13] k(1) by simp
  then have "bulkLength sv pos c = Some (Return False c')"
    using b unread_len [OF u] unread_get [OF u] c1(1) c'(1) ch k(2) unfolding msg_def by (simp add: bulkLength_def Let_def)
  then show ?thesis using c'(2) by blast
qed

lemma bulkLength_bad_number:
  assumes inv: "consistent sv c" "\<not> has_flag REDIS_CLOSE_AFTER_REPLY c" and u: "unread pos c (36 # t @ 13 # a # z)" and b: "c_bulklen c = - 1"
    and t: "13 \<notin> set t" "0 \<notin> set t" and bad: "case string2ll t of None \<Rightarrow> True | Some ll \<Rightarrow> sint ll < 0 \<or> sint ll > int MAX_BULK"
  shows "\<exists>c'. bulkLength sv pos c = Some (Return False c') \<and> shut sv (length (36 # t @ 13 # a # z)) c c'"
proof -
  have "\<exists>c'. protocolError sv ''Protocol error: invalid bulk length'' pos c = Some c' \<and> shut sv (length (36 # t @ 13 # a # z)) c c'"
    by (rule protocolError_ok [OF inv u b]) simp
  then obtain c' where c': "protocolError sv ''Protocol error: invalid bulk length'' pos c = Some c'"
      "shut sv (length (36 # t @ 13 # a # z)) c c'" by (elim exE conjE)
  have "strchr (sh_buf (c_querybuf c)) pos 13 = Some (pos + Suc (length t))"
    using strchr_unread [OF u, of 13] find_byte_hit [of 13 "36 # t" "a # z"] t by simp
  then have "bulkLength sv pos c = Some (Return False c')"
    using b unread_len [OF u] unread_get [OF u] string2ll_line [OF u] c'(1) bad
    by (cases "string2ll t") (simp_all add: bulkLength_def Let_def MAX_BULK_def)
  then show ?thesis using c'(2) by blast
qed

text \<open>What reading a header may do, whatever the bytes are.\<close>

definition header_read :: "server_env \<Rightarrow> nat \<Rightarrow> bytes \<Rightarrow> redisClient \<Rightarrow> step \<Rightarrow> bool" where
  "header_read sv pos y c r \<longleftrightarrow>
     (case r of
        Return ok c' \<Rightarrow> \<not> ok \<and> shut sv (pos + length y) c c'
      | Break p c' \<Rightarrow> p = pos \<and> c' = c
      | Continue p c' \<Rightarrow> \<exists>q l z. c' = c\<lparr>c_querybuf := q, c_bulklen := l\<rparr> \<and> unread p c' z \<and> length z < length y \<and>
          p + length z \<le> pos + length y \<and> 0 \<le> l \<and> l \<le> int MAX_BULK \<and> (int REDIS_MBULK_BIG_ARG \<le> l \<longrightarrow> p = 0))"

lemma header_read_return: "shut sv n c c' \<Longrightarrow> n \<le> pos + length y \<Longrightarrow> header_read sv pos y c (Return False c')"
  using shut_mono by (simp add: header_read_def)

lemma bulkLength_number:
  assumes inv: "consistent sv c" "\<not> has_flag REDIS_CLOSE_AFTER_REPLY c" and u: "unread pos c (36 # t @ 13 # a # z)" and b: "c_bulklen c = - 1"
    and t: "13 \<notin> set t" "0 \<notin> set t"
  shows "\<exists>r. bulkLength sv pos c = Some r \<and> header_read sv pos (36 # t @ 13 # a # z) c r"
proof (cases "case string2ll t of None \<Rightarrow> True | Some ll \<Rightarrow> sint ll < 0 \<or> sint ll > int MAX_BULK")
  case True
  then show ?thesis using bulkLength_bad_number [OF inv u b t] header_read_return by fastforce
next
  case False
  then obtain ll where ll: "string2ll t = Some ll" "0 \<le> sint ll" "sint ll \<le> int MAX_BULK" by (auto split: option.splits)
  show ?thesis
  proof (cases "sint ll < int REDIS_MBULK_BIG_ARG")
    case True
    note short = bulkLength_short(1) [OF u t b ll(1,2) True, of sv] bulkLength_short(2) [OF u t b ll(1,2) True]
    have "c\<lparr>c_bulklen := sint ll\<rparr> = c\<lparr>c_querybuf := c_querybuf c, c_bulklen := sint ll\<rparr>" by simp
    then have "header_read sv pos (36 # t @ 13 # a # z) c (Continue (pos + length t + 3) (c\<lparr>c_bulklen := sint ll\<rparr>))"
      using short(2) ll True unfolding header_read_def step.case
      by (intro exI [of _ "c_querybuf c"] exI [of _ "sint ll"] exI [of _ z]) simp
    then show ?thesis using short(1) by blast
  next
    case False
    then have big: "int REDIS_MBULK_BIG_ARG \<le> sint ll" by simp
    obtain q where q: "bulkLength sv pos c = Some (Continue 0 (c\<lparr>c_querybuf := q, c_bulklen := sint ll\<rparr>))" "sds_rep q z"
      using bulkLength_big [OF u t b ll(1) big ll(3), of sv] by (elim exE conjE)
    have "header_read sv pos (36 # t @ 13 # a # z) c (Continue 0 (c\<lparr>c_querybuf := q, c_bulklen := sint ll\<rparr>))"
      using q(2) ll unfolding header_read_def step.case
      by (intro exI [of _ q] exI [of _ "sint ll"] exI [of _ z]) (simp add: unread_rep)
    then show ?thesis using q(1) by blast
  qed
qed

lemma bulkLength_safe:
  assumes inv: "consistent sv c" "\<not> has_flag REDIS_CLOSE_AFTER_REPLY c" and u: "unread pos c y" and b: "c_bulklen c = - 1"
  shows "\<exists>r. bulkLength sv pos c = Some r \<and> header_read sv pos y c r"
proof (cases "find_byte 13 y")
  case None
  then have f: "strchr (sh_buf (c_querybuf c)) pos 13 = None" using strchr_unread [OF u, of 13] by simp
  obtain x where x: "unread 0 c x" "length x = pos + length y" using unread_all [OF u] by blast
  have "\<exists>c'. protocolError sv ''Protocol error: too big bulk count string'' 0 c = Some c' \<and> shut sv (length x) c c'"
    by (rule protocolError_ok [OF inv x(1) b]) simp
  then obtain c' where c': "protocolError sv ''Protocol error: too big bulk count string'' 0 c = Some c'" "shut sv (length x) c c'"
    by (elim exE conjE)
  show ?thesis
  proof (cases "sdslen (c_querybuf c) > REDIS_INLINE_MAX_SIZE")
    case True
    then show ?thesis using b f c' x(2) header_read_return [OF c'(2)] by (simp add: bulkLength_def Let_def)
  qed (use b f in \<open>simp add: bulkLength_def Let_def header_read_def\<close>)
next
  case (Some k)
  then have f: "strchr (sh_buf (c_querybuf c)) pos 13 = Some (pos + k)" using strchr_unread [OF u, of 13] by simp
  from find_byte_SomeD [OF Some] obtain h w where y: "y = h @ 13 # w" "length h = k" "13 \<notin> set h" "0 \<notin> set h" by blast
  show ?thesis
  proof (cases w)
    case Nil
    then show ?thesis using b f y unread_len [OF u] by (simp add: bulkLength_def Let_def header_read_def)
  next
    case (Cons a z)
    show ?thesis
    proof (cases "hd y = 36")
      case True
      then obtain t where t: "h = 36 # t" using y(1) by (cases h) auto
      have "\<exists>r. bulkLength sv pos c = Some r \<and> header_read sv pos (36 # t @ 13 # a # z) c r"
        by (rule bulkLength_number [OF inv _ b]) (use u y t Cons in simp_all)
      then show ?thesis using y(1) t Cons by simp
    next
      case False
      have "y \<noteq> []" using y(1) by simp
      then obtain ch y' where ch: "y = ch # y'" by (meson neq_Nil_conv)
      have "\<exists>c'. bulkLength sv pos c = Some (Return False c') \<and> shut sv (length (ch # y')) c c'"
      proof (rule bulkLength_bad_char [OF inv _ b])
        show "k < length y'" using arg_cong [OF trans [OF ch [symmetric] y(1)], of length] Cons y(2) by simp
      qed (use u ch Some False in simp_all)
      then show ?thesis using header_read_return ch by fastforce
    qed
  qed
qed



subsection \<open>The bytes of a bulk\<close>

definition taken :: "bytes \<Rightarrow> sdshdr \<Rightarrow> redisClient \<Rightarrow> redisClient" where
  "taken a q c = c\<lparr>c_querybuf := q, c_argv := c_argv c @ [a], c_bulklen := - 1, c_multibulklen := c_multibulklen c - 1\<rparr>"

lemma bulkArgument_wait:
  "unread pos c y \<Longrightarrow> length y < nat (c_bulklen c) + 2 \<Longrightarrow> bulkArgument sv pos c = Some (Break pos c)"
  using unread_len [of pos c y] by (simp add: bulkArgument_def Let_def)

lemma bulkArgument_take:
  assumes u: "unread pos c (a @ r # n # z)" and a: "length a = nat (c_bulklen c)" "length a \<le> MAX_BULK"
    and room: "length (c_argv c) < c_argv_size c"
  shows "\<exists>p q. bulkArgument sv pos c = Some (Continue p (taken a q c)) \<and> unread p (taken a q c) z \<and>
      p + length z \<le> pos + length (a @ r # n # z) \<and> (pos = 0 \<and> REDIS_MBULK_BIG_ARG \<le> length a \<and> z = [] \<longrightarrow> p = 0)"
proof (cases "pos = 0 \<and> length a \<ge> REDIS_MBULK_BIG_ARG \<and> z = []")
  case True
  then have x: "sds_rep (c_querybuf c) (a @ [r, n])" using u by (simp add: unread_rep)
  obtain arg where arg: "sdsIncrLen (c_querybuf c) (- 2) = Some arg" "sds_rep arg a"
    using sdsIncrLen_shrink_ok [OF x, of 2] by auto
  obtain q where q: "sdsempty (sv_fresh sv) = Some q" "sds_rep q []" using sdsempty_ok by blast
  obtain q' where q': "sdsMakeRoomFor (sv_fresh sv) q (length a + 2) = Some q'" "sds_rep q' []"
    using sdsMakeRoomFor_rep [OF q(2), of "length a + 2" "sv_fresh sv"] a(2) by (auto simp: MAX_BULK_def)
  have "bulkArgument sv pos c = Some (Continue 0 (taken a q' c))"
    using True unread_len [OF u] room arg(1) q(1) q'(1) sds_rep_text [OF arg(2)]
    by (simp add: bulkArgument_def taken_def Let_def flip: a(1))
  then show ?thesis using q'(2) True by (auto simp: taken_def unread_rep intro!: exI [of _ 0] exI [of _ q'])
next
  case False
  have rd: "mem_read pos (length a) (sh_buf (c_querybuf c)) = Some a" using unread_read [of pos c "[]" a "r # n # z"] u by simp
  have "bulkArgument sv pos c = Some (Continue (pos + (length a + 2)) (taken a (c_querybuf c) c))"
    using False unread_len [OF u] room rd by (auto simp: bulkArgument_def taken_def Let_def simp flip: a(1))
  moreover have "unread (pos + (length a + 2)) (taken a (c_querybuf c) c) z"
    using unread_skip [of pos c "a @ [r, n]" z] u by (simp add: taken_def unread_def)
  ultimately show ?thesis using False by (intro exI [of _ "pos + (length a + 2)"] exI [of _ "c_querybuf c"]) auto
qed

subsection \<open>The loop over the bulks of a request\<close>

definition waiting :: "nat \<Rightarrow> redisClient \<Rightarrow> bytes \<Rightarrow> bool" where
  "waiting pos c y \<longleftrightarrow> c_bulklen c = - 1 \<or>
     bulk_ok c \<and> (int REDIS_MBULK_BIG_ARG \<le> c_bulklen c \<longrightarrow> pos = 0 \<and> int (length y) \<le> c_bulklen c + 2)"

definition paused_at :: "server_env \<Rightarrow> nat \<Rightarrow> nat \<Rightarrow> redisClient \<Rightarrow> nat \<Rightarrow> redisClient \<Rightarrow> bytes \<Rightarrow> bool" where
  "paused_at sv m n c p c' z \<longleftrightarrow> consistent sv c' \<and> counting c' \<and> c_freed c' = c_freed c \<and> unread p c' z \<and>
     p + length z \<le> m \<and> (if c_multibulklen c' = 0 then c_bulklen c' = - 1 \<and> length z < n else waiting p c' z)"

definition loop_end :: "server_env \<Rightarrow> nat \<Rightarrow> nat \<Rightarrow> redisClient \<Rightarrow> step \<Rightarrow> bool" where
  "loop_end sv m n c r \<longleftrightarrow>
     (case r of
        Return ok c' \<Rightarrow> \<not> ok \<and> shut sv m c c'
      | Break p c' \<Rightarrow> (\<exists>z. paused_at sv m n c p c' z)
      | Continue p c' \<Rightarrow> False)"

lemma loop_end_mono: "loop_end sv m n c r \<Longrightarrow> c_freed c = c_freed d \<Longrightarrow> m \<le> m' \<Longrightarrow> n \<le> n' \<Longrightarrow> loop_end sv m' n' d r"
  unfolding loop_end_def paused_at_def shut_def
  by (cases r) (auto split: if_splits intro: order_trans less_le_trans)

definition bulk_step :: "server_env \<Rightarrow> nat \<Rightarrow> redisClient \<Rightarrow> step option" where
  "bulk_step sv pos c = do {
     r \<leftarrow> bulkLength sv pos c;
     (case r of Continue pos c1 \<Rightarrow> bulkArgument sv pos c1 | _ \<Rightarrow> Some r) }"

lemma multibulkLoop_step:
  "c_multibulklen c \<noteq> 0 \<Longrightarrow> multibulkLoop sv pos c = do {
     r \<leftarrow> bulk_step sv pos c;
     (case r of Continue pos c2 \<Rightarrow> multibulkLoop sv pos c2 | _ \<Rightarrow> Some r) }"
  by (subst multibulkLoop.simps) (auto simp: bulk_step_def split: bind_splits step.splits)

lemma multibulkLoop_0: "c_multibulklen c = 0 \<Longrightarrow> multibulkLoop sv pos c = Some (Break pos c)"
  by (subst multibulkLoop.simps) simp

text \<open>The bulk length is known: either its bytes are there or the loop is left.\<close>

lemma two_more: "2 \<le> length w \<Longrightarrow> \<exists>r n z. w = r # n # z"
  by (cases w; cases "tl w") auto

lemma bulkArgument_safe:
  assumes inv: "consistent sv c" "counting c" "0 < c_multibulklen c" and u: "unread pos c y" and b: "bulk_ok c"
    and big: "int REDIS_MBULK_BIG_ARG \<le> c_bulklen c \<longrightarrow> pos = 0"
  shows "bulkArgument sv pos c = Some (Break pos c) \<and> waiting pos c y \<or>
     (\<exists>a p q z. bulkArgument sv pos c = Some (Continue p (taken a q c)) \<and> unread p (taken a q c) z \<and> length z < length y \<and>
       p + length z \<le> pos + length y)"
proof (cases "length y < nat (c_bulklen c) + 2")
  case True
  then show ?thesis using bulkArgument_wait [OF u True] b big by (auto simp: waiting_def)
next
  case False
  define a where "a = take (nat (c_bulklen c)) y"
  have "2 \<le> length (drop (nat (c_bulklen c)) y)" using False by simp
  then obtain r n z where d: "drop (nat (c_bulklen c)) y = r # n # z" using two_more by blast
  have y: "y = a @ r # n # z" using append_take_drop_id [of "nat (c_bulklen c)" y] d a_def by simp
  have a: "length a = nat (c_bulklen c)" "length a \<le> MAX_BULK" using False b by (auto simp: a_def bulk_ok_def)
  have room: "length (c_argv c) < c_argv_size c" using inv(2,3) by (simp add: counting_def)
  from bulkArgument_take [OF u [unfolded y] a room, of sv] obtain p q where
    "bulkArgument sv pos c = Some (Continue p (taken a q c))" "unread p (taken a q c) z"
    "p + length z \<le> pos + length (a @ r # n # z)" by (elim exE conjE)
  then show ?thesis using y by (intro disjI2 exI [of _ a] exI [of _ p] exI [of _ q] exI [of _ z]) simp
qed

lemma taken_ok:
  assumes "consistent sv c" "counting c" "0 < c_multibulklen c"
  shows "consistent sv (taken a q c)" "counting (taken a q c)" "c_bulklen (taken a q c) = - 1" "c_freed (taken a q c) = c_freed c"
    "c_multibulklen (taken a q c) = c_multibulklen c - 1" "has_flag k (taken a q c) = has_flag k c" "c_reqtype (taken a q c) = c_reqtype c"
  using assms consistent_cong [of "taken a q c" c sv] by (auto simp: taken_def counting_def has_flag_def)

lemma header_ok:
  assumes "consistent sv c" "counting c" "0 < c_multibulklen c" and d: "d = c\<lparr>c_querybuf := q, c_bulklen := l\<rparr>"
  shows "consistent sv d" "counting d" "0 < c_multibulklen d" "c_freed d = c_freed c" "has_flag k d = has_flag k c"
  using assms consistent_cong [of d c sv] by (auto simp: counting_def has_flag_def)

text \<open>One round of the loop: an error, a pause, or one argument more.\<close>

lemma bulk_step_safe:
  assumes inv: "consistent sv c" "\<not> has_flag REDIS_CLOSE_AFTER_REPLY c" "counting c" "0 < c_multibulklen c"
    and u: "unread pos c y" and w: "waiting pos c y"
  shows "(\<exists>r. bulk_step sv pos c = Some r \<and> loop_end sv (pos + length y) (length y) c r) \<or>
    (\<exists>p c' z. bulk_step sv pos c = Some (Continue p c') \<and> consistent sv c' \<and> counting c' \<and> c_bulklen c' = - 1 \<and> c_freed c' = c_freed c \<and>
       c_multibulklen c' = c_multibulklen c - 1 \<and> \<not> has_flag REDIS_CLOSE_AFTER_REPLY c' \<and>
       unread p c' z \<and> length z < length y \<and> p + length z \<le> pos + length y)"
    (is "?stop \<or> ?go")
proof -
  have arg: "?stop \<or> ?go" if h: "bulk_step sv pos c = bulkArgument sv p d" "consistent sv d" "counting d" "0 < c_multibulklen d"
      "unread p d y'" "bulk_ok d" "int REDIS_MBULK_BIG_ARG \<le> c_bulklen d \<longrightarrow> p = 0" "c_freed d = c_freed c"
      "\<not> has_flag REDIS_CLOSE_AFTER_REPLY d" "c_multibulklen d = c_multibulklen c" "length y' \<le> length y" "p + length y' \<le> pos + length y"
    for p d y'
    using bulkArgument_safe [OF h(2-7)]
  proof (elim disjE exE conjE)
    assume "bulkArgument sv p d = Some (Break p d)" "waiting p d y'"
    moreover from this have "paused_at sv (pos + length y) (length y) c p d y'" using h unfolding paused_at_def by simp
    ultimately show ?thesis using h(1) unfolding loop_end_def by auto
  next
    fix a p' q z
    assume z: "bulkArgument sv p d = Some (Continue p' (taken a q d))" "unread p' (taken a q d) z" "length z < length y'"
      "p' + length z \<le> p + length y'"
    note t = taken_ok [OF h(2,3,4), where a = a and q = q]
    have ?go using z h t
      by (intro exI [of _ p'] exI [of _ "taken a q d"] exI [of _ z]) simp
    then show ?thesis ..
  qed
  show ?thesis
  proof (cases "c_bulklen c = - 1")
    case True
    from bulkLength_safe [OF inv(1,2) u True] obtain r where r: "bulkLength sv pos c = Some r" "header_read sv pos y c r"
      by (elim exE conjE)
    show ?thesis
    proof (cases r)
      case (Return ok c')
      then show ?thesis using r by (auto simp: bulk_step_def header_read_def loop_end_def)
    next
      case (Break p c')
      then have "p = pos" "c' = c" using r(2) by (simp_all add: header_read_def)
      moreover have "paused_at sv (pos + length y) (length y) c pos c y" using inv u w by (simp add: paused_at_def)
      ultimately show ?thesis using r(1) Break by (auto simp: bulk_step_def loop_end_def)
    next
      case (Continue p d)
      then have h: "header_read sv pos y c (Continue p d)" using r(2) by simp
      from h [unfolded header_read_def step.case] obtain q l z where d: "d = c\<lparr>c_querybuf := q, c_bulklen := l\<rparr>" "unread p d z" "length z < length y"
          "p + length z \<le> pos + length y" "0 \<le> l" "l \<le> int MAX_BULK" "int REDIS_MBULK_BIG_ARG \<le> l \<longrightarrow> p = 0"
        by (elim exE conjE)
      note hd = header_ok [OF inv(1,3,4) d(1)]
      show ?thesis by (rule arg [OF _ hd(1-3) d(2)]) (use d hd inv r(1) Continue in \<open>simp_all add: bulk_step_def bulk_ok_def\<close>)
    qed
  next
    case False
    then have "bulkLength sv pos c = Some (Continue pos c)" by (simp add: bulkLength_def Let_def)
    then show ?thesis by (intro arg [of pos c y]) (use False w inv u in \<open>auto simp: bulk_step_def waiting_def\<close>)
  qed
qed

lemma multibulkLoop_safe:
  assumes "consistent sv c" "\<not> has_flag REDIS_CLOSE_AFTER_REPLY c" "counting c" "0 < c_multibulklen c"
    and "unread pos c y" "waiting pos c y"
  shows "\<exists>r. multibulkLoop sv pos c = Some r \<and> loop_end sv (pos + length y) (length y) c r"
  using assms
proof (induction "c_multibulklen c" arbitrary: pos c y rule: less_induct)
  case less
  from bulk_step_safe [OF less.prems] show ?case
  proof (elim disjE exE conjE)
    fix r assume r: "bulk_step sv pos c = Some r" "loop_end sv (pos + length y) (length y) c r"
    then have "multibulkLoop sv pos c = Some r" using less.prems(4) by (cases r) (auto simp: multibulkLoop_step loop_end_def)
    then show ?thesis using r(2) by blast
  next
    fix p c' z
    assume s: "bulk_step sv pos c = Some (Continue p c')" "consistent sv c'" "counting c'" "c_bulklen c' = - 1" "c_freed c' = c_freed c"
      "c_multibulklen c' = c_multibulklen c - 1" "\<not> has_flag REDIS_CLOSE_AFTER_REPLY c'"
      "unread p c' z" "length z < length y" "p + length z \<le> pos + length y"
    have e: "multibulkLoop sv pos c = multibulkLoop sv p c'" using s(1) less.prems(4) by (simp add: multibulkLoop_step)
    show ?thesis
    proof (cases "c_multibulklen c' = 0")
      case True
      then have "multibulkLoop sv pos c = Some (Break p c')" using e by (simp add: multibulkLoop_0)
      moreover have "paused_at sv (pos + length y) (length y) c p c' z" using s True by (simp add: paused_at_def)
      ultimately show ?thesis by (auto simp: loop_end_def)
    next
      case False
      have "\<exists>r. multibulkLoop sv p c' = Some r \<and> loop_end sv (p + length z) (length z) c' r"
        by (rule less.hyps) (use s False less.prems(4) in \<open>auto simp: waiting_def\<close>)
      then obtain r where r: "multibulkLoop sv p c' = Some r" "loop_end sv (p + length z) (length z) c' r" by (elim exE conjE)
      have "loop_end sv (pos + length y) (length y) c r" by (rule loop_end_mono [OF r(2)]) (use s in simp_all)
      then show ?thesis using e r(1) by simp
    qed
  qed
qed



subsection \<open>Whole requests\<close>

text \<open>What parsing a request may do to a client whose query buffer holds \<open>n\<close> bytes.\<close>

definition parsed :: "server_env \<Rightarrow> nat \<Rightarrow> redisClient \<Rightarrow> bool \<times> redisClient \<Rightarrow> bool" where
  "parsed sv n c r \<longleftrightarrow> consistent sv (snd r) \<and> c_freed (snd r) = c_freed c \<and>
     (\<exists>z. sds_rep (c_querybuf (snd r)) z \<and> length z \<le> n \<and>
       (if fst r then length z < n \<and> c_multibulklen (snd r) = 0 \<and> c_bulklen (snd r) = - 1 else input_ok (snd r) z))"

lemma shut_parsed: "shut sv n c c' \<Longrightarrow> parsed sv n c (False, c')"
  unfolding shut_def parsed_def input_ok_def by auto

definition loop_result :: "step \<Rightarrow> (bool \<times> redisClient) option" where
  "loop_result r = (case r of
       Return ok c \<Rightarrow> Some (ok, c)
     | Break pos c \<Rightarrow> do {
         q \<leftarrow> (if pos \<noteq> 0 then sdsrange (c_querybuf c) (int pos) (- 1) else Some (c_querybuf c));
         Some (c_multibulklen c = 0, c\<lparr>c_querybuf := q\<rparr>) }
     | Continue _ _ \<Rightarrow> None)"

lemma processMultibulkBuffer_loop:
  "multibulkLength sv c = Some (Continue pos d) \<Longrightarrow> c_multibulklen d \<noteq> 0 \<Longrightarrow>
   processMultibulkBuffer sv c = multibulkLoop sv pos d \<bind> loop_result"
  unfolding processMultibulkBuffer_def loop_result_def by (simp del: neq0_conv)

lemma multibulkLength_known: "c_multibulklen c \<noteq> 0 \<Longrightarrow> multibulkLength sv c = Some (Continue 0 c)"
  by (simp add: multibulkLength_def Let_def)

lemma loop_end_parsed:
  assumes l: "loop_end sv m n c r" and n: "n \<le> m"
  shows "\<exists>r'. loop_result r = Some r' \<and> parsed sv m c r'"
proof (cases r)
  case (Return ok c')
  then show ?thesis using l shut_parsed by (auto simp: loop_end_def loop_result_def)
next
  case (Break p c')
  then obtain z where z: "paused_at sv m n c p c' z" using l by (auto simp: loop_end_def)
  have u: "unread p c' z" using z by (simp add: paused_at_def)
  have "\<exists>q. (if p \<noteq> 0 then sdsrange (c_querybuf c') (int p) (- 1) else Some (c_querybuf c')) = Some q \<and> sds_rep q z"
    using unread_trim [OF u] u by (cases "p = 0") (auto simp: unread_rep)
  then obtain q where q: "(if p \<noteq> 0 then sdsrange (c_querybuf c') (int p) (- 1) else Some (c_querybuf c')) = Some q" "sds_rep q z"
    by (elim exE conjE)
  define d where "d = c'\<lparr>c_querybuf := q\<rparr>"
  have "parsed sv m c (c_multibulklen c' = 0, d)"
    using z q(2) n consistent_cong [of d c' sv] unfolding parsed_def paused_at_def
    by (auto simp: d_def input_ok_def waiting_def counting_def bulk_ok_def intro!: exI [of _ z])
  then show ?thesis using q(1) Break by (simp add: d_def loop_result_def)
qed (use l in \<open>simp add: loop_end_def\<close>)

lemma multibulkLength_line:
  assumes u: "sds_rep (c_querybuf c) (42 # t @ 13 # a # z)" and t: "13 \<notin> set t" "0 \<notin> set t" and i: "idle c"
  shows "multibulkLength sv c =
     (case string2ll t of
        None \<Rightarrow> do { c \<leftarrow> protocolError sv ''Protocol error: invalid multibulk length'' 0 c; Some (Return False c) }
      | Some ll \<Rightarrow>
          if sint ll > 1024 * 1024 then do {
            c \<leftarrow> protocolError sv ''Protocol error: invalid multibulk length'' 0 c;
            Some (Return False c) }
          else if sint ll \<le> 0 then do {
            q \<leftarrow> sdsrange (c_querybuf c) (int (length t + 3)) (- 1);
            Some (Return True (c\<lparr>c_querybuf := q\<rparr>)) }
          else Some (Continue (length t + 3) (c\<lparr>c_multibulklen := nat (sint ll), c_argv_size := nat (sint ll)\<rparr>)))"
proof -
  have u0: "unread 0 c (42 # t @ 13 # a # z)" using u by (simp add: unread_rep)
  have f: "strchr (sh_buf (c_querybuf c)) 0 13 = Some (Suc (length t))"
    using strchr_unread [OF u0, of 13] find_byte_hit [of 13 "42 # t" "a # z"] t by simp
  have rd: "mem_read (Suc 0) (length t) (sh_buf (c_querybuf c)) = Some t" using unread_read [of 0 c "[42]" t "13 # a # z"] u0 by simp
  have e: "Suc (length t) + 2 = length t + 3" by simp
  show ?thesis using i f rd unread_len [OF u0] unread_get [OF u0]
    by (cases "string2ll t") (simp_all add: multibulkLength_def idle_def Let_def e add.commute)
qed

lemma unread_size: "unread pos (c\<lparr>c_multibulklen := n, c_argv_size := n\<rparr>) z = unread pos c z"
  by (simp add: unread_def)

lemma processMultibulkBuffer_new_safe:
  assumes inv: "consistent sv c" "\<not> has_flag REDIS_CLOSE_AFTER_REPLY c" and i: "idle c" "c_reqtype c = REDIS_REQ_MULTIBULK"
    and u: "sds_rep (c_querybuf c) (42 # t @ 13 # a # z)" and t: "13 \<notin> set t" "0 \<notin> set t"
  shows "\<exists>r. processMultibulkBuffer sv c = Some r \<and> parsed sv (length (42 # t @ 13 # a # z)) c r"
proof -
  define x where "x = 42 # t @ 13 # a # z"
  have u0: "unread 0 c x" using u by (simp add: unread_rep x_def)
  have uz: "unread (length t + 3) c z"
    using unread_skip [of 0 c "42 # t @ [13, a]" z] u0 by (simp add: x_def numeral_3_eq_3)
  note e = multibulkLength_line [OF u t i(1), of sv]
  have "\<exists>c'. protocolError sv ''Protocol error: invalid multibulk length'' 0 c = Some c' \<and> shut sv (length x) c c'"
    by (rule protocolError_ok [OF inv u0]) (use i in \<open>simp_all add: idle_def\<close>)
  then obtain c' where err: "protocolError sv ''Protocol error: invalid multibulk length'' 0 c = Some c'" "shut sv (length x) c c'"
    by (elim exE conjE)
  obtain q where q: "sdsrange (c_querybuf c) (int (length t + 3)) (- 1) = Some q" "sds_rep q z" using unread_trim [OF uz] by (elim exE conjE)
  consider "case string2ll t of None \<Rightarrow> True | Some ll \<Rightarrow> sint ll > 1024 * 1024"
    | ll where "string2ll t = Some ll" "sint ll \<le> 0"
    | ll where "string2ll t = Some ll" "0 < sint ll" "sint ll \<le> 1024 * 1024"
    by (cases "string2ll t") force+
  then show ?thesis
  proof cases
    case 1
    then have "processMultibulkBuffer sv c = Some (False, c')"
      using e err(1) by (cases "string2ll t") (simp_all add: processMultibulkBuffer_def)
    then show ?thesis using shut_parsed [OF err(2)] by (simp add: x_def)
  next
    case 2
    define d where "d = c\<lparr>c_querybuf := q\<rparr>"
    have "processMultibulkBuffer sv c = Some (True, d)"
      using e 2 q(1) by (simp add: processMultibulkBuffer_def d_def)
    moreover have "parsed sv (length x) c (True, d)"
      using q(2) i inv(1) consistent_cong [of d c sv] by (auto simp: parsed_def d_def x_def idle_def)
    ultimately show ?thesis by (simp add: x_def)
  next
    case 3
    define d where "d = c\<lparr>c_multibulklen := nat (sint ll), c_argv_size := nat (sint ll)\<rparr>"
    have "multibulkLength sv c = Some (Continue (length t + 3) d)" using e 3 by (simp add: d_def)
    moreover have "\<exists>r. multibulkLoop sv (length t + 3) d = Some r \<and> loop_end sv (length t + 3 + length z) (length z) d r"
      by (rule multibulkLoop_safe)
        (use inv i 3 uz consistent_cong [of d c sv] in \<open>simp_all add: d_def unread_size has_flag_def counting_def idle_def waiting_def\<close>)
    then obtain r where r: "multibulkLoop sv (length t + 3) d = Some r" "loop_end sv (length t + 3 + length z) (length z) d r" by (elim exE conjE)
    moreover have "loop_end sv (length x) (length x) c r" by (rule loop_end_mono [OF r(2)]) (simp_all add: d_def x_def)
    moreover have "c_multibulklen d \<noteq> 0" using 3 by (simp add: d_def)
    ultimately show ?thesis using loop_end_parsed [of sv "length x" "length x" c r] processMultibulkBuffer_loop [of sv c "length t + 3" d]
      by (simp add: x_def)
  qed
qed

lemma processMultibulkBuffer_safe:
  assumes inv: "consistent sv c" "\<not> has_flag REDIS_CLOSE_AFTER_REPLY c" and u: "sds_rep (c_querybuf c) x"
    and i: "idle c \<and> c_reqtype c = REDIS_REQ_MULTIBULK \<and> x \<noteq> [] \<and> hd x = 42 \<or> counting c \<and> 0 < c_multibulklen c \<and> waiting 0 c x"
  shows "\<exists>r. processMultibulkBuffer sv c = Some r \<and> parsed sv (length x) c r"
  using i
proof (elim disjE conjE)
  assume h: "counting c" "0 < c_multibulklen c" "waiting 0 c x"
  from multibulkLoop_safe [OF inv h(1,2) _ h(3)] u obtain r where r: "multibulkLoop sv 0 c = Some r" "loop_end sv (0 + length x) (length x) c r"
    by (auto simp: unread_rep)
  then show ?thesis using loop_end_parsed [of sv "length x" "length x" c r] h(2)
      processMultibulkBuffer_loop [OF multibulkLength_known [of c sv]] by simp
next
  assume h: "idle c" "c_reqtype c = REDIS_REQ_MULTIBULK" "x \<noteq> []" "hd x = 42"
  have u0: "unread 0 c x" using u by (simp add: unread_rep)
  have same: "parsed sv (length x) c (False, c)" using inv(1) u h by (auto simp: parsed_def input_ok_def)
  show ?thesis
  proof (cases "find_byte 13 x")
    case None
    then have f: "strchr (sh_buf (c_querybuf c)) 0 13 = None" using strchr_unread [OF u0, of 13] by simp
    have "\<exists>c'. protocolError sv ''Protocol error: too big mbulk count string'' 0 c = Some c' \<and> shut sv (length x) c c'"
      by (rule protocolError_ok [OF inv u0]) (use h in \<open>simp_all add: idle_def\<close>)
    then obtain c' where err: "protocolError sv ''Protocol error: too big mbulk count string'' 0 c = Some c'" "shut sv (length x) c c'"
      by (elim exE conjE)
    show ?thesis using f h(1) err(1) shut_parsed [OF err(2)] same
      by (cases "sdslen (c_querybuf c) > REDIS_INLINE_MAX_SIZE") (simp_all add: processMultibulkBuffer_def multibulkLength_def idle_def Let_def)
  next
    case (Some k)
    then have f: "strchr (sh_buf (c_querybuf c)) 0 13 = Some k" using strchr_unread [OF u0, of 13] by simp
    from find_byte_SomeD [OF Some] obtain g w where x: "x = g @ 13 # w" "length g = k" "13 \<notin> set g" "0 \<notin> set g" by blast
    obtain t where t: "g = 42 # t" using x(1) h(4) by (cases g) auto
    show ?thesis
    proof (cases w)
      case Nil
      then show ?thesis using f h(1) same x unread_len [OF u0] by (simp add: processMultibulkBuffer_def multibulkLength_def idle_def Let_def)
    next
      case (Cons a z)
      have "\<exists>r. processMultibulkBuffer sv c = Some r \<and> parsed sv (length (42 # t @ 13 # a # z)) c r"
        by (rule processMultibulkBuffer_new_safe [OF inv h(1,2)]) (use u x t Cons in simp_all)
      then show ?thesis using x(1) t Cons by simp
    qed
  qed
qed



subsection \<open>Inline requests\<close>

text \<open>
  The line \<open>l\<close> is ended by \<open>e\<close>.  The code drops two bytes after the line, so a line that
  ends in a single newline takes the next byte of the buffer with it.
\<close>

definition line_end :: "bytes \<Rightarrow> bytes \<Rightarrow> bool" where
  "line_end l e \<longleftrightarrow> 10 \<notin> set l \<and> 0 \<notin> set l \<and> (e = [13, 10] \<or> e = [10] \<and> (l = [] \<or> last l \<noteq> 13))"

definition inline_read :: "server_env \<Rightarrow> bytes \<Rightarrow> bytes list \<Rightarrow> sdshdr \<Rightarrow> redisClient \<Rightarrow> redisClient" where
  "inline_read sv l argv q c =
     (let c = (if l = [] \<and> has_flag REDIS_SLAVE c then c\<lparr>c_repl_ack_time := sv_unixtime sv\<rparr> else c);
          c = (if argv \<noteq> [] then c\<lparr>c_argv_size := length argv\<rparr> else c) in
      c\<lparr>c_querybuf := q, c_argv := filter (\<lambda>a. a \<noteq> []) argv\<rparr>)"

lemma find_line:
  assumes "line_end l e"
  shows "find_byte 10 (l @ e @ r) = Some (length l + length e - 1)"
proof -
  consider "e = [13, 10]" | "e = [10]" using assms by (auto simp: line_end_def)
  then show ?thesis
  proof cases
    case 1
    then show ?thesis using find_byte_hit [of 10 "l @ [13]" r] assms by (simp add: line_end_def)
  next
    case 2
    then show ?thesis using find_byte_hit [of 10 l r] assms by (simp add: line_end_def)
  qed
qed

text \<open>The position of the line end, as the code computes it.\<close>

lemma line_length:
  assumes "line_end l e" "buf = (l @ e @ r) @ ys" "n = length l + length e - 1"
  shows "(if n = 0 then Some 0 else do { prev \<leftarrow> mem_get (n - 1) buf; Some (if prev = 13 then n - 1 else n) }) = Some (length l)"
proof -
  consider "e = [13, 10]" | "e = [10]" "l = []" | "e = [10]" "l \<noteq> []" "last l \<noteq> 13" using assms(1) by (auto simp: line_end_def)
  then show ?thesis
  proof cases
    case 3
    then obtain m a where l: "l = m @ [a]" "a \<noteq> 13" by (cases l rule: rev_cases) auto
    then show ?thesis using 3 assms by (simp add: mem_get_def nth_append)
  qed (use assms in \<open>auto simp: mem_get_def nth_append\<close>)
qed

lemma processInlineBuffer_line:
  assumes u: "sds_rep (c_querybuf c) (l @ e @ r)" and e: "line_end l e" and len: "length l < 2 ^ 31"
  shows "\<exists>q. sdsrange (c_querybuf c) (int (length l + 2)) (- 1) = Some q \<and> sds_rep q (drop (length l + 2) (l @ e @ r)) \<and>
    processInlineBuffer sv c =
      (case sdssplitargs l of
         None \<Rightarrow> do { c \<leftarrow> protocolError sv ''Protocol error: unbalanced quotes in request'' 0 c; Some (False, c) }
       | Some argv \<Rightarrow> Some (True, inline_read sv l argv q c))"
proof -
  have u0: "unread 0 c (l @ e @ r)" using u by (simp add: unread_rep)
  obtain ys where buf: "sh_buf (c_querybuf c) = (l @ e @ r) @ 0 # ys" using u by (auto simp: sds_rep_def)
  have f: "strchr (sh_buf (c_querybuf c)) 0 10 = Some (length l + length e - 1)"
    using strchr_unread [OF u0, of 10] find_line [OF e, of r] by simp
  have pos: "(if length l + length e - 1 = 0 then Some 0
      else do { prev \<leftarrow> mem_get (length l + length e - 1 - 1) (sh_buf (c_querybuf c));
                Some (if prev = 13 then length l + length e - 1 - 1 else length l + length e - 1) }) = Some (length l)"
    by (rule line_length [OF e buf refl])
  obtain aux where aux: "sdsnewlen (sv_fresh sv) (Some (sh_buf (c_querybuf c))) (length l) = Some aux" "sds_rep aux l"
    using sdsnewlen_ok [of "length l" "sh_buf (c_querybuf c)" "sv_fresh sv"] len buf by auto
  have s: "sdssplitargs (sh_buf aux) = sdssplitargs l" using aux(2) by (auto simp: sds_rep_def sdssplitargs_def c_str_end)
  obtain q where q: "sdsrange (c_querybuf c) (int (length l + 2)) (- 1) = Some q" "sds_rep q (drop (length l + 2) (l @ e @ r))"
    using sdsrange_ok [OF u, of "int (length l + 2)" "- 1"] unfolding substring_drop by (elim exE conjE)
  have "processInlineBuffer sv c =
      (case sdssplitargs l of
         None \<Rightarrow> do { c \<leftarrow> protocolError sv ''Protocol error: unbalanced quotes in request'' 0 c; Some (False, c) }
       | Some argv \<Rightarrow> Some (True, inline_read sv l argv q c))"
    unfolding processInlineBuffer_def Let_def f option.case pos bind.bind_lunit aux(1) s q(1)
    by (auto simp: inline_read_def Let_def split: option.splits)
  then show ?thesis using q by blast
qed

lemma inline_read_fields:
  "c_querybuf (inline_read sv l argv q c) = q" "c_argv (inline_read sv l argv q c) = filter (\<lambda>a. a \<noteq> []) argv"
  "c_freed (inline_read sv l argv q c) = c_freed c" "c_multibulklen (inline_read sv l argv q c) = c_multibulklen c"
  "c_bulklen (inline_read sv l argv q c) = c_bulklen c" "consistent sv (inline_read sv l argv q c) = consistent sv c"
  using consistent_cong [of "inline_read sv l argv q c" c sv] by (simp_all add: inline_read_def Let_def)

lemma find_line_end:
  assumes "find_byte 10 x = Some k"
  shows "\<exists>l e r. x = l @ e @ r \<and> line_end l e"
proof -
  obtain a b where x: "x = a @ 10 # b" "10 \<notin> set a" "0 \<notin> set a" using find_byte_SomeD [OF assms] by blast
  show ?thesis
  proof (cases "a \<noteq> [] \<and> last a = 13")
    case True
    then obtain m where "a = m @ [13]" by (cases a rule: rev_cases) auto
    then show ?thesis using x by (intro exI [of _ m] exI [of _ "[13, 10]"] exI [of _ b]) (simp add: line_end_def)
  next
    case False
    then show ?thesis using x by (intro exI [of _ a] exI [of _ "[10]"] exI [of _ b]) (auto simp: line_end_def)
  qed
qed

lemma processInlineBuffer_safe:
  assumes inv: "consistent sv c" "\<not> has_flag REDIS_CLOSE_AFTER_REPLY c" and u: "sds_rep (c_querybuf c) x" and len: "length x < 2 ^ 31"
    and i: "idle c" "c_reqtype c = REDIS_REQ_INLINE"
  shows "\<exists>r. processInlineBuffer sv c = Some r \<and> parsed sv (length x) c r"
proof -
  have u0: "unread 0 c x" using u by (simp add: unread_rep)
  have err: "\<exists>c'. protocolError sv msg 0 c = Some c' \<and> shut sv (length x) c c'" if "length msg < 2 ^ 31" for msg
    by (rule protocolError_ok [OF inv u0 _ that]) (use i in \<open>simp add: idle_def\<close>)
  show ?thesis
  proof (cases "find_byte 10 x")
    case None
    then have f: "strchr (sh_buf (c_querybuf c)) 0 10 = None" using strchr_unread [OF u0, of 10] by simp
    obtain c' where c': "protocolError sv ''Protocol error: too big inline request'' 0 c = Some c'" "shut sv (length x) c c'"
      using err [of "''Protocol error: too big inline request''"] by auto
    have "parsed sv (length x) c (False, c)" using inv(1) u i by (auto simp: parsed_def input_ok_def)
    then show ?thesis using f c'(1) shut_parsed [OF c'(2)]
      by (cases "sdslen (c_querybuf c) > REDIS_INLINE_MAX_SIZE") (simp_all add: processInlineBuffer_def Let_def)
  next
    case (Some k)
    then obtain l e r where x: "x = l @ e @ r" "line_end l e" using find_line_end by blast
    obtain q where q: "sds_rep q (drop (length l + 2) x)" "processInlineBuffer sv c =
      (case sdssplitargs l of
         None \<Rightarrow> do { c \<leftarrow> protocolError sv ''Protocol error: unbalanced quotes in request'' 0 c; Some (False, c) }
       | Some argv \<Rightarrow> Some (True, inline_read sv l argv q c))"
      using processInlineBuffer_line [OF u [unfolded x(1)] x(2), of sv] len x(1) by auto
    show ?thesis
    proof (cases "sdssplitargs l")
      case None
      obtain c' where "protocolError sv ''Protocol error: unbalanced quotes in request'' 0 c = Some c'" "shut sv (length x) c c'"
        using err [of "''Protocol error: unbalanced quotes in request''"] by auto
      then show ?thesis using None q(2) shut_parsed by auto
    next
      case (Some argv)
      have "x \<noteq> []" using x by (auto simp: line_end_def)
      then have "parsed sv (length x) c (True, inline_read sv l argv q c)"
        using inv(1) i q(1) by (auto simp: parsed_def inline_read_fields idle_def intro!: exI [of _ "drop (length l + 2) x"])
      then show ?thesis using Some q(2) by simp
    qed
  qed
qed



subsection \<open>The loop over requests\<close>

lemma resetClient_fields:
  "c_querybuf (resetClient c) = c_querybuf c" "idle (resetClient c)" "c_reqtype (resetClient c) = 0" "c_freed (resetClient c) = c_freed c"
  "consistent sv (resetClient c) = consistent sv c"
  using consistent_cong [of "resetClient c" c sv]
  by (simp_all add: resetClient_def freeClientArgv_def clear_flag_def idle_def Let_def)

lemma resetClient_flag: "k \<noteq> REDIS_ASKING \<Longrightarrow> has_flag k (resetClient c) = has_flag k c"
  by (auto simp: resetClient_def freeClientArgv_def clear_flag_def has_flag_def Let_def bit_unset_bit_iff)

lemma parseRequest_safe:
  assumes inv: "consistent sv c" "\<not> has_flag REDIS_CLOSE_AFTER_REPLY c" and u: "sds_rep (c_querybuf c) x" and x: "x \<noteq> []" "length x < 2 ^ 31"
    and i: "input_ok c x"
  shows "\<exists>r. parseRequest sv c = Some r \<and> parsed sv (length x) c r"
proof -
  have u0: "mem_get 0 (sh_buf (c_querybuf c)) = Some (hd x)" using unread_get [of 0 c "hd x" "tl x"] u x(1) by (simp add: unread_rep)
  have typed: "\<exists>r. parseRequest sv c = Some r \<and> parsed sv (length x) c r"
    if c0: "idle c" "c_reqtype c = 0 \<or> c_reqtype c = ty" and ty: "ty = (if hd x = 42 then REDIS_REQ_MULTIBULK else REDIS_REQ_INLINE) \<or> c_reqtype c = ty"
      "ty = REDIS_REQ_INLINE \<or> ty = REDIS_REQ_MULTIBULK \<and> hd x = 42" for ty
  proof -
    define d where "d = c\<lparr>c_reqtype := ty\<rparr>"
    have d: "consistent sv d" "\<not> has_flag REDIS_CLOSE_AFTER_REPLY d" "sds_rep (c_querybuf d) x" "idle d" "c_reqtype d = ty" "c_freed d = c_freed c"
      using inv u c0(1) consistent_cong [of d c sv] by (simp_all add: d_def has_flag_def idle_def)
    have "requestType c = Some d"
      using c0(2) ty u0 by (cases c) (auto simp: requestType_def d_def REDIS_REQ_INLINE_def REDIS_REQ_MULTIBULK_def)
    then have "parseRequest sv c = (if ty = REDIS_REQ_INLINE then processInlineBuffer sv d else processMultibulkBuffer sv d)"
      using ty(2) d(5) by (auto simp: parseRequest_def)
    moreover have "\<exists>r. processInlineBuffer sv d = Some r \<and> parsed sv (length x) d r" if "ty = REDIS_REQ_INLINE"
      by (rule processInlineBuffer_safe [OF d(1-3) x(2) d(4)]) (use that d(5) in simp)
    moreover have "\<exists>r. processMultibulkBuffer sv d = Some r \<and> parsed sv (length x) d r" if "ty \<noteq> REDIS_REQ_INLINE"
      by (rule processMultibulkBuffer_safe [OF d(1-3)]) (use that d(4,5) ty(2) x(1) in blast)
    ultimately show ?thesis using d(6) unfolding parsed_def by (simp split: if_splits)
  qed
  consider "idle c" "c_reqtype c = 0" | "idle c" "c_reqtype c = REDIS_REQ_INLINE"
    | "idle c" "c_reqtype c = REDIS_REQ_MULTIBULK" "hd x = 42" | "counting c" "0 < c_multibulklen c" "waiting 0 c x"
    using i inv(2) by (auto simp: input_ok_def waiting_def)
  then show ?thesis
  proof cases
    case 1
    then show ?thesis by (intro typed [of "if hd x = 42 then REDIS_REQ_MULTIBULK else REDIS_REQ_INLINE"]) auto
  next
    case 2
    then show ?thesis by (intro typed [of REDIS_REQ_INLINE]) auto
  next
    case 3
    then show ?thesis by (intro typed [of REDIS_REQ_MULTIBULK]) auto
  next
    case 4
    then have "parseRequest sv c = processMultibulkBuffer sv c"
      by (simp add: parseRequest_def requestType_def counting_def REDIS_REQ_INLINE_def REDIS_REQ_MULTIBULK_def)
    then show ?thesis using processMultibulkBuffer_safe [OF inv u] 4 by simp
  qed
qed

text \<open>
  What the input side relies on of the executor of commands: it does not fail, keeps the
  output side consistent and the parser where it is, and reports a command that was not
  executed only for a client that is about to be closed.
\<close>

definition executor_ok :: "server_env \<Rightarrow> 's executor \<Rightarrow> bool" where
  "executor_ok sv processCommand \<longleftrightarrow> (\<forall>s c. consistent sv c \<longrightarrow> (\<exists>ok s' c'. processCommand s c = Some (ok, s', c') \<and>
     consistent sv c' \<and> c_querybuf c' = c_querybuf c \<and> c_multibulklen c' = c_multibulklen c \<and> c_bulklen c' = c_bulklen c \<and>
     c_freed c' = c_freed c \<and> (ok \<or> has_flag REDIS_CLOSE_AFTER_REPLY c')))"

lemma executor_okD:
  "executor_ok sv processCommand \<Longrightarrow> consistent sv c \<Longrightarrow> \<exists>ok s' c'. processCommand s c = Some (ok, s', c') \<and>
     consistent sv c' \<and> c_querybuf c' = c_querybuf c \<and> c_multibulklen c' = c_multibulklen c \<and> c_bulklen c' = c_bulklen c \<and>
     c_freed c' = c_freed c \<and> (ok \<or> has_flag REDIS_CLOSE_AFTER_REPLY c')"
  by (simp add: executor_ok_def)

text \<open>The client after the command, and after the reset that follows it.\<close>

definition after_command :: "bool \<Rightarrow> redisClient \<Rightarrow> redisClient" where
  "after_command ok c = (if ok then resetClient c else c)"

lemma after_command_ok:
  assumes "consistent sv c" "c_bulklen c = - 1" "ok \<or> has_flag REDIS_CLOSE_AFTER_REPLY c"
  shows "consistent sv (after_command ok c)" "input_ok (after_command ok c) z" "c_querybuf (after_command ok c) = c_querybuf c"
    "c_freed (after_command ok c) = c_freed c"
  using assms resetClient_fields by (auto simp: after_command_def input_ok_def)

definition stops :: "'s pause \<Rightarrow> 's \<Rightarrow> redisClient \<Rightarrow> bool \<times> 's" where
  "stops clientsArePaused s c =
     (let (paused, s) = (if has_flag REDIS_SLAVE c then (False, s) else clientsArePaused s) in
      (paused \<or> has_flag REDIS_BLOCKED c \<or> has_flag REDIS_CLOSE_AFTER_REPLY c, s))"

lemma processInputBuffer_stop:
  assumes "sdslen (c_querybuf c) = 0 \<or> fst (stops clientsArePaused s c)"
  shows "\<exists>s'. processInputBuffer sv clientsArePaused processCommand log s c = Some (log, s', c)"
  using assms by (subst processInputBuffer.simps) (auto simp: stops_def split: prod.splits if_splits)

lemma processInputBuffer_parse:
  assumes "sdslen (c_querybuf c) \<noteq> 0" "stops clientsArePaused s c = (False, s')" "parseRequest sv c = Some (ok, d)"
  shows "processInputBuffer sv clientsArePaused processCommand log s c =
     (if \<not> ok then Some (log, s', d)
      else if c_argv d = [] then processInputBuffer sv clientsArePaused processCommand log s' (resetClient d)
      else do {
        (executed, s, c') \<leftarrow> processCommand s' d;
        processInputBuffer sv clientsArePaused processCommand (log @ [c_argv d]) s (after_command executed c') })"
  using assms by (subst processInputBuffer.simps) (auto simp: stops_def after_command_def split: prod.splits)

lemma processInputBuffer_safe:
  assumes ex: "executor_ok sv processCommand" and n: "n < 2 ^ 31"
  shows "consistent sv c \<Longrightarrow> sds_rep (c_querybuf c) x \<Longrightarrow> length x \<le> n \<Longrightarrow> input_ok c x \<Longrightarrow>
    \<exists>log' s' c'. processInputBuffer sv clientsArePaused processCommand log s c = Some (log', s', c') \<and>
      client_ok sv n c' \<and> c_freed c' = c_freed c"
proof (induction "length x" arbitrary: x c log s rule: less_induct)
  case less
  have len: "sdslen (c_querybuf c) = length x" using sds_rep_len [OF less.prems(2)] by (simp add: sdslen_def)
  have same: "client_ok sv n c" using less.prems by (auto simp: client_ok_def)
  obtain stop s1 where s1: "stops clientsArePaused s c = (stop, s1)" by (cases "stops clientsArePaused s c")
  show ?case
  proof (cases "x = [] \<or> stop")
    case True
    then show ?thesis using processInputBuffer_stop [of c clientsArePaused s sv processCommand log] len s1 same by auto
  next
    case False
    then have s1: "stops clientsArePaused s c = (False, s1)" using s1 by simp
    then have "\<not> has_flag REDIS_CLOSE_AFTER_REPLY c" by (auto simp: stops_def split: prod.splits)
    from parseRequest_safe [OF less.prems(1) this less.prems(2) _ _ less.prems(4)] False less.prems(3) n
    obtain ok d where d: "parseRequest sv c = Some (ok, d)" "parsed sv (length x) c (ok, d)" by auto
    from d(2) [unfolded parsed_def fst_conv snd_conv] obtain z where z: "consistent sv d" "c_freed d = c_freed c" "sds_rep (c_querybuf d) z" "length z \<le> length x"
        "if ok then length z < length x \<and> c_multibulklen d = 0 \<and> c_bulklen d = - 1 else input_ok d z"
      by (elim exE conjE)
    note step = processInputBuffer_parse [OF _ s1 d(1), of processCommand log]
    have nz: "sdslen (c_querybuf c) \<noteq> 0" using len False by simp
    consider "\<not> ok" | "ok" "c_argv d = []" | "ok" "c_argv d \<noteq> []" by blast
    then show ?thesis
    proof cases
      case 1
      then have "client_ok sv n d" using z less.prems(3) by (auto simp: client_ok_def)
      then show ?thesis using step [OF nz] 1 z(2) by simp
    next
      case 2
      have "\<exists>log' s' c'. processInputBuffer sv clientsArePaused processCommand log s1 (resetClient d) = Some (log', s', c') \<and>
          client_ok sv n c' \<and> c_freed c' = c_freed (resetClient d)"
        by (rule less.hyps [of z]) (use z 2(1) less.prems(3) resetClient_fields [where c = d] in \<open>auto simp: input_ok_def\<close>)
      then show ?thesis using step [OF nz] 2 z(2) resetClient_fields(4) by simp
    next
      case 3
      obtain ex s2 c2 where c2: "processCommand s1 d = Some (ex, s2, c2)" "consistent sv c2" "c_querybuf c2 = c_querybuf d"
          "c_bulklen c2 = c_bulklen d" "c_freed c2 = c_freed d" "ex \<or> has_flag REDIS_CLOSE_AFTER_REPLY c2"
        using executor_okD [OF ex z(1), of s1] by (elim exE conjE)
      have "c_bulklen c2 = - 1" using c2(4) z(5) 3 by simp
      note a = after_command_ok [OF c2(2) this c2(6)]
      have "\<exists>log' s' c'. processInputBuffer sv clientsArePaused processCommand (log @ [c_argv d]) s2 (after_command ex c2) = Some (log', s', c') \<and>
          client_ok sv n c' \<and> c_freed c' = c_freed (after_command ex c2)"
        by (rule less.hyps [of z]) (use z 3(1) less.prems(3) a c2(3) in auto)
      then show ?thesis using step [OF nz] 3 c2(1,5) z(2) a(4) by simp
    qed
  qed
qed



subsection \<open>Reading from the socket\<close>

lemma put_incr:
  assumes "xs \<noteq> []" "length xs \<le> length ys" "length x + length ys < 2 ^ 32" and q: "q = \<lparr>sh_len = length x, sh_free = length ys, sh_buf = x @ 0 # ys\<rparr>"
  shows "\<exists>buf q2. mem_write (length x) xs (sh_buf q) = Some buf \<and> sdsIncrLen (q\<lparr>sh_buf := buf\<rparr>) (int (length xs)) = Some q2 \<and>
    sds_rep q2 (x @ xs)"
proof -
  obtain d where d: "drop (length xs) (0 # ys) = d # drop (length xs) ys" using drop_Cons_ex [OF assms(2)] by blast
  have w: "mem_write (length x) xs (sh_buf q) = Some ((x @ xs) @ d # drop (length xs) ys)"
    using put_end [OF assms(2), of x] d q by simp
  have "mem_set (length x + length xs) 0 ((x @ xs) @ d # drop (length xs) ys) = Some ((x @ xs) @ 0 # drop (length xs) ys)"
    using set_end [of "x @ xs" 0 d] by simp
  then have i: "sdsIncrLen (q\<lparr>sh_buf := (x @ xs) @ d # drop (length xs) ys\<rparr>) (int (length xs)) =
      Some \<lparr>sh_len = length (x @ xs), sh_free = length (drop (length xs) ys), sh_buf = (x @ xs) @ 0 # drop (length xs) ys\<rparr>"
    using assms(2,3) q by (simp add: sdsIncrLen_def mk_sds_def nat_diff_distrib' flip: of_nat_add)
  have "sds_rep \<lparr>sh_len = length (x @ xs), sh_free = length (drop (length xs) ys), sh_buf = (x @ xs) @ 0 # drop (length xs) ys\<rparr> (x @ xs)"
    using assms(2,3) unfolding sds_rep_def by (intro exI [of _ "drop (length xs) ys"]) simp
  then show ?thesis using w i by blast
qed

lemma read_room:
  assumes "sds_rep q x" "length x + k < 2 ^ 31"
  shows "\<exists>q1. sdsMakeRoomFor fresh q k = Some q1 \<and> sds_rep q1 x \<and>
    (\<forall>xs. xs \<noteq> [] \<and> length xs \<le> k \<longrightarrow> (\<exists>buf q2. mem_write (length x) xs (sh_buf q1) = Some buf \<and>
      sdsIncrLen (q1\<lparr>sh_buf := buf\<rparr>) (int (length xs)) = Some q2 \<and> sds_rep q2 (x @ xs)))"
proof -
  obtain ys where ys: "sdsMakeRoomFor fresh q k = Some \<lparr>sh_len = length x, sh_free = length ys, sh_buf = x @ 0 # ys\<rparr>"
      "k \<le> length ys" "length x + length ys < 2 ^ 32"
    using sdsMakeRoomFor_ok [OF assms] by blast
  define q1 where "q1 = \<lparr>sh_len = length x, sh_free = length ys, sh_buf = x @ 0 # ys\<rparr>"
  have "sds_rep q1 x" using ys(3) by (auto simp: sds_rep_def q1_def)
  moreover have "\<exists>buf q2. mem_write (length x) xs (sh_buf q1) = Some buf \<and>
      sdsIncrLen (q1\<lparr>sh_buf := buf\<rparr>) (int (length xs)) = Some q2 \<and> sds_rep q2 (x @ xs)" if "xs \<noteq> []" "length xs \<le> k" for xs
    by (rule put_incr [OF that(1) _ ys(3) q1_def]) (use that(2) ys(2) in simp)
  ultimately show ?thesis using ys(1) unfolding q1_def by blast
qed

text \<open>The client with new data, before it is parsed.\<close>

definition received :: "sdshdr \<Rightarrow> redisClient \<Rightarrow> redisClient \<Rightarrow> bool" where
  "received q c c' \<longleftrightarrow> c' = c\<lparr>c_querybuf_peak := c_querybuf_peak c', c_querybuf := q, c_lastinteraction := c_lastinteraction c',
     c_reploff := c_reploff c', c_stat_net_input_bytes := c_stat_net_input_bytes c'\<rparr>"

lemma received_fields:
  assumes "received q c c'"
  shows "c_querybuf c' = q" "c_reqtype c' = c_reqtype c" "c_argv c' = c_argv c" "c_argv_size c' = c_argv_size c" "c_cmd c' = c_cmd c"
    "c_multibulklen c' = c_multibulklen c" "c_bulklen c' = c_bulklen c" "has_flag f c' = has_flag f c"
    "c_freed c' = c_freed c" "consistent sv c' = consistent sv c"
proof -
  show "consistent sv c' = consistent sv c"
    by (rule consistent_cong; subst assms [unfolded received_def]; simp)
qed (subst assms [unfolded received_def]; simp add: has_flag_def)+

lemma readLength_le: "readLength c \<le> int REDIS_IOBUF_LEN"
  by (simp add: readLength_def Let_def)

lemma readQueryFromClient_cases:
  assumes u: "sds_rep (c_querybuf c) x" and n: "length x \<le> 2 ^ 30" and r: "0 \<le> readLength c"
  shows "\<exists>q c0. sds_rep q x \<and> received q c c0 \<and>
    readQueryFromClient sv m paused exec read s c =
      (case read (nat (readLength c)) of
         EFail \<Rightarrow> Some ([], s, c0\<lparr>c_freed := True\<rparr>)
       | EAgain \<Rightarrow> Some ([], s, c0)
       | Nread xs \<Rightarrow> if xs = [] then Some ([], s, c0\<lparr>c_freed := True\<rparr>) else readQueryFromClient sv m paused exec read s c)"
    and "read (nat (readLength c)) = Nread xs \<Longrightarrow> xs \<noteq> [] \<Longrightarrow> length xs \<le> nat (readLength c) \<Longrightarrow>
    \<exists>q c'. sds_rep q (x @ xs) \<and> received q c c' \<and>
      readQueryFromClient sv m paused exec read s c =
        (if length x + length xs > m then Some ([], s, c'\<lparr>c_freed := True\<rparr>) else processInputBuffer sv paused exec [] s c')"
proof -
  have len: "sdslen (c_querybuf c) = length x" using sds_rep_len [OF u] by (simp add: sdslen_def)
  have k: "length x + nat (readLength c) < 2 ^ 31" using n r readLength_le [of c] by (simp add: REDIS_IOBUF_LEN_def)
  obtain q where q: "sdsMakeRoomFor (sv_fresh sv) (c_querybuf c) (nat (readLength c)) = Some q" "sds_rep q x"
    and put: "\<And>xs. xs \<noteq> [] \<Longrightarrow> length xs \<le> nat (readLength c) \<Longrightarrow> \<exists>buf q2. mem_write (length x) xs (sh_buf q) = Some buf \<and>
      sdsIncrLen (q\<lparr>sh_buf := buf\<rparr>) (int (length xs)) = Some q2 \<and> sds_rep q2 (x @ xs)"
    using read_room [OF u k, of "sv_fresh sv"] by blast
  define c1 where "c1 = (if c_querybuf_peak c < length x then c\<lparr>c_querybuf_peak := length x\<rparr> else c)"
  have c1: "c_querybuf c1 = c_querybuf c" by (simp add: c1_def)
  note e = readQueryFromClient_def [of sv m paused exec read s c, unfolded Let_def len, folded c1_def, unfolded c1 q(1) bind.bind_lunit]
  show "\<exists>q c0. sds_rep q x \<and> received q c c0 \<and>
    readQueryFromClient sv m paused exec read s c =
      (case read (nat (readLength c)) of
         EFail \<Rightarrow> Some ([], s, c0\<lparr>c_freed := True\<rparr>)
       | EAgain \<Rightarrow> Some ([], s, c0)
       | Nread xs \<Rightarrow> if xs = [] then Some ([], s, c0\<lparr>c_freed := True\<rparr>) else readQueryFromClient sv m paused exec read s c)"
  proof (intro exI conjI)
    show "sds_rep q x" by fact
    show "received q c (c1\<lparr>c_querybuf := q\<rparr>)" by (simp add: received_def c1_def)
  qed (use e r in \<open>auto split: read_result.splits\<close>)
  assume xs: "read (nat (readLength c)) = Nread xs" "xs \<noteq> []" "length xs \<le> nat (readLength c)"
  obtain buf q2 where b: "mem_write (length x) xs (sh_buf q) = Some buf" "sdsIncrLen (q\<lparr>sh_buf := buf\<rparr>) (int (length xs)) = Some q2" "sds_rep q2 (x @ xs)"
    using put [OF xs(2,3)] by (elim exE conjE)
  have len2: "sdslen q2 = length x + length xs" using sds_rep_len [OF b(3)] by (simp add: sdslen_def)
  define c2 where "c2 = c1\<lparr>c_querybuf := q2, c_lastinteraction := sv_unixtime sv,
     c_reploff := (if has_flag REDIS_MASTER c1 then c_reploff c1 + int (length xs) else c_reploff c1),
     c_stat_net_input_bytes := c_stat_net_input_bytes c1 + length xs\<rparr>"
  show "\<exists>q c'. sds_rep q (x @ xs) \<and> received q c c' \<and>
      readQueryFromClient sv m paused exec read s c =
        (if length x + length xs > m then Some ([], s, c'\<lparr>c_freed := True\<rparr>) else processInputBuffer sv paused exec [] s c')"
  proof (intro exI conjI)
    show "sds_rep q2 (x @ xs)" by fact
    show "received q2 c c2" by (simp add: received_def c2_def c1_def)
    show "readQueryFromClient sv m paused exec read s c =
        (if length x + length xs > m then Some ([], s, c2\<lparr>c_freed := True\<rparr>) else processInputBuffer sv paused exec [] s c2)"
      using e r xs b(1,2) len2 by (simp add: c2_def has_flag_def)
  qed
qed



definition read_ok :: "(nat \<Rightarrow> read_result) \<Rightarrow> bool" where
  "read_ok read \<longleftrightarrow> (\<forall>k. case read k of Nread xs \<Rightarrow> length xs \<le> k | _ \<Rightarrow> True)"

lemma input_ok_readLength: "input_ok c x \<Longrightarrow> sds_rep (c_querybuf c) x \<Longrightarrow> 0 \<le> readLength c"
  using sds_rep_len [of "c_querybuf c" x]
  by (auto simp: input_ok_def readLength_def Let_def idle_def sdslen_def REDIS_MBULK_BIG_ARG_def REDIS_REQ_MULTIBULK_def REDIS_REQ_INLINE_def)

lemma input_ok_cong:
  assumes "input_ok c x" "c_reqtype c' = c_reqtype c" "c_argv c' = c_argv c" "c_argv_size c' = c_argv_size c"
    "c_multibulklen c' = c_multibulklen c" "c_bulklen c' = c_bulklen c" "has_flag REDIS_CLOSE_AFTER_REPLY c' = has_flag REDIS_CLOSE_AFTER_REPLY c"
    and "sds_rep (c_querybuf c) x" "int (length xs) \<le> readLength c"
  shows "input_ok c' (x @ xs)"
  using assms sds_rep_len [of "c_querybuf c" x]
  by (auto simp: input_ok_def idle_def counting_def bulk_ok_def readLength_def Let_def sdslen_def REDIS_MBULK_BIG_ARG_def split: if_splits)

lemma readQueryFromClient_safe:
  assumes c: "client_ok sv n c" and ex: "executor_ok sv exec" and r: "read_ok read" and n: "n \<le> 2 ^ 30"
  shows "\<exists>log s' c'. readQueryFromClient sv n paused exec read s c = Some (log, s', c') \<and> (c_freed c' \<or> client_ok sv n c')"
proof -
  obtain x where x: "consistent sv c" "sds_rep (c_querybuf c) x" "length x \<le> n" "input_ok c x" using c by (auto simp: client_ok_def)
  have k: "0 \<le> readLength c" by (rule input_ok_readLength [OF x(4,2)])
  have len: "length x \<le> 2 ^ 30" using x(3) n by simp
  from readQueryFromClient_cases(1) [OF x(2) len k, of sv n paused exec read s] obtain q c0 where
    q: "sds_rep q x" "received q c c0" "readQueryFromClient sv n paused exec read s c =
      (case read (nat (readLength c)) of
         EFail \<Rightarrow> Some ([], s, c0\<lparr>c_freed := True\<rparr>)
       | EAgain \<Rightarrow> Some ([], s, c0)
       | Nread xs \<Rightarrow> if xs = [] then Some ([], s, c0\<lparr>c_freed := True\<rparr>) else readQueryFromClient sv n paused exec read s c)"
    by (elim exE conjE)
  note f = received_fields [OF q(2)]
  have "input_ok c0 (x @ [])" by (rule input_ok_cong [OF x(4) f(2-4,6-8) x(2)]) (use k in simp)
  then have ok0: "client_ok sv n c0" using x f(1,10) q(1) by (auto simp: client_ok_def)
  show ?thesis
  proof (cases "read (nat (readLength c))")
    case (Nread xs)
    show ?thesis
    proof (cases "xs = []")
      case False
      have xs: "length xs \<le> nat (readLength c)" using r Nread by (auto simp: read_ok_def split: read_result.splits dest: spec [of _ "nat (readLength c)"])
      from readQueryFromClient_cases(2) [where read = read, OF x(2) len k Nread False xs, of sv n paused exec s] obtain q2 c2 where
        q2: "sds_rep q2 (x @ xs)" "received q2 c c2" "readQueryFromClient sv n paused exec read s c =
          (if length x + length xs > n then Some ([], s, c2\<lparr>c_freed := True\<rparr>) else processInputBuffer sv paused exec [] s c2)"
        by (elim exE conjE)
      note g = received_fields [OF q2(2)]
      have i: "input_ok c2 (x @ xs)" by (rule input_ok_cong [OF x(4) g(2-4,6-8) x(2)]) (use k xs in simp)
      show ?thesis
      proof (cases "length x + length xs > n")
        case False
        have "\<exists>log' s' c'. processInputBuffer sv paused exec [] s c2 = Some (log', s', c') \<and> client_ok sv n c' \<and> c_freed c' = c_freed c2"
          by (rule processInputBuffer_safe [OF ex, of n c2 "x @ xs"]) (use n x(1) g(1,10) q2(1) False i in simp_all)
        then show ?thesis using q2(3) False by auto
      qed (use q2(3) in simp)
    qed (use q(3) Nread in simp)
  qed (use q(3) ok0 in simp_all)
qed

text \<open>The calls of the read handler for one client, one \<open>read\<close> each, until it is freed.\<close>

fun readEvents :: "server_env \<Rightarrow> nat \<Rightarrow> 's pause \<Rightarrow> 's executor \<Rightarrow> (nat \<Rightarrow> read_result) list \<Rightarrow> 's \<Rightarrow> redisClient \<Rightarrow>
    (bytes list list \<times> 's \<times> redisClient) option" where
  "readEvents sv n paused exec [] s c = Some ([], s, c)"
| "readEvents sv n paused exec (r # rs) s c =
     (if c_freed c then Some ([], s, c)
      else do {
        (log, s, c) \<leftarrow> readQueryFromClient sv n paused exec r s c;
        (log', s, c) \<leftarrow> readEvents sv n paused exec rs s c;
        Some (log @ log', s, c) })"

lemma readEvents_safe:
  assumes ex: "executor_ok sv exec" and n: "n \<le> 2 ^ 30"
  shows "c_freed c \<or> client_ok sv n c \<Longrightarrow> list_all read_ok rs \<Longrightarrow>
    \<exists>log s' c'. readEvents sv n paused exec rs s c = Some (log, s', c') \<and> (c_freed c' \<or> client_ok sv n c')"
proof (induction rs arbitrary: s c)
  case (Cons r rs)
  show ?case
  proof (cases "c_freed c")
    case False
    then have ok: "client_ok sv n c" and r: "read_ok r" using Cons.prems by auto
    from readQueryFromClient_safe [OF ok ex r n, of paused s] obtain l1 s1 c1 where
      1: "readQueryFromClient sv n paused exec r s c = Some (l1, s1, c1)" "c_freed c1 \<or> client_ok sv n c1" by (elim exE conjE)
    from Cons.IH [OF 1(2), of s1] Cons.prems(2) obtain l2 s2 c2 where
      2: "readEvents sv n paused exec rs s1 c1 = Some (l2, s2, c2)" "c_freed c2 \<or> client_ok sv n c2" by auto
    then show ?thesis using 1(1) False by simp
  qed simp
qed simp

lemma createClient_input: "createClient sv fd = Some c \<Longrightarrow> client_ok sv n c \<and> \<not> c_freed c"
proof -
  assume c: "createClient sv fd = Some c"
  then have "reply_inv sv (\<lambda>_. 0) c" using createClient_ok [of sv fd] by auto
  moreover obtain q where "sdsempty (sv_fresh sv) = Some q" "sds_rep q []" using sdsempty_ok by blast
  ultimately show ?thesis using c by (auto simp: createClient_def client_ok_def consistent_def input_ok_def idle_def intro!: exI [of _ "[]"])
qed



section \<open>Properties\<close>

text \<open>Property C9.  The input side of a client is well formed whatever is sent to it: from
  its creation on, for any bytes in any portions, any errors of the socket, any pauses and
  any executor that keeps its contract, the read handler returns, no assertion of the
  parser fails and no access is outside the query buffer or the argument vector; the
  client is freed, or the parser is in one of its states: closing, between requests, or
  inside a request with room for the missing arguments and a bulk length within its
  bounds.\<close>

theorem readEvents_wellformed:
  assumes "createClient sv fd = Some c" "executor_ok sv processCommand" "list_all read_ok reads" "client_max_querybuf_len \<le> 2 ^ 30"
  shows "\<exists>log s' c'. readEvents sv client_max_querybuf_len clientsArePaused processCommand reads s c = Some (log, s', c') \<and>
    (c_freed c' \<or> client_ok sv client_max_querybuf_len c')"
  by (rule readEvents_safe [OF assms(2,4) _ assms(3)]) (use createClient_input [OF assms(1)] in simp)

lemma executor_ok_skip: "executor_ok sv (\<lambda>s c. Some (True, s, c))"
  by (auto simp: executor_ok_def)

lemma read_ok_take: "read_ok (\<lambda>k. Nread (take k xs))" "read_ok (\<lambda>k. EFail)"
  by (simp_all add: read_ok_def)

theorem readEvents_wellformed_witness:
  "\<exists>c log s' c'. createClient sv_ex 5 = Some c \<and>
    readEvents sv_ex (2 ^ 30) (\<lambda>s. (False, s)) (\<lambda>s c. Some (True, s, c)) [\<lambda>k. Nread (take k (lit ''*1'' @ CRLF @ lit ''x'' @ CRLF)), \<lambda>k. EFail] () c =
      Some (log, s', c') \<and> (c_freed c' \<or> client_ok sv_ex (2 ^ 30) c')"
proof -
  obtain c where c: "createClient sv_ex 5 = Some c" using createClient_ok [of sv_ex 5] by (elim exE conjE)
  have "list_all read_ok [\<lambda>k. Nread (take k (lit ''*1'' @ CRLF @ lit ''x'' @ CRLF)), \<lambda>k. EFail]"
    by (simp only: list.pred_inject read_ok_take simp_thms)
  from readEvents_wellformed [OF c executor_ok_skip this order_refl, of "\<lambda>s. (False, s)" "()"] show ?thesis using c by blast
qed

text \<open>Property C29.  An inline request is the line in front of the first newline, split like
  a shell line, without its empty arguments.  The code then drops two bytes after the
  line: after a carriage return and a newline the next request follows, but after a
  single newline, which is accepted as the end of a line too, the first byte of the next
  request is lost.\<close>

theorem processInlineBuffer_drops_two:
  assumes "sds_rep (c_querybuf c) (l @ e @ r)" "line_end l e" "length l < 2 ^ 31" "sdssplitargs l = Some argv"
  shows "\<exists>c'. processInlineBuffer sv c = Some (True, c') \<and> c_argv c' = filter (\<lambda>a. a \<noteq> []) argv \<and>
    sds_text (c_querybuf c') = (if e = [13, 10] then r else tl r)"
proof -
  from processInlineBuffer_line [OF assms(1-3), of sv] obtain q where
    q: "sds_rep q (drop (length l + 2) (l @ e @ r))" "processInlineBuffer sv c = Some (True, inline_read sv l argv q c)"
    using assms(4) by auto
  have "drop (length l + 2) (l @ e @ r) = (if e = [13, 10] then r else tl r)"
    using assms(2) by (auto simp: line_end_def numeral_2_eq_2 drop_Suc)
  then show ?thesis using q sds_rep_text [OF q(1)] by (simp add: inline_read_fields)
qed

text \<open>The second \<open>a\<close> of the lines \<open>a\<close> and \<open>a\<close>, each ended by a newline, is lost.\<close>

theorem processInlineBuffer_drops_two_witness:
  "\<exists>c q c'. createClient sv_ex 5 = Some c \<and> processInlineBuffer sv_ex (c\<lparr>c_querybuf := q\<rparr>) = Some (True, c') \<and>
     sds_text q = [97, 10, 97, 10] \<and> c_argv c' = [[97]] \<and> sds_text (c_querybuf c') = [10]"
proof -
  obtain c where c: "createClient sv_ex 5 = Some c" using createClient_ok [of sv_ex 5] by (elim exE conjE)
  define q where "q = \<lparr>sh_len = 4, sh_free = 0, sh_buf = [97, 10, 97, 10, 0 :: byte]\<rparr>"
  have q: "sds_rep q ([97] @ [10] @ [97, 10])" by (simp add: sds_rep_def q_def)
  have "splitargsLoop [97] [] = Some [[97]]" by (subst splitargsLoop.simps, simp add: isspace_def, subst splitargsLoop.simps) simp
  then have s: "sdssplitargs [97] = Some [[97]]" by (simp add: sdssplitargs_def c_str_def)
  have "\<exists>c'. processInlineBuffer sv_ex (c\<lparr>c_querybuf := q\<rparr>) = Some (True, c') \<and> c_argv c' = filter (\<lambda>a. a \<noteq> []) [[97]] \<and>
      sds_text (c_querybuf c') = (if [10] = [13, 10 :: byte] then [97, 10] else tl [97, 10])"
    by (rule processInlineBuffer_drops_two [OF _ _ _ s]) (use q in \<open>simp_all add: line_end_def\<close>)
  then obtain c' where c': "processInlineBuffer sv_ex (c\<lparr>c_querybuf := q\<rparr>) = Some (True, c')" "c_argv c' = [[97]]" "sds_text (c_querybuf c') = [10]"
    by auto
  have "sds_text q = [97, 10, 97, 10]" by (simp add: q_def sds_text_def)
  then show ?thesis using c c' by blast
qed

text \<open>Property C32.  A client that is paused while the last bytes of a big argument arrive is
  closed by the next call of the read handler, whatever the socket holds: nothing remains
  to be read of the argument, the handler calls \<open>read\<close> with length zero and takes the
  result zero for the end of the stream.\<close>

theorem paused_big_argument_closed:
  assumes c: "client_ok sv n c" "\<not> c_freed c" "c_reqtype c = REDIS_REQ_MULTIBULK" "0 < c_multibulklen c"
      "int REDIS_MBULK_BIG_ARG \<le> c_bulklen c" "\<not> has_flag REDIS_SLAVE c"
    and xs: "xs \<noteq> []" "length xs \<le> REDIS_IOBUF_LEN" "int (sdslen (c_querybuf c) + length xs) = c_bulklen c + 2"
    and n: "sdslen (c_querybuf c) + length xs \<le> n" "n \<le> 2 ^ 30" and posix: "read 0 = Nread []"
  shows "\<exists>c'. readEvents sv n (\<lambda>s. (True, s)) processCommand [\<lambda>k. Nread (take k xs), read] s c = Some ([], s, c') \<and> c_freed c'"
proof -
  obtain x where x: "sds_rep (c_querybuf c) x" "input_ok c x" using c(1) by (auto simp: client_ok_def)
  have len: "sdslen (c_querybuf c) = length x" using sds_rep_len [OF x(1)] by (simp add: sdslen_def)
  have l30: "length x \<le> 2 ^ 30" using n len by simp
  have k: "readLength c = int (length xs)"
    using c(3-5) xs(2,3) by (auto simp: readLength_def Let_def REDIS_MBULK_BIG_ARG_def)
  have "\<exists>q c'. sds_rep q (x @ xs) \<and> received q c c' \<and>
      readQueryFromClient sv n (\<lambda>s. (True, s)) processCommand (\<lambda>k. Nread (take k xs)) s c =
        (if length x + length xs > n then Some ([], s, c'\<lparr>c_freed := True\<rparr>)
         else processInputBuffer sv (\<lambda>s. (True, s)) processCommand [] s c')"
    by (rule readQueryFromClient_cases(2) [OF x(1) l30]) (use k xs(1) in simp_all)
  then obtain q c1 where q: "sds_rep q (x @ xs)" "received q c c1"
      "readQueryFromClient sv n (\<lambda>s. (True, s)) processCommand (\<lambda>k. Nread (take k xs)) s c =
        processInputBuffer sv (\<lambda>s. (True, s)) processCommand [] s c1" using n(1) len by auto
  note f = received_fields [OF q(2)]
  have len1: "sdslen (c_querybuf c1) = length x + length xs" using sds_rep_len [OF q(1)] f(1) by (simp add: sdslen_def)
  have p: "processInputBuffer sv (\<lambda>s. (True, s)) processCommand [] s c1 = Some ([], s, c1)"
    using c(6) f(8) [of REDIS_SLAVE] len1 xs(1) by (subst processInputBuffer.simps) simp
  have k1: "readLength c1 = 0"
    using c(3-5) f(2,6,7) xs(3) len len1 by (simp add: readLength_def Let_def REDIS_MBULK_BIG_ARG_def)
  have r1: "sds_rep (c_querybuf c1) (x @ xs)" using q(1) f(1) by simp
  have l1: "length (x @ xs) \<le> 2 ^ 30" using n len by simp
  from readQueryFromClient_cases(1) [OF r1 l1, of sv n "\<lambda>s. (True, s)" processCommand read s] k1 posix
  obtain c2 where "readQueryFromClient sv n (\<lambda>s. (True, s)) processCommand read s c1 = Some ([], s, c2\<lparr>c_freed := True\<rparr>)" by auto
  then show ?thesis using q(3) p c(2) f(9) by simp
qed

theorem paused_big_argument_closed_witness:
  "\<exists>c c'. readEvents sv_ex (2 ^ 20) (\<lambda>s. (True, s)) (\<lambda>s c. Some (True, s, c))
      [\<lambda>k. Nread (take k CRLF), \<lambda>k. Nread (take k [42])] () c = Some ([], (), c') \<and> \<not> c_freed c \<and> c_freed c'"
proof -
  obtain c0 where c0: "createClient sv_ex 5 = Some c0" "reply_inv sv_ex (\<lambda>_. 0) c0" "c_flags c0 = 0"
    using createClient_ok [of sv_ex 5] by (elim exE conjE)
  define q where "q = \<lparr>sh_len = 32768, sh_free = 0, sh_buf = replicate 32768 0 @ [0 :: byte]\<rparr>"
  have q: "sds_rep q (replicate 32768 0)" by (simp add: sds_rep_def q_def)
  define c where "c = c0\<lparr>c_querybuf := q, c_reqtype := 2, c_argv := [], c_multibulklen := 1, c_argv_size := 1, c_bulklen := 32768\<rparr>"
  have f: "\<not> c_freed c" using createClient_input [OF c0(1)] by (simp add: c_def)
  have "consistent sv_ex c" using c0(2) consistent_cong [of c c0 sv_ex] by (auto simp: c_def consistent_def)
  moreover have "input_ok c (replicate 32768 0)"
    by (simp add: input_ok_def c_def counting_def bulk_ok_def REDIS_REQ_MULTIBULK_def REDIS_MBULK_BIG_ARG_def MAX_BULK_def)
  ultimately have ok: "client_ok sv_ex (2 ^ 20) c" using q unfolding client_ok_def by (auto simp: c_def intro!: exI [of _ "replicate 32768 0"])
  have "\<exists>c'. readEvents sv_ex (2 ^ 20) (\<lambda>s. (True, s)) (\<lambda>s c. Some (True, s, c)) [\<lambda>k. Nread (take k CRLF), \<lambda>k. Nread (take k [42])] () c =
      Some ([], (), c') \<and> c_freed c'"
    by (rule paused_big_argument_closed [OF ok f])
      (use c0(3) in \<open>simp_all add: c_def q_def has_flag_def sdslen_def REDIS_REQ_MULTIBULK_def REDIS_MBULK_BIG_ARG_def REDIS_IOBUF_LEN_def CRLF_def\<close>)
  then show ?thesis using f by blast
qed

end
