(* ===== verification/NetworkStream.thy ===== *)
theory NetworkStream
  imports Network
begin

unbundle bit_operations_syntax

text \<open>
  The multi bulk protocol as a stream of bytes: however the requests of a client are cut
  into portions, the read handler executes exactly these requests, in order.
\<close>

section \<open>The protocol\<close>

definition bulks :: "bytes list \<Rightarrow> bytes" where
  "bulks args = concat (map bulk args)"

definition request :: "bytes list \<Rightarrow> bytes" where
  "request args = 42 # dec (length args) @ CRLF @ bulks args"

definition requests :: "bytes list list \<Rightarrow> bytes" where
  "requests cmds = concat (map request cmds)"

definition command_ok :: "bytes list \<Rightarrow> bool" where
  "command_ok args \<longleftrightarrow> args \<noteq> [] \<and> length args \<le> 1024 * 1024 \<and> list_all (\<lambda>a. length a \<le> MAX_BULK) args"

lemma bulks_simps: "bulks [] = []" "bulks (a # as) = 36 # dec (length a) @ 13 # 10 # a @ 13 # 10 # bulks as"
  by (simp_all add: bulks_def bulk_def CRLF_def)

lemma requests_simps: "requests [] = []" "requests (args # cmds) = 42 # dec (length args) @ 13 # 10 # bulks args @ requests cmds"
  by (simp_all add: requests_def request_def CRLF_def)

lemma string2ll_dec: "n < 2 ^ 63 \<Longrightarrow> string2ll (dec n) = Some (word_of_nat n)"
proof (cases "n = 0")
  case True
  then show ?thesis by (simp add: dec_small string2ll_def)
next
  case False
  assume "n < 2 ^ 63"
  then show ?thesis using string2ll_print [of "word_of_nat n"] print_ll_of_nat(1) [of n] False by simp
qed

lemma sint_small: "n < 2 ^ 63 \<Longrightarrow> sint (word_of_nat n :: i64) = int n"
  using sint_of_nat_small [of n, where 'a = 64] by simp

lemma dec_clean: "13 \<notin> set (dec n)" "0 \<notin> set (dec n)"
  using dec_digits [of n] by (auto dest: bspec)

text \<open>A line \<open>h\<close> of the protocol that has not arrived completely.\<close>

lemma line_prefix:
  assumes e: "y @ f = h @ 13 # 10 # r" and h: "13 \<notin> set h" "0 \<notin> set h"
  obtains z where "y = h @ 13 # 10 # z" "z @ f = r"
    | "length y < length h + 2" "find_byte 13 y = None"
    | "length y < length h + 2" "find_byte 13 y = Some (length y - 1)" "y \<noteq> []"
proof -
  have "y @ f = (h @ [13, 10]) @ r" using e by simp
  then consider z where "y = (h @ [13, 10]) @ z" "z @ f = r" | u where "y @ u = h @ [13, 10]" "f = u @ r"
    unfolding append_eq_append_conv2 [of y f "h @ [13, 10]" r] by blast
  then show ?thesis
  proof cases
    case 2
    show ?thesis
    proof (cases u rule: rev_cases)
      case Nil
      then show ?thesis using 2 that(1) [of "[]"] by simp
    next
      case (snoc v b)
      then have "(y @ v) @ [b] = (h @ [13]) @ [10]" using 2(1) by simp
      then have v: "y @ v = h @ [13]" by (simp only: append1_eq_conv)
      show ?thesis
      proof (cases v rule: rev_cases)
        case Nil
        then have y: "y = h @ [13]" using v by simp
        then have "find_byte 13 y = Some (length h)" using find_byte_hit [of 13 h "[]"] h by simp
        then show ?thesis using that(3) y by simp
      next
        case (snoc w c)
        then have "(y @ w) @ [c] = h @ [13]" using v by simp
        then have "y @ w = h" by (simp only: append1_eq_conv)
        then have "13 \<notin> set y" "length y < length h + 2" using h by auto
        then show ?thesis using find_byte_miss [of 13 y] by (intro that(2)) simp_all
      qed
    qed
  qed (use that(1) in simp)
qed

section \<open>One bulk\<close>

text \<open>
  The stream that is left of a request: \<open>todo\<close> are its arguments that are not read yet, \<open>r\<close>
  is the text of the following requests.
\<close>

definition stream :: "redisClient \<Rightarrow> bytes list \<Rightarrow> bytes \<Rightarrow> bytes" where
  "stream c todo r = (if c_bulklen c = - 1 then bulks todo @ r else hd todo @ 13 # 10 # bulks (tl todo) @ r)"

definition known :: "redisClient \<Rightarrow> bytes list \<Rightarrow> bool" where
  "known c todo \<longleftrightarrow> c_bulklen c = - 1 \<or> c_bulklen c = int (length (hd todo))"

text \<open>The parser has used what it got: the next line or the next argument is not complete.\<close>

definition no_line :: "bytes \<Rightarrow> bool" where
  "no_line y \<longleftrightarrow> find_byte 13 y = None \<or> find_byte 13 y = Some (length y - 1) \<and> y \<noteq> []"

definition starving :: "nat \<Rightarrow> redisClient \<Rightarrow> bytes \<Rightarrow> bool" where
  "starving p c y \<longleftrightarrow>
     (if c_bulklen c = - 1 then length y < REDIS_MBULK_BIG_ARG \<and> no_line y
      else int (length y) < c_bulklen c + 2 \<and> (int REDIS_MBULK_BIG_ARG \<le> c_bulklen c \<longrightarrow> p = 0))"

lemma dec_short: "n < 10 ^ 10 \<Longrightarrow> length (dec n) < 11"
  using length_dec_le [of n 9] by simp

lemma bulkLength_starve:
  assumes u: "unread pos c y" and b: "c_bulklen c = - 1" and t: "pos + length y \<le> REDIS_INLINE_MAX_SIZE"
    and f: "no_line y"
  shows "bulkLength sv pos c = Some (Break pos c)"
  using f unfolding no_line_def
proof (elim disjE conjE)
  assume "find_byte 13 y = None"
  then show ?thesis using strchr_unread [OF u, of 13] b t unread_len [OF u] by (simp add: bulkLength_def Let_def)
next
  assume h: "find_byte 13 y = Some (length y - 1)" "y \<noteq> []"
  then have "int (pos + (length y - 1)) > int (pos + length y) - 2" by (cases y) simp_all
  then show ?thesis using h(1) strchr_unread [OF u, of 13] b unread_len [OF u] by (simp add: bulkLength_def Let_def)
qed

text \<open>The header of the next argument: complete, or the parser waits for it.\<close>

lemma bulkLength_stream:
  assumes u: "unread pos c y" and b: "c_bulklen c = - 1" and t: "pos + length y \<le> REDIS_INLINE_MAX_SIZE"
    and e: "y @ f = bulks (a # as) @ r" and a: "length a \<le> MAX_BULK"
  shows "bulkLength sv pos c = Some (Break pos c) \<and> length y < REDIS_MBULK_BIG_ARG \<and> no_line y \<or>
    (\<exists>p q z. bulkLength sv pos c = Some (Continue p (c\<lparr>c_querybuf := q, c_bulklen := int (length a)\<rparr>)) \<and>
      unread p (c\<lparr>c_querybuf := q, c_bulklen := int (length a)\<rparr>) z \<and> z @ f = a @ 13 # 10 # bulks as @ r \<and>
      p + length z \<le> pos + length y \<and> (REDIS_MBULK_BIG_ARG \<le> length a \<longrightarrow> p = 0))"
proof -
  have n: "length a < 2 ^ 63" using a by (simp add: MAX_BULK_def)
  have ll: "string2ll (dec (length a)) = Some (word_of_nat (length a))" "sint (word_of_nat (length a) :: i64) = int (length a)"
    using string2ll_dec [OF n] sint_small [OF n] by simp_all
  have h: "13 \<notin> set (36 # dec (length a))" "0 \<notin> set (36 # dec (length a))" using dec_clean by simp_all
  have e': "y @ f = (36 # dec (length a)) @ 13 # 10 # a @ 13 # 10 # bulks as @ r" using e by (simp add: bulks_simps)
  have short: "length (36 # dec (length a)) + 2 < REDIS_MBULK_BIG_ARG"
    using dec_short [of "length a"] a by (simp add: MAX_BULK_def REDIS_MBULK_BIG_ARG_def)
  consider z where "y = (36 # dec (length a)) @ 13 # 10 # z" "z @ f = a @ 13 # 10 # bulks as @ r"
    | "length y < REDIS_MBULK_BIG_ARG" "no_line y"
    by (rule line_prefix [OF e' h]) (use short in \<open>auto simp: no_line_def\<close>)
  then show ?thesis
  proof cases
    case 1
    have u': "unread pos c (36 # dec (length a) @ 13 # 10 # z)" using u 1(1) by simp
    show ?thesis
    proof (cases "length a < REDIS_MBULK_BIG_ARG")
      case True
      have s: "bulkLength sv pos c = Some (Continue (pos + length (dec (length a)) + 3) (c\<lparr>c_bulklen := int (length a)\<rparr>))"
          "unread (pos + length (dec (length a)) + 3) (c\<lparr>c_bulklen := int (length a)\<rparr>) z"
        using bulkLength_short [OF u' dec_clean b ll(1)] True ll(2) by simp_all
      have "c\<lparr>c_querybuf := c_querybuf c, c_bulklen := int (length a)\<rparr> = c\<lparr>c_bulklen := int (length a)\<rparr>" by simp
      then show ?thesis using s 1 True
        by (intro disjI2 exI [of _ "pos + length (dec (length a)) + 3"] exI [of _ "c_querybuf c"] exI [of _ z]) simp
    next
      case False
      then have "\<exists>q. bulkLength sv pos c = Some (Continue 0 (c\<lparr>c_querybuf := q, c_bulklen := sint (word_of_nat (length a) :: i64)\<rparr>)) \<and> sds_rep q z"
        by (intro bulkLength_big [OF u' dec_clean b ll(1)]) (use a ll(2) in simp_all)
      then obtain q where q: "bulkLength sv pos c = Some (Continue 0 (c\<lparr>c_querybuf := q, c_bulklen := int (length a)\<rparr>))" "sds_rep q z"
        unfolding ll(2) by (elim exE conjE)
      then show ?thesis using 1
        by (intro disjI2 exI [of _ 0] exI [of _ q] exI [of _ z]) (simp add: unread_rep)
    qed
  next
    case 2
    then show ?thesis using bulkLength_starve [OF u b t 2(2)] 2(2) by simp
  qed
qed



text \<open>What the parser changes of a client.\<close>

definition progress :: "redisClient \<Rightarrow> redisClient \<Rightarrow> bool" where
  "progress c c' \<longleftrightarrow> c' = c\<lparr>c_querybuf := c_querybuf c', c_argv := c_argv c', c_argv_size := c_argv_size c', c_reqtype := c_reqtype c',
     c_multibulklen := c_multibulklen c', c_bulklen := c_bulklen c'\<rparr>"

lemma progress_fields:
  assumes "progress c c'"
  shows "has_flag k c' = has_flag k c" "c_freed c' = c_freed c" "consistent sv c' = consistent sv c"
proof -
  show "consistent sv c' = consistent sv c"
    by (rule consistent_cong; subst assms [unfolded progress_def]; simp)
qed (subst assms [unfolded progress_def]; simp add: has_flag_def)+

lemma progress_refl: "progress c c"
  by (simp add: progress_def)

lemma progress_trans: "progress c d \<Longrightarrow> progress d e \<Longrightarrow> progress c e"
  unfolding progress_def by (cases c; cases d; cases e) simp

text \<open>The next \<open>a\<close> is known to come, and it is complete or the parser waits.\<close>

lemma bulkArgument_stream:
  assumes u: "unread pos c y" and b: "c_bulklen c = int (length a)" "length a \<le> MAX_BULK" and e: "y @ f = a @ 13 # 10 # r"
    and room: "length (c_argv c) < c_argv_size c"
  shows "bulkArgument sv pos c = Some (Break pos c) \<and> length y < length a + 2 \<or>
    (\<exists>p q z. bulkArgument sv pos c = Some (Continue p (taken a q c)) \<and> unread p (taken a q c) z \<and> z @ f = r \<and>
      p + length z \<le> pos + length y \<and> (pos = 0 \<and> REDIS_MBULK_BIG_ARG \<le> length a \<and> length y \<le> length a + 2 \<longrightarrow> p + length z = 0))"
proof (cases "length y < length a + 2")
  case True
  then show ?thesis using bulkArgument_wait [OF u, of sv] b(1) by simp
next
  case False
  define z where "z = drop (length a + 2) y"
  have e': "y @ f = (a @ [13, 10]) @ r" using e by simp
  have "take (length a + 2) y = a @ [13, 10]" using arg_cong [OF e', of "take (length a + 2)"] False by simp
  then have zy: "y = (a @ [13, 10]) @ z" using append_take_drop_id [of "length a + 2" y] by (simp add: z_def)
  have "z @ f = r" using arg_cong [OF e', of "drop (length a + 2)"] False by (simp add: z_def)
  note z = zy this
  have u': "unread pos c (a @ 13 # 10 # z)" using u z(1) by simp
  have "length a = nat (c_bulklen c)" using b(1) by simp
  from bulkArgument_take [OF u' this b(2) room, of sv] obtain p q where
    p: "bulkArgument sv pos c = Some (Continue p (taken a q c))" "unread p (taken a q c) z" "p + length z \<le> pos + length (a @ 13 # 10 # z)"
      "pos = 0 \<and> REDIS_MBULK_BIG_ARG \<le> length a \<and> z = [] \<longrightarrow> p = 0" by (elim exE conjE)
  then show ?thesis using z by (intro disjI2 exI [of _ p] exI [of _ q] exI [of _ z]) auto
qed

text \<open>
  The part of the query buffer up to \<open>y\<close> is small, or it holds at most the big argument that
  the parser is waiting for.
\<close>

definition small :: "nat \<Rightarrow> redisClient \<Rightarrow> bytes \<Rightarrow> bool" where
  "small pos c y \<longleftrightarrow> pos + length y \<le> REDIS_INLINE_MAX_SIZE \<or>
     pos = 0 \<and> int REDIS_MBULK_BIG_ARG \<le> c_bulklen c \<and> int (length y) \<le> c_bulklen c + 2"

definition halted :: "redisClient \<Rightarrow> bytes list \<Rightarrow> bytes \<Rightarrow> bytes \<Rightarrow> nat \<Rightarrow> redisClient \<Rightarrow> bool" where
  "halted c todo f r p d \<longleftrightarrow> progress c d \<and> c_argv_size d = c_argv_size c \<and> c_reqtype d = c_reqtype c \<and>
     length todo = c_multibulklen d \<and> todo \<noteq> [] \<and> known d todo \<and>
     (\<exists>z. unread p d z \<and> z @ f = stream d todo r \<and> starving p d z)"

definition advanced :: "redisClient \<Rightarrow> bytes list \<Rightarrow> bytes \<Rightarrow> bytes \<Rightarrow> nat \<Rightarrow> redisClient \<Rightarrow> bool" where
  "advanced c todo f r p d \<longleftrightarrow> progress c d \<and> c_argv_size d = c_argv_size c \<and> c_reqtype d = c_reqtype c \<and>
     length todo = c_multibulklen d \<and> c_bulklen d = - 1 \<and>
     (\<exists>z. unread p d z \<and> z @ f = bulks todo @ r \<and> p + length z \<le> REDIS_INLINE_MAX_SIZE)"

text \<open>One round of the loop, when the length of the argument is known.\<close>

lemma argument_round:
  assumes u: "unread pos c y" and b: "c_bulklen c = int (length a)" "length a \<le> MAX_BULK" and e: "y @ f = a @ 13 # 10 # bulks as @ r"
    and n: "c_multibulklen c = Suc (length as)" "length (c_argv c) < c_argv_size c"
    and big: "REDIS_MBULK_BIG_ARG \<le> length a \<longrightarrow> pos = 0" and s: "small pos c y"
  shows "bulkArgument sv pos c = Some (Break pos c) \<and> halted c (a # as) f r pos c \<or>
    (\<exists>p d. bulkArgument sv pos c = Some (Continue p d) \<and> advanced c as f r p d \<and> c_argv d = c_argv c @ [a])"
  using bulkArgument_stream [OF u b e n(2), of sv]
proof (elim disjE exE conjE)
  assume h: "bulkArgument sv pos c = Some (Break pos c)" "length y < length a + 2"
  have "y @ f = stream c (a # as) r" using e b(1) by (simp add: stream_def)
  then have "halted c (a # as) f r pos c" using u n(1) b(1) big h(2) progress_refl
    unfolding halted_def known_def starving_def by auto
  then show ?thesis using h(1) by blast
next
  fix p q z
  assume h: "bulkArgument sv pos c = Some (Continue p (taken a q c))" "unread p (taken a q c) z" "z @ f = bulks as @ r"
    "p + length z \<le> pos + length y" "pos = 0 \<and> REDIS_MBULK_BIG_ARG \<le> length a \<and> length y \<le> length a + 2 \<longrightarrow> p + length z = 0"
  have "p + length z \<le> REDIS_INLINE_MAX_SIZE" using s h(4,5) b(1) unfolding small_def by auto
  moreover have "progress c (taken a q c)" by (simp add: progress_def taken_def)
  ultimately have "advanced c as f r p (taken a q c)" using h(2,3) n(1) unfolding advanced_def by (auto simp: taken_def)
  moreover have "c_argv (taken a q c) = c_argv c @ [a]" by (simp add: taken_def)
  ultimately show ?thesis using h(1) by blast
qed

lemma halted_trans:
  "halted d todo f r p d' \<Longrightarrow> progress c d \<Longrightarrow> c_argv_size d = c_argv_size c \<Longrightarrow> c_reqtype d = c_reqtype c \<Longrightarrow> halted c todo f r p d'"
  unfolding halted_def using progress_trans by auto

lemma advanced_trans:
  "advanced d todo f r p d' \<Longrightarrow> progress c d \<Longrightarrow> c_argv_size d = c_argv_size c \<Longrightarrow> c_reqtype d = c_reqtype c \<Longrightarrow> advanced c todo f r p d'"
  unfolding advanced_def using progress_trans by auto

lemma bulk_round:
  assumes u: "unread pos c y" and k: "known c (a # as)" and a: "length a \<le> MAX_BULK" and e: "y @ f = stream c (a # as) r"
    and n: "c_multibulklen c = Suc (length as)" "length (c_argv c) < c_argv_size c"
    and big: "int REDIS_MBULK_BIG_ARG \<le> c_bulklen c \<longrightarrow> pos = 0" and s: "small pos c y"
  shows "(\<exists>p d. bulk_step sv pos c = Some (Break p d) \<and> halted c (a # as) f r p d \<and> c_argv d = c_argv c) \<or>
    (\<exists>p d. bulk_step sv pos c = Some (Continue p d) \<and> advanced c as f r p d \<and> c_argv d = c_argv c @ [a])"
proof (cases "c_bulklen c = - 1")
  case False
  then have b: "c_bulklen c = int (length a)" using k by (simp add: known_def)
  have e': "y @ f = a @ 13 # 10 # bulks as @ r" using e False by (simp add: stream_def)
  have "bulkLength sv pos c = Some (Continue pos c)" using False by (simp add: bulkLength_def Let_def)
  then have st: "bulk_step sv pos c = bulkArgument sv pos c" by (simp add: bulk_step_def)
  have "REDIS_MBULK_BIG_ARG \<le> length a \<longrightarrow> pos = 0" using big b by simp
  from argument_round [OF u b a e' n this s, of sv] show ?thesis unfolding st by blast
next
  case True
  have e': "y @ f = bulks (a # as) @ r" using e True by (simp add: stream_def)
  have t: "pos + length y \<le> REDIS_INLINE_MAX_SIZE" using s True by (auto simp: small_def)
  from bulkLength_stream [OF u True t e' a, of sv] show ?thesis
  proof (elim disjE exE conjE)
    assume h: "bulkLength sv pos c = Some (Break pos c)" "length y < REDIS_MBULK_BIG_ARG" "no_line y"
    have "halted c (a # as) f r pos c" using u n(1) True e h(2,3) progress_refl k
      unfolding halted_def starving_def by auto
    moreover have "bulk_step sv pos c = Some (Break pos c)" using h(1) by (simp add: bulk_step_def)
    ultimately show ?thesis by blast
  next
    fix p q z
    let ?d = "c\<lparr>c_querybuf := q, c_bulklen := int (length a)\<rparr>"
    assume h: "bulkLength sv pos c = Some (Continue p ?d)" "unread p ?d z" "z @ f = a @ 13 # 10 # bulks as @ r"
      "p + length z \<le> pos + length y" "REDIS_MBULK_BIG_ARG \<le> length a \<longrightarrow> p = 0"
    have d: "progress c ?d" "c_argv_size ?d = c_argv_size c" "c_reqtype ?d = c_reqtype c" "c_argv ?d = c_argv c" by (simp_all add: progress_def)
    have st: "bulk_step sv pos c = bulkArgument sv p ?d" using h(1) by (simp add: bulk_step_def)
    have "small p ?d z" using h(4) t by (simp add: small_def)
    from argument_round [OF h(2) _ a h(3) _ _ h(5) this, of sv] n show ?thesis unfolding st
      using halted_trans [OF _ d(1-3)] advanced_trans [OF _ d(1-3)] d(4) by auto
  qed
qed



section \<open>One request\<close>

lemma multibulkLoop_stream:
  assumes "unread pos c y" "known c todo" "todo \<noteq> []" "list_all (\<lambda>a. length a \<le> MAX_BULK) todo" "y @ f = stream c todo r"
    "c_multibulklen c = length todo" "length (c_argv c) + length todo = c_argv_size c"
    "int REDIS_MBULK_BIG_ARG \<le> c_bulklen c \<longrightarrow> pos = 0" "small pos c y"
  shows "\<exists>p d. multibulkLoop sv pos c = Some (Break p d) \<and>
    ((\<exists>todo'. halted c todo' f r p d \<and> c_argv d @ todo' = c_argv c @ todo) \<or> advanced c [] f r p d \<and> c_argv d = c_argv c @ todo)"
  using assms
proof (induction todo arbitrary: pos c y)
  case (Cons a as)
  have n: "c_multibulklen c = Suc (length as)" "length (c_argv c) < c_argv_size c" and a: "length a \<le> MAX_BULK"
    using Cons.prems(4,6,7) by auto
  have nz: "c_multibulklen c \<noteq> 0" using n(1) by simp
  from bulk_round [OF Cons.prems(1,2) a Cons.prems(5) n Cons.prems(8,9), of sv] show ?case
  proof (elim disjE exE conjE)
    fix p d assume h: "bulk_step sv pos c = Some (Break p d)" "halted c (a # as) f r p d" "c_argv d = c_argv c"
    then have "multibulkLoop sv pos c = Some (Break p d)" using multibulkLoop_step [OF nz, of sv pos] by simp
    then show ?thesis using h(2,3) by auto
  next
    fix p d assume h: "bulk_step sv pos c = Some (Continue p d)" "advanced c as f r p d" "c_argv d = c_argv c @ [a]"
    then have st: "multibulkLoop sv pos c = multibulkLoop sv p d" using multibulkLoop_step [OF nz, of sv pos] by simp
    show ?thesis
    proof (cases "as = []")
      case True
      then have "multibulkLoop sv pos c = Some (Break p d)" using st h(2) multibulkLoop_0 [of d sv p] by (simp add: advanced_def)
      then show ?thesis using h(2,3) True by auto
    next
      case False
      from h(2) obtain z where d: "progress c d" "c_argv_size d = c_argv_size c" "c_reqtype d = c_reqtype c"
          "length as = c_multibulklen d" "c_bulklen d = - 1" "unread p d z" "z @ f = bulks as @ r" "p + length z \<le> REDIS_INLINE_MAX_SIZE"
        unfolding advanced_def by (elim exE conjE)
      have "\<exists>p' d'. multibulkLoop sv p d = Some (Break p' d') \<and>
          ((\<exists>todo'. halted d todo' f r p' d' \<and> c_argv d' @ todo' = c_argv d @ as) \<or> advanced d [] f r p' d' \<and> c_argv d' = c_argv d @ as)"
        by (rule Cons.IH [OF d(6)])
          (use d False Cons.prems(4,7) h(3) in \<open>simp_all add: known_def stream_def small_def REDIS_MBULK_BIG_ARG_def\<close>)
      then show ?thesis unfolding st using halted_trans [OF _ d(1-3)] advanced_trans [OF _ d(1-3)] h(3) by auto
    qed
  qed
qed simp

text \<open>A client in the middle of the request \<open>args\<close>, whose last arguments \<open>todo\<close> are still to come.\<close>

definition mid :: "redisClient \<Rightarrow> bytes list \<Rightarrow> bytes list \<Rightarrow> bool" where
  "mid c args todo \<longleftrightarrow> counting c \<and> c_argv c @ todo = args \<and> length todo = c_multibulklen c \<and> todo \<noteq> [] \<and> known c todo"

text \<open>The result of parsing the request \<open>args\<close> in front of \<open>r\<close>.\<close>

definition request_read :: "redisClient \<Rightarrow> bytes list \<Rightarrow> bytes \<Rightarrow> bytes \<Rightarrow> bool \<Rightarrow> redisClient \<Rightarrow> bool" where
  "request_read c args f r ok c' \<longleftrightarrow> progress c c' \<and> (\<exists>z. sds_rep (c_querybuf c') z \<and>
     (if ok then c_argv c' = args \<and> c_multibulklen c' = 0 \<and> c_bulklen c' = - 1 \<and> z @ f = r \<and> length z \<le> REDIS_INLINE_MAX_SIZE
      else \<exists>todo. mid c' args todo \<and> z @ f = stream c' todo r \<and> starving 0 c' z))"

lemma loop_result_stream:
  assumes c: "counting c" and d: "(\<exists>todo'. halted c todo' f r p d \<and> c_argv d @ todo' = args) \<or> advanced c [] f r p d \<and> c_argv d = args"
    and len: "length args = c_argv_size c" and pr: "progress c0 c"
  shows "\<exists>ok c'. loop_result (Break p d) = Some (ok, c') \<and> request_read c0 args f r ok c'"
proof -
  have trim: "\<exists>q. (if p \<noteq> 0 then sdsrange (c_querybuf d) (int p) (- 1) else Some (c_querybuf d)) = Some q \<and> sds_rep q z"
    if "unread p d z" for z using unread_trim [OF that] that by (cases "p = 0") (auto simp: unread_rep)
  from d show ?thesis
  proof (elim disjE exE conjE)
    fix todo assume h: "halted c todo f r p d" "c_argv d @ todo = args"
    then obtain z where z: "progress c d" "c_argv_size d = c_argv_size c" "c_reqtype d = c_reqtype c" "length todo = c_multibulklen d"
        "todo \<noteq> []" "known d todo" "unread p d z" "z @ f = stream d todo r" "starving p d z"
      unfolding halted_def by (elim exE conjE)
    obtain q where q: "(if p \<noteq> 0 then sdsrange (c_querybuf d) (int p) (- 1) else Some (c_querybuf d)) = Some q" "sds_rep q z"
      using trim [OF z(7)] by (elim exE conjE)
    define c' where "c' = d\<lparr>c_querybuf := q\<rparr>"
    have "c_multibulklen d \<noteq> 0" using z(4,5) by (cases todo) auto
    then have "loop_result (Break p d) = Some (False, c')" using q(1) by (simp add: loop_result_def c'_def)
    moreover have "request_read c0 args f r False c'" unfolding request_read_def if_False
    proof (intro conjI exI)
      have "progress d c'" by (simp add: progress_def c'_def)
      then show "progress c0 c'" using progress_trans [OF progress_trans [OF pr z(1)]] by blast
      have "length (c_argv d) + c_multibulklen d = c_argv_size d" using arg_cong [OF h(2), of length] z(2,4) len by simp
      then have "counting c'" using c z(3) by (simp add: counting_def c'_def)
      then show "mid c' args todo" using z(4-6) h(2) by (simp add: mid_def c'_def known_def)
      show "z @ f = stream c' todo r" using z(8) by (simp add: stream_def c'_def)
      show "starving 0 c' z" using z(9) by (simp add: starving_def c'_def split: if_splits)
      show "sds_rep (c_querybuf c') z" using q(2) by (simp add: c'_def)
    qed
    ultimately show ?thesis by blast
  next
    assume h: "advanced c [] f r p d" "c_argv d = args"
    then obtain z where z: "progress c d" "c_multibulklen d = 0" "c_bulklen d = - 1" "unread p d z" "z @ f = r" "p + length z \<le> REDIS_INLINE_MAX_SIZE"
      unfolding advanced_def by (auto simp: bulks_simps)
    obtain q where q: "(if p \<noteq> 0 then sdsrange (c_querybuf d) (int p) (- 1) else Some (c_querybuf d)) = Some q" "sds_rep q z"
      using trim [OF z(4)] by (elim exE conjE)
    define c' where "c' = d\<lparr>c_querybuf := q\<rparr>"
    have "loop_result (Break p d) = Some (True, c')" using q(1) z(2) by (simp add: loop_result_def c'_def)
    moreover have "request_read c0 args f r True c'" unfolding request_read_def if_True
    proof (intro conjI exI)
      have "progress d c'" by (simp add: progress_def c'_def)
      then show "progress c0 c'" using progress_trans [OF progress_trans [OF pr z(1)]] by blast
      show "sds_rep (c_querybuf c') z" "c_argv c' = args" "c_multibulklen c' = 0" "c_bulklen c' = - 1" "length z \<le> REDIS_INLINE_MAX_SIZE"
        using q(2) h(2) z by (simp_all add: c'_def)
    qed (rule z(5))
    ultimately show ?thesis by blast
  qed
qed

lemma parse_mid:
  assumes m: "mid c args todo" and u: "sds_rep (c_querybuf c) x" and e: "x @ f = stream c todo r" and s: "small 0 c x"
    and a: "list_all (\<lambda>a. length a \<le> MAX_BULK) args"
  shows "\<exists>ok c'. processMultibulkBuffer sv c = Some (ok, c') \<and> request_read c args f r ok c'"
proof -
  have t: "list_all (\<lambda>a. length a \<le> MAX_BULK) todo" using a m by (auto simp: mid_def)
  have "\<exists>p d. multibulkLoop sv 0 c = Some (Break p d) \<and>
      ((\<exists>todo'. halted c todo' f r p d \<and> c_argv d @ todo' = c_argv c @ todo) \<or> advanced c [] f r p d \<and> c_argv d = c_argv c @ todo)"
    by (rule multibulkLoop_stream [OF _ _ _ t e _ _ _ s]) (use m u in \<open>auto simp: mid_def unread_rep counting_def\<close>)
  then obtain p d where d: "multibulkLoop sv 0 c = Some (Break p d)"
      "(\<exists>todo'. halted c todo' f r p d \<and> c_argv d @ todo' = args) \<or> advanced c [] f r p d \<and> c_argv d = args"
    using m unfolding mid_def by auto
  have n: "c_multibulklen c \<noteq> 0" using m by (cases todo) (auto simp: mid_def)
  have len: "length args = c_argv_size c" using m by (auto simp: mid_def counting_def)
  have "counting c" using m by (simp add: mid_def)
  from loop_result_stream [OF this d(2) len progress_refl] show ?thesis
    using processMultibulkBuffer_loop [OF multibulkLength_known [OF n] n, of sv] d(1) by simp
qed



text \<open>The client between requests: the count of the next request is complete, or the parser waits.\<close>

lemma multibulkLength_starve:
  assumes u: "sds_rep (c_querybuf c) x" and i: "idle c" and t: "length x \<le> REDIS_INLINE_MAX_SIZE"
    and f: "no_line x"
  shows "multibulkLength sv c = Some (Return False c)"
proof -
  have u0: "unread 0 c x" using u by (simp add: unread_rep)
  note l = unread_len [OF u0] strchr_unread [OF u0, of 13]
  from f show ?thesis unfolding no_line_def
  proof (elim disjE conjE)
    assume "find_byte 13 x = None"
    then show ?thesis using l i t by (simp add: multibulkLength_def idle_def Let_def)
  next
    assume h: "find_byte 13 x = Some (length x - 1)" "x \<noteq> []"
    then have "int (length x - 1) > int (length x) - 2" by (cases x) simp_all
    then show ?thesis using h(1) l i by (simp add: multibulkLength_def idle_def Let_def)
  qed
qed

lemma parse_new:
  assumes i: "idle c" "c_reqtype c = REDIS_REQ_MULTIBULK" and u: "sds_rep (c_querybuf c) x" and e: "x @ f = requests (args # cmds)"
    and t: "length x \<le> REDIS_INLINE_MAX_SIZE" and a: "command_ok args"
  shows "processMultibulkBuffer sv c = Some (False, c) \<and> starving 0 c x \<or>
    (\<exists>ok c'. processMultibulkBuffer sv c = Some (ok, c') \<and> request_read c args f (requests cmds) ok c')"
proof -
  define n where "n = length args"
  have n: "0 < n" "n \<le> 1024 * 1024" using a by (auto simp: command_ok_def n_def)
  then have n63: "n < 2 ^ 63" by simp
  have ll: "string2ll (dec n) = Some (word_of_nat n)" "sint (word_of_nat n :: i64) = int n"
    using string2ll_dec [OF n63] sint_small [OF n63] by simp_all
  have h: "13 \<notin> set (42 # dec n)" "0 \<notin> set (42 # dec n)" using dec_clean by simp_all
  have e': "x @ f = (42 # dec n) @ 13 # 10 # bulks args @ requests cmds" using e by (simp add: requests_simps n_def)
  have short: "length (42 # dec n) + 2 < REDIS_MBULK_BIG_ARG" using dec_short [of n] n by (simp add: REDIS_MBULK_BIG_ARG_def)
  consider z where "x = (42 # dec n) @ 13 # 10 # z" "z @ f = bulks args @ requests cmds"
    | "length x < REDIS_MBULK_BIG_ARG" "no_line x"
    by (rule line_prefix [OF e' h]) (use short in \<open>auto simp: no_line_def\<close>)
  then show ?thesis
  proof cases
    case 1
    have u': "sds_rep (c_querybuf c) (42 # dec n @ 13 # 10 # z)" using u 1(1) by simp
    define d where "d = c\<lparr>c_multibulklen := n, c_argv_size := n\<rparr>"
    have ml: "multibulkLength sv c = Some (Continue (length (dec n) + 3) d)"
      using multibulkLength_line [OF u' dec_clean i(1), of sv] ll n by (simp add: d_def)
    have uz: "unread (length (dec n) + 3) d z"
      using unread_skip [of 0 c "42 # dec n @ [13, 10]" z] u' by (simp add: d_def unread_size unread_rep numeral_3_eq_3)
    have d: "c_argv d = []" "c_bulklen d = - 1" "c_multibulklen d = length args" "c_argv_size d = length args" "counting d" "progress c d"
      using i by (simp_all add: d_def n_def idle_def counting_def progress_def)
    have "\<exists>p d'. multibulkLoop sv (length (dec n) + 3) d = Some (Break p d') \<and>
        ((\<exists>todo'. halted d todo' f (requests cmds) p d' \<and> c_argv d' @ todo' = c_argv d @ args) \<or>
         advanced d [] f (requests cmds) p d' \<and> c_argv d' = c_argv d @ args)"
      by (rule multibulkLoop_stream [OF uz])
        (use d a 1 t in \<open>simp_all add: known_def command_ok_def stream_def small_def REDIS_MBULK_BIG_ARG_def\<close>)
    then obtain p d' where d': "multibulkLoop sv (length (dec n) + 3) d = Some (Break p d')"
        "(\<exists>todo'. halted d todo' f (requests cmds) p d' \<and> c_argv d' @ todo' = args) \<or> advanced d [] f (requests cmds) p d' \<and> c_argv d' = args"
      unfolding d(1) by auto
    have nz: "c_multibulklen d \<noteq> 0" using n by (simp add: d_def)
    from loop_result_stream [OF d(5) d'(2) d(4) [symmetric] d(6)] show ?thesis
      using processMultibulkBuffer_loop [OF ml nz] d'(1) by simp
  next
    case 2
    have "multibulkLength sv c = Some (Return False c)" by (rule multibulkLength_starve [OF u i(1) t 2(2)])
    then have "processMultibulkBuffer sv c = Some (False, c)" by (simp add: processMultibulkBuffer_def)
    moreover have "starving 0 c x" using i(1) 2 by (simp add: starving_def idle_def)
    ultimately show ?thesis by blast
  qed
qed

section \<open>All requests\<close>

text \<open>The requests \<open>cmds\<close> are not executed yet, and \<open>w\<close> is the text that is left of them.\<close>

definition expects :: "redisClient \<Rightarrow> bytes list list \<Rightarrow> bytes \<Rightarrow> bool" where
  "expects c cmds w \<longleftrightarrow>
     (idle c \<and> (c_reqtype c = 0 \<or> c_reqtype c = REDIS_REQ_MULTIBULK) \<and> w = requests cmds) \<or>
     (\<exists>args rest todo. cmds = args # rest \<and> mid c args todo \<and> w = stream c todo (requests rest))"

definition parsed_to :: "redisClient \<Rightarrow> bytes list list \<Rightarrow> bytes \<Rightarrow> bool \<Rightarrow> redisClient \<Rightarrow> bool" where
  "parsed_to c cmds f ok c' \<longleftrightarrow> progress c c' \<and> (\<exists>z. sds_rep (c_querybuf c') z \<and>
     (if ok then \<exists>args rest. cmds = args # rest \<and> c_argv c' = args \<and> c_multibulklen c' = 0 \<and> c_bulklen c' = - 1 \<and> z @ f = requests rest \<and>
        length z \<le> REDIS_INLINE_MAX_SIZE
      else expects c' cmds (z @ f) \<and> starving 0 c' z))"

lemma request_read_parsed_to: "request_read c args f (requests rest) ok c' \<Longrightarrow> parsed_to c (args # rest) f ok c'"
  unfolding request_read_def parsed_to_def expects_def by (cases ok) (simp_all, blast+)

lemma parseRequest_stream:
  assumes x: "expects c cmds (x @ f)" "list_all command_ok cmds" and u: "sds_rep (c_querybuf c) x" "x \<noteq> []" and s: "small 0 c x"
  shows "\<exists>ok c'. parseRequest sv c = Some (ok, c') \<and> parsed_to c cmds f ok c'"
proof -
  consider args rest todo where "cmds = args # rest" "mid c args todo" "x @ f = stream c todo (requests rest)"
    | "idle c" "c_reqtype c = 0 \<or> c_reqtype c = REDIS_REQ_MULTIBULK" "x @ f = requests cmds"
    using x(1) unfolding expects_def by blast
  then show ?thesis
  proof cases
  case h: 1
  have "list_all (\<lambda>a. length a \<le> MAX_BULK) args" using x(2) h(1) by (simp add: command_ok_def)
  from parse_mid [OF h(2) u(1) h(3) s this, of sv] obtain ok c' where
    c': "processMultibulkBuffer sv c = Some (ok, c')" "request_read c args f (requests rest) ok c'" by (elim exE conjE)
  have "c_reqtype c = REDIS_REQ_MULTIBULK" using h(2) by (simp add: mid_def counting_def)
  then have "parseRequest sv c = Some (ok, c')"
    using c'(1) by (simp add: parseRequest_def requestType_def REDIS_REQ_INLINE_def REDIS_REQ_MULTIBULK_def)
  then show ?thesis using request_read_parsed_to [OF c'(2)] h(1) by blast
next
  case h: 2
  obtain args rest where cmds: "cmds = args # rest" using h(3) u(2) by (cases cmds) (auto simp: requests_simps)
  have hd: "hd x = 42" using h(3) u(2) unfolding cmds requests_simps by (cases x) simp_all
  define d where "d = c\<lparr>c_reqtype := REDIS_REQ_MULTIBULK\<rparr>"
  have "mem_get 0 (sh_buf (c_querybuf c)) = Some 42" using unread_get [of 0 c 42 "tl x"] u hd by (cases x) (simp_all add: unread_rep)
  then have rt: "requestType c = Some d" using h(2) by (cases c) (auto simp: requestType_def d_def REDIS_REQ_MULTIBULK_def)
  have d: "idle d" "c_reqtype d = REDIS_REQ_MULTIBULK" "sds_rep (c_querybuf d) x" "progress c d"
    using h(1) u(1) by (simp_all add: d_def idle_def progress_def)
  have pr: "parseRequest sv c = processMultibulkBuffer sv d"
    using rt d(2) by (simp add: parseRequest_def REDIS_REQ_INLINE_def REDIS_REQ_MULTIBULK_def)
  have t: "length x \<le> REDIS_INLINE_MAX_SIZE" using s h(1) by (auto simp: small_def idle_def)
  have e: "x @ f = requests (args # rest)" "command_ok args" using h(3) cmds x(2) by simp_all
  from parse_new [OF d(1-3) e(1) t e(2), of sv] show ?thesis
  proof (elim disjE exE conjE)
    assume p: "processMultibulkBuffer sv d = Some (False, d)" "starving 0 d x"
    have "parsed_to c cmds f False d" unfolding parsed_to_def if_False
      by (intro conjI exI [of _ x]) (use d p(2) h(3) in \<open>auto simp: expects_def\<close>)
    then show ?thesis using p(1) pr by auto
  next
    fix ok c' assume p: "processMultibulkBuffer sv d = Some (ok, c')" "request_read d args f (requests rest) ok c'"
    have "parsed_to d cmds f ok c'" using request_read_parsed_to [OF p(2)] cmds by simp
    then have "parsed_to c cmds f ok c'" using progress_trans [OF d(4)] unfolding parsed_to_def by blast
    then show ?thesis using p(1) pr by auto
  qed
  qed
qed



text \<open>An executor that neither blocks nor closes the client.\<close>

definition open_client :: "redisClient \<Rightarrow> bool" where
  "open_client c \<longleftrightarrow> \<not> has_flag REDIS_BLOCKED c \<and> \<not> has_flag REDIS_CLOSE_AFTER_REPLY c"

definition keeps_open :: "'s executor \<Rightarrow> bool" where
  "keeps_open processCommand \<longleftrightarrow>
     (\<forall>s c ok s' c'. processCommand s c = Some (ok, s', c') \<and> open_client c \<longrightarrow> ok \<and> open_client c')"

definition never_paused :: "'s pause \<Rightarrow> bool" where
  "never_paused clientsArePaused \<longleftrightarrow> (\<forall>s. \<not> fst (clientsArePaused s))"

lemma stops_open: "never_paused clientsArePaused \<Longrightarrow> open_client c \<Longrightarrow> \<exists>s'. stops clientsArePaused s c = (False, s')"
proof -
  assume "never_paused clientsArePaused" and o: "open_client c"
  then have "\<not> fst (clientsArePaused s)" by (simp add: never_paused_def)
  then obtain s' where "clientsArePaused s = (False, s')" by (cases "clientsArePaused s") simp
  then show ?thesis using o by (cases "has_flag REDIS_SLAVE c") (simp_all add: stops_def open_client_def)
qed

lemma open_reset: "open_client (resetClient c) = open_client c"
  using resetClient_flag [of REDIS_BLOCKED c] resetClient_flag [of REDIS_CLOSE_AFTER_REPLY c]
  by (simp add: open_client_def REDIS_BLOCKED_def REDIS_CLOSE_AFTER_REPLY_def REDIS_ASKING_def)

lemma progress_open: "progress c c' \<Longrightarrow> open_client c' = open_client c"
  by (simp add: open_client_def progress_fields)

text \<open>The state between two calls of the read handler.\<close>

definition listening :: "server_env \<Rightarrow> redisClient \<Rightarrow> bytes list list \<Rightarrow> bytes \<Rightarrow> bool" where
  "listening sv c cmds f \<longleftrightarrow> consistent sv c \<and> open_client c \<and> \<not> c_freed c \<and>
     (\<exists>z. sds_rep (c_querybuf c) z \<and> expects c cmds (z @ f) \<and> starving 0 c z)"

lemma processInputBuffer_stream:
  assumes ex: "executor_ok sv processCommand" "keeps_open processCommand" and np: "never_paused clientsArePaused"
  shows "consistent sv c \<Longrightarrow> open_client c \<Longrightarrow> \<not> c_freed c \<Longrightarrow> sds_rep (c_querybuf c) x \<Longrightarrow> expects c cmds (x @ f) \<Longrightarrow>
    list_all command_ok cmds \<Longrightarrow> small 0 c x \<Longrightarrow>
    \<exists>done s' c' rest. processInputBuffer sv clientsArePaused processCommand log s c = Some (log @ done, s', c') \<and> cmds = done @ rest \<and>
      listening sv c' rest f"
proof (induction "length cmds" arbitrary: cmds c x log s rule: less_induct)
  case less
  have len: "sdslen (c_querybuf c) = length x" using sds_rep_len [OF less.prems(4)] by (simp add: sdslen_def)
  obtain s1 where s1: "stops clientsArePaused s c = (False, s1)" using stops_open [OF np less.prems(2)] by blast
  show ?case
  proof (cases "x = []")
    case True
    have "starving 0 c x" using less.prems(5,7) True
      by (auto simp: starving_def REDIS_MBULK_BIG_ARG_def expects_def idle_def mid_def known_def no_line_def find_byte_simps)
    then have "listening sv c cmds f" using less.prems unfolding listening_def by blast
    moreover have "\<exists>s'. processInputBuffer sv clientsArePaused processCommand log s c = Some (log, s', c)"
      by (rule processInputBuffer_stop) (use len True in simp)
    ultimately show ?thesis by (metis append_Nil append_Nil2)
  next
    case False
    from parseRequest_stream [OF less.prems(5,6,4) False less.prems(7), of sv] obtain ok d where
      d: "parseRequest sv c = Some (ok, d)" "parsed_to c cmds f ok d" by (elim exE conjE)
    have pr: "progress c d" using d(2) by (simp add: parsed_to_def)
    have dd: "consistent sv d" "open_client d" "\<not> c_freed d"
      using progress_fields [OF pr] progress_open [OF pr] less.prems(1-3) by simp_all
    have nz: "sdslen (c_querybuf c) \<noteq> 0" using len False by simp
    note step = processInputBuffer_parse [OF nz s1 d(1), of processCommand log]
    show ?thesis
    proof (cases ok)
      case False
      then have "listening sv d cmds f" using d(2) dd unfolding parsed_to_def listening_def by auto
      moreover have "processInputBuffer sv clientsArePaused processCommand log s c = Some (log @ [], s1, d)" using step False by simp
      ultimately show ?thesis by (metis append_Nil)
    next
      case True
      from d(2) [unfolded parsed_to_def] True obtain z args rest where z: "sds_rep (c_querybuf d) z" "cmds = args # rest" "c_argv d = args"
          "c_multibulklen d = 0" "c_bulklen d = - 1" "z @ f = requests rest" "length z \<le> REDIS_INLINE_MAX_SIZE" by auto
      have ne: "c_argv d \<noteq> []" using less.prems(6) z(2,3) by (simp add: command_ok_def)
      from executor_okD [OF ex(1) dd(1), of s1] obtain ok2 s2 c2 where c2: "processCommand s1 d = Some (ok2, s2, c2)" "consistent sv c2"
          "c_querybuf c2 = c_querybuf d" "c_freed c2 = c_freed d" by (elim exE conjE)
      have o2: "ok2" "open_client c2" using ex(2) c2(1) dd(2) unfolding keeps_open_def by blast+
      define c3 where "c3 = resetClient c2"
      have c3: "consistent sv c3" "open_client c3" "\<not> c_freed c3" "sds_rep (c_querybuf c3) z" "idle c3" "c_reqtype c3 = 0"
        using c2 o2 dd z(1) resetClient_fields open_reset by (simp_all add: c3_def)
      have "\<exists>done s' c' rest'. processInputBuffer sv clientsArePaused processCommand (log @ [args]) s2 c3 = Some ((log @ [args]) @ done, s', c') \<and>
          rest = done @ rest' \<and> listening sv c' rest' f"
        by (rule less.hyps [OF _ c3(1-4)]) (use z c3(5,6) less.prems(6) in \<open>simp_all add: expects_def small_def\<close>)
      then obtain dn s' c' rest' where r: "processInputBuffer sv clientsArePaused processCommand (log @ [args]) s2 c3 = Some ((log @ [args]) @ dn, s', c')"
          "rest = dn @ rest'" "listening sv c' rest' f" by (elim exE conjE)
      have "processInputBuffer sv clientsArePaused processCommand log s c = Some (log @ (args # dn), s', c')"
        using step True ne c2(1) o2(1) z(3) r(1) by (simp add: after_command_def c3_def)
      moreover have "cmds = (args # dn) @ rest'" using z(2) r(2) by simp
      ultimately show ?thesis using r(3) by blast
    qed
  qed
qed

section \<open>The socket\<close>

text \<open>
  \<open>sock\<close> is what the client has sent and the server has not read yet; a call of \<open>read\<close> takes at
  most \<open>k\<close> bytes of it, and no bytes when it is asked for none.
\<close>

definition socket_read :: "nat \<Rightarrow> bytes \<Rightarrow> nat \<Rightarrow> read_result" where
  "socket_read k sock readlen =
     (if readlen = 0 then Nread [] else if k = 0 \<or> sock = [] then EAgain else Nread (take (min k readlen) sock))"

fun serve :: "server_env \<Rightarrow> nat \<Rightarrow> 's pause \<Rightarrow> 's executor \<Rightarrow> nat list \<Rightarrow> bytes \<Rightarrow> 's \<Rightarrow> redisClient \<Rightarrow>
    (bytes list list \<times> bytes \<times> 's \<times> redisClient) option" where
  "serve sv n paused exec [] sock s c = Some ([], sock, s, c)"
| "serve sv n paused exec (k # ks) sock s c =
     (if c_freed c then Some ([], sock, s, c)
      else do {
        (log, s', c') \<leftarrow> readQueryFromClient sv n paused exec (socket_read k sock) s c;
        (log', sock', s', c') \<leftarrow> serve sv n paused exec ks (drop (min k (nat (readLength c))) sock) s' c';
        Some (log @ log', sock', s', c') })"

lemma starving_readLength:
  assumes "starving 0 c x" "sds_rep (c_querybuf c) x" "expects c cmds w"
  shows "0 < readLength c"
  using assms sds_rep_len [OF assms(2)]
  by (auto simp: readLength_def starving_def Let_def sdslen_def REDIS_IOBUF_LEN_def REDIS_MBULK_BIG_ARG_def split: if_splits)

lemma starving_small:
  assumes st: "starving 0 c x" "sds_rep (c_querybuf c) x" "expects c cmds w" and l: "int (length xs) \<le> readLength c"
    and c': "c_bulklen c' = c_bulklen c"
  shows "small 0 c' (x @ xs)"
proof (cases "int REDIS_MBULK_BIG_ARG \<le> c_bulklen c")
  case True
  then have "c_bulklen c \<noteq> - 1" by simp
  then obtain args rest todo where "mid c args todo" "cmds = args # rest" using st(3) by (auto simp: expects_def idle_def)
  then have "c_reqtype c = REDIS_REQ_MULTIBULK" "c_multibulklen c \<noteq> 0"
    by (cases todo; auto simp: mid_def counting_def)+
  then have "readLength c \<le> c_bulklen c + 2 - int (length x)"
    using True \<open>c_bulklen c \<noteq> - 1\<close> sds_rep_len [OF st(2)] by (simp add: readLength_def Let_def sdslen_def)
  then show ?thesis using True l c' by (simp add: small_def)
next
  case False
  then have "length x < REDIS_MBULK_BIG_ARG + 2" using st(1) by (auto simp: starving_def split: if_splits)
  then show ?thesis using l readLength_le [of c] by (simp add: small_def REDIS_MBULK_BIG_ARG_def REDIS_IOBUF_LEN_def REDIS_INLINE_MAX_SIZE_def)
qed



lemma expects_cong:
  assumes "c_reqtype c' = c_reqtype c" "c_argv c' = c_argv c" "c_argv_size c' = c_argv_size c"
    "c_multibulklen c' = c_multibulklen c" "c_bulklen c' = c_bulklen c"
  shows "expects c' cmds w = expects c cmds w" "starving 0 c' x = starving 0 c x"
  using assms by (simp_all add: expects_def idle_def mid_def counting_def known_def stream_def starving_def)

lemma expects_bulklen:
  assumes "expects c cmds w" "list_all command_ok cmds"
  shows "c_bulklen c \<le> int MAX_BULK"
proof (cases "c_bulklen c = - 1")
  case False
  then obtain args rest todo where m: "mid c args todo" "cmds = args # rest" using assms(1) by (auto simp: expects_def idle_def)
  then have "c_bulklen c = int (length (hd todo))" "hd todo \<in> set args" using False by (auto simp: mid_def known_def)
  then show ?thesis using assms(2) m(2) by (auto simp: command_ok_def list_all_iff)
qed simp

definition enough :: "nat \<Rightarrow> bool" where
  "enough n \<longleftrightarrow> MAX_BULK + REDIS_INLINE_MAX_SIZE \<le> n"

lemma small_length:
  "small 0 c x \<Longrightarrow> c_bulklen c \<le> int MAX_BULK \<Longrightarrow> length x \<le> MAX_BULK + REDIS_INLINE_MAX_SIZE"
  by (auto simp: small_def REDIS_INLINE_MAX_SIZE_def)

lemma read_stream:
  assumes l: "listening sv c cmds sock" and ok: "list_all command_ok cmds" and n: "enough n"
    and ex: "executor_ok sv exec" "keeps_open exec" and np: "never_paused paused"
  shows "\<exists>done s' c' rest. readQueryFromClient sv n paused exec (socket_read k sock) s c = Some (done, s', c') \<and> cmds = done @ rest \<and>
    listening sv c' rest (drop (min k (nat (readLength c))) sock)"
proof -
  obtain x where c: "consistent sv c" "open_client c" "\<not> c_freed c" and x: "sds_rep (c_querybuf c) x" "expects c cmds (x @ sock)" "starving 0 c x"
    using l by (auto simp: listening_def)
  have r: "0 < readLength c" by (rule starving_readLength [OF x(3,1,2)])
  have b: "c_bulklen c \<le> int MAX_BULK" by (rule expects_bulklen [OF x(2) ok])
  have s0: "small 0 c (x @ [])" by (rule starving_small [OF x(3,1,2) _ refl]) (use r in simp)
  have len: "length x \<le> 2 ^ 30" using small_length [OF s0 b] by (simp add: MAX_BULK_def REDIS_INLINE_MAX_SIZE_def)
  have r0: "0 \<le> readLength c" using r by simp
  show ?thesis
  proof (cases "k = 0 \<or> sock = []")
    case True
    then have e: "socket_read k sock (nat (readLength c)) = EAgain" using r by (simp add: socket_read_def)
    from readQueryFromClient_cases(1) [OF x(1) len r0, of sv n paused exec "socket_read k sock" s] e obtain q c0 where
      q: "sds_rep q x" "received q c c0" "readQueryFromClient sv n paused exec (socket_read k sock) s c = Some ([], s, c0)" by auto
    note f = received_fields [OF q(2)]
    have "listening sv c0 cmds sock" unfolding listening_def open_client_def f(8-10) expects_cong [OF f(2-4,6,7)]
      using c x q(1) f(1) by (auto simp: open_client_def)
    moreover have "drop (min k (nat (readLength c))) sock = sock" using True by auto
    ultimately show ?thesis using q(3) by auto
  next
    case False
    define xs where "xs = take (min k (nat (readLength c))) sock"
    have xs: "xs \<noteq> []" "length xs \<le> nat (readLength c)" "sock = xs @ drop (min k (nat (readLength c))) sock"
      using False r by (auto simp: xs_def)
    have e: "socket_read k sock (nat (readLength c)) = Nread xs" using r False by (simp add: socket_read_def xs_def)
    have "\<exists>q c'. sds_rep q (x @ xs) \<and> received q c c' \<and> readQueryFromClient sv n paused exec (socket_read k sock) s c =
        (if length x + length xs > n then Some ([], s, c'\<lparr>c_freed := True\<rparr>) else processInputBuffer sv paused exec [] s c')"
      by (rule readQueryFromClient_cases(2) [where read = "socket_read k sock", OF x(1) len r0 e xs(1,2)])
    then obtain q c' where q: "sds_rep q (x @ xs)" "received q c c'" "readQueryFromClient sv n paused exec (socket_read k sock) s c =
        (if length x + length xs > n then Some ([], s, c'\<lparr>c_freed := True\<rparr>) else processInputBuffer sv paused exec [] s c')" by (elim exE conjE)
    note f = received_fields [OF q(2)]
    have s': "small 0 c' (x @ xs)" by (rule starving_small [OF x(3,1,2) _ f(7)]) (use xs(2) r in simp)
    have "length (x @ xs) \<le> MAX_BULK + REDIS_INLINE_MAX_SIZE" by (rule small_length [OF s']) (use b f(7) in simp)
    then have nn: "\<not> length x + length xs > n" using n by (simp add: enough_def)
    have "x @ sock = (x @ xs) @ drop (min k (nat (readLength c))) sock" using xs(3) by simp
    then have ex': "expects c' cmds ((x @ xs) @ drop (min k (nat (readLength c))) sock)"
      using x(2) expects_cong(1) [OF f(2-4,6,7)] by simp
    have "open_client c'" using c(2) f(8) by (simp add: open_client_def)
    from processInputBuffer_stream [OF ex np _ this _ _ ex' ok s', of "[]" s] c(1,3) f(1,9,10) q(1) q(3) nn
    show ?thesis by auto
  qed
qed

lemma serve_stream:
  assumes n: "enough n" and ex: "executor_ok sv exec" "keeps_open exec" and np: "never_paused paused"
  shows "listening sv c cmds sock \<Longrightarrow> list_all command_ok cmds \<Longrightarrow>
    \<exists>log sock' s' c' rest. serve sv n paused exec ks sock s c = Some (log, sock', s', c') \<and> cmds = log @ rest \<and> listening sv c' rest sock' \<and>
      (list_all (\<lambda>k. 0 < k) ks \<longrightarrow> length sock' \<le> length sock - length ks)"
proof (induction ks arbitrary: c cmds sock s)
  case (Cons k ks)
  from read_stream [OF Cons.prems n ex np, of k s] obtain dn s1 c1 rest where
    1: "readQueryFromClient sv n paused exec (socket_read k sock) s c = Some (dn, s1, c1)" "cmds = dn @ rest"
      "listening sv c1 rest (drop (min k (nat (readLength c))) sock)" by (elim exE conjE)
  have "list_all command_ok rest" using Cons.prems(2) 1(2) by simp
  from Cons.IH [OF 1(3) this, of s1] obtain log sock' s2 c2 rest' where
    2: "serve sv n paused exec ks (drop (min k (nat (readLength c))) sock) s1 c1 = Some (log, sock', s2, c2)" "rest = log @ rest'"
      "listening sv c2 rest' sock'"
      "list_all (\<lambda>k. 0 < k) ks \<longrightarrow> length sock' \<le> length (drop (min k (nat (readLength c))) sock) - length ks" by (elim exE conjE)
  have "0 < readLength c" using Cons.prems(1) starving_readLength unfolding listening_def by blast
  then have "list_all (\<lambda>k. 0 < k) (k # ks) \<longrightarrow> length sock' \<le> length sock - length (k # ks)" using 2(4) by auto
  moreover have "\<not> c_freed c" using Cons.prems(1) by (simp add: listening_def)
  then have "serve sv n paused exec (k # ks) sock s c = Some (dn @ log, sock', s2, c2)" using 1(1) 2(1) by simp
  ultimately show ?case using 1(2) 2(2,3) by auto
qed auto

text \<open>With nothing left on the socket, nothing is left of the requests.\<close>

lemma line_not_none:
  assumes "13 \<notin> set h" "0 \<notin> set h"
  shows "\<not> no_line (h @ 13 # 10 # r)"
  using find_byte_hit [of 13 h "10 # r"] assms by (simp add: no_line_def)

lemma listening_done:
  assumes l: "listening sv c cmds []"
  shows "cmds = []"
proof (rule ccontr)
  assume ne: "cmds \<noteq> []"
  obtain z where z: "expects c cmds z" "starving 0 c z" using l by (auto simp: listening_def)
  have lines: "\<not> no_line (42 # dec n @ 13 # 10 # r)" "\<not> no_line (36 # dec n @ 13 # 10 # r)" for n r
    using line_not_none [of "42 # dec n" r] line_not_none [of "36 # dec n" r] dec_clean by simp_all
  consider "idle c" "z = requests cmds" | args rest todo where "mid c args todo" "z = stream c todo (requests rest)"
    using z(1) by (auto simp: expects_def)
  then show False
  proof cases
    case 1
    then show ?thesis using z(2) ne lines(1) by (cases cmds) (simp_all add: starving_def idle_def requests_simps)
  next
    case 2
    then obtain a as where t: "todo = a # as" by (cases todo) (auto simp: mid_def)
    show ?thesis
    proof (cases "c_bulklen c = - 1")
      case True
      then show ?thesis using z(2) 2(2) t lines(2) by (simp add: starving_def stream_def bulks_simps)
    next
      case False
      then have "c_bulklen c = int (length a)" using 2(1) t by (simp add: mid_def known_def)
      then show ?thesis using z(2) 2(2) t False by (simp add: starving_def stream_def)
    qed
  qed
qed

lemma created_listening: "createClient sv fd = Some c \<Longrightarrow> listening sv c cmds (requests cmds)"
proof -
  assume c: "createClient sv fd = Some c"
  then have "reply_inv sv (\<lambda>_. 0) c" using createClient_ok [of sv fd] by auto
  moreover obtain q where "sdsempty (sv_fresh sv) = Some q" "sds_rep q []" using sdsempty_ok by blast
  ultimately show ?thesis using c
    by (auto simp: createClient_def listening_def consistent_def open_client_def has_flag_def expects_def idle_def starving_def
        no_line_def find_byte_simps REDIS_MBULK_BIG_ARG_def intro!: exI [of _ "[]"])
qed

section \<open>Properties\<close>

text \<open>Property C3.  The read handler refines the multi bulk protocol: the requests of a new
  client, each of at most 2^20 arguments of at most 512 MB, are executed exactly and in order,
  however the connection cuts their bytes into portions and however large they are compared to
  the portions.  At any time the executed requests are the first ones, the client is neither
  closed nor does the parser report an error, and when all bytes have been read all requests
  have been executed, which happens after at most one call for each byte.  The executor keeps its contract and leaves the client open, clients are
  not paused, and the limit of the query buffer has room for the biggest argument.\<close>

theorem input_stream:
  assumes "createClient sv fd = Some c" "list_all command_ok cmds" "enough client_max_querybuf_len"
    "executor_ok sv processCommand" "keeps_open processCommand" "never_paused clientsArePaused"
  shows "\<exists>log rest s' c' sock. serve sv client_max_querybuf_len clientsArePaused processCommand portions (requests cmds) s c = Some (log, sock, s', c') \<and>
    cmds = log @ rest \<and> \<not> c_freed c' \<and> \<not> has_flag REDIS_CLOSE_AFTER_REPLY c' \<and> (sock = [] \<longrightarrow> rest = []) \<and>
    (list_all (\<lambda>k. 0 < k) portions \<and> length (requests cmds) \<le> length portions \<longrightarrow> log = cmds)"
proof -
  from serve_stream [OF assms(3-6) created_listening [OF assms(1)] assms(2), of portions s] obtain log sock s' c' rest where
    r: "serve sv client_max_querybuf_len clientsArePaused processCommand portions (requests cmds) s c = Some (log, sock, s', c')"
      "cmds = log @ rest" "listening sv c' rest sock"
      "list_all (\<lambda>k. 0 < k) portions \<longrightarrow> length sock \<le> length (requests cmds) - length portions" by (elim exE conjE)
  moreover have "\<not> c_freed c'" "\<not> has_flag REDIS_CLOSE_AFTER_REPLY c'" using r(3) by (simp_all add: listening_def open_client_def)
  moreover have all: "sock = [] \<longrightarrow> rest = []" using r(3) listening_done by blast
  moreover have "list_all (\<lambda>k. 0 < k) portions \<and> length (requests cmds) \<le> length portions \<longrightarrow> log = cmds"
    using r(2,4) all by auto
  ultimately show ?thesis by blast
qed

theorem input_stream_witness:
  "\<exists>c log rest s' c' sock. createClient sv_ex 5 = Some c \<and>
    serve sv_ex (2 ^ 30) (\<lambda>s. (False, s)) (\<lambda>s c. Some (True, s, c)) [7, 1, 30] (requests [[lit ''GET'', lit ''k''], [lit ''PING'']]) () c =
      Some (log, sock, s', c') \<and>
    [[lit ''GET'', lit ''k''], [lit ''PING'']] = log @ rest \<and> \<not> c_freed c' \<and> \<not> has_flag REDIS_CLOSE_AFTER_REPLY c' \<and> (sock = [] \<longrightarrow> rest = [])"
proof -
  obtain c where c: "createClient sv_ex 5 = Some c" using createClient_ok [of sv_ex 5] by (elim exE conjE)
  have "list_all command_ok [[lit ''GET'', lit ''k''], [lit ''PING'']]" by (simp add: command_ok_def MAX_BULK_def lit_def)
  moreover have "enough (2 ^ 30)" by (simp add: enough_def MAX_BULK_def REDIS_INLINE_MAX_SIZE_def)
  moreover have "keeps_open (\<lambda>s c. Some (True, s, c))" "never_paused (\<lambda>s. (False, s))" by (simp_all add: keeps_open_def never_paused_def)
  ultimately show ?thesis using c input_stream [OF c _ _ executor_ok_skip, of _ "2 ^ 30" "\<lambda>s. (False, s)" "[7, 1, 30]" "()"] by blast
qed

end
