(* ===== verification/Backlog.thy ===== *)
theory Backlog
  imports NetworkStream "HOL-Library.Signed_Division"
begin

text \<open>
  The replication backlog of \<open>replication.c\<close>: the circular buffer that keeps the last
  bytes of the stream a master sends to its slaves, and the partial resynchronisation
  that is served from it.  \<open>None\<close> is an access outside a block, a failed assertion or a
  loop that does not end.  Offsets are numbers; they count the bytes of the stream and
  stay below \<open>2 ^ 63\<close>.
\<close>

section \<open>State\<close>

definition REDIS_REPL_BACKLOG_MIN_SIZE :: nat where "REDIS_REPL_BACKLOG_MIN_SIZE = 1024 * 16"
definition REDIS_LONGSTR_SIZE :: nat where "REDIS_LONGSTR_SIZE = 21"
definition REDIS_SHARED_SELECT_CMDS :: nat where "REDIS_SHARED_SELECT_CMDS = 10"
definition REDIS_REPL_WAIT_BGSAVE_START :: nat where "REDIS_REPL_WAIT_BGSAVE_START = 6"
definition REDIS_REPL_WAIT_BGSAVE_END :: nat where "REDIS_REPL_WAIT_BGSAVE_END = 7"
definition REDIS_REPL_SEND_BULK :: nat where "REDIS_REPL_SEND_BULK = 8"
definition REDIS_PRE_PSYNC :: nat where "REDIS_PRE_PSYNC = 16"

datatype rdb_child = REDIS_RDB_CHILD_TYPE_DISK | REDIS_RDB_CHILD_TYPE_SOCKET

text \<open>
  The fields of \<open>server\<close> that the master side of replication uses.  The object heap of the
  server is here; the clients in \<open>slaves\<close> are given this heap when a function works on
  them.  \<open>rdb_child\<close> is the type of the child that saves, if there is one.
\<close>

record master =
  m_heap :: "nat \<Rightarrow> robj option"
  m_next :: nat
  slaves :: "redisClient list"
  slaveseldb :: int
  repl_backlog :: "bytes option"
  repl_backlog_size :: nat
  repl_backlog_histlen :: nat
  repl_backlog_idx :: nat
  repl_backlog_off :: int
  master_repl_offset :: int
  runid :: bytes
  repl_min_slaves_to_write :: int
  repl_min_slaves_max_lag :: int
  repl_good_slaves_count :: nat
  masterhost :: bool
  master_link_up :: bool
  rdb_child :: "rdb_child option"
  repl_diskless_sync :: bool
  stat_sync_full :: nat
  stat_sync_partial_ok :: nat
  stat_sync_partial_err :: nat

section \<open>The circular buffer\<close>

definition createReplicationBacklog :: "fresh_mem \<Rightarrow> master \<Rightarrow> master option" where
  "createReplicationBacklog fresh m =
     (if repl_backlog m \<noteq> None then None
      else let m = m\<lparr>repl_backlog := Some (mem_alloc fresh (repl_backlog_size m)), repl_backlog_histlen := 0, repl_backlog_idx := 0,
             master_repl_offset := master_repl_offset m + 1\<rparr> in
        Some (m\<lparr>repl_backlog_off := master_repl_offset m + 1\<rparr>))"

definition resizeReplicationBacklog :: "fresh_mem \<Rightarrow> int \<Rightarrow> master \<Rightarrow> master" where
  "resizeReplicationBacklog fresh newsize m =
     (let newsize = (if newsize < int REDIS_REPL_BACKLOG_MIN_SIZE then int REDIS_REPL_BACKLOG_MIN_SIZE else newsize) in
      if int (repl_backlog_size m) = newsize then m
      else let m = m\<lparr>repl_backlog_size := nat newsize\<rparr> in
        if repl_backlog m \<noteq> None then
          m\<lparr>repl_backlog := Some (mem_alloc fresh (repl_backlog_size m)), repl_backlog_histlen := 0, repl_backlog_idx := 0,
            repl_backlog_off := master_repl_offset m + 1\<rparr>
        else m)"

definition freeReplicationBacklog :: "master \<Rightarrow> master option" where
  "freeReplicationBacklog m = (if slaves m \<noteq> [] then None else Some (m\<lparr>repl_backlog := None\<rparr>))"

text \<open>A round that copies nothing repeats for ever, and one behind the end writes outside the buffer.\<close>

function feedBacklogLoop :: "bytes \<Rightarrow> nat \<Rightarrow> master \<Rightarrow> master option" where
  "feedBacklogLoop p len m =
     (if len = 0 then Some m
      else if repl_backlog_size m \<le> repl_backlog_idx m then None
      else do {
        let thislen = repl_backlog_size m - repl_backlog_idx m;
        let thislen = (if thislen > len then len else thislen);
        b \<leftarrow> repl_backlog m;
        xs \<leftarrow> mem_read 0 thislen p;
        b \<leftarrow> mem_write (repl_backlog_idx m) xs b;
        let m = m\<lparr>repl_backlog := Some b, repl_backlog_idx := repl_backlog_idx m + thislen\<rparr>;
        let m = (if repl_backlog_idx m = repl_backlog_size m then m\<lparr>repl_backlog_idx := 0\<rparr> else m);
        feedBacklogLoop (drop thislen p) (len - thislen) (m\<lparr>repl_backlog_histlen := repl_backlog_histlen m + thislen\<rparr>) })"
  by pat_completeness auto
termination by (relation "measure (\<lambda>(p, len, m). len)") auto

declare feedBacklogLoop.simps [simp del]

definition feedReplicationBacklog :: "bytes \<Rightarrow> nat \<Rightarrow> master \<Rightarrow> master option" where
  "feedReplicationBacklog ptr len m = do {
     m \<leftarrow> feedBacklogLoop ptr len (m\<lparr>master_repl_offset := master_repl_offset m + int len\<rparr>);
     let m = (if repl_backlog_histlen m > repl_backlog_size m then m\<lparr>repl_backlog_histlen := repl_backlog_size m\<rparr> else m);
     Some (m\<lparr>repl_backlog_off := master_repl_offset m - int (repl_backlog_histlen m) + 1\<rparr>) }"

definition feedReplicationBacklogWithObject :: "fresh_mem \<Rightarrow> nat \<Rightarrow> master \<Rightarrow> master option" where
  "feedReplicationBacklogWithObject fresh a m = do {
     ob \<leftarrow> m_heap m a;
     (p, len) \<leftarrow> (case (ob_encoding ob, ob_ptr ob) of
         (REDIS_ENCODING_INT, PInt n) \<Rightarrow> ll2string (mem_alloc fresh REDIS_LONGSTR_SIZE) REDIS_LONGSTR_SIZE n
       | (REDIS_ENCODING_INT, _) \<Rightarrow> None
       | (_, PSds s) \<Rightarrow> Some (sh_buf s, sdslen s)
       | _ \<Rightarrow> None);
     feedReplicationBacklog p len m }"

text \<open>
  The loop of \<open>addReplyReplicationBacklog\<close>.  A length below zero is a huge \<open>size_t\<close> for
  \<open>sdsnewlen\<close>; the index is below the size when the loop starts.
\<close>

function sendBacklogLoop :: "server_env \<Rightarrow> bytes \<Rightarrow> int \<Rightarrow> int \<Rightarrow> int \<Rightarrow> redisClient \<Rightarrow> redisClient option" where
  "sendBacklogLoop sv b sz j len c =
     (if len = 0 then Some c
      else let thislen = (if sz - j < len then sz - j else len) in
        if thislen \<le> 0 \<or> j < 0 then None
        else do {
          s \<leftarrow> sdsnewlen (sv_fresh sv) (Some (drop (nat j) b)) (nat thislen);
          c \<leftarrow> addReplySds sv s c;
          sendBacklogLoop sv b sz 0 (len - thislen) c })"
  by pat_completeness auto
termination by (relation "measure (\<lambda>(sv, b, sz, j, len, c). nat len)") (auto split: if_splits)

declare sendBacklogLoop.simps [simp del]

text \<open>The remainder is the one of C, whose sign is that of the dividend.\<close>

definition addReplyReplicationBacklog :: "server_env \<Rightarrow> int \<Rightarrow> master \<Rightarrow> redisClient \<Rightarrow> (int \<times> redisClient) option" where
  "addReplyReplicationBacklog sv offset m c =
     (if repl_backlog_histlen m = 0 then Some (0, c)
      else do {
        b \<leftarrow> repl_backlog m;
        let sz = int (repl_backlog_size m);
        let histlen = int (repl_backlog_histlen m);
        let skip = offset - repl_backlog_off m;
        let j = (int (repl_backlog_idx m) + (sz - histlen)) smod sz;
        let j = (j + skip) smod sz;
        c \<leftarrow> sendBacklogLoop sv b sz j (histlen - skip) c;
        Some (histlen - skip, c) })"


section \<open>What the buffer holds\<close>

text \<open>\<open>b\<close> holds the last bytes of the stream \<open>T\<close>, each at its position modulo the size.\<close>

definition ring :: "bytes \<Rightarrow> bytes \<Rightarrow> bool" where
  "ring b T \<longleftrightarrow> b \<noteq> [] \<and> (\<forall>i<length T. length T \<le> i + length b \<longrightarrow> b ! (i mod length b) = T ! i)"

lemma mod_behind:
  assumes "i < l" "l + n \<le> i + s" "l mod s + n \<le> s"
  shows "i mod s < l mod s \<or> l mod s + n \<le> i mod s" "i mod s < (s :: nat)"
proof -
  have s: "0 < s" using assms by (cases s) auto
  define q where "q = l div s"
  have l: "l = q * s + l mod s" by (simp add: q_def)
  show "i mod s < s" using s by simp
  show "i mod s < l mod s \<or> l mod s + n \<le> i mod s"
  proof (cases "q * s \<le> i")
    case True
    have "i mod s = (i - q * s) mod s" using True by (metis le_add_diff_inverse mod_mult_self4 mult.commute)
    moreover have "i - q * s < l mod s" using True l assms(1) by linarith
    ultimately show ?thesis by (metis le_less_trans mod_less_eq_dividend)
  next
    case False
    then have q: "0 < q" by (cases q) auto
    have i: "(q - 1) * s + (l mod s + n) \<le> i" using l assms(2) q by (cases q) (auto simp: algebra_simps)
    have "i < (q - 1) * s + s" using False q by (cases q) (auto simp: algebra_simps)
    then have "i mod s = i - (q - 1) * s" using i
      by (metis add_leD1 le_add_diff_inverse less_diff_conv2 mod_less mod_mult_self4 mult.commute add.commute)
    then show ?thesis using i by linarith
  qed
qed

lemma mod_next: "l mod s + d < s \<Longrightarrow> (l + d) mod s = l mod s + (d :: nat)"
  by (metis mod_add_left_eq mod_less)

lemma ring_write:
  assumes r: "ring b T" and k: "k = length T mod length b" "k + length xs \<le> length b"
  shows "ring (take k b @ xs @ drop (k + length xs) b) (T @ xs)"
proof -
  let ?b = "take k b @ xs @ drop (k + length xs) b"
  have len: "length ?b = length b" using k(2) by simp
  have "?b ! (i mod length b) = (T @ xs) ! i" if i: "i < length (T @ xs)" "length (T @ xs) \<le> i + length b" for i
  proof (cases "i < length T")
    case True
    note m = mod_behind [of i "length T" "length xs" "length b"]
    have "length T + length xs \<le> i + length b" using i(2) by simp
    note m = m [OF True this, folded k(1), OF k(2)]
    have "?b ! (i mod length b) = b ! (i mod length b)"
      using m k(2) by (auto simp: nth_append)
    then show ?thesis using r True i(2) by (simp add: ring_def nth_append)
  next
    case False
    define d where "d = i - length T"
    have d: "i = length T + d" "d < length xs" using False i(1) by (simp_all add: d_def)
    have "i mod length b = k + d" unfolding d(1) k(1) by (rule mod_next) (use d(2) k in linarith)
    then show ?thesis using d k(2) by (simp add: nth_append)
  qed
  then show ?thesis using r len by (auto simp: ring_def)
qed

lemma feedBacklogLoop_step:
  assumes "len \<noteq> 0" "repl_backlog m = Some b" "repl_backlog_size m = length b" "repl_backlog_idx m = k" "k < length b"
    "n = min len (length b - k)" "n \<le> length p"
  shows "feedBacklogLoop p len m = feedBacklogLoop (drop n p) (len - n) (m\<lparr>repl_backlog := Some (take k b @ take n p @ drop (k + n) b),
    repl_backlog_idx := (if k + n = length b then 0 else k + n), repl_backlog_histlen := repl_backlog_histlen m + n\<rparr>)"
proof -
  have "(if length b - k > len then len else length b - k) = n" using assms(6) by auto
  moreover have "mem_read 0 n p = Some (take n p)" using assms(7) by (simp add: mem_read_def)
  moreover have "mem_write k (take n p) b = Some (take k b @ take n p @ drop (k + n) b)"
    using assms(5-7) by (simp add: mem_write_def)
  ultimately show ?thesis using assms(1-5) by (subst feedBacklogLoop.simps) (simp add: Let_def)
qed

lemma feedBacklogLoop_ok:
  assumes "repl_backlog m = Some b" "ring b T" "repl_backlog_size m = length b" "repl_backlog_idx m = length T mod length b" "len \<le> length p"
  shows "\<exists>b'. feedBacklogLoop p len m = Some (m\<lparr>repl_backlog := Some b', repl_backlog_idx := (length T + len) mod length b,
      repl_backlog_histlen := repl_backlog_histlen m + len\<rparr>) \<and> ring b' (T @ take len p) \<and> length b' = length b"
  using assms
proof (induction len arbitrary: p m b T rule: less_induct)
  case (less len)
  show ?case
  proof (cases "len = 0")
    case True
    have "m\<lparr>repl_backlog := Some b, repl_backlog_idx := length T mod length b\<rparr> = m" using less.prems(1,4) by (cases m) simp
    then show ?thesis using less.prems(2) True by (subst feedBacklogLoop.simps) (auto intro!: exI [of _ b])
  next
    case False
    define k n where "k = length T mod length b" and "n = min len (length b - k)"
    have "0 < length b" using less.prems(2) by (simp add: ring_def)
    then have k: "k < length b" by (simp add: k_def)
    have n: "0 < n" "n \<le> len" "k + n \<le> length b" "n \<le> length p" using False k less.prems(5) by (auto simp: n_def)
    define b1 where "b1 = take k b @ take n p @ drop (k + n) b"
    define T1 where "T1 = T @ take n p"
    define i1 where "i1 = (if k + n = length b then 0 else k + n)"
    define m1 where "m1 = m\<lparr>repl_backlog := Some b1, repl_backlog_idx := i1, repl_backlog_histlen := repl_backlog_histlen m + n\<rparr>"
    have step: "feedBacklogLoop p len m = feedBacklogLoop (drop n p) (len - n) m1"
      unfolding m1_def b1_def i1_def by (rule feedBacklogLoop_step) (use False less.prems k n in \<open>simp_all add: k_def n_def\<close>)
    have t1: "length T1 = length T + n" using n(4) by (simp add: T1_def)
    have r1: "ring b1 T1" unfolding b1_def T1_def using ring_write [OF less.prems(2) k_def, of "take n p"] n(3,4) by simp
    have l1: "length b1 = length b" using n(3,4) by (simp add: b1_def)
    have "(length T + n) mod length b = (k + n) mod length b" by (simp add: k_def mod_add_left_eq)
    then have i1: "i1 = length T1 mod length b" using n(3) by (simp add: i1_def t1)
    have "len - n < len" "len - n \<le> length (drop n p)" using n less.prems(5) by simp_all
    from less.IH [OF this(1) _ r1 _ _ this(2), of m1] obtain b' where
      b': "feedBacklogLoop (drop n p) (len - n) m1 = Some (m1\<lparr>repl_backlog := Some b', repl_backlog_idx := (length T1 + (len - n)) mod length b1,
        repl_backlog_histlen := repl_backlog_histlen m1 + (len - n)\<rparr>)" "ring b' (T1 @ take (len - n) (drop n p))" "length b' = length b1"
      using less.prems(3) l1 i1 by (auto simp: m1_def)
    have "T1 @ take (len - n) (drop n p) = T @ take len p" using n by (simp add: T1_def take_add [symmetric])
    then show ?thesis unfolding step using b' l1 t1 n by (intro exI [of _ b']) (simp add: m1_def)
  qed
qed

text \<open>\<open>T\<close> is what was fed since the buffer was created or resized.\<close>

definition backlog_rep :: "master \<Rightarrow> bytes \<Rightarrow> bool" where
  "backlog_rep m T \<longleftrightarrow> (\<exists>b. repl_backlog m = Some b \<and> ring b T \<and> length b = repl_backlog_size m \<and>
     repl_backlog_idx m = length T mod length b \<and> repl_backlog_histlen m = min (length T) (length b) \<and>
     repl_backlog_off m = master_repl_offset m - int (repl_backlog_histlen m) + 1)"

definition fed :: "master \<Rightarrow> nat \<Rightarrow> master \<Rightarrow> bool" where
  "fed m n m' \<longleftrightarrow> m' = m\<lparr>repl_backlog := repl_backlog m', repl_backlog_idx := repl_backlog_idx m', repl_backlog_histlen := repl_backlog_histlen m',
     repl_backlog_off := repl_backlog_off m', master_repl_offset := master_repl_offset m + int n\<rparr>"

lemma feedReplicationBacklog_ok:
  assumes "backlog_rep m T" "len \<le> length p"
  shows "\<exists>m'. feedReplicationBacklog p len m = Some m' \<and> backlog_rep m' (T @ take len p) \<and> fed m len m'"
proof -
  obtain b where b: "repl_backlog m = Some b" "ring b T" "length b = repl_backlog_size m" "repl_backlog_idx m = length T mod length b"
    "repl_backlog_histlen m = min (length T) (length b)" using assms(1) by (auto simp: backlog_rep_def)
  define m0 where "m0 = m\<lparr>master_repl_offset := master_repl_offset m + int len\<rparr>"
  from feedBacklogLoop_ok [of m0 b T len p] b assms(2) obtain b' where
    b': "feedBacklogLoop p len m0 = Some (m0\<lparr>repl_backlog := Some b', repl_backlog_idx := (length T + len) mod length b,
      repl_backlog_histlen := repl_backlog_histlen m0 + len\<rparr>)" "ring b' (T @ take len p)" "length b' = length b"
    by (auto simp: m0_def)
  define h where "h = min (length T + len) (length b)"
  define m' where "m' = m0\<lparr>repl_backlog := Some b', repl_backlog_idx := (length T + len) mod length b, repl_backlog_histlen := h,
    repl_backlog_off := master_repl_offset m0 - int h + 1\<rparr>"
  have h: "(if repl_backlog_histlen m + len > length b then length b else repl_backlog_histlen m + len) = h"
    unfolding h_def b(5) by auto
  have "feedReplicationBacklog p len m = Some m'"
    using b'(1) h b(3) by (simp add: feedReplicationBacklog_def m'_def flip: m0_def) (auto simp: m0_def)
  moreover have "backlog_rep m' (T @ take len p)" using b'(2,3) b(3) assms(2) by (simp add: backlog_rep_def m'_def m0_def h_def)
  moreover have "fed m len m'" by (simp add: fed_def m'_def m0_def)
  ultimately show ?thesis by blast
qed

section \<open>Sending from the buffer\<close>

lemma ring_slice:
  assumes "ring b T" "p + n \<le> length T" "length T \<le> p + length b" "p mod length b + n \<le> length b"
  shows "take n (drop (p mod length b) b) = take n (drop p T)"
proof (rule nth_equalityI)
  fix i assume "i < length (take n (drop (p mod length b) b))"
  then have i: "i < n" by simp
  have "p mod length b + i < length b" using i assms(4) by linarith
  then have "(p + i) mod length b = p mod length b + i" by (rule mod_next)
  moreover have "b ! ((p + i) mod length b) = T ! (p + i)" using assms(1-3) i by (simp add: ring_def)
  ultimately show "take n (drop (p mod length b) b) ! i = take n (drop p T) ! i" using assms(2,4) i by simp
qed (use assms in simp)

lemma appended_refl: "ready sv ext sh c \<Longrightarrow> appended sv ext c [] c"
  by (simp add: appended_def ready_def rframe_refl chain_refl)

lemma sendBacklogLoop_ok:
  assumes "ready sv ext sh c" "ring b T" "p \<le> length T" "length T \<le> p + length b" "length b < 2 ^ 32"
  shows "\<exists>c'. sendBacklogLoop sv b (int (length b)) (int (p mod length b)) (int (length T - p)) c = Some c' \<and> appended sv ext c (drop p T) c'"
  using assms
proof (induction "length T - p" arbitrary: p c rule: less_induct)
  case less
  show ?case
  proof (cases "length T = p")
    case True
    then show ?thesis using appended_refl [OF less.prems(1)] by (subst sendBacklogLoop.simps) simp
  next
    case False
    define j n where "j = p mod length b" and "n = min (length b - j) (length T - p)"
    have "0 < length b" using less.prems(2) by (simp add: ring_def)
    then have j: "j < length b" by (simp add: j_def)
    have n: "0 < n" "p + n \<le> length T" "j + n \<le> length b" using False j less.prems(3) by (auto simp: n_def)
    have th: "(if int (length b) - int j < int (length T - p) then int (length b) - int j else int (length T - p)) = int n"
      using j by (auto simp: n_def)
    have "n \<le> length (drop j b)" "n < 2 ^ 32" using n(3) less.prems(5) by simp_all
    from sdsnewlen_ok [OF this, of "sv_fresh sv"] obtain s where
      s: "sdsnewlen (sv_fresh sv) (Some (drop j b)) n = Some s" "sds_rep s (take n (drop j b))" by (elim exE conjE)
    have sl: "take n (drop j b) = take n (drop p T)" unfolding j_def
      by (rule ring_slice [OF less.prems(2) n(2) less.prems(4)]) (use n(3) in \<open>simp add: j_def\<close>)
    have inv: "reply_inv sv ext c" "accepts sv c" using less.prems(1) by (simp_all add: ready_def)
    obtain c1 where c1: "addReplySds sv s c = Some c1" "appended sv ext c (take n (drop p T)) c1"
      using addReplySds_ok [OF inv] s(2) sl by auto
    have step: "sendBacklogLoop sv b (int (length b)) (int j) (int (length T - p)) c =
        sendBacklogLoop sv b (int (length b)) 0 (int (length T - (p + n))) c1"
      using False less.prems(3) th n s(1) c1(1) by (subst sendBacklogLoop.simps) (simp add: Let_def of_nat_diff diff_diff_eq)
    show ?thesis
    proof (cases "p + n = length T")
      case True
      have "drop p T = take n (drop p T)" using True by simp
      then show ?thesis using step c1(2) True by (simp add: j_def) (subst sendBacklogLoop.simps, simp)
    next
      case more: False
      then have nj: "n = length b - j" using less.prems(3) by (simp add: n_def min_def split: if_splits)
      have "(p + n) mod length b = (j + n) mod length b" by (simp add: j_def mod_add_left_eq)
      then have z: "(p + n) mod length b = 0" using nj j by simp
      have r1: "ready sv ext sh c1" by (rule ready_appended [OF less.prems(1) c1(2)])
      have "length T - (p + n) < length T - p" "length T \<le> p + n + length b" using n less.prems(4) by linarith+
      from less.hyps [OF this(1) r1 less.prems(2) n(2) this(2) less.prems(5)] obtain c2 where
        c2: "sendBacklogLoop sv b (int (length b)) 0 (int (length T - (p + n))) c1 = Some c2" "appended sv ext c1 (drop (p + n) T) c2"
        using z by auto
      have "take n (drop p T) @ drop (p + n) T = drop p T" by (metis add.commute append_take_drop_id drop_drop)
      then show ?thesis using appended_trans [OF c1(2) c2(2)] step c2(1) by (simp add: j_def)
    qed
  qed
qed

lemma smod_int: "int a smod int b = int (a mod b)"
  by (cases "a = 0") (simp_all add: signed_modulo_int_def zmod_int)

lemma addReplyReplicationBacklog_ok:
  assumes "backlog_rep m T" "ready sv ext sh c" "repl_backlog_size m < 2 ^ 32"
    and o: "repl_backlog_off m \<le> offset" "offset \<le> repl_backlog_off m + int (repl_backlog_histlen m)"
  shows "\<exists>c'. addReplyReplicationBacklog sv offset m c = Some (master_repl_offset m + 1 - offset, c') \<and>
    appended sv ext c (drop (length T - nat (master_repl_offset m + 1 - offset)) T) c'"
proof -
  obtain b where b: "repl_backlog m = Some b" "ring b T" "length b = repl_backlog_size m" "repl_backlog_idx m = length T mod length b"
    "repl_backlog_histlen m = min (length T) (length b)" "repl_backlog_off m = master_repl_offset m - int (repl_backlog_histlen m) + 1"
    using assms(1) by (auto simp: backlog_rep_def)
  have b0: "0 < length b" using b(2) by (simp add: ring_def)
  define h p where "h = repl_backlog_histlen m" and "p = length T - nat (master_repl_offset m + 1 - offset)"
  define skip where "skip = nat (offset - repl_backlog_off m)"
  have k: "int skip = offset - repl_backlog_off m" "skip \<le> h" using o by (simp_all add: skip_def h_def)
  have h: "h \<le> length T" "h \<le> length b" "h = min (length T) (length b)" using b(5) by (simp_all add: h_def)
  have r: "master_repl_offset m + 1 - offset = int (h - skip)" using k b(6) by (simp add: h_def of_nat_diff)
  have p: "p = length T - h + skip" "length T - p = h - skip" "p \<le> length T" "length T \<le> p + length b"
    using k(2) h unfolding p_def r by auto
  show ?thesis
  proof (cases "h = 0")
    case True
    then have "T = []" using h(3) b0 by (simp add: min_def split: if_splits)
    then show ?thesis using True r appended_refl [OF assms(2)] by (simp add: addReplyReplicationBacklog_def h_def)
  next
    case False
    have "(length T mod length b + (length b - h)) mod length b = (length T - h) mod length b"
    proof -
      have "(length T mod length b + (length b - h)) mod length b = (length T + (length b - h)) mod length b" by (simp add: mod_add_left_eq)
      also have "length T + (length b - h) = (length T - h) + length b" using h by simp
      finally show ?thesis by simp
    qed
    then have j: "((length T mod length b + (length b - h)) mod length b + skip) mod length b = p mod length b"
      unfolding p(1) by (simp add: mod_add_left_eq)
    obtain c' where c': "sendBacklogLoop sv b (int (length b)) (int (p mod length b)) (int (length T - p)) c = Some c'" "appended sv ext c (drop p T) c'"
      using sendBacklogLoop_ok [OF assms(2) b(2) p(3,4)] assms(3) b(3) by auto
    have "(int (length T mod length b) + (int (length b) - int h)) smod int (length b) = int ((length T mod length b + (length b - h)) mod length b)"
      using smod_int [of "length T mod length b + (length b - h)" "length b"] h(2) by (simp add: of_nat_diff add_diff_eq)
    moreover have "(int x + int skip) smod int (length b) = int ((x + skip) mod length b)" for x
      using smod_int [of "x + skip" "length b"] by simp
    ultimately have jj: "((int (length T mod length b) + (int (length b) - int h)) smod int (length b) + (offset - repl_backlog_off m)) smod int (length b)
      = int (p mod length b)" unfolding k(1) [symmetric] by (simp only: j)
    have d: "int h - (offset - repl_backlog_off m) = int (h - skip)" unfolding k(1) [symmetric] using k(2) by (simp add: of_nat_diff)
    have "addReplyReplicationBacklog sv offset m c = Some (int (h - skip), c')"
      unfolding addReplyReplicationBacklog_def Let_def b(4) b(3) [symmetric] h_def [symmetric] jj d using False c'(1) [unfolded p(2)] b(1) by simp
    then show ?thesis using c'(2) r by (simp add: p_def)
  qed
qed

end
