(* ===== verification/Slaves.thy ===== *)
theory Slaves
  imports Backlog
begin

text \<open>
  The clients of one server share its object heap.  The reply functions of one client
  leave the output of all others alone, and the reference counts of the heap count the
  references of all of them.
\<close>

section \<open>Clients of one heap\<close>

definition on_heap :: "(nat \<Rightarrow> robj option) \<Rightarrow> nat \<Rightarrow> redisClient \<Rightarrow> redisClient" where
  "on_heap h n c = c\<lparr>c_heap := h, c_next := n\<rparr>"

definition joined :: "master \<Rightarrow> redisClient \<Rightarrow> redisClient" where
  "joined m c = on_heap (m_heap m) (m_next m) c"

definition keep_heap :: "redisClient \<Rightarrow> master \<Rightarrow> master" where
  "keep_heap c m = m\<lparr>m_heap := c_heap c, m_next := c_next c\<rparr>"

text \<open>The loops over \<open>server.slaves\<close>: each client starts from the heap the one before it left.\<close>

fun each_client :: "(redisClient \<Rightarrow> redisClient option) \<Rightarrow> redisClient list \<Rightarrow> master \<Rightarrow> (redisClient list \<times> master) option" where
  "each_client f [] m = Some ([], m)"
| "each_client f (c # cs) m = do {
     c \<leftarrow> f (joined m c);
     (cs, m) \<leftarrow> each_client f cs (keep_heap c m);
     Some (c # cs, m) }"

definition each_slave :: "(redisClient \<Rightarrow> redisClient option) \<Rightarrow> master \<Rightarrow> master option" where
  "each_slave f m = do { (cs, m) \<leftarrow> each_client f (slaves m) m; Some (m\<lparr>slaves := cs\<rparr>) }"

text \<open>A record without output of its own, for the functions on objects.\<close>

definition no_client :: redisClient where
  "no_client = \<lparr>c_heap = \<lambda>_. None, c_next = 0, c_fd = - 1, c_flags = 0, c_replstate = REDIS_REPL_NONE, c_put_online_on_ack = False,
     c_buf = replicate REDIS_REPLY_CHUNK_BYTES 0, c_bufpos = 0, c_sentlen = 0, c_reply = [], c_reply_bytes = 0,
     c_soft_limit_time = 0, c_wevent = False, c_to_close = False, c_freed = False, c_stat_net_output_bytes = 0,
     c_stat_net_input_bytes = 0, c_lastinteraction = 0, c_querybuf = \<lparr>sh_len = 0, sh_free = 0, sh_buf = [0]\<rparr>, c_querybuf_peak = 0,
     c_argv = [], c_argv_size = 0, c_cmd = None,
     c_reqtype = 0, c_multibulklen = 0, c_bulklen = - 1, c_reploff = 0, c_repl_ack_time = 0\<rparr>"


section \<open>The addresses that were handed out\<close>

named_theorems next_mono

lemma next_prepare [next_mono]: "prepareClientToWrite sv c = (ok, c') \<Longrightarrow> c_next c' = c_next c"
  by (auto simp: prepareClientToWrite_def freeClientAsync_def set_flag_def split: if_splits)

lemma next_flags: "only_flags c c' \<Longrightarrow> c_next c' = c_next c"
proof -
  assume "only_flags c c'"
  then obtain f t b w where "c' = c\<lparr>c_flags := f, c_soft_limit_time := t, c_to_close := b, c_wevent := w\<rparr>"
    unfolding only_flags_def by blast
  then show ?thesis by simp
qed

lemmas next_async [next_mono] = next_flags [OF asyncClose_flags]

lemma next_buffer [next_mono]: "addReplyToBuffer s len c = Some (ok, c') \<Longrightarrow> c_next c' = c_next c"
  by (auto simp: addReplyToBuffer_def Let_def split: if_splits bind_splits)

lemma next_incr [next_mono]: "incrRefCount a c = Some c' \<Longrightarrow> c_next c' = c_next c"
  by (auto simp: incrRefCount_def split: bind_splits)

lemma next_decr [next_mono]: "decrRefCount a c = Some c' \<Longrightarrow> c_next c' = c_next c"
  by (auto simp: decrRefCount_def split: bind_splits if_splits)

lemma next_new: "newObject ob c = (a, c') \<Longrightarrow> c_next c' = c_next c + 1"
  by (auto simp: newObject_def)

lemma next_create [next_mono]:
  "createStringObject sv p len c = Some (a, c') \<Longrightarrow> c_next c' = c_next c + 1"
  "createRawStringObject sv p len c = Some (a, c') \<Longrightarrow> c_next c' = c_next c + 1"
  "createEmbeddedStringObject p len c = Some (a, c') \<Longrightarrow> c_next c' = c_next c + 1"
proof -
  show r: "createRawStringObject sv p len c = Some (a, c') \<Longrightarrow> c_next c' = c_next c + 1"
    by (auto simp: createRawStringObject_def createObject_def dest: next_new split: bind_splits)
  show e: "createEmbeddedStringObject p len c = Some (a, c') \<Longrightarrow> c_next c' = c_next c + 1"
    by (auto simp: createEmbeddedStringObject_def dest: next_new split: bind_splits)
  show "createStringObject sv p len c = Some (a, c') \<Longrightarrow> c_next c' = c_next c + 1"
    using r e by (auto simp: createStringObject_def split: if_splits)
qed

lemma next_dup [next_mono]: "dupStringObject sv a c = Some (b, c') \<Longrightarrow> c_next c \<le> c_next c'"
  by (auto simp: dupStringObject_def dest!: next_create next_new split: bind_splits encoding.splits obj_ptr.splits)

lemma next_dupLast [next_mono]: "dupLastObjectIfNeeded sv c = Some (b, c') \<Longrightarrow> c_next c \<le> c_next c'"
  by (auto simp: dupLastObjectIfNeeded_def Let_def dest!: next_dup next_decr split: bind_splits if_splits prod.splits)

lemma next_tail [next_mono]: "appendToTail sv s len c = Some c' \<Longrightarrow> c_next c \<le> c_next c'"
  by (auto simp: appendToTail_def subBytes_def addBytes_def dest!: next_dupLast split: bind_splits if_splits obj_ptr.splits)

lemma next_lists [next_mono]:
  "addReplyObjectToList sv a c = Some c' \<Longrightarrow> c_next c \<le> c_next c'"
  "addReplySdsToList sv t c = Some c' \<Longrightarrow> c_next c \<le> c_next c'"
  "addReplyStringToList sv s len c = Some c' \<Longrightarrow> c_next c \<le> c_next c'"
  by (auto simp: addReplyObjectToList_def addReplySdsToList_def addReplyStringToList_def listAddTail_def addBytes_def next_async createObject_def Let_def
      dest!: next_tail next_incr next_create next_new split: bind_splits if_splits obj_ptr.splits prod.splits)

lemma next_text [next_mono]: "addReplyText sv a s c = Some c' \<Longrightarrow> c_next c \<le> c_next c'"
  by (auto simp: addReplyText_def dest!: next_buffer next_lists split: bind_splits if_splits)

lemma next_int [next_mono]: "addReplyInt sv a c = Some c' \<Longrightarrow> c_next c \<le> c_next c'"
  by (fastforce simp: addReplyInt_def getDecodedObject_heap_def dest!: next_text next_decr next_incr next_create
      split: bind_splits if_splits encoding.splits obj_ptr.splits)

lemma next_addReply [next_mono]: "addReply sv a c = Some c' \<Longrightarrow> c_next c \<le> c_next c'"
  by (fastforce simp: addReply_def Let_def dest!: next_text next_int next_prepare next_buffer split: bind_splits if_splits encoding.splits obj_ptr.splits prod.splits)

lemma next_string [next_mono]:
  "addReplySds sv t c = Some c' \<Longrightarrow> c_next c \<le> c_next c'" "addReplyString sv s len c = Some c' \<Longrightarrow> c_next c \<le> c_next c'"
  by (fastforce simp: addReplySds_def addReplyString_def Let_def dest!: next_lists next_prepare next_buffer split: bind_splits if_splits prod.splits)+

lemma next_error [next_mono]: "addReplyError sv s c = Some c' \<Longrightarrow> c_next c \<le> c_next c'"
  by (fastforce simp: addReplyError_def addReplyErrorLength_def dest!: next_string(2) split: bind_splits)

lemma next_prefix [next_mono]: "addReplyLongLongWithPrefix sv sh v p c = Some c' \<Longrightarrow> c_next c \<le> c_next c'"
  by (auto simp: addReplyLongLongWithPrefix_def Let_def dest!: next_addReply next_string split: bind_splits if_splits prod.splits)

lemma next_mbulk [next_mono]: "addReplyMultiBulkLen sv sh v c = Some c' \<Longrightarrow> c_next c \<le> c_next c'"
  by (auto simp: addReplyMultiBulkLen_def dest!: next_addReply next_prefix split: bind_splits if_splits)

lemma next_bulkLen [next_mono]: "addReplyBulkLen sv sh a c = Some c' \<Longrightarrow> c_next c \<le> c_next c'"
  by (auto simp: addReplyBulkLen_def dest!: next_addReply next_prefix split: bind_splits if_splits)

lemma next_bulk [next_mono]: "addReplyBulk sv sh a c = Some c' \<Longrightarrow> c_next c \<le> c_next c'"
  by (fastforce simp: addReplyBulk_def dest!: next_addReply next_bulkLen split: bind_splits)

lemma next_for_each:
  assumes "\<And>x c c'. f x c = Some c' \<Longrightarrow> c_next c \<le> c_next c'"
  shows "for_each xs f c = Some c' \<Longrightarrow> c_next c \<le> c_next c'"
proof (induction xs arbitrary: c)
  case (Cons x xs)
  then obtain c1 where "f x c = Some c1" "for_each xs f c1 = Some c'" by (auto split: bind_splits)
  then show ?case using assms [of x c c1] Cons.IH [of c1] by simp
qed simp

lemma next_sendBacklog: "sendBacklogLoop sv b sz j len c = Some c' \<Longrightarrow> c_next c \<le> c_next c'"
proof (induction sv b sz j len c rule: sendBacklogLoop.induct)
  case (1 sv b sz j len c)
  define thislen where "thislen = (if sz - j < len then sz - j else len)"
  show ?case
  proof (cases "len = 0 \<or> thislen \<le> 0 \<or> j < 0")
    case True
    then show ?thesis using "1.prems" by (subst (asm) sendBacklogLoop.simps) (auto simp: thislen_def Let_def split: if_splits)
  next
    case False
    then obtain s c1 where s: "sdsnewlen (sv_fresh sv) (Some (drop (nat j) b)) (nat thislen) = Some s" "addReplySds sv s c = Some c1"
        "sendBacklogLoop sv b sz 0 (len - thislen) c1 = Some c'"
      using "1.prems" by (subst (asm) sendBacklogLoop.simps) (auto simp: Let_def simp flip: thislen_def split: bind_splits)
    then show ?thesis using "1.IH" [OF _ thislen_def _ s(1,2)] False next_string(1) [OF s(2)] by simp
  qed
qed

lemma next_sub [next_mono]: "subBytes n c = Some c' \<Longrightarrow> c_next c' = c_next c"
  by (auto simp: subBytes_def split: if_splits)

lemma next_count [next_mono, simp]: "c_next (countOutput n c) = c_next c"
  by (simp add: countOutput_def)

definition send_frame :: "redisClient \<Rightarrow> redisClient \<Rightarrow> bool" where
  "send_frame c c' \<longleftrightarrow> c_next c' = c_next c \<and> c_replstate c' = c_replstate c"

lemma reply_frame:
  "decrRefCount a c = Some c' \<Longrightarrow> c_reply c' = c_reply c \<and> c_next c' = c_next c \<and> c_replstate c' = c_replstate c"
  "subBytes n c = Some c' \<Longrightarrow> c_reply c' = c_reply c \<and> c_next c' = c_next c \<and> c_replstate c' = c_replstate c"
  by (auto simp: decrRefCount_def subBytes_def split: bind_splits if_splits)

lemma sendLoop_frame: "sendLoop sv ws out c = Some (xs, c') \<Longrightarrow> send_frame c c'"
proof (induction "length ws + length (c_reply c)" arbitrary: ws out c rule: less_induct)
  case less
  note IH = less.hyps
  show ?case
  proof (cases "c_bufpos c > 0")
    case True
    then show ?thesis using less.prems
      by (subst (asm) sendLoop.simps)
        (auto simp: Let_def countOutput_def send_frame_def split: bind_splits if_splits list.splits dest!: IH [rotated])
  next
    case False
    then show ?thesis using less.prems
      by (subst (asm) sendLoop.simps)
        (auto simp: Let_def countOutput_def send_frame_def split: bind_splits if_splits list.splits dest!: reply_frame IH [rotated])
  qed
qed

lemma sendReply_frame: "sendReplyToClient sv ws err c = Some (xs, c') \<Longrightarrow> send_frame c c'"
  by (auto simp: sendReplyToClient_def Let_def send_frame_def dest!: sendLoop_frame split: bind_splits if_splits)

section \<open>The invariant of the shared heap\<close>

definition held_by :: "(nat \<Rightarrow> nat) \<Rightarrow> redisClient list \<Rightarrow> nat \<Rightarrow> nat" where
  "held_by ext cs a = ext a + (\<Sum>c\<leftarrow>cs. refs c a)"

definition own_ok :: "server_env \<Rightarrow> redisClient \<Rightarrow> bool" where
  "own_ok sv c \<longleftrightarrow> buf_ok c \<and> mem_ok sv c \<and> sent_ok (c_sentlen c) (ost c) \<and> distinct (map fst (c_reply c)) \<and>
     (\<forall>(n, a)\<in>set (c_reply c). n < c_next c \<and> (\<exists>v. view (c_heap c) a = Some v \<and> fst v \<noteq> REDIS_ENCODING_INT))"

definition world :: "server_env \<Rightarrow> (nat \<Rightarrow> nat) \<Rightarrow> master \<Rightarrow> redisClient list \<Rightarrow> bool" where
  "world sv ext m cs \<longleftrightarrow>
     (\<forall>a ob. m_heap m a = Some ob \<longrightarrow> a < m_next m \<and> v_wf (ob_encoding ob, ob_ptr ob) \<and>
        ob_refcount ob = held_by ext cs a \<and> 0 < ob_refcount ob) \<and>
     (\<forall>a. 0 < held_by ext cs a \<longrightarrow> (\<exists>v. view (m_heap m) a = Some v \<and> snd v \<noteq> PNull)) \<and>
     (\<forall>c\<in>set cs. own_ok sv (joined m c))"

lemma worldD:
  assumes "world sv ext m cs"
  shows "m_heap m a = Some ob \<Longrightarrow> a < m_next m \<and> v_wf (ob_encoding ob, ob_ptr ob) \<and> ob_refcount ob = held_by ext cs a \<and> 0 < ob_refcount ob"
    "0 < held_by ext cs a \<Longrightarrow> \<exists>v. view (m_heap m) a = Some v \<and> snd v \<noteq> PNull" "c \<in> set cs \<Longrightarrow> own_ok sv (joined m c)"
  using assms unfolding world_def by blast+

lemma worldI:
  assumes "\<And>a ob. m_heap m a = Some ob \<Longrightarrow> a < m_next m \<and> v_wf (ob_encoding ob, ob_ptr ob) \<and> ob_refcount ob = held_by ext cs a \<and> 0 < ob_refcount ob"
    "\<And>a. 0 < held_by ext cs a \<Longrightarrow> \<exists>v. view (m_heap m) a = Some v \<and> snd v \<noteq> PNull" "\<And>c. c \<in> set cs \<Longrightarrow> own_ok sv (joined m c)"
  shows "world sv ext m cs"
  using assms unfolding world_def by blast

lemma held_by_split: "held_by ext (xs @ c # ys) a = held_by ext (xs @ ys) a + refs c a"
  by (simp add: held_by_def)

lemma held_by_ge: "ext a \<le> held_by ext cs a"
  by (simp add: held_by_def)

lemma held_by_member: "c \<in> set cs \<Longrightarrow> refs c a \<le> held_by ext cs a"
  by (induction cs) (auto simp: held_by_def)

lemma joined_simps [simp]:
  "c_heap (joined m c) = m_heap m" "c_next (joined m c) = m_next m" "c_reply (joined m c) = c_reply c" "c_sentlen (joined m c) = c_sentlen c"
  "refs (joined m c) = refs c" "c_buf (joined m c) = c_buf c" "c_bufpos (joined m c) = c_bufpos c" "c_reply_bytes (joined m c) = c_reply_bytes c"
  "c_flags (joined m c) = c_flags c" "c_fd (joined m c) = c_fd c" "c_replstate (joined m c) = c_replstate c" "c_argv (joined m c) = c_argv c"
  by (simp_all add: joined_def on_heap_def refs_def fun_eq_iff)

lemma keep_heap_simps [simp]:
  "m_heap (keep_heap c m) = c_heap c" "m_next (keep_heap c m) = c_next c" "slaves (keep_heap c m) = slaves m"
  by (simp_all add: keep_heap_def)

lemma joined_keep: "joined (keep_heap c m) c = c"
  by (simp add: joined_def on_heap_def)

lemma refs_pos: "(n, a) \<in> set (c_reply c) \<Longrightarrow> 0 < refs c a"
  by (force simp: refs_def count_list_0_iff intro!: gr0I)

lemma world_take:
  assumes w: "world sv ext m (xs @ c # ys)"
  shows "send_inv sv (held_by ext (xs @ ys)) (joined m c)"
proof -
  let ?c = "joined m c" and ?e = "held_by ext (xs @ ys)"
  have o: "own_ok sv ?c" using w by (simp add: world_def)
  have h: "heap_ok ?e ?c"
  proof (rule heap_okI)
    fix a ob assume a: "c_heap ?c a = Some ob"
    show "a < c_next ?c \<and> v_wf (ob_encoding ob, ob_ptr ob) \<and> ob_refcount ob = ?e a + refs ?c a \<and> 0 < ob_refcount ob"
      using worldD(1) [OF w, of a ob] a unfolding held_by_split joined_simps by blast
  next
    fix a assume "0 < ?e a"
    then have "0 < held_by ext (xs @ c # ys) a" unfolding held_by_split by simp
    then show "\<exists>v. view (c_heap ?c) a = Some v \<and> snd v \<noteq> PNull" using worldD(2) [OF w] by simp
  qed (use o in \<open>auto simp: own_ok_def\<close>)
  have "list_all (\<lambda>(n, t). t \<noteq> None) (texts ?c)" unfolding list_all_iff texts_def
  proof clarsimp
    fix n a assume na: "(n, a) \<in> set (c_reply c)"
    have "0 < held_by ext (xs @ c # ys) a" unfolding held_by_split using refs_pos [OF na] by simp
    then have "\<exists>v. view (m_heap m) a = Some v \<and> snd v \<noteq> PNull" by (rule worldD(2) [OF w])
    then show "\<exists>y. v_text (view (m_heap m) a) = Some y" by (auto simp: v_text_def split: obj_ptr.splits)
  qed
  then show ?thesis using h o by (simp add: send_inv_def reply_inv_def own_ok_def no_holes_def ost_def)
qed

text \<open>What one client did, seen by the server and by the others.\<close>

lemma own_keeps:
  assumes o: "own_ok sv (joined m d)" and v: "\<And>a. 0 < refs d a \<Longrightarrow> view (c_heap c') a = view (m_heap m) a" and n: "m_next m \<le> c_next c'"
  shows "own_ok sv (joined (keep_heap c' m) d)" "ost (joined (keep_heap c' m) d) = ost (joined m d)"
proof -
  have vv: "view (c_heap c') a = view (m_heap m) a" if "a \<in> snd ` set (c_reply d)" for a
    using that v refs_pos by force
  have t: "texts (joined (keep_heap c' m) d) = texts (joined m d)" unfolding texts_def using texts_cong(1) [of "c_reply d", OF vv] by simp
  then show st: "ost (joined (keep_heap c' m) d) = ost (joined m d)" by (simp add: ost_def)
  have "map (\<lambda>(n, a). v_used sv (view (c_heap c') a)) (c_reply d) = map (\<lambda>(n, a). v_used sv (view (m_heap m) a)) (c_reply d)"
    by (rule texts_cong(2)) (rule vv)
  then have "mem_ok sv (joined (keep_heap c' m) d)" using o unfolding own_ok_def mem_ok_def joined_simps keep_heap_simps by (simp only:)
  moreover have "k < c_next c' \<and> (\<exists>v. view (c_heap c') a = Some v \<and> fst v \<noteq> REDIS_ENCODING_INT)" if ka: "(k, a) \<in> set (c_reply d)" for k a
  proof -
    have "a \<in> snd ` set (c_reply d)" using ka by force
    moreover have "k < m_next m \<and> (\<exists>v. view (m_heap m) a = Some v \<and> fst v \<noteq> REDIS_ENCODING_INT)" using o ka unfolding own_ok_def joined_simps by blast
    ultimately show ?thesis using vv [of a] n by simp
  qed
  then have "\<forall>(k, a)\<in>set (c_reply d). k < c_next c' \<and> (\<exists>v. view (c_heap c') a = Some v \<and> fst v \<noteq> REDIS_ENCODING_INT)" by blast
  ultimately show "own_ok sv (joined (keep_heap c' m) d)" using o st unfolding own_ok_def buf_ok_def joined_simps keep_heap_simps
    by (simp only: simp_thms)
qed

lemma world_swap:
  assumes w: "world sv ext0 m (xs @ c # ys)" and i: "send_inv sv (held_by ext (xs @ ys)) c'"
    and v: "\<And>a. 0 < held_by (\<lambda>_. 0) (xs @ ys) a \<Longrightarrow> view (c_heap c') a = view (m_heap m) a" and n: "m_next m \<le> c_next c'"
  shows "world sv ext (keep_heap c' m) (xs @ c' # ys)" "\<And>d. d \<in> set (xs @ ys) \<Longrightarrow> ost (joined (keep_heap c' m) d) = ost (joined m d)"
proof -
  let ?e = "held_by ext (xs @ ys)"
  have h: "heap_ok ?e c'" "buf_ok c'" "mem_ok sv c'" "sent_ok (c_sentlen c') (ost c')" "no_holes (ost c')"
    using i by (simp_all add: send_inv_def reply_inv_def)
  have d: "own_ok sv (joined (keep_heap c' m) d) \<and> ost (joined (keep_heap c' m) d) = ost (joined m d)" if "d \<in> set (xs @ ys)" for d
  proof -
    have "0 < refs d a \<Longrightarrow> 0 < held_by (\<lambda>_. 0) (xs @ ys) a" for a using held_by_member [OF that, of a "\<lambda>_. 0"] by simp
    moreover have "own_ok sv (joined m d)" using w that by (auto simp: world_def)
    ultimately show ?thesis using own_keeps [of sv m d c'] v n by blast
  qed
  then show "\<And>d. d \<in> set (xs @ ys) \<Longrightarrow> ost (joined (keep_heap c' m) d) = ost (joined m d)" by blast
  have c: "own_ok sv (joined (keep_heap c' m) c')" unfolding joined_keep own_ok_def
    using h heap_okD(6-8) [OF h(1)] by auto
  have r: "a < c_next c' \<and> v_wf (ob_encoding ob, ob_ptr ob) \<and> ob_refcount ob = held_by ext (xs @ c' # ys) a \<and> 0 < ob_refcount ob"
    if "c_heap c' a = Some ob" for a ob using heap_okD(1-4) [OF h(1) that] unfolding held_by_split by simp
  have p: "\<exists>v. view (c_heap c') a = Some v \<and> snd v \<noteq> PNull" if "0 < held_by ext (xs @ c' # ys) a" for a
  proof (cases "0 < ?e a")
    case True
    then show ?thesis by (rule heap_okD(5) [OF h(1)])
  next
    case False
    then have "0 < refs c' a" using that unfolding held_by_split by simp
    then have "a \<in> snd ` set (c_reply c')" by (simp add: refs_def) (metis count_list_0_iff image_set neq0_conv)
    then obtain k where k: "(k, a) \<in> set (c_reply c')" by auto
    then have "(k, v_text (view (c_heap c') a)) \<in> set (texts c')" by (force simp: texts_def)
    then have "v_text (view (c_heap c') a) \<noteq> None" using h(5) unfolding no_holes_def ost_def list_all_iff by fastforce
    then show ?thesis by (auto simp: v_text_def split: option.splits prod.splits obj_ptr.splits)
  qed
  show "world sv ext (keep_heap c' m) (xs @ c' # ys)"
  proof (rule worldI)
    show "own_ok sv (joined (keep_heap c' m) d)" if "d \<in> set (xs @ c' # ys)" for d using that c d [of d] by auto
  qed (unfold keep_heap_simps, fact r, fact p)
qed


lemma world_put:
  assumes "world sv ext m (xs @ c # ys)" "send_inv sv (held_by ext (xs @ ys)) c'"
    "\<And>a. 0 < held_by ext (xs @ ys) a \<Longrightarrow> view (c_heap c') a = view (m_heap m) a" "m_next m \<le> c_next c'"
  shows "world sv ext (keep_heap c' m) (xs @ c' # ys)" "\<And>d. d \<in> set (xs @ ys) \<Longrightarrow> ost (joined (keep_heap c' m) d) = ost (joined m d)"
proof -
  have "0 < held_by (\<lambda>_. 0) (xs @ ys) a \<Longrightarrow> 0 < held_by ext (xs @ ys) a" for a by (simp add: held_by_def)
  then have "0 < held_by (\<lambda>_. 0) (xs @ ys) a \<Longrightarrow> view (c_heap c') a = view (m_heap m) a" for a using assms(3) by blast
  note swap = world_swap [OF assms(1,2) this assms(4)]
  show "world sv ext (keep_heap c' m) (xs @ c' # ys)" by (rule swap(1))
  show "\<And>d. d \<in> set (xs @ ys) \<Longrightarrow> ost (joined (keep_heap c' m) d) = ost (joined m d)" by (rule swap(2))
qed

text \<open>Objects that only the server uses: the record without output.\<close>

lemma refs_no_client [simp]: "refs no_client a = 0" "c_reply no_client = []"
  by (simp_all add: refs_def no_client_def)

text \<open>A client without output changes nothing.\<close>

lemma world_idle:
  assumes w: "world sv ext m cs"
    and c: "c_reply c = []" "c_bufpos c = 0" "c_sentlen c = 0" "c_reply_bytes c = 0" "length (c_buf c) = REDIS_REPLY_CHUNK_BYTES"
  shows "world sv ext m (cs @ [c])"
proof (rule worldI)
  have h: "held_by ext (cs @ [c]) = held_by ext cs" using c(1) by (simp add: held_by_def refs_def fun_eq_iff)
  have o: "own_ok sv (joined m c)" using c by (simp add: own_ok_def buf_ok_def mem_ok_def sent_ok_def ost_def texts_def)
  show "a < m_next m \<and> v_wf (ob_encoding ob, ob_ptr ob) \<and> ob_refcount ob = held_by ext (cs @ [c]) a \<and> 0 < ob_refcount ob"
    if "m_heap m a = Some ob" for a ob using worldD(1) [OF w that] unfolding h .
  show "\<exists>v. view (m_heap m) a = Some v \<and> snd v \<noteq> PNull" if "0 < held_by ext (cs @ [c]) a" for a
    using worldD(2) [OF w] that unfolding h .
  show "own_ok sv (joined m d)" if "d \<in> set (cs @ [c])" for d using that o worldD(3) [OF w] by auto
qed

lemma world_no_client: "world sv ext m cs \<Longrightarrow> world sv ext m (cs @ [no_client])"
  by (rule world_idle) (simp_all add: no_client_def)

lemma world_drop_last: "world sv ext m (cs @ [c]) \<Longrightarrow> c_reply c = [] \<Longrightarrow> world sv ext m cs"
proof (rule worldI)
  assume w: "world sv ext m (cs @ [c])" and "c_reply c = []"
  then have h: "held_by ext (cs @ [c]) = held_by ext cs" by (simp add: held_by_def refs_def fun_eq_iff)
  show "a < m_next m \<and> v_wf (ob_encoding ob, ob_ptr ob) \<and> ob_refcount ob = held_by ext cs a \<and> 0 < ob_refcount ob" if "m_heap m a = Some ob" for a ob
    using worldD(1) [OF w that] unfolding h .
  show "\<exists>v. view (m_heap m) a = Some v \<and> snd v \<noteq> PNull" if "0 < held_by ext cs a" for a
    by (rule worldD(2) [OF w]) (use that h in simp)
  show "own_ok sv (joined m d)" if "d \<in> set cs" for d using worldD(3) [OF w, of d] that by simp
qed

section \<open>One reply to every slave\<close>

lemma accepts_joined: "accepts sv (joined m c) = accepts sv c"
  by (simp add: accepts_def has_flag_def)

lemma shared_joined:
  "shared_ok ext sh (joined m no_client) \<Longrightarrow> (\<And>a. ext a \<le> e a) \<Longrightarrow> shared_ok e sh (joined m c)"
  unfolding shared_ok_def obj_text_def joined_simps by (meson less_le_trans)

definition rest_same :: "master \<Rightarrow> master \<Rightarrow> bool" where
  "rest_same m m' \<longleftrightarrow> (\<exists>h n. m' = m\<lparr>m_heap := h, m_next := n\<rparr>)"

lemma rest_same_refl: "rest_same m m"
  unfolding rest_same_def by (intro exI [of _ "m_heap m"] exI [of _ "m_next m"]) simp

lemma rest_same_keep: "rest_same (keep_heap c m) m' \<Longrightarrow> rest_same m m'"
  unfolding rest_same_def keep_heap_def by auto

text \<open>The reply \<open>s\<close> was added to the output of a client, and its other fields are as before.\<close>

definition took :: "master \<Rightarrow> redisClient \<Rightarrow> bytes \<Rightarrow> master \<Rightarrow> redisClient \<Rightarrow> bool" where
  "took m c s m' c' \<longleftrightarrow> chain (ost (joined m c)) s (ost (joined m' c')) \<and> rframe (\<lambda>_. 0) c c'"

lemma frame_0: "rframe e (joined m c) c' \<Longrightarrow> rframe (\<lambda>_. 0) c c'"
  by (simp add: rframe_def joined_def on_heap_def has_flag_def)

text \<open>
  What is asked of a function that replies to every slave: it works whatever else is on the
  heap, as long as the objects that are held from outside have the values \<open>V\<close>.
\<close>

definition feeds :: "server_env \<Rightarrow> shared_objects \<Rightarrow> (nat \<Rightarrow> nat) \<Rightarrow> (nat \<Rightarrow> (encoding \<times> obj_ptr) option) \<Rightarrow>
    (nat \<Rightarrow> bytes) \<Rightarrow> (redisClient \<Rightarrow> redisClient option) \<Rightarrow> bool" where
  "feeds sv sh ext V txt f \<longleftrightarrow> (\<forall>e c. ready sv e sh c \<and> (\<forall>a. ext a \<le> e a) \<and> (\<forall>a. 0 < ext a \<longrightarrow> view (c_heap c) a = V a) \<longrightarrow>
     (\<exists>c'. f c = Some c' \<and> appended sv e c (txt (c_replstate c)) c' \<and> c_next c \<le> c_next c'))"

lemma feedsD:
  assumes "feeds sv sh ext V txt f" "ready sv e sh c" "\<And>a. ext a \<le> e a" "\<And>a. 0 < ext a \<Longrightarrow> view (c_heap c) a = V a"
  shows "\<exists>c'. f c = Some c' \<and> appended sv e c (txt (c_replstate c)) c' \<and> c_next c \<le> c_next c'"
  using assms unfolding feeds_def by blast

lemma world_cong: "m_heap m' = m_heap m \<Longrightarrow> m_next m' = m_next m \<Longrightarrow> world sv ext m' cs = world sv ext m cs"
  unfolding world_def joined_def by (simp only:)

lemma each_client_ok:
  assumes f: "feeds sv sh ext V txt f"
    and "world sv ext m (xs @ cs)" "\<forall>c\<in>set cs. accepts sv c" "shared_ok ext sh (joined m no_client)"
      "\<And>a. 0 < ext a \<Longrightarrow> view (m_heap m) a = V a"
  shows "\<exists>cs' m'. each_client f cs m = Some (cs', m') \<and> world sv ext m' (xs @ cs') \<and>
    list_all2 (\<lambda>c c'. took m c (txt (c_replstate c)) m' c') cs cs' \<and>
    (\<forall>d\<in>set xs. ost (joined m' d) = ost (joined m d)) \<and> (\<forall>a. 0 < ext a \<longrightarrow> view (m_heap m') a = V a) \<and> rest_same m m'"
  using assms(2-)
proof (induction cs arbitrary: xs m)
  case Nil
  then show ?case by (simp add: rest_same_refl)
next
  case (Cons c cs)
  let ?e = "held_by ext (xs @ cs)"
  have i: "send_inv sv ?e (joined m c)" by (rule world_take [OF Cons.prems(1)])
  have r: "ready sv ?e sh (joined m c)"
    using i Cons.prems(2) shared_joined [OF Cons.prems(3), of ?e c] held_by_ge [of ext _ "xs @ cs"] by (simp add: ready_def send_inv_def accepts_joined)
  have "\<exists>c'. f (joined m c) = Some c' \<and> appended sv ?e (joined m c) (txt (c_replstate (joined m c))) c' \<and> c_next (joined m c) \<le> c_next c'"
    by (rule feedsD [OF f r]) (use held_by_ge Cons.prems(4) in simp_all)
  then obtain c' where c': "f (joined m c) = Some c'" "appended sv ?e (joined m c) (txt (c_replstate c)) c'" "m_next m \<le> c_next c'" by auto
  have fr: "rframe ?e (joined m c) c'" and ch: "chain (ost (joined m c)) (txt (c_replstate c)) (ost c')"
    using c'(2) by (simp_all add: appended_def)
  have i': "send_inv sv ?e c'" using appended_delivers [OF i c'(2)] by (simp add: delivers_def)
  have v: "view (c_heap c') a = view (m_heap m) a" if "0 < ?e a" for a using fr that by (simp add: rframe_def)
  define m1 where "m1 = keep_heap c' m"
  note put = world_put [OF Cons.prems(1) i' v c'(3), folded m1_def]
  have v1: "view (m_heap m1) a = view (m_heap m) a" if "0 < ext a" for a
    using v [of a] that held_by_ge [of ext a "xs @ cs"] by (simp add: m1_def)
  have s1: "shared_ok ext sh (joined m1 no_client)" using Cons.prems(3) v1 by (simp add: shared_ok_def obj_text_def)
  have "world sv ext m1 ((xs @ [c']) @ cs)" using put(1) by simp
  from Cons.IH [OF this _ s1] v1 Cons.prems(2,4) obtain cs' m' where
    s: "each_client f cs m1 = Some (cs', m')" "world sv ext m' ((xs @ [c']) @ cs')"
      "list_all2 (\<lambda>c c'. took m1 c (txt (c_replstate c)) m' c') cs cs'"
      "\<forall>d\<in>set (xs @ [c']). ost (joined m' d) = ost (joined m1 d)" "\<forall>a. 0 < ext a \<longrightarrow> view (m_heap m') a = V a" "rest_same m1 m'" by auto
  have "list_all2 (\<lambda>c c'. took m c (txt (c_replstate c)) m' c') cs cs'"
    by (rule list.rel_mono_strong [OF s(3)]) (use put(2) in \<open>auto simp: took_def\<close>)
  moreover have "took m c (txt (c_replstate c)) m' c'"
    using ch s(4) frame_0 [OF fr] joined_keep [of c' m] by (simp add: took_def m1_def)
  moreover have "\<forall>d\<in>set xs. ost (joined m' d) = ost (joined m d)" using s(4) put(2) by simp
  ultimately show ?case using c'(1) s rest_same_keep [of c' m m'] by (simp add: m1_def)
qed

lemma each_slave_ok:
  assumes "feeds sv sh ext (view (m_heap m)) txt f" and "world sv ext m (slaves m)" "\<forall>c\<in>set (slaves m). accepts sv c" "shared_ok ext sh (joined m no_client)"
  shows "\<exists>m'. each_slave f m = Some m' \<and> world sv ext m' (slaves m') \<and>
    list_all2 (\<lambda>c c'. took m c (txt (c_replstate c)) m' c') (slaves m) (slaves m') \<and>
    (\<forall>a. 0 < ext a \<longrightarrow> view (m_heap m') a = view (m_heap m) a) \<and>
    m' = m\<lparr>m_heap := m_heap m', m_next := m_next m', slaves := slaves m'\<rparr>"
proof -
  from each_client_ok [OF assms(1), of m "[]" "slaves m"] assms(2-) obtain cs' m' where
    m': "each_client f (slaves m) m = Some (cs', m')" "world sv ext m' cs'" "list_all2 (\<lambda>c c'. took m c (txt (c_replstate c)) m' c') (slaves m) cs'"
      "\<forall>a. 0 < ext a \<longrightarrow> view (m_heap m') a = view (m_heap m) a" "rest_same m m'" by auto
  have j: "joined (m'\<lparr>slaves := cs'\<rparr>) = joined m'" by (simp add: joined_def fun_eq_iff)
  have "world sv ext (m'\<lparr>slaves := cs'\<rparr>) cs'" using m'(2) world_cong [of "m'\<lparr>slaves := cs'\<rparr>" m'] by simp
  moreover have "took m c s (m'\<lparr>slaves := cs'\<rparr>) = took m c s m'" for c s by (simp add: took_def j fun_eq_iff)
  moreover obtain h n where "m' = m\<lparr>m_heap := h, m_next := n\<rparr>" using m'(5) unfolding rest_same_def by blast
  ultimately show ?thesis using m' by (simp add: each_slave_def)
qed

end
