(* ===== verification/Replication.thy ===== *)
theory Replication
  imports Slaves
begin

text \<open>
  The master side of replication in \<open>replication.c\<close>: the commands that are fed to the
  backlog and to the slaves, the partial and full resynchronisation of a slave, and the
  states of the slaves around a background save.  All slaves share the object heap of the
  server, and an argument of a command is one object in the output of all of them.
\<close>

section \<open>Feeding commands\<close>

definition select_format :: "i64 \<Rightarrow> bytes \<Rightarrow> bytes" where
  "select_format len s = lit ''*2'' @ CRLF @ lit ''$6'' @ CRLF @ lit ''SELECT'' @ CRLF @ 36 # print_ll len @ CRLF @ c_str s @ CRLF"

definition newSelectCmd :: "server_env \<Rightarrow> nat \<Rightarrow> int \<Rightarrow> master \<Rightarrow> (nat \<times> master) option" where
  "newSelectCmd sv llsize dictid m = do {
     (llstr, len) \<leftarrow> ll2string (mem_alloc (sv_fresh sv) llsize) llsize (word_of_int dictid);
     s \<leftarrow> sdsempty (sv_fresh sv);
     s \<leftarrow> sdscat (sv_fresh sv) s (select_format (word_of_nat len) llstr @ [0]);
     let (a, c) = createObject (PSds s) (joined m no_client);
     Some (a, keep_heap c m) }"

fun createSelectCmds :: "server_env \<Rightarrow> nat list \<Rightarrow> master \<Rightarrow> (nat list \<times> master) option" where
  "createSelectCmds sv [] m = Some ([], m)"
| "createSelectCmds sv (j # js) m = do {
     (a, m) \<leftarrow> newSelectCmd sv 64 (int j) m;
     (as, m) \<leftarrow> createSelectCmds sv js m;
     Some (a # as, m) }"

definition is_shared_db :: "int \<Rightarrow> bool" where
  "is_shared_db dictid \<longleftrightarrow> 0 \<le> dictid \<and> dictid < int REDIS_SHARED_SELECT_CMDS"

definition feedSelect :: "server_env \<Rightarrow> nat list \<Rightarrow> int \<Rightarrow> master \<Rightarrow> master option" where
  "feedSelect sv sel dictid m = do {
     (selectcmd, m) \<leftarrow> (if is_shared_db dictid then do { a \<leftarrow> mem_get (nat dictid) sel; Some (a, m) }
                        else newSelectCmd sv REDIS_LONGSTR_SIZE dictid m);
     m \<leftarrow> (if repl_backlog m \<noteq> None then feedReplicationBacklogWithObject (sv_fresh sv) selectcmd m else Some m);
     m \<leftarrow> each_slave (addReply sv selectcmd) m;
     (if is_shared_db dictid then Some m
      else do { c \<leftarrow> decrRefCount selectcmd (joined m no_client); Some (keep_heap c m) }) }"

definition stringObjectLen :: "fresh_mem \<Rightarrow> nat \<Rightarrow> master \<Rightarrow> nat option" where
  "stringObjectLen fresh a m = do {
     ob \<leftarrow> m_heap m a;
     (case (ob_encoding ob, ob_ptr ob) of
        (REDIS_ENCODING_INT, PInt n) \<Rightarrow> do { (buf, len) \<leftarrow> ll2string (mem_alloc fresh 32) 32 n; Some len }
      | (REDIS_ENCODING_INT, _) \<Rightarrow> None
      | (_, PSds s) \<Rightarrow> Some (sdslen s)
      | _ \<Rightarrow> None) }"

text \<open>The buffer \<open>aux\<close> with a prefix, a number and the end of the line, and the length of the number.\<close>

definition auxHeader :: "bytes \<Rightarrow> byte \<Rightarrow> i64 \<Rightarrow> (bytes \<times> nat) option" where
  "auxHeader aux prefix v = do {
     aux \<leftarrow> mem_set 0 prefix aux;
     (rest, len) \<leftarrow> ll2string (drop 1 aux) (length aux - 1) v;
     let aux = take 1 aux @ rest;
     aux \<leftarrow> mem_set (len + 1) 13 aux;
     aux \<leftarrow> mem_set (len + 2) 10 aux;
     Some (aux, len) }"

fun feedArgs :: "fresh_mem \<Rightarrow> nat list \<Rightarrow> bytes \<Rightarrow> master \<Rightarrow> master option" where
  "feedArgs fresh [] aux m = Some m"
| "feedArgs fresh (a # as) aux m = do {
     objlen \<leftarrow> stringObjectLen fresh a m;
     (aux, len) \<leftarrow> auxHeader aux 36 (word_of_nat objlen);
     m \<leftarrow> feedReplicationBacklog aux (len + 3) m;
     m \<leftarrow> feedReplicationBacklogWithObject fresh a m;
     m \<leftarrow> feedReplicationBacklog (drop (len + 1) aux) 2 m;
     feedArgs fresh as aux m }"

definition feedCommand :: "fresh_mem \<Rightarrow> nat list \<Rightarrow> master \<Rightarrow> master option" where
  "feedCommand fresh argv m = do {
     let aux = mem_alloc fresh (REDIS_LONGSTR_SIZE + 3);
     (aux, len) \<leftarrow> auxHeader aux 42 (word_of_nat (length argv));
     m \<leftarrow> feedReplicationBacklog aux (len + 3) m;
     feedArgs fresh argv aux m }"

definition feedSlave :: "server_env \<Rightarrow> shared_objects \<Rightarrow> nat list \<Rightarrow> redisClient \<Rightarrow> redisClient option" where
  "feedSlave sv sh argv slave =
     (if c_replstate slave = REDIS_REPL_WAIT_BGSAVE_START then Some slave
      else do {
        slave \<leftarrow> addReplyMultiBulkLen sv sh (word_of_nat (length argv)) slave;
        for_each argv (addReplyBulk sv sh) slave })"

text \<open>
  The argument \<open>slaves\<close> of the function is \<open>server.slaves\<close> in all calls.  \<open>sel\<close> are the
  shared commands that select a database, \<open>argv\<close> the addresses of the arguments.
\<close>

definition replicationFeedSlaves :: "server_env \<Rightarrow> shared_objects \<Rightarrow> nat list \<Rightarrow> int \<Rightarrow> nat list \<Rightarrow> master \<Rightarrow> master option" where
  "replicationFeedSlaves sv sh sel dictid argv m =
     (if repl_backlog m = None \<and> slaves m = [] then Some m
      else if slaves m \<noteq> [] \<and> repl_backlog m = None then None
      else do {
        m \<leftarrow> (if slaveseldb m \<noteq> dictid then feedSelect sv sel dictid m else Some m);
        let m = m\<lparr>slaveseldb := dictid\<rparr>;
        m \<leftarrow> (if repl_backlog m \<noteq> None then feedCommand (sv_fresh sv) argv m else Some m);
        each_slave (feedSlave sv sh argv) m })"

section \<open>Resynchronisation\<close>

text \<open>
  \<open>strtoll\<close> in base ten: the value, the text behind the number and whether the value was
  out of range.
\<close>

definition isdigit :: "byte \<Rightarrow> bool" where
  "isdigit c \<longleftrightarrow> 48 \<le> c \<and> c \<le> 57"

definition strtoll :: "bytes \<Rightarrow> int \<times> bytes \<times> bool" where
  "strtoll s =
     (let p = dropWhile isspace s;
          neg = (p \<noteq> [] \<and> hd p = 45);
          q = (if p \<noteq> [] \<and> (hd p = 45 \<or> hd p = 43) then tl p else p);
          ds = takeWhile isdigit q;
          n = foldl (\<lambda>n d. 10 * n + int (unat (d - 48))) 0 ds;
          v = (if neg then - n else n) in
      if ds = [] then (0, s, False)
      else if v < - (2 ^ 63) then (- (2 ^ 63), dropWhile isdigit q, True)
      else if v \<ge> 2 ^ 63 then (2 ^ 63 - 1, dropWhile isdigit q, True)
      else (v, dropWhile isdigit q, False))"

text \<open>The object is a string that was read from a client; it ends with a NUL.\<close>

definition getLongLongFromObject :: "bytes \<Rightarrow> int option" where
  "getLongLongFromObject s =
     (let (value, rest, range) = strtoll (c_str s) in
      if (s \<noteq> [] \<and> isspace (hd s)) \<or> rest \<noteq> [] \<or> range then None else Some value)"

definition getLongLongFromObjectOrReply :: "server_env \<Rightarrow> bytes \<Rightarrow> redisClient \<Rightarrow> (int option \<times> redisClient) option" where
  "getLongLongFromObjectOrReply sv s c =
     (case getLongLongFromObject s of
        None \<Rightarrow> do { c \<leftarrow> addReplyError sv (lit ''value is not an integer or out of range'' @ [0]) c; Some (None, c) }
      | Some v \<Rightarrow> Some (Some v, c))"

definition refreshGoodSlavesCount :: "server_env \<Rightarrow> master \<Rightarrow> master" where
  "refreshGoodSlavesCount sv m =
     (if repl_min_slaves_to_write m = 0 \<or> repl_min_slaves_max_lag m = 0 then m
      else m\<lparr>repl_good_slaves_count := length (filter (\<lambda>slave.
          c_replstate slave = REDIS_REPL_ONLINE \<and> sv_unixtime sv - c_repl_ack_time slave \<le> repl_min_slaves_max_lag m) (slaves m))\<rparr>)"

text \<open>
  The direct writes to the socket: \<open>wr\<close> is the number of bytes that the call takes.  The
  result is whether the function returned \<open>REDIS_OK\<close>, the bytes written, the client and the
  server; when the client became a slave it is the last one of the list.
\<close>

definition fullResyncReply :: "nat \<Rightarrow> master \<Rightarrow> redisClient \<Rightarrow> (bool \<times> bytes \<times> redisClient \<times> master) option" where
  "fullResyncReply wr m c =
     (let psync_offset = master_repl_offset m;
          psync_offset = (if repl_backlog m = None then psync_offset + 1 else psync_offset);
          buf = lit ''+FULLRESYNC '' @ c_str (runid m) @ [32] @ print_ll (word_of_int psync_offset) @ CRLF in
      if length buf \<ge> 128 then None
      else if wr < length buf then Some (True, take wr buf, freeClientAsync c, m)
      else Some (False, buf, c, m))"

definition masterTryPartialResynchronization :: "server_env \<Rightarrow> nat \<Rightarrow> master \<Rightarrow> redisClient \<Rightarrow> (bool \<times> bytes \<times> redisClient \<times> master) option" where
  "masterTryPartialResynchronization sv wr m c = do {
     master_runid \<leftarrow> mem_get 1 (c_argv c);
     (if \<not> strcaseeq master_runid (runid m) then fullResyncReply wr m c
      else do {
        arg \<leftarrow> mem_get 2 (c_argv c);
        (psync_offset, c) \<leftarrow> getLongLongFromObjectOrReply sv arg (joined m c);
        let m = keep_heap c m;
        (case psync_offset of
           None \<Rightarrow> fullResyncReply wr m c
         | Some psync_offset \<Rightarrow>
             if repl_backlog m = None \<or> psync_offset < repl_backlog_off m \<or>
                psync_offset > repl_backlog_off m + int (repl_backlog_histlen m) then fullResyncReply wr m c
             else do {
               let c = (set_flag REDIS_SLAVE c)\<lparr>c_replstate := REDIS_REPL_ONLINE, c_repl_ack_time := sv_unixtime sv, c_put_online_on_ack := False\<rparr>;
               let buf = lit ''+CONTINUE'' @ CRLF;
               (if wr < length buf then let c = freeClientAsync c in Some (True, take wr buf, c, m\<lparr>slaves := slaves m @ [c]\<rparr>)
                else do {
                  (psync_len, c) \<leftarrow> addReplyReplicationBacklog sv psync_offset m c;
                  let m = (keep_heap c m)\<lparr>slaves := slaves m @ [c]\<rparr>;
                  Some (True, buf, c, refreshGoodSlavesCount sv m) }) }) }) }"

text \<open>
  \<open>copyClientOutputBuffer\<close>: the list of the destination is released, the nodes of the
  source are copied and every object gets one more reference.
\<close>

definition releaseReply :: "redisClient \<Rightarrow> redisClient option" where
  "releaseReply c = do {
     c \<leftarrow> for_each (map snd (c_reply c)) decrRefCount c;
     Some (c\<lparr>c_reply := []\<rparr>) }"

definition copyClientOutputBuffer :: "redisClient \<Rightarrow> redisClient \<Rightarrow> redisClient option" where
  "copyClientOutputBuffer dst src = do {
     dst \<leftarrow> releaseReply dst;
     dst \<leftarrow> for_each (map snd (c_reply src)) (\<lambda>a c. do { c \<leftarrow> incrRefCount a c; Some (listAddTail a c) }) dst;
     xs \<leftarrow> mem_read 0 (c_bufpos src) (c_buf src);
     buf \<leftarrow> mem_write 0 xs (c_buf dst);
     Some (dst\<lparr>c_buf := buf, c_bufpos := c_bufpos src, c_reply_bytes := c_reply_bytes src\<rparr>) }"

text \<open>
  \<open>bgsave\<close> is the result of \<open>startBgsaveForReplication\<close>, which forks the child that writes
  the file.
\<close>

definition startBgsave :: "bool \<Rightarrow> master \<Rightarrow> master" where
  "startBgsave bgsave m = (if bgsave then m\<lparr>rdb_child :=
     Some (if repl_diskless_sync m then REDIS_RDB_CHILD_TYPE_SOCKET else REDIS_RDB_CHILD_TYPE_DISK)\<rparr> else m)"

definition waitForBgsave :: "server_env \<Rightarrow> bool \<Rightarrow> master \<Rightarrow> redisClient \<Rightarrow> (bool \<times> redisClient \<times> master) option" where
  "waitForBgsave sv bgsave m c =
     (case rdb_child m of
        Some REDIS_RDB_CHILD_TYPE_DISK \<Rightarrow>
          (case List.find (\<lambda>slave. c_replstate slave = REDIS_REPL_WAIT_BGSAVE_END) (slaves m) of
             Some slave \<Rightarrow> do {
               c \<leftarrow> copyClientOutputBuffer (joined m c) slave;
               Some (True, c\<lparr>c_replstate := REDIS_REPL_WAIT_BGSAVE_END\<rparr>, keep_heap c m) }
           | None \<Rightarrow> Some (True, c\<lparr>c_replstate := REDIS_REPL_WAIT_BGSAVE_START\<rparr>, m))
      | Some REDIS_RDB_CHILD_TYPE_SOCKET \<Rightarrow> Some (True, c\<lparr>c_replstate := REDIS_REPL_WAIT_BGSAVE_START\<rparr>, m)
      | None \<Rightarrow>
          if repl_diskless_sync m then Some (True, c\<lparr>c_replstate := REDIS_REPL_WAIT_BGSAVE_START\<rparr>, m)
          else if \<not> bgsave then do {
            c \<leftarrow> addReplyError sv (lit ''Unable to perform background save'' @ [0]) (joined m c);
            Some (False, c, keep_heap c m) }
          else Some (True, c\<lparr>c_replstate := REDIS_REPL_WAIT_BGSAVE_END\<rparr>, startBgsave True m))"

definition fullResync :: "server_env \<Rightarrow> bool \<Rightarrow> bytes \<Rightarrow> master \<Rightarrow> redisClient \<Rightarrow> (bytes \<times> redisClient \<times> master) option" where
  "fullResync sv bgsave out m c = do {
     let m = m\<lparr>stat_sync_full := stat_sync_full m + 1\<rparr>;
     (ok, c, m) \<leftarrow> waitForBgsave sv bgsave m c;
     (if \<not> ok then Some (out, c, m)
      else do {
        let c = set_flag REDIS_SLAVE c;
        let m = m\<lparr>slaveseldb := - 1, slaves := slaves m @ [c]\<rparr>;
        m \<leftarrow> (if length (slaves m) = 1 \<and> repl_backlog m = None then createReplicationBacklog (sv_fresh sv) m else Some m);
        Some (out, c, m) }) }"

definition syncCommand :: "server_env \<Rightarrow> nat \<Rightarrow> bool \<Rightarrow> master \<Rightarrow> redisClient \<Rightarrow> (bytes \<times> redisClient \<times> master) option" where
  "syncCommand sv wr bgsave m c =
     (if has_flag REDIS_SLAVE c then Some ([], c, m)
      else if masterhost m \<and> \<not> master_link_up m then do {
        c \<leftarrow> addReplyError sv (lit ''Can't SYNC while not connected with my master'' @ [0]) (joined m c);
        Some ([], c, keep_heap c m) }
      else if length (c_reply c) \<noteq> 0 \<or> c_bufpos c \<noteq> 0 then do {
        c \<leftarrow> addReplyError sv (lit ''SYNC and PSYNC are invalid with pending output'' @ [0]) (joined m c);
        Some ([], c, keep_heap c m) }
      else do {
        cmd \<leftarrow> mem_get 0 (c_argv c);
        (if strcaseeq cmd (lit ''psync'') then do {
           (ok, out, c, m) \<leftarrow> masterTryPartialResynchronization sv wr m c;
           (if ok then Some (out, c, m\<lparr>stat_sync_partial_ok := stat_sync_partial_ok m + 1\<rparr>)
            else do {
              master_runid \<leftarrow> mem_get 1 (c_argv c);
              let m = (if take 1 master_runid \<noteq> [63] then m\<lparr>stat_sync_partial_err := stat_sync_partial_err m + 1\<rparr> else m);
              fullResync sv bgsave out m c }) }
         else fullResync sv bgsave [] m (set_flag REDIS_PRE_PSYNC c)) })"

section \<open>The end of a background save\<close>

text \<open>
  \<open>freeClient\<close> of a slave: the references of its output are released; the caller takes it
  out of the list.
\<close>

definition freeSlave :: "redisClient \<Rightarrow> master \<Rightarrow> master option" where
  "freeSlave c m = do { c \<leftarrow> releaseReply (joined m c); Some (keep_heap c m) }"

text \<open>
  The loop of \<open>updateSlavesWaitingBgsave\<close>: \<open>kept\<close> are the slaves in front of the current
  one, \<open>ok\<close> is the result of the save, \<open>opens\<close> says for which slaves the file can be
  opened.  The file is sent by the handler \<open>sendBulkToSlave\<close>, not by \<open>sendReplyToClient\<close>.
\<close>

fun updateSlavesLoop :: "server_env \<Rightarrow> bool \<Rightarrow> rdb_child \<Rightarrow> (redisClient \<Rightarrow> bool) \<Rightarrow> bool \<Rightarrow> redisClient list \<Rightarrow> redisClient list \<Rightarrow> master \<Rightarrow>
    (bool \<times> master) option" where
  "updateSlavesLoop sv ok type opens start kept [] m = Some (start, m\<lparr>slaves := kept\<rparr>)"
| "updateSlavesLoop sv ok type opens start kept (slave # rest) m =
     (if c_replstate slave = REDIS_REPL_WAIT_BGSAVE_START then
        updateSlavesLoop sv ok type opens True (kept @ [slave\<lparr>c_replstate := REDIS_REPL_WAIT_BGSAVE_END\<rparr>]) rest m
      else if c_replstate slave = REDIS_REPL_WAIT_BGSAVE_END then
        (if type = REDIS_RDB_CHILD_TYPE_SOCKET then
           updateSlavesLoop sv ok type opens start
             (kept @ [slave\<lparr>c_replstate := REDIS_REPL_ONLINE, c_put_online_on_ack := True, c_repl_ack_time := sv_unixtime sv\<rparr>]) rest m
         else if \<not> ok \<or> \<not> opens slave \<or> \<not> sv_ae_ok sv then do {
           m \<leftarrow> freeSlave slave m;
           updateSlavesLoop sv ok type opens start kept rest (refreshGoodSlavesCount sv (m\<lparr>slaves := kept @ rest\<rparr>)) }
         else updateSlavesLoop sv ok type opens start (kept @ [slave\<lparr>c_replstate := REDIS_REPL_SEND_BULK, c_wevent := False\<rparr>]) rest m)
      else updateSlavesLoop sv ok type opens start (kept @ [slave]) rest m)"

fun freeWaiting :: "server_env \<Rightarrow> redisClient list \<Rightarrow> redisClient list \<Rightarrow> master \<Rightarrow> master option" where
  "freeWaiting sv kept [] m = Some (m\<lparr>slaves := kept\<rparr>)"
| "freeWaiting sv kept (slave # rest) m =
     (if c_replstate slave = REDIS_REPL_WAIT_BGSAVE_START then do {
        m \<leftarrow> freeSlave slave m;
        freeWaiting sv kept rest (refreshGoodSlavesCount sv (m\<lparr>slaves := kept @ rest\<rparr>)) }
      else freeWaiting sv (kept @ [slave]) rest m)"

definition updateSlavesWaitingBgsave :: "server_env \<Rightarrow> bool \<Rightarrow> rdb_child \<Rightarrow> (redisClient \<Rightarrow> bool) \<Rightarrow> bool \<Rightarrow> master \<Rightarrow> master option" where
  "updateSlavesWaitingBgsave sv ok type opens bgsave m = do {
     (start, m) \<leftarrow> updateSlavesLoop sv ok type opens False [] (slaves m) m;
     (if \<not> start then Some m
      else if bgsave then Some (startBgsave True m)
      else freeWaiting sv [] (slaves m) m) }"

section \<open>Addresses\<close>

lemma next_feedSlave: "feedSlave sv sh argv c = Some c' \<Longrightarrow> c_next c \<le> c_next c'"
  by (auto simp: feedSlave_def dest!: next_mbulk next_for_each [of "addReplyBulk sv sh", OF next_bulk, rotated] split: bind_splits if_splits)


section \<open>Feeding the backlog\<close>

lemma fed_simps [simp]:
  assumes "fed m n m'"
  shows "m_heap m' = m_heap m" "m_next m' = m_next m" "slaves m' = slaves m" "slaveseldb m' = slaveseldb m"
    "master_repl_offset m' = master_repl_offset m + int n" "repl_backlog_size m' = repl_backlog_size m" "runid m' = runid m" "masterhost m' = masterhost m"
    "joined m' c = joined m c"
proof -
  obtain b i h l where m': "m' = m\<lparr>repl_backlog := b, repl_backlog_idx := i, repl_backlog_histlen := h,
     repl_backlog_off := l, master_repl_offset := master_repl_offset m + int n\<rparr>"
    using assms unfolding fed_def by blast
  show "m_heap m' = m_heap m" "m_next m' = m_next m" "slaves m' = slaves m" "slaveseldb m' = slaveseldb m"
    "master_repl_offset m' = master_repl_offset m + int n" "repl_backlog_size m' = repl_backlog_size m" "runid m' = runid m" "masterhost m' = masterhost m"
    "joined m' c = joined m c"
    unfolding m' by (simp_all add: joined_def)
qed

lemma fedI:
  assumes "m' = m\<lparr>repl_backlog := b, repl_backlog_idx := i, repl_backlog_histlen := h,
     repl_backlog_off := l, master_repl_offset := master_repl_offset m + int n\<rparr>"
  shows "fed m n m'"
  unfolding fed_def assms by simp

lemma fed_refl: "fed m 0 m"
  by (rule fedI [where b = "repl_backlog m" and i = "repl_backlog_idx m" and h = "repl_backlog_histlen m" and l = "repl_backlog_off m"]) simp

lemma fed_trans: "fed m k m1 \<Longrightarrow> fed m1 n m2 \<Longrightarrow> fed m (k + n) m2"
proof -
  assume "fed m k m1" "fed m1 n m2"
  then obtain b i h l b' i' h' l' where
    m1: "m1 = m\<lparr>repl_backlog := b, repl_backlog_idx := i, repl_backlog_histlen := h, repl_backlog_off := l, master_repl_offset := master_repl_offset m + int k\<rparr>"
    and m2: "m2 = m1\<lparr>repl_backlog := b', repl_backlog_idx := i', repl_backlog_histlen := h', repl_backlog_off := l',
       master_repl_offset := master_repl_offset m1 + int n\<rparr>" unfolding fed_def by blast
  show "fed m (k + n) m2" by (rule fedI [where b = b' and i = i' and h = h' and l = l']) (simp add: m2 m1)
qed

text \<open>The text of an argument and that the object can be read.\<close>

definition arg_ok :: "(nat \<Rightarrow> robj option) \<Rightarrow> nat \<Rightarrow> bytes \<Rightarrow> bool" where
  "arg_ok h a t \<longleftrightarrow> (\<exists>v. view h a = Some v \<and> v_wf v) \<and> v_text (view h a) = Some t"

lemma arg_bytes:
  assumes "arg_ok h a t" "32 \<le> n \<or> n = REDIS_LONGSTR_SIZE"
  shows "\<exists>ob p. h a = Some ob \<and> length t \<le> length p \<and> take (length t) p = t \<and> length t < 2 ^ 63 \<and>
    (case (ob_encoding ob, ob_ptr ob) of
         (REDIS_ENCODING_INT, PInt v) \<Rightarrow> ll2string (mem_alloc fresh n) n v
       | (REDIS_ENCODING_INT, _) \<Rightarrow> None
       | (_, PSds s) \<Rightarrow> Some (sh_buf s, sdslen s)
       | _ \<Rightarrow> None) = Some (p, length t)"
proof -
  obtain ob where ob: "h a = Some ob" "v_wf (ob_encoding ob, ob_ptr ob)" using assms(1) by (auto simp: arg_ok_def view_def)
  have t: "v_text (Some (ob_encoding ob, ob_ptr ob)) = Some t" using assms(1) ob(1) by (simp add: arg_ok_def view_def)
  show ?thesis
  proof (cases "ob_ptr ob")
    case PNull
    then show ?thesis using t by (simp add: v_text_def)
  next
    case (PSds s)
    then have s: "sds_rep s t" "ob_encoding ob \<noteq> REDIS_ENCODING_INT" using t ob(2) by (auto simp: v_text_def v_wf_def)
    have "sdslen s = length t" using sds_rep_len [OF s(1)] by (simp add: sdslen_def)
    then show ?thesis using s sds_rep_read [OF s(1)] ob(1) PSds by (cases "ob_encoding ob") (auto intro!: exI [of _ "sh_buf s"])
  next
    case (PInt v)
    then have e: "ob_encoding ob = REDIS_ENCODING_INT" "t = print_ll v" using t ob(2) by (auto simp: v_text_def v_wf_def)
    have "length t < n" "length t < 2 ^ 63" using length_print_ll [of v] assms(2) e(2) by (auto simp: REDIS_LONGSTR_SIZE_def)
    then show ?thesis using ob(1) e PInt ll2string_ok [of "mem_alloc fresh n" n v]
      by (auto intro!: exI [of _ "t @ 0 # drop (Suc (length t)) (mem_alloc fresh n)"])
  qed
qed

lemma feedObject_ok:
  assumes "backlog_rep m T" "arg_ok (m_heap m) a t"
  shows "\<exists>m'. feedReplicationBacklogWithObject fresh a m = Some m' \<and> backlog_rep m' (T @ t) \<and> fed m (length t) m'"
proof -
  from arg_bytes [OF assms(2) disjI2 [OF refl], of fresh] obtain ob p where
    p: "m_heap m a = Some ob" "length t \<le> length p" "take (length t) p = t"
      "(case (ob_encoding ob, ob_ptr ob) of
         (REDIS_ENCODING_INT, PInt v) \<Rightarrow> ll2string (mem_alloc fresh REDIS_LONGSTR_SIZE) REDIS_LONGSTR_SIZE v
       | (REDIS_ENCODING_INT, _) \<Rightarrow> None
       | (_, PSds s) \<Rightarrow> Some (sh_buf s, sdslen s)
       | _ \<Rightarrow> None) = Some (p, length t)" by (elim exE conjE)
  have "feedReplicationBacklogWithObject fresh a m = feedReplicationBacklog p (length t) m"
    unfolding feedReplicationBacklogWithObject_def p(1) bind.bind_lunit p(4) by simp
  then show ?thesis using feedReplicationBacklog_ok [OF assms(1) p(2)] p(3) by simp
qed

lemma stringObjectLen_ok:
  assumes "arg_ok (m_heap m) a t"
  shows "stringObjectLen fresh a m = Some (length t)" "length t < 2 ^ 63"
proof -
  from arg_bytes [OF assms disjI1 [of "32 \<le> (32 :: nat)"], of fresh] obtain ob p where
    p: "m_heap m a = Some ob" "length t < 2 ^ 63"
      "(case (ob_encoding ob, ob_ptr ob) of
         (REDIS_ENCODING_INT, PInt v) \<Rightarrow> ll2string (mem_alloc fresh 32) 32 v
       | (REDIS_ENCODING_INT, _) \<Rightarrow> None
       | (_, PSds s) \<Rightarrow> Some (sh_buf s, sdslen s)
       | _ \<Rightarrow> None) = Some (p, length t)" by auto
  then show "stringObjectLen fresh a m = Some (length t)"
    by (simp add: stringObjectLen_def split: encoding.splits obj_ptr.splits)
  show "length t < 2 ^ 63" by (rule p(2))
qed

lemma auxHeader_ok:
  assumes "length aux = REDIS_LONGSTR_SIZE + 3"
  shows "\<exists>aux'. auxHeader aux p v = Some (aux', length (print_ll v)) \<and> length aux' = REDIS_LONGSTR_SIZE + 3 \<and>
    (\<exists>z. aux' = p # print_ll v @ CRLF @ z)"
proof -
  obtain x xs where aux: "aux = x # xs" "length xs = 23" using assms by (cases aux) (auto simp: REDIS_LONGSTR_SIZE_def)
  define k where "k = length (print_ll v)"
  have k: "k \<le> 20" using length_print_ll [of v] by (simp add: k_def)
  define d where "d = drop (Suc k) xs"
  have d: "length d = 22 - k" using aux(2) by (simp add: d_def)
  have ll: "ll2string xs 23 v = Some (print_ll v @ 0 # d, k)" using ll2string_ok [OF aux(2), of v] k by (simp add: k_def d_def)
  obtain y z where z: "d = y # z" using d k by (cases d) auto
  have "mem_set (k + 1) 13 (p # print_ll v @ 0 # d) = Some (p # print_ll v @ 13 # d)"
    using mem_set_append [of "k + 1" "p # print_ll v" 13 0 d] by (simp add: k_def)
  moreover have "mem_set (k + 2) 10 (p # print_ll v @ 13 # y # z) = Some (p # print_ll v @ 13 # 10 # z)"
    using mem_set_append [of "k + 2" "p # print_ll v @ [13]" 10 y z] by (simp add: k_def)
  moreover have "mem_set 0 p aux = Some (p # xs)" by (simp add: mem_set_def aux)
  ultimately have "auxHeader aux p v = Some (p # print_ll v @ 13 # 10 # z, k)"
    using ll z aux(2) by (simp add: auxHeader_def)
  then show ?thesis using d z k by (auto simp: k_def CRLF_def REDIS_LONGSTR_SIZE_def)
qed

text \<open>A prefix, a number and the end of the line.\<close>

lemma feedHeader_ok:
  assumes "backlog_rep m T" "aux = p # print_ll v @ CRLF @ z" "k = length (print_ll v)"
  shows "\<exists>m'. feedReplicationBacklog aux (k + 3) m = Some m' \<and> backlog_rep m' (T @ p # print_ll v @ CRLF) \<and> fed m (k + 3) m'"
    "\<exists>m'. feedReplicationBacklog (drop (k + 1) aux) 2 m = Some m' \<and> backlog_rep m' (T @ CRLF) \<and> fed m 2 m'"
proof -
  define u where "u = p # print_ll v @ CRLF"
  have u: "length u = k + 3" "aux = u @ z" using assms(2,3) by (simp_all add: CRLF_def u_def)
  have "take (k + 3) aux = p # print_ll v @ CRLF" "k + 3 \<le> length aux" unfolding u_def [symmetric] u(2) using u(1) by simp_all
  then show "\<exists>m'. feedReplicationBacklog aux (k + 3) m = Some m' \<and> backlog_rep m' (T @ p # print_ll v @ CRLF) \<and> fed m (k + 3) m'"
    using feedReplicationBacklog_ok [OF assms(1), of "k + 3" aux] by simp
  have "take 2 (drop (k + 1) aux) = CRLF" "2 \<le> length (drop (k + 1) aux)" using assms(2,3) by (simp_all add: CRLF_def)
  then show "\<exists>m'. feedReplicationBacklog (drop (k + 1) aux) 2 m = Some m' \<and> backlog_rep m' (T @ CRLF) \<and> fed m 2 m'"
    using feedReplicationBacklog_ok [OF assms(1), of 2 "drop (k + 1) aux"] by simp
qed

lemma bulks_Cons: "bulks (t # ts) = bulk t @ bulks ts"
  by (simp add: bulks_def)

lemma feedArgs_ok:
  assumes "backlog_rep m T" "list_all2 (arg_ok (m_heap m)) as ts" "length aux = REDIS_LONGSTR_SIZE + 3"
  shows "\<exists>m'. feedArgs fresh as aux m = Some m' \<and> backlog_rep m' (T @ bulks ts) \<and> fed m (length (bulks ts)) m'"
  using assms
proof (induction as arbitrary: ts aux m T)
  case Nil
  then show ?case by (simp add: bulks_def fed_refl)
next
  case (Cons a as)
  then obtain t us where ts: "ts = t # us" "arg_ok (m_heap m) a t" "list_all2 (arg_ok (m_heap m)) as us" by (cases ts) auto
  note ol = stringObjectLen_ok [OF ts(2)]
  define k where "k = length (dec (length t))"
  have pl: "print_ll (word_of_nat (length t)) = dec (length t)" by (rule print_ll_nat(1) [OF ol(2)])
  from auxHeader_ok [OF Cons.prems(3), of 36 "word_of_nat (length t)"] obtain aux' z where
    x: "auxHeader aux 36 (word_of_nat (length t)) = Some (aux', k)" "length aux' = REDIS_LONGSTR_SIZE + 3" "aux' = 36 # dec (length t) @ CRLF @ z"
    unfolding pl k_def by auto
  note hd = feedHeader_ok [of _ _ aux' 36 "word_of_nat (length t)" z k, unfolded pl, OF _ x(3) k_def]
  from hd(1) [OF Cons.prems(1)] obtain m1 where
    m1: "feedReplicationBacklog aux' (k + 3) m = Some m1" "backlog_rep m1 (T @ 36 # dec (length t) @ CRLF)" "fed m (k + 3) m1" by (elim exE conjE)
  have "arg_ok (m_heap m1) a t" using ts(2) m1(3) by simp
  from feedObject_ok [OF m1(2) this, of fresh] obtain m2 where
    m2: "feedReplicationBacklogWithObject fresh a m1 = Some m2" "backlog_rep m2 ((T @ 36 # dec (length t) @ CRLF) @ t)" "fed m1 (length t) m2"
    by (elim exE conjE)
  from hd(2) [OF m2(2)] obtain m3 where
    m3: "feedReplicationBacklog (drop (k + 1) aux') 2 m2 = Some m3" "backlog_rep m3 (((T @ 36 # dec (length t) @ CRLF) @ t) @ CRLF)" "fed m2 2 m3"
    by (elim exE conjE)
  have b: "backlog_rep m3 (T @ bulk t)" using m3(2) by (simp add: bulk_def)
  have "length (bulk t) = k + 3 + length t + 2" by (simp add: bulk_def k_def CRLF_def)
  then have f3: "fed m (length (bulk t)) m3" using fed_trans [OF fed_trans [OF m1(3) m2(3)] m3(3)] by simp
  have "list_all2 (arg_ok (m_heap m3)) as us" using ts(3) f3 by simp
  from Cons.IH [OF b this x(2)] obtain m4 where
    m4: "feedArgs fresh as aux' m3 = Some m4" "backlog_rep m4 ((T @ bulk t) @ bulks us)" "fed m3 (length (bulks us)) m4" by (elim exE conjE)
  have "feedArgs fresh (a # as) aux m = Some m4" using ol(1) x(1) m1(1) m2(1) m3(1) m4(1) by simp
  then show ?case using m4(2) fed_trans [OF f3 m4(3)] by (simp add: ts(1) bulks_Cons)
qed

lemma feedCommand_ok:
  assumes "backlog_rep m T" "list_all2 (arg_ok (m_heap m)) argv ts" "length argv < 2 ^ 63"
  shows "\<exists>m'. feedCommand fresh argv m = Some m' \<and> backlog_rep m' (T @ request ts) \<and> fed m (length (request ts)) m'"
proof -
  have n: "length argv = length ts" using assms(2) by (rule list_all2_lengthD)
  have pl: "print_ll (word_of_nat (length argv)) = dec (length ts)" using print_ll_nat(1) [OF assms(3)] n by simp
  define k where "k = length (dec (length ts))"
  have "length (mem_alloc fresh (REDIS_LONGSTR_SIZE + 3)) = REDIS_LONGSTR_SIZE + 3" by simp
  from auxHeader_ok [OF this, of 42 "word_of_nat (length argv)"] obtain aux' z where
    x: "auxHeader (mem_alloc fresh (REDIS_LONGSTR_SIZE + 3)) 42 (word_of_nat (length argv)) = Some (aux', k)" "length aux' = REDIS_LONGSTR_SIZE + 3"
      "aux' = 42 # dec (length ts) @ CRLF @ z" unfolding pl k_def by auto
  from feedHeader_ok(1) [of _ _ aux' 42 "word_of_nat (length argv)" z k, unfolded pl, OF assms(1) x(3) k_def] obtain m1 where
    m1: "feedReplicationBacklog aux' (k + 3) m = Some m1" "backlog_rep m1 (T @ 42 # dec (length ts) @ CRLF)" "fed m (k + 3) m1" by (elim exE conjE)
  have "list_all2 (arg_ok (m_heap m1)) argv ts" using assms(2) m1(3) by simp
  from feedArgs_ok [OF m1(2) this x(2), of fresh] obtain m2 where
    m2: "feedArgs fresh argv aux' m1 = Some m2" "backlog_rep m2 ((T @ 42 # dec (length ts) @ CRLF) @ bulks ts)" "fed m1 (length (bulks ts)) m2"
    by (elim exE conjE)
  have "feedCommand fresh argv m = Some m2" using x(1) m1(1) m2(1) by (simp add: feedCommand_def)
  moreover have "k + 3 + length (bulks ts) = length (request ts)" by (simp add: request_def k_def CRLF_def)
  then have "fed m (length (request ts)) m2" using fed_trans [OF m1(3) m2(3)] by (simp only:)
  ultimately show ?thesis using m2(2) by (simp add: request_def)
qed


section \<open>Selecting a database\<close>

definition selects :: "int \<Rightarrow> bytes" where
  "selects dictid = request [lit ''SELECT'', print_ll (word_of_int dictid)]"

lemma select_text: "select_format (word_of_nat (length (print_ll v))) (print_ll v @ 0 # z) = request [lit ''SELECT'', print_ll v]"
proof -
  have "length (print_ll v) < 2 ^ 63" using length_print_ll [of v] by simp
  then have "print_ll (word_of_nat (length (print_ll v))) = dec (length (print_ll v))" by (rule print_ll_nat(1))
  moreover have "c_str (print_ll v @ 0 # z) = print_ll v" by (rule c_str_prefix [OF print_ll_nz])
  ultimately show ?thesis by (simp add: select_format_def request_def bulks_def bulk_def lit_def dec_small)
qed

lemma select_plain: "0 \<notin> set (request [lit ''SELECT'', print_ll v])" "length (request [lit ''SELECT'', print_ll v]) < 2 ^ 31"
proof -
  have "0 \<notin> set (dec n)" for n by (rule dec_nz)
  then show "0 \<notin> set (request [lit ''SELECT'', print_ll v])"
    using print_ll_nz [of v] by (simp add: request_def bulks_def bulk_def lit_def CRLF_def)
  have "length (dec (length (print_ll v))) \<le> 9" using length_dec_le [of "length (print_ll v)" 8] length_print_ll [of v] by simp
  then show "length (request [lit ''SELECT'', print_ll v]) < 2 ^ 31"
    using length_print_ll [of v] by (simp add: request_def bulks_def bulk_def lit_def CRLF_def dec_small)
qed

lemma selectSds_ok:
  assumes "20 < n"
  shows "\<exists>llstr len e s. ll2string (mem_alloc fresh n) n (word_of_int dictid) = Some (llstr, len) \<and> sdsempty fresh = Some e \<and>
    sdscat fresh e (select_format (word_of_nat len) llstr @ [0]) = Some s \<and> sds_rep s (selects dictid)"
proof -
  define v :: i64 where "v = word_of_int dictid"
  define z where "z = drop (Suc (length (print_ll v))) (mem_alloc fresh n)"
  have ll: "ll2string (mem_alloc fresh n) n v = Some (print_ll v @ 0 # z, length (print_ll v))"
    using ll2string_ok [of "mem_alloc fresh n" n v] length_print_ll [of v] assms by (simp add: z_def)
  obtain e where e: "sdsempty fresh = Some e" "sds_rep e []" using sdsempty_ok [of fresh] by blast
  define t where "t = request [lit ''SELECT'', print_ll v]"
  have ct: "c_str (t @ [0]) = t" using c_str_prefix [of t "[]"] select_plain(1) [of v] by (simp add: t_def)
  obtain s where "sdscat fresh e (t @ [0]) = Some s" "sds_rep s t"
    using sdscat_ok [OF e(2), of "t @ [0]" fresh] ct select_plain(2) [of v] by (auto simp: t_def)
  then show ?thesis using ll e(1) unfolding selects_def v_def [symmetric] t_def select_text [of v z, symmetric] by blast
qed

section \<open>Objects that the server holds for a while\<close>

lemma held_upd: "ext a = 0 \<Longrightarrow> held_by (ext(a := 1)) cs = (held_by ext cs)(a := Suc (held_by ext cs a))"
  by (simp add: held_by_def fun_eq_iff)

lemma world_new_object:
  assumes w: "world sv ext m cs" and ob: "v_wf (ob_encoding ob, ob_ptr ob)" "ob_ptr ob \<noteq> PNull" "ob_refcount ob = 1"
    and new: "newObject ob (joined m no_client) = (a, c1)"
  shows "world sv (ext(a := 1)) (keep_heap c1 m) cs" "ext a = 0"
    "\<forall>b. 0 < ext b \<longrightarrow> view (c_heap c1) b = view (m_heap m) b" "view (c_heap c1) a = Some (ob_encoding ob, ob_ptr ob)"
    "\<forall>c\<in>set cs. ost (joined (keep_heap c1 m) c) = ost (joined m c)"
proof -
  note w1 = world_no_client [OF w]
  have i: "send_inv sv (held_by ext cs) (joined m no_client)" using world_take [of sv ext m cs no_client "[]"] w1 by simp
  then have inv: "reply_inv sv (held_by ext cs) (joined m no_client)" by (simp add: send_inv_def)
  note hold = hold_new [OF inv ob new]
  show e: "ext a = 0" using hold(4) held_by_ge [of ext a cs] by simp
  have ee: "(held_by ext cs)(a := 1) = held_by (ext(a := 1)) cs" using held_upd [of ext a cs] e hold(4) by simp
  have v: "view (c_heap c1) b = view (m_heap m) b" if "0 < held_by ext cs b" for b using hold(2) that by (simp add: rframe_def)
  have i1: "send_inv sv (held_by (ext(a := 1)) (cs @ [])) c1"
    using hold(1-3) i unfolding send_inv_def ee by (simp add: rframe_def)
  have n: "m_next m \<le> c_next c1" "c_reply c1 = []" using new by (auto simp: newObject_def)
  have "view (c_heap c1) b = view (m_heap m) b" if "0 < held_by (\<lambda>_. 0) (cs @ []) b" for b
    using v [of b] that by (simp add: held_by_def)
  note swap = world_swap [OF w1 i1 this n(1)]
  show "world sv (ext(a := 1)) (keep_heap c1 m) cs" by (rule world_drop_last [OF swap(1) n(2)])
  show "\<forall>c\<in>set cs. ost (joined (keep_heap c1 m) c) = ost (joined m c)" using swap(2) by simp
  show "\<forall>b. 0 < ext b \<longrightarrow> view (c_heap c1) b = view (m_heap m) b" using v held_by_ge [of ext _ cs] by (metis less_le_trans)
  show "view (c_heap c1) a = Some (ob_encoding ob, ob_ptr ob)" by (rule hold(5))
qed

lemma world_release:
  assumes w: "world sv (ext(a := 1)) m cs" and e: "ext a = 0"
  shows "\<exists>c. decrRefCount a (joined m no_client) = Some c \<and> world sv ext (keep_heap c m) cs \<and>
    (\<forall>b. 0 < ext b \<longrightarrow> view (c_heap c) b = view (m_heap m) b) \<and> (\<forall>d\<in>set cs. ost (joined (keep_heap c m) d) = ost (joined m d))"
proof -
  note w1 = world_no_client [OF w]
  have i: "send_inv sv (held_by (ext(a := 1)) cs) (joined m no_client)" using world_take [of sv "ext(a := 1)" m cs no_client "[]"] w1 by simp
  then have "reply_inv sv ((held_by ext cs)(a := Suc (held_by ext cs a))) (joined m no_client)"
    unfolding held_upd [of ext a, OF e] by (simp add: send_inv_def)
  from release [OF this] obtain c where
    c: "decrRefCount a (joined m no_client) = Some c" "reply_inv sv (held_by ext cs) c" "rframe (held_by ext cs) (joined m no_client) c"
      "ost c = ost (joined m no_client)" by (elim exE conjE)
  have i1: "send_inv sv (held_by ext (cs @ [])) c" using c i unfolding send_inv_def by (simp add: rframe_def)
  have v: "view (c_heap c) b = view (m_heap m) b" if "0 < held_by ext cs b" for b using c(3) that by (simp add: rframe_def)
  have n: "m_next m \<le> c_next c" "c_reply c = []" using reply_frame(1) [OF c(1)] by simp_all
  have "view (c_heap c) b = view (m_heap m) b" if "0 < held_by (\<lambda>_. 0) (cs @ []) b" for b
    using v [of b] that by (simp add: held_by_def)
  note swap = world_swap [OF w1 i1 this n(1)]
  have "\<forall>b. 0 < ext b \<longrightarrow> view (c_heap c) b = view (m_heap m) b" using v held_by_ge [of ext _ cs] by (metis less_le_trans)
  then show ?thesis using c(1) world_drop_last [OF swap(1) n(2)] swap(2) by simp
qed

lemma newSelectCmd_ok:
  assumes w: "world sv ext m cs" and n: "20 < llsize"
  shows "\<exists>a m1. newSelectCmd sv llsize dictid m = Some (a, m1) \<and> world sv (ext(a := 1)) m1 cs \<and> ext a = 0 \<and>
    (\<forall>b. 0 < ext b \<longrightarrow> view (m_heap m1) b = view (m_heap m) b) \<and> arg_ok (m_heap m1) a (selects dictid) \<and> rest_same m m1 \<and>
    (\<forall>c\<in>set cs. ost (joined m1 c) = ost (joined m c))"
proof -
  from selectSds_ok [OF n, of "sv_fresh sv" dictid] obtain llstr len e s where
    s: "ll2string (mem_alloc (sv_fresh sv) llsize) llsize (word_of_int dictid) = Some (llstr, len)" "sdsempty (sv_fresh sv) = Some e"
      "sdscat (sv_fresh sv) e (select_format (word_of_nat len) llstr @ [0]) = Some s" "sds_rep s (selects dictid)" by (elim exE conjE)
  define ob where "ob = \<lparr>ob_encoding = REDIS_ENCODING_RAW, ob_ptr = PSds s, ob_refcount = 1\<rparr>"
  obtain a c1 where new: "newObject ob (joined m no_client) = (a, c1)" by (cases "newObject ob (joined m no_client)")
  have ob: "v_wf (ob_encoding ob, ob_ptr ob)" "ob_ptr ob \<noteq> PNull" "ob_refcount ob = 1"
    using s(4) sds_rep_text [OF s(4)] by (simp_all add: ob_def v_wf_def)
  note w1 = world_new_object [OF w ob new]
  have "newSelectCmd sv llsize dictid m = Some (a, keep_heap c1 m)" using s(1-3) new by (simp add: newSelectCmd_def createObject_def ob_def)
  moreover have "arg_ok (c_heap c1) a (selects dictid)" unfolding arg_ok_def w1(4) using ob(1) sds_rep_text [OF s(4)] by (simp add: v_text_def ob_def)
  moreover have "rest_same m (keep_heap c1 m)" by (auto simp: rest_same_def keep_heap_def)
  ultimately show ?thesis using w1 by auto
qed


section \<open>Feeding the slaves\<close>

text \<open>The arguments of a command, their texts and that their references are held by the caller.\<close>

definition args_ok :: "(nat \<Rightarrow> nat) \<Rightarrow> (nat \<Rightarrow> (encoding \<times> obj_ptr) option) \<Rightarrow> nat list \<Rightarrow> bytes list \<Rightarrow> bool" where
  "args_ok ext V argv ts \<longleftrightarrow> length argv < 2 ^ 63 \<and> list_all2 (\<lambda>a t. 0 < ext a \<and> v_text (V a) = Some t \<and>
     (case V a of Some (e, PInt n) \<Rightarrow> n <s 0 \<longrightarrow> - n \<noteq> n | _ \<Rightarrow> True)) argv ts"

lemma addReplyBulks_ok:
  assumes "ready sv e sh c" "list_all2 (\<lambda>a t. 0 < e a \<and> obj_text c a = Some t \<and> sendable c a) argv ts"
  shows "\<exists>c'. for_each argv (addReplyBulk sv sh) c = Some c' \<and> appended sv e c (bulks ts) c'"
  using assms
proof (induction argv arbitrary: c ts)
  case Nil
  then show ?case using appended_refl [OF Nil(1)] by (simp add: bulks_def)
next
  case (Cons a argv)
  then obtain t us where ts: "ts = t # us" "0 < e a" "obj_text c a = Some t" "sendable c a"
      "list_all2 (\<lambda>a t. 0 < e a \<and> obj_text c a = Some t \<and> sendable c a) argv us" by (cases ts) auto
  have "\<exists>c2. addReplyBulk sv sh a c \<bind> for_each argv (addReplyBulk sv sh) = Some c2 \<and> appended sv e c (bulk t @ bulks us) c2"
  proof (rule then_append [OF Cons.prems(1) addReplyBulk_ok [OF Cons.prems(1) ts(2-4)]])
    fix c1 assume r1: "ready sv e sh c1" and fr: "rframe e c c1"
    have "view (c_heap c1) b = view (c_heap c) b" if "0 < e b" for b using fr that by (simp add: rframe_def)
    then have "list_all2 (\<lambda>a t. 0 < e a \<and> obj_text c1 a = Some t \<and> sendable c1 a) argv us"
      using list.rel_mono_strong [OF ts(5)] by (simp add: obj_text_def sendable_def)
    then show "\<exists>c2. for_each argv (addReplyBulk sv sh) c1 = Some c2 \<and> appended sv e c1 (bulks us) c2" by (rule Cons.IH [OF r1])
  qed
  then show ?case by (simp add: ts(1) bulks_Cons)
qed

lemma feedSlave_feeds:
  assumes "args_ok ext V argv ts"
  shows "feeds sv sh ext V (\<lambda>st. if st = REDIS_REPL_WAIT_BGSAVE_START then [] else request ts) (feedSlave sv sh argv)"
  unfolding feeds_def
proof (intro allI impI, elim conjE)
  fix e c assume r: "ready sv e sh c" and e: "\<forall>a. ext a \<le> e a" and v: "\<forall>a. 0 < ext a \<longrightarrow> view (c_heap c) a = V a"
  have n: "length argv = length ts" "length argv < 2 ^ 63" using assms list_all2_lengthD by (auto simp: args_ok_def)
  show "\<exists>c'. feedSlave sv sh argv c = Some c' \<and>
      appended sv e c (if c_replstate c = REDIS_REPL_WAIT_BGSAVE_START then [] else request ts) c' \<and> c_next c \<le> c_next c'"
  proof (cases "c_replstate c = REDIS_REPL_WAIT_BGSAVE_START")
    case True
    then show ?thesis using appended_refl [OF r] by (simp add: feedSlave_def)
  next
    case False
    have ts: "list_all2 (\<lambda>a t. 0 < e a \<and> v_text (V a) = Some t \<and> view (c_heap c) a = V a \<and> (case V a of Some (e, PInt n) \<Rightarrow> n <s 0 \<longrightarrow> - n \<noteq> n | _ \<Rightarrow> True)) argv ts"
      by (rule list.rel_mono_strong [OF conjunct2 [OF assms [unfolded args_ok_def]]]) (use e v in \<open>auto intro: less_le_trans\<close>)
    have "\<exists>c2. addReplyMultiBulkLen sv sh (word_of_nat (length argv)) c \<bind> for_each argv (addReplyBulk sv sh) = Some c2 \<and>
        appended sv e c ((42 # dec (length ts) @ CRLF) @ bulks ts) c2"
    proof (rule then_append [OF r])
      show "\<exists>c1. addReplyMultiBulkLen sv sh (word_of_nat (length argv)) c = Some c1 \<and> appended sv e c (42 # dec (length ts) @ CRLF) c1"
        using addReplyMultiBulkLen_ok [OF r print_ll_nat(2) [OF n(2)]] print_ll_nat(1) [OF n(2)] n(1) by simp
      fix c1 assume r1: "ready sv e sh c1" and fr: "rframe e c c1"
      have "view (c_heap c1) b = view (c_heap c) b" if "0 < e b" for b using fr that by (simp add: rframe_def)
      then have "list_all2 (\<lambda>a t. 0 < e a \<and> obj_text c1 a = Some t \<and> sendable c1 a) argv ts"
        by (intro list.rel_mono_strong [OF ts]) (simp add: obj_text_def sendable_def)
      then show "\<exists>c2. for_each argv (addReplyBulk sv sh) c1 = Some c2 \<and> appended sv e c1 (bulks ts) c2" by (rule addReplyBulks_ok [OF r1])
    qed
    then obtain c2 where "feedSlave sv sh argv c = Some c2" "appended sv e c (request ts) c2" using False by (auto simp: feedSlave_def request_def)
    then show ?thesis using False next_feedSlave by auto
  qed
qed

lemma addReply_feeds:
  assumes "0 < ext a" "v_text (V a) = Some t"
  shows "feeds sv sh ext V (\<lambda>_. t) (addReply sv a)"
  unfolding feeds_def
proof (intro allI impI, elim conjE)
  fix e c assume r: "ready sv e sh c" and e: "\<forall>a. ext a \<le> e a" and v: "\<forall>a. 0 < ext a \<longrightarrow> view (c_heap c) a = V a"
  have "0 < e a" using assms(1) e by (metis less_le_trans)
  moreover have "obj_text c a = Some t" using assms v by (simp add: obj_text_def)
  ultimately show "\<exists>c'. addReply sv a c = Some c' \<and> appended sv e c t c' \<and> c_next c \<le> c_next c'"
    using ready_obj [OF r] next_addReply by blast
qed

section \<open>The invariant of the master\<close>

definition master_ok :: "server_env \<Rightarrow> (nat \<Rightarrow> nat) \<Rightarrow> shared_objects \<Rightarrow> nat list \<Rightarrow> master \<Rightarrow> bool" where
  "master_ok sv ext sh sel m \<longleftrightarrow> world sv ext m (slaves m) \<and> (\<forall>c\<in>set (slaves m). accepts sv c) \<and>
     shared_ok ext sh (joined m no_client) \<and> length sel = REDIS_SHARED_SELECT_CMDS \<and>
     (\<forall>i<REDIS_SHARED_SELECT_CMDS. 0 < ext (sel ! i) \<and> v_text (view (m_heap m) (sel ! i)) = Some (selects (int i)))"

definition same_views :: "(nat \<Rightarrow> nat) \<Rightarrow> master \<Rightarrow> master \<Rightarrow> bool" where
  "same_views ext m m' \<longleftrightarrow> (\<forall>a. 0 < ext a \<longrightarrow> view (m_heap m') a = view (m_heap m) a)"

lemma master_okI:
  assumes "master_ok sv ext sh sel m" "world sv ext' m' (slaves m')" "\<forall>c\<in>set (slaves m'). accepts sv c" "same_views ext m m'"
    "\<And>a. ext a \<le> ext' a"
  shows "master_ok sv ext' sh sel m'"
proof -
  have v: "view (m_heap m') a = view (m_heap m) a \<and> 0 < ext' a" if "0 < ext a" for a
    using assms(4,5) that unfolding same_views_def by (metis less_le_trans)
  then show ?thesis using assms(1-3) unfolding master_ok_def shared_ok_def obj_text_def joined_simps by metis
qed

text \<open>The backlog and the slaves after a reply: \<open>txt\<close> is what a slave in a state was sent.\<close>

definition grew :: "(nat \<Rightarrow> nat) \<Rightarrow> master \<Rightarrow> bytes \<Rightarrow> bytes \<Rightarrow> (nat \<Rightarrow> bytes) \<Rightarrow> master \<Rightarrow> bool" where
  "grew ext m T s txt m' \<longleftrightarrow> backlog_rep m' (T @ s) \<and> same_views ext m m' \<and>
     list_all2 (\<lambda>c c'. took m c (txt (c_replstate c)) m' c') (slaves m) (slaves m') \<and>
     master_repl_offset m' = master_repl_offset m + int (length s) \<and> repl_backlog_size m' = repl_backlog_size m \<and> runid m' = runid m \<and> masterhost m' = masterhost m"

lemma took_trans: "took m c s m1 c1 \<Longrightarrow> took m1 c1 t m2 c2 \<Longrightarrow> took m c (s @ t) m2 c2"
  unfolding took_def using chain_trans rframe_trans by blast

lemma took_state: "took m c s m1 c1 \<Longrightarrow> c_replstate c1 = c_replstate c" "took m c s m1 c1 \<Longrightarrow> accepts sv c1 = accepts sv c"
  unfolding took_def by (simp add: rframe_def) (rule accepts_frame, erule conjunct2)

lemma grew_trans:
  assumes "grew ext m T s f m1" "grew ext m1 (T @ s) t g m2"
  shows "grew ext m T (s @ t) (\<lambda>st. f st @ g st) m2"
proof -
  have a: "list_all2 (\<lambda>c c'. took m c (f (c_replstate c)) m1 c') (slaves m) (slaves m1)"
      "list_all2 (\<lambda>c c'. took m1 c (g (c_replstate c)) m2 c') (slaves m1) (slaves m2)"
    using assms by (simp_all add: grew_def)
  have "list_all2 (\<lambda>c c'. took m c (f (c_replstate c) @ g (c_replstate c)) m2 c') (slaves m) (slaves m2)"
    by (rule list_all2_trans [OF _ a]) (metis took_trans took_state(1))
  then show ?thesis using assms by (simp add: grew_def same_views_def)
qed

lemma grew_accepts:
  assumes "grew ext m T s f m1" "\<forall>c\<in>set (slaves m). accepts sv c"
  shows "\<forall>c\<in>set (slaves m1). accepts sv c"
proof
  fix c' assume "c' \<in> set (slaves m1)"
  then obtain i where i: "i < length (slaves m1)" "c' = slaves m1 ! i" by (metis in_set_conv_nth)
  have l: "list_all2 (\<lambda>c c'. took m c (f (c_replstate c)) m1 c') (slaves m) (slaves m1)" using assms(1) by (simp add: grew_def)
  have n: "i < length (slaves m)" using i(1) list_all2_lengthD [OF l] by simp
  have "accepts sv (slaves m ! i)" using assms(2) n by simp
  then show "accepts sv c'" using took_state(2) [OF list_all2_nthD [OF l n]] i(2) by simp
qed

lemma fed_world: "fed m n m' \<Longrightarrow> world sv ext m' cs = world sv ext m cs"
  by (rule world_cong) simp_all

lemma fed_took: "fed m n m' \<Longrightarrow> took m' = took m"
  by (intro ext) (simp add: took_def)

text \<open>Feeding the backlog and then every slave.\<close>

lemma backlog_slaves:
  assumes ok: "master_ok sv ext sh sel m" and fd: "fed m (length s) m1" "backlog_rep m1 (T @ s)"
    and f: "feeds sv sh ext (view (m_heap m)) txt f"
  shows "\<exists>m'. each_slave f m1 = Some m' \<and> master_ok sv ext sh sel m' \<and> grew ext m T s txt m' \<and> slaveseldb m' = slaveseldb m"
proof -
  have w: "world sv ext m1 (slaves m1)" "\<forall>c\<in>set (slaves m1). accepts sv c" "shared_ok ext sh (joined m1 no_client)"
    "feeds sv sh ext (view (m_heap m1)) txt f"
    using ok f fed_world [OF fd(1)] fd(1) by (simp_all add: master_ok_def)
  from each_slave_ok [OF w(4,1-3)] obtain m' where
    m': "each_slave f m1 = Some m'" "world sv ext m' (slaves m')" "list_all2 (\<lambda>c c'. took m1 c (txt (c_replstate c)) m' c') (slaves m1) (slaves m')"
      "\<forall>a. 0 < ext a \<longrightarrow> view (m_heap m') a = view (m_heap m1) a" "m' = m1\<lparr>m_heap := m_heap m', m_next := m_next m', slaves := slaves m'\<rparr>"
    by (elim exE conjE)
  obtain h n cs where e: "m' = m1\<lparr>m_heap := h, m_next := n, slaves := cs\<rparr>" using m'(5) by blast
  have "backlog_rep m' (T @ s)" using fd(2) by (simp add: backlog_rep_def e)
  then have g: "grew ext m T s txt m'" using m'(3,4) fd(1) by (simp add: grew_def same_views_def fed_took e)
  have "\<forall>c\<in>set (slaves m'). accepts sv c" by (rule grew_accepts [OF g]) (use ok in \<open>simp add: master_ok_def\<close>)
  then have "master_ok sv ext sh sel m'" using master_okI [OF ok m'(2)] g by (simp add: grew_def)
  then show ?thesis using m'(1) g fd(1) by (auto simp: e)
qed


lemma master_arg:
  assumes "master_ok sv ext sh sel m" "0 < ext a" "v_text (view (m_heap m) a) = Some t"
  shows "arg_ok (m_heap m) a t"
proof -
  have w: "world sv ext m (slaves m)" using assms(1) by (simp add: master_ok_def)
  obtain ob where ob: "m_heap m a = Some ob" using assms(3) by (auto simp: v_text_def view_def split: option.splits)
  then have "view (m_heap m) a = Some (ob_encoding ob, ob_ptr ob)" by (simp add: view_def)
  then show ?thesis using worldD(1) [OF w ob] assms(3) by (simp add: arg_ok_def)
qed

lemma backlog_some: "backlog_rep m T \<Longrightarrow> repl_backlog m \<noteq> None"
  by (auto simp: backlog_rep_def)

lemma feedObject_slaves:
  assumes ok: "master_ok sv ext sh sel m" and b: "backlog_rep m T" and a: "0 < ext a" "v_text (view (m_heap m) a) = Some t"
  shows "\<exists>m1 m'. feedReplicationBacklogWithObject (sv_fresh sv) a m = Some m1 \<and> each_slave (addReply sv a) m1 = Some m' \<and>
    master_ok sv ext sh sel m' \<and> grew ext m T t (\<lambda>_. t) m' \<and> slaveseldb m' = slaveseldb m"
proof -
  from feedObject_ok [OF b master_arg [OF ok a], of "sv_fresh sv"] obtain m1 where
    m1: "feedReplicationBacklogWithObject (sv_fresh sv) a m = Some m1" "backlog_rep m1 (T @ t)" "fed m (length t) m1" by (elim exE conjE)
  from backlog_slaves [OF ok m1(3,2) addReply_feeds [of ext a "view (m_heap m)" t, OF a]] m1(1) show ?thesis by blast
qed

lemma rest_sameD:
  assumes "rest_same m m'"
  shows "slaves m' = slaves m" "repl_backlog m' = repl_backlog m" "slaveseldb m' = slaveseldb m" "master_repl_offset m' = master_repl_offset m"
    "repl_backlog_size m' = repl_backlog_size m" "runid m' = runid m" "masterhost m' = masterhost m" "backlog_rep m' T = backlog_rep m T"
  using assms by (auto simp: rest_same_def backlog_rep_def)

lemma keep_rest: "rest_same m (keep_heap c m)"
  by (auto simp: rest_same_def keep_heap_def)

lemma feedSelect_ok:
  assumes ok: "master_ok sv ext sh sel m" and b: "backlog_rep m T"
  shows "\<exists>m'. feedSelect sv sel dictid m = Some m' \<and> master_ok sv ext sh sel m' \<and> grew ext m T (selects dictid) (\<lambda>_. selects dictid) m' \<and>
    slaveseldb m' = slaveseldb m"
proof (cases "is_shared_db dictid")
  case True
  define i where "i = nat dictid"
  have i: "i < REDIS_SHARED_SELECT_CMDS" "int i = dictid" using True by (auto simp: is_shared_db_def i_def)
  then have a: "0 < ext (sel ! i)" "v_text (view (m_heap m) (sel ! i)) = Some (selects dictid)" "mem_get i sel = Some (sel ! i)"
    using ok by (auto simp: master_ok_def mem_get_def)
  from feedObject_slaves [OF ok b a(1,2)] obtain m1 m' where
    m': "feedReplicationBacklogWithObject (sv_fresh sv) (sel ! i) m = Some m1" "each_slave (addReply sv (sel ! i)) m1 = Some m'"
      "master_ok sv ext sh sel m'" "grew ext m T (selects dictid) (\<lambda>_. selects dictid) m'" "slaveseldb m' = slaveseldb m" by (elim exE conjE)
  have "feedSelect sv sel dictid m = Some m'" using True a(3) m'(1,2) backlog_some [OF b] by (simp add: feedSelect_def i_def)
  then show ?thesis using m' by blast
next
  case False
  have w: "world sv ext m (slaves m)" using ok by (simp add: master_ok_def)
  have "20 < REDIS_LONGSTR_SIZE" by (simp add: REDIS_LONGSTR_SIZE_def)
  from newSelectCmd_ok [OF w this, of dictid] obtain a m1 where
    m1: "newSelectCmd sv REDIS_LONGSTR_SIZE dictid m = Some (a, m1)" "world sv (ext(a := 1)) m1 (slaves m)" "ext a = 0"
      "\<forall>b. 0 < ext b \<longrightarrow> view (m_heap m1) b = view (m_heap m) b" "arg_ok (m_heap m1) a (selects dictid)" "rest_same m m1"
      "\<forall>c\<in>set (slaves m). ost (joined m1 c) = ost (joined m c)" by (elim exE conjE)
  note r1 = rest_sameD [OF m1(6)]
  have ok1: "master_ok sv (ext(a := 1)) sh sel m1"
    by (rule master_okI [OF ok]) (use m1(2-4) ok in \<open>auto simp: r1 master_ok_def same_views_def\<close>)
  have b1: "backlog_rep m1 T" using b by (simp add: r1)
  have t: "0 < (ext(a := 1)) a" "v_text (view (m_heap m1) a) = Some (selects dictid)" using m1(5) by (simp_all add: arg_ok_def)
  from feedObject_slaves [OF ok1 b1 t] obtain m2 m3 where
    m3: "feedReplicationBacklogWithObject (sv_fresh sv) a m1 = Some m2" "each_slave (addReply sv a) m2 = Some m3"
      "master_ok sv (ext(a := 1)) sh sel m3" "grew (ext(a := 1)) m1 T (selects dictid) (\<lambda>_. selects dictid) m3" "slaveseldb m3 = slaveseldb m1"
    by (elim exE conjE)
  have "world sv (ext(a := 1)) m3 (slaves m3)" using m3(3) by (simp add: master_ok_def)
  from world_release [OF this m1(3)] obtain c where
    c: "decrRefCount a (joined m3 no_client) = Some c" "world sv ext (keep_heap c m3) (slaves m3)"
      "\<forall>b. 0 < ext b \<longrightarrow> view (c_heap c) b = view (m_heap m3) b" "\<forall>d\<in>set (slaves m3). ost (joined (keep_heap c m3) d) = ost (joined m3 d)"
    by (elim exE conjE)
  define m4 where "m4 = keep_heap c m3"
  note r4 = rest_sameD [OF keep_rest [of m3 c], folded m4_def]
  have "feedSelect sv sel dictid m = Some m4" using False m1(1) m3(1,2) c(1) backlog_some [OF b1] by (simp add: feedSelect_def m4_def)
  moreover have "same_views ext m m4" unfolding same_views_def
  proof (intro allI impI)
    fix x assume x: "0 < ext x"
    have "x \<noteq> a" using x m1(3) by auto
    then show "view (m_heap m4) x = view (m_heap m) x" using x c(3) m1(4) m3(4) by (simp add: m4_def grew_def same_views_def)
  qed
  moreover have "list_all2 (\<lambda>c c'. took m c (selects dictid) m4 c') (slaves m) (slaves m4)"
  proof -
    have l: "list_all2 (\<lambda>c c'. took m1 c (selects dictid) m3 c') (slaves m) (slaves m3)" using m3(4) by (simp add: grew_def r1)
    show ?thesis unfolding r4(1) by (rule list.rel_mono_strong [OF l]) (use m1(7) c(4) in \<open>simp add: took_def m4_def\<close>)
  qed
  ultimately have g: "grew ext m T (selects dictid) (\<lambda>_. selects dictid) m4" using m3(4) by (simp add: grew_def r1 r4)
  have "\<forall>c\<in>set (slaves m4). accepts sv c" by (rule grew_accepts [OF g]) (use ok in \<open>simp add: master_ok_def\<close>)
  moreover have "world sv ext m4 (slaves m4)" using c(2) by (simp add: m4_def)
  ultimately have "master_ok sv ext sh sel m4" using master_okI [OF ok] g by (simp add: grew_def)
  then show ?thesis using \<open>feedSelect sv sel dictid m = Some m4\<close> g m3(5) by (simp add: r1 r4)
qed

text \<open>The bytes of a command: the database is selected when it is not the last one that was.\<close>

definition command_prefix :: "int \<Rightarrow> int \<Rightarrow> bytes" where
  "command_prefix seldb dictid = (if seldb \<noteq> dictid then selects dictid else [])"

lemma grew_refl: "backlog_rep m T \<Longrightarrow> grew ext m T [] (\<lambda>_. []) m"
  by (simp add: grew_def same_views_def list_all2_same took_def chain_refl rframe_refl)

lemma seldb_cong:
  "master_ok sv ext sh sel (m\<lparr>slaveseldb := d\<rparr>) = master_ok sv ext sh sel m" "grew ext m T s f (m1\<lparr>slaveseldb := d\<rparr>) = grew ext m T s f m1"
  "backlog_rep (m\<lparr>slaveseldb := d\<rparr>) T = backlog_rep m T" "grew ext (m\<lparr>slaveseldb := d\<rparr>) T s f m1 = grew ext m T s f m1"
proof -
  have j: "joined (m\<lparr>slaveseldb := d\<rparr>) = joined m" for m by (simp add: joined_def fun_eq_iff)
  have b: "backlog_rep (m\<lparr>slaveseldb := d\<rparr>) T = backlog_rep m T" for m T by (simp add: backlog_rep_def)
  have t: "took (m\<lparr>slaveseldb := d\<rparr>) c s m1 = took m c s m1" "took m c s (m1\<lparr>slaveseldb := d\<rparr>) = took m c s m1" for m c s m1
    by (simp_all add: took_def j fun_eq_iff)
  have w: "world sv ext (m\<lparr>slaveseldb := d\<rparr>) cs = world sv ext m cs" for cs by (rule world_cong) simp_all
  show "master_ok sv ext sh sel (m\<lparr>slaveseldb := d\<rparr>) = master_ok sv ext sh sel m" unfolding master_ok_def j by (simp add: w)
  show "grew ext m T s f (m1\<lparr>slaveseldb := d\<rparr>) = grew ext m T s f m1" "backlog_rep (m\<lparr>slaveseldb := d\<rparr>) T = backlog_rep m T"
    "grew ext (m\<lparr>slaveseldb := d\<rparr>) T s f m1 = grew ext m T s f m1"
    by (simp_all add: grew_def same_views_def b t)
qed

lemma replicationFeedSlaves_ok:
  assumes ok: "master_ok sv ext sh sel m" and b: "backlog_rep m T" and ar: "args_ok ext (view (m_heap m)) argv ts"
  shows "\<exists>m'. replicationFeedSlaves sv sh sel dictid argv m = Some m' \<and> master_ok sv ext sh sel m' \<and>
    grew ext m T (command_prefix (slaveseldb m) dictid @ request ts)
      (\<lambda>st. command_prefix (slaveseldb m) dictid @ (if st = REDIS_REPL_WAIT_BGSAVE_START then [] else request ts)) m' \<and> slaveseldb m' = dictid"
proof -
  define s where "s = command_prefix (slaveseldb m) dictid"
  have "\<exists>m1. (if slaveseldb m \<noteq> dictid then feedSelect sv sel dictid m else Some m) = Some m1 \<and> master_ok sv ext sh sel m1 \<and>
      grew ext m T s (\<lambda>_. s) m1"
    using feedSelect_ok [OF ok b, of dictid] ok grew_refl [OF b] by (simp add: s_def command_prefix_def) blast
  then obtain m1 where m1: "(if slaveseldb m \<noteq> dictid then feedSelect sv sel dictid m else Some m) = Some m1" "master_ok sv ext sh sel m1"
      "grew ext m T s (\<lambda>_. s) m1" by (elim exE conjE)
  define m2 where "m2 = m1\<lparr>slaveseldb := dictid\<rparr>"
  have ok2: "master_ok sv ext sh sel m2" and g2: "grew ext m T s (\<lambda>_. s) m2" using m1(2,3) by (simp_all add: m2_def seldb_cong)
  have b2: "backlog_rep m2 (T @ s)" and v2: "same_views ext m m2" using g2 by (simp_all add: grew_def)
  have l: "list_all2 (\<lambda>a t. 0 < ext a \<and> v_text (view (m_heap m2) a) = Some t \<and>
      (case view (m_heap m2) a of Some (e, PInt n) \<Rightarrow> n <s 0 \<longrightarrow> - n \<noteq> n | _ \<Rightarrow> True)) argv ts" and n: "length argv < 2 ^ 63"
    using ar v2 unfolding args_ok_def same_views_def by (auto elim!: list.rel_mono_strong)
  have ar2: "args_ok ext (view (m_heap m2)) argv ts" using l n by (simp add: args_ok_def)
  have "list_all2 (arg_ok (m_heap m2)) argv ts" by (rule list.rel_mono_strong [OF l]) (use master_arg [OF ok2] in blast)
  from feedCommand_ok [OF b2 this n, of "sv_fresh sv"] obtain m3 where
    m3: "feedCommand (sv_fresh sv) argv m2 = Some m3" "backlog_rep m3 ((T @ s) @ request ts)" "fed m2 (length (request ts)) m3" by (elim exE conjE)
  from backlog_slaves [OF ok2 m3(3,2) feedSlave_feeds [OF ar2]] obtain m4 where
    m4: "each_slave (feedSlave sv sh argv) m3 = Some m4" "master_ok sv ext sh sel m4"
      "grew ext m2 (T @ s) (request ts) (\<lambda>st. if st = REDIS_REPL_WAIT_BGSAVE_START then [] else request ts) m4" "slaveseldb m4 = slaveseldb m2"
    by (elim exE conjE)
  have "replicationFeedSlaves sv sh sel dictid argv m = Some m4"
    using m1(1) m3(1) m4(1) backlog_some [OF b] backlog_some [OF b2] unfolding replicationFeedSlaves_def by (simp add: m2_def split: if_splits)
  then show ?thesis using m4(2,4) grew_trans [OF g2 m4(3)] by (simp add: s_def m2_def)
qed


section \<open>The replication stream\<close>

text \<open>A master propagates commands, and its slaves take portions of their output at any time.\<close>

datatype repl_event = Propagate int "nat list" | Transmit nat "nat list"

fun run_repl :: "server_env \<Rightarrow> shared_objects \<Rightarrow> nat list \<Rightarrow> repl_event \<Rightarrow> bytes list \<times> master \<Rightarrow> (bytes list \<times> master) option" where
  "run_repl sv sh sel (Propagate dictid argv) (sent, m) = do {
     m \<leftarrow> replicationFeedSlaves sv sh sel dictid argv m;
     Some (sent, m) }"
| "run_repl sv sh sel (Transmit i writes) (sent, m) =
     (if i < length (slaves m) then do {
        (xs, c) \<leftarrow> sendReplyToClient sv writes False (joined m (slaves m ! i));
        Some (sent[i := sent ! i @ xs], (keep_heap c m)\<lparr>slaves := (slaves m)[i := c]\<rparr>) }
      else Some (sent, m))"

definition object_text :: "master \<Rightarrow> nat \<Rightarrow> bytes" where
  "object_text m a = (case v_text (view (m_heap m) a) of Some t \<Rightarrow> t | None \<Rightarrow> [])"

fun stream_of :: "(nat \<Rightarrow> bytes) \<Rightarrow> int \<Rightarrow> repl_event list \<Rightarrow> bytes" where
  "stream_of tx seldb [] = []"
| "stream_of tx seldb (Propagate dictid argv # evs) = command_prefix seldb dictid @ request (map tx argv) @ stream_of tx dictid evs"
| "stream_of tx seldb (Transmit i writes # evs) = stream_of tx seldb evs"

fun repl_event_ok :: "(nat \<Rightarrow> nat) \<Rightarrow> master \<Rightarrow> repl_event \<Rightarrow> bool" where
  "repl_event_ok ext m (Propagate dictid argv) \<longleftrightarrow> args_ok ext (view (m_heap m)) argv (map (object_text m) argv)"
| "repl_event_ok ext m (Transmit i writes) \<longleftrightarrow> True"

lemma sent_bound: "sent_ok k x \<Longrightarrow> k \<le> length (all_bytes x)"
  by (cases "snd x") (auto simp: sent_ok_def all_bytes_def flat_def split: if_splits)

lemma took_pending:
  assumes "own_ok sv (joined m c)" "took m c s m' c'"
  shows "pending (joined m' c') = pending (joined m c) @ s"
proof -
  have "c_sentlen c \<le> length (all_bytes (ost (joined m c)))" using sent_bound assms(1) by (auto simp: own_ok_def)
  moreover have "c_sentlen c' = c_sentlen c" using assms(2) by (simp add: took_def rframe_def)
  ultimately show ?thesis using chain_bytes [of "ost (joined m c)" s "ost (joined m' c')"] assms(2) by (simp add: pending_def took_def)
qed

text \<open>What an event does to the output of every slave: \<open>xs\<close> is sent and \<open>s\<close> is added.\<close>

definition moved :: "master \<Rightarrow> (nat \<Rightarrow> bytes) \<Rightarrow> (nat \<Rightarrow> bytes) \<Rightarrow> master \<Rightarrow> bool" where
  "moved m s xs m' \<longleftrightarrow> length (slaves m') = length (slaves m) \<and>
     (\<forall>i<length (slaves m). c_replstate (slaves m' ! i) = c_replstate (slaves m ! i) \<and>
        pending (joined m (slaves m ! i)) @ s (c_replstate (slaves m ! i)) = xs i @ pending (joined m' (slaves m' ! i)))"

lemma grew_moved:
  assumes "master_ok sv ext sh sel m" "grew ext m T s txt m'"
  shows "moved m txt (\<lambda>_. []) m'"
proof -
  have l: "list_all2 (\<lambda>c c'. took m c (txt (c_replstate c)) m' c') (slaves m) (slaves m')" using assms(2) by (simp add: grew_def)
  have "c_replstate (slaves m' ! i) = c_replstate (slaves m ! i) \<and>
      pending (joined m' (slaves m' ! i)) = pending (joined m (slaves m ! i)) @ txt (c_replstate (slaves m ! i))" if "i < length (slaves m)" for i
  proof -
    have t: "took m (slaves m ! i) (txt (c_replstate (slaves m ! i))) m' (slaves m' ! i)" by (rule list_all2_nthD [OF l that])
    have "own_ok sv (joined m (slaves m ! i))" using assms(1) that worldD(3) by (auto simp: master_ok_def)
    then show ?thesis using took_pending [OF _ t] took_state(1) [OF t] by simp
  qed
  then show ?thesis using list_all2_lengthD [OF l] by (simp add: moved_def)
qed

lemma other_member: "k < length l \<Longrightarrow> k \<noteq> i \<Longrightarrow> l ! k \<in> set (take i l @ drop (Suc i) l)"
proof (cases "k < i")
  case True
  assume "k < length l"
  then have "take i l ! k \<in> set (take i l)" using True by (intro nth_mem) simp
  then show ?thesis using True by simp
next
  case False
  assume k: "k < length l" "k \<noteq> i"
  then have "Suc i \<le> k" using False by simp
  then obtain d where d: "k = Suc i + d" using le_Suc_ex by blast
  have "drop (Suc i) l ! d \<in> set (drop (Suc i) l)" using k(1) d by (intro nth_mem) simp
  then show ?thesis using k(1) d by simp
qed

lemma transmit_ok:
  assumes ok: "master_ok sv ext sh sel m" and i: "i < length (slaves m)"
  shows "\<exists>xs c. sendReplyToClient sv ws False (joined m (slaves m ! i)) = Some (xs, c) \<and>
    master_ok sv ext sh sel ((keep_heap c m)\<lparr>slaves := (slaves m)[i := c]\<rparr>) \<and> same_views ext m (keep_heap c m) \<and>
    moved m (\<lambda>_. []) (\<lambda>j. if j = i then xs else []) ((keep_heap c m)\<lparr>slaves := (slaves m)[i := c]\<rparr>)"
proof -
  define c0 where "c0 = slaves m ! i"
  define xs ys where "xs = take i (slaves m)" and "ys = drop (Suc i) (slaves m)"
  have sp: "slaves m = xs @ c0 # ys" "length xs = i" using id_take_nth_drop [OF i] i by (simp_all add: xs_def ys_def c0_def)
  have w: "world sv ext m (xs @ c0 # ys)" using ok unfolding master_ok_def sp(1) by blast
  have acc: "accepts sv c0" using ok i by (simp add: master_ok_def c0_def)
  let ?e = "held_by ext (xs @ ys)"
  have inv: "send_inv sv ?e (joined m c0)" by (rule world_take [OF w])
  from send_delivers [OF inv, of ws] acc obtain ts c where
    c: "sendReplyToClient sv ws False (joined m c0) = Some (ts, c)" "delivers sv ?e (joined m c0) [] ts c" by (auto simp: accepts_joined)
  have fr: "send_frame (joined m c0) c" by (rule sendReply_frame [OF c(1)])
  have d: "send_inv sv ?e c" "vframe ?e (joined m c0) c" "pending (joined m c0) = ts @ pending c" using c(2) by (simp_all add: delivers_def)
  have v: "view (c_heap c) a = view (m_heap m) a" if "0 < ?e a" for a using d(2) that by (simp add: vframe_def)
  have n: "m_next m \<le> c_next c" using fr by (simp add: send_frame_def)
  note put = world_put [OF w d(1) v n]
  define m1 where "m1 = (keep_heap c m)\<lparr>slaves := (slaves m)[i := c]\<rparr>"
  have j: "joined m1 = joined (keep_heap c m)" by (simp add: joined_def m1_def fun_eq_iff)
  have s1: "slaves m1 = xs @ c # ys" using upd_conv_take_nth_drop [OF i, of c] by (simp add: m1_def xs_def ys_def)
  have w1: "world sv ext m1 (slaves m1)" unfolding s1 using put(1) world_cong [of m1 "keep_heap c m"] by (simp add: m1_def)
  have sv: "same_views ext m (keep_heap c m)" using v held_by_ge [of ext _ "xs @ ys"] unfolding same_views_def keep_heap_simps by (metis less_le_trans)
  have "accepts sv c = accepts sv (joined m c0)" using d(2)
    unfolding vframe_def accepts_def by (simp add: REDIS_CLOSE_AFTER_REPLY_def REDIS_LUA_CLIENT_def REDIS_MASTER_def REDIS_MASTER_FORCE_REPLY_def REDIS_CLOSE_ASAP_def)
  then have "\<forall>d\<in>set (slaves m1). accepts sv d" using acc ok set_update_subset_insert [of "slaves m" i c] by (auto simp: m1_def master_ok_def accepts_joined)
  then have "master_ok sv ext sh sel m1" using master_okI [OF ok w1] sv by (simp add: same_views_def m1_def)
  moreover have "moved m (\<lambda>_. []) (\<lambda>j. if j = i then ts else []) m1" unfolding moved_def
  proof (intro conjI allI impI)
    fix k assume k: "k < length (slaves m)"
    show "c_replstate (slaves m1 ! k) = c_replstate (slaves m ! k)" using fr k i by (simp add: m1_def nth_list_update send_frame_def c0_def)
    show "pending (joined m (slaves m ! k)) @ [] = (if k = i then ts else []) @ pending (joined m1 (slaves m1 ! k))"
    proof (cases "k = i")
      case True
      then show ?thesis using d(3) i joined_keep [of c m] unfolding j by (simp add: m1_def c0_def)
    next
      case False
      then have "slaves m ! k \<in> set (xs @ ys)" unfolding xs_def ys_def by (rule other_member [OF k])
      then have "ost (joined m1 (slaves m ! k)) = ost (joined m (slaves m ! k))" using put(2) by (simp only: j)
      then show ?thesis using False by (simp add: pending_def m1_def)
    qed
  qed (simp add: m1_def)
  ultimately show ?thesis using c(1) sv unfolding m1_def c0_def by blast
qed

lemma master_moved_trans:
  assumes "moved m s xs m1" "moved m1 t ys m2"
  shows "moved m (\<lambda>st. s st @ t st) (\<lambda>i. xs i @ ys i) m2"
  using assms unfolding moved_def by (metis append.assoc)

lemma object_text_same:
  assumes "same_views ext m m'" "args_ok ext (view (m_heap m)) argv (map (object_text m) argv)"
  shows "map (object_text m') argv = map (object_text m) argv" "args_ok ext (view (m_heap m')) argv (map (object_text m') argv)"
proof -
  have v: "view (m_heap m') a = view (m_heap m) a" if "a \<in> set argv" for a
    using assms that by (auto simp: args_ok_def same_views_def list_all2_map2 list_all2_same)
  then show t: "map (object_text m') argv = map (object_text m) argv" by (simp add: object_text_def)
  show "args_ok ext (view (m_heap m')) argv (map (object_text m') argv)"
    unfolding t using assms(2) v by (auto simp: args_ok_def list_all2_map2 list_all2_same)
qed

text \<open>What is the same for all events: \<open>full\<close> marks the slaves that are sent the commands.\<close>

definition stream_step :: "(nat \<Rightarrow> nat) \<Rightarrow> master \<Rightarrow> bytes \<Rightarrow> bytes \<Rightarrow> bytes list \<Rightarrow> bytes list \<Rightarrow> master \<Rightarrow> bool" where
  "stream_step ext m T s sent sent' m' \<longleftrightarrow> backlog_rep m' (T @ s) \<and> same_views ext m m' \<and>
     master_repl_offset m' = master_repl_offset m + int (length s) \<and> repl_backlog_size m' = repl_backlog_size m \<and> runid m' = runid m \<and> masterhost m' = masterhost m \<and>
     length (slaves m') = length (slaves m) \<and> length sent' = length (slaves m) \<and>
     (\<forall>i<length (slaves m). c_replstate (slaves m' ! i) = c_replstate (slaves m ! i) \<and>
        (c_replstate (slaves m ! i) \<noteq> REDIS_REPL_WAIT_BGSAVE_START \<longrightarrow>
           sent' ! i @ pending (joined m' (slaves m' ! i)) = sent ! i @ pending (joined m (slaves m ! i)) @ s))"

lemma run_repl_ok:
  assumes ok: "master_ok sv ext sh sel m" and b: "backlog_rep m T" and ev: "repl_event_ok ext m ev" and n: "length sent = length (slaves m)"
  shows "\<exists>sent' m'. run_repl sv sh sel ev (sent, m) = Some (sent', m') \<and> master_ok sv ext sh sel m' \<and>
    stream_step ext m T (stream_of (object_text m) (slaveseldb m) [ev]) sent sent' m' \<and>
    slaveseldb m' = (case ev of Propagate d _ \<Rightarrow> d | _ \<Rightarrow> slaveseldb m)"
proof (cases ev)
  case (Propagate d argv)
  have ar: "args_ok ext (view (m_heap m)) argv (map (object_text m) argv)" using ev Propagate by simp
  from replicationFeedSlaves_ok [OF ok b ar, of d] obtain m' where
    m': "replicationFeedSlaves sv sh sel d argv m = Some m'" "master_ok sv ext sh sel m'" "slaveseldb m' = d"
      "grew ext m T (command_prefix (slaveseldb m) d @ request (map (object_text m) argv))
        (\<lambda>st. command_prefix (slaveseldb m) d @ (if st = REDIS_REPL_WAIT_BGSAVE_START then [] else request (map (object_text m) argv))) m'" by (elim exE conjE)
  have "moved m (\<lambda>st. command_prefix (slaveseldb m) d @ (if st = REDIS_REPL_WAIT_BGSAVE_START then [] else request (map (object_text m) argv))) (\<lambda>_. []) m'"
    by (rule grew_moved [OF ok m'(4)])
  then have "length (slaves m') = length (slaves m)"
      "\<forall>i<length (slaves m). c_replstate (slaves m' ! i) = c_replstate (slaves m ! i) \<and> (c_replstate (slaves m ! i) \<noteq> REDIS_REPL_WAIT_BGSAVE_START \<longrightarrow>
        pending (joined m' (slaves m' ! i)) = pending (joined m (slaves m ! i)) @ command_prefix (slaveseldb m) d @ request (map (object_text m) argv))"
    unfolding moved_def by auto
  then have "stream_step ext m T (stream_of (object_text m) (slaveseldb m) [ev]) sent sent m'"
    using m'(4) n by (simp add: stream_step_def Propagate grew_def)
  then show ?thesis using m' Propagate by simp
next
  case (Transmit i ws)
  show ?thesis
  proof (cases "i < length (slaves m)")
    case True
    from transmit_ok [OF ok True, of ws] obtain xs c where
      c: "sendReplyToClient sv ws False (joined m (slaves m ! i)) = Some (xs, c)" "master_ok sv ext sh sel ((keep_heap c m)\<lparr>slaves := (slaves m)[i := c]\<rparr>)"
        "same_views ext m (keep_heap c m)" "moved m (\<lambda>_. []) (\<lambda>j. if j = i then xs else []) ((keep_heap c m)\<lparr>slaves := (slaves m)[i := c]\<rparr>)"
      by (elim exE conjE)
    define m' where "m' = (keep_heap c m)\<lparr>slaves := (slaves m)[i := c]\<rparr>"
    have r: "backlog_rep m' T" "same_views ext m m'" "master_repl_offset m' = master_repl_offset m" "repl_backlog_size m' = repl_backlog_size m"
        "slaveseldb m' = slaveseldb m" "length (slaves m') = length (slaves m)" "runid m' = runid m" "masterhost m' = masterhost m"
      using b c(3) by (simp_all add: m'_def keep_heap_def backlog_rep_def same_views_def)
    have "sent[i := sent ! i @ xs] ! k @ pending (joined m' (slaves m' ! k)) = sent ! k @ pending (joined m (slaves m ! k))"
      if "k < length (slaves m)" for k using c(4) that n unfolding m'_def [symmetric] moved_def by (cases "k = i") auto
    then have "stream_step ext m T (stream_of (object_text m) (slaveseldb m) [ev]) sent (sent[i := sent ! i @ xs]) m'"
      using r c(4) n unfolding m'_def [symmetric] by (simp add: stream_step_def Transmit moved_def)
    then show ?thesis using c(1,2) True Transmit r(5) by (simp add: m'_def)
  next
    case False
    then show ?thesis using ok b n Transmit by (simp add: stream_step_def same_views_def)
  qed
qed

lemma stream_step_trans:
  assumes "stream_step ext m T s sent sent1 m1" "stream_step ext m1 (T @ s) t sent1 sent2 m2"
  shows "stream_step ext m T (s @ t) sent sent2 m2"
  using assms unfolding stream_step_def same_views_def by simp

lemma stream_of_split: "stream_of tx d (ev # evs) = stream_of tx d [ev] @ stream_of tx (case ev of Propagate e _ \<Rightarrow> e | _ \<Rightarrow> d) evs"
  by (cases ev) auto

lemma stream_of_cong:
  assumes "list_all (repl_event_ok ext m) evs" "same_views ext m m'"
  shows "stream_of (object_text m') d evs = stream_of (object_text m) d evs" "list_all (repl_event_ok ext m') evs"
proof -
  have e: "stream_of (object_text m') d [ev] = stream_of (object_text m) d [ev] \<and> repl_event_ok ext m' ev" if "repl_event_ok ext m ev" for ev d
  proof (cases ev)
    case (Propagate e argv)
    then have a: "args_ok ext (view (m_heap m)) argv (map (object_text m) argv)" using that by simp
    show ?thesis unfolding Propagate using object_text_same(2) [OF assms(2) a] by (simp only: stream_of.simps repl_event_ok.simps object_text_same(1) [OF assms(2) a])
  qed simp
  show "list_all (repl_event_ok ext m') evs" using assms(1) e by (auto simp: list_all_iff)
  show "stream_of (object_text m') d evs = stream_of (object_text m) d evs" using assms(1)
  proof (induction evs arbitrary: d)
    case (Cons ev evs)
    then show ?case using e [of ev d] unfolding stream_of_split [of _ _ ev evs] by simp
  qed simp
qed

lemma run_repls_ok:
  assumes "master_ok sv ext sh sel m" "backlog_rep m T" "list_all (repl_event_ok ext m) evs" "length sent = length (slaves m)"
  shows "\<exists>sent' m'. for_each evs (run_repl sv sh sel) (sent, m) = Some (sent', m') \<and> master_ok sv ext sh sel m' \<and>
    stream_step ext m T (stream_of (object_text m) (slaveseldb m) evs) sent sent' m'"
  using assms
proof (induction evs arbitrary: m T sent)
  case Nil
  then show ?case by (simp add: stream_step_def same_views_def)
next
  case (Cons ev evs)
  have ev: "repl_event_ok ext m ev" "list_all (repl_event_ok ext m) evs" using Cons.prems(3) by simp_all
  from run_repl_ok [OF Cons.prems(1,2) ev(1) Cons.prems(4)] obtain sent1 m1 where
    m1: "run_repl sv sh sel ev (sent, m) = Some (sent1, m1)" "master_ok sv ext sh sel m1"
      "stream_step ext m T (stream_of (object_text m) (slaveseldb m) [ev]) sent sent1 m1"
      "slaveseldb m1 = (case ev of Propagate d _ \<Rightarrow> d | _ \<Rightarrow> slaveseldb m)" by (elim exE conjE)
  have s: "backlog_rep m1 (T @ stream_of (object_text m) (slaveseldb m) [ev])" "same_views ext m m1" "length sent1 = length (slaves m1)"
    using m1(3) by (simp_all add: stream_step_def)
  note cong = stream_of_cong [OF ev(2) s(2)]
  from Cons.IH [OF m1(2) s(1) cong(2) s(3)] obtain sent2 m2 where
    m2: "for_each evs (run_repl sv sh sel) (sent1, m1) = Some (sent2, m2)" "master_ok sv ext sh sel m2"
      "stream_step ext m1 (T @ stream_of (object_text m) (slaveseldb m) [ev]) (stream_of (object_text m1) (slaveseldb m1) evs) sent1 sent2 m2"
    by (elim exE conjE)
  have "stream_step ext m T (stream_of (object_text m) (slaveseldb m) (ev # evs)) sent sent2 m2"
    using stream_step_trans [OF m1(3) m2(3)] unfolding stream_of_split [of _ _ ev evs] cong(1) m1(4) .
  then show ?case using m1(1) m2(1,2) by simp
qed


section \<open>Partial resynchronisation\<close>

lemma own_fields:
  assumes "c_reply c' = c_reply c" "c_buf c' = c_buf c" "c_bufpos c' = c_bufpos c" "c_reply_bytes c' = c_reply_bytes c" "c_sentlen c' = c_sentlen c"
  shows "own_ok sv (joined m c') = own_ok sv (joined m c)" "ost (joined m c') = ost (joined m c)" "refs c' = refs c"
  using assms by (simp_all add: own_ok_def buf_ok_def mem_ok_def ost_def texts_def refs_def fun_eq_iff)

lemma world_fields:
  assumes "world sv ext m (xs @ c # ys)" "c_reply c' = c_reply c" "c_buf c' = c_buf c" "c_bufpos c' = c_bufpos c"
    "c_reply_bytes c' = c_reply_bytes c" "c_sentlen c' = c_sentlen c"
  shows "world sv ext m (xs @ c' # ys)"
proof (rule worldI)
  note f = own_fields [OF assms(2-6)]
  have h: "held_by ext (xs @ c' # ys) = held_by ext (xs @ c # ys)" by (simp add: held_by_def fun_eq_iff f(3))
  show "a < m_next m \<and> v_wf (ob_encoding ob, ob_ptr ob) \<and> ob_refcount ob = held_by ext (xs @ c' # ys) a \<and> 0 < ob_refcount ob"
    if "m_heap m a = Some ob" for a ob using worldD(1) [OF assms(1) that] unfolding h .
  show "\<exists>v. view (m_heap m) a = Some v \<and> snd v \<noteq> PNull" if "0 < held_by ext (xs @ c' # ys) a" for a
    using worldD(2) [OF assms(1)] that unfolding h .
  show "own_ok sv (joined m d)" if "d \<in> set (xs @ c' # ys)" for d using worldD(3) [OF assms(1), of d] worldD(3) [OF assms(1), of c] f(1) that by auto
qed

text \<open>A client without pending output, and what the master knows of it when it asks to continue.\<close>

definition asks :: "server_env \<Rightarrow> (nat \<Rightarrow> nat) \<Rightarrow> master \<Rightarrow> redisClient \<Rightarrow> bool" where
  "asks sv ext m c \<longleftrightarrow> world sv ext m (slaves m @ [c]) \<and> accepts sv c \<and> \<not> has_flag REDIS_SLAVE c \<and> c_reply c = [] \<and> c_bufpos c = 0 \<and>
     (masterhost m \<longrightarrow> master_link_up m)"

lemma next_backlog: "addReplyReplicationBacklog sv off m c = Some (l, c') \<Longrightarrow> c_next c \<le> c_next c'"
  by (auto simp: addReplyReplicationBacklog_def Let_def dest!: next_sendBacklog split: if_splits bind_splits)

lemma keep_joined: "keep_heap (joined m c) m = m"
  by (simp add: keep_heap_def)

lemma join_slave:
  assumes ok: "master_ok sv ext sh sel m" and b: "backlog_rep m T" "repl_backlog_size m < 2 ^ 32" and a: "asks sv ext m c"
    and o: "repl_backlog_off m \<le> off" "off \<le> repl_backlog_off m + int (repl_backlog_histlen m)"
    and c1: "c1 = (set_flag REDIS_SLAVE (joined m c))\<lparr>c_replstate := REDIS_REPL_ONLINE, c_repl_ack_time := t, c_put_online_on_ack := False\<rparr>"
  shows "\<exists>c2. addReplyReplicationBacklog sv off m c1 = Some (master_repl_offset m + 1 - off, c2) \<and>
    world sv ext (keep_heap c2 m) (slaves m @ [c2]) \<and> accepts sv c2 \<and> c_replstate c2 = REDIS_REPL_ONLINE \<and> same_views ext m (keep_heap c2 m) \<and>
    pending c2 = drop (length T - nat (master_repl_offset m + 1 - off)) T \<and>
    (\<forall>d\<in>set (slaves m). ost (joined (keep_heap c2 m) d) = ost (joined m d))"
proof -
  let ?e = "held_by ext (slaves m)"
  have j1: "joined m c1 = c1" by (simp add: c1 joined_def on_heap_def set_flag_def)
  have w: "world sv ext m (slaves m @ c1 # [])"
    by (rule world_fields [of _ _ _ _ c]) (use a in \<open>simp_all add: asks_def c1 set_flag_def\<close>)
  have i: "send_inv sv ?e c1" using world_take [OF w] by (simp add: j1)
  have acc: "accepts sv c1" using a unfolding asks_def accepts_def
    by (simp add: c1 set_flag_def has_flag_def has_flag_upd REDIS_SLAVE_def REDIS_CLOSE_AFTER_REPLY_def REDIS_LUA_CLIENT_def REDIS_MASTER_def REDIS_MASTER_FORCE_REPLY_def)
  have sh: "shared_ok ?e sh c1" using shared_joined [of ext sh m ?e c1] ok held_by_ge [of ext _ "slaves m"] by (simp add: master_ok_def j1)
  have r: "ready sv ?e sh c1" using i acc sh by (simp add: ready_def send_inv_def)
  from addReplyReplicationBacklog_ok [OF b(1) r b(2) o] obtain c2 where
    c2: "addReplyReplicationBacklog sv off m c1 = Some (master_repl_offset m + 1 - off, c2)"
      "appended sv ?e c1 (drop (length T - nat (master_repl_offset m + 1 - off)) T) c2" by (elim exE conjE)
  have d: "delivers sv ?e c1 (drop (length T - nat (master_repl_offset m + 1 - off)) T) [] c2" by (rule appended_delivers [OF i c2(2)])
  have i2: "send_inv sv (held_by ext (slaves m @ [])) c2" using d by (simp add: delivers_def)
  have fr: "rframe ?e c1 c2" using c2(2) by (simp add: appended_def)
  have v: "view (c_heap c2) x = view (m_heap m) x" if "0 < ?e x" for x using fr that j1 by (metis rframe_def joined_simps(1))
  have n: "m_next m \<le> c_next c2" using next_backlog [OF c2(1)] j1 by (metis joined_simps(2))
  have v': "view (c_heap c2) x = view (m_heap m) x" if "0 < held_by ext (slaves m @ []) x" for x using v that by simp
  note put = world_put [OF w i2 v' n]
  have p0: "pending c1 = []"
  proof -
    have "c_reply c1 = []" "c_bufpos c1 = 0" using a by (simp_all add: asks_def c1 set_flag_def)
    then show ?thesis by (simp add: pending_def ost_def texts_def all_bytes_def flat_def)
  qed
  have "same_views ext m (keep_heap c2 m)" unfolding same_views_def keep_heap_simps using v held_by_ge [of ext _ "slaves m"] by (metis less_le_trans)
  moreover have "c_replstate c2 = REDIS_REPL_ONLINE" using fr by (simp add: rframe_def c1)
  moreover have "accepts sv c2" using accepts_frame [OF fr] acc by simp
  ultimately show ?thesis using c2(1) put d p0 by (simp add: delivers_def)
qed

definition CONTINUE :: bytes where
  "CONTINUE = lit ''+CONTINUE'' @ CRLF"

lemma psync_ok:
  assumes ok: "master_ok sv ext sh sel m" and b: "backlog_rep m T" "repl_backlog_size m < 2 ^ 32" and a: "asks sv ext m c"
    and argv: "c_argv c = [cmd, rid, arg]" "strcaseeq cmd (lit ''psync'')" "strcaseeq rid (runid m)" "getLongLongFromObject arg = Some off"
    and o: "repl_backlog_off m \<le> off" "off \<le> repl_backlog_off m + int (repl_backlog_histlen m)" and wr: "length CONTINUE \<le> wr"
  shows "\<exists>c' m'. syncCommand sv wr bgsave m c = Some (CONTINUE, c', m') \<and> master_ok sv ext sh sel m' \<and> backlog_rep m' T \<and>
    slaves m' = slaves m @ [c'] \<and> c_replstate c' = REDIS_REPL_ONLINE \<and> same_views ext m m' \<and>
    pending (joined m' c') = drop (length T - nat (master_repl_offset m + 1 - off)) T \<and>
    (\<forall>d\<in>set (slaves m). ost (joined m' d) = ost (joined m d)) \<and> slaveseldb m' = slaveseldb m \<and> master_repl_offset m' = master_repl_offset m"
proof -
  define c1 where "c1 = (set_flag REDIS_SLAVE (joined m c))\<lparr>c_replstate := REDIS_REPL_ONLINE, c_repl_ack_time := sv_unixtime sv, c_put_online_on_ack := False\<rparr>"
  from join_slave [OF ok b a o c1_def] obtain c2 where
    c2: "addReplyReplicationBacklog sv off m c1 = Some (master_repl_offset m + 1 - off, c2)"
      "world sv ext (keep_heap c2 m) (slaves m @ [c2])" "accepts sv c2" "c_replstate c2 = REDIS_REPL_ONLINE" "same_views ext m (keep_heap c2 m)"
      "pending c2 = drop (length T - nat (master_repl_offset m + 1 - off)) T"
      "\<forall>d\<in>set (slaves m). ost (joined (keep_heap c2 m) d) = ost (joined m d)" by (elim exE conjE)
  define m2 where "m2 = refreshGoodSlavesCount sv ((keep_heap c2 m)\<lparr>slaves := slaves m @ [c2]\<rparr>)"
  define m' where "m' = m2\<lparr>stat_sync_partial_ok := stat_sync_partial_ok m2 + 1\<rparr>"
  obtain y where nb: "repl_backlog m = Some y" using backlog_some [OF b(1)] by blast
  have "masterTryPartialResynchronization sv wr m c = Some (True, CONTINUE, c2, m2)"
    using argv o wr nb c2(1)
    by (simp add: masterTryPartialResynchronization_def mem_get_def getLongLongFromObjectOrReply_def keep_joined CONTINUE_def m2_def Let_def flip: c1_def)
  then have run: "syncCommand sv wr bgsave m c = Some (CONTINUE, c2, m')"
    using a argv(1,2) unfolding syncCommand_def asks_def by (auto simp: mem_get_def m'_def)
  have f: "m_heap m' = c_heap c2" "m_next m' = c_next c2" "slaves m' = slaves m @ [c2]" "slaveseldb m' = slaveseldb m"
      "master_repl_offset m' = master_repl_offset m" "backlog_rep m' T = backlog_rep m T"
    by (simp_all add: m'_def m2_def refreshGoodSlavesCount_def keep_heap_def backlog_rep_def)
  have j: "joined m' = joined (keep_heap c2 m)" by (simp add: joined_def f fun_eq_iff)
  have s: "same_views ext m m'" using c2(5) by (simp add: same_views_def f)
  have "world sv ext m' (slaves m')" using c2(2) world_cong [of m' "keep_heap c2 m"] by (simp add: f)
  moreover have "\<forall>d\<in>set (slaves m'). accepts sv d" using c2(3) ok by (simp add: f master_ok_def)
  ultimately have "master_ok sv ext sh sel m'" using master_okI [OF ok] s by simp
  then show ?thesis using run b(1) s c2(4,6,7) joined_keep [of c2 m] by (simp add: f j)
qed

section \<open>A master at work\<close>

text \<open>The fields that \<open>initServerConfig\<close> and \<open>initServer\<close> set.\<close>

definition REDIS_DEFAULT_REPL_BACKLOG_SIZE :: nat where "REDIS_DEFAULT_REPL_BACKLOG_SIZE = 1024 * 1024"

definition initReplication :: "bytes \<Rightarrow> master" where
  "initReplication rid = \<lparr>m_heap = \<lambda>_. None, m_next = 0, slaves = [], slaveseldb = - 1, repl_backlog = None,
     repl_backlog_size = REDIS_DEFAULT_REPL_BACKLOG_SIZE, repl_backlog_histlen = 0, repl_backlog_idx = 0, repl_backlog_off = 0,
     master_repl_offset = 0, runid = rid, repl_min_slaves_to_write = 0, repl_min_slaves_max_lag = 10, repl_good_slaves_count = 0,
     masterhost = False, master_link_up = False, rdb_child = None, repl_diskless_sync = False,
     stat_sync_full = 0, stat_sync_partial_ok = 0, stat_sync_partial_err = 0\<rparr>"

lemma held_nil: "held_by ext [] = ext"
  by (simp add: held_by_def fun_eq_iff)

lemma init_world:
  assumes "send_inv sv ext c"
  shows "world sv ext (keep_heap c (initReplication rid)) [c]"
proof -
  have "world sv (\<lambda>_. 0) (initReplication rid) []" by (rule worldI) (simp_all add: initReplication_def held_by_def)
  from world_no_client [OF this] have w: "world sv (\<lambda>_. 0) (initReplication rid) ([] @ no_client # [])" by simp
  have "send_inv sv (held_by ext ([] @ [])) c" "m_next (initReplication rid) \<le> c_next c" using assms by (simp_all add: held_nil initReplication_def)
  from world_swap(1) [OF w this(1) _ this(2)] show ?thesis by (simp add: held_nil)
qed

lemma rest_same_trans: "rest_same m m1 \<Longrightarrow> rest_same m1 m2 \<Longrightarrow> rest_same m m2"
  unfolding rest_same_def
proof (elim exE)
  fix h n h' n' assume "m1 = m\<lparr>m_heap := h, m_next := n\<rparr>" "m2 = m1\<lparr>m_heap := h', m_next := n'\<rparr>"
  then have "m2 = m\<lparr>m_heap := h', m_next := n'\<rparr>" by simp
  then show "\<exists>h n. m2 = m\<lparr>m_heap := h, m_next := n\<rparr>" by blast
qed

lemma createSelectCmds_ok:
  assumes "world sv ext m cs"
  shows "\<exists>as ext' m'. createSelectCmds sv js m = Some (as, m') \<and> world sv ext' m' cs \<and> (\<forall>b. ext b \<le> ext' b) \<and> same_views ext m m' \<and>
    length as = length js \<and> rest_same m m' \<and>
    (\<forall>i<length js. 0 < ext' (as ! i) \<and> v_text (view (m_heap m') (as ! i)) = Some (selects (int (js ! i)))) \<and>
    (\<forall>d\<in>set cs. ost (joined m' d) = ost (joined m d))"
  using assms
proof (induction js arbitrary: ext m)
  case Nil
  then show ?case by (auto simp: same_views_def rest_same_refl)
next
  case (Cons j js)
  from newSelectCmd_ok [OF Cons.prems, of 64 "int j"] obtain a m1 where
    m1: "newSelectCmd sv 64 (int j) m = Some (a, m1)" "world sv (ext(a := 1)) m1 cs" "ext a = 0"
      "\<forall>b. 0 < ext b \<longrightarrow> view (m_heap m1) b = view (m_heap m) b" "arg_ok (m_heap m1) a (selects (int j))" "rest_same m m1"
      "\<forall>d\<in>set cs. ost (joined m1 d) = ost (joined m d)" by auto
  from Cons.IH [OF m1(2)] obtain as ext' m' where
    m': "createSelectCmds sv js m1 = Some (as, m')" "world sv ext' m' cs" "\<forall>b. (ext(a := 1)) b \<le> ext' b" "same_views (ext(a := 1)) m1 m'"
      "length as = length js" "rest_same m1 m'" "\<forall>i<length js. 0 < ext' (as ! i) \<and> v_text (view (m_heap m') (as ! i)) = Some (selects (int (js ! i)))"
      "\<forall>d\<in>set cs. ost (joined m' d) = ost (joined m1 d)" by (elim exE conjE)
  have le: "ext b \<le> ext' b" for b using m'(3) m1(3) by (metis fun_upd_apply zero_le)
  have sv: "same_views ext m m'" using m1(3,4) m'(4) unfolding same_views_def by (metis fun_upd_apply less_numeral_extra(3))
  have "0 < ext' a" using m'(3) by (metis fun_upd_same less_le_trans zero_less_one)
  moreover have "v_text (view (m_heap m') a) = Some (selects (int j))" using m1(5) m'(4) by (simp add: arg_ok_def same_views_def)
  ultimately have "\<forall>i<length (j # js). 0 < ext' ((a # as) ! i) \<and> v_text (view (m_heap m') ((a # as) ! i)) = Some (selects (int ((j # js) ! i)))"
    using m'(7) by (auto simp: nth_Cons split: nat.split)
  moreover have "rest_same m m'" using m1(6) m'(6) by (rule rest_same_trans)
  ultimately show ?case using m1(1,7) m'(1,2,5,8) le sv by (intro exI [of _ "a # as"] exI [of _ ext'] exI [of _ m']) simp
qed

lemma createReplicationBacklog_ok:
  assumes "repl_backlog m = None" "0 < repl_backlog_size m"
  shows "\<exists>m'. createReplicationBacklog fresh m = Some m' \<and> backlog_rep m' [] \<and> master_repl_offset m' = master_repl_offset m + 1 \<and>
    repl_backlog_size m' = repl_backlog_size m \<and> m_heap m' = m_heap m \<and> m_next m' = m_next m \<and> slaves m' = slaves m \<and>
    slaveseldb m' = slaveseldb m \<and> runid m' = runid m \<and> masterhost m' = masterhost m"
proof -
  have "mem_alloc fresh (repl_backlog_size m) \<noteq> []" using assms(2) by (metis length_mem_alloc list.size(3) less_irrefl)
  then show ?thesis using assms(1) by (simp add: createReplicationBacklog_def Let_def backlog_rep_def ring_def)
qed

text \<open>A new server with one slave and a backlog.\<close>

definition started :: "server_env \<Rightarrow> bytes \<Rightarrow> (shared_objects \<times> nat list \<times> master) option" where
  "started sv rid = do {
     c \<leftarrow> createClient sv 5;
     (sh, c) \<leftarrow> createSharedObjects sv c;
     (sel, m) \<leftarrow> createSelectCmds sv [0..<REDIS_SHARED_SELECT_CMDS]
       ((keep_heap c (initReplication rid))\<lparr>slaves := [c\<lparr>c_replstate := REDIS_REPL_ONLINE\<rparr>]\<rparr>);
     m \<leftarrow> createReplicationBacklog (sv_fresh sv) m;
     Some (sh, sel, m) }"

lemma started_ok:
  assumes "sv_ae_ok sv"
  shows "\<exists>sh sel m ext. started sv rid = Some (sh, sel, m) \<and> master_ok sv ext sh sel m \<and> backlog_rep m [] \<and>
    length (slaves m) = 1 \<and> c_replstate (slaves m ! 0) = REDIS_REPL_ONLINE \<and> pending (joined m (slaves m ! 0)) = [] \<and> runid m = rid \<and> slaveseldb m = - 1 \<and>
    master_repl_offset m = 1 \<and> repl_backlog_size m = REDIS_DEFAULT_REPL_BACKLOG_SIZE \<and> \<not> masterhost m"
proof -
  have "(0 :: int) < 5" by simp
  from created_ready [OF this assms] obtain c0 sh c ext where
    c: "createClient sv 5 = Some c0" "createSharedObjects sv c0 = Some (sh, c)" "ready sv ext sh c" "send_inv sv ext c" "pending c = []"
    by (elim exE conjE)
  define c1 where "c1 = c\<lparr>c_replstate := REDIS_REPL_ONLINE\<rparr>"
  define m0 where "m0 = (keep_heap c (initReplication rid))\<lparr>slaves := [c1]\<rparr>"
  have "world sv ext (keep_heap c (initReplication rid)) ([] @ c # [])" using init_world [OF c(4)] by simp
  from world_fields [OF this, of c1] have "world sv ext (keep_heap c (initReplication rid)) [c1]" by (simp add: c1_def)
  then have w0: "world sv ext m0 [c1]" using world_cong [of m0 "keep_heap c (initReplication rid)"] by (simp add: m0_def)
  from createSelectCmds_ok [OF w0, of "[0..<REDIS_SHARED_SELECT_CMDS]"] obtain sel ext' m1 where
    m1: "createSelectCmds sv [0..<REDIS_SHARED_SELECT_CMDS] m0 = Some (sel, m1)" "world sv ext' m1 [c1]" "\<forall>b. ext b \<le> ext' b" "same_views ext m0 m1"
      "length sel = length [0..<REDIS_SHARED_SELECT_CMDS]" "rest_same m0 m1"
      "\<forall>i<length [0..<REDIS_SHARED_SELECT_CMDS]. 0 < ext' (sel ! i) \<and> v_text (view (m_heap m1) (sel ! i)) = Some (selects (int ([0..<REDIS_SHARED_SELECT_CMDS] ! i)))"
      "\<forall>d\<in>set [c1]. ost (joined m1 d) = ost (joined m0 d)"
    by (elim exE conjE)
  obtain h n where e1: "m1 = m0\<lparr>m_heap := h, m_next := n\<rparr>" using m1(6) unfolding rest_same_def by blast
  have "repl_backlog m1 = None" "0 < repl_backlog_size m1" by (simp_all add: e1 m0_def keep_heap_def initReplication_def REDIS_DEFAULT_REPL_BACKLOG_SIZE_def)
  from createReplicationBacklog_ok [OF this, of "sv_fresh sv"] obtain m where
    m: "createReplicationBacklog (sv_fresh sv) m1 = Some m" "backlog_rep m []" "master_repl_offset m = master_repl_offset m1 + 1"
      "repl_backlog_size m = repl_backlog_size m1" "m_heap m = m_heap m1" "m_next m = m_next m1" "slaves m = slaves m1" "slaveseldb m = slaveseldb m1"
      "runid m = runid m1" "masterhost m = masterhost m1" by (elim exE conjE)
  have j: "joined m = joined m1" unfolding joined_def m(5,6) ..
  have run: "started sv rid = Some (sh, sel, m)" using c(1,2) m1(1) m(1) by (simp add: started_def m0_def c1_def)
  have f: "slaves m = [c1]" "runid m = rid" "slaveseldb m = - 1" "master_repl_offset m = 1" "repl_backlog_size m = REDIS_DEFAULT_REPL_BACKLOG_SIZE" "\<not> masterhost m"
    using m(3,4,7-10) by (simp_all add: e1 m0_def keep_heap_def initReplication_def)
  have "world sv ext' m (slaves m)" using m1(2) world_cong [OF m(5,6)] by (simp add: f)
  moreover have "accepts sv c1" using c(3) by (simp add: ready_def accepts_def c1_def has_flag_def)
  moreover have "shared_ok ext' sh (joined m no_client)"
  proof -
    have v: "view (m_heap m) a = view (c_heap c) a \<and> 0 < ext' a" if "0 < ext a" for a
      using m1(3,4) that m(5) unfolding same_views_def by (simp add: m0_def) (metis less_le_trans)
    have "shared_ok ext sh c" using c(3) by (simp add: ready_def)
    then show ?thesis unfolding shared_ok_def obj_text_def joined_simps by (metis v)
  qed
  ultimately have ok: "master_ok sv ext' sh sel m" using m1(5,7) m(5) by (simp add: master_ok_def f)
  have "joined m0 c1 = c\<lparr>c_replstate := REDIS_REPL_ONLINE\<rparr>" by (simp add: joined_def on_heap_def m0_def c1_def)
  then have "ost (joined m c1) = ost c" "c_sentlen c1 = c_sentlen c" using m1(8) unfolding j by (simp_all add: ost_def texts_def c1_def)
  then have "pending (joined m c1) = []" using c(5) by (simp add: pending_def)
  then show ?thesis using run ok m(2) f by (auto simp: c1_def)
qed


section \<open>Full resynchronisation\<close>

definition full_text :: "bytes \<Rightarrow> int \<Rightarrow> bytes" where
  "full_text rid off = lit ''+FULLRESYNC '' @ c_str rid @ [32] @ print_ll (word_of_int off) @ CRLF"

lemma fullResyncReply_ok:
  assumes "repl_backlog m \<noteq> None" "length (full_text (runid m) (master_repl_offset m)) < 128" "128 \<le> wr"
  shows "fullResyncReply wr m c = Some (False, full_text (runid m) (master_repl_offset m), c, m)"
  using assms by (auto simp: fullResyncReply_def full_text_def Let_def)

text \<open>A slave that has to wait for the next background save.\<close>

lemma full_resync_waits:
  assumes ok: "master_ok sv ext sh sel m" and b: "backlog_rep m T" and a: "asks sv ext m c"
    and argv: "c_argv c = [cmd, rid, arg]" "strcaseeq cmd (lit ''psync'')" "\<not> strcaseeq rid (runid m)"
    and ch: "rdb_child m = Some REDIS_RDB_CHILD_TYPE_DISK" "\<forall>d\<in>set (slaves m). c_replstate d \<noteq> REDIS_REPL_WAIT_BGSAVE_END"
    and len: "length (full_text (runid m) (master_repl_offset m)) < 128" "128 \<le> wr"
  shows "\<exists>c' m'. syncCommand sv wr bgsave m c = Some (full_text (runid m) (master_repl_offset m), c', m') \<and> master_ok sv ext sh sel m' \<and>
    backlog_rep m' T \<and> slaves m' = slaves m @ [c'] \<and> c_replstate c' = REDIS_REPL_WAIT_BGSAVE_START \<and> pending (joined m' c') = [] \<and>
    slaveseldb m' = - 1 \<and> master_repl_offset m' = master_repl_offset m \<and> same_views ext m m'"
proof -
  define c' where "c' = set_flag REDIS_SLAVE (c\<lparr>c_replstate := REDIS_REPL_WAIT_BGSAVE_START\<rparr>)"
  define m1 where "m1 = (if take 1 rid \<noteq> [63] then m\<lparr>stat_sync_partial_err := stat_sync_partial_err m + 1\<rparr> else m)"
  define m' where "m' = m1\<lparr>stat_sync_full := stat_sync_full m1 + 1, slaveseldb := - 1, slaves := slaves m1 @ [c']\<rparr>"
  have nb: "repl_backlog m \<noteq> None" by (rule backlog_some [OF b])
  then obtain y where y: "repl_backlog m = Some y" by blast
  have fl: "repl_backlog m1 = repl_backlog m" "rdb_child m1 = rdb_child m" "slaves m1 = slaves m" by (simp_all add: m1_def)
  have fd: "List.find (\<lambda>slave. c_replstate slave = REDIS_REPL_WAIT_BGSAVE_END) (slaves m) = None" using ch(2) by (auto simp: find_None_iff)
  have "masterTryPartialResynchronization sv wr m c = Some (False, full_text (runid m) (master_repl_offset m), c, m)"
    using argv fullResyncReply_ok [OF nb len] by (simp add: masterTryPartialResynchronization_def mem_get_def)
  moreover have "fullResync sv bgsave out m1 c = Some (out, c', m')" for out
    using ch(1) fd fl y by (simp add: fullResync_def waitForBgsave_def c'_def m'_def Let_def)
  ultimately have run: "syncCommand sv wr bgsave m c = Some (full_text (runid m) (master_repl_offset m), c', m')"
    using a argv(1,2) unfolding syncCommand_def asks_def by (auto simp: mem_get_def m1_def)
  have f: "m_heap m' = m_heap m" "m_next m' = m_next m" "slaves m' = slaves m @ [c']" "slaveseldb m' = - 1" "master_repl_offset m' = master_repl_offset m"
      "backlog_rep m' T = backlog_rep m T" by (simp_all add: m'_def m1_def backlog_rep_def)
  have "world sv ext m (slaves m @ c' # [])"
    by (rule world_fields [of _ _ _ _ c]) (use a in \<open>simp_all add: asks_def c'_def set_flag_def\<close>)
  then have "world sv ext m' (slaves m')" using world_cong [OF f(1,2)] by (simp add: f)
  moreover have "accepts sv c'" using a unfolding asks_def accepts_def
    by (simp add: c'_def set_flag_def has_flag_def has_flag_upd REDIS_SLAVE_def REDIS_CLOSE_AFTER_REPLY_def REDIS_LUA_CLIENT_def REDIS_MASTER_def REDIS_MASTER_FORCE_REPLY_def)
  moreover have s: "same_views ext m m'" by (simp add: same_views_def f)
  ultimately have "master_ok sv ext sh sel m'" using master_okI [OF ok] ok by (simp add: f master_ok_def)
  moreover have "pending (joined m' c') = []" using a by (simp add: asks_def c'_def set_flag_def pending_def ost_def texts_def all_bytes_def flat_def)
  ultimately show ?thesis using run f b s by (simp add: c'_def set_flag_def)
qed

lemma updateLoop_waiting:
  assumes "\<forall>d\<in>set cs. c_replstate d \<noteq> REDIS_REPL_WAIT_BGSAVE_END"
  shows "updateSlavesLoop sv ok type opens start kept cs m =
    Some (start \<or> (\<exists>d\<in>set cs. c_replstate d = REDIS_REPL_WAIT_BGSAVE_START), m\<lparr>slaves := kept @
      map (\<lambda>d. if c_replstate d = REDIS_REPL_WAIT_BGSAVE_START then d\<lparr>c_replstate := REDIS_REPL_WAIT_BGSAVE_END\<rparr> else d) cs\<rparr>)"
  using assms by (induction cs arbitrary: start kept) auto

lemma freeWaiting_none:
  assumes "\<forall>d\<in>set cs. c_replstate d \<noteq> REDIS_REPL_WAIT_BGSAVE_START"
  shows "freeWaiting sv kept cs m = Some (m\<lparr>slaves := kept @ cs\<rparr>)"
  using assms by (induction cs arbitrary: kept) auto

section \<open>What a slave executes\<close>

text \<open>The client that stands for the master on a slave, as \<open>readSyncBulkPayload\<close> creates it
  after the data set is loaded.  The fields that only authentication and a later reconnection
  read are left out.\<close>

definition masterClient :: "server_env \<Rightarrow> int \<Rightarrow> int \<Rightarrow> redisClient option" where
  "masterClient sv fd initial_offset = do {
     c \<leftarrow> createClient sv fd;
     let c = (set_flag REDIS_MASTER c)\<lparr>c_reploff := initial_offset\<rparr>;
     Some (if c_reploff c = - 1 then set_flag REDIS_PRE_PSYNC c else c) }"

fun commands_of :: "(nat \<Rightarrow> bytes) \<Rightarrow> int \<Rightarrow> repl_event list \<Rightarrow> bytes list list" where
  "commands_of tx seldb [] = []"
| "commands_of tx seldb (Propagate dictid argv # evs) =
     (if seldb \<noteq> dictid then [[lit ''SELECT'', print_ll (word_of_int dictid)]] else []) @ map tx argv # commands_of tx dictid evs"
| "commands_of tx seldb (Transmit i writes # evs) = commands_of tx seldb evs"

lemma stream_commands: "stream_of tx d evs = requests (commands_of tx d evs)"
  by (induction tx d evs rule: commands_of.induct) (simp_all add: command_prefix_def selects_def requests_def)

lemma masterClient_listens: "masterClient sv fd off = Some c \<Longrightarrow> listening sv c cmds (requests cmds)"
proof -
  assume "masterClient sv fd off = Some c"
  then obtain c0 where c0: "createClient sv fd = Some c0"
      "c = (if off = - 1 then set_flag REDIS_PRE_PSYNC ((set_flag REDIS_MASTER c0)\<lparr>c_reploff := off\<rparr>) else (set_flag REDIS_MASTER c0)\<lparr>c_reploff := off\<rparr>)"
    by (auto simp: masterClient_def Let_def split: bind_splits)
  have l: "listening sv c0 cmds (requests cmds)" by (rule created_listening [OF c0(1)])
  have "consistent sv c = consistent sv c0" by (rule consistent_cong) (simp_all add: c0(2) set_flag_def)
  moreover have "has_flag k c = has_flag k c0" if "k \<noteq> REDIS_MASTER" "k \<noteq> REDIS_PRE_PSYNC" for k using that by (auto simp: c0(2) set_flag_def has_flag_def has_flag_upd)
  then have "open_client c = open_client c0" by (simp add: open_client_def REDIS_MASTER_def REDIS_PRE_PSYNC_def REDIS_BLOCKED_def REDIS_CLOSE_AFTER_REPLY_def)
  moreover have "expects c cs w = expects c0 cs w" "starving 0 c w = starving 0 c0 w" for cs w
    by (simp_all add: expects_def idle_def mid_def known_def starving_def c0(2) set_flag_def stream_def counting_def)
  moreover have "c_freed c = c_freed c0" "c_querybuf c = c_querybuf c0" by (simp_all add: c0(2) set_flag_def)
  ultimately show ?thesis using l unfolding listening_def by simp
qed

lemma link_serves:
  assumes "masterClient sv fd off = Some c" "list_all command_ok cmds" "enough n" "executor_ok sv exec" "keeps_open exec" "never_paused paused"
    "list_all (\<lambda>k. 0 < k) portions" "length (requests cmds) \<le> length portions"
  shows "\<exists>s' c'. serve sv n paused exec portions (requests cmds) s c = Some (cmds, [], s', c') \<and> \<not> c_freed c'"
proof -
  from serve_stream [OF assms(3-6) masterClient_listens [OF assms(1)] assms(2), of portions s] obtain log sock s' c' rest where
    r: "serve sv n paused exec portions (requests cmds) s c = Some (log, sock, s', c')" "cmds = log @ rest" "listening sv c' rest sock"
      "list_all (\<lambda>k. 0 < k) portions \<longrightarrow> length sock \<le> length (requests cmds) - length portions" by (elim exE conjE)
  have z: "sock = []" using r(4) assms(7,8) by simp
  then have "rest = []" using r(3) listening_done by blast
  then show ?thesis using r z by (auto simp: listening_def)
qed

section \<open>Properties\<close>

text \<open>Property C5.
  The backlog and the slaves see one stream.  A master propagates commands in any databases,
  and its slaves take portions of their output at any time.  Then every slave that does not
  wait for a background save to start is sent, after what was pending, the text of the
  commands, with a \<open>SELECT\<close> in front where the database changes; the same bytes are added to
  the backlog and counted by the offset, although all slaves share the argument objects.
\<close>

theorem replication_stream:
  assumes "master_ok sv ext sh sel m" "backlog_rep m T" "list_all (repl_event_ok ext m) evs"
  shows "\<exists>sent m'. for_each evs (run_repl sv sh sel) (replicate (length (slaves m)) [], m) = Some (sent, m') \<and>
    backlog_rep m' (T @ stream_of (object_text m) (slaveseldb m) evs) \<and>
    master_repl_offset m' = master_repl_offset m + int (length (stream_of (object_text m) (slaveseldb m) evs)) \<and>
    (\<forall>i<length (slaves m). c_replstate (slaves m ! i) \<noteq> REDIS_REPL_WAIT_BGSAVE_START \<longrightarrow>
       sent ! i @ pending (joined m' (slaves m' ! i)) = pending (joined m (slaves m ! i)) @ stream_of (object_text m) (slaveseldb m) evs)"
  using run_repls_ok [OF assms, of "replicate (length (slaves m)) []"] by (auto simp: stream_step_def)

lemma crlf_event:
  assumes "master_ok sv ext sh sel m"
  shows "repl_event_ok ext m (Propagate d [sh_crlf sh])" "object_text m (sh_crlf sh) = CRLF"
proof -
  have s: "0 < ext (sh_crlf sh)" "v_text (view (m_heap m) (sh_crlf sh)) = Some CRLF"
    using assms by (simp_all add: master_ok_def shared_ok_def obj_text_def)
  show t: "object_text m (sh_crlf sh) = CRLF" by (simp add: object_text_def s)
  have "case view (m_heap m) (sh_crlf sh) of Some (e, PInt n) \<Rightarrow> n <s 0 \<longrightarrow> - n \<noteq> n | _ \<Rightarrow> True"
  proof -
    have "print_ll n \<noteq> CRLF" for n
    proof
      assume "print_ll n = CRLF"
      then have e: "CRLF = dec (nat (sint n))" by (simp add: print_ll_def CRLF_def split: if_splits)
      then have "13 \<in> set (dec (nat (sint n)))" unfolding e [symmetric] by (simp add: CRLF_def)
      then show False using dec_digits [of "nat (sint n)"] by force
    qed
    then show ?thesis using s(2) by (auto simp: v_text_def split: option.splits obj_ptr.splits)
  qed
  then show "repl_event_ok ext m (Propagate d [sh_crlf sh])" using s by (simp add: args_ok_def t)
qed

theorem replication_stream_witness:
  "\<exists>sh sel m sent m'. started sv_ex (lit ''a1'') = Some (sh, sel, m) \<and>
    for_each [Propagate 3 [sh_crlf sh], Transmit 0 [7]] (run_repl sv_ex sh sel) ([[]], m) = Some (sent, m') \<and>
    sent ! 0 @ pending (joined m' (slaves m' ! 0)) = selects 3 @ request [CRLF]"
proof -
  have "sv_ae_ok sv_ex" by (simp add: sv_ex_def)
  from started_ok [OF this, of "lit ''a1''"] obtain sh sel m ext where
    m: "started sv_ex (lit ''a1'') = Some (sh, sel, m)" "master_ok sv_ex ext sh sel m" "backlog_rep m []" "length (slaves m) = 1"
      "c_replstate (slaves m ! 0) = REDIS_REPL_ONLINE" "pending (joined m (slaves m ! 0)) = []" "slaveseldb m = - 1" by (elim exE conjE)
  have "list_all (repl_event_ok ext m) [Propagate 3 [sh_crlf sh], Transmit 0 [7]]" using crlf_event(1) [OF m(2)] by simp
  from replication_stream [OF m(2,3) this] show ?thesis
    using m(1,4-7) crlf_event(2) [OF m(2)] by (auto simp: REDIS_REPL_ONLINE_def REDIS_REPL_WAIT_BGSAVE_START_def command_prefix_def)
qed

text \<open>Property C4.
  Partial resynchronisation continues the stream.  A client asks with \<open>PSYNC\<close>, the run id of
  the master and the offset of the first byte it does not have, which is still in the
  backlog.  Then \<open>syncCommand\<close> answers \<open>+CONTINUE\<close>, and the client is sent exactly the bytes
  of the stream from that offset on: those of the circular buffer, wherever it wraps
  around, and then those of all commands that are propagated later.
\<close>

theorem psync_resumes:
  assumes ok: "master_ok sv ext sh sel m" and b: "backlog_rep m T" "repl_backlog_size m < 2 ^ 32" and a: "asks sv ext m c"
    and argv: "c_argv c = [cmd, rid, arg]" "strcaseeq cmd (lit ''psync'')" "strcaseeq rid (runid m)" "getLongLongFromObject arg = Some off"
    and o: "repl_backlog_off m \<le> off" "off \<le> repl_backlog_off m + int (repl_backlog_histlen m)" and wr: "length CONTINUE \<le> wr"
    and evs: "list_all (repl_event_ok ext m) evs"
  shows "\<exists>c' m1 sent m'. syncCommand sv wr bgsave m c = Some (CONTINUE, c', m1) \<and> slaves m1 = slaves m @ [c'] \<and>
    for_each evs (run_repl sv sh sel) (replicate (length (slaves m1)) [], m1) = Some (sent, m') \<and>
    sent ! length (slaves m) @ pending (joined m' (slaves m' ! length (slaves m))) =
      drop (length T - nat (master_repl_offset m + 1 - off)) (T @ stream_of (object_text m) (slaveseldb m) evs)"
proof -
  define S k where "S = stream_of (object_text m) (slaveseldb m) evs" and "k = length T - nat (master_repl_offset m + 1 - off)"
  from psync_ok [OF ok b a argv o wr, of bgsave] obtain c' m1 where
    m1: "syncCommand sv wr bgsave m c = Some (CONTINUE, c', m1)" "master_ok sv ext sh sel m1" "backlog_rep m1 T" "slaves m1 = slaves m @ [c']"
      "c_replstate c' = REDIS_REPL_ONLINE" "same_views ext m m1" "pending (joined m1 c') = drop k T" "slaveseldb m1 = slaveseldb m"
    unfolding k_def by (elim exE conjE)
  note cong = stream_of_cong [OF evs m1(6)]
  have S: "stream_of (object_text m1) (slaveseldb m1) evs = S" unfolding S_def cong(1) m1(8) ..
  from run_repls_ok [OF m1(2,3) cong(2), of "replicate (length (slaves m1)) []"] obtain sent m' where
    r: "for_each evs (run_repl sv sh sel) (replicate (length (slaves m1)) [], m1) = Some (sent, m')"
      "stream_step ext m1 T S (replicate (length (slaves m1)) []) sent m'" unfolding S by auto
  define n where "n = length (slaves m)"
  have n: "n < length (slaves m1)" "slaves m1 ! n = c'" by (simp_all add: n_def m1(4))
  have "sent ! n @ pending (joined m' (slaves m' ! n)) = pending (joined m1 c') @ S"
    using r(2) n m1(5) unfolding stream_step_def by (simp add: REDIS_REPL_ONLINE_def REDIS_REPL_WAIT_BGSAVE_START_def)
  also have "\<dots> = drop k (T @ S)" unfolding m1(7) by (simp add: k_def)
  finally show ?thesis using m1(1,4) r(1) unfolding S_def k_def n_def by blast
qed

lemma new_client_asks:
  assumes "master_ok sv ext sh sel m" "createClient sv fd = Some c" "0 < fd" "sv_ae_ok sv" "\<not> masterhost m"
  shows "asks sv ext m (c\<lparr>c_argv := args\<rparr>)"
proof -
  obtain q where c: "c = \<lparr>c_heap = \<lambda>_. None, c_next = 0, c_fd = fd, c_flags = 0, c_replstate = REDIS_REPL_NONE, c_put_online_on_ack = False,
       c_buf = mem_alloc (sv_fresh sv) REDIS_REPLY_CHUNK_BYTES, c_bufpos = 0, c_sentlen = 0, c_reply = [], c_reply_bytes = 0,
       c_soft_limit_time = 0, c_wevent = False, c_to_close = False, c_freed = False, c_stat_net_output_bytes = 0,
       c_stat_net_input_bytes = 0,
       c_lastinteraction = sv_unixtime sv, c_querybuf = q, c_querybuf_peak = 0, c_argv = [], c_argv_size = 0, c_cmd = None,
       c_reqtype = 0, c_multibulklen = 0, c_bulklen = - 1, c_reploff = 0, c_repl_ack_time = 0\<rparr>"
    using assms(2) by (auto simp: createClient_def split: bind_splits)
  have "world sv ext m (slaves m @ [c\<lparr>c_argv := args\<rparr>])"
    by (rule world_idle) (use assms(1) in \<open>simp_all add: c master_ok_def\<close>)
  then show ?thesis using assms(3-5) by (simp add: asks_def accepts_def c has_flag_def)
qed

text \<open>A new master that has propagated one command, and a second client.\<close>

lemma one_command:
  "\<exists>sh sel m0 ext sent m c. started sv_ex (lit ''a1'') = Some (sh, sel, m0) \<and>
    for_each [Propagate 3 [sh_crlf sh]] (run_repl sv_ex sh sel) ([[]], m0) = Some (sent, m) \<and> createClient sv_ex 6 = Some c \<and>
    master_ok sv_ex ext sh sel m \<and> backlog_rep m (selects 3 @ request [CRLF]) \<and> (\<forall>args. asks sv_ex ext m (c\<lparr>c_argv := args\<rparr>)) \<and>
    runid m = lit ''a1'' \<and> slaveseldb m = 3 \<and> master_repl_offset m = 1 + int (length (selects 3 @ request [CRLF])) \<and>
    repl_backlog_size m = REDIS_DEFAULT_REPL_BACKLOG_SIZE \<and> object_text m (sh_crlf sh) = CRLF \<and> length (slaves m) = 1 \<and> c_replstate (slaves m ! 0) = REDIS_REPL_ONLINE"
proof -
  have ae: "sv_ae_ok sv_ex" by (simp add: sv_ex_def)
  from started_ok [OF this, of "lit ''a1''"] obtain sh sel m0 ext where
    m0: "started sv_ex (lit ''a1'') = Some (sh, sel, m0)" "master_ok sv_ex ext sh sel m0" "backlog_rep m0 []" "length (slaves m0) = 1"
      "c_replstate (slaves m0 ! 0) = REDIS_REPL_ONLINE" "runid m0 = lit ''a1''" "slaveseldb m0 = - 1" "master_repl_offset m0 = 1" "repl_backlog_size m0 = REDIS_DEFAULT_REPL_BACKLOG_SIZE" "\<not> masterhost m0"
    by (elim exE conjE)
  have ev: "repl_event_ok ext m0 (Propagate 3 [sh_crlf sh])" by (rule crlf_event(1) [OF m0(2)])
  from run_repl_ok [OF m0(2,3) ev, of "[[]]"] m0(4) obtain sent m where
    m: "run_repl sv_ex sh sel (Propagate 3 [sh_crlf sh]) ([[]], m0) = Some (sent, m)" "master_ok sv_ex ext sh sel m"
      "stream_step ext m0 [] (stream_of (object_text m0) (slaveseldb m0) [Propagate 3 [sh_crlf sh]]) [[]] sent m" "slaveseldb m = 3" by auto
  obtain c where c: "createClient sv_ex 6 = Some c" using createClient_ok [of sv_ex 6] by blast
  have "\<not> masterhost m" using m(3) m0(10) by (simp add: stream_step_def)
  then have "asks sv_ex ext m (c\<lparr>c_argv := args\<rparr>)" for args by (intro new_client_asks [OF m(2) c]) (simp_all add: ae)
  then show ?thesis using m0 m c crlf_event(2) [OF m0(2)] crlf_event(2) [OF m(2)]
    by (intro exI [of _ sh] exI [of _ sel] exI [of _ m0] exI [of _ ext] exI [of _ sent] exI [of _ m] exI [of _ c])
      (simp add: stream_step_def command_prefix_def)
qed


theorem psync_resumes_witness:
  "\<exists>sh sel m0 sent0 m c c' m1 sent m'. started sv_ex (lit ''a1'') = Some (sh, sel, m0) \<and>
    for_each [Propagate 3 [sh_crlf sh]] (run_repl sv_ex sh sel) ([[]], m0) = Some (sent0, m) \<and> createClient sv_ex 6 = Some c \<and>
    syncCommand sv_ex 128 True m (c\<lparr>c_argv := [lit ''PSYNC'', lit ''A1'', lit ''2'']\<rparr>) = Some (CONTINUE, c', m1) \<and>
    for_each [Propagate 3 [sh_crlf sh]] (run_repl sv_ex sh sel) (replicate (length (slaves m1)) [], m1) = Some (sent, m') \<and>
    sent ! 1 @ pending (joined m' (slaves m' ! 1)) = selects 3 @ request [CRLF] @ request [CRLF]"
proof -
  obtain sh sel m0 ext sent0 m c where m: "started sv_ex (lit ''a1'') = Some (sh, sel, m0)"
      "for_each [Propagate 3 [sh_crlf sh]] (run_repl sv_ex sh sel) ([[]], m0) = Some (sent0, m)" "createClient sv_ex 6 = Some c"
      "master_ok sv_ex ext sh sel m" "backlog_rep m (selects 3 @ request [CRLF])" "\<forall>args. asks sv_ex ext m (c\<lparr>c_argv := args\<rparr>)"
      "runid m = lit ''a1''" "slaveseldb m = 3" "master_repl_offset m = 1 + int (length (selects 3 @ request [CRLF]))"
      "repl_backlog_size m = REDIS_DEFAULT_REPL_BACKLOG_SIZE" "object_text m (sh_crlf sh) = CRLF" "length (slaves m) = 1"
    using one_command by (elim exE conjE)
  have l: "length (selects 3 @ request [CRLF]) \<le> REDIS_DEFAULT_REPL_BACKLOG_SIZE"
    by (simp add: selects_def request_def bulks_def bulk_def lit_def CRLF_def dec_small print_ll_def REDIS_DEFAULT_REPL_BACKLOG_SIZE_def)
  have h: "repl_backlog_histlen m = length (selects 3 @ request [CRLF])" "repl_backlog_off m = 2"
    using m(5,9,10) l by (auto simp: backlog_rep_def)
  have "strcaseeq (lit ''PSYNC'') (lit ''psync'')" "strcaseeq (lit ''A1'') (runid m)" "getLongLongFromObject (lit ''2'') = Some 2"
    unfolding m(7) by (simp_all add: strcaseeq_def c_str_def tolower_def lit_def getLongLongFromObject_def strtoll_def isspace_def isdigit_def)
  note args = this
  have "repl_backlog_size m < 2 ^ 32" "length CONTINUE \<le> 128" "repl_backlog_off m \<le> 2" "2 \<le> repl_backlog_off m + int (repl_backlog_histlen m)"
    using h by (simp_all add: m(10) REDIS_DEFAULT_REPL_BACKLOG_SIZE_def CONTINUE_def lit_def CRLF_def)
  note bounds = this
  have "list_all (repl_event_ok ext m) [Propagate 3 [sh_crlf sh]]" using crlf_event(1) [OF m(4)] by simp
  from psync_resumes [where bgsave = True, OF m(4,5) bounds(1) spec [OF m(6), of "[lit ''PSYNC'', lit ''A1'', lit ''2'']"] _ args bounds(3,4,2) this] obtain c' m1 sent m' where
    r: "syncCommand sv_ex 128 True m (c\<lparr>c_argv := [lit ''PSYNC'', lit ''A1'', lit ''2'']\<rparr>) = Some (CONTINUE, c', m1)"
      "for_each [Propagate 3 [sh_crlf sh]] (run_repl sv_ex sh sel) (replicate (length (slaves m1)) [], m1) = Some (sent, m')"
      "sent ! 1 @ pending (joined m' (slaves m' ! 1)) = selects 3 @ request [CRLF] @ request [CRLF]"
    using m(8,9,11,12) by (auto simp: command_prefix_def)
  then show ?thesis using m(1-3) by blast
qed


lemma child_cong:
  "master_ok sv ext sh sel (m\<lparr>rdb_child := x\<rparr>) = master_ok sv ext sh sel m" "backlog_rep (m\<lparr>rdb_child := x\<rparr>) T = backlog_rep m T"
  "asks sv ext (m\<lparr>rdb_child := x\<rparr>) c = asks sv ext m c"
proof -
  have j: "joined (m\<lparr>rdb_child := x\<rparr>) = joined m" by (simp add: joined_def fun_eq_iff)
  have w: "world sv ext (m\<lparr>rdb_child := x\<rparr>) cs = world sv ext m cs" for cs by (rule world_cong) simp_all
  show "master_ok sv ext sh sel (m\<lparr>rdb_child := x\<rparr>) = master_ok sv ext sh sel m" unfolding master_ok_def j by (simp add: w)
  show "backlog_rep (m\<lparr>rdb_child := x\<rparr>) T = backlog_rep m T" by (simp add: backlog_rep_def)
  show "asks sv ext (m\<lparr>rdb_child := x\<rparr>) c = asks sv ext m c" by (simp add: asks_def w)
qed

text \<open>
  An offset that is not a number is answered twice: with an error line in the output buffer and
  with \<open>+FULLRESYNC\<close> on the socket.  The error line stays in front of the commands that the
  slave is sent after its data set.
\<close>

lemma psync_bad_offset:
  assumes ok: "master_ok sv ext sh sel m" and b: "backlog_rep m T" and a: "asks sv ext m c"
    and argv: "c_argv c = [cmd, rid, arg]" "strcaseeq rid (runid m)" "getLongLongFromObject arg = None"
    and len: "length (full_text (runid m) (master_repl_offset m)) < 128" "128 \<le> wr"
  shows "\<exists>c'. masterTryPartialResynchronization sv wr m c = Some (False, full_text (runid m) (master_repl_offset m), c', keep_heap c' m) \<and>
    pending c' = lit ''-ERR value is not an integer or out of range'' @ CRLF"
proof -
  let ?e = "held_by ext (slaves m)"
  have w: "world sv ext m (slaves m @ c # [])" "accepts sv c" using a by (simp_all add: asks_def)
  have i: "send_inv sv ?e (joined m c)" using world_take [OF w(1)] by simp
  have sh: "shared_ok ?e sh (joined m c)" using shared_joined [of ext sh m ?e c] ok held_by_ge [of ext _ "slaves m"] by (simp add: master_ok_def)
  have r: "ready sv ?e sh (joined m c)" using i w(2) sh by (simp add: ready_def send_inv_def accepts_joined)
  define t where "t = lit ''value is not an integer or out of range''"
  have t: "c_str (t @ [0]) = t" "length t < 2 ^ 32" using c_str_prefix [of t "[]"] by (simp_all add: t_def lit_def)
  obtain c' where c': "addReplyError sv (t @ [0]) (joined m c) = Some c'" "appended sv ?e (joined m c) (lit ''-ERR '' @ t @ CRLF) c'"
    using addReplyError_ok [OF r, of "t @ [0]"] t by auto
  have "pending (joined m c) = []" using a by (simp add: asks_def pending_def ost_def texts_def all_bytes_def flat_def)
  then have p: "pending c' = lit ''-ERR '' @ t @ CRLF" using appended_delivers [OF i c'(2)] by (simp add: delivers_def)
  have nb: "repl_backlog (keep_heap c' m) \<noteq> None" using backlog_some [OF b] by (simp add: keep_heap_def)
  have f: "runid (keep_heap c' m) = runid m" "master_repl_offset (keep_heap c' m) = master_repl_offset m" by (simp_all add: keep_heap_def)
  have "masterTryPartialResynchronization sv wr m c = fullResyncReply wr (keep_heap c' m) c'"
    using argv c'(1) by (simp add: masterTryPartialResynchronization_def mem_get_def getLongLongFromObjectOrReply_def t_def)
  also have "\<dots> = Some (False, full_text (runid m) (master_repl_offset m), c', keep_heap c' m)"
    using fullResyncReply_ok [OF nb, of wr c'] len by (simp add: f)
  finally show ?thesis using p by (simp add: t_def lit_def)
qed

text \<open>Property C30.
  The offset of \<open>+FULLRESYNC\<close> can be too small.  A slave that has to wait for the next
  background save is told the current offset when it asks.  A command that is propagated
  before that save starts moves the offset on but is not sent to the slave, which gets it
  with the data set: the slave counts from an offset that is behind its data.  What the
  slave is sent is the \<open>SELECT\<close> in front of the command.
\<close>

theorem fullresync_offset_stale:
  assumes ok: "master_ok sv ext sh sel m" and b: "backlog_rep m T" and a: "asks sv ext m c"
    and argv: "c_argv c = [cmd, rid, arg]" "strcaseeq cmd (lit ''psync'')" "\<not> strcaseeq rid (runid m)"
    and ch: "rdb_child m = Some REDIS_RDB_CHILD_TYPE_DISK" "\<forall>d\<in>set (slaves m). c_replstate d \<noteq> REDIS_REPL_WAIT_BGSAVE_END"
    and len: "length (full_text (runid m) (master_repl_offset m)) < 128" "128 \<le> wr"
    and ev: "repl_event_ok ext m (Propagate dictid args)" "0 \<le> dictid"
  shows "\<exists>c' m1 m2. syncCommand sv wr bgsave m c = Some (full_text (runid m) (master_repl_offset m), c', m1) \<and>
    replicationFeedSlaves sv sh sel dictid args m1 = Some m2 \<and>
    c_replstate (slaves m2 ! length (slaves m)) = REDIS_REPL_WAIT_BGSAVE_START \<and>
    pending (joined m2 (slaves m2 ! length (slaves m))) = selects dictid \<and>
    master_repl_offset m2 = master_repl_offset m + int (length (selects dictid @ request (map (object_text m) args)))"
proof -
  from full_resync_waits [OF ok b a argv ch len, of bgsave] obtain c' m1 where
    m1: "syncCommand sv wr bgsave m c = Some (full_text (runid m) (master_repl_offset m), c', m1)" "master_ok sv ext sh sel m1" "backlog_rep m1 T"
      "slaves m1 = slaves m @ [c']" "c_replstate c' = REDIS_REPL_WAIT_BGSAVE_START" "pending (joined m1 c') = []" "slaveseldb m1 = - 1"
      "master_repl_offset m1 = master_repl_offset m" "same_views ext m m1" by (elim exE conjE)
  have ar: "args_ok ext (view (m_heap m)) args (map (object_text m) args)" using ev(1) by simp
  note same = object_text_same [OF m1(9) ar]
  from replicationFeedSlaves_ok [OF m1(2,3) same(2), of dictid] obtain m2 where
    m2: "replicationFeedSlaves sv sh sel dictid args m1 = Some m2" "grew ext m1 T (selects dictid @ request (map (object_text m) args))
      (\<lambda>st. selects dictid @ (if st = REDIS_REPL_WAIT_BGSAVE_START then [] else request (map (object_text m) args))) m2"
    using ev(2) unfolding same(1) by (auto simp: command_prefix_def m1(7))
  define n where "n = length (slaves m)"
  have n: "n < length (slaves m1)" "slaves m1 ! n = c'" by (simp_all add: n_def m1(4))
  have "c_replstate (slaves m2 ! n) = REDIS_REPL_WAIT_BGSAVE_START \<and> pending (joined m2 (slaves m2 ! n)) = selects dictid"
    using grew_moved [OF m1(2) m2(2)] n m1(5,6) unfolding moved_def by auto
  moreover have "master_repl_offset m2 = master_repl_offset m + int (length (selects dictid @ request (map (object_text m) args)))"
    using m2(2) m1(8) by (simp add: grew_def)
  ultimately show ?thesis using m1(1) m2(1) unfolding n_def by blast
qed

theorem fullresync_offset_stale_witness:
  "\<exists>sh sel m0 sent m c c' m1 m2. started sv_ex (lit ''a1'') = Some (sh, sel, m0) \<and>
    for_each [Propagate 3 [sh_crlf sh]] (run_repl sv_ex sh sel) ([[]], m0) = Some (sent, m) \<and> createClient sv_ex 6 = Some c \<and>
    syncCommand sv_ex 128 True (m\<lparr>rdb_child := Some REDIS_RDB_CHILD_TYPE_DISK\<rparr>) (c\<lparr>c_argv := [lit ''PSYNC'', lit ''?'', lit ''-1'']\<rparr>) =
      Some (full_text (lit ''a1'') (master_repl_offset m), c', m1) \<and>
    replicationFeedSlaves sv_ex sh sel 0 [sh_crlf sh] m1 = Some m2 \<and> master_repl_offset m < master_repl_offset m2 \<and>
    pending (joined m2 (slaves m2 ! 1)) = selects 0"
proof -
  obtain sh sel m0 ext sent m c where m: "started sv_ex (lit ''a1'') = Some (sh, sel, m0)"
      "for_each [Propagate 3 [sh_crlf sh]] (run_repl sv_ex sh sel) ([[]], m0) = Some (sent, m)" "createClient sv_ex 6 = Some c"
      "master_ok sv_ex ext sh sel m" "backlog_rep m (selects 3 @ request [CRLF])" "\<forall>args. asks sv_ex ext m (c\<lparr>c_argv := args\<rparr>)"
      "runid m = lit ''a1''" "length (slaves m) = 1" "c_replstate (slaves m ! 0) = REDIS_REPL_ONLINE"
    using one_command by (elim exE conjE)
  define md where "md = m\<lparr>rdb_child := Some REDIS_RDB_CHILD_TYPE_DISK\<rparr>"
  have ok: "master_ok sv_ex ext sh sel md" "backlog_rep md (selects 3 @ request [CRLF])"
      "asks sv_ex ext md (c\<lparr>c_argv := [lit ''PSYNC'', lit ''?'', lit ''-1'']\<rparr>)" using m(4-6) by (simp_all add: md_def child_cong)
  have args: "strcaseeq (lit ''PSYNC'') (lit ''psync'')" "\<not> strcaseeq (lit ''?'') (runid md)"
    by (simp_all add: strcaseeq_def c_str_def tolower_def lit_def md_def m(7))
  have ch: "rdb_child md = Some REDIS_RDB_CHILD_TYPE_DISK" "\<forall>d\<in>set (slaves md). c_replstate d \<noteq> REDIS_REPL_WAIT_BGSAVE_END"
    using m(8,9) by (auto simp: md_def in_set_conv_nth REDIS_REPL_ONLINE_def REDIS_REPL_WAIT_BGSAVE_END_def)
  have len: "length (full_text (runid md) (master_repl_offset md)) < 128" "128 \<le> (128 :: nat)"
    using length_print_ll [of "word_of_int (master_repl_offset md)"] by (simp_all add: full_text_def md_def m(7) lit_def CRLF_def c_str_def)
  from fullresync_offset_stale [where bgsave = True, OF ok _ args ch len crlf_event(1) [OF ok(1), of 0]] obtain c' m1 m2 where
    r: "syncCommand sv_ex 128 True md (c\<lparr>c_argv := [lit ''PSYNC'', lit ''?'', lit ''-1'']\<rparr>) = Some (full_text (lit ''a1'') (master_repl_offset m), c', m1)"
      "replicationFeedSlaves sv_ex sh sel 0 [sh_crlf sh] m1 = Some m2" "pending (joined m2 (slaves m2 ! 1)) = selects 0"
      "master_repl_offset m2 = master_repl_offset m + int (length (selects 0 @ request (map (object_text md) [sh_crlf sh])))"
    using m(7,8) by (auto simp: md_def)
  have "master_repl_offset m < master_repl_offset m2" unfolding r(4) by (simp add: selects_def request_def)
  then show ?thesis using m(1-3) r(1-3) unfolding md_def by blast
qed

text \<open>Property C31.
  A save that fails to start strands the slaves that wait for it.  \<open>updateSlavesWaitingBgsave\<close>
  first moves all slaves that wait for a save to start to the state in which they wait for
  its end, and frees after a failed start those in the first state: there are none any more.
  The slaves stay connected and wait for the end of a save that does not run.
\<close>

theorem failed_bgsave_strands_slaves:
  assumes "\<forall>d\<in>set (slaves m). c_replstate d \<noteq> REDIS_REPL_WAIT_BGSAVE_END" "\<exists>d\<in>set (slaves m). c_replstate d = REDIS_REPL_WAIT_BGSAVE_START"
  shows "updateSlavesWaitingBgsave sv ok type opens False m = Some (m\<lparr>slaves :=
    map (\<lambda>d. if c_replstate d = REDIS_REPL_WAIT_BGSAVE_START then d\<lparr>c_replstate := REDIS_REPL_WAIT_BGSAVE_END\<rparr> else d) (slaves m)\<rparr>)"
proof -
  define cs where "cs = map (\<lambda>d. if c_replstate d = REDIS_REPL_WAIT_BGSAVE_START then d\<lparr>c_replstate := REDIS_REPL_WAIT_BGSAVE_END\<rparr> else d) (slaves m)"
  have "\<forall>d\<in>set cs. c_replstate d \<noteq> REDIS_REPL_WAIT_BGSAVE_START"
    by (auto simp: cs_def REDIS_REPL_WAIT_BGSAVE_START_def REDIS_REPL_WAIT_BGSAVE_END_def)
  then show ?thesis using assms(2) updateLoop_waiting [OF assms(1), of sv ok type opens False "[]" m] freeWaiting_none [of cs sv "[]" "m\<lparr>slaves := cs\<rparr>"]
    by (simp add: updateSlavesWaitingBgsave_def flip: cs_def)
qed

theorem failed_bgsave_strands_slaves_witness:
  "\<exists>m. slaves m = [no_client\<lparr>c_replstate := REDIS_REPL_WAIT_BGSAVE_START\<rparr>] \<and>
    updateSlavesWaitingBgsave sv_ex True REDIS_RDB_CHILD_TYPE_DISK (\<lambda>_. True) False m =
      Some (m\<lparr>slaves := [no_client\<lparr>c_replstate := REDIS_REPL_WAIT_BGSAVE_END\<rparr>]\<rparr>)"
proof -
  define m where "m = (initReplication [])\<lparr>slaves := [no_client\<lparr>c_replstate := REDIS_REPL_WAIT_BGSAVE_START\<rparr>]\<rparr>"
  have "\<forall>d\<in>set (slaves m). c_replstate d \<noteq> REDIS_REPL_WAIT_BGSAVE_END" "\<exists>d\<in>set (slaves m). c_replstate d = REDIS_REPL_WAIT_BGSAVE_START"
    by (simp_all add: m_def REDIS_REPL_WAIT_BGSAVE_START_def REDIS_REPL_WAIT_BGSAVE_END_def)
  from failed_bgsave_strands_slaves [OF this, of sv_ex True REDIS_RDB_CHILD_TYPE_DISK "\<lambda>_. True"] show ?thesis
    by (intro exI [of _ m]) (simp add: m_def)
qed


lemma resizeReplicationBacklog_ok:
  assumes "backlog_rep m T"
  shows "backlog_rep (resizeReplicationBacklog fresh n m) (if int (repl_backlog_size m) = max n (int REDIS_REPL_BACKLOG_MIN_SIZE) then T else [])"
proof -
  define k where "k = nat (max n (int REDIS_REPL_BACKLOG_MIN_SIZE))"
  have k: "(if n < int REDIS_REPL_BACKLOG_MIN_SIZE then int REDIS_REPL_BACKLOG_MIN_SIZE else n) = int k" "max n (int REDIS_REPL_BACKLOG_MIN_SIZE) = int k"
    by (auto simp: k_def)
  have "0 < k" by (simp add: k_def REDIS_REPL_BACKLOG_MIN_SIZE_def)
  then have "mem_alloc fresh k \<noteq> []" by (metis length_mem_alloc list.size(3) less_irrefl)
  then show ?thesis using assms backlog_some [OF assms] unfolding resizeReplicationBacklog_def k Let_def
    by (auto simp: backlog_rep_def ring_def)
qed

end
