(* ===== verification/Spec2Isabelle.thy ===== *)
theory Spec2Isabelle
  imports Intset DictScan DictIter Adlist Crc Cluster Glob Replication
begin

text \<open>
  Redis 3.0.0: the containers, strings, conversions and checksums that the server is
  built on, both sides of a client connection, the replication of a master to its slaves, and
  the local state of a cluster node.
  All paths below are relative to \<^verbatim>\<open>src/redis-3.0.0/src\<close>.

  \<^bold>\<open>The program.\<close>  The server keeps its keyspace in hash tables (\<^verbatim>\<open>dict.c\<close>) whose keys are
  dynamic strings (\<^verbatim>\<open>sds.c\<close>); small sets of integers are sorted arrays (\<^verbatim>\<open>intset.c\<close>); queues
  of every kind, among them the replies of a client, are doubly linked lists (\<^verbatim>\<open>adlist.c\<close>).
  A request arrives in the query buffer of a client, a dynamic string, is parsed into an
  argument vector and handed to the executor of commands (\<^verbatim>\<open>networking.c\<close>).  The commands
  answer by appending to a static buffer and a list of string objects with reference counts
  (\<^verbatim>\<open>networking.c\<close>, \<^verbatim>\<open>object.c\<close>), which the write handler sends in portions.  A master appends the commands that change its
  data to a circular buffer and to the output of its slaves, which are clients too
  (\<^verbatim>\<open>replication.c\<close>); a slave that reconnects asks for the stream from an offset on, or gets the
  whole data set, and executes what it reads like the requests of a client.  In a cluster the
  slot of a key is a checksum of the key (\<^verbatim>\<open>crc16.c\<close>, \<^verbatim>\<open>cluster.c\<close>), and every node keeps a table
  of the owners of slots, of configuration epochs, votes and failure reports.

  \<^bold>\<open>Conventions.\<close>  A structure is a record with the fields of the source, memory is a list of
  bytes, a pointer into it an offset.  A function returns \<open>None\<close> where the C code would access
  memory outside a block, fail an assertion or run into undefined behaviour; results like
  \<open>DICT_ERR\<close> or \<open>REDIS_ERR\<close> are values.  A theorem that gives \<open>Some\<close> therefore states memory
  safety as well.  Machine integers are words where the width matters (hashes, cursors,
  checksums, encodings, 64 bit numbers, flags) and natural numbers with the bound written
  out elsewhere.  The contents of fresh memory, random numbers, the clock, the sizes that the
  allocator reports and the results of system calls are arguments.

  \<^bold>\<open>Theories.\<close>

    \<^item> \<open>Prelude\<close>: machine types, blocks of memory (\<open>mem_read\<close>, \<open>mem_write\<close>, \<open>mem_move\<close>),
      little-endian integers, loops over lists.
    \<^item> \<open>Interfaces\<close>: the contracts as locales: a set with a bounded number of members
      (\<open>bounded_set\<close>), a map up to an equivalence of keys (\<open>map_store\<close>), an \<open>iterator\<close>; with the
      lemmas on sequences of operations that follow from a contract alone.
    \<^item> \<open>Intset\<close>: \<^verbatim>\<open>intset.c\<close> on the bytes of the block.  \<open>intset_set\<close> interprets
      \<open>bounded_set\<close>; the lemmas show that search, insertion with upgrade of the encoding and
      removal keep the array sorted and agree with a mathematical set, and where the 32 bit
      size of the block wraps.
    \<^item> \<open>Dict\<close>, \<open>DictTypes\<close>, \<open>DictScan\<close>, \<open>DictIter\<close>: \<^verbatim>\<open>dict.c\<close> and the dictionary types of
      \<^verbatim>\<open>redis.c\<close>.  The locale \<open>dict_type\<close> fixes a dictionary type whose hash respects its key
      comparison; inside it the operations are shown to be a \<open>map_store\<close>, during rehashing too,
      and \<open>DictTypes\<close> interprets it for the types of the keyspace and of sets.  \<open>DictScan\<close> shows
      which elements a scan by cursor returns while the table grows, \<open>DictIter\<close> interprets
      \<open>iterator\<close> for safe and unsafe iterators and treats random keys.
    \<^item> \<open>Adlist\<close>: \<^verbatim>\<open>adlist.c\<close> on a heap of nodes, as operations on sequences; \<open>list_iter\<close>
      interprets \<open>iterator\<close>.
    \<^item> \<open>Util\<close>, \<open>Glob\<close>: \<^verbatim>\<open>util.c\<close>, decimal printing and strict parsing of 64 bit numbers, and
      the matching of glob patterns against the language that a pattern describes.
    \<^item> \<open>Sds\<close>: \<^verbatim>\<open>sds.c\<close> as operations on byte strings, among them quoting, the splitting of
      argument lines and formats; the lines that \<^verbatim>\<open>replication.c\<close> shows to monitors are read
      back by the splitter.
    \<^item> \<open>Crc\<close>: \<^verbatim>\<open>crc16.c\<close>, \<^verbatim>\<open>crc64.c\<close> and \<open>keyHashSlot\<close>: the tables against bitwise
      division, detection of bursts of errors, hash tags.
    \<^item> \<open>Cluster\<close>: the node table of \<^verbatim>\<open>cluster.c\<close>: slots, roles, epochs, votes, failure reports,
      availability.  The steps of a node form an inductive relation; invariants and the rule of
      one vote per epoch are proved by rule induction over reachable states.
    \<^item> \<open>Reply\<close>, \<open>ReplyHeap\<close>, \<open>ReplyStream\<close>: the output side of a client (\<^verbatim>\<open>networking.c\<close>,
      \<^verbatim>\<open>object.c\<close>, shared objects of \<^verbatim>\<open>redis.c\<close>): definitions, the invariant of buffers and
      reference counts, and the stream that a client receives under any interleaving of
      replies and partial writes.
    \<^item> \<open>Network\<close>, \<open>NetworkStream\<close>: the input side of a client (\<^verbatim>\<open>networking.c\<close>): the parsers
      and the read handler, their safety under arbitrary input, and the requests that a stream
      of multi bulk requests, cut into portions in any way, makes the server execute.
    \<^item> \<open>Backlog\<close>, \<open>Slaves\<close>, \<open>Replication\<close>: the master in \<^verbatim>\<open>replication.c\<close>.  \<open>Backlog\<close> has the
      circular buffer and the bytes it stands for (\<open>backlog_rep\<close>), \<open>Slaves\<close> the slaves as
      clients whose outputs share one heap of reply objects (\<open>world\<close>), \<open>Replication\<close> the
      propagation of commands, \<open>SYNC\<close>, \<open>PSYNC\<close> and the states of a slave around a background
      save.  The lemmas show that the backlog and all slaves are given the same stream, that a
      partial resynchronisation resumes it without a gap, and two defects of full
      resynchronisation.  The theorem at the end of the present theory composes \<open>Replication\<close>
      with \<open>NetworkStream\<close>: a slave executes what its master propagates.

  \<^bold>\<open>Bounds and fuel.\<close>  Loops are total functions with a measure, or recursion over a list.
  Where the code may run for ever, \<open>partial_function\<close> is used and termination is a theorem:
  \<open>dictRehashMilliseconds\<close> returns because the table to move is finite, \<open>dictGetRandomKey\<close> for a
  sequence of random numbers that meets a used bucket, \<open>processInputBuffer\<close> because every
  request consumes bytes, \<open>stringmatchlen\<close> because each step shortens the pattern or the string.
  Strings stay below \<open>2 ^ 31\<close> bytes, the range in which the signed lengths of \<^verbatim>\<open>sds.c\<close> are
  exact, and the query buffer below its configured limit of at most \<open>2 ^ 30\<close>.  The
  backlog is shorter than \<open>2 ^ 32\<close> bytes where it is read in one reply.  Replication offsets
  are integers without a bound: 64 bits are not exhausted by any stream that can be
  sent.

  \<^bold>\<open>Contracts.\<close>  The read handler is proved for every executor of commands that does not
  fail, keeps the output side consistent and leaves the parser alone (\<open>executor_ok\<close>), and
  the stream of requests for one that also leaves the client open (\<open>keeps_open\<close>); the comparison
  and hash functions of a dictionary type are related by \<open>dict_type\<close>.

  \<^bold>\<open>Not modelled.\<close>  The event loop and sockets; the dispatch of commands and the command
  bodies (\<^verbatim>\<open>db.c\<close>, \<^verbatim>\<open>t_*.c\<close>, \<^verbatim>\<open>multi.c\<close>, \<^verbatim>\<open>pubsub.c\<close>, \<^verbatim>\<open>sort.c\<close>, \<^verbatim>\<open>bitops.c\<close>), which work
  on the state of the whole server; ziplists and zipmaps; scripting, persistence,
  the cluster bus and sentinel, which are driven by timers, files and sockets; of replication
  the handshake and the transfer of the data set by a slave, \<open>REPLCONF\<close>, \<open>WAIT\<close> and the timer;
  functions that format floating point numbers with \<open>printf\<close>; releasing memory, logging and
  statistics, except for the counters of network traffic.
\<close>

section \<open>From the master to the executor of a slave\<close>

text \<open>Property C2.
  Replication end to end.  A master propagates commands while its slaves take portions of
  their output at any time.  The bytes that a slave with empty output was sent and is still
  to be sent are read by the slave through the client that stands for its master, in
  portions of any size.  Then the slave executes exactly the propagated commands in order,
  with a \<open>SELECT\<close> where the database changes, and keeps the connection.
\<close>

theorem replication_end_to_end:
  assumes m: "master_ok sv ext sh sel m" "backlog_rep m T" "list_all (repl_event_ok ext m) evs"
    and i: "i < length (slaves m)" "c_replstate (slaves m ! i) \<noteq> REDIS_REPL_WAIT_BGSAVE_START" "pending (joined m (slaves m ! i)) = []"
    and cmds: "list_all command_ok (commands_of (object_text m) (slaveseldb m) evs)"
    and link: "masterClient sv' fd off = Some c" "enough n" "executor_ok sv' exec" "keeps_open exec" "never_paused paused"
    and portions: "list_all (\<lambda>k. 0 < k) portions" "length (stream_of (object_text m) (slaveseldb m) evs) \<le> length portions"
  shows "\<exists>sent m' s' c'. for_each evs (run_repl sv sh sel) (replicate (length (slaves m)) [], m) = Some (sent, m') \<and>
    serve sv' n paused exec portions (sent ! i @ pending (joined m' (slaves m' ! i))) s c =
      Some (commands_of (object_text m) (slaveseldb m) evs, [], s', c') \<and> \<not> c_freed c'"
proof -
  from run_repls_ok [OF m, of "replicate (length (slaves m)) []"] obtain sent m' where
    r: "for_each evs (run_repl sv sh sel) (replicate (length (slaves m)) [], m) = Some (sent, m')"
      "stream_step ext m T (stream_of (object_text m) (slaveseldb m) evs) (replicate (length (slaves m)) []) sent m'" by auto
  have "sent ! i @ pending (joined m' (slaves m' ! i)) = requests (commands_of (object_text m) (slaveseldb m) evs)"
    using r(2) i by (simp add: stream_step_def stream_commands)
  then show ?thesis using r(1) link_serves [OF link(1) cmds link(2-5) portions(1), of s] portions(2) by (simp add: stream_commands)
qed

theorem replication_end_to_end_witness:
  "\<exists>sh sel m c sent m' s' c'. started sv_ex (lit ''a1'') = Some (sh, sel, m) \<and> masterClient sv_ex 5 1 = Some c \<and>
    for_each [Propagate 3 [sh_crlf sh], Transmit 0 [7]] (run_repl sv_ex sh sel) ([[]], m) = Some (sent, m') \<and>
    serve sv_ex (2 ^ 30) (\<lambda>s. (False, s)) (\<lambda>s c. Some (True, s, c)) (replicate 64 3) (sent ! 0 @ pending (joined m' (slaves m' ! 0))) () c =
      Some ([[lit ''SELECT'', lit ''3''], [CRLF]], [], s', c')"
proof -
  have "sv_ae_ok sv_ex" by (simp add: sv_ex_def)
  from started_ok [OF this, of "lit ''a1''"] obtain sh sel m ext where
    m: "started sv_ex (lit ''a1'') = Some (sh, sel, m)" "master_ok sv_ex ext sh sel m" "backlog_rep m []" "length (slaves m) = 1"
      "c_replstate (slaves m ! 0) = REDIS_REPL_ONLINE" "pending (joined m (slaves m ! 0)) = []" "slaveseldb m = - 1" by (elim exE conjE)
  obtain c0 where "createClient sv_ex 5 = Some c0" using createClient_ok [of sv_ex 5] by blast
  then obtain c where c: "masterClient sv_ex 5 1 = Some c" by (simp add: masterClient_def)
  define evs where "evs = [Propagate 3 [sh_crlf sh], Transmit 0 [7]]"
  have evs: "list_all (repl_event_ok ext m) evs" using crlf_event(1) [OF m(2)] by (simp add: evs_def)
  have three: "print_ll (word_of_int 3) = lit ''3''" using print_ll_nat(1) [of 3] by (simp add: dec_small lit_def)
  have cm: "commands_of (object_text m) (slaveseldb m) evs = [[lit ''SELECT'', lit ''3''], [CRLF]]"
    using crlf_event(2) [OF m(2)] by (simp only: evs_def commands_of.simps m(7) three list.map if_True) simp
  have i: "0 < length (slaves m)" "c_replstate (slaves m ! 0) \<noteq> REDIS_REPL_WAIT_BGSAVE_START"
    using m(4,5) by (simp_all add: REDIS_REPL_ONLINE_def REDIS_REPL_WAIT_BGSAVE_START_def)
  have ok: "list_all command_ok (commands_of (object_text m) (slaveseldb m) evs)" unfolding cm
    by (simp add: command_ok_def MAX_BULK_def lit_def CRLF_def)
  have en: "enough (2 ^ 30)" by (simp add: enough_def MAX_BULK_def REDIS_INLINE_MAX_SIZE_def)
  have ex: "keeps_open (\<lambda>s c. Some (True, s, c))" "never_paused (\<lambda>s. (False, s))" by (simp_all add: keeps_open_def never_paused_def)
  have len: "length (stream_of (object_text m) (slaveseldb m) evs) \<le> length (replicate 64 (3 :: nat))"
    unfolding stream_commands cm by (simp add: requests_def request_def bulks_def bulk_def lit_def CRLF_def dec_small)
  have po: "list_all (\<lambda>k. 0 < k) (replicate 64 (3 :: nat))" by (simp add: list_all_iff)
  from replication_end_to_end [OF m(2,3) evs i m(6) ok c en executor_ok_skip ex po len, of "()"] show ?thesis
    using m(1,4) c unfolding cm by (auto simp: evs_def)
qed

end
